(* ===== verification/Threa_Prelude.thy ===== *)
theory Threa_Prelude
  imports Complex_Main "HOL-Library.AList" "HOL-Library.Multiset"
begin

text \<open>
  Shared vocabulary of the development: timestamps, SQL tables as lists of rows with the
  statement forms the repositories use (\<open>UPDATE .. WHERE\<close>, \<open>DELETE .. WHERE\<close>,
  \<open>ORDER BY .. LIMIT\<close>), JavaScript numbers that may be infinite, dates, and the generic
  lemmas on lists, association lists and intervals of integers that the component
  theories share.  A table is a list because PostgreSQL hands rows back in some order; where
  an \<open>ORDER BY\<close> leaves ties open, the model takes the insertion order, one of the orders
  PostgreSQL may return.  Times are integers counting milliseconds.
\<close>

named_theorems table_simps \<open>rewriting of SQL statement forms\<close>
named_theorems step_inv \<open>one-step preservation of a component invariant\<close>

type_synonym timestamp = int
type_synonym 'r table = "'r list"

section \<open>SQL statement forms\<close>

definition sql_update :: "('r \<Rightarrow> bool) \<Rightarrow> ('r \<Rightarrow> 'r) \<Rightarrow> 'r table \<Rightarrow> 'r table" where
  "sql_update p f rows = map (\<lambda>r. if p r then f r else r) rows"

definition sql_delete :: "('r \<Rightarrow> bool) \<Rightarrow> 'r table \<Rightarrow> 'r table" where
  "sql_delete p rows = filter (\<lambda>r. \<not> p r) rows"

definition sql_count :: "('r \<Rightarrow> bool) \<Rightarrow> 'r table \<Rightarrow> nat" where
  "sql_count p rows = length (filter p rows)"

definition order_limit :: "('r \<Rightarrow> 'k::linorder) \<Rightarrow> int \<Rightarrow> 'r table \<Rightarrow> 'r table" where
  "order_limit k n rows = take (nat n) (sort_key k rows)"

text \<open>\<open>GREATEST\<close> and \<open>LEAST\<close> of PostgreSQL ignore nulls.\<close>

fun sql_greatest :: "'a::linorder option \<Rightarrow> 'a option \<Rightarrow> 'a option" where
  "sql_greatest None y = y"
| "sql_greatest x None = x"
| "sql_greatest (Some x) (Some y) = Some (max x y)"

text \<open>A comparison with null is null, which a \<open>WHERE\<close> treats as false.\<close>

fun sql_lt :: "'a::linorder option \<Rightarrow> 'a \<Rightarrow> bool" where
  "sql_lt None _ = False"
| "sql_lt (Some x) y = (x < y)"

fun sql_le :: "'a::linorder option \<Rightarrow> 'a \<Rightarrow> bool" where
  "sql_le None _ = False"
| "sql_le (Some x) y = (x \<le> y)"

lemma sql_lt_iff [simp]: "sql_lt x y \<longleftrightarrow> (\<exists>v. x = Some v \<and> v < y)"
  by (cases x) auto

lemma sql_le_iff [simp]: "sql_le x y \<longleftrightarrow> (\<exists>v. x = Some v \<and> v \<le> y)"
  by (cases x) auto

lemma sql_update_Nil [simp]: "sql_update p f [] = []"
  by (simp add: sql_update_def)

lemma sql_update_Cons [simp]:
  "sql_update p f (r # rs) = (if p r then f r else r) # sql_update p f rs"
  by (simp add: sql_update_def)

lemma length_sql_update [simp]: "length (sql_update p f rows) = length rows"
  by (simp add: sql_update_def)

lemma set_sql_update: "set (sql_update p f rows) = (\<lambda>r. if p r then f r else r) ` set rows"
  by (simp add: sql_update_def)

lemma sql_update_key [table_simps]:
  "(\<And>r. p r \<Longrightarrow> k (f r) = k r) \<Longrightarrow> map k (sql_update p f rows) = map k rows"
  by (induction rows) auto

lemma sql_update_none [table_simps]: "(\<And>r. r \<in> set rows \<Longrightarrow> \<not> p r) \<Longrightarrow> sql_update p f rows = rows"
  by (induction rows) auto

lemma sql_count_0_iff: "sql_count p rows = 0 \<longleftrightarrow> (\<forall>r\<in>set rows. \<not> p r)"
  by (simp add: sql_count_def filter_empty_conv)

lemma sql_update_count_0: "sql_count p rows = 0 \<Longrightarrow> sql_update p f rows = rows"
  by (rule sql_update_none) (auto simp: sql_count_0_iff)

lemma set_sql_delete [simp]: "set (sql_delete p rows) = {r \<in> set rows. \<not> p r}"
  by (simp add: sql_delete_def)

lemma length_sql_delete: "length (sql_delete p rows) + sql_count p rows = length rows"
  by (simp add: sql_delete_def sql_count_def) (metis add.commute sum_length_filter_compl)

lemma distinct_key_filter: "distinct (map k rows) \<Longrightarrow> distinct (map k (filter p rows))"
  by (simp add: distinct_map_filter)

text \<open>
  An update keyed by a primary key touches one row at most; looking the row up afterwards
  gives the updated one.
\<close>

lemma find_sql_update:
  assumes "\<And>r. k (f r) = k r"
  shows "find (\<lambda>r. k r = i) (sql_update (\<lambda>r. k r = i \<and> q r) f rows) =
    map_option (\<lambda>r. if q r then f r else r) (find (\<lambda>r. k r = i) rows)"
  using assms by (induction rows) auto

lemma find_sql_update_other:
  assumes "\<And>r. k (f r) = k r" and "j \<noteq> i"
  shows "find (\<lambda>r. k r = j) (sql_update (\<lambda>r. k r = i \<and> q r) f rows) = find (\<lambda>r. k r = j) rows"
  using assms by (induction rows) auto

lemma find_Some_iff_key:
  assumes "distinct (map k rows)"
  shows "find (\<lambda>r. k r = i) rows = Some r \<longleftrightarrow> r \<in> set rows \<and> k r = i"
  using assms
proof (induction rows)
  case (Cons a rows)
  then show ?case by (auto simp: image_iff)
qed simp

lemma find_append: "find p (xs @ ys) = (case find p xs of None \<Rightarrow> find p ys | Some x \<Rightarrow> Some x)"
  by (induction xs) auto

section \<open>Ordering with a limit\<close>

lemma set_order_limit: "set (order_limit k n rows) \<subseteq> set rows"
  unfolding order_limit_def by (metis set_sort set_take_subset)

lemma set_order_limitD: "r \<in> set (order_limit k n rows) \<Longrightarrow> r \<in> set rows"
  by (rule subsetD [OF set_order_limit])

lemma length_order_limit: "length (order_limit k n rows) = min (nat n) (length rows)"
  by (simp add: order_limit_def min.commute)

lemma sorted_order_limit: "sorted (map k (order_limit k n rows))"
  by (simp add: order_limit_def take_map [symmetric] sorted_wrt_take)

lemma distinct_order_limit: "distinct (map f rows) \<Longrightarrow> distinct (map f (order_limit k n rows))"
proof -
  assume "distinct (map f rows)"
  moreover have "mset (map f (sort_key k rows)) = mset (map f rows)" by simp
  ultimately have "distinct (map f (sort_key k rows))" by (metis mset_eq_imp_distinct_iff)
  then show ?thesis by (simp add: order_limit_def take_map [symmetric])
qed

lemma order_limit_Nil_iff: "0 < n \<Longrightarrow> order_limit k n rows = [] \<longleftrightarrow> rows = []"
  unfolding order_limit_def
  by (metis length_0_conv length_sort less_numeral_extra(3) take_eq_Nil zero_less_nat_eq)

lemma order_limit_first:
  assumes "order_limit k 1 xs = a # rest" "x \<in> set xs"
  shows "k a \<le> k x"
proof -
  obtain ys where y: "sort_key k xs = a # ys" using assms(1) by (cases "sort_key k xs") (auto simp: order_limit_def)
  have "sorted (map k (sort_key k xs))" by simp
  then have "\<forall>z\<in>set ys. k a \<le> k z" unfolding y by simp
  moreover have "x \<in> set (a # ys)" unfolding y [symmetric] using assms(2) by simp
  ultimately show ?thesis by auto
qed

lemma order_limit_all: "length rows \<le> nat n \<Longrightarrow> order_limit k n rows = sort_key k rows"
  by (simp add: order_limit_def)

text \<open>The rows left out are not before the rows taken.\<close>

lemma order_limit_le_rest:
  assumes r: "r \<in> set (order_limit k n rows)"
    and s: "s \<in> set rows" "s \<notin> set (order_limit k n rows)"
  shows "k r \<le> k s"
proof -
  let ?xs = "sort_key k rows"
  have "s \<in> set (drop (nat n) ?xs)"
    using s unfolding order_limit_def
    by (metis Un_iff append_take_drop_id set_append set_sort)
  moreover have "sorted (map k (take (nat n) ?xs) @ map k (drop (nat n) ?xs))"
    by (simp add: map_append [symmetric] del: map_append)
  ultimately show ?thesis
    using r unfolding order_limit_def by (auto simp: sorted_append)
qed

section \<open>JavaScript numbers and dates\<close>

text \<open>A number of milliseconds that may be \<open>Number.POSITIVE_INFINITY\<close>.\<close>

datatype js_ms = Ms int | PosInfinity

text \<open>\<open>new Date(x)\<close> drops the fraction of \<open>x\<close> towards zero.\<close>

definition js_Date :: "rat \<Rightarrow> timestamp" where
  "js_Date x = (if 0 \<le> x then \<lfloor>x\<rfloor> else \<lceil>x\<rceil>)"

lemma js_Date_add_nonneg: "0 \<le> t \<Longrightarrow> 0 \<le> x \<Longrightarrow> js_Date (rat_of_int t + x) = t + \<lfloor>x\<rfloor>"
  by (simp add: js_Date_def)

section \<open>Association lists as JavaScript objects\<close>

definition obj_keys :: "('k \<times> 'v) list \<Rightarrow> 'k set" where
  "obj_keys m = fst ` set m"

lemma obj_keys_Nil [simp]: "obj_keys [] = {}"
  by (simp add: obj_keys_def)

lemma obj_keys_Cons [simp]: "obj_keys (x # m) = insert (fst x) (obj_keys m)"
  by (simp add: obj_keys_def)

lemma obj_keys_update [simp]: "obj_keys (AList.update k v m) = insert k (obj_keys m)"
  by (simp add: obj_keys_def dom_update)

lemma obj_keys_delete [simp]: "obj_keys (AList.delete k m) = obj_keys m - {k}"
  by (auto simp: obj_keys_def AList.delete_eq)

lemma obj_keys_filter [simp]: "obj_keys (filter (\<lambda>(k, v). p k) m) = {k \<in> obj_keys m. p k}"
  by (force simp: obj_keys_def)

lemma obj_keys_iff: "k \<in> obj_keys m \<longleftrightarrow> (\<exists>v. (k, v) \<in> set m)"
  by (force simp: obj_keys_def)

lemma obj_keysI: "(k, v) \<in> set m \<Longrightarrow> k \<in> obj_keys m"
  by (force simp: obj_keys_def)

lemma set_map_fst_keys: "set (map fst m) = obj_keys m"
  by (simp add: obj_keys_def)

lemma finite_obj_keys [simp]: "finite (obj_keys m)"
  by (simp add: obj_keys_def)

lemma map_of_None_keys: "map_of m k = None \<longleftrightarrow> k \<notin> obj_keys m"
  by (simp add: map_of_eq_None_iff obj_keys_def)

lemma map_of_Some_keys: "k \<in> obj_keys m \<Longrightarrow> \<exists>v. map_of m k = Some v"
  by (metis map_of_None_keys not_None_eq)

lemma distinct_filter_keys: "distinct (map fst m) \<Longrightarrow> distinct (map fst (filter p m))"
  by (rule distinct_key_filter)

section \<open>Lists\<close>

text \<open>\<open>[...new Set(xs)]\<close> keeps the first occurrence of each element.\<close>

fun js_dedup :: "'a list \<Rightarrow> 'a list" where
  "js_dedup [] = []"
| "js_dedup (x # xs) = x # filter (\<lambda>y. y \<noteq> x) (js_dedup xs)"

lemma set_js_dedup [simp]: "set (js_dedup xs) = set xs"
  by (induction xs) auto

lemma distinct_js_dedup [simp]: "distinct (js_dedup xs)"
  by (induction xs) auto


lemma Min_first_sorted: "sorted (x # xs) \<Longrightarrow> Min (set (x # xs)) = x"
  by (intro Min_eqI) auto

lemma foldl_append_map: "foldl (\<lambda>acc x. acc @ [f x]) ys xs = ys @ map f xs"
  by (induction xs arbitrary: ys) auto

end
