(* ===== verification/Outbox_Compact.thy ===== *)
theory Outbox_Compact
  imports Threa_Prelude
begin

text \<open>
  The pure part of \<^verbatim>\<open>packages/backend-common/src/outbox/cursor-lock.ts\<close>: the sliding window of
  processed outbox ids above a base cursor (\<open>compact\<close>) and the test that decides whether a
  transaction-liveness lookup is needed (\<open>hasUnfilledGaps\<close>).  A \<open>ProcessedIdsMap\<close> is an
  association list from event id to the time it was read; the string keys and ISO dates of
  the source are the integers they print.  The abstract view of a cursor and its window is
  the set \<open>handled\<close> of ids that a listener will not be handed again.
\<close>

type_synonym ProcessedIdsMap = "(int \<times> timestamp) list"

record CompactState =
  cs_cursor :: int
  cs_processedIds :: ProcessedIdsMap

record CompactGapOptions =
  oldestRunningTxnStart :: "timestamp option"
  gapCeilingMs :: "js_ms option"

definition DEFAULT_GAP_WINDOW_MS :: int where "DEFAULT_GAP_WINDOW_MS = 1000"
definition DEFAULT_GAP_CEILING_MS :: int where "DEFAULT_GAP_CEILING_MS = 60000"
definition CLOCK_SKEW_PAD_MS :: int where "CLOCK_SKEW_PAD_MS = 1000"

text \<open>Step 1: merge the new ids, all read now.\<close>

definition mergeNewIds :: "ProcessedIdsMap \<Rightarrow> int list \<Rightarrow> timestamp \<Rightarrow> ProcessedIdsMap" where
  "mergeNewIds processedIds newIds now = foldl (\<lambda>m i. AList.update i now m) processedIds newIds"

text \<open>The liveness proof the guarded compaction asks of an entry, or the ceiling.\<close>

definition provenDead :: "CompactGapOptions \<Rightarrow> timestamp \<Rightarrow> bool" where
  "provenDead opts readAt =
    (case oldestRunningTxnStart opts of
       None \<Rightarrow> True
     | Some t \<Rightarrow> readAt < t - CLOCK_SKEW_PAD_MS)"

definition pastCeiling :: "CompactGapOptions \<Rightarrow> timestamp \<Rightarrow> timestamp \<Rightarrow> bool" where
  "pastCeiling opts now readAt =
    (case gapCeilingMs opts of
       None \<Rightarrow> readAt \<le> now - DEFAULT_GAP_CEILING_MS
     | Some (Ms c) \<Rightarrow> readAt \<le> now - c
     | Some PosInfinity \<Rightarrow> False)"

text \<open>Step 2, one iteration: an entry counts as expired unless one of the two \<open>continue\<close>s applies.\<close>

definition isExpired ::
  "timestamp \<Rightarrow> int \<Rightarrow> CompactGapOptions option \<Rightarrow> timestamp \<Rightarrow> bool" where
  "isExpired now gapWindowMs gapOptions readAt =
    (if readAt > now - gapWindowMs then False
     else case gapOptions of
       None \<Rightarrow> True
     | Some opts \<Rightarrow> provenDead opts readAt \<or> pastCeiling opts now readAt)"

definition maxExpired ::
  "timestamp \<Rightarrow> int \<Rightarrow> CompactGapOptions option \<Rightarrow> int \<Rightarrow> ProcessedIdsMap \<Rightarrow> int" where
  "maxExpired now gapWindowMs gapOptions cursor merged =
    foldl (\<lambda>m (i, readAt). if isExpired now gapWindowMs gapOptions readAt \<and> i > m then i else m)
      cursor merged"

text \<open>Step 5: the \<open>while\<close> loop over the ids contiguous with the base.\<close>

lemma length_AList_delete: "map_of m k = Some v \<Longrightarrow> length (AList.delete k m) < length m"
  by (induction m) (auto simp: AList.delete_eq le_imp_less_Suc split: if_splits)

function advanceContiguous :: "int \<Rightarrow> ProcessedIdsMap \<Rightarrow> int \<times> ProcessedIdsMap" where
  "advanceContiguous newBase remaining =
    (case map_of remaining (newBase + 1) of
       None \<Rightarrow> (newBase, remaining)
     | Some _ \<Rightarrow> advanceContiguous (newBase + 1) (AList.delete (newBase + 1) remaining))"
  by pat_completeness auto
termination
  by (relation "measure (\<lambda>(b, m). length m)") (auto dest: length_AList_delete)

declare advanceContiguous.simps [simp del]

definition compact ::
  "int \<Rightarrow> ProcessedIdsMap \<Rightarrow> int list \<Rightarrow> timestamp \<Rightarrow> int \<Rightarrow> CompactGapOptions option \<Rightarrow> CompactState" where
  "compact cursor processedIds newIds now gapWindowMs gapOptions =
    (let merged = mergeNewIds processedIds newIds now;
         newBase = maxExpired now gapWindowMs gapOptions cursor merged;
         remaining = filter (\<lambda>(i, readAt). i > newBase) merged;
         (newBase', remaining') = advanceContiguous newBase remaining
     in \<lparr>cs_cursor = newBase', cs_processedIds = remaining'\<rparr>)"

text \<open>\<open>hasUnfilledGaps\<close>: a scan of the sorted ids for the first one above the expected id.\<close>

fun gapScan :: "int \<Rightarrow> int list \<Rightarrow> bool" where
  "gapScan expected [] = False"
| "gapScan expected (i # ids) =
    (if i > expected then True
     else if i = expected then gapScan (expected + 1) ids
     else gapScan expected ids)"

definition hasUnfilledGaps :: "int \<Rightarrow> ProcessedIdsMap \<Rightarrow> int list \<Rightarrow> bool" where
  "hasUnfilledGaps cursor processedIds newIds =
    gapScan (cursor + 1) (sort (map fst processedIds @ newIds))"

section \<open>The abstract view: handled ids\<close>

definition handled :: "int \<Rightarrow> ProcessedIdsMap \<Rightarrow> int set" where
  "handled cursor m = {i. i \<le> cursor} \<union> obj_keys m"

abbreviation handled_state :: "CompactState \<Rightarrow> int set" where
  "handled_state s \<equiv> handled (cs_cursor s) (cs_processedIds s)"

lemma handled_iff [simp]: "i \<in> handled c m \<longleftrightarrow> i \<le> c \<or> i \<in> obj_keys m"
  by (auto simp: handled_def)

lemma keys_mergeNewIds [simp]: "obj_keys (mergeNewIds m ids now) = obj_keys m \<union> set ids"
  unfolding mergeNewIds_def by (induction ids arbitrary: m) (auto simp del: set_map)

lemma distinct_mergeNewIds: "distinct (map fst m) \<Longrightarrow> distinct (map fst (mergeNewIds m ids now))"
  unfolding mergeNewIds_def by (induction ids arbitrary: m) (auto intro: distinct_update)

lemma map_of_mergeNewIds:
  "map_of (mergeNewIds m ids now) i = (if i \<in> set ids then Some now else map_of m i)"
  unfolding mergeNewIds_def by (induction ids arbitrary: m) (auto simp: update_conv)

lemma set_mergeNewIds: "set (mergeNewIds m ids now) \<subseteq> set m \<union> set ids \<times> {now}"
proof -
  have "set (AList.update i t m) \<subseteq> insert (i, t) (set m)" for i :: int and t :: timestamp and m
    by (induction m) auto
  then show ?thesis
    unfolding mergeNewIds_def by (induction ids arbitrary: m) (fastforce+)
qed

section \<open>The base the expired entries give\<close>

lemma maxExpired_fold:
  fixes c :: int
  shows "foldl (\<lambda>m (i, readAt). if P readAt \<and> i > m then i else m) c xs =
    Max (insert c {i. \<exists>t. (i, t) \<in> set xs \<and> P t})"
proof (induction xs arbitrary: c)
  case (Cons x xs)
  obtain i t where x: "x = (i, t)" by (cases x)
  let ?A = "{j. \<exists>t. (j, t) \<in> set xs \<and> P t}"
  have fin: "finite ?A"
    by (rule finite_subset [of _ "obj_keys xs"]) (auto intro: obj_keysI)
  have split: "{j. \<exists>u. (j, u) \<in> set (x # xs) \<and> P u} = (if P t then insert i ?A else ?A)"
    by (auto simp: x)
  show ?case
  proof (cases "?A = {}")
    case True
    then show ?thesis unfolding split by (simp add: x Cons.IH max_def del: Collect_empty_eq)
  next
    case False
    with fin show ?thesis
      unfolding split by (simp add: x Cons.IH max_def del: Collect_empty_eq)
  qed
qed simp

lemma maxExpired_eq:
  "maxExpired now w opts c xs =
    Max (insert c {i. \<exists>t. (i, t) \<in> set xs \<and> isExpired now w opts t})"
  unfolding maxExpired_def by (rule maxExpired_fold)

lemma finite_expired: "finite {i. \<exists>t. (i, t) \<in> set xs \<and> P t}"
  by (rule finite_subset [of _ "obj_keys xs"]) (auto intro: obj_keysI)

lemma maxExpired_ge: "c \<le> maxExpired now w opts c xs"
  by (simp add: maxExpired_eq finite_expired)

lemma maxExpired_ge_expired:
  "(i, t) \<in> set xs \<Longrightarrow> isExpired now w opts t \<Longrightarrow> i \<le> maxExpired now w opts c xs"
  unfolding maxExpired_eq by (rule Max_ge) (auto simp: finite_expired)

lemma maxExpired_cases:
  obtains "maxExpired now w opts c xs = c"
  | t where "(maxExpired now w opts c xs, t) \<in> set xs" and "isExpired now w opts t"
      and "c < maxExpired now w opts c xs"
proof -
  have "maxExpired now w opts c xs \<in> insert c {i. \<exists>t. (i, t) \<in> set xs \<and> isExpired now w opts t}"
    unfolding maxExpired_eq by (rule Max_in) (auto simp: finite_expired)
  then show thesis
    using that maxExpired_ge [of c now w opts xs] by (auto simp: le_less)
qed

section \<open>The contiguous run above the base\<close>

lemma advanceContiguous_stop: "b + 1 \<notin> obj_keys m \<Longrightarrow> advanceContiguous b m = (b, m)"
  by (subst advanceContiguous.simps) (simp add: map_of_None_keys [THEN iffD2])

lemma advanceContiguous_step:
  "b + 1 \<in> obj_keys m \<Longrightarrow>
    advanceContiguous b m = advanceContiguous (b + 1) (AList.delete (b + 1) m)"
  by (subst advanceContiguous.simps) (auto dest: map_of_Some_keys)

lemma advanceContiguous_induct [case_names stop step]:
  fixes P :: "int \<Rightarrow> ProcessedIdsMap \<Rightarrow> bool"
  assumes stop: "\<And>b m. b + 1 \<notin> obj_keys m \<Longrightarrow> P b m"
    and step: "\<And>b m. b + 1 \<in> obj_keys m \<Longrightarrow> P (b + 1) (AList.delete (b + 1) m) \<Longrightarrow> P b m"
  shows "P b m"
proof (induction b m rule: advanceContiguous.induct)
  case (1 b m)
  show ?case
  proof (cases "b + 1 \<in> obj_keys m")
    case True
    then obtain t where "map_of m (b + 1) = Some t" by (metis map_of_Some_keys)
    from step [OF True 1 [OF this]] show ?thesis .
  qed (rule stop)
qed

lemma handled_advanceContiguous:
  "handled (fst (advanceContiguous b m)) (snd (advanceContiguous b m)) = handled b m"
proof (induction b m rule: advanceContiguous_induct)
  case (step b m)
  have "handled (b + 1) (AList.delete (b + 1) m) = handled b m"
    using step(1) by (auto simp: handled_def order.order_iff_strict zless_add1_eq)
  with step show ?case by (simp add: advanceContiguous_step [OF step(1)])
qed (simp add: advanceContiguous_stop)

lemma advanceContiguous_stops:
  "fst (advanceContiguous b m) + 1 \<notin> obj_keys (snd (advanceContiguous b m))"
proof (induction b m rule: advanceContiguous_induct)
  case (step b m)
  then show ?case by (simp add: advanceContiguous_step [OF step(1)])
qed (simp add: advanceContiguous_stop)

lemma advanceContiguous_ge: "b \<le> fst (advanceContiguous b m)"
proof (induction b m rule: advanceContiguous_induct)
  case (step b m)
  then show ?case by (simp add: advanceContiguous_step [OF step(1)])
qed (simp add: advanceContiguous_stop)

lemma advanceContiguous_above:
  "\<forall>i\<in>obj_keys m. b < i \<Longrightarrow>
    \<forall>i\<in>obj_keys (snd (advanceContiguous b m)). fst (advanceContiguous b m) < i"
proof (induction b m rule: advanceContiguous_induct)
  case (step b m)
  have "\<forall>i\<in>obj_keys (AList.delete (b + 1) m). b + 1 < i"
    using step.prems by (simp add: order.strict_iff_order zless_imp_add1_zle)
  with step show ?case by (simp add: advanceContiguous_step [OF step(1)])
qed (simp add: advanceContiguous_stop)

lemma advanceContiguous_subset: "set (snd (advanceContiguous b m)) \<subseteq> set m"
proof (induction b m rule: advanceContiguous_induct)
  case (step b m)
  then show ?case by (auto simp: advanceContiguous_step [OF step(1)] AList.delete_eq)
qed (simp add: advanceContiguous_stop)

lemma distinct_advanceContiguous:
  "distinct (map fst m) \<Longrightarrow> distinct (map fst (snd (advanceContiguous b m)))"
proof (induction b m rule: advanceContiguous_induct)
  case (step b m)
  then show ?case by (simp add: advanceContiguous_step [OF step(1)] distinct_delete)
qed (simp add: advanceContiguous_stop)

lemma advanceContiguous_le:
  assumes "{b<..c} \<subseteq> obj_keys m"
  shows "c \<le> fst (advanceContiguous b m)"
proof (rule ccontr)
  assume less: "\<not> c \<le> fst (advanceContiguous b m)"
  have "b < fst (advanceContiguous b m) + 1" using advanceContiguous_ge [of b m] by simp
  with less have "fst (advanceContiguous b m) + 1 \<in> obj_keys m" using assms by auto
  then have "fst (advanceContiguous b m) + 1 \<in> handled b m" by simp
  then have "fst (advanceContiguous b m) + 1 \<in>
      handled (fst (advanceContiguous b m)) (snd (advanceContiguous b m))"
    by (simp only: handled_advanceContiguous)
  then show False using advanceContiguous_stops [of b m] by simp
qed

section \<open>Compaction\<close>

abbreviation merged_base :: "int \<Rightarrow> ProcessedIdsMap \<Rightarrow> int list \<Rightarrow> timestamp \<Rightarrow> int \<Rightarrow> CompactGapOptions option \<Rightarrow> int" where
  "merged_base c m ids now w opts \<equiv> maxExpired now w opts c (mergeNewIds m ids now)"

lemma compact_cursor:
  "cs_cursor (compact c m ids now w opts) =
    fst (advanceContiguous (merged_base c m ids now w opts)
      (filter (\<lambda>(i, t). i > merged_base c m ids now w opts) (mergeNewIds m ids now)))"
  by (simp add: compact_def Let_def split: prod.split)

lemma compact_ids:
  "cs_processedIds (compact c m ids now w opts) =
    snd (advanceContiguous (merged_base c m ids now w opts)
      (filter (\<lambda>(i, t). i > merged_base c m ids now w opts) (mergeNewIds m ids now)))"
  by (simp add: compact_def Let_def split: prod.split)

lemma handled_compact:
  "handled_state (compact c m ids now w opts) =
    {i. i \<le> merged_base c m ids now w opts} \<union> obj_keys m \<union> set ids"
  unfolding compact_cursor compact_ids handled_advanceContiguous
  by (auto simp: handled_def)

lemma compact_window_above:
  "\<forall>i\<in>obj_keys (cs_processedIds (compact c m ids now w opts)). cs_cursor (compact c m ids now w opts) < i"
  unfolding compact_cursor compact_ids by (rule advanceContiguous_above) auto

lemma compact_window_not_next:
  "cs_cursor (compact c m ids now w opts) + 1 \<notin> obj_keys (cs_processedIds (compact c m ids now w opts))"
  unfolding compact_cursor compact_ids by (rule advanceContiguous_stops)

lemma compact_cursor_ge: "c \<le> cs_cursor (compact c m ids now w opts)"
  unfolding compact_cursor
  by (rule order_trans [OF maxExpired_ge advanceContiguous_ge])

lemma compact_distinct:
  "distinct (map fst m) \<Longrightarrow> distinct (map fst (cs_processedIds (compact c m ids now w opts)))"
  unfolding compact_ids
  by (intro distinct_advanceContiguous distinct_filter_keys distinct_mergeNewIds)

lemma compact_window_times:
  assumes "(i, t) \<in> set (cs_processedIds (compact c m ids now w opts))"
  shows "(i, t) \<in> set (mergeNewIds m ids now)"
  using assms advanceContiguous_subset unfolding compact_ids by fastforce

lemma compact_cursor_mono:
  assumes "merged_base c m ids now w opts \<le> merged_base c m ids now w opts'"
  shows "cs_cursor (compact c m ids now w opts) \<le> cs_cursor (compact c m ids now w opts')"
proof -
  let ?M = "mergeNewIds m ids now"
  let ?b = "merged_base c m ids now w opts" and ?b' = "merged_base c m ids now w opts'"
  let ?x = "cs_cursor (compact c m ids now w opts)"
  have "{?b'<..?x} \<subseteq> obj_keys (filter (\<lambda>(i, t). i > ?b') ?M)"
  proof
    fix i assume i: "i \<in> {?b'<..?x}"
    then have "i \<in> handled_state (compact c m ids now w opts)" by simp
    then have "i \<in> obj_keys ?M" using i assms unfolding handled_compact by auto
    with i show "i \<in> obj_keys (filter (\<lambda>(i, t). i > ?b') ?M)" by simp
  qed
  then show ?thesis
    unfolding compact_cursor [of c m ids now w opts'] by (rule advanceContiguous_le)
qed

lemma maxExpired_mono:
  assumes "\<And>t. isExpired now w opts t \<Longrightarrow> isExpired now w opts' t"
  shows "maxExpired now w opts c xs \<le> maxExpired now w opts' c xs"
  by (cases rule: maxExpired_cases [of now w opts c xs])
    (use assms in \<open>auto intro: maxExpired_ge maxExpired_ge_expired\<close>)

section \<open>Gaps\<close>

lemma gapScan_iff:
  "sorted ids \<Longrightarrow> gapScan e ids \<longleftrightarrow> (\<exists>i\<in>set ids. \<exists>n. e \<le> n \<and> n < i \<and> n \<notin> set ids)"
proof (induction e ids rule: gapScan.induct)
  case (2 e i ids)
  consider "i > e" | "i = e" | "i < e" by linarith
  then show ?case
  proof cases
    case 1
    then have "e \<notin> set (i # ids)" using "2.prems" by auto
    with 1 show ?thesis by (auto intro!: exI [of _ e])
  next
    case 2
    with "2.IH"(1) "2.prems" show ?thesis by (auto 0 4)
  next
    case 3
    with "2.IH"(2) "2.prems" show ?thesis by (auto 0 4)
  qed
qed simp

lemma hasUnfilledGaps_iff:
  "hasUnfilledGaps c m ids \<longleftrightarrow>
    (\<exists>i\<in>obj_keys m \<union> set ids. \<exists>n. c < n \<and> n < i \<and> n \<notin> obj_keys m \<union> set ids)"
  unfolding hasUnfilledGaps_def by (subst gapScan_iff) (auto simp: set_map_fst_keys [simplified] add1_zle_eq)

end
