(* ===== verification/Json.thy ===== *)
theory Json
  imports Main "HOL-Library.AList"
begin

text \<open>
  JavaScript values as the event payloads hold them.  Payloads are read back from a
  \<open>JSONB\<close> column and cast with \<open>as\<close>, so a field may be missing at run time whatever its static
  type says: \<open>JUndefined\<close> is what reading a missing field gives, and reading a field of
  \<open>undefined\<close> or \<open>null\<close> raises a \<open>TypeError\<close>, which is \<open>None\<close> here.
\<close>

datatype json =
    JUndefined
  | JNull
  | JBool bool
  | JNum int
  | JStr string
  | JArr "json list"
  | JObj "(string \<times> json) list"

text \<open>Property access \<open>v.k\<close>.\<close>

fun jget :: "string \<Rightarrow> json \<Rightarrow> json option" where
  "jget k JUndefined = None"
| "jget k JNull = None"
| "jget k (JObj fs) = Some (case map_of fs k of None \<Rightarrow> JUndefined | Some v \<Rightarrow> v)"
| "jget k _ = Some JUndefined"

text \<open>Truthiness, as in \<open>if (v)\<close> and \<open>v ? a : b\<close>.\<close>

fun truthy :: "json \<Rightarrow> bool" where
  "truthy JUndefined = False"
| "truthy JNull = False"
| "truthy (JBool b) = b"
| "truthy (JNum n) = (n \<noteq> 0)"
| "truthy (JStr s) = (s \<noteq> [])"
| "truthy (JArr _) = True"
| "truthy (JObj _) = True"

text \<open>The nullish coalescing operator \<open>a ?? b\<close>.\<close>

fun coalesce :: "json \<Rightarrow> json \<Rightarrow> json" where
  "coalesce JUndefined b = b"
| "coalesce JNull b = b"
| "coalesce a b = a"

text \<open>Decimal digits of an integer, and template interpolation \<open>`${v}`\<close>.\<close>

fun nat_digits :: "nat \<Rightarrow> string" where
  "nat_digits n =
    (if n < 10 then [char_of (n + 48)] else nat_digits (n div 10) @ [char_of (n mod 10 + 48)])"

declare nat_digits.simps [simp del]

definition int_digits :: "int \<Rightarrow> string" where
  "int_digits i = (if i < 0 then ''-'' @ nat_digits (nat (- i)) else nat_digits (nat i))"

fun join_comma :: "string list \<Rightarrow> string" where
  "join_comma [] = ''''"
| "join_comma [s] = s"
| "join_comma (s # ss) = s @ '','' @ join_comma ss"

fun js_string :: "json \<Rightarrow> string" where
  "js_string JUndefined = ''undefined''"
| "js_string JNull = ''null''"
| "js_string (JBool b) = (if b then ''true'' else ''false'')"
| "js_string (JNum n) = int_digits n"
| "js_string (JStr s) = s"
| "js_string (JArr vs) =
    join_comma (map (\<lambda>v. case v of JUndefined \<Rightarrow> '''' | JNull \<Rightarrow> '''' | _ \<Rightarrow> js_string v) vs)"
| "js_string (JObj _) = ''[object Object]''"

text \<open>Strict equality with a string literal, \<open>v === "lit"\<close>.\<close>

definition js_is :: "json \<Rightarrow> string \<Rightarrow> bool" where
  "js_is v s \<longleftrightarrow> v = JStr s"

text \<open>Iterating or mapping over a value that must be an array; anything else raises.\<close>

fun js_elems :: "json \<Rightarrow> json list option" where
  "js_elems (JArr vs) = Some vs"
| "js_elems _ = None"

text \<open>
  \<open>payload->>'k'\<close> of PostgreSQL: null for a missing or null field.  An array or object would give a text that
  starts with a bracket and equals no id, so it joins nothing, as null does.
\<close>

fun json_text :: "string \<Rightarrow> json \<Rightarrow> string option" where
  "json_text k (JObj fs) =
    (case map_of fs k of
       Some (JStr s) \<Rightarrow> Some s
     | Some (JNum n) \<Rightarrow> Some (int_digits n)
     | Some (JBool b) \<Rightarrow> Some (js_string (JBool b))
     | _ \<Rightarrow> None)"
| "json_text k _ = None"

lemma jget_JObj [simp]: "jget k (JObj fs) = Some (case map_of fs k of None \<Rightarrow> JUndefined | Some v \<Rightarrow> v)"
  by simp

text \<open>\<open>{ ...j, [k]: v }\<close>, and what \<open>jsonb\<close> concatenation does with one field.\<close>

fun put_field :: "string \<Rightarrow> json \<Rightarrow> json \<Rightarrow> json" where
  "put_field k v (JObj fs) = JObj (AList.update k v fs)"
| "put_field k v j = j"

end
