(* ===== verification/Outbox_Repository.thy ===== *)
theory Outbox_Repository
  imports Outbox_Compact Json
begin

text \<open>
  \<^verbatim>\<open>packages/backend-common/src/outbox/repository.ts\<close>: the tables \<open>outbox\<close>,
  \<open>outbox_listeners\<close> and \<open>outbox_dead_letters\<close>, and the statements the generic
  \<open>OutboxRepository\<close> runs on them.  An event row and the \<open>OutboxEvent\<close> the repository maps
  it to hold the same values, so they are one record.  Ids come from a \<open>BIGSERIAL\<close>
  sequence; \<open>outbox_next_id\<close> is the next value it gives out.
\<close>

record OutboxEvent =
  ev_id :: int
  ev_type :: string
  ev_payload :: json
  ev_createdAt :: timestamp

record ListenerRow =
  l_listener_id :: string
  l_last_processed_id :: int
  l_processed_ids :: ProcessedIdsMap
  l_last_processed_at :: "timestamp option"
  l_retry_count :: int
  l_retry_after :: "timestamp option"
  l_last_error :: "string option"
  l_locked_until :: "timestamp option"
  l_lock_run_id :: "string option"
  l_updated_at :: timestamp

record DeadLetter =
  dl_listener_id :: string
  dl_outbox_event_id :: int
  dl_error :: string

record OutboxDb =
  outbox :: "OutboxEvent table"
  outbox_next_id :: int
  outbox_listeners :: "ListenerRow table"
  outbox_dead_letters :: "DeadLetter table"
  outbox_notifies :: nat

datatype OutboxEventProcessingStatus = Status_processed | Status_pending | Status_dead_lettered

text \<open>\<open>INSERT INTO outbox .. RETURNING\<close>, then \<open>NOTIFY\<close>.\<close>

definition insert_event ::
  "OutboxDb \<Rightarrow> timestamp \<Rightarrow> string \<Rightarrow> json \<Rightarrow> OutboxDb \<times> OutboxEvent" where
  "insert_event db txnStart eventType payload =
    (let row = \<lparr>ev_id = outbox_next_id db, ev_type = eventType, ev_payload = payload,
                ev_createdAt = txnStart\<rparr>
     in (db\<lparr>outbox := outbox db @ [row], outbox_next_id := outbox_next_id db + 1,
           outbox_notifies := outbox_notifies db + 1\<rparr>, row))"

fun number_rows :: "int \<Rightarrow> timestamp \<Rightarrow> (string \<times> json) list \<Rightarrow> OutboxEvent list" where
  "number_rows n t [] = []"
| "number_rows n t ((ty, p) # es) =
    \<lparr>ev_id = n, ev_type = ty, ev_payload = p, ev_createdAt = t\<rparr> # number_rows (n + 1) t es"

definition insertMany ::
  "OutboxDb \<Rightarrow> timestamp \<Rightarrow> (string \<times> json) list \<Rightarrow> OutboxDb \<times> OutboxEvent list" where
  "insertMany db txnStart entries =
    (if entries = [] then (db, [])
     else let rows = number_rows (outbox_next_id db) txnStart entries
       in (db\<lparr>outbox := outbox db @ rows,
             outbox_next_id := outbox_next_id db + int (length entries),
             outbox_notifies := outbox_notifies db + 1\<rparr>, rows))"

definition fetchAfterId :: "OutboxDb \<Rightarrow> int \<Rightarrow> int \<Rightarrow> int list \<Rightarrow> OutboxEvent list" where
  "fetchAfterId db afterId limit excludeIds =
    (if excludeIds = [] then
       order_limit ev_id limit (filter (\<lambda>e. ev_id e > afterId) (outbox db))
     else
       order_limit ev_id limit
         (filter (\<lambda>e. ev_id e > afterId \<and> ev_id e \<notin> set excludeIds) (outbox db)))"

definition getRetentionWatermark :: "OutboxDb \<Rightarrow> string list \<Rightarrow> int option" where
  "getRetentionWatermark db listenerIds =
    (if listenerIds = [] then None
     else let rows = filter (\<lambda>r. l_listener_id r \<in> set listenerIds) (outbox_listeners db)
       in if length rows \<noteq> length listenerIds then None
          else if rows = [] then None
          else Some (Min (set (map l_last_processed_id rows))))"

definition getEventStatuses ::
  "OutboxDb \<Rightarrow> string \<Rightarrow> int list \<Rightarrow> (int \<times> OutboxEventProcessingStatus) list" where
  "getEventStatuses db listenerId eventIds =
    (if eventIds = [] then []
     else let dlqIds = set (map dl_outbox_event_id
                (filter (\<lambda>d. dl_listener_id d = listenerId \<and> dl_outbox_event_id d \<in> set eventIds)
                  (outbox_dead_letters db)))
       in case find (\<lambda>r. l_listener_id r = listenerId) (outbox_listeners db) of
            None \<Rightarrow>
              map (\<lambda>i. (i, if i \<in> dlqIds then Status_dead_lettered else Status_pending)) eventIds
          | Some row \<Rightarrow>
              map (\<lambda>i. (i, if i \<in> dlqIds then Status_dead_lettered
                           else if i \<le> l_last_processed_id row \<or> i \<in> obj_keys (l_processed_ids row)
                           then Status_processed else Status_pending)) eventIds)"

definition deleteRetainedEvents :: "OutboxDb \<Rightarrow> int \<Rightarrow> timestamp \<Rightarrow> int \<Rightarrow> OutboxDb \<times> nat" where
  "deleteRetainedEvents db maxEventId createdBefore limit =
    (if limit \<le> 0 then (db, 0)
     else let candidates = map ev_id (order_limit ev_id limit
                (filter (\<lambda>e. ev_id e \<le> maxEventId \<and> ev_createdAt e < createdBefore) (outbox db)))
       in (db\<lparr>outbox := sql_delete (\<lambda>e. ev_id e \<in> set candidates) (outbox db)\<rparr>,
           sql_count (\<lambda>e. ev_id e \<in> set candidates) (outbox db)))"

section \<open>Well-formed outbox\<close>

text \<open>Ids are a primary key and all below the sequence's next value.\<close>

definition outbox_wf :: "OutboxDb \<Rightarrow> bool" where
  "outbox_wf db \<longleftrightarrow>
    distinct (map ev_id (outbox db)) \<and> (\<forall>e\<in>set (outbox db). ev_id e < outbox_next_id db) \<and>
    distinct (map l_listener_id (outbox_listeners db))"

lemma number_rows_ids: "map ev_id (number_rows n t es) = map (\<lambda>k. n + int k) [0..<length es]"
proof (induction n t es rule: number_rows.induct)
  case (2 n t ty p es)
  have "map (\<lambda>k. n + 1 + int k) [0..<length es] = map (\<lambda>k. n + int k) (map Suc [0..<length es])"
    by simp
  also have "\<dots> = map (\<lambda>k. n + int k) [Suc 0..<Suc (length es)]"
    by (simp add: map_Suc_upt)
  finally show ?case using 2 by (simp add: upt_conv_Cons del: upt_Suc)
qed simp

lemma length_number_rows [simp]: "length (number_rows n t es) = length es"
  by (induction n t es rule: number_rows.induct) auto

lemma insertMany_wf: "outbox_wf db \<Longrightarrow> outbox_wf (fst (insertMany db t es))"
proof (cases "es = []")
  case False
  assume wf: "outbox_wf db"
  let ?rows = "number_rows (outbox_next_id db) t es"
  have ids: "set (map ev_id ?rows) = (\<lambda>k. outbox_next_id db + int k) ` {0..<length es}"
    by (simp add: number_rows_ids)
  have dist: "distinct (map ev_id ?rows)"
    by (simp add: number_rows_ids distinct_map inj_on_def)
  have fresh: "set (map ev_id (outbox db)) \<inter> set (map ev_id ?rows) = {}"
    using wf unfolding ids outbox_wf_def by force
  have "ev_id e < outbox_next_id db + int (length es)" if "e \<in> set ?rows" for e
  proof -
    from that have "ev_id e \<in> set (map ev_id ?rows)" by simp
    then show ?thesis unfolding ids by auto
  qed
  with wf dist fresh False show ?thesis
    by (force simp: insertMany_def outbox_wf_def Let_def)
qed (simp add: insertMany_def)

lemma insert_event_wf: "outbox_wf db \<Longrightarrow> outbox_wf (fst (insert_event db t ty p))"
  by (force simp: insert_event_def outbox_wf_def Let_def)

lemma deleteRetainedEvents_wf: "outbox_wf db \<Longrightarrow> outbox_wf (fst (deleteRetainedEvents db m t n))"
  by (auto simp: deleteRetainedEvents_def outbox_wf_def Let_def sql_delete_def distinct_map_filter)

section \<open>What a fetch returns\<close>

text \<open>The events a listener still has to be handed, for a given cursor and window.\<close>

definition unhandled :: "OutboxDb \<Rightarrow> int \<Rightarrow> ProcessedIdsMap \<Rightarrow> OutboxEvent list" where
  "unhandled db c m = filter (\<lambda>e. ev_id e \<notin> handled c m) (outbox db)"

lemma unhandled_outbox: "outbox db' = outbox db \<Longrightarrow> unhandled db' c m = unhandled db c m"
  by (simp add: unhandled_def)

lemma unhandled_code [code]:
  "unhandled db c m = filter (\<lambda>e. \<not> (ev_id e \<le> c \<or> ev_id e \<in> obj_keys m)) (outbox db)"
  by (simp add: unhandled_def)

lemma fetchAfterId_eq:
  "fetchAfterId db c n (map fst m) = order_limit ev_id n (unhandled db c m)"
proof (cases "m = []")
  case True
  then show ?thesis by (simp add: fetchAfterId_def unhandled_def not_le)
next
  case False
  then show ?thesis by (simp add: fetchAfterId_def unhandled_def obj_keys_def not_le)
qed

lemma set_unhandled: "e \<in> set (unhandled db c m) \<longleftrightarrow> e \<in> set (outbox db) \<and> ev_id e \<notin> handled c m"
  by (simp add: unhandled_def)

lemma fetchAfterId_set: "e \<in> set (fetchAfterId db c n (map fst m)) \<Longrightarrow> e \<in> set (unhandled db c m)"
  unfolding fetchAfterId_eq by (rule set_order_limitD)

lemma fetchAfterId_empty_iff:
  "0 < n \<Longrightarrow> fetchAfterId db c n (map fst m) = [] \<longleftrightarrow> unhandled db c m = []"
  unfolding fetchAfterId_eq by (rule order_limit_Nil_iff)

lemma fetchAfterId_first:
  assumes "e \<in> set (fetchAfterId db c n (map fst m))"
    and "d \<in> set (unhandled db c m)" and "d \<notin> set (fetchAfterId db c n (map fst m))"
  shows "ev_id e \<le> ev_id d"
  using assms unfolding fetchAfterId_eq by (rule order_limit_le_rest)

lemma unhandled_mono:
  "handled c m \<subseteq> handled c' m' \<Longrightarrow> length (unhandled db c' m') \<le> length (unhandled db c m)"
proof -
  assume "handled c m \<subseteq> handled c' m'"
  then have eq: "unhandled db c' m' = filter (\<lambda>e. ev_id e \<notin> handled c' m') (unhandled db c m)"
    unfolding unhandled_def by (auto simp del: handled_iff intro!: filter_cong)
  show ?thesis by (subst eq) (rule length_filter_le)
qed

section \<open>Retention\<close>

lemma getRetentionWatermark_le:
  assumes "getRetentionWatermark db ids = Some w" and "distinct ids"
    and "distinct (map l_listener_id (outbox_listeners db))" and "lid \<in> set ids"
  obtains row where "row \<in> set (outbox_listeners db)" and "l_listener_id row = lid"
    and "w \<le> l_last_processed_id row"
proof -
  let ?rows = "filter (\<lambda>r. l_listener_id r \<in> set ids) (outbox_listeners db)"
  from assms(1) have len: "length ?rows = length ids" and w: "w = Min (set (map l_last_processed_id ?rows))"
    by (auto simp: getRetentionWatermark_def Let_def split: if_splits)
  have "set (map l_listener_id ?rows) \<subseteq> set ids" by auto
  moreover have "card (set (map l_listener_id ?rows)) = card (set ids)"
    using assms(2) distinct_map_filter [OF assms(3), of "\<lambda>r. l_listener_id r \<in> set ids"] len
    by (metis distinct_card length_map)
  ultimately have "set (map l_listener_id ?rows) = set ids"
    by (metis List.finite_set card_subset_eq)
  with assms(4) obtain row where row: "row \<in> set ?rows" "l_listener_id row = lid"
    by (metis (no_types, lifting) image_iff set_map)
  then have "w \<le> l_last_processed_id row"
    unfolding w by (intro Min_le) auto
  with row that show thesis by auto
qed

end
