(* ===== verification/Backoff.thy ===== *)
theory Backoff
  imports Threa_Prelude
begin

text \<open>
  \<^verbatim>\<open>packages/backend-common/src/backoff.ts\<close>: exponential backoff with jitter, used by the
  outbox cursor lock and by the queue manager.  JavaScript numbers are rationals here, and
  \<open>random\<close> is the value the injected source returned, a number in \<open>[0, 1)\<close> by the
  documentation of \<open>Math.random\<close>.
\<close>

definition DEFAULT_MAX_BACKOFF_MS :: rat where
  "DEFAULT_MAX_BACKOFF_MS = 5 * 60 * 1000"

record BackoffOptions =
  bo_baseMs :: rat
  bo_retryCount :: int
  bo_maxMs :: "rat option"
  bo_random :: rat

definition calculateBackoffMs :: "BackoffOptions \<Rightarrow> rat" where
  "calculateBackoffMs opts =
    (let maxMs = (case bo_maxMs opts of None \<Rightarrow> DEFAULT_MAX_BACKOFF_MS | Some m \<Rightarrow> m);
         exponential = bo_baseMs opts * power_int 2 (bo_retryCount opts - 1);
         jitter = bo_random opts * bo_baseMs opts;
         backoffMs = exponential + jitter
     in min backoffMs maxMs)"

abbreviation backoff_opts :: "rat \<Rightarrow> int \<Rightarrow> rat \<Rightarrow> BackoffOptions" where
  "backoff_opts base n r \<equiv> \<lparr>bo_baseMs = base, bo_retryCount = n, bo_maxMs = None, bo_random = r\<rparr>"

lemma calculateBackoffMs_le_max:
  "calculateBackoffMs opts \<le> (case bo_maxMs opts of None \<Rightarrow> DEFAULT_MAX_BACKOFF_MS | Some m \<Rightarrow> m)"
  by (simp add: calculateBackoffMs_def Let_def)

lemma calculateBackoffMs_nonneg:
  assumes "0 \<le> bo_baseMs opts" and "0 \<le> bo_random opts"
    and "\<And>m. bo_maxMs opts = Some m \<Longrightarrow> 0 \<le> m"
  shows "0 \<le> calculateBackoffMs opts"
proof -
  have "0 \<le> bo_baseMs opts * power_int 2 (bo_retryCount opts - 1)"
    using assms(1) by simp
  moreover have "0 \<le> bo_random opts * bo_baseMs opts"
    using assms(1,2) by simp
  ultimately show ?thesis
    using assms(3)
    by (simp add: calculateBackoffMs_def Let_def DEFAULT_MAX_BACKOFF_MS_def split: option.split)
qed

text \<open>One more retry doubles the exponential part, which covers any jitter of the last one.\<close>

lemma exponential_step:
  fixes base :: rat
  assumes "0 \<le> base" and "1 \<le> n" and "r < 1" and "0 \<le> r'"
  shows "base * power_int 2 (n - 1) + r * base \<le> base * power_int 2 n + r' * base"
proof -
  have pow: "power_int (2::rat) n = 2 * power_int 2 (n - 1)"
    using power_int_add_1 [of "2::rat" "n - 1"] by simp
  have "(1::rat) \<le> power_int 2 (n - 1)"
    using assms(2) by (intro one_le_power_int) auto
  then have "r + power_int 2 (n - 1) \<le> 2 * power_int 2 (n - 1) + r'"
    using assms(3,4) by linarith
  then have "base * (r + power_int 2 (n - 1)) \<le> base * (2 * power_int 2 (n - 1) + r')"
    using assms(1) by (intro mult_left_mono)
  then show ?thesis by (simp add: pow algebra_simps)
qed

end
