(* ===== verification/Timed_Lease.thy ===== *)
theory Timed_Lease
  imports Threa_Prelude
begin

text \<open>
  The contract every time-based lock of the backend offers: the cursor lock of an outbox
  listener, the claim on a queue message, the lease on a cron tick.  A row names its holder
  and the instant the lease runs out; a claim succeeds on a row whose lease is absent or
  runs out before the claimant's clock plus a pad; renewing and releasing are no-ops for
  anybody but the holder.  The locale proves once what clients rely on: as long as the
  holder renews in time, nobody else becomes the holder, whatever other workers try.
\<close>

datatype 'w lease_op =
    Op_claim 'w timestamp timestamp  \<comment> \<open>worker, its clock, the expiry it asks for\<close>
  | Op_renew 'w timestamp
  | Op_release 'w

fun lease_step ::
  "('w \<Rightarrow> timestamp \<Rightarrow> timestamp \<Rightarrow> 'r \<Rightarrow> 'r option) \<Rightarrow> ('w \<Rightarrow> timestamp \<Rightarrow> 'r \<Rightarrow> 'r) \<Rightarrow> ('w \<Rightarrow> 'r \<Rightarrow> 'r)
    \<Rightarrow> 'w lease_op \<Rightarrow> 'r \<Rightarrow> 'r" where
  "lease_step claim renew release (Op_claim w t u) r = (case claim w t u r of None \<Rightarrow> r | Some r' \<Rightarrow> r')"
| "lease_step claim renew release (Op_renew w u) r = renew w u r"
| "lease_step claim renew release (Op_release w) r = release w r"

definition lease_run ::
  "('w \<Rightarrow> timestamp \<Rightarrow> timestamp \<Rightarrow> 'r \<Rightarrow> 'r option) \<Rightarrow> ('w \<Rightarrow> timestamp \<Rightarrow> 'r \<Rightarrow> 'r) \<Rightarrow> ('w \<Rightarrow> 'r \<Rightarrow> 'r)
    \<Rightarrow> 'w lease_op list \<Rightarrow> 'r \<Rightarrow> 'r" where
  "lease_run claim renew release ops r = fold (lease_step claim renew release) ops r"

text \<open>
  A schedule under which \<open>w\<close> keeps a lease good until \<open>e\<close>: \<open>w\<close> does not claim again or
  release, it renews to later and later instants, and every claim by somebody else
  happens while the last promised expiry is at least \<open>pad\<close> ahead of the claimant's clock.
\<close>

fun kept_by :: "int \<Rightarrow> 'w \<Rightarrow> timestamp \<Rightarrow> 'w lease_op list \<Rightarrow> bool" where
  "kept_by pad w e [] = True"
| "kept_by pad w e (Op_claim w' t u # ops) = (w' \<noteq> w \<and> t + pad \<le> e \<and> kept_by pad w e ops)"
| "kept_by pad w e (Op_renew w' u # ops) =
    (if w' = w then e \<le> u \<and> kept_by pad w u ops else kept_by pad w e ops)"
| "kept_by pad w e (Op_release w' # ops) = (w' \<noteq> w \<and> kept_by pad w e ops)"

locale exclusive_claim =
  fixes claim :: "'w \<Rightarrow> timestamp \<Rightarrow> timestamp \<Rightarrow> 'r \<Rightarrow> 'r option"
    and holder :: "'r \<Rightarrow> 'w option"
    and expiry :: "'r \<Rightarrow> timestamp option"
    and pad :: int
    and ok :: "'r \<Rightarrow> bool"
  assumes claim_expired: "ok r \<Longrightarrow> claim w t u r = Some r' \<Longrightarrow> expiry r = Some e \<Longrightarrow> e < t + pad"
    and claim_takes: "ok r \<Longrightarrow> claim w t u r = Some r' \<Longrightarrow> ok r' \<and> holder r' = Some w \<and> expiry r' = Some u"
begin

lemma claim_blocked: "ok r \<Longrightarrow> expiry r = Some e \<Longrightarrow> t + pad \<le> e \<Longrightarrow> claim w t u r = None"
  using claim_expired [of r w t u _ e] by (cases "claim w t u r") fastforce+

text \<open>Of two claims the second fails unless its clock has passed the expiry of the first.\<close>

lemma second_claim:
  assumes "ok r" and "claim w t u r = Some r'" and "claim w' t' u' r' = Some r''"
  shows "u < t' + pad"
  using claim_takes [OF assms(1,2)] claim_expired [OF _ assms(3)] by blast

end

locale timed_lease = exclusive_claim +
  fixes renew :: "'w \<Rightarrow> timestamp \<Rightarrow> 'r \<Rightarrow> 'r"
    and release :: "'w \<Rightarrow> 'r \<Rightarrow> 'r"
  assumes renew_other: "ok r \<Longrightarrow> holder r \<noteq> Some w \<Longrightarrow> renew w u r = r"
    and renew_extends: "ok r \<Longrightarrow> holder r = Some w \<Longrightarrow> expiry r = Some e \<Longrightarrow>
      ok (renew w u r) \<and> holder (renew w u r) = Some w \<and> (\<exists>e'. expiry (renew w u r) = Some e' \<and> u \<le> e')"
    and release_other: "ok r \<Longrightarrow> holder r \<noteq> Some w \<Longrightarrow> release w r = r"
    and release_frees: "ok r \<Longrightarrow> holder r = Some w \<Longrightarrow> ok (release w r) \<and> holder (release w r) \<noteq> Some w"
begin

lemma lease_kept:
  assumes "ok r" and "holder r = Some w" and "expiry r = Some e0" and "e \<le> e0" and "kept_by pad w e ops"
  shows "holder (lease_run claim renew release ops r) = Some w"
  using assms
proof (induction ops arbitrary: r e e0)
  case (Cons op ops)
  show ?case
  proof (cases op)
    case (Op_claim w' t u)
    with Cons.prems have "claim w' t u r = None" by (intro claim_blocked [of r e0]) auto
    with Op_claim Cons.prems Cons.IH [of r e0 e] show ?thesis by (simp add: lease_run_def)
  next
    case (Op_renew w' u)
    show ?thesis
    proof (cases "w' = w")
      case True
      with Cons.prems renew_extends [of r w e0 u] obtain e' where
        "ok (renew w u r)" "holder (renew w u r) = Some w" "expiry (renew w u r) = Some e'" "u \<le> e'" by blast
      with Op_renew True Cons.prems Cons.IH show ?thesis by (simp add: lease_run_def)
    next
      case False
      with Op_renew Cons show ?thesis by (simp add: lease_run_def renew_other)
    qed
  next
    case (Op_release w')
    with Cons have "release w' r = r" by (intro release_other) auto
    with Op_release Cons show ?thesis by (simp add: lease_run_def)
  qed
qed (simp add: lease_run_def)

lemma claim_then_kept:
  assumes "ok r" and "claim w t u r = Some r'" and "kept_by pad w u ops"
  shows "holder (lease_run claim renew release ops r') = Some w"
  using claim_takes [OF assms(1,2)] assms(3) by (intro lease_kept [of r' w u u]) auto

end

end
