(* ===== verification/Cursor_Lock.thy ===== *)
theory Cursor_Lock
  imports Outbox_Repository Backoff Timed_Lease
begin

text \<open>
  \<^verbatim>\<open>packages/backend-common/src/outbox/cursor-lock.ts\<close>, class \<open>CursorLock\<close>: the time-based lock
  on a listener row and the loop that hands batches of outbox events to a processor under
  it.  A \<open>World\<close> holds the database, the fields \<open>runId\<close> and \<open>refreshTimer\<close> of the lock object,
  what was logged, and a counter of the readings taken from the environment: every
  \<open>getNow()\<close>, \<open>new Date()\<close>, \<open>NOW()\<close>, liveness query and random draw takes the next reading of
  the \<open>RunEnv\<close> streams.  The exhaust loop of \<open>run\<close> carries fuel, \<open>None\<close> meaning that it has
  not returned yet; \<open>Outbox_Handler\<close> says how much fuel is enough for a handler.
\<close>

record CursorLockConfig =
  cl_listenerId :: string
  cl_lockDurationMs :: int
  cl_maxRetries :: int
  cl_baseBackoffMs :: rat
  cl_batchSize :: int
  cl_gapWindowMs :: int
  cl_gapCeilingMs :: int

text \<open>The constructor: the two optional fields take their defaults.\<close>

definition mkCursorLock ::
  "string \<Rightarrow> int \<Rightarrow> int \<Rightarrow> rat \<Rightarrow> int \<Rightarrow> int option \<Rightarrow> int option \<Rightarrow> CursorLockConfig" where
  "mkCursorLock listenerId lockDurationMs maxRetries baseBackoffMs batchSize gapWindowMs gapCeiling =
    \<lparr>cl_listenerId = listenerId, cl_lockDurationMs = lockDurationMs, cl_maxRetries = maxRetries,
     cl_baseBackoffMs = baseBackoffMs, cl_batchSize = batchSize,
     cl_gapWindowMs = (case gapWindowMs of None \<Rightarrow> DEFAULT_GAP_WINDOW_MS | Some w \<Rightarrow> w),
     cl_gapCeilingMs = (case gapCeiling of None \<Rightarrow> DEFAULT_GAP_CEILING_MS | Some c \<Rightarrow> c)\<rparr>"

datatype ProcessResult =
    Res_processed "int list"
  | Res_no_events
  | Res_error string "int list option"

datatype lock_log =
    Log_empty_processed
  | Log_ceiling_forced int int  \<comment> \<open>cursor skipped to, cursor that liveness alone allows\<close>
  | Log_holding_gap int int
  | Log_will_retry int timestamp
  | Log_no_event_for_dlq
  | Log_moved_to_dlq int

record RunEnv =
  env_now :: "nat \<Rightarrow> timestamp"
  env_oldest :: "nat \<Rightarrow> timestamp option"
  env_random :: "nat \<Rightarrow> rat"
  env_runId :: "nat \<Rightarrow> string"

record 'x World =
  w_db :: OutboxDb
  w_ext :: 'x
  w_runId :: "string option"
  w_refreshTimer :: bool
  w_logs :: "lock_log list"
  w_tick :: nat

text \<open>
  A processor sees the database and whatever else it works on (\<open>'x\<close>), not the private fields of
  the lock.  It may change both, and so may other transactions while it is awaited.
\<close>

type_synonym 'x processor = "OutboxDb \<Rightarrow> 'x \<Rightarrow> int \<Rightarrow> int list \<Rightarrow> OutboxDb \<times> 'x \<times> ProcessResult"

definition tick :: "'x World \<Rightarrow> 'x World" where
  "tick w = w\<lparr>w_tick := Suc (w_tick w)\<rparr>"

definition add_log :: "lock_log \<Rightarrow> 'x World \<Rightarrow> 'x World" where
  "add_log l w = w\<lparr>w_logs := w_logs w @ [l]\<rparr>"

definition update_listener ::
  "(ListenerRow \<Rightarrow> bool) \<Rightarrow> (ListenerRow \<Rightarrow> ListenerRow) \<Rightarrow> OutboxDb \<Rightarrow> OutboxDb" where
  "update_listener p f db = db\<lparr>outbox_listeners := sql_update p f (outbox_listeners db)\<rparr>"

section \<open>Operations on the listener row\<close>

definition isReadyToProcess :: "CursorLockConfig \<Rightarrow> timestamp \<Rightarrow> OutboxDb \<Rightarrow> bool" where
  "isReadyToProcess cfg now db =
    (case find (\<lambda>r. l_listener_id r = cl_listenerId cfg) (outbox_listeners db) of
       None \<Rightarrow> False
     | Some row \<Rightarrow> (case l_retry_after row of None \<Rightarrow> True | Some retryAfter \<Rightarrow> now \<ge> retryAfter))"

definition clockDriftPadMs :: int where "clockDriftPadMs = 100"

definition lock_claimable :: "timestamp \<Rightarrow> ListenerRow \<Rightarrow> bool" where
  "lock_claimable now r \<longleftrightarrow> l_locked_until r = None \<or> sql_lt (l_locked_until r) (now + clockDriftPadMs)"

definition set_lock :: "string \<Rightarrow> timestamp \<Rightarrow> timestamp \<Rightarrow> ListenerRow \<Rightarrow> ListenerRow" where
  "set_lock runId lockedUntil now r =
    r\<lparr>l_locked_until := Some lockedUntil, l_lock_run_id := Some runId, l_updated_at := now\<rparr>"

text \<open>
  \<open>tryClaimLock\<close>: one conditional \<open>UPDATE .. RETURNING\<close>; the id of a new run is kept in \<open>runId\<close>
  and forgotten again when no row was claimed.
\<close>

definition tryClaimLock ::
  "CursorLockConfig \<Rightarrow> string \<Rightarrow> timestamp \<Rightarrow> 'x World \<Rightarrow> 'x World \<times> (int \<times> ProcessedIdsMap) option" where
  "tryClaimLock cfg runId now w =
    (let p = (\<lambda>r. l_listener_id r = cl_listenerId cfg \<and> lock_claimable now r);
         returned = filter p (outbox_listeners (w_db w))
     in if returned = [] then (w\<lparr>w_runId := None\<rparr>, None)
        else (w\<lparr>w_runId := Some runId,
                w_db := update_listener p (set_lock runId (now + cl_lockDurationMs cfg) now) (w_db w)\<rparr>,
              Some (l_last_processed_id (hd returned), l_processed_ids (hd returned))))"

definition refreshLock :: "CursorLockConfig \<Rightarrow> timestamp \<Rightarrow> 'x World \<Rightarrow> 'x World" where
  "refreshLock cfg now w =
    (case w_runId w of
       None \<Rightarrow> w
     | Some runId \<Rightarrow>
        w\<lparr>w_db := update_listener
            (\<lambda>r. l_listener_id r = cl_listenerId cfg \<and> l_lock_run_id r = Some runId)
            (\<lambda>r. r\<lparr>l_locked_until := Some (now + cl_lockDurationMs cfg), l_updated_at := now\<rparr>) (w_db w)\<rparr>)"

definition releaseLock :: "CursorLockConfig \<Rightarrow> timestamp \<Rightarrow> 'x World \<Rightarrow> 'x World" where
  "releaseLock cfg dbNow w =
    (case w_runId w of
       None \<Rightarrow> w
     | Some runId \<Rightarrow>
        w\<lparr>w_runId := None,
          w_db := update_listener
            (\<lambda>r. l_listener_id r = cl_listenerId cfg \<and> l_lock_run_id r = Some runId)
            (\<lambda>r. r\<lparr>l_locked_until := None, l_lock_run_id := None, l_updated_at := dbNow\<rparr>) (w_db w)\<rparr>)"

definition startRefreshTimer :: "'x World \<Rightarrow> 'x World" where
  "startRefreshTimer w = w\<lparr>w_refreshTimer := True\<rparr>"

definition stopRefreshTimer :: "'x World \<Rightarrow> 'x World" where
  "stopRefreshTimer w = (if w_refreshTimer w then w\<lparr>w_refreshTimer := False\<rparr> else w)"

definition persisted :: "CompactState \<Rightarrow> timestamp \<Rightarrow> ListenerRow \<Rightarrow> ListenerRow" where
  "persisted state now r =
    r\<lparr>l_last_processed_id := max (l_last_processed_id r) (cs_cursor state),
      l_processed_ids := cs_processedIds state,
      l_last_processed_at := Some now,
      l_retry_count := 0, l_retry_after := None, l_last_error := None,
      l_updated_at := now\<rparr>"

definition persistProcessedState ::
  "CursorLockConfig \<Rightarrow> CompactState \<Rightarrow> timestamp \<Rightarrow> 'x World \<Rightarrow> 'x World" where
  "persistProcessedState cfg state now w =
    w\<lparr>w_db := update_listener (\<lambda>r. l_listener_id r = cl_listenerId cfg) (persisted state now) (w_db w)\<rparr>"

definition resetRetryState :: "CursorLockConfig \<Rightarrow> timestamp \<Rightarrow> 'x World \<Rightarrow> 'x World" where
  "resetRetryState cfg now w =
    w\<lparr>w_db := update_listener
        (\<lambda>r. l_listener_id r = cl_listenerId cfg \<and>
             (l_retry_count r > 0 \<or> l_retry_after r \<noteq> None \<or> l_last_error r \<noteq> None))
        (\<lambda>r. r\<lparr>l_retry_count := 0, l_retry_after := None, l_last_error := None, l_updated_at := now\<rparr>)
        (w_db w)\<rparr>"

definition recordError ::
  "CursorLockConfig \<Rightarrow> rat \<Rightarrow> string \<Rightarrow> timestamp \<Rightarrow> 'x World \<Rightarrow> bool \<times> 'x World" where
  "recordError cfg rnd errorMessage now w =
    (case find (\<lambda>r. l_listener_id r = cl_listenerId cfg) (outbox_listeners (w_db w)) of
       None \<Rightarrow> (False, w)
     | Some current \<Rightarrow>
        (let newRetryCount = l_retry_count current + 1
         in if newRetryCount > cl_maxRetries cfg then (False, w)
            else let backoffMs = calculateBackoffMs (backoff_opts (cl_baseBackoffMs cfg) newRetryCount rnd);
                     retryAfter = js_Date (of_int now + backoffMs)
              in (True, add_log (Log_will_retry newRetryCount retryAfter)
                   (w\<lparr>w_db := update_listener (\<lambda>r. l_listener_id r = cl_listenerId cfg)
                      (\<lambda>r. r\<lparr>l_retry_count := newRetryCount, l_retry_after := Some retryAfter,
                             l_last_error := Some errorMessage, l_updated_at := now\<rparr>) (w_db w)\<rparr>))))"

text \<open>
  \<open>moveFirstEventToDLQ\<close>: all ids of the window get the time of the call (\<open>new Date()\<close> per id, then
  once more for the compaction), so with a gap window of 0 every one of them is expired.
\<close>

definition moveFirstEventToDLQ ::
  "CursorLockConfig \<Rightarrow> int \<Rightarrow> int list \<Rightarrow> string \<Rightarrow> timestamp \<Rightarrow> 'x World \<Rightarrow> 'x World" where
  "moveFirstEventToDLQ cfg cursor processedIds errorMessage now w =
    (case fetchAfterId (w_db w) cursor 1 processedIds of
       [] \<Rightarrow> add_log Log_no_event_for_dlq w
     | event # _ \<Rightarrow>
        (let processedIdsMap = mergeNewIds [] processedIds now;
             compacted = compact cursor processedIdsMap [ev_id event] now 0 None;
             db1 = (w_db w)\<lparr>outbox_dead_letters := outbox_dead_letters (w_db w) @
                     [\<lparr>dl_listener_id = cl_listenerId cfg, dl_outbox_event_id = ev_id event,
                       dl_error = errorMessage\<rparr>]\<rparr>
         in add_log (Log_moved_to_dlq (ev_id event))
              (w\<lparr>w_db := update_listener (\<lambda>r. l_listener_id r = cl_listenerId cfg)
                   (persisted compacted now) db1\<rparr>)))"

section \<open>Compaction with the gap guard\<close>

definition compactWithGapGuard ::
  "CursorLockConfig \<Rightarrow> timestamp option \<Rightarrow> int \<Rightarrow> ProcessedIdsMap \<Rightarrow> int list \<Rightarrow> timestamp
    \<Rightarrow> CompactState \<times> lock_log list" where
  "compactWithGapGuard cfg oldest cursor processedIds newIds now =
    (if \<not> hasUnfilledGaps cursor processedIds newIds
     then (compact cursor processedIds newIds now (cl_gapWindowMs cfg) None, [])
     else
       let guarded = compact cursor processedIds newIds now (cl_gapWindowMs cfg)
             (Some \<lparr>oldestRunningTxnStart = oldest, gapCeilingMs = Some (Ms (cl_gapCeilingMs cfg))\<rparr>);
           heldWithoutCeiling = compact cursor processedIds newIds now (cl_gapWindowMs cfg)
             (Some \<lparr>oldestRunningTxnStart = oldest, gapCeilingMs = Some PosInfinity\<rparr>);
           unguarded = compact cursor processedIds newIds now (cl_gapWindowMs cfg) None
       in (guarded,
           (if cs_cursor guarded > cs_cursor heldWithoutCeiling
            then [Log_ceiling_forced (cs_cursor guarded) (cs_cursor heldWithoutCeiling)] else []) @
           (if cs_cursor guarded < cs_cursor unguarded
            then [Log_holding_gap (cs_cursor guarded) (cs_cursor unguarded)] else [])))"

text \<open>One batch: compact, persist, and remember the new cursor and window.\<close>

definition compactAndPersist ::
  "CursorLockConfig \<Rightarrow> RunEnv \<Rightarrow> int \<Rightarrow> ProcessedIdsMap \<Rightarrow> int list \<Rightarrow> 'x World \<Rightarrow> CompactState \<times> 'x World" where
  "compactAndPersist cfg env cursor ids newIds w =
    (let (compacted, logs) =
           compactWithGapGuard cfg (env_oldest env (w_tick w)) cursor ids newIds (env_now env (w_tick w));
         w1 = tick w;
         w2 = tick (persistProcessedState cfg compacted (env_now env (w_tick w1)) w1)
     in (compacted, w2\<lparr>w_logs := w_logs w2 @ logs\<rparr>))"

section \<open>The exhaust loop and \<open>run\<close>\<close>

definition handleError ::
  "CursorLockConfig \<Rightarrow> RunEnv \<Rightarrow> int \<Rightarrow> ProcessedIdsMap \<Rightarrow> string \<Rightarrow> 'x World \<Rightarrow> 'x World" where
  "handleError cfg env cursor ids msg w =
    (let (shouldRetry, w1) =
           recordError cfg (env_random env (w_tick w)) msg (env_now env (w_tick w)) w;
         w2 = tick w1
     in if shouldRetry then w2
        else tick (moveFirstEventToDLQ cfg cursor (map fst ids) msg (env_now env (w_tick w2)) w2))"

fun run_loop ::
  "nat \<Rightarrow> CursorLockConfig \<Rightarrow> RunEnv \<Rightarrow> 'x processor \<Rightarrow> int \<Rightarrow> ProcessedIdsMap \<Rightarrow> bool \<Rightarrow> 'x World
    \<Rightarrow> (bool \<times> 'x World) option" where
  "run_loop 0 cfg env p cursor ids didWork w = None"
| "run_loop (Suc fuel) cfg env p cursor ids didWork w =
    (case p (w_db w) (w_ext w) cursor (map fst ids) of (db1, x1, result) \<Rightarrow>
      (let w1 = w\<lparr>w_db := db1, w_ext := x1\<rparr> in case result of
         Res_processed newIds \<Rightarrow>
           (if newIds = [] then Some (didWork, add_log Log_empty_processed w1)
            else let (compacted, w2) = compactAndPersist cfg env cursor ids newIds w1
              in run_loop fuel cfg env p (cs_cursor compacted) (cs_processedIds compacted) True w2)
       | Res_no_events \<Rightarrow>
           Some (didWork, tick (resetRetryState cfg (env_now env (w_tick w1)) w1))
       | Res_error msg partial \<Rightarrow>
           (case partial of
              Some (i # is) \<Rightarrow>
                (let (compacted, w2) = compactAndPersist cfg env cursor ids (i # is) w1
                 in Some (True, handleError cfg env (cs_cursor compacted) (cs_processedIds compacted) msg w2))
            | _ \<Rightarrow> Some (didWork, handleError cfg env cursor ids msg w1))))"

definition run ::
  "nat \<Rightarrow> CursorLockConfig \<Rightarrow> RunEnv \<Rightarrow> 'x processor \<Rightarrow> 'x World \<Rightarrow> (bool \<times> 'x World) option" where
  "run fuel cfg env p w =
    (let now = env_now env (w_tick w); w0 = tick w
     in if \<not> isReadyToProcess cfg now (w_db w0) then Some (False, w0)
        else case tryClaimLock cfg (env_runId env (w_tick w)) now w0 of
           (w1, None) \<Rightarrow> Some (False, w1)
         | (w1, Some (cursor, processedIds)) \<Rightarrow>
            (case run_loop fuel cfg env p cursor processedIds False (startRefreshTimer w1) of
               None \<Rightarrow> None
             | Some (didWork, w2) \<Rightarrow>
                 Some (didWork, releaseLock cfg (env_now env (w_tick w2)) (stopRefreshTimer w2))))"

section \<open>Registering a listener\<close>

definition new_listener :: "string \<Rightarrow> int \<Rightarrow> timestamp \<Rightarrow> ListenerRow" where
  "new_listener lid start now =
    \<lparr>l_listener_id = lid, l_last_processed_id = start, l_processed_ids = [], l_last_processed_at = None,
     l_retry_count = 0, l_retry_after = None, l_last_error = None, l_locked_until = None,
     l_lock_run_id = None, l_updated_at = now\<rparr>"

definition ensureListener :: "string \<Rightarrow> int \<Rightarrow> timestamp \<Rightarrow> OutboxDb \<Rightarrow> OutboxDb" where
  "ensureListener lid startFromId now db =
    (if lid \<in> set (map l_listener_id (outbox_listeners db)) then db
     else db\<lparr>outbox_listeners := outbox_listeners db @ [new_listener lid startFromId now]\<rparr>)"

definition ensureListenerFromLatest :: "string \<Rightarrow> timestamp \<Rightarrow> OutboxDb \<Rightarrow> OutboxDb" where
  "ensureListenerFromLatest lid now db =
    (if lid \<in> set (map l_listener_id (outbox_listeners db)) then db
     else db\<lparr>outbox_listeners := outbox_listeners db @
       [new_listener lid (if outbox db = [] then 0 else Max (set (map ev_id (outbox db)))) now]\<rparr>)"

section \<open>The lock as a timed lease\<close>

definition claim_row :: "string \<Rightarrow> timestamp \<Rightarrow> timestamp \<Rightarrow> ListenerRow \<Rightarrow> ListenerRow option" where
  "claim_row runId now until r = (if lock_claimable now r then Some (set_lock runId until now r) else None)"

definition renew_row :: "CursorLockConfig \<Rightarrow> string \<Rightarrow> timestamp \<Rightarrow> ListenerRow \<Rightarrow> ListenerRow" where
  "renew_row cfg runId until r =
    (if l_lock_run_id r = Some runId
     then r\<lparr>l_locked_until := Some until, l_updated_at := until - cl_lockDurationMs cfg\<rparr> else r)"

definition release_row :: "timestamp \<Rightarrow> string \<Rightarrow> ListenerRow \<Rightarrow> ListenerRow" where
  "release_row dbNow runId r =
    (if l_lock_run_id r = Some runId
     then r\<lparr>l_locked_until := None, l_lock_run_id := None, l_updated_at := dbNow\<rparr> else r)"

interpretation cursor_lease:
  timed_lease claim_row l_lock_run_id l_locked_until clockDriftPadMs "\<lambda>_. True" "renew_row cfg" "release_row dbNow"
  for cfg dbNow
  by unfold_locales
    (auto simp: claim_row_def renew_row_def release_row_def set_lock_def lock_claimable_def split: if_splits)

abbreviation listener_row :: "CursorLockConfig \<Rightarrow> OutboxDb \<Rightarrow> ListenerRow option" where
  "listener_row cfg db \<equiv> find (\<lambda>r. l_listener_id r = cl_listenerId cfg) (outbox_listeners db)"

text \<open>The statements act on the listener's row as the row operations of the lease do.\<close>

lemma listener_row_update:
  assumes "\<And>r. l_listener_id (f r) = l_listener_id r"
  shows "listener_row cfg (update_listener (\<lambda>r. l_listener_id r = cl_listenerId cfg \<and> q r) f db) =
    map_option (\<lambda>r. if q r then f r else r) (listener_row cfg db)"
  unfolding update_listener_def using find_sql_update [of l_listener_id f _ q] assms by simp

lemma listener_row_update_all:
  assumes "\<And>r. l_listener_id (f r) = l_listener_id r"
  shows "listener_row cfg (update_listener (\<lambda>r. l_listener_id r = cl_listenerId cfg) f db) =
    map_option f (listener_row cfg db)"
  using listener_row_update [of f cfg "\<lambda>_. True"] assms by simp

lemma update_listener_frame [simp]:
  "outbox (update_listener p f db) = outbox db"
  "outbox_next_id (update_listener p f db) = outbox_next_id db"
  "outbox_dead_letters (update_listener p f db) = outbox_dead_letters db"
  by (simp_all add: update_listener_def)

lemma refreshLock_row:
  "w_runId w = Some rid \<Longrightarrow>
    listener_row cfg (w_db (refreshLock cfg now w)) =
      map_option (renew_row cfg rid (now + cl_lockDurationMs cfg)) (listener_row cfg (w_db w))"
  by (auto simp: refreshLock_def listener_row_update renew_row_def intro!: map_option_cong)

lemma releaseLock_row:
  "w_runId w = Some rid \<Longrightarrow>
    listener_row cfg (w_db (releaseLock cfg now w)) =
      map_option (release_row now rid) (listener_row cfg (w_db w))"
  by (auto simp: releaseLock_def listener_row_update release_row_def intro!: map_option_cong)

lemma tryClaimLock_row:
  assumes "distinct (map l_listener_id (outbox_listeners (w_db w)))"
    and "listener_row cfg (w_db w) = Some r"
  shows "snd (tryClaimLock cfg rid now w) =
      (if lock_claimable now r then Some (l_last_processed_id r, l_processed_ids r) else None)"
    and "listener_row cfg (w_db (fst (tryClaimLock cfg rid now w))) =
      Some (case claim_row rid now (now + cl_lockDurationMs cfg) r of None \<Rightarrow> r | Some r' \<Rightarrow> r')"
proof -
  let ?rows = "outbox_listeners (w_db w)"
  let ?p = "\<lambda>r. l_listener_id r = cl_listenerId cfg \<and> lock_claimable now r"
  have uniq: "r' = r" if "r' \<in> set ?rows" "l_listener_id r' = cl_listenerId cfg" for r'
    using assms that find_Some_iff_key [OF assms(1), of "cl_listenerId cfg"] by (metis option.inject)
  have r: "r \<in> set ?rows" "l_listener_id r = cl_listenerId cfg"
    using assms(2) find_Some_iff_key [OF assms(1)] by blast+
  have emp: "filter ?p ?rows = [] \<longleftrightarrow> \<not> lock_claimable now r"
    unfolding filter_empty_conv using r uniq by metis
  have hd: "hd (filter ?p ?rows) = r" if "lock_claimable now r"
  proof (rule uniq)
    have "hd (filter ?p ?rows) \<in> set (filter ?p ?rows)"
      using emp that by (intro hd_in_set) blast
    then show "hd (filter ?p ?rows) \<in> set ?rows" "l_listener_id (hd (filter ?p ?rows)) = cl_listenerId cfg"
      by simp_all
  qed
  show "snd (tryClaimLock cfg rid now w) =
      (if lock_claimable now r then Some (l_last_processed_id r, l_processed_ids r) else None)"
    unfolding tryClaimLock_def Let_def emp using hd by (simp del: sql_lt_iff)
  show "listener_row cfg (w_db (fst (tryClaimLock cfg rid now w))) =
      Some (case claim_row rid now (now + cl_lockDurationMs cfg) r of None \<Rightarrow> r | Some r' \<Rightarrow> r')"
    unfolding tryClaimLock_def Let_def emp
    using assms(2) by (simp add: claim_row_def listener_row_update set_lock_def)
qed

section \<open>What the loop does to the listener row\<close>

text \<open>
  \<open>row_grows\<close> is the guarantee of the loop towards the other readers of the row: the lock
  fields are not touched, the cursor does not go back, no handled id is forgotten.
\<close>

abbreviation row_handled :: "ListenerRow \<Rightarrow> int set" where
  "row_handled r \<equiv> handled (l_last_processed_id r) (l_processed_ids r)"

definition row_grows :: "ListenerRow \<Rightarrow> ListenerRow \<Rightarrow> bool" where
  "row_grows r r' \<longleftrightarrow> l_listener_id r' = l_listener_id r \<and> l_locked_until r' = l_locked_until r \<and>
    l_lock_run_id r' = l_lock_run_id r \<and> l_last_processed_id r \<le> l_last_processed_id r' \<and>
    row_handled r \<subseteq> row_handled r'"

lemma row_grows_refl: "row_grows r r"
  by (simp add: row_grows_def)

lemma row_grows_trans: "row_grows r r' \<Longrightarrow> row_grows r' r'' \<Longrightarrow> row_grows r r''"
  unfolding row_grows_def by (auto simp del: handled_iff)

lemma persisted_simps [simp]:
  "l_listener_id (persisted s t r) = l_listener_id r"
  "l_locked_until (persisted s t r) = l_locked_until r"
  "l_lock_run_id (persisted s t r) = l_lock_run_id r"
  "l_last_processed_id (persisted s t r) = max (l_last_processed_id r) (cs_cursor s)"
  "l_processed_ids (persisted s t r) = cs_processedIds s"
  "l_retry_count (persisted s t r) = 0"
  "l_retry_after (persisted s t r) = None"
  by (simp_all add: persisted_def)

lemma handled_compact_ge:
  "handled c m \<union> set ids \<subseteq> handled_state (compact c m ids now w opts)"
  unfolding handled_compact using maxExpired_ge [of c now w opts "mergeNewIds m ids now"] by auto

lemma persisted_grows:
  assumes "l_last_processed_id r \<le> cs_cursor s" and "row_handled r \<subseteq> handled_state s"
  shows "row_grows r (persisted s t r)"
  using assms by (simp add: row_grows_def max_absorb2)

lemma guard_compacts:
  obtains opts where
    "fst (compactWithGapGuard cfg old c m ids now) = compact c m ids now (cl_gapWindowMs cfg) opts"
  by (cases "hasUnfilledGaps c m ids") (simp_all add: compactWithGapGuard_def Let_def)

text \<open>The state a batch leaves behind, and the row it is persisted in.\<close>

abbreviation batch_state ::
  "CursorLockConfig \<Rightarrow> RunEnv \<Rightarrow> int \<Rightarrow> ProcessedIdsMap \<Rightarrow> int list \<Rightarrow> 'x World \<Rightarrow> CompactState" where
  "batch_state cfg env c m ids w \<equiv>
    fst (compactWithGapGuard cfg (env_oldest env (w_tick w)) c m ids (env_now env (w_tick w)))"

lemma tick_simps [simp]:
  "w_db (tick w) = w_db w" "w_ext (tick w) = w_ext w" "w_runId (tick w) = w_runId w"
  "w_refreshTimer (tick w) = w_refreshTimer w" "w_tick (tick w) = Suc (w_tick w)"
  by (simp_all add: tick_def)

lemma add_log_simps [simp]:
  "w_db (add_log l w) = w_db w" "w_ext (add_log l w) = w_ext w" "w_runId (add_log l w) = w_runId w"
  "w_refreshTimer (add_log l w) = w_refreshTimer w" "w_tick (add_log l w) = w_tick w"
  by (simp_all add: add_log_def)

lemma compactAndPersist_eq:
  "fst (compactAndPersist cfg env c m ids w) = batch_state cfg env c m ids w"
  "w_db (snd (compactAndPersist cfg env c m ids w)) =
    update_listener (\<lambda>r. l_listener_id r = cl_listenerId cfg)
      (persisted (batch_state cfg env c m ids w) (env_now env (Suc (w_tick w)))) (w_db w)"
  "w_ext (snd (compactAndPersist cfg env c m ids w)) = w_ext w"
  "w_runId (snd (compactAndPersist cfg env c m ids w)) = w_runId w"
  "w_refreshTimer (snd (compactAndPersist cfg env c m ids w)) = w_refreshTimer w"
  by (simp_all add: compactAndPersist_def persistProcessedState_def Let_def split: prod.split)

lemma compactAndPersist_row:
  assumes "listener_row cfg (w_db w) = Some r" and "l_last_processed_id r = c" and "l_processed_ids r = m"
  obtains r' where "listener_row cfg (w_db (snd (compactAndPersist cfg env c m ids w))) = Some r'"
    and "row_grows r r'"
    and "l_last_processed_id r' = cs_cursor (batch_state cfg env c m ids w)"
    and "l_processed_ids r' = cs_processedIds (batch_state cfg env c m ids w)"
proof -
  let ?s = "batch_state cfg env c m ids w"
  obtain opts where s: "?s = compact c m ids (env_now env (w_tick w)) (cl_gapWindowMs cfg) opts"
    by (rule guard_compacts)
  have "c \<le> cs_cursor ?s" and "handled c m \<subseteq> handled_state ?s"
    unfolding s by (rule compact_cursor_ge) (use handled_compact_ge in blast)
  with assms have "row_grows r (persisted ?s (env_now env (Suc (w_tick w))) r)"
    by (intro persisted_grows) auto
  with assms \<open>c \<le> cs_cursor ?s\<close> show thesis
    by (intro that [of "persisted ?s (env_now env (Suc (w_tick w))) r"])
      (simp_all add: compactAndPersist_eq listener_row_update_all max_absorb2)
qed

lemma recordError_row:
  assumes "listener_row cfg (w_db w) = Some r"
  obtains r' where "listener_row cfg (w_db (snd (recordError cfg rnd msg now w))) = Some r'"
    and "row_grows r r'" and "l_last_processed_id r' = l_last_processed_id r"
    and "l_processed_ids r' = l_processed_ids r"
    and "w_runId (snd (recordError cfg rnd msg now w)) = w_runId w"
    and "w_refreshTimer (snd (recordError cfg rnd msg now w)) = w_refreshTimer w"
proof (cases "l_retry_count r + 1 > cl_maxRetries cfg")
  case True
  with assms show thesis by (intro that [of r]) (simp_all add: recordError_def Let_def row_grows_refl)
next
  case False
  let ?after = "js_Date (of_int now + calculateBackoffMs (backoff_opts (cl_baseBackoffMs cfg) (l_retry_count r + 1) rnd))"
  from False assms show thesis
    by (intro that [of "r\<lparr>l_retry_count := l_retry_count r + 1, l_retry_after := Some ?after,
          l_last_error := Some msg, l_updated_at := now\<rparr>"])
      (simp_all add: recordError_def Let_def listener_row_update_all row_grows_def)
qed

lemma moveFirstEventToDLQ_row:
  assumes "listener_row cfg (w_db w) = Some r" and "l_last_processed_id r = c" and "l_processed_ids r = m"
  obtains r' where "listener_row cfg (w_db (moveFirstEventToDLQ cfg c (map fst m) msg now w)) = Some r'"
    and "row_grows r r'"
    and "w_runId (moveFirstEventToDLQ cfg c (map fst m) msg now w) = w_runId w"
    and "w_refreshTimer (moveFirstEventToDLQ cfg c (map fst m) msg now w) = w_refreshTimer w"
proof (cases "fetchAfterId (w_db w) c 1 (map fst m)")
  case Nil
  with assms show thesis by (intro that [of r]) (simp_all add: moveFirstEventToDLQ_def row_grows_refl)
next
  case (Cons e es)
  let ?m = "mergeNewIds [] (map fst m) now"
  let ?s = "compact c ?m [ev_id e] now 0 None"
  have "handled c m = handled c ?m" by (auto simp: handled_def set_map_fst_keys [simplified])
  then have "handled c m \<subseteq> handled_state ?s" using handled_compact_ge by (metis Un_subset_iff)
  moreover have "c \<le> cs_cursor ?s" by (rule compact_cursor_ge)
  ultimately have "row_grows r (persisted ?s now r)"
    using assms by (intro persisted_grows) auto
  with Cons assms show thesis
    by (intro that [of "persisted ?s now r"])
      (simp_all add: moveFirstEventToDLQ_def Let_def update_listener_def find_sql_update [where q = "\<lambda>_. True", simplified])
qed

lemma handleError_row:
  assumes "listener_row cfg (w_db w) = Some r" and "l_last_processed_id r = c" and "l_processed_ids r = m"
  obtains r' where "listener_row cfg (w_db (handleError cfg env c m msg w)) = Some r'"
    and "row_grows r r'"
    and "w_runId (handleError cfg env c m msg w) = w_runId w"
    and "w_refreshTimer (handleError cfg env c m msg w) = w_refreshTimer w"
proof -
  let ?rec = "recordError cfg (env_random env (w_tick w)) msg (env_now env (w_tick w)) w"
  obtain r1 where r1: "listener_row cfg (w_db (snd ?rec)) = Some r1" "row_grows r r1"
      "l_last_processed_id r1 = c" "l_processed_ids r1 = m"
      "w_runId (snd ?rec) = w_runId w" "w_refreshTimer (snd ?rec) = w_refreshTimer w"
    using assms by (auto elim: recordError_row)
  show thesis
  proof (cases "fst ?rec")
    case True
    with r1 show thesis
      by (intro that [of r1]) (simp_all add: handleError_def Let_def case_prod_beta)
  next
    case False
    let ?w2 = "tick (snd ?rec)"
    let ?mv = "moveFirstEventToDLQ cfg c (map fst m) msg (env_now env (w_tick ?w2)) ?w2"
    obtain r2 where "listener_row cfg (w_db ?mv) = Some r2" "row_grows r1 r2"
        "w_runId ?mv = w_runId ?w2" "w_refreshTimer ?mv = w_refreshTimer ?w2"
      using moveFirstEventToDLQ_row [of cfg ?w2 r1 c m] r1 by auto
    with False r1 show thesis
      by (intro that [of r2])
        (auto simp: handleError_def Let_def case_prod_beta intro: row_grows_trans)
  qed
qed

definition keeps_listeners :: "'x processor \<Rightarrow> bool" where
  "keeps_listeners p \<longleftrightarrow>
    (\<forall>db x c ids. outbox_listeners (fst (p db x c ids)) = outbox_listeners db)"

definition row_after :: "CursorLockConfig \<Rightarrow> ListenerRow \<Rightarrow> 'x World \<Rightarrow> 'x World \<Rightarrow> bool" where
  "row_after cfg r w w' \<longleftrightarrow> w_runId w' = w_runId w \<and> w_refreshTimer w' = w_refreshTimer w \<and>
    (\<exists>r'. listener_row cfg (w_db w') = Some r' \<and> row_grows r r')"

lemma row_afterI:
  "listener_row cfg (w_db w') = Some r' \<Longrightarrow> row_grows r r' \<Longrightarrow> w_runId w' = w_runId w \<Longrightarrow>
    w_refreshTimer w' = w_refreshTimer w \<Longrightarrow> row_after cfg r w w'"
  by (auto simp: row_after_def)

lemma row_after_trans:
  "row_after cfg r1 w1 w2 \<Longrightarrow> row_grows r r1 \<Longrightarrow> w_runId w1 = w_runId w \<Longrightarrow>
    w_refreshTimer w1 = w_refreshTimer w \<Longrightarrow> row_after cfg r w w2"
  unfolding row_after_def using row_grows_trans by metis

lemma handleError_after:
  assumes "listener_row cfg (w_db w) = Some r" and "l_last_processed_id r = c" and "l_processed_ids r = m"
  shows "row_after cfg r w (handleError cfg env c m msg w)"
  using handleError_row [OF assms, of env msg] by (metis row_afterI)

lemma compactAndPersist_then:
  assumes row: "listener_row cfg (w_db w) = Some r" "l_last_processed_id r = c" "l_processed_ids r = m"
    and step: "\<And>r1. listener_row cfg (w_db (snd (compactAndPersist cfg env c m ids w))) = Some r1 \<Longrightarrow>
      l_last_processed_id r1 = cs_cursor (batch_state cfg env c m ids w) \<Longrightarrow>
      l_processed_ids r1 = cs_processedIds (batch_state cfg env c m ids w) \<Longrightarrow>
      row_after cfg r1 (snd (compactAndPersist cfg env c m ids w)) w'"
  shows "row_after cfg r w w'"
proof (rule compactAndPersist_row [OF row, of env ids])
  fix r1
  assume r1: "listener_row cfg (w_db (snd (compactAndPersist cfg env c m ids w))) = Some r1"
    "row_grows r r1" "l_last_processed_id r1 = cs_cursor (batch_state cfg env c m ids w)"
    "l_processed_ids r1 = cs_processedIds (batch_state cfg env c m ids w)"
  show ?thesis
    by (rule row_after_trans [OF step [OF r1(1,3,4)] r1(2)]) (simp_all add: compactAndPersist_eq)
qed

lemma resetRetryState_after:
  assumes "listener_row cfg (w_db w) = Some r"
  shows "row_after cfg r w (tick (resetRetryState cfg now w))"
proof -
  let ?q = "\<lambda>r. 0 < l_retry_count r \<or> l_retry_after r \<noteq> None \<or> l_last_error r \<noteq> None"
  let ?reset = "\<lambda>r. if ?q r then r\<lparr>l_retry_count := 0, l_retry_after := None, l_last_error := None,
      l_updated_at := now\<rparr> else r"
  have "listener_row cfg (w_db (tick (resetRetryState cfg now w))) = Some (?reset r)"
    using assms by (simp add: resetRetryState_def listener_row_update)
  moreover have "row_grows r (?reset r)" by (simp add: row_grows_def)
  ultimately show ?thesis by (rule row_afterI) (simp_all add: resetRetryState_def)
qed

text \<open>The three ways one iteration of the loop ends the run, and the one that goes on.\<close>

lemma run_loop_Suc_cases:
  assumes "run_loop (Suc fuel) cfg env p c m d w = Some (d', w')"
    and "p (w_db w) (w_ext w) c (map fst m) = (db1, x1, result)"
    and "w1 = w\<lparr>w_db := db1, w_ext := x1\<rparr>"
  obtains (again) i "is" where "result = Res_processed (i # is)"
      "run_loop fuel cfg env p (cs_cursor (batch_state cfg env c m (i # is) w1))
        (cs_processedIds (batch_state cfg env c m (i # is) w1)) True
        (snd (compactAndPersist cfg env c m (i # is) w1)) = Some (d', w')"
  | (empty) "result = Res_processed []" "d' = d" "w' = add_log Log_empty_processed w1"
  | (no_events) "result = Res_no_events" "d' = d"
      "w' = tick (resetRetryState cfg (env_now env (w_tick w1)) w1)"
  | (partial) msg i "is" where "result = Res_error msg (Some (i # is))" "d' = True"
      "w' = handleError cfg env (cs_cursor (batch_state cfg env c m (i # is) w1))
        (cs_processedIds (batch_state cfg env c m (i # is) w1)) msg
        (snd (compactAndPersist cfg env c m (i # is) w1))"
  | (failed) msg part where "result = Res_error msg part" "part \<in> {None, Some []}" "d' = d"
      "w' = handleError cfg env c m msg w1"
proof (cases result)
  case (Res_processed ids)
  with assms show thesis
    by (cases ids) (auto simp: case_prod_beta compactAndPersist_eq intro: again empty)
next
  case Res_no_events
  with assms show thesis by (intro no_events) auto
next
  case (Res_error msg part)
  with assms show thesis
    by (cases part; cases "the part")
      (auto simp: case_prod_beta compactAndPersist_eq intro: partial failed)
qed

lemma run_loop_row:
  assumes "keeps_listeners p" and "run_loop fuel cfg env p c m d w = Some (d', w')"
    and "listener_row cfg (w_db w) = Some r" and "l_last_processed_id r = c" and "l_processed_ids r = m"
  shows "row_after cfg r w w'"
  using assms(2-)
proof (induction fuel arbitrary: c m d w r)
  case (Suc fuel)
  obtain db1 x1 result where p: "p (w_db w) (w_ext w) c (map fst m) = (db1, x1, result)"
    by (cases "p (w_db w) (w_ext w) c (map fst m)")
  define w1 where "w1 = w\<lparr>w_db := db1, w_ext := x1\<rparr>"
  have "outbox_listeners db1 = outbox_listeners (w_db w)"
    using assms(1) p unfolding keeps_listeners_def by (metis fst_conv)
  then have row1: "listener_row cfg (w_db w1) = Some r" using Suc.prems by (simp add: w1_def)
  note row = row1 Suc.prems(3,4)
  from Suc.prems(1) p w1_def have "row_after cfg r w1 w'"
  proof (cases rule: run_loop_Suc_cases)
    case (again i "is")
    show ?thesis by (rule compactAndPersist_then [OF row]) (rule Suc.IH [OF again(2)])
  next
    case empty
    with row1 show ?thesis by (auto intro: row_afterI row_grows_refl)
  next
    case no_events
    then show ?thesis using resetRetryState_after [OF row1] by simp
  next
    case (partial msg i "is")
    show ?thesis
      unfolding partial(3) by (rule compactAndPersist_then [OF row]) (rule handleError_after)
  next
    case (failed msg part)
    then show ?thesis using handleError_after [OF row] by simp
  qed
  then show ?case by (rule row_after_trans) (simp_all add: w1_def row_grows_refl)
qed simp

section \<open>Runs\<close>

definition can_run :: "CursorLockConfig \<Rightarrow> timestamp \<Rightarrow> ListenerRow \<Rightarrow> bool" where
  "can_run cfg now r \<longleftrightarrow>
    (case l_retry_after r of None \<Rightarrow> True | Some t \<Rightarrow> t \<le> now) \<and> lock_claimable now r"

lemma isReadyToProcess_row:
  "listener_row cfg db = Some r \<Longrightarrow>
    isReadyToProcess cfg now db = (case l_retry_after r of None \<Rightarrow> True | Some t \<Rightarrow> t \<le> now)"
  by (simp add: isReadyToProcess_def)

lemma releaseLock_free:
  assumes "w_runId w = Some rid" and "listener_row cfg (w_db w) = Some r" and "l_lock_run_id r = Some rid"
  shows "listener_row cfg (w_db (releaseLock cfg now w)) =
      Some (r\<lparr>l_locked_until := None, l_lock_run_id := None, l_updated_at := now\<rparr>)"
    and "w_runId (releaseLock cfg now w) = None"
  using assms by (simp_all add: releaseLock_row release_row_def) (simp add: releaseLock_def)

lemma tryClaimLock_None:
  "snd (tryClaimLock cfg rid now w) = None \<Longrightarrow> tryClaimLock cfg rid now w = (w\<lparr>w_runId := None\<rparr>, None)"
  by (auto simp: tryClaimLock_def Let_def split: if_splits)

lemma run_blocked:
  assumes "distinct (map l_listener_id (outbox_listeners (w_db w)))"
    and "listener_row cfg (w_db w) = Some r" and "\<not> can_run cfg (env_now env (w_tick w)) r"
  obtains w' where "run fuel cfg env p w = Some (False, w')" and "w_db w' = w_db w" and "w_ext w' = w_ext w"
proof (cases "isReadyToProcess cfg (env_now env (w_tick w)) (w_db w)")
  case False
  then show thesis by (intro that [of "tick w"]) (simp_all add: run_def Let_def)
next
  case True
  with assms have "\<not> lock_claimable (env_now env (w_tick w)) r"
    by (simp add: can_run_def isReadyToProcess_row)
  then have none: "snd (tryClaimLock cfg rid (env_now env (w_tick w)) (tick w)) = None" for rid
    using tryClaimLock_row(1) [of "tick w" cfg r] assms by simp
  note tryClaimLock_None [OF this]
  with True show thesis
    by (intro that [of "(tick w)\<lparr>w_runId := None\<rparr>"]) (simp_all add: run_def Let_def)
qed

text \<open>A run that gets the lock is the loop on the claimed row, then the release.\<close>

definition claimed_world :: "CursorLockConfig \<Rightarrow> RunEnv \<Rightarrow> 'x World \<Rightarrow> 'x World" where
  "claimed_world cfg env w = startRefreshTimer
    (fst (tryClaimLock cfg (env_runId env (w_tick w)) (env_now env (w_tick w)) (tick w)))"

lemma tryClaimLock_runId:
  "snd (tryClaimLock cfg rid now w) = Some x \<Longrightarrow> w_runId (fst (tryClaimLock cfg rid now w)) = Some rid"
  by (auto simp: tryClaimLock_def Let_def split: if_splits)

lemma tryClaimLock_ext [simp]: "w_ext (fst (tryClaimLock cfg rid now w)) = w_ext w"
  and tryClaimLock_outbox [simp]: "outbox (w_db (fst (tryClaimLock cfg rid now w))) = outbox (w_db w)"
  by (simp_all add: tryClaimLock_def Let_def)

lemma run_claims:
  assumes "distinct (map l_listener_id (outbox_listeners (w_db w)))"
    and "listener_row cfg (w_db w) = Some r" and "can_run cfg (env_now env (w_tick w)) r"
  defines "now \<equiv> env_now env (w_tick w)" and "rid \<equiv> env_runId env (w_tick w)"
  shows "run fuel cfg env p w =
      map_option (\<lambda>(d, w2). (d, releaseLock cfg (env_now env (w_tick w2)) (stopRefreshTimer w2)))
        (run_loop fuel cfg env p (l_last_processed_id r) (l_processed_ids r) False (claimed_world cfg env w))"
    and "listener_row cfg (w_db (claimed_world cfg env w)) =
      Some (set_lock rid (now + cl_lockDurationMs cfg) now r)"
    and "w_runId (claimed_world cfg env w) = Some rid"
    and "w_refreshTimer (claimed_world cfg env w)"
proof -
  have claimable: "lock_claimable now r" and ready: "isReadyToProcess cfg now (w_db w)"
    using assms by (simp_all add: can_run_def isReadyToProcess_row)
  have snd: "snd (tryClaimLock cfg rid now (tick w)) = Some (l_last_processed_id r, l_processed_ids r)"
    using tryClaimLock_row(1) [of "tick w" cfg r] assms(1,2) claimable by simp
  show "run fuel cfg env p w =
      map_option (\<lambda>(d, w2). (d, releaseLock cfg (env_now env (w_tick w2)) (stopRefreshTimer w2)))
        (run_loop fuel cfg env p (l_last_processed_id r) (l_processed_ids r) False (claimed_world cfg env w))"
    using ready snd unfolding run_def claimed_world_def now_def rid_def
    by (simp add: Let_def case_prod_beta split: option.split)
  show "listener_row cfg (w_db (claimed_world cfg env w)) =
      Some (set_lock rid (now + cl_lockDurationMs cfg) now r)"
    using tryClaimLock_row(2) [of "tick w" cfg r rid now] assms(1,2) claimable
    by (simp add: claimed_world_def startRefreshTimer_def claim_row_def now_def rid_def)
  show "w_runId (claimed_world cfg env w) = Some rid" "w_refreshTimer (claimed_world cfg env w)"
    using tryClaimLock_runId [OF snd] by (simp_all add: claimed_world_def startRefreshTimer_def now_def rid_def)
qed


text \<open>A small outbox with one listener, for the witnesses.\<close>

definition ex_event :: "int \<Rightarrow> OutboxEvent" where
  "ex_event i = \<lparr>ev_id = i, ev_type = ''message:created'', ev_payload = JObj [], ev_createdAt = 0\<rparr>"

definition ex_row :: "int \<Rightarrow> ProcessedIdsMap \<Rightarrow> ListenerRow" where
  "ex_row c m = (new_listener ''broadcast'' c 0)\<lparr>l_processed_ids := m\<rparr>"

definition ex_db :: "int list \<Rightarrow> ListenerRow \<Rightarrow> OutboxDb" where
  "ex_db ids r = \<lparr>outbox = map ex_event ids, outbox_next_id = 100, outbox_listeners = [r],
    outbox_dead_letters = [], outbox_notifies = 0\<rparr>"

definition ex_world :: "OutboxDb \<Rightarrow> int list World" where
  "ex_world db = \<lparr>w_db = db, w_ext = [], w_runId = None, w_refreshTimer = False, w_logs = [], w_tick = 0\<rparr>"

definition ex_cfg :: CursorLockConfig where
  "ex_cfg = mkCursorLock ''broadcast'' 10000 5 1000 2 None None"

definition ex_env :: "timestamp \<Rightarrow> RunEnv" where
  "ex_env now = \<lparr>env_now = (\<lambda>_. now), env_oldest = (\<lambda>_. None), env_random = (\<lambda>_. 0),
    env_runId = (\<lambda>_. ''run'')\<rparr>"

definition ex_processor :: "int list processor" where
  "ex_processor db x c ids =
    (case fetchAfterId db c 2 ids of
       [] \<Rightarrow> (db, x, Res_no_events)
     | es \<Rightarrow> (db, x @ map ev_id es, Res_processed (map ev_id es)))"

text \<open>The definitions a concrete run unfolds; nested \<open>let\<close>s stay shared.\<close>

lemmas run_eval = ex_event_def ex_row_def ex_db_def ex_world_def ex_cfg_def ex_env_def ex_processor_def
  mkCursorLock_def new_listener_def DEFAULT_GAP_WINDOW_MS_def DEFAULT_GAP_CEILING_MS_def
  run_def isReadyToProcess_def tryClaimLock_def eval_nat_numeral fetchAfterId_def order_limit_def
  compactAndPersist_def compactWithGapGuard_def hasUnfilledGaps_def compact_def mergeNewIds_def
  maxExpired_def advanceContiguous_stop advanceContiguous_step isExpired_def provenDead_def pastCeiling_def
  persistProcessedState_def resetRetryState_def update_listener_def persisted_def tick_def
  startRefreshTimer_def stopRefreshTimer_def releaseLock_def lock_claimable_def set_lock_def
  add_log_def


section \<open>Skipping a gap\<close>

lemma compact_skips_only_expired:
  assumes "c < n" and "n \<le> cs_cursor (compact c m ids now gw opts)" and "n \<notin> obj_keys m \<union> set ids"
  obtains i t where "n < i" and "(i, t) \<in> set (mergeNewIds m ids now)" and "isExpired now gw opts t"
proof (cases rule: maxExpired_cases [of now gw opts c "mergeNewIds m ids now"])
  case 1
  have "n \<in> handled_state (compact c m ids now gw opts)" using assms(2) by simp
  then show thesis using 1 assms(1,3) unfolding handled_compact by auto
next
  case (2 t)
  let ?b = "merged_base c m ids now gw opts"
  have "n \<in> handled_state (compact c m ids now gw opts)" using assms(2) by simp
  then have "n \<le> ?b" using assms(3) unfolding handled_compact by auto
  moreover have "?b \<in> obj_keys m \<union> set ids" using obj_keysI [OF 2(1)] by simp
  ultimately have "n < ?b" using assms(3) by (metis order_le_less)
  with 2 that show thesis by blast
qed

text \<open>
  C3. The gap guard: if a batch moves the cursor over an id that was neither in the window nor
  in the batch, then some tracked id above it was read at least the gap window ago, and
  either every transaction still running started more than the skew pad after that read, or
  the read is as old as the ceiling and the skip is logged as forced.
\<close>

theorem gap_skip_is_proven_or_logged:
  assumes "compactWithGapGuard cfg oldest c m ids now = (s, logs)"
    and "c < n" and "n \<le> cs_cursor s" and "n \<notin> obj_keys m \<union> set ids"
  shows "\<exists>i t. n < i \<and> (i, t) \<in> set (mergeNewIds m ids now) \<and> t \<le> now - cl_gapWindowMs cfg \<and>
    ((case oldest of None \<Rightarrow> True | Some start \<Rightarrow> t < start - CLOCK_SKEW_PAD_MS) \<or>
     (t \<le> now - cl_gapCeilingMs cfg \<and> (\<exists>held < n. Log_ceiling_forced (cs_cursor s) held \<in> set logs)))"
proof -
  let ?opts = "\<lambda>ceil. Some \<lparr>oldestRunningTxnStart = oldest, gapCeilingMs = Some ceil\<rparr>"
  let ?held = "cs_cursor (compact c m ids now (cl_gapWindowMs cfg) (?opts PosInfinity))"
  have gaps: "hasUnfilledGaps c m ids"
  proof -
    obtain opts where "s = compact c m ids now (cl_gapWindowMs cfg) opts"
      using guard_compacts [of cfg oldest c m ids now] assms(1) by (metis fst_conv)
    then obtain i t where "n < i" "(i, t) \<in> set (mergeNewIds m ids now)"
      using compact_skips_only_expired [of c n m ids now "cl_gapWindowMs cfg" opts] assms by metis
    then show ?thesis
      unfolding hasUnfilledGaps_iff using assms(2,4) obj_keysI [of i t "mergeNewIds m ids now"] by auto
  qed
  then have s: "s = compact c m ids now (cl_gapWindowMs cfg) (?opts (Ms (cl_gapCeilingMs cfg)))"
    and logs: "cs_cursor s > ?held \<longrightarrow> Log_ceiling_forced (cs_cursor s) ?held \<in> set logs"
    using assms(1) by (auto simp: compactWithGapGuard_def Let_def)
  show ?thesis
  proof (cases "n \<le> ?held")
    case True
    obtain i t where "n < i" "(i, t) \<in> set (mergeNewIds m ids now)"
      "isExpired now (cl_gapWindowMs cfg) (?opts PosInfinity) t"
      by (rule compact_skips_only_expired [OF assms(2) True assms(4)])
    then show ?thesis
      by (intro exI [of _ i] exI [of _ t])
        (auto simp: isExpired_def provenDead_def pastCeiling_def split: if_splits)
  next
    case False
    obtain i t where "n < i" "(i, t) \<in> set (mergeNewIds m ids now)"
      "isExpired now (cl_gapWindowMs cfg) (?opts (Ms (cl_gapCeilingMs cfg))) t"
      by (rule compact_skips_only_expired [OF assms(2) assms(3) [unfolded s] assms(4)])
    moreover have "\<exists>held < n. Log_ceiling_forced (cs_cursor s) held \<in> set logs"
      using False assms(3) logs by (intro exI [of _ ?held]) auto
    ultimately show ?thesis
      by (intro exI [of _ i] exI [of _ t])
        (auto simp: isExpired_def provenDead_def pastCeiling_def split: if_splits)
  qed
qed

theorem gap_skip_is_proven_or_logged_witness:
  "\<exists>(i::int) t. 2 < i \<and> (i, t) \<in> {(1, 900), (3, 1000), (4, 70000)} \<and> t \<le> 70000 - cl_gapWindowMs ex_cfg \<and>
    (t < 500 - CLOCK_SKEW_PAD_MS \<or>
     (t \<le> 70000 - cl_gapCeilingMs ex_cfg \<and>
       (\<exists>held < 2. Log_ceiling_forced 4 held \<in> {Log_ceiling_forced 4 1})))"
proof -
  have "compactWithGapGuard ex_cfg (Some 500) 0 [(1, 900), (3, 1000)] [4] 70000 =
      (\<lparr>cs_cursor = 4, cs_processedIds = []\<rparr>, [Log_ceiling_forced 4 1])"
    by code_simp
  moreover have "mergeNewIds [(1, 900), (3, 1000)] [4] 70000 = [(1, 900), (3, 1000), (4, 70000)]"
    by (simp add: mergeNewIds_def)
  ultimately show ?thesis
    using gap_skip_is_proven_or_logged [of ex_cfg "Some 500" 0 "[(1, 900), (3, 1000)]" "[4]" 70000 _ _ 2] by simp
qed

lemma no_gap_below:
  assumes "\<not> hasUnfilledGaps c m ids" and "i \<in> obj_keys m \<union> set ids" and "n \<le> i"
  shows "n \<in> handled c m \<union> set ids"
proof (cases "c < n \<and> n < i")
  case True
  then have "n \<in> obj_keys m \<union> set ids" using assms(1,2) unfolding hasUnfilledGaps_iff by blast
  then show ?thesis by auto
next
  case False
  with assms(2,3) show ?thesis by auto
qed

text \<open>
  A batch that leaves no gap above the cursor marks exactly its own ids and the tracked
  ones as handled and empties the window, so the whole state is again a plain cursor.
\<close>

theorem contiguous_batch_is_exact:
  assumes "\<not> hasUnfilledGaps c m ids" and "s = fst (compactWithGapGuard cfg oldest c m ids now)"
  shows "cs_processedIds s = [] \<and> {i. i \<le> cs_cursor s} = handled c m \<union> set ids"
proof -
  let ?b = "merged_base c m ids now (cl_gapWindowMs cfg) None"
  have s: "s = compact c m ids now (cl_gapWindowMs cfg) None"
    using assms by (simp add: compactWithGapGuard_def)
  have "{i. i \<le> ?b} \<subseteq> handled c m \<union> set ids"
  proof (cases rule: maxExpired_cases [of now "cl_gapWindowMs cfg" None c "mergeNewIds m ids now"])
    case (2 t)
    then have "?b \<in> obj_keys m \<union> set ids" using obj_keysI [OF 2(1)] by simp
    then show ?thesis using no_gap_below [OF assms(1)] by blast
  qed auto
  then have exact: "handled_state s = handled c m \<union> set ids"
    using handled_compact_ge [of c m ids now "cl_gapWindowMs cfg" None]
    unfolding s handled_compact by (auto simp: handled_def)
  have "i \<notin> obj_keys (cs_processedIds s)" for i
  proof
    assume i: "i \<in> obj_keys (cs_processedIds s)"
    then have "cs_cursor s < i" using compact_window_above unfolding s by blast
    moreover have "i \<in> obj_keys m \<union> set ids"
      using i compact_window_times unfolding s by (metis keys_mergeNewIds obj_keys_iff)
    ultimately have "cs_cursor s + 1 \<in> handled_state s"
      using no_gap_below [OF assms(1), of i "cs_cursor s + 1"] exact by auto
    then show False using compact_window_not_next unfolding s by auto
  qed
  then have "cs_processedIds s = []" by (cases "cs_processedIds s") auto
  with exact show ?thesis by (simp add: handled_def)
qed

theorem contiguous_batch_is_exact_witness:
  "{i. i \<le> cs_cursor (fst (compactWithGapGuard ex_cfg None 0 [(2, 10)] [1, 3] 20))} = handled 0 [(2, 10)] \<union> {1, 3}"
proof -
  have "\<not> hasUnfilledGaps 0 [(2, 10)] [1, 3]" by code_simp
  from contiguous_batch_is_exact [OF this refl] show ?thesis by simp
qed

text \<open>
  \<open>hasUnfilledGaps\<close> decides whether some tracked id lies above an untracked id that is above
  the cursor.
\<close>

theorem hasUnfilledGaps_spec:
  "hasUnfilledGaps cursor window batch \<longleftrightarrow>
    (\<exists>i\<in>obj_keys window \<union> set batch. \<exists>n. cursor < n \<and> n < i \<and> n \<notin> obj_keys window \<union> set batch)"
  by (rule hasUnfilledGaps_iff)

text \<open>
  Every compaction, guarded or not, keeps the window in normal form: the cursor does not go
  back, every id tracked or in the batch stays handled, the window lies strictly above the
  cursor and does not start right after it, each id occurs once, and an entry left in it
  carries the time it had or, for an id of the batch, the present.
\<close>

theorem compact_normal_form:
  fixes c m ids now w opts
  defines "s \<equiv> compact c m ids now w opts"
  assumes "distinct (map fst m)"
  shows "c \<le> cs_cursor s \<and> handled c m \<union> set ids \<subseteq> handled (cs_cursor s) (cs_processedIds s) \<and>
    (\<forall>i\<in>obj_keys (cs_processedIds s). cs_cursor s + 1 < i) \<and> distinct (map fst (cs_processedIds s)) \<and>
    (\<forall>(i, t)\<in>set (cs_processedIds s). if i \<in> set ids then t = now else (i, t) \<in> set m)"
proof -
  have "cs_cursor s + 1 < i" if "i \<in> obj_keys (cs_processedIds s)" for i
    using compact_window_above [of c m ids now w opts] compact_window_not_next [of c m ids now w opts] that
    unfolding s_def by (metis add1_zle_eq order_le_less)
  moreover have "if i \<in> set ids then t = now else (i, t) \<in> set m" if "(i, t) \<in> set (cs_processedIds s)" for i t
  proof -
    have "(i, t) \<in> set (mergeNewIds m ids now)" using that compact_window_times unfolding s_def by blast
    then have "map_of (mergeNewIds m ids now) i = Some t"
      using distinct_mergeNewIds [OF assms(2)] by simp
    then show ?thesis by (auto simp: map_of_mergeNewIds dest: map_of_SomeD)
  qed
  ultimately show ?thesis
    using compact_cursor_ge [of c m ids now w opts] handled_compact_ge [of c m ids now w opts]
      compact_distinct [OF assms(2), of c ids now w opts]
    unfolding s_def by blast
qed

theorem compact_normal_form_witness:
  "let s = compact 10 [(12, 0), (15, 4500)] [11, 14] 5000 1000 None in 10 \<le> cs_cursor s \<and> s = \<lparr>cs_cursor = 12, cs_processedIds = [(15, 4500), (14, 5000)]\<rparr>"
proof -
  have "compact 10 [(12, 0), (15, 4500)] [11, 14] 5000 1000 None = \<lparr>cs_cursor = 12, cs_processedIds = [(15, 4500), (14, 5000)]\<rparr>"
    by code_simp
  then show ?thesis
    using compact_normal_form [of "[(12, 0), (15, 4500)]" 10 "[11, 14]" 5000 1000 None] by (simp add: Let_def)
qed

section \<open>Exclusion\<close>

text \<open>
  Several runs, of this process or another, work on the same row.  One step of such an
  interleaving is a statement some run issues: the claim, the refresh or the release, with
  the \<open>runId\<close> its own lock object holds.
\<close>

definition lock_object :: "string option \<Rightarrow> OutboxDb \<Rightarrow> unit World" where
  "lock_object rid db = \<lparr>w_db = db, w_ext = (), w_runId = rid, w_refreshTimer = False, w_logs = [], w_tick = 0\<rparr>"

fun lock_statement :: "CursorLockConfig \<Rightarrow> timestamp \<Rightarrow> string lease_op \<Rightarrow> OutboxDb \<Rightarrow> OutboxDb" where
  "lock_statement cfg dbNow (Op_claim rid now _) db = w_db (fst (tryClaimLock cfg rid now (lock_object None db)))"
| "lock_statement cfg dbNow (Op_renew rid now) db = w_db (refreshLock cfg now (lock_object (Some rid) db))"
| "lock_statement cfg dbNow (Op_release rid) db = w_db (releaseLock cfg dbNow (lock_object (Some rid) db))"

text \<open>The same step as the lease sees it: expiries instead of clock readings.\<close>

fun lease_view :: "CursorLockConfig \<Rightarrow> string lease_op \<Rightarrow> string lease_op" where
  "lease_view cfg (Op_claim rid now u) = Op_claim rid now (now + cl_lockDurationMs cfg)"
| "lease_view cfg (Op_renew rid now) = Op_renew rid (now + cl_lockDurationMs cfg)"
| "lease_view cfg (Op_release rid) = Op_release rid"

lemma update_listener_ids [simp]:
  "(\<And>r. l_listener_id (f r) = l_listener_id r) \<Longrightarrow>
    map l_listener_id (outbox_listeners (update_listener p f db)) = map l_listener_id (outbox_listeners db)"
  by (simp add: update_listener_def sql_update_key)

lemma lock_statement_ids:
  "map l_listener_id (outbox_listeners (lock_statement cfg dbNow op db)) = map l_listener_id (outbox_listeners db)"
  by (cases op) (simp_all add: tryClaimLock_def refreshLock_def releaseLock_def lock_object_def set_lock_def Let_def)

lemma lock_statement_row:
  assumes "distinct (map l_listener_id (outbox_listeners db))" and "listener_row cfg db = Some r"
  shows "listener_row cfg (lock_statement cfg dbNow op db) =
    Some (lease_step claim_row (renew_row cfg) (release_row dbNow) (lease_view cfg op) r)"
  using assms tryClaimLock_row(2) [of "lock_object None db"]
    refreshLock_row [of "lock_object (Some _) db"] releaseLock_row [of "lock_object (Some _) db"]
  by (cases op) (simp_all add: lock_object_def)

lemma lock_statements_row:
  assumes "distinct (map l_listener_id (outbox_listeners db))" and "listener_row cfg db = Some r"
  shows "listener_row cfg (fold (lock_statement cfg dbNow) ops db) =
    Some (lease_run claim_row (renew_row cfg) (release_row dbNow) (map (lease_view cfg) ops) r)"
  using assms
proof (induction ops arbitrary: db r)
  case (Cons op ops)
  from Cons.IH [OF _ lock_statement_row [OF Cons.prems]] Cons.prems lock_statement_ids
  show ?case by (simp add: lease_run_def)
qed (simp add: lease_run_def)

text \<open>
  C8. The lock excludes: once a run has claimed the row, it stays the holder through any
  interleaving of claims, refreshes and releases by other runs, as long as its own refreshes
  move the expiry forward and every claim by another run reads a clock at least the drift pad
  before the expiry promised last.
\<close>

theorem cursor_lock_excludes:
  assumes "outbox_wf (w_db w)" and "listener_row cfg (w_db w) = Some r"
    and "tryClaimLock cfg rid now w = (w1, Some claimed)"
    and "kept_by clockDriftPadMs rid (now + cl_lockDurationMs cfg) (map (lease_view cfg) ops)"
  shows "\<exists>r'. listener_row cfg (fold (lock_statement cfg dbNow) ops (w_db w1)) = Some r' \<and>
    l_lock_run_id r' = Some rid"
proof -
  have dist: "distinct (map l_listener_id (outbox_listeners (w_db w)))"
    using assms(1) by (simp add: outbox_wf_def)
  have claimable: "lock_claimable now r"
    using tryClaimLock_row(1) [OF dist assms(2), of rid now] assms(3) by (simp split: if_splits)
  let ?r1 = "set_lock rid (now + cl_lockDurationMs cfg) now r"
  have claim: "claim_row rid now (now + cl_lockDurationMs cfg) r = Some ?r1"
    using claimable by (simp add: claim_row_def)
  have row: "listener_row cfg (w_db w1) = Some ?r1"
    using tryClaimLock_row(2) [OF dist assms(2), of rid now] assms(3) claim by simp
  have "map l_listener_id (outbox_listeners (w_db w1)) = map l_listener_id (outbox_listeners (w_db w))"
    using assms(3) by (auto simp: tryClaimLock_def Let_def set_lock_def split: if_splits)
  with dist have dist1: "distinct (map l_listener_id (outbox_listeners (w_db w1)))" by simp
  from lock_statements_row [OF dist1 row] cursor_lease.claim_then_kept [OF TrueI claim assms(4), of cfg dbNow]
  show ?thesis by simp
qed

theorem cursor_lock_excludes_witness:
  "\<exists>r'. listener_row ex_cfg (fold (lock_statement ex_cfg 9) [Op_claim ''b'' 5000 0, Op_renew ''a'' 6000, Op_release ''b'', Op_claim ''c'' 15900 0]
      (w_db (fst (tryClaimLock ex_cfg ''a'' 0 (lock_object None (ex_db [] (ex_row 0 []))))))) = Some r' \<and>
    l_lock_run_id r' = Some ''a''"
proof -
  let ?w = "lock_object None (ex_db [] (ex_row 0 []))"
  have wf: "outbox_wf (w_db ?w)" "listener_row ex_cfg (w_db ?w) = Some (ex_row 0 [])" by code_simp+
  have claim: "tryClaimLock ex_cfg ''a'' 0 ?w = (fst (tryClaimLock ex_cfg ''a'' 0 ?w), Some (0, []))" by code_simp
  have kept: "kept_by clockDriftPadMs ''a'' (0 + cl_lockDurationMs ex_cfg) (map (lease_view ex_cfg)
      [Op_claim ''b'' 5000 0, Op_renew ''a'' 6000, Op_release ''b'', Op_claim ''c'' 15900 0])" by code_simp
  from cursor_lock_excludes [OF wf claim kept, of 9] show ?thesis .
qed

text \<open>
  The pad shortens the lease instead of protecting it: a claim succeeds although the lock of
  the present holder has still 50 ms to run.
\<close>

lemma lock_claimed_before_expiry:
  "let w = lock_object None (ex_db [] ((ex_row 0 [])\<lparr>l_locked_until := Some 10000, l_lock_run_id := Some ''a''\<rparr>))
   in snd (tryClaimLock ex_cfg ''b'' 9950 w) \<noteq> None"
  by code_simp

section \<open>Retries and dead letters\<close>

lemma releaseLock_keeps:
  assumes "listener_row cfg (w_db w) = Some r"
  shows "\<exists>r'. listener_row cfg (w_db (releaseLock cfg now w)) = Some r' \<and>
      l_last_processed_id r' = l_last_processed_id r \<and> l_processed_ids r' = l_processed_ids r \<and>
      l_last_error r' = l_last_error r \<and> l_retry_count r' = l_retry_count r \<and>
      l_retry_after r' = l_retry_after r"
    and "outbox (w_db (releaseLock cfg now w)) = outbox (w_db w)"
    and "outbox_dead_letters (w_db (releaseLock cfg now w)) = outbox_dead_letters (w_db w)"
    and "w_ext (releaseLock cfg now w) = w_ext w"
  using assms by (auto simp: releaseLock_def listener_row_update split: option.split)

lemma run_fails:
  assumes "distinct (map l_listener_id (outbox_listeners (w_db w)))"
    and "listener_row cfg (w_db w) = Some r" and "can_run cfg (env_now env (w_tick w)) r"
    and "\<forall>db x c ids. p db x c ids = (db, x, Res_error msg None)"
    and "he = handleError cfg env (l_last_processed_id r) (l_processed_ids r) msg (claimed_world cfg env w)"
    and "listener_row cfg (w_db he) = Some r2"
  shows "\<exists>w' r'. run (Suc fuel) cfg env p w = Some (False, w') \<and> outbox (w_db w') = outbox (w_db he) \<and>
    outbox_dead_letters (w_db w') = outbox_dead_letters (w_db he) \<and> listener_row cfg (w_db w') = Some r' \<and>
    l_last_processed_id r' = l_last_processed_id r2 \<and> l_processed_ids r' = l_processed_ids r2 \<and>
    l_last_error r' = l_last_error r2 \<and> l_retry_count r' = l_retry_count r2 \<and> l_retry_after r' = l_retry_after r2"
proof -
  have stop: "w_db (stopRefreshTimer he) = w_db he" by (simp add: stopRefreshTimer_def)
  have "run (Suc fuel) cfg env p w = Some (False, releaseLock cfg (env_now env (w_tick he)) (stopRefreshTimer he))"
    using assms(4) by (simp add: run_claims(1) [OF assms(1-3)] assms(5))
  with releaseLock_keeps [of cfg "stopRefreshTimer he" r2 "env_now env (w_tick he)"] assms(6) stop
  show ?thesis by auto
qed

lemma claimed_world_frame:
  "outbox (w_db (claimed_world cfg env w)) = outbox (w_db w)"
  "outbox_dead_letters (w_db (claimed_world cfg env w)) = outbox_dead_letters (w_db w)"
  by (simp_all add: claimed_world_def startRefreshTimer_def tryClaimLock_def Let_def)

text \<open>
  The circuit breaker, first half: while the retry budget lasts, a batch that fails before
  any event was handled leaves cursor and window alone, dead-letters nothing, counts the
  retry, and keeps every run out until the backoff is over, which is at most five minutes
  after the failure.
\<close>

theorem failed_batch_backs_off:
  assumes "outbox_wf (w_db w)" and row: "listener_row cfg (w_db w) = Some r"
    and can: "can_run cfg (env_now env (w_tick w)) r" and "l_retry_count r < cl_maxRetries cfg"
    and fails: "\<forall>db x c ids. p db x c ids = (db, x, Res_error msg None)"
    and clock: "\<forall>k. env_now env k = t" and "0 \<le> t"
    and "0 \<le> cl_baseBackoffMs cfg" and "\<forall>k. 0 \<le> env_random env k"
  shows "\<exists>w' r' until. run (Suc fuel) cfg env p w = Some (False, w') \<and>
    outbox_dead_letters (w_db w') = outbox_dead_letters (w_db w) \<and>
    listener_row cfg (w_db w') = Some r' \<and> row_handled r' = row_handled r \<and>
    l_retry_count r' = l_retry_count r + 1 \<and> l_last_error r' = Some msg \<and>
    l_retry_after r' = Some until \<and> t \<le> until \<and> until \<le> t + 300000 \<and>
    (\<forall>now < until. \<not> can_run cfg now r')"
proof -
  have dist: "distinct (map l_listener_id (outbox_listeners (w_db w)))"
    using assms(1) by (simp add: outbox_wf_def)
  note claims = run_claims [OF dist row can]
  let ?w1 = "claimed_world cfg env w"
  define backoff where "backoff = calculateBackoffMs
    (backoff_opts (cl_baseBackoffMs cfg) (l_retry_count r + 1) (env_random env (w_tick ?w1)))"
  define he where "he = handleError cfg env (l_last_processed_id r) (l_processed_ids r) msg ?w1"
  define r2 where "r2 = (set_lock (env_runId env (w_tick w)) (t + cl_lockDurationMs cfg) t r)
    \<lparr>l_retry_count := l_retry_count r + 1, l_retry_after := Some (t + \<lfloor>backoff\<rfloor>),
     l_last_error := Some msg, l_updated_at := t\<rparr>"
  have "0 \<le> backoff" unfolding backoff_def by (rule calculateBackoffMs_nonneg) (use assms in auto)
  have "backoff \<le> 300000"
    using calculateBackoffMs_le_max [of "backoff_opts (cl_baseBackoffMs cfg) (l_retry_count r + 1)
      (env_random env (w_tick ?w1))"] by (simp add: backoff_def DEFAULT_MAX_BACKOFF_MS_def)
  then have bounds: "0 \<le> \<lfloor>backoff\<rfloor>" "\<lfloor>backoff\<rfloor> \<le> 300000"
    using \<open>0 \<le> backoff\<close> by (simp_all add: floor_le_iff)
  have row2: "listener_row cfg (w_db he) = Some r2" and db2: "outbox_dead_letters (w_db he) = outbox_dead_letters (w_db w)"
    using claims(2) clock assms(4) \<open>0 \<le> t\<close> \<open>0 \<le> backoff\<close> claimed_world_frame(2) [of cfg env w]
    by (simp_all add: he_def r2_def handleError_def recordError_def Let_def listener_row_update_all
        backoff_def [symmetric] js_Date_add_nonneg set_lock_def)
  obtain w' r' where "run (Suc fuel) cfg env p w = Some (False, w')"
      "outbox_dead_letters (w_db w') = outbox_dead_letters (w_db he)" "listener_row cfg (w_db w') = Some r'"
      "l_last_processed_id r' = l_last_processed_id r2" "l_processed_ids r' = l_processed_ids r2"
      "l_last_error r' = l_last_error r2" "l_retry_count r' = l_retry_count r2" "l_retry_after r' = l_retry_after r2"
    using run_fails [OF dist row can fails he_def row2, of fuel] by blast
  then show ?thesis
    using bounds db2 by (intro exI [of _ w'] exI [of _ r'] exI [of _ "t + \<lfloor>backoff\<rfloor>"])
      (auto simp: r2_def set_lock_def can_run_def)
qed

text \<open>The first unhandled event is the one a fetch of one row returns, and skipping it skips no other.\<close>

lemma first_unique:
  assumes "distinct (map ev_id (outbox db))" and "e \<in> set (unhandled db c m)" and "d \<in> set (unhandled db c m)"
    and "ev_id d = ev_id e"
  shows "d = e"
  using assms by (auto simp: set_unhandled distinct_map inj_on_def)

lemma fetch_one:
  assumes "distinct (map ev_id (outbox db))" and "e \<in> set (unhandled db c [])"
    and "\<forall>d\<in>set (unhandled db c []). ev_id e \<le> ev_id d"
  shows "fetchAfterId db c 1 [] = [e]"
proof -
  let ?f = "fetchAfterId db c 1 (map fst ([] :: ProcessedIdsMap))"
  have "length ?f = 1"
    using assms(2) unfolding fetchAfterId_eq length_order_limit by (cases "unhandled db c []") auto
  then obtain d where d: "?f = [d]" by (auto simp: length_Suc_conv)
  then have "d \<in> set (unhandled db c [])" using fetchAfterId_set [of d db c 1 "[]"] by simp
  moreover from this have "ev_id d = ev_id e"
    using fetchAfterId_first [of d db c 1 "[]" e] assms(2,3) d by (cases "d = e") (auto intro: antisym)
  ultimately show ?thesis using d first_unique [OF assms(1,2)] by simp
qed

lemma above_first:
  assumes "distinct (map ev_id (outbox db))" and "e \<in> set (unhandled db c [])"
    and "\<forall>d\<in>set (unhandled db c []). ev_id e \<le> ev_id d"
  shows "unhandled db (ev_id e) [] = filter (\<lambda>d. d \<noteq> e) (unhandled db c [])"
proof -
  have "ev_id e < ev_id d \<longleftrightarrow> c < ev_id d \<and> d \<noteq> e" if "d \<in> set (outbox db)" for d
  proof (cases "c < ev_id d")
    case True
    then have "d \<in> set (unhandled db c [])" using that by (simp add: set_unhandled)
    with assms(3) first_unique [OF assms(1,2)] True show ?thesis by (auto simp: order_less_le)
  next
    case False
    with assms(2) show ?thesis by (simp add: set_unhandled)
  qed
  then show ?thesis unfolding unhandled_def filter_filter by (intro filter_cong) (auto simp: not_le)
qed

text \<open>
  C10. The circuit breaker, second half: when the retry budget is spent and the window is empty,
  the next failure dead-letters the first unhandled event and nothing else: that event alone
  leaves the work list, the cursor stands on it, and the retry state starts afresh.
\<close>

theorem poison_event_is_dead_lettered:
  assumes "outbox_wf (w_db w)" and row: "listener_row cfg (w_db w) = Some r"
    and can: "can_run cfg (env_now env (w_tick w)) r" and spent: "cl_maxRetries cfg \<le> l_retry_count r"
    and fails: "\<forall>db x c ids. p db x c ids = (db, x, Res_error msg None)"
    and window: "l_processed_ids r = []" 
    and first: "e \<in> set (unhandled (w_db w) (l_last_processed_id r) [])"
       "\<forall>d\<in>set (unhandled (w_db w) (l_last_processed_id r) []). ev_id e \<le> ev_id d"
  shows "\<exists>w' r'. run (Suc fuel) cfg env p w = Some (False, w') \<and>
    outbox_dead_letters (w_db w') = outbox_dead_letters (w_db w) @
      [\<lparr>dl_listener_id = cl_listenerId cfg, dl_outbox_event_id = ev_id e, dl_error = msg\<rparr>] \<and>
    listener_row cfg (w_db w') = Some r' \<and> l_last_processed_id r' = ev_id e \<and> l_processed_ids r' = [] \<and>
    l_retry_count r' = 0 \<and> l_retry_after r' = None \<and>
    unhandled (w_db w') (l_last_processed_id r') (l_processed_ids r') =
      filter (\<lambda>d. d \<noteq> e) (unhandled (w_db w) (l_last_processed_id r) [])"
proof -
  have dist: "distinct (map l_listener_id (outbox_listeners (w_db w)))" "distinct (map ev_id (outbox (w_db w)))"
    using assms(1) by (simp_all add: outbox_wf_def)
  let ?w1 = "claimed_world cfg env w" and ?c = "l_last_processed_id r"
  define he where "he = handleError cfg env ?c (l_processed_ids r) msg ?w1"
  have un: "unhandled (w_db ?w1) ?c [] = unhandled (w_db w) ?c []"
    by (simp add: unhandled_def claimed_world_frame)
  have "fetchAfterId (w_db ?w1) ?c 1 [] = [e]"
    using fetch_one [OF _ first [folded un]] dist(2) by (simp add: claimed_world_frame)
  moreover have "compact ?c [] [ev_id e] now 0 None = \<lparr>cs_cursor = ev_id e, cs_processedIds = []\<rparr>" for now
    using first(1) by (simp add: compact_def mergeNewIds_def maxExpired_def isExpired_def set_unhandled
        advanceContiguous_stop)
  ultimately have row2: "\<exists>r2. listener_row cfg (w_db he) = Some r2 \<and> l_last_processed_id r2 = ev_id e \<and>
      l_processed_ids r2 = [] \<and> l_retry_count r2 = 0 \<and> l_retry_after r2 = None"
    and db2: "outbox (w_db he) = outbox (w_db w)" "outbox_dead_letters (w_db he) = outbox_dead_letters (w_db w) @
      [\<lparr>dl_listener_id = cl_listenerId cfg, dl_outbox_event_id = ev_id e, dl_error = msg\<rparr>]"
    using run_claims(2) [OF dist(1) row can] spent window first(1)
    by (simp_all add: he_def handleError_def recordError_def moveFirstEventToDLQ_def Let_def set_lock_def
        mergeNewIds_def update_listener_def find_sql_update [where q = "\<lambda>_. True", simplified]
        claimed_world_frame set_unhandled)
  then obtain r2 where r2: "listener_row cfg (w_db he) = Some r2" "l_last_processed_id r2 = ev_id e"
      "l_processed_ids r2 = []" "l_retry_count r2 = 0" "l_retry_after r2 = None" by blast
  obtain w' r' where w': "run (Suc fuel) cfg env p w = Some (False, w')" "outbox (w_db w') = outbox (w_db he)"
      "outbox_dead_letters (w_db w') = outbox_dead_letters (w_db he)" "listener_row cfg (w_db w') = Some r'"
      "l_last_processed_id r' = l_last_processed_id r2" "l_processed_ids r' = l_processed_ids r2"
      "l_retry_count r' = l_retry_count r2" "l_retry_after r' = l_retry_after r2"
    using run_fails [OF dist(1) row can fails he_def r2(1), of fuel] by blast
  have "unhandled (w_db w') (ev_id e) [] = filter (\<lambda>d. d \<noteq> e) (unhandled (w_db w) ?c [])"
    using above_first [OF dist(2) first] by (simp add: unhandled_outbox [OF trans [OF w'(2) db2(1)]])
  with w' r2 db2 show ?thesis by (intro exI [of _ w'] exI [of _ r']) simp
qed

definition ex_failing :: "int list processor" where
  "ex_failing db x c ids = (db, x, Res_error ''boom'' None)"

theorem failed_batch_backs_off_witness:
  "\<exists>w' r' until. run (Suc 0) ex_cfg (ex_env 5000) ex_failing (ex_world (ex_db [1] (ex_row 0 []))) = Some (False, w') \<and>
    listener_row ex_cfg (w_db w') = Some r' \<and> l_retry_count r' = 1 \<and>
    l_retry_after r' = Some until \<and> 5000 \<le> until \<and> until \<le> 305000 \<and> (\<forall>now < until. \<not> can_run ex_cfg now r')"
proof -
  let ?w = "ex_world (ex_db [1] (ex_row 0 []))"
  have wf: "outbox_wf (w_db ?w)" "listener_row ex_cfg (w_db ?w) = Some (ex_row 0 [])"
    "can_run ex_cfg (env_now (ex_env 5000) (w_tick ?w)) (ex_row 0 [])"
    "l_retry_count (ex_row 0 []) < cl_maxRetries ex_cfg" by code_simp+
  have p: "\<forall>db x c ids. ex_failing db x c ids = (db, x, Res_error ''boom'' None)" by (simp add: ex_failing_def)
  have env: "\<forall>k. env_now (ex_env 5000) k = 5000" "(0::int) \<le> 5000" "0 \<le> cl_baseBackoffMs ex_cfg"
    "\<forall>k. 0 \<le> env_random (ex_env 5000) k" "l_retry_count (ex_row 0 []) = 0"
    by (simp_all add: ex_env_def ex_cfg_def mkCursorLock_def ex_row_def new_listener_def)
  from failed_batch_backs_off [OF wf p env(1-4), of 0] show ?thesis unfolding env(5) by force
qed

theorem poison_event_is_dead_lettered_witness:
  "\<exists>w' r'. run (Suc 0) ex_cfg (ex_env 5000) ex_failing (ex_world (ex_db [2, 1] ((ex_row 0 [])\<lparr>l_retry_count := 5\<rparr>))) = Some (False, w') \<and>
    outbox_dead_letters (w_db w') = [\<lparr>dl_listener_id = ''broadcast'', dl_outbox_event_id = 1, dl_error = ''boom''\<rparr>] \<and>
    listener_row ex_cfg (w_db w') = Some r' \<and> l_last_processed_id r' = 1 \<and>
    unhandled (w_db w') 1 (l_processed_ids r') = [ex_event 2]"
proof -
  let ?r = "(ex_row 0 [])\<lparr>l_retry_count := 5\<rparr>"
  let ?w = "ex_world (ex_db [2, 1] ?r)"
  have wf: "outbox_wf (w_db ?w)" "listener_row ex_cfg (w_db ?w) = Some ?r"
    "can_run ex_cfg (env_now (ex_env 5000) (w_tick ?w)) ?r" "cl_maxRetries ex_cfg \<le> l_retry_count ?r"
    "l_processed_ids ?r = []" "ex_event 1 \<in> set (unhandled (w_db ?w) (l_last_processed_id ?r) [])"
    "\<forall>d\<in>set (unhandled (w_db ?w) (l_last_processed_id ?r) []). ev_id (ex_event 1) \<le> ev_id d"
    "outbox_dead_letters (w_db ?w) = []" "cl_listenerId ex_cfg = ''broadcast''" "ev_id (ex_event 1) = 1"
    "unhandled (w_db ?w) (l_last_processed_id ?r) [] = [ex_event 2, ex_event 1]" "ex_event 2 \<noteq> ex_event 1"
    by code_simp+
  have p: "\<forall>db x c ids. ex_failing db x c ids = (db, x, Res_error ''boom'' None)" by (simp add: ex_failing_def)
  from poison_event_is_dead_lettered [OF wf(1-4) p wf(5-7), of 0]
  show ?thesis unfolding wf(8-11) using wf(12) by force
qed

section \<open>Where visible events are lost\<close>

text \<open>
  A liveness proof says that the owner of a gap has ended, so its row is visible or never
  comes; it does not say that the visible row has been handled.  With a batch of two events, the
  visible event 3 below an old window entry is skipped: the run handles 1 and 2, moves the
  cursor to 10 and ends.
\<close>

lemma run_skips_visible_event:
  "map_option (\<lambda>(d, w). (w_ext w, map l_last_processed_id (outbox_listeners (w_db w))))
     (run 3 ex_cfg (ex_env 5000) ex_processor (ex_world (ex_db [1, 2, 3, 10] (ex_row 0 [(10, 0)])))) =
   Some ([1, 2], [10])"
  by (simp add: run_eval)

text \<open>
  Dead-lettering compacts with a gap window of 0, which expires the whole window and not only
  the dead letter: event 2, visible and never handed to the processor, ends below the cursor.
\<close>

lemma dead_letter_skips_visible_event:
  "map_option (\<lambda>(d, w). (map dl_outbox_event_id (outbox_dead_letters (w_db w)),
      map l_last_processed_id (outbox_listeners (w_db w))))
     (run 1 ex_cfg (ex_env 5000) ex_failing
       (ex_world (ex_db [1, 2, 5] ((ex_row 0 [(5, 4900)])\<lparr>l_retry_count := 5\<rparr>)))) =
   Some ([1], [5])"
  by (simp add: run_eval ex_failing_def handleError_def recordError_def moveFirstEventToDLQ_def)

end
