(* ===== verification/Outbox_Handler.thy ===== *)
theory Outbox_Handler
  imports Cursor_Lock
begin

text \<open>
  \<^verbatim>\<open>apps/backend/src/lib/outbox/debounced-handler.ts\<close>: the base class of the feature handlers, which
  runs a batch of events through the subclass's \<open>processEvent\<close> under a \<open>CursorLock\<close>.  The
  subclass method is a parameter: it sees the event, the database and the rest of the
  world, and may fail with an error message.  The lemmas below compose it with the exhaust
  loop of the lock and show what a whole run does to the events.
\<close>

type_synonym 'x event_handler = "OutboxEvent \<Rightarrow> OutboxDb \<times> 'x \<Rightarrow> (OutboxDb \<times> 'x) \<times> string option"

record HandlerConfig =
  hc_batchSize :: "int option"
  hc_lockDurationMs :: "int option"
  hc_maxRetries :: "int option"
  hc_baseBackoffMs :: "rat option"

abbreviation or_default :: "'a option \<Rightarrow> 'a \<Rightarrow> 'a" where
  "or_default x d \<equiv> (case x of None \<Rightarrow> d | Some v \<Rightarrow> v)"

text \<open>The constructor: canonical tunables merged with the overrides.\<close>

definition handler_lock :: "string \<Rightarrow> HandlerConfig \<Rightarrow> CursorLockConfig" where
  "handler_lock listenerId opts =
    mkCursorLock listenerId (or_default (hc_lockDurationMs opts) 10000) (or_default (hc_maxRetries opts) 5)
      (or_default (hc_baseBackoffMs opts) 1000) (or_default (hc_batchSize opts) 100) None None"

text \<open>\<open>processBatch\<close>: the ids seen so far travel with the error (\<open>PartialBatchError\<close>).\<close>

fun processBatch ::
  "'x event_handler \<Rightarrow> OutboxEvent list \<Rightarrow> int list \<Rightarrow> OutboxDb \<times> 'x
    \<Rightarrow> (OutboxDb \<times> 'x) \<times> int list \<times> string option" where
  "processBatch processEvent [] seen s = (s, seen, None)"
| "processBatch processEvent (event # events) seen s =
    (case processEvent event s of
       (s', None) \<Rightarrow> processBatch processEvent events (seen @ [ev_id event]) s'
     | (s', Some err) \<Rightarrow> (s', seen, Some err))"

definition handler_processor :: "int \<Rightarrow> 'x event_handler \<Rightarrow> 'x processor" where
  "handler_processor batchSize processEvent db x cursor processedIds =
    (let events = fetchAfterId db cursor batchSize processedIds
     in if events = [] then (db, x, Res_no_events)
        else case processBatch processEvent events [] (db, x) of
            ((db', x'), seen, None) \<Rightarrow> (db', x', Res_processed seen)
          | ((db', x'), seen, Some err) \<Rightarrow>
              (db', x', Res_error err (if seen \<noteq> [] then Some seen else None)))"

definition handler_processEvents ::
  "nat \<Rightarrow> string \<Rightarrow> HandlerConfig \<Rightarrow> RunEnv \<Rightarrow> 'x event_handler \<Rightarrow> 'x World \<Rightarrow> (bool \<times> 'x World) option" where
  "handler_processEvents fuel listenerId opts env processEvent w =
    (let cfg = handler_lock listenerId opts
     in run fuel cfg env (handler_processor (cl_batchSize cfg) processEvent) w)"

definition handler_ensureListener :: "string \<Rightarrow> timestamp \<Rightarrow> OutboxDb \<Rightarrow> OutboxDb" where
  "handler_ensureListener listenerId now db = ensureListenerFromLatest listenerId now db"

section \<open>Batches\<close>

text \<open>A handler that works on the outside world only: it leaves the outbox tables alone.\<close>

definition outbox_preserving :: "'x event_handler \<Rightarrow> bool" where
  "outbox_preserving h \<longleftrightarrow> (\<forall>e db x. fst (fst (h e (db, x))) = db)"

lemma processBatch_db:
  "outbox_preserving h \<Longrightarrow> fst (fst (processBatch h es seen (db, x))) = db"
proof (induction es arbitrary: seen x)
  case (Cons e es)
  obtain x' err where "h e (db, x) = ((db, x'), err)"
    using Cons.prems unfolding outbox_preserving_def by (metis fst_conv surj_pair)
  with Cons show ?case by (auto split: option.split)
qed simp

definition batch_prefix :: "OutboxEvent list \<Rightarrow> int list \<Rightarrow> int list \<times> string option \<Rightarrow> bool" where
  "batch_prefix es seen r \<longleftrightarrow> (\<exists>k \<le> length es. fst r = seen @ map ev_id (take k es) \<and>
    (if snd r = None then k = length es else k < length es))"

lemma batch_prefix_Cons: "batch_prefix es (seen @ [ev_id e]) r \<Longrightarrow> batch_prefix (e # es) seen r"
  unfolding batch_prefix_def by (erule exE, rule_tac x = "Suc k" in exI) (simp split: if_splits)

lemma processBatch_seen: "batch_prefix es seen (snd (processBatch h es seen s))"
proof (induction es arbitrary: seen s)
  case (Cons e es)
  obtain s' err where "h e s = (s', err)" by (cases "h e s")
  with Cons.IH [of "seen @ [ev_id e]" s'] show ?case
    by (cases err) (simp add: batch_prefix_Cons, simp add: batch_prefix_def)
qed (simp add: batch_prefix_def)

lemma handler_keeps_listeners:
  "outbox_preserving h \<Longrightarrow> keeps_listeners (handler_processor n h)"
  unfolding keeps_listeners_def handler_processor_def Let_def
proof (intro allI)
  fix db x c ids
  assume "outbox_preserving h"
  then have "fst (fst (processBatch h (fetchAfterId db c n ids) [] (db, x))) = db"
    by (rule processBatch_db)
  then show "outbox_listeners (fst (if fetchAfterId db c n ids = [] then (db, x, Res_no_events)
      else case processBatch h (fetchAfterId db c n ids) [] (db, x) of
          ((db', x'), seen, None) \<Rightarrow> (db', x', Res_processed seen)
        | ((db', x'), seen, Some err) \<Rightarrow>
            (db', x', Res_error err (if seen \<noteq> [] then Some seen else None)))) = outbox_listeners db"
    by (auto split: prod.split option.split)
qed

section \<open>The reference: handling a list of events one by one\<close>

type_synonym 'x effect = "OutboxEvent \<Rightarrow> 'x \<Rightarrow> 'x \<times> string option"

definition ext_handler :: "'x effect \<Rightarrow> 'x event_handler" where
  "ext_handler f e s = ((fst s, fst (f e (snd s))), snd (f e (snd s)))"

text \<open>The final state, the events left over and the error that stopped the work.\<close>

fun handle_all :: "'x effect \<Rightarrow> OutboxEvent list \<Rightarrow> 'x \<Rightarrow> 'x \<times> OutboxEvent list \<times> string option" where
  "handle_all f [] x = (x, [], None)"
| "handle_all f (e # es) x =
    (case f e x of (x', None) \<Rightarrow> handle_all f es x' | (x', Some err) \<Rightarrow> (x', e # es, Some err))"

abbreviation left_over :: "'x effect \<Rightarrow> OutboxEvent list \<Rightarrow> 'x \<Rightarrow> OutboxEvent list" where
  "left_over f es x \<equiv> fst (snd (handle_all f es x))"

abbreviation failure :: "'x effect \<Rightarrow> OutboxEvent list \<Rightarrow> 'x \<Rightarrow> string option" where
  "failure f es x \<equiv> snd (snd (handle_all f es x))"

lemma left_over_suffix: "\<exists>k \<le> length es. left_over f es x = drop k es"
proof (induction es arbitrary: x)
  case (Cons e es)
  obtain x' err where f: "f e x = (x', err)" by (cases "f e x")
  show ?case
  proof (cases err)
    case None
    from Cons.IH [of x'] obtain k where "k \<le> length es" "left_over f es x' = drop k es" by blast
    with f None show ?thesis by (intro exI [of _ "Suc k"]) simp
  next
    case Some
    with f show ?thesis by (intro exI [of _ 0]) simp
  qed
qed simp

lemma length_left_over: "length (left_over f es x) \<le> length es"
  using left_over_suffix [of es f x] by auto

lemma failure_None_iff: "failure f es x = None \<longleftrightarrow> left_over f es x = []"
  by (induction es arbitrary: x) (auto split: prod.split option.split)

lemma handle_all_append:
  "handle_all f (es @ es') x =
    (if failure f es x = None then handle_all f es' (fst (handle_all f es x))
     else (fst (handle_all f es x), left_over f es x @ es', failure f es x))"
  by (induction es arbitrary: x) (auto split: prod.split option.split)

lemma processBatch_ext:
  "processBatch (ext_handler f) es seen (db, x) =
    ((db, fst (handle_all f es x)),
     seen @ map ev_id (take (length es - length (left_over f es x)) es), failure f es x)"
proof (induction es arbitrary: seen x)
  case (Cons e es)
  have "Suc (length es) - length (left_over f es x') = Suc (length es - length (left_over f es x'))" for x'
    using length_left_over [of f es x'] by (rule Suc_diff_le)
  with Cons show ?case by (auto simp: ext_handler_def split: prod.split option.split)
qed simp

lemma outbox_preserving_ext: "outbox_preserving (ext_handler f)"
  by (simp add: outbox_preserving_def ext_handler_def)

section \<open>One batch moves the work list forward\<close>

text \<open>
  Events in the order of their ids, and the condition under which a compaction cannot jump
  over one of them: every window entry above an unhandled event is still inside the gap
  window at \<open>tmax\<close>, a bound of the clock during the run.
\<close>

abbreviation todo :: "OutboxDb \<Rightarrow> int \<Rightarrow> ProcessedIdsMap \<Rightarrow> OutboxEvent list" where
  "todo db c m \<equiv> sort_key ev_id (unhandled db c m)"

definition nothing_overdue :: "timestamp \<Rightarrow> int \<Rightarrow> OutboxDb \<Rightarrow> int \<Rightarrow> ProcessedIdsMap \<Rightarrow> bool" where
  "nothing_overdue tmax gapWindow db c m \<longleftrightarrow>
    (\<forall>e\<in>set (unhandled db c m). \<forall>(i, t)\<in>set m. i < ev_id e \<or> tmax - gapWindow < t)"

lemma todo_sorted_distinct:
  assumes "distinct (map ev_id (outbox db))"
  shows "sorted (map ev_id (todo db c m))" and "distinct (map ev_id (todo db c m))"
  using assms distinct_order_limit [of ev_id "unhandled db c m" ev_id "int (length (unhandled db c m))"]
  by (auto simp: order_limit_all unhandled_def distinct_key_filter)

lemma take_less_drop:
  assumes "sorted xs" and "distinct xs" and "x \<in> set (take k xs)" and "y \<in> set (drop k xs)"
  shows "x < (y :: int)"
proof -
  have "sorted (take k xs @ drop k xs)" "distinct (take k xs @ drop k xs)" using assms by simp_all
  then show ?thesis using assms(3,4) unfolding sorted_append distinct_append by fastforce
qed

lemma compact_advances_todo:
  assumes dist: "distinct (map ev_id (outbox db))"
    and fresh: "nothing_overdue tmax gw db c m" and "now \<le> tmax"
    and ids_def: "ids = map ev_id (take k (todo db c m))"
    and s_def: "s = compact c m ids now gw opts"
  shows "todo db (cs_cursor s) (cs_processedIds s) = drop k (todo db c m)"
    and "nothing_overdue tmax gw db (cs_cursor s) (cs_processedIds s)"
proof -
  let ?todo = "todo db c m"
  have ids: "set ids = set (take k (map ev_id ?todo))" by (simp add: ids_def take_map)
  have above: "i < ev_id e" if "i \<in> set ids" "e \<in> set (drop k ?todo)" for i e
    using take_less_drop [OF todo_sorted_distinct [OF dist, of c m], of i k "ev_id e"] that ids
    by (simp add: drop_map)
  have split: "e \<in> set (drop k ?todo)" if "e \<in> set (unhandled db c m)" "ev_id e \<notin> set ids" for e
  proof -
    have "e \<in> set (take k ?todo) \<union> set (drop k ?todo)"
      using that(1) by (metis append_take_drop_id set_append set_sort)
    with that(2) show ?thesis by (auto simp: ids_def)
  qed
  have base: "merged_base c m ids now gw opts < ev_id e" if e: "e \<in> set (drop k ?todo)" for e
  proof (cases rule: maxExpired_cases [of now gw opts c "mergeNewIds m ids now"])
    case 1
    have "e \<in> set (unhandled db c m)" using e by (metis in_set_dropD set_sort)
    with 1 show ?thesis by (simp add: set_unhandled)
  next
    case (2 t)
    have "e \<in> set (unhandled db c m)" using e by (metis in_set_dropD set_sort)
    moreover have "t \<le> now - gw" using 2(2) by (auto simp: isExpired_def split: if_splits)
    ultimately show ?thesis
      using 2(1) set_mergeNewIds [of m ids now] above [OF _ e] fresh \<open>now \<le> tmax\<close>
      unfolding nothing_overdue_def by fastforce
  qed
  have handled: "ev_id e \<notin> handled_state s \<longleftrightarrow> ev_id e \<notin> handled c m \<and> ev_id e \<notin> set ids"
    if "e \<in> set (outbox db)" for e
    using base [OF split [of e]] that handled_compact_ge [of c m ids now gw opts]
    unfolding s_def handled_compact by (auto simp: set_unhandled)
  then have un: "unhandled db (cs_cursor s) (cs_processedIds s) =
      filter (\<lambda>e. ev_id e \<notin> set ids) (unhandled db c m)"
    unfolding unhandled_def filter_filter by (intro filter_cong) (auto simp del: handled_iff)
  have "filter (\<lambda>e. ev_id e \<notin> set ids) (take k ?todo @ drop k ?todo) = drop k ?todo"
    using above unfolding filter_append by (fastforce simp: ids_def filter_empty_conv filter_id_conv)
  then show drop: "todo db (cs_cursor s) (cs_processedIds s) = drop k ?todo"
    unfolding un filter_sort [symmetric] by simp
  show "nothing_overdue tmax gw db (cs_cursor s) (cs_processedIds s)"
    unfolding nothing_overdue_def
  proof (intro ballI, clarify)
    fix e i t
    assume e: "e \<in> set (unhandled db (cs_cursor s) (cs_processedIds s))"
      and it: "(i, t) \<in> set (cs_processedIds s)" and "\<not> tmax - gw < t"
    have "e \<in> set (drop k ?todo)" using e drop by (metis set_sort)
    moreover have "e \<in> set (unhandled db c m)" using e unfolding un by simp
    moreover have "(i, t) \<in> set m \<or> i \<in> set ids"
      using compact_window_times [OF it [unfolded s_def]] set_mergeNewIds [of m ids now] by blast
    ultimately show "i < ev_id e"
      using fresh above \<open>\<not> tmax - gw < t\<close> unfolding nothing_overdue_def by blast
  qed
qed

section \<open>A whole run\<close>

lemma handler_processor_idle:
  "0 < n \<Longrightarrow> todo db c m = [] \<Longrightarrow> handler_processor n h db x c (map fst m) = (db, x, Res_no_events)"
  by (simp add: handler_processor_def fetchAfterId_eq order_limit_def)

lemma handler_processor_batch:
  assumes "0 < n" and "todo db c m \<noteq> []"
    and es_def: "es = take (nat n) (todo db c m)"
    and k_def: "k = length es - length (left_over f es x)"
  shows "handler_processor n (ext_handler f) db x c (map fst m) =
    (db, fst (handle_all f es x),
     case failure f es x of
       None \<Rightarrow> Res_processed (map ev_id es)
     | Some err \<Rightarrow> Res_error err (if k \<noteq> 0 then Some (map ev_id (take k (todo db c m))) else None))"
proof -
  have fetch: "fetchAfterId db c n (map fst m) = es"
    by (simp add: fetchAfterId_eq order_limit_def es_def)
  have ne: "es \<noteq> []" using assms(1,2) unfolding es_def take_eq_Nil by auto
  have k: "take k es = take k (todo db c m)"
    unfolding es_def k_def by (simp add: min.absorb1)
  have "failure f es x = None \<Longrightarrow> take k es = es"
    by (simp add: k_def failure_None_iff)
  moreover have "take k es = [] \<longleftrightarrow> k = 0" using ne by simp
  ultimately show ?thesis
    using ne by (auto simp: handler_processor_def fetch Let_def processBatch_ext k_def [symmetric] k split: option.split)
qed

definition run_outcome ::
  "CursorLockConfig \<Rightarrow> 'x effect \<Rightarrow> OutboxEvent list \<Rightarrow> ListenerRow \<Rightarrow> 'x World \<Rightarrow> bool \<Rightarrow> bool \<times> 'x World \<Rightarrow> bool" where
  "run_outcome cfg f es r w d res \<longleftrightarrow>
    (case res of (d', w') \<Rightarrow> d' = (d \<or> left_over f es (w_ext w) \<noteq> es) \<and>
      w_ext w' = fst (handle_all f es (w_ext w)) \<and> outbox (w_db w') = outbox (w_db w) \<and>
      outbox_dead_letters (w_db w') = outbox_dead_letters (w_db w) \<and>
      (\<exists>r'. listener_row cfg (w_db w') = Some r' \<and>
        todo (w_db w') (l_last_processed_id r') (l_processed_ids r') = left_over f es (w_ext w) \<and>
        l_last_error r' = failure f es (w_ext w) \<and>
        l_retry_count r' =
          (if failure f es (w_ext w) = None then 0
           else if left_over f es (w_ext w) = es then l_retry_count r + 1 else 1)))"

lemma handleError_retry:
  assumes "listener_row cfg (w_db w) = Some r" and "l_retry_count r < cl_maxRetries cfg"
    and w'_def: "w' = handleError cfg env c m msg w"
  shows "w_ext w' = w_ext w" "outbox (w_db w') = outbox (w_db w)"
    "outbox_dead_letters (w_db w') = outbox_dead_letters (w_db w)"
    "\<exists>r'. listener_row cfg (w_db w') = Some r' \<and> l_last_processed_id r' = l_last_processed_id r \<and>
      l_processed_ids r' = l_processed_ids r \<and> l_last_error r' = Some msg \<and>
      l_retry_count r' = l_retry_count r + 1"
  using assms by (auto simp: w'_def handleError_def recordError_def Let_def listener_row_update_all)

lemma run_loop_idle:
  assumes "0 < n" and "listener_row cfg (w_db w) = Some r" and "0 \<le> l_retry_count r"
    and idle: "todo (w_db w) (l_last_processed_id r) (l_processed_ids r) = []"
  obtains res where
    "run_loop (Suc fuel) cfg env (handler_processor n (ext_handler f)) (l_last_processed_id r) (l_processed_ids r) d w = Some res"
    and "run_outcome cfg f [] r w d res"
proof -
  let ?w' = "tick (resetRetryState cfg (env_now env (w_tick w)) w)"
  let ?q = "\<lambda>r. 0 < l_retry_count r \<or> l_retry_after r \<noteq> None \<or> l_last_error r \<noteq> None"
  let ?r' = "if ?q r then r\<lparr>l_retry_count := 0, l_retry_after := None, l_last_error := None,
      l_updated_at := env_now env (w_tick w)\<rparr> else r"
  have row: "listener_row cfg (w_db ?w') = Some ?r'"
    using assms by (simp add: resetRetryState_def listener_row_update)
  have db: "outbox (w_db ?w') = outbox (w_db w)"
    "outbox_dead_letters (w_db ?w') = outbox_dead_letters (w_db w)" "w_ext ?w' = w_ext w"
    by (simp_all add: resetRetryState_def)
  have "run_outcome cfg f [] r w d (d, ?w')"
    using row db idle assms(3) unhandled_outbox [OF db(1)]
    by (auto simp: run_outcome_def)
  then show thesis
    by (intro that [of "(d, ?w')"]) (simp_all add: handler_processor_idle [OF assms(1) idle])
qed

lemma left_over_drop: "drop (length es - length (left_over f es x)) es = left_over f es x"
  using left_over_suffix [of es f x] by auto

lemma persisted_batch:
  assumes dist: "distinct (map ev_id (outbox (w_db w)))"
    and row: "listener_row cfg (w_db w) = Some r" "l_last_processed_id r = c" "l_processed_ids r = m"
    and fresh: "nothing_overdue tmax (cl_gapWindowMs cfg) (w_db w) c m"
    and clock: "env_now env (w_tick w) \<le> tmax"
    and ids: "ids = map ev_id (take k (todo (w_db w) c m))"
    and w2: "w2 = snd (compactAndPersist cfg env c m ids w)" "s = batch_state cfg env c m ids w"
  shows "todo (w_db w2) (cs_cursor s) (cs_processedIds s) = drop k (todo (w_db w) c m)"
    and "nothing_overdue tmax (cl_gapWindowMs cfg) (w_db w2) (cs_cursor s) (cs_processedIds s)"
    and "\<exists>r1. listener_row cfg (w_db w2) = Some r1 \<and> l_last_processed_id r1 = cs_cursor s \<and>
      l_processed_ids r1 = cs_processedIds s \<and> l_retry_count r1 = 0"
    and "outbox (w_db w2) = outbox (w_db w)" and "outbox_dead_letters (w_db w2) = outbox_dead_letters (w_db w)"
    and "w_ext w2 = w_ext w"
proof -
  obtain opts where s: "s = compact c m ids (env_now env (w_tick w)) (cl_gapWindowMs cfg) opts"
    unfolding w2(2) by (rule guard_compacts)
  show db: "outbox (w_db w2) = outbox (w_db w)" "outbox_dead_letters (w_db w2) = outbox_dead_letters (w_db w)"
    "w_ext w2 = w_ext w"
    by (simp_all add: w2 compactAndPersist_eq)
  note adv = compact_advances_todo [OF dist fresh clock ids s]
  show "todo (w_db w2) (cs_cursor s) (cs_processedIds s) = drop k (todo (w_db w) c m)"
    using adv(1) unhandled_outbox [OF db(1)] by simp
  show "nothing_overdue tmax (cl_gapWindowMs cfg) (w_db w2) (cs_cursor s) (cs_processedIds s)"
    using adv(2) unhandled_outbox [OF db(1)] by (simp add: nothing_overdue_def)
  have "c \<le> cs_cursor s" unfolding s by (rule compact_cursor_ge)
  then show "\<exists>r1. listener_row cfg (w_db w2) = Some r1 \<and> l_last_processed_id r1 = cs_cursor s \<and>
      l_processed_ids r1 = cs_processedIds s \<and> l_retry_count r1 = 0"
    using row by (simp add: w2 compactAndPersist_eq listener_row_update_all max_absorb2)
qed

lemma run_loop_error_outcome:
  assumes dist: "distinct (map ev_id (outbox (w_db w)))"
    and row: "listener_row cfg (w_db w) = Some r" "l_last_processed_id r = c" "l_processed_ids r = m"
    and fresh: "nothing_overdue tmax (cl_gapWindowMs cfg) (w_db w) c m"
    and clock: "env_now env (w_tick w) \<le> tmax"
    and retries: "0 \<le> l_retry_count r" "l_retry_count r < cl_maxRetries cfg"
    and es: "0 < n" "todo (w_db w) c m \<noteq> []" "es = take (nat n) (todo (w_db w) c m)"
    and err: "failure f es (w_ext w) = Some msg"
  shows "\<exists>res. run_loop (Suc fuel) cfg env (handler_processor n (ext_handler f)) c m d w = Some res \<and>
    run_outcome cfg f (todo (w_db w) c m) r w d res"
proof -
  let ?todo = "todo (w_db w) c m" and ?x = "w_ext w"
  define k where "k = length es - length (left_over f es ?x)"
  define w1 where "w1 = w\<lparr>w_ext := fst (handle_all f es ?x)\<rparr>"
  note proc = handler_processor_batch [OF es k_def, unfolded err option.simps]
  have todo: "es @ drop (nat n) ?todo = ?todo" by (simp add: es(3))
  have "drop k (es @ drop (nat n) ?todo) = drop k es @ drop (nat n) ?todo" by (simp add: k_def)
  then have left: "left_over f es ?x @ drop (nat n) ?todo = drop k ?todo"
    using left_over_drop [of es f ?x, folded k_def] unfolding todo by simp
  have all: "handle_all f ?todo ?x = (w_ext w1, drop k ?todo, Some msg)"
    using handle_all_append [of f es "drop (nat n) ?todo" ?x] err unfolding todo left by (simp add: w1_def)
  have row1: "listener_row cfg (w_db w1) = Some r" and db1: "w_db w1 = w_db w" "w_tick w1 = w_tick w"
    using row by (simp_all add: w1_def)
  show ?thesis
  proof (cases "k = 0")
    case True
    let ?w' = "handleError cfg env c m msg w1"
    have "run_loop (Suc fuel) cfg env (handler_processor n (ext_handler f)) c m d w = Some (d, ?w')"
      using True by (simp add: proc w1_def)
    moreover have "run_outcome cfg f ?todo r w d (d, ?w')"
      using handleError_retry [OF row1 retries(2) refl, of env c m msg] True row(2,3)
        unhandled_outbox [of "w_db ?w'" "w_db w"]
      by (auto simp: run_outcome_def all db1)
    ultimately show ?thesis by blast
  next
    case False
    define ids where "ids = map ev_id (take k ?todo)"
    define w2 where "w2 = snd (compactAndPersist cfg env c m ids w1)"
    define st where "st = batch_state cfg env c m ids w1"
    let ?w' = "handleError cfg env (cs_cursor st) (cs_processedIds st) msg w2"
    obtain i "is" where cons: "ids = i # is"
      using False es(2) unfolding ids_def by (cases "map ev_id (take k ?todo)") auto
    have loop: "run_loop (Suc fuel) cfg env (handler_processor n (ext_handler f)) c m d w = Some (True, ?w')"
      using False cons by (simp add: proc w1_def [symmetric] ids_def [symmetric] case_prod_beta compactAndPersist_eq w2_def st_def)
    note batch = persisted_batch [OF _ row1 row(2,3) _ _ ids_def [folded db1(1)] w2_def st_def, unfolded db1, OF dist fresh clock]
    obtain r1 where r1: "listener_row cfg (w_db w2) = Some r1" "l_last_processed_id r1 = cs_cursor st"
        "l_processed_ids r1 = cs_processedIds st" "l_retry_count r1 = 0"
      using batch(3) by blast
    then have "l_retry_count r1 < cl_maxRetries cfg" using retries by simp
    note retry = handleError_retry [OF r1(1) this refl, of env "cs_cursor st" "cs_processedIds st" msg]
    have "drop k ?todo \<noteq> ?todo" using False es(2) by (metis Cons_eq_map_conv cons append_take_drop_id append_self_conv2 ids_def list.distinct(1))
    then have "run_outcome cfg f ?todo r w d (True, ?w')"
      using retry r1 batch(1,4,5,6) unhandled_outbox [of "w_db ?w'" "w_db w2"]
      by (auto simp: run_outcome_def all)
    with loop show ?thesis by blast
  qed
qed

lemma run_outcome_append:
  assumes "failure f es (w_ext w) = None" and "run_outcome cfg f es' r1 w2 True res" and "es \<noteq> []"
    and "w_ext w2 = fst (handle_all f es (w_ext w))" and "outbox (w_db w2) = outbox (w_db w)"
    and "outbox_dead_letters (w_db w2) = outbox_dead_letters (w_db w)" and "l_retry_count r1 = 0"
  shows "run_outcome cfg f (es @ es') r w d res"
proof -
  have eq: "handle_all f (es @ es') (w_ext w) = handle_all f es' (w_ext w2)"
    using assms(1,4) by (simp add: handle_all_append)
  have "left_over f es' (w_ext w2) \<noteq> es @ es'"
    using length_left_over [of f es' "w_ext w2"] assms(3)
    by (metis add_le_same_cancel2 length_0_conv length_append le_zero_eq)
  with assms show ?thesis unfolding run_outcome_def eq by auto
qed

lemma run_loop_handles:
  assumes "0 < n" and clock: "\<And>k. env_now env k \<le> tmax"
    and "distinct (map ev_id (outbox (w_db w)))"
    and "listener_row cfg (w_db w) = Some r" "l_last_processed_id r = c" "l_processed_ids r = m"
    and "nothing_overdue tmax (cl_gapWindowMs cfg) (w_db w) c m"
    and "0 \<le> l_retry_count r" "l_retry_count r < cl_maxRetries cfg"
    and "length (todo (w_db w) c m) < fuel"
  shows "\<exists>res. run_loop fuel cfg env (handler_processor n (ext_handler f)) c m d w = Some res \<and>
    run_outcome cfg f (todo (w_db w) c m) r w d res"
  using assms(3-)
proof (induction fuel arbitrary: c m d w r)
  case (Suc fuel)
  let ?todo = "todo (w_db w) c m" and ?x = "w_ext w"
  define es where "es = take (nat n) ?todo"
  show ?case
  proof (cases "?todo = []")
    case True
    with Suc.prems run_loop_idle [OF assms(1), of cfg w r fuel env f d] show ?thesis by metis
  next
    case ne: False
    show ?thesis
    proof (cases "failure f es ?x")
      case (Some msg)
      from run_loop_error_outcome [OF Suc.prems(1-5) clock Suc.prems(6,7) assms(1) ne es_def this]
      show ?thesis .
    next
      case None
      define w1 where "w1 = w\<lparr>w_ext := fst (handle_all f es ?x)\<rparr>"
      define ids where "ids = map ev_id (take (nat n) ?todo)"
      have ids: "ids = map ev_id es" by (simp add: ids_def es_def)
      define w2 where "w2 = snd (compactAndPersist cfg env c m ids w1)"
      define st where "st = batch_state cfg env c m ids w1"
      have db1: "w_db w1 = w_db w" "w_tick w1 = w_tick w" by (simp_all add: w1_def)
      note batch = persisted_batch [of w1, unfolded db1, OF Suc.prems(1-5) clock ids_def w2_def st_def [unfolded db1]]
      obtain r1 where r1: "listener_row cfg (w_db w2) = Some r1" "l_last_processed_id r1 = cs_cursor st"
          "l_processed_ids r1 = cs_processedIds st" "l_retry_count r1 = 0"
        using batch(3) by blast
      have shorter: "length (drop (nat n) ?todo) < length ?todo"
        using ne assms(1) by (cases ?todo) auto
      have "\<exists>res. run_loop fuel cfg env (handler_processor n (ext_handler f)) (cs_cursor st)
          (cs_processedIds st) True w2 = Some res \<and> run_outcome cfg f (drop (nat n) ?todo) r1 w2 True res"
        using Suc.IH [of w2 r1, OF _ r1(1,2,3) batch(2), of True] Suc.prems(1,6,7,8) batch(1,4) r1(4) shorter
        by simp
      then obtain res where res: "run_loop fuel cfg env (handler_processor n (ext_handler f)) (cs_cursor st)
          (cs_processedIds st) True w2 = Some res" "run_outcome cfg f (drop (nat n) ?todo) r1 w2 True res"
        by blast
      have "es \<noteq> []" using ne assms(1) by (simp add: es_def)
      then have "run_loop (Suc fuel) cfg env (handler_processor n (ext_handler f)) c m d w = Some res"
        using res(1) handler_processor_batch [OF assms(1) ne es_def refl, of f ?x] None
        by (simp add: ids w1_def [symmetric] case_prod_beta compactAndPersist_eq w2_def st_def)
      moreover have "run_outcome cfg f (es @ drop (nat n) ?todo) r w d res"
        using \<open>es \<noteq> []\<close> None res(2) batch(4,5,6) r1(4)
        by (intro run_outcome_append [of f es w cfg _ r1 w2]) (simp_all add: w1_def)
      ultimately show ?thesis by (simp add: es_def)
    qed
  qed
qed simp


definition ex_opts :: HandlerConfig where
  "ex_opts = \<lparr>hc_batchSize = Some 2, hc_lockDurationMs = None, hc_maxRetries = None, hc_baseBackoffMs = None\<rparr>"

definition ex_effect :: "int list effect" where
  "ex_effect e x = (if ev_id e = 5 then (x, Some ''boom'') else (x @ [ev_id e], None))"


end
