(* ===== verification/Batched_Drain.thy ===== *)
theory Batched_Drain
  imports Threa_Prelude
begin

text \<open>
  The contract of the retention statements: one call deletes as many due rows as the batch
  size allows and says how many.  The retention workers for the outbox, the queue and the
  sync log all call such a statement in a loop that stops at a short batch or after
  \<open>maxBatchesPerRun\<close> calls.
\<close>

fun drain_loop :: "('s \<Rightarrow> 's \<times> nat) \<Rightarrow> nat \<Rightarrow> nat \<Rightarrow> 's \<Rightarrow> 's \<times> nat" where
  "drain_loop step batch 0 s = (s, 0)"
| "drain_loop step batch (Suc n) s =
    (let (s', deleted) = step s
     in if deleted < batch then (s', deleted)
        else let (s'', total) = drain_loop step batch n s' in (s'', deleted + total))"

text \<open>
  The candidates of one batch are the first due rows of some order; deleting by id deletes exactly
  them, because ids are unique.
\<close>

lemma key_mem_iff:
  assumes "distinct (map k rows)" and "r \<in> set rows" and "A \<subseteq> set rows"
  shows "k r \<in> k ` A \<longleftrightarrow> r \<in> A"
  using assms by (auto simp: distinct_map inj_on_def)

lemma batch_delete:
  fixes k :: "'r \<Rightarrow> 'k" and ord :: "'r \<Rightarrow> 'o::linorder"
  assumes "distinct (map k rows)"
    and cand_def: "cand = set (map k (order_limit ord n (filter p rows)))"
  shows "sql_count (\<lambda>r. k r \<in> cand) rows = min (nat n) (sql_count p rows)"
    and "sql_count p (sql_delete (\<lambda>r. k r \<in> cand) rows) = sql_count p rows - min (nat n) (sql_count p rows)"
    and "r \<in> set rows \<Longrightarrow> \<not> p r \<Longrightarrow> r \<in> set (sql_delete (\<lambda>r. k r \<in> cand) rows)"
proof -
  let ?L = "order_limit ord n (filter p rows)"
  have in_L: "r \<in> set rows \<and> p r" if "r \<in> set ?L" for r
    using set_order_limitD [OF that] by simp
  then have sub: "set ?L \<subseteq> set rows" and p: "\<And>r. r \<in> set ?L \<Longrightarrow> p r" by blast+
  have mem: "k r \<in> cand \<longleftrightarrow> r \<in> set ?L" if "r \<in> set rows" for r
    using key_mem_iff [OF assms(1) that sub] by (simp add: cand_def)
  have dL: "distinct ?L" and dR: "distinct rows"
    using assms(1) distinct_order_limit [OF distinct_key_filter [OF assms(1)], of ord n p]
    unfolding distinct_map by blast+
  have "filter (\<lambda>r. k r \<in> cand) rows = filter (\<lambda>r. r \<in> set ?L) rows"
    using mem by (intro filter_cong) auto
  then have "sql_count (\<lambda>r. k r \<in> cand) rows = card (set rows \<inter> set ?L)"
    using dR by (simp add: sql_count_def distinct_length_filter Int_commute)
  also have "\<dots> = length ?L" using sub dL by (simp add: Int_absorb1 distinct_card)
  finally show count: "sql_count (\<lambda>r. k r \<in> cand) rows = min (nat n) (sql_count p rows)"
    by (simp add: length_order_limit sql_count_def)
  have "sql_count p rows = sql_count p (sql_delete (\<lambda>r. k r \<in> cand) rows) + sql_count (\<lambda>r. k r \<in> cand) rows"
  proof -
    have "filter (\<lambda>r. k r \<in> cand) (filter p rows) = filter (\<lambda>r. k r \<in> cand) rows"
      unfolding filter_filter using mem p by (intro filter_cong) auto
    moreover have "filter p (sql_delete (\<lambda>r. k r \<in> cand) rows) = filter (\<lambda>r. \<not> k r \<in> cand) (filter p rows)"
      unfolding sql_delete_def filter_filter by (intro filter_cong) auto
    ultimately show ?thesis
      unfolding sql_count_def using sum_length_filter_compl [of "\<lambda>r. k r \<in> cand" "filter p rows"] by simp
  qed
  with count show "sql_count p (sql_delete (\<lambda>r. k r \<in> cand) rows) = sql_count p rows - min (nat n) (sql_count p rows)"
    by simp
  show "r \<in> set rows \<Longrightarrow> \<not> p r \<Longrightarrow> r \<in> set (sql_delete (\<lambda>r. k r \<in> cand) rows)"
    using mem p by auto
qed

locale batched_drain =
  fixes step :: "'s \<Rightarrow> 's \<times> nat"
    and batch :: nat
    and due :: "'s \<Rightarrow> nat"
    and ok :: "'s \<Rightarrow> bool"
  assumes step_count: "ok s \<Longrightarrow> snd (step s) = min batch (due s)"
    and step_due: "ok s \<Longrightarrow> due (fst (step s)) = due s - snd (step s)"
    and step_ok: "ok s \<Longrightarrow> ok (fst (step s))"
begin

lemma drain_ok: "ok s \<Longrightarrow> ok (fst (drain_loop step batch n s))"
  by (induction n arbitrary: s) (simp_all add: Let_def case_prod_beta step_ok)

lemma drain_total: "ok s \<Longrightarrow> snd (drain_loop step batch n s) = min (n * batch) (due s)"
proof (induction n arbitrary: s)
  case (Suc n)
  show ?case
    using step_count [OF Suc.prems] step_due [OF Suc.prems] Suc.IH [OF step_ok [OF Suc.prems]]
    by (auto simp: Let_def case_prod_beta min_def)
qed simp

lemma drain_due: "ok s \<Longrightarrow> due (fst (drain_loop step batch n s)) = due s - min (n * batch) (due s)"
proof (induction n arbitrary: s)
  case (Suc n)
  show ?case
    using step_count [OF Suc.prems] step_due [OF Suc.prems] Suc.IH [OF step_ok [OF Suc.prems]]
    by (auto simp: Let_def case_prod_beta min_def)
qed simp

lemma drain_all: "ok s \<Longrightarrow> due s \<le> n * batch \<Longrightarrow> due (fst (drain_loop step batch n s)) = 0"
  by (simp add: drain_due)

end

end
