(* ===== verification/Outbox_Retention.thy ===== *)
theory Outbox_Retention
  imports Outbox_Repository Batched_Drain
begin

text \<open>
  \<^verbatim>\<open>packages/backend-common/src/outbox/retention-worker.ts\<close>: the worker that purges old outbox rows
  below every listener's cursor.  The constructor validates its configuration and the
  periodic \<open>cleanup\<close> deletes in batches.  A database error ends one \<open>cleanup\<close> and is logged; the
  ticker that calls it is in theory \<open>Ticker\<close>.
\<close>

record OutboxRetentionWorkerConfig =
  rw_listenerIds :: "string list"
  rw_intervalMs :: int
  rw_retentionMs :: int
  rw_batchSize :: int
  rw_maxBatchesPerRun :: int

datatype retention_config_error =
    No_listener_ids
  | Bad_intervalMs int
  | Bad_retentionMs int
  | Bad_batchSize int
  | Bad_maxBatchesPerRun int

definition mkOutboxRetentionWorker ::
  "OutboxRetentionWorkerConfig \<Rightarrow> retention_config_error + OutboxRetentionWorkerConfig" where
  "mkOutboxRetentionWorker config =
    (let c = config\<lparr>rw_listenerIds := js_dedup (rw_listenerIds config)\<rparr>
     in if rw_listenerIds c = [] then Inl No_listener_ids
        else if rw_intervalMs c \<le> 0 then Inl (Bad_intervalMs (rw_intervalMs c))
        else if rw_retentionMs c \<le> 0 then Inl (Bad_retentionMs (rw_retentionMs c))
        else if rw_batchSize c \<le> 0 then Inl (Bad_batchSize (rw_batchSize c))
        else if rw_maxBatchesPerRun c \<le> 0 then Inl (Bad_maxBatchesPerRun (rw_maxBatchesPerRun c))
        else Inr c)"

definition outbox_retention_cleanup :: "OutboxRetentionWorkerConfig \<Rightarrow> timestamp \<Rightarrow> OutboxDb \<Rightarrow> OutboxDb \<times> nat" where
  "outbox_retention_cleanup config now db =
    (let retentionCutoff = now - rw_retentionMs config
     in case getRetentionWatermark db (rw_listenerIds config) of
          None \<Rightarrow> (db, 0)
        | Some watermark \<Rightarrow>
            if watermark \<le> 0 then (db, 0)
            else drain_loop (\<lambda>db. deleteRetainedEvents db watermark retentionCutoff (rw_batchSize config))
              (nat (rw_batchSize config)) (nat (rw_maxBatchesPerRun config)) db)"

section \<open>Deleting in batches\<close>

definition outbox_due :: "int \<Rightarrow> timestamp \<Rightarrow> OutboxEvent \<Rightarrow> bool" where
  "outbox_due m t e \<longleftrightarrow> ev_id e \<le> m \<and> ev_createdAt e < t"

lemma deleteRetainedEvents_simps:
  assumes "0 < limit"
  shows "outbox (fst (deleteRetainedEvents db m t limit)) =
      sql_delete (\<lambda>e. ev_id e \<in> set (map ev_id (order_limit ev_id limit (filter (outbox_due m t) (outbox db))))) (outbox db)"
    and "snd (deleteRetainedEvents db m t limit) =
      sql_count (\<lambda>e. ev_id e \<in> set (map ev_id (order_limit ev_id limit (filter (outbox_due m t) (outbox db))))) (outbox db)"
  using assms by (simp_all add: deleteRetainedEvents_def outbox_due_def [abs_def] Let_def)

interpretation outbox_drain: batched_drain
  "\<lambda>db. deleteRetainedEvents db m t (1 + int n)" "Suc n" "\<lambda>db. sql_count (outbox_due m t) (outbox db)"
  "\<lambda>db. distinct (map ev_id (outbox db))" for m t n
proof unfold_locales
  fix db :: OutboxDb
  assume ok: "distinct (map ev_id (outbox db))"
  note del = deleteRetainedEvents_simps [of "1 + int n" db m t]
  note batch = batch_delete [OF ok refl, where p = "outbox_due m t" and n = "1 + int n"]
  show "snd (deleteRetainedEvents db m t (1 + int n)) = min (Suc n) (sql_count (outbox_due m t) (outbox db))"
    using del batch by (simp add: nat_add_distrib)
  then show "sql_count (outbox_due m t) (outbox (fst (deleteRetainedEvents db m t (1 + int n)))) =
      sql_count (outbox_due m t) (outbox db) - snd (deleteRetainedEvents db m t (1 + int n))"
    using del batch by (simp add: nat_add_distrib)
  show "distinct (map ev_id (outbox (fst (deleteRetainedEvents db m t (1 + int n)))))"
    using del ok by (simp add: sql_delete_def distinct_key_filter)
qed

lemma drain_keeps_not_due:
  assumes "distinct (map ev_id (outbox db))" and "e \<in> set (outbox db)" and "\<not> outbox_due m t e" and "0 < limit"
  shows "e \<in> set (outbox (fst (drain_loop (\<lambda>db. deleteRetainedEvents db m t limit) (nat limit) k db)))"
  using assms(1,2)
proof (induction k arbitrary: db)
  case (Suc k)
  let ?db' = "fst (deleteRetainedEvents db m t limit)"
  have "e \<in> set (outbox ?db')"
    unfolding deleteRetainedEvents_simps [OF assms(4)]
    by (rule batch_delete(3) [OF Suc.prems(1) refl Suc.prems(2)]) (rule assms(3))
  moreover have "distinct (map ev_id (outbox ?db'))"
    using Suc.prems(1) by (simp add: deleteRetainedEvents_simps [OF assms(4)] sql_delete_def distinct_key_filter)
  ultimately show ?case using Suc.IH by (simp add: Let_def case_prod_beta)
qed simp

lemma cleanup_drains:
  assumes "0 < rw_batchSize cfg" and "getRetentionWatermark db (rw_listenerIds cfg) = Some m" and "0 < m"
  shows "outbox_retention_cleanup cfg now db =
    drain_loop (\<lambda>db. deleteRetainedEvents db m (now - rw_retentionMs cfg) (rw_batchSize cfg))
      (nat (rw_batchSize cfg)) (nat (rw_maxBatchesPerRun cfg)) db"
  using assms by (simp add: outbox_retention_cleanup_def Let_def)


text \<open>
  One \<open>cleanup\<close> deletes as many due rows as its batches allow, and none is left when the due
  rows fit into \<open>maxBatchesPerRun\<close> batches.
\<close>

theorem retention_drains_due_events:
  assumes "mkOutboxRetentionWorker config = Inr cfg" and "outbox_wf db"
    and "getRetentionWatermark db (rw_listenerIds cfg) = Some m" and "0 < m"
    and due: "due = sql_count (outbox_due m (now - rw_retentionMs cfg)) (outbox db)"
  shows "snd (outbox_retention_cleanup cfg now db) = min (nat (rw_maxBatchesPerRun cfg) * nat (rw_batchSize cfg)) due
    \<and> sql_count (outbox_due m (now - rw_retentionMs cfg)) (outbox (fst (outbox_retention_cleanup cfg now db)))
      = due - nat (rw_maxBatchesPerRun cfg) * nat (rw_batchSize cfg)"
proof -
  from assms(1) have pos: "0 < rw_batchSize cfg" by (auto simp: mkOutboxRetentionWorker_def Let_def split: if_splits)
  then obtain n where n: "rw_batchSize cfg = 1 + int n" by (metis zless_iff_Suc_zadd add_0 of_nat_Suc add.commute)
  have ok: "distinct (map ev_id (outbox db))" using assms(2) by (simp add: outbox_wf_def)
  have "nat (1 + int n) = Suc n" by simp
  then show ?thesis
    using outbox_drain.drain_total [OF ok] outbox_drain.drain_due [OF ok]
    unfolding cleanup_drains [OF pos assms(3,4)] n due by (simp add: min_def)
qed

definition ex_old_event :: "int \<Rightarrow> OutboxEvent" where
  "ex_old_event i = \<lparr>ev_id = i, ev_type = ''message:created'', ev_payload = JObj [], ev_createdAt = 0\<rparr>"

definition ex_listener :: "string \<Rightarrow> int \<Rightarrow> ListenerRow" where
  "ex_listener lid c = \<lparr>l_listener_id = lid, l_last_processed_id = c, l_processed_ids = [], l_last_processed_at = None,
     l_retry_count = 0, l_retry_after = None, l_last_error = None, l_locked_until = None,
     l_lock_run_id = None, l_updated_at = 0\<rparr>"

definition ex_retained :: OutboxDb where
  "ex_retained = \<lparr>outbox = map ex_old_event [1, 2, 3, 4], outbox_next_id = 5,
     outbox_listeners = [ex_listener ''a'' 3, ex_listener ''b'' 9], outbox_dead_letters = [], outbox_notifies = 0\<rparr>"

definition ex_retention :: OutboxRetentionWorkerConfig where
  "ex_retention = \<lparr>rw_listenerIds = [''a'', ''b'', ''a''], rw_intervalMs = 1, rw_retentionMs = 10, rw_batchSize = 2,
     rw_maxBatchesPerRun = 1\<rparr>"


theorem retention_drains_due_events_witness:
  "snd (outbox_retention_cleanup (ex_retention\<lparr>rw_listenerIds := [''a'', ''b'']\<rparr>) 100 ex_retained) = 2"
proof -
  let ?c = "ex_retention\<lparr>rw_listenerIds := [''a'', ''b'']\<rparr>"
  have h: "mkOutboxRetentionWorker ex_retention = Inr ?c" "outbox_wf ex_retained"
    "getRetentionWatermark ex_retained (rw_listenerIds ?c) = Some 3" "(0::int) < 3"
    "3 = sql_count (outbox_due 3 (100 - rw_retentionMs ?c)) (outbox ex_retained)"
    "nat (rw_maxBatchesPerRun ?c) * nat (rw_batchSize ?c) = 2"
    by code_simp+
  show ?thesis using retention_drains_due_events [OF h(1-5)] unfolding h(6) by simp
qed

end
