(* ===== verification/Outbox_Dispatcher.thy ===== *)
theory Outbox_Dispatcher
  imports Threa_Prelude
begin

text \<open>
  \<^verbatim>\<open>packages/backend-common/src/outbox/dispatcher.ts\<close>: the process that turns a \<open>NOTIFY\<close>, or the
  fallback poll, into a call of every registered handler.  The asynchronous parts are split at
  their awaits: \<open>doStart\<close> waits for the outcome of \<open>setupListener\<close>, and \<open>stop\<close> waits for \<open>UNLISTEN\<close>
  before it cleans up.  Timers are booleans (armed or not); \<open>ds_reconnects\<close> counts the pending
  one-second reconnect timers, and \<open>ds_notified\<close> lists the calls of \<open>handle\<close>.  The owner of the
  dispatcher does not stop it while a start is pending, nor start it while a stop is.
\<close>

record DispatcherState =
  ds_handlers :: "string list"
  ds_running :: bool
  ds_startPromise :: bool
  ds_listenClient :: bool
  ds_fallbackTimer :: bool
  ds_keepaliveTimer :: bool
  ds_reconnects :: nat
  ds_notified :: "string list"
  ds_stopping :: bool  \<comment> \<open>\<open>stop\<close> is waiting for \<open>UNLISTEN\<close>\<close>

definition dispatcher_init :: DispatcherState where
  "dispatcher_init = \<lparr>ds_handlers = [], ds_running = False, ds_startPromise = False, ds_listenClient = False,
     ds_fallbackTimer = False, ds_keepaliveTimer = False, ds_reconnects = 0, ds_notified = [], ds_stopping = False\<rparr>"

definition register :: "string \<Rightarrow> DispatcherState \<Rightarrow> string + DispatcherState" where
  "register listenerId s =
    (if ds_running s then Inl ''Cannot register handlers after dispatcher has started''
     else Inr (s\<lparr>ds_handlers := ds_handlers s @ [listenerId]\<rparr>))"

definition dispatcher_cleanup :: "DispatcherState \<Rightarrow> DispatcherState" where
  "dispatcher_cleanup s =
    s\<lparr>ds_fallbackTimer := False, ds_keepaliveTimer := False, ds_listenClient := False\<rparr>"

definition startKeepalive :: "DispatcherState \<Rightarrow> DispatcherState" where
  "startKeepalive s = s\<lparr>ds_keepaliveTimer := True\<rparr>"

definition scheduleReconnect :: "DispatcherState \<Rightarrow> DispatcherState" where
  "scheduleReconnect s = (if \<not> ds_running s then s else s\<lparr>ds_reconnects := Suc (ds_reconnects s)\<rparr>)"

datatype listen_outcome = Connect_failed | Listen_failed | Listen_ok

text \<open>\<open>setupListener\<close> swallows its error: the client, if one was obtained, stays assigned.\<close>

fun setupListener :: "listen_outcome \<Rightarrow> DispatcherState \<Rightarrow> DispatcherState" where
  "setupListener Connect_failed s = scheduleReconnect s"
| "setupListener Listen_failed s = scheduleReconnect (s\<lparr>ds_listenClient := True\<rparr>)"
| "setupListener Listen_ok s = startKeepalive (s\<lparr>ds_listenClient := True\<rparr>)"

definition reconnectListener :: "DispatcherState \<Rightarrow> DispatcherState" where
  "reconnectListener s = scheduleReconnect (s\<lparr>ds_keepaliveTimer := False, ds_listenClient := False\<rparr>)"

definition startFallbackPoll :: "DispatcherState \<Rightarrow> DispatcherState" where
  "startFallbackPoll s = s\<lparr>ds_fallbackTimer := True\<rparr>"

text \<open>A handler that throws does not keep the others from being called.\<close>

definition notifyHandlers :: "DispatcherState \<Rightarrow> DispatcherState" where
  "notifyHandlers s = s\<lparr>ds_notified := ds_notified s @ ds_handlers s\<rparr>"

definition dispatcher_start :: "DispatcherState \<Rightarrow> DispatcherState" where
  "dispatcher_start s =
    (if ds_running s then s else if ds_startPromise s then s else s\<lparr>ds_startPromise := True\<rparr>)"

text \<open>\<open>doStart\<close> from the point where the awaited \<open>setupListener\<close> has its outcome.\<close>

definition doStart :: "listen_outcome \<Rightarrow> DispatcherState \<Rightarrow> DispatcherState" where
  "doStart outcome s =
    (startFallbackPoll (setupListener outcome s))\<lparr>ds_running := True, ds_startPromise := False\<rparr>"

definition stop_begin :: "DispatcherState \<Rightarrow> DispatcherState" where
  "stop_begin s = s\<lparr>ds_running := False, ds_stopping := True\<rparr>"

definition stop_end :: "DispatcherState \<Rightarrow> DispatcherState" where
  "stop_end s = (dispatcher_cleanup s)\<lparr>ds_stopping := False\<rparr>"

text \<open>The callbacks the timers and the client run.\<close>

definition on_fallback_timer :: "DispatcherState \<Rightarrow> DispatcherState" where
  "on_fallback_timer s =
    (let s0 = s\<lparr>ds_fallbackTimer := False\<rparr>
     in if \<not> ds_running s0 then s0
        else let s1 = notifyHandlers s0 in if ds_running s1 then startFallbackPoll s1 else s1)"

definition on_reconnect_timer :: "listen_outcome \<Rightarrow> DispatcherState \<Rightarrow> DispatcherState" where
  "on_reconnect_timer outcome s =
    (let s0 = s\<lparr>ds_reconnects := ds_reconnects s - 1\<rparr>
     in if ds_running s0 then setupListener outcome s0 else s0)"

definition on_client_error :: "DispatcherState \<Rightarrow> DispatcherState" where
  "on_client_error s = (if \<not> ds_running s then s else reconnectListener s)"

inductive dispatcher_step :: "DispatcherState \<Rightarrow> DispatcherState \<Rightarrow> bool" where
  step_register: "register lid s = Inr s' \<Longrightarrow> dispatcher_step s s'"
| step_start: "\<not> ds_stopping s \<Longrightarrow> dispatcher_step s (dispatcher_start s)"
| step_doStart: "ds_startPromise s \<Longrightarrow> \<not> ds_stopping s \<Longrightarrow> dispatcher_step s (doStart outcome s)"
| step_stop: "\<not> ds_startPromise s \<Longrightarrow> dispatcher_step s (stop_begin s)"
| step_stopped: "ds_stopping s \<Longrightarrow> dispatcher_step s (stop_end s)"
| step_notification: "ds_listenClient s \<Longrightarrow> dispatcher_step s (notifyHandlers s)"
| step_fallback: "ds_fallbackTimer s \<Longrightarrow> dispatcher_step s (on_fallback_timer s)"
| step_reconnect: "0 < ds_reconnects s \<Longrightarrow> dispatcher_step s (on_reconnect_timer outcome s)"
| step_error: "ds_listenClient s \<Longrightarrow> dispatcher_step s (on_client_error s)"

inductive_cases dispatcher_stepE: "dispatcher_step s s'"

lemmas dispatcher_defs = register_def dispatcher_cleanup_def startKeepalive_def scheduleReconnect_def
  reconnectListener_def startFallbackPoll_def notifyHandlers_def dispatcher_start_def doStart_def stop_begin_def
  stop_end_def on_fallback_timer_def on_reconnect_timer_def on_client_error_def Let_def

definition dispatcher_inv :: "DispatcherState \<Rightarrow> bool" where
  "dispatcher_inv s \<longleftrightarrow> (ds_running s \<longrightarrow> ds_fallbackTimer s \<and> \<not> ds_startPromise s) \<and>
    (ds_stopping s \<longrightarrow> \<not> ds_running s \<and> \<not> ds_startPromise s)"

lemma setupListener_frame [simp]:
  "ds_running (setupListener out s) = ds_running s" "ds_fallbackTimer (setupListener out s) = ds_fallbackTimer s"
  "ds_startPromise (setupListener out s) = ds_startPromise s" "ds_stopping (setupListener out s) = ds_stopping s"
  "ds_handlers (setupListener out s) = ds_handlers s"
  by (cases out; simp add: dispatcher_defs)+

lemma dispatcher_inv_step: "dispatcher_step s s' \<Longrightarrow> dispatcher_inv s \<Longrightarrow> dispatcher_inv s'"
  by (auto elim!: dispatcher_stepE simp: dispatcher_inv_def dispatcher_defs split: if_splits)

text \<open>
  While the dispatcher runs, the fallback poll is armed, and firing it calls every handler
  registered and arms it again; so handlers are called at least once per \<open>fallbackPollMs\<close>,
  whatever happens to the \<open>LISTEN\<close> connection.
\<close>

theorem running_dispatcher_keeps_polling:
  assumes "dispatcher_step\<^sup>*\<^sup>* dispatcher_init s" and "ds_running s"
  shows "ds_fallbackTimer s \<and> ds_fallbackTimer (on_fallback_timer s) \<and>
    ds_notified (on_fallback_timer s) = ds_notified s @ ds_handlers s"
proof -
  have "dispatcher_inv s"
    using assms(1)
  proof (induction rule: rtranclp_induct)
    case base
    show ?case by (simp add: dispatcher_inv_def dispatcher_init_def)
  qed (rule dispatcher_inv_step)
  with assms(2) show ?thesis by (simp add: dispatcher_inv_def dispatcher_defs)
qed

theorem running_dispatcher_keeps_polling_witness:
  "ds_fallbackTimer (doStart Connect_failed (dispatcher_start dispatcher_init))"
proof -
  let ?s1 = "dispatcher_start dispatcher_init"
  have "dispatcher_step dispatcher_init ?s1"
    by (rule step_start) (simp add: dispatcher_init_def)
  moreover have "dispatcher_step ?s1 (doStart Connect_failed ?s1)"
    by (rule step_doStart) (simp_all add: dispatcher_init_def dispatcher_start_def)
  ultimately have "dispatcher_step\<^sup>*\<^sup>* dispatcher_init (doStart Connect_failed ?s1)" by (meson rtranclp.intros)
  from running_dispatcher_keeps_polling [OF this] show ?thesis by (simp add: doStart_def)
qed

text \<open>
  The first \<open>setupListener\<close> runs before \<open>running\<close> is set, so when it fails \<open>scheduleReconnect\<close> does
  nothing: the dispatcher starts without a client and without a pending reconnect, and as long
  as nobody stops it no step brings a client back.
\<close>

lemma failed_first_connect_is_final:
  assumes "dispatcher_step s s'" and "ds_running s" and "\<not> ds_stopping s" and "dispatcher_inv s"
    and "\<not> ds_listenClient s" and "ds_reconnects s = 0" and "ds_running s'"
  shows "\<not> ds_listenClient s' \<and> ds_reconnects s' = 0"
  using assms by (auto elim!: dispatcher_stepE simp: dispatcher_inv_def dispatcher_defs split: if_splits)

lemma failed_first_connect:
  "let s = doStart Connect_failed (dispatcher_start dispatcher_init)
   in ds_running s \<and> \<not> ds_listenClient s \<and> ds_reconnects s = 0"
  by (simp add: dispatcher_defs dispatcher_init_def)

end
