(* ===== verification/Debounce.thy ===== *)
theory Debounce
  imports Threa_Prelude
begin

text \<open>
  \<^verbatim>\<open>packages/backend-common/src/debounce.ts\<close>, class \<open>DebounceWithMaxWait\<close>.  A timer is the time it
  is due; \<open>d_calls\<close> records when the callback was called.  The event loop is a step relation:
  each step happens at a clock reading, a timer fires only when it is due, and no timer that
  is due waits longer than \<open>lag\<close>, the time one step may keep the loop busy.
\<close>

record DebounceConfig =
  dc_debounceMs :: int
  dc_maxWaitMs :: int
  dc_async :: bool  \<comment> \<open>the callback returns a promise\<close>

record DebounceState =
  d_debounceTimer :: "timestamp option"
  d_maxWaitTimer :: "timestamp option"
  d_firstTriggerTime :: "timestamp option"
  d_isExecuting :: bool
  d_pendingTrigger :: bool
  d_calls :: "timestamp list"

definition debounce_init :: DebounceState where
  "debounce_init = \<lparr>d_debounceTimer = None, d_maxWaitTimer = None, d_firstTriggerTime = None,
     d_isExecuting = False, d_pendingTrigger = False, d_calls = []\<rparr>"

definition clearMaxWaitTimer :: "DebounceState \<Rightarrow> DebounceState" where
  "clearMaxWaitTimer d = d\<lparr>d_maxWaitTimer := None, d_firstTriggerTime := None\<rparr>"

definition trigger :: "DebounceConfig \<Rightarrow> timestamp \<Rightarrow> DebounceState \<Rightarrow> DebounceState" where
  "trigger cfg now d =
    (if d_isExecuting d then d\<lparr>d_pendingTrigger := True\<rparr>
     else let isFirstInBatch = (d_firstTriggerTime d = None);
              d1 = (if isFirstInBatch then d\<lparr>d_firstTriggerTime := Some now\<rparr> else d);
              d2 = d1\<lparr>d_debounceTimer := Some (now + dc_debounceMs cfg)\<rparr>
       in if isFirstInBatch then d2\<lparr>d_maxWaitTimer := Some (now + dc_maxWaitMs cfg)\<rparr> else d2)"

definition onExecutionComplete :: "DebounceConfig \<Rightarrow> timestamp \<Rightarrow> DebounceState \<Rightarrow> DebounceState" where
  "onExecutionComplete cfg now d =
    (let d1 = d\<lparr>d_isExecuting := False\<rparr>
     in if d_pendingTrigger d1 then trigger cfg now (d1\<lparr>d_pendingTrigger := False\<rparr>) else d1)"

definition executeCallback :: "DebounceConfig \<Rightarrow> timestamp \<Rightarrow> DebounceState \<Rightarrow> DebounceState" where
  "executeCallback cfg now d =
    (if d_isExecuting d then d
     else let d1 = d\<lparr>d_isExecuting := True, d_calls := d_calls d @ [now]\<rparr>
       in if dc_async cfg then d1 else onExecutionComplete cfg now d1)"

definition fire_debounce :: "DebounceConfig \<Rightarrow> timestamp \<Rightarrow> DebounceState \<Rightarrow> DebounceState" where
  "fire_debounce cfg now d = executeCallback cfg now (clearMaxWaitTimer (d\<lparr>d_debounceTimer := None\<rparr>))"

definition fire_maxWait :: "DebounceConfig \<Rightarrow> timestamp \<Rightarrow> DebounceState \<Rightarrow> DebounceState" where
  "fire_maxWait cfg now d =
    executeCallback cfg now (clearMaxWaitTimer
      (if d_debounceTimer d \<noteq> None then d\<lparr>d_debounceTimer := None\<rparr> else d))"

definition debounce_cancel :: "DebounceState \<Rightarrow> DebounceState" where
  "debounce_cancel d =
    (clearMaxWaitTimer (if d_debounceTimer d \<noteq> None then d\<lparr>d_debounceTimer := None\<rparr> else d))
      \<lparr>d_pendingTrigger := False\<rparr>"

section \<open>The event loop\<close>

definition on_time :: "int \<Rightarrow> timestamp \<Rightarrow> timestamp \<Rightarrow> DebounceState \<Rightarrow> bool" where
  "on_time lag now now' d \<longleftrightarrow> now \<le> now' \<and>
    (\<forall>t. d_debounceTimer d = Some t \<longrightarrow> now' \<le> t + lag) \<and> (\<forall>t. d_maxWaitTimer d = Some t \<longrightarrow> now' \<le> t + lag)"

datatype debounce_label = L_trigger | L_debounce | L_maxWait | L_complete | L_cancel

inductive debounce_step ::
  "DebounceConfig \<Rightarrow> int \<Rightarrow> DebounceState \<times> timestamp \<Rightarrow> debounce_label \<Rightarrow> DebounceState \<times> timestamp \<Rightarrow> bool"
  for cfg lag where
  step_trigger: "on_time lag now now' d \<Longrightarrow>
    debounce_step cfg lag (d, now) L_trigger (trigger cfg now' d, now')"
| step_debounce: "on_time lag now now' d \<Longrightarrow> d_debounceTimer d = Some t \<Longrightarrow> t \<le> now' \<Longrightarrow>
    debounce_step cfg lag (d, now) L_debounce (fire_debounce cfg now' d, now')"
| step_maxWait: "on_time lag now now' d \<Longrightarrow> d_maxWaitTimer d = Some t \<Longrightarrow> t \<le> now' \<Longrightarrow>
    debounce_step cfg lag (d, now) L_maxWait (fire_maxWait cfg now' d, now')"
| step_complete: "on_time lag now now' d \<Longrightarrow> d_isExecuting d \<Longrightarrow>
    debounce_step cfg lag (d, now) L_complete (onExecutionComplete cfg now' d, now')"
| step_cancel: "on_time lag now now' d \<Longrightarrow>
    debounce_step cfg lag (d, now) L_cancel (debounce_cancel d, now')"

inductive_cases debounce_stepE: "debounce_step cfg lag s l s'"

inductive debounce_run ::
  "DebounceConfig \<Rightarrow> int \<Rightarrow> DebounceState \<times> timestamp \<Rightarrow> debounce_label list \<Rightarrow> DebounceState \<times> timestamp \<Rightarrow> bool"
  for cfg lag where
  run_nil: "debounce_run cfg lag s [] s"
| run_snoc: "debounce_run cfg lag s ls s' \<Longrightarrow> debounce_step cfg lag s' l s'' \<Longrightarrow> debounce_run cfg lag s (ls @ [l]) s''"

lemmas debounce_defs = trigger_def onExecutionComplete_def executeCallback_def fire_debounce_def fire_maxWait_def
  debounce_cancel_def clearMaxWaitTimer_def

text \<open>
  The invariant: the two timers and the time of the first trigger come and go together,
  nothing is armed while the callback runs, a pending trigger exists only then, and the
  max-wait timer is due exactly \<open>maxWaitMs\<close> after the first trigger of the batch.
\<close>

definition debounce_inv :: "DebounceConfig \<Rightarrow> int \<Rightarrow> DebounceState \<times> timestamp \<Rightarrow> bool" where
  "debounce_inv cfg lag s \<longleftrightarrow> (case s of (d, now) \<Rightarrow>
    (d_debounceTimer d = None \<longleftrightarrow> d_firstTriggerTime d = None) \<and>
    d_maxWaitTimer d = map_option (\<lambda>t. t + dc_maxWaitMs cfg) (d_firstTriggerTime d) \<and>
    (d_isExecuting d \<longrightarrow> d_firstTriggerTime d = None) \<and>
    (d_pendingTrigger d \<longrightarrow> d_isExecuting d) \<and>
    (\<forall>t. d_firstTriggerTime d = Some t \<longrightarrow> t \<le> now \<and> now \<le> t + dc_maxWaitMs cfg + lag) \<and>
    (\<forall>c\<in>set (d_calls d). c \<le> now))"

lemma debounce_inv_step:
  assumes "debounce_step cfg lag s l s'" and "debounce_inv cfg lag s" and "0 \<le> dc_maxWaitMs cfg" and "0 \<le> lag"
  shows "debounce_inv cfg lag s'"
  using assms(1)
proof cases
  case (step_trigger now now' d)
  with assms(2-) show ?thesis
    by (cases "d_firstTriggerTime d")
      (auto simp: debounce_inv_def trigger_def on_time_def Let_def intro: order_trans)
next
  case (step_debounce now now' d t)
  with assms(2-) show ?thesis
    by (auto simp: debounce_inv_def debounce_defs on_time_def Let_def intro: order_trans)
next
  case (step_maxWait now now' d t)
  with assms(2-) show ?thesis
    by (auto simp: debounce_inv_def debounce_defs on_time_def Let_def intro: order_trans)
next
  case (step_complete now now' d)
  with assms(2-) show ?thesis
    by (auto simp: debounce_inv_def debounce_defs on_time_def Let_def intro: order_trans)
next
  case (step_cancel now now' d)
  with assms(2-) show ?thesis
    by (auto simp: debounce_inv_def debounce_defs on_time_def Let_def intro: order_trans)
qed

lemma debounce_inv_run:
  "debounce_run cfg lag s ls s' \<Longrightarrow> debounce_inv cfg lag s \<Longrightarrow> 0 \<le> dc_maxWaitMs cfg \<Longrightarrow> 0 \<le> lag \<Longrightarrow>
    debounce_inv cfg lag s'"
  by (induction rule: debounce_run.induct) (auto intro: debounce_inv_step)

lemma debounce_inv_init: "debounce_inv cfg lag (debounce_init, now)"
  by (simp add: debounce_inv_def debounce_init_def)

text \<open>A trigger that has not been answered yet is remembered by an armed timer or as pending.\<close>

definition owed :: "DebounceState \<Rightarrow> bool" where
  "owed d \<longleftrightarrow> d_debounceTimer d \<noteq> None \<or> d_pendingTrigger d"

lemma owed_step:
  assumes "debounce_step cfg lag (d, now) l (d', now')" and "debounce_inv cfg lag (d, now)" and "l \<noteq> L_cancel"
  shows "length (d_calls d) \<le> length (d_calls d')" and "owed d \<Longrightarrow> d_calls d' = d_calls d \<Longrightarrow> owed d'"
  using assms by (auto elim!: debounce_stepE simp: owed_def debounce_inv_def debounce_defs Let_def split: if_splits)

lemma calls_grow:
  assumes "debounce_run cfg lag s ls s'"
  shows "length (d_calls (fst s)) \<le> length (d_calls (fst s'))"
  using assms
proof (induction rule: debounce_run.induct)
  case (run_snoc s ls s' l s'')
  from run_snoc(2) have "length (d_calls (fst s')) \<le> length (d_calls (fst s''))"
    by (cases rule: debounce_step.cases) (auto simp: debounce_defs Let_def)
  with run_snoc show ?case by simp
qed simp

text \<open>
  C14. Every call of the callback answers a batch: no other call is running, and the call comes
  no later than \<open>maxWaitMs\<close> (and the lag of the event loop) after the first trigger of the batch,
  however many triggers kept pushing the debounce timer.
\<close>

theorem debounce_bounded_wait:
  assumes "debounce_run cfg lag (debounce_init, start) ls (d, now)"
    and "debounce_step cfg lag (d, now) l (d', now')" and "d_calls d' \<noteq> d_calls d"
    and "0 \<le> dc_maxWaitMs cfg" and "0 \<le> lag"
  shows "\<exists>t. d_firstTriggerTime d = Some t \<and> t \<le> now' \<and> now' \<le> t + dc_maxWaitMs cfg + lag \<and>
    \<not> d_isExecuting d \<and> d_calls d' = d_calls d @ [now']"
proof -
  have "debounce_inv cfg lag (d, now)"
    by (rule debounce_inv_run [OF assms(1) debounce_inv_init assms(4,5)])
  with assms(2,3) show ?thesis
    by (auto elim!: debounce_stepE
        simp: debounce_inv_def debounce_defs on_time_def Let_def split: if_splits)
qed

text \<open>
  No trigger is lost: after a trigger, and as long as nobody cancels, either the callback has
  been called since, or a timer is armed, or the trigger is remembered until the running call
  completes.
\<close>

theorem debounce_answers_trigger:
  assumes "debounce_run cfg lag (debounce_init, start) ls s" and "debounce_step cfg lag s L_trigger s1"
    and "debounce_run cfg lag s1 ls' s2" and "L_cancel \<notin> set ls'" and "0 \<le> dc_maxWaitMs cfg" and "0 \<le> lag"
  shows "owed (fst s2) \<or> length (d_calls (fst s1)) < length (d_calls (fst s2))"
proof -
  have inv1: "debounce_inv cfg lag s1"
    using debounce_inv_step [OF assms(2) debounce_inv_run [OF assms(1) debounce_inv_init]] assms(5,6) by blast
  have owed1: "owed (fst s1)"
    using assms(2) by (cases rule: debounce_step.cases) (auto simp: owed_def trigger_def Let_def)
  from assms(3,4) inv1 owed1 show ?thesis
  proof (induction rule: debounce_run.induct)
    case (run_snoc s ls s' l s'')
    obtain d' n' d'' n'' where eq: "s' = (d', n')" "s'' = (d'', n'')" by (cases s'; cases s'')
    have inv: "debounce_inv cfg lag (d', n')"
      using debounce_inv_run [OF run_snoc.hyps(1) run_snoc.prems(2) assms(5,6)] eq by simp
    have step: "debounce_step cfg lag (d', n') l (d'', n'')" using run_snoc.hyps(2) eq by simp
    have calls: "length (d_calls d') \<le> length (d_calls d'')"
      and keep: "owed d' \<Longrightarrow> d_calls d'' = d_calls d' \<Longrightarrow> owed d''"
      using owed_step [OF step inv] run_snoc.prems(1) by auto
    have "d_calls d'' = d_calls d' \<or> length (d_calls d') < length (d_calls d'')"
      using step by (auto elim!: debounce_stepE simp: debounce_defs Let_def split: if_splits)
    moreover have "length (d_calls (fst s)) \<le> length (d_calls d')"
      using calls_grow [OF run_snoc.hyps(1)] eq by simp
    ultimately show ?case using run_snoc.IH run_snoc.prems calls keep eq by auto
  qed simp
qed

definition ex_debounce :: DebounceConfig where
  "ex_debounce = \<lparr>dc_debounceMs = 50, dc_maxWaitMs = 200, dc_async = True\<rparr>"

lemma ex_debounce_triggered:
  "debounce_step ex_debounce 5 (debounce_init, 0) L_trigger (trigger ex_debounce 10 debounce_init, 10)"
  by (rule step_trigger) (simp add: on_time_def debounce_init_def)

lemma ex_debounce_called:
  "debounce_step ex_debounce 5 (trigger ex_debounce 10 debounce_init, 10) L_debounce
    (fire_debounce ex_debounce 62 (trigger ex_debounce 10 debounce_init), 62)"
  by (rule step_debounce [where t = 60]) (simp_all add: on_time_def debounce_init_def trigger_def ex_debounce_def)

theorem debounce_bounded_wait_witness:
  "\<exists>t. d_firstTriggerTime (trigger ex_debounce 10 debounce_init) = Some t \<and> t \<le> 62 \<and> 62 \<le> t + 200 + 5"
proof -
  have run: "debounce_run ex_debounce 5 (debounce_init, 0) ([] @ [L_trigger]) (trigger ex_debounce 10 debounce_init, 10)"
    by (rule run_snoc [OF run_nil ex_debounce_triggered])
  have "d_calls (fire_debounce ex_debounce 62 (trigger ex_debounce 10 debounce_init)) \<noteq>
      d_calls (trigger ex_debounce 10 debounce_init)"
    by (simp add: debounce_defs debounce_init_def Let_def)
  from debounce_bounded_wait [OF run ex_debounce_called this] show ?thesis by (auto simp: ex_debounce_def)
qed

theorem debounce_answers_trigger_witness:
  "owed (fire_debounce ex_debounce 62 (trigger ex_debounce 10 debounce_init)) \<or>
    length (d_calls (trigger ex_debounce 10 debounce_init)) <
    length (d_calls (fire_debounce ex_debounce 62 (trigger ex_debounce 10 debounce_init)))"
proof -
  have run: "debounce_run ex_debounce 5 (trigger ex_debounce 10 debounce_init, 10) ([] @ [L_debounce])
      (fire_debounce ex_debounce 62 (trigger ex_debounce 10 debounce_init), 62)"
    by (rule run_snoc [OF run_nil ex_debounce_called])
  from debounce_answers_trigger [OF run_nil ex_debounce_triggered this] show ?thesis
    by (simp add: ex_debounce_def)
qed

end
