(* ===== verification/Ticker.thy ===== *)
theory Ticker
  imports Threa_Prelude
begin

text \<open>
  \<^verbatim>\<open>packages/backend-common/src/ticker.ts\<close>: an interval timer with a bound on the callbacks in
  flight.  A promise is a number; \<open>tk_next\<close> is the next one.
\<close>

record TickerState =
  tk_maxConcurrency :: int
  tk_timer :: bool
  tk_inFlightCount :: int
  tk_inFlightPromises :: "nat list"
  tk_next :: nat

definition ticker_init :: "int \<Rightarrow> TickerState" where
  "ticker_init maxC = \<lparr>tk_maxConcurrency = maxC, tk_timer = False, tk_inFlightCount = 0,
     tk_inFlightPromises = [], tk_next = 0\<rparr>"

text \<open>\<open>start\<close> raises when the ticker runs already.\<close>

definition ticker_start :: "TickerState \<Rightarrow> string + TickerState" where
  "ticker_start t = (if tk_timer t then Inl ''already started'' else Inr (t\<lparr>tk_timer := True\<rparr>))"

definition ticker_tick :: "TickerState \<Rightarrow> TickerState" where
  "ticker_tick t =
    (if tk_inFlightCount t \<ge> tk_maxConcurrency t then t
     else t\<lparr>tk_inFlightCount := tk_inFlightCount t + 1,
            tk_inFlightPromises := tk_inFlightPromises t @ [tk_next t], tk_next := Suc (tk_next t)\<rparr>)"

definition ticker_finally :: "nat \<Rightarrow> TickerState \<Rightarrow> TickerState" where
  "ticker_finally p t =
    t\<lparr>tk_inFlightCount := tk_inFlightCount t - 1, tk_inFlightPromises := remove1 p (tk_inFlightPromises t)\<rparr>"

definition ticker_stop :: "TickerState \<Rightarrow> TickerState" where
  "ticker_stop t = (if tk_timer t then t\<lparr>tk_timer := False\<rparr> else t)"

text \<open>\<open>drain\<close> waits for the promises in flight when it is called.\<close>

definition drain_set :: "TickerState \<Rightarrow> nat list" where
  "drain_set t = tk_inFlightPromises t"

definition ticker_isRunning :: "TickerState \<Rightarrow> bool" where
  "ticker_isRunning t = tk_timer t"

definition getInFlightCount :: "TickerState \<Rightarrow> int" where
  "getInFlightCount t = tk_inFlightCount t"

inductive ticker_step :: "TickerState \<Rightarrow> TickerState \<Rightarrow> bool" where
  "ticker_start t = Inr t' \<Longrightarrow> ticker_step t t'"
| "tk_timer t \<Longrightarrow> ticker_step t (ticker_tick t)"
| "p \<in> set (tk_inFlightPromises t) \<Longrightarrow> ticker_step t (ticker_finally p t)"
| "ticker_step t (ticker_stop t)"

inductive_cases ticker_stepE: "ticker_step t t'"

definition ticker_inv :: "TickerState \<Rightarrow> bool" where
  "ticker_inv t \<longleftrightarrow> tk_inFlightCount t = int (length (tk_inFlightPromises t)) \<and>
    distinct (tk_inFlightPromises t) \<and> (\<forall>p\<in>set (tk_inFlightPromises t). p < tk_next t) \<and>
    (0 \<le> tk_maxConcurrency t \<longrightarrow> tk_inFlightCount t \<le> tk_maxConcurrency t)"

lemma ticker_inv_finally:
  assumes "ticker_inv t" and "p \<in> set (tk_inFlightPromises t)"
  shows "ticker_inv (ticker_finally p t)"
proof -
  have "int (length (remove1 p (tk_inFlightPromises t))) = int (length (tk_inFlightPromises t)) - 1"
    using assms(2) length_pos_if_in_set [OF assms(2)] by (simp add: length_remove1 int_ops(6))
  with assms(1) show ?thesis
    by (auto simp: ticker_inv_def ticker_finally_def dest: notin_set_remove1)
qed

lemma ticker_inv_step: "ticker_step t t' \<Longrightarrow> ticker_inv t \<Longrightarrow> ticker_inv t'"
  by (auto elim!: ticker_stepE intro!: ticker_inv_finally)
    (auto simp: ticker_inv_def ticker_start_def ticker_tick_def ticker_stop_def less_SucI split: if_splits)

text \<open>
  The ticker never has more than \<open>maxConcurrency\<close> callbacks in flight, and its counter is the
  number of promises it would wait for, through any sequence of starts, ticks, completions and
  stops.
\<close>

theorem ticker_concurrency_bound:
  assumes "ticker_step\<^sup>*\<^sup>* (ticker_init maxC) t" and "0 \<le> maxC"
  shows "getInFlightCount t \<le> maxC \<and> getInFlightCount t = int (length (drain_set t))"
proof -
  have "ticker_inv t \<and> tk_maxConcurrency t = maxC"
    using assms(1)
  proof (induction rule: rtranclp_induct)
    case base
    with assms(2) show ?case by (simp add: ticker_inv_def ticker_init_def)
  next
    case (step t t')
    moreover have "tk_maxConcurrency t' = tk_maxConcurrency t"
      using step(2) by (auto elim!: ticker_stepE simp: ticker_start_def ticker_tick_def ticker_finally_def
          ticker_stop_def split: if_splits)
    ultimately show ?case using ticker_inv_step by simp
  qed
  with assms(2) show ?thesis by (auto simp: ticker_inv_def getInFlightCount_def drain_set_def)
qed

theorem ticker_concurrency_bound_witness:
  "getInFlightCount (ticker_tick (ticker_tick ((ticker_init 1)\<lparr>tk_timer := True\<rparr>))) \<le> 1"
proof -
  let ?t = "(ticker_init 1)\<lparr>tk_timer := True\<rparr>"
  have "ticker_step (ticker_init 1) ?t"
    by (rule ticker_step.intros) (simp add: ticker_start_def ticker_init_def)
  moreover have "ticker_step ?t (ticker_tick ?t)" "ticker_step (ticker_tick ?t) (ticker_tick (ticker_tick ?t))"
    by (rule ticker_step.intros(2), simp add: ticker_tick_def)+
  ultimately have "ticker_step\<^sup>*\<^sup>* (ticker_init 1) (ticker_tick (ticker_tick ?t))" by (meson rtranclp.intros)
  from ticker_concurrency_bound [OF this] show ?thesis by simp
qed

text \<open>
  Stopping and draining: once the timer is off, completions only shrink the set in flight, so
  when every promise \<open>drain\<close> waits for has completed, nothing is in flight.
\<close>

lemma drain_empties:
  "tk_inFlightPromises (fold ticker_finally (drain_set t) t) = []"
proof -
  have "tk_inFlightPromises (fold ticker_finally ps t) = fold remove1 ps (tk_inFlightPromises t)" for ps and t
    by (induction ps arbitrary: t) (simp_all add: ticker_finally_def)
  moreover have "fold remove1 ps ps = []" for ps :: "nat list"
    by (induction ps) auto
  ultimately show ?thesis by (simp add: drain_set_def)
qed

end
