(* ===== verification/Queue_Repository.thy ===== *)
theory Queue_Repository
  imports Json Timed_Lease Batched_Drain "HOL-Library.Product_Lexorder"
begin

text \<open>
  \<^verbatim>\<open>apps/backend/src/lib/queue/repository.ts\<close>: the table \<open>queue_messages\<close> and the statements of
  \<open>QueueRepository\<close>.  A row and the \<open>QueueMessage\<close> it is mapped to hold the same values.  A
  statement that throws when it touches no row returns \<open>Inl\<close>.  Rows that another transaction
  has locked, which \<open>FOR UPDATE SKIP LOCKED\<close> passes over, are the parameter \<open>locked\<close>.
\<close>

record QueueMessage =
  qm_id :: string
  qm_queueName :: string
  qm_workspaceId :: string
  qm_payload :: json
  qm_processAfter :: "timestamp option"
  qm_insertedAt :: timestamp
  qm_claimedAt :: "timestamp option"
  qm_claimedBy :: "string option"
  qm_claimedUntil :: "timestamp option"
  qm_claimedCount :: int
  qm_failedCount :: int
  qm_lastError :: "string option"
  qm_dlqAt :: "timestamp option"
  qm_completedAt :: "timestamp option"
  qm_cancelledAt :: "timestamp option"

type_synonym queue_table = "QueueMessage table"

datatype queue_error =
    Duplicate_key string
  | Not_found_or_wrong_claim string

record InsertQueueMessageParams =
  ip_id :: string
  ip_queueName :: string
  ip_workspaceId :: string
  ip_payload :: json
  ip_processAfter :: timestamp
  ip_insertedAt :: timestamp

record ClaimParams =
  cp_queueName :: string
  cp_workspaceId :: string
  cp_claimedBy :: string
  cp_claimedAt :: timestamp
  cp_claimedUntil :: timestamp
  cp_now :: timestamp
  cp_limit :: int

record QueueClaim =
  qc_messageId :: string
  qc_claimedBy :: string
  qc_claimedCount :: int

record QueueDepthRow =
  qd_queueName :: string
  qd_pending :: nat
  qd_oldestPendingAt :: "timestamp option"
  qd_dlq :: nat

datatype QueueRetentionCategory = Cat_completed | Cat_cancelled | Cat_dlq

fun retention_column :: "QueueRetentionCategory \<Rightarrow> QueueMessage \<Rightarrow> timestamp option" where
  "retention_column Cat_completed m = qm_completedAt m"
| "retention_column Cat_cancelled m = qm_cancelledAt m"
| "retention_column Cat_dlq m = qm_dlqAt m"

section \<open>Inserting\<close>

definition new_message :: "InsertQueueMessageParams \<Rightarrow> QueueMessage" where
  "new_message p =
    \<lparr>qm_id = ip_id p, qm_queueName = ip_queueName p, qm_workspaceId = ip_workspaceId p,
     qm_payload = ip_payload p, qm_processAfter = Some (ip_processAfter p), qm_insertedAt = ip_insertedAt p,
     qm_claimedAt = None, qm_claimedBy = None, qm_claimedUntil = None, qm_claimedCount = 0,
     qm_failedCount = 0, qm_lastError = None, qm_dlqAt = None, qm_completedAt = None, qm_cancelledAt = None\<rparr>"

definition queue_insert ::
  "queue_table \<Rightarrow> InsertQueueMessageParams \<Rightarrow> queue_error + (queue_table \<times> QueueMessage)" where
  "queue_insert q p =
    (if ip_id p \<in> set (map qm_id q) then Inl (Duplicate_key (ip_id p))
     else Inr (q @ [new_message p], new_message p))"

text \<open>\<open>ON CONFLICT (id) DO NOTHING\<close>: only the rows inserted come back.\<close>

fun batchInsert ::
  "queue_table \<Rightarrow> InsertQueueMessageParams list \<Rightarrow> queue_table \<times> QueueMessage list" where
  "batchInsert q [] = (q, [])"
| "batchInsert q (p # ps) =
    (if ip_id p \<in> set (map qm_id q) then batchInsert q ps
     else let (q', rows) = batchInsert (q @ [new_message p]) ps in (q', new_message p # rows))"

section \<open>Claiming\<close>

definition terminal :: "QueueMessage \<Rightarrow> bool" where
  "terminal m \<longleftrightarrow> qm_completedAt m \<noteq> None \<or> qm_cancelledAt m \<noteq> None \<or> qm_dlqAt m \<noteq> None"

definition claimable_now :: "timestamp \<Rightarrow> QueueMessage \<Rightarrow> bool" where
  "claimable_now now m \<longleftrightarrow> sql_le (qm_processAfter m) now \<and>
    (qm_claimedUntil m = None \<or> sql_lt (qm_claimedUntil m) now)"

definition claim_message :: "string \<Rightarrow> timestamp \<Rightarrow> timestamp \<Rightarrow> QueueMessage \<Rightarrow> QueueMessage" where
  "claim_message w claimedAt until m =
    m\<lparr>qm_claimedAt := Some claimedAt, qm_claimedBy := Some w, qm_claimedUntil := Some until,
      qm_claimedCount := qm_claimedCount m + 1\<rparr>"

definition selected_for_claim :: "(string \<Rightarrow> bool) \<Rightarrow> ClaimParams \<Rightarrow> queue_table \<Rightarrow> string list" where
  "selected_for_claim locked p q =
    map qm_id (order_limit (\<lambda>m. the (qm_processAfter m)) (cp_limit p)
      (filter (\<lambda>m. qm_queueName m = cp_queueName p \<and> qm_workspaceId m = cp_workspaceId p \<and>
                   claimable_now (cp_now p) m \<and> \<not> terminal m \<and> \<not> locked (qm_id m)) q))"

definition batchClaimMessages ::
  "(string \<Rightarrow> bool) \<Rightarrow> ClaimParams \<Rightarrow> queue_table \<Rightarrow> queue_table \<times> QueueMessage list" where
  "batchClaimMessages locked p q =
    (let ids = selected_for_claim locked p q;
         hit = (\<lambda>m. qm_id m \<in> set ids \<and> qm_workspaceId m = cp_workspaceId p);
         claim = claim_message (cp_claimedBy p) (cp_claimedAt p) (cp_claimedUntil p)
     in (sql_update hit claim q,
         sort_key (\<lambda>m. case qm_processAfter m of None \<Rightarrow> (1::int, 0) | Some t \<Rightarrow> (0, t)) (map claim (filter hit q))))"

definition renew_message :: "string \<Rightarrow> timestamp \<Rightarrow> QueueMessage \<Rightarrow> QueueMessage" where
  "renew_message w until m =
    (if qm_claimedBy m = Some w \<and> \<not> terminal m
     then m\<lparr>qm_claimedUntil := sql_greatest (qm_claimedUntil m) (Some until)\<rparr> else m)"

definition batchRenewClaims :: "string list \<Rightarrow> string \<Rightarrow> timestamp \<Rightarrow> queue_table \<Rightarrow> queue_table \<times> nat" where
  "batchRenewClaims messageIds claimedBy claimedUntil q =
    (let hit = (\<lambda>m. qm_id m \<in> set messageIds \<and> qm_claimedBy m = Some claimedBy \<and> \<not> terminal m)
     in (sql_update hit (\<lambda>m. m\<lparr>qm_claimedUntil := sql_greatest (qm_claimedUntil m) (Some claimedUntil)\<rparr>) q,
         sql_count hit q))"

definition lockClaim :: "QueueClaim \<Rightarrow> queue_table \<Rightarrow> timestamp option" where
  "lockClaim claim q =
    (case find (\<lambda>m. qm_id m = qc_messageId claim \<and> qm_claimedBy m = Some (qc_claimedBy claim) \<and>
                    qm_claimedCount m = qc_claimedCount claim \<and> \<not> terminal m) q of
       None \<Rightarrow> None
     | Some m \<Rightarrow> qm_claimedUntil m)"

section \<open>Finishing a claim\<close>

text \<open>An \<open>UPDATE .. WHERE id = .. AND claimed_by = .. AND guard\<close> that throws when no row matched.\<close>

definition update_claimed ::
  "string \<Rightarrow> string \<Rightarrow> (QueueMessage \<Rightarrow> bool) \<Rightarrow> (QueueMessage \<Rightarrow> QueueMessage) \<Rightarrow> queue_table
    \<Rightarrow> queue_error + queue_table" where
  "update_claimed messageId claimedBy guard f q =
    (let hit = (\<lambda>m. qm_id m = messageId \<and> qm_claimedBy m = Some claimedBy \<and> guard m)
     in if sql_count hit q = 0 then Inl (Not_found_or_wrong_claim messageId) else Inr (sql_update hit f q))"

definition queue_complete :: "string \<Rightarrow> string \<Rightarrow> timestamp \<Rightarrow> queue_table \<Rightarrow> queue_error + queue_table" where
  "queue_complete messageId claimedBy completedAt =
    update_claimed messageId claimedBy (\<lambda>m. qm_completedAt m = None)
      (\<lambda>m. m\<lparr>qm_completedAt := Some completedAt, qm_processAfter := None, qm_claimedBy := None,
             qm_claimedUntil := None\<rparr>)"

definition queue_fail ::
  "string \<Rightarrow> string \<Rightarrow> string \<Rightarrow> timestamp \<Rightarrow> queue_table \<Rightarrow> queue_error + queue_table" where
  "queue_fail messageId claimedBy err processAfter =
    update_claimed messageId claimedBy (\<lambda>m. qm_completedAt m = None \<and> qm_dlqAt m = None)
      (\<lambda>m. m\<lparr>qm_failedCount := qm_failedCount m + 1, qm_lastError := Some err,
             qm_processAfter := Some processAfter, qm_claimedBy := None, qm_claimedUntil := None\<rparr>)"

definition queue_defer ::
  "string \<Rightarrow> string \<Rightarrow> string \<Rightarrow> timestamp \<Rightarrow> queue_table \<Rightarrow> queue_error + queue_table" where
  "queue_defer messageId claimedBy reason processAfter =
    update_claimed messageId claimedBy (\<lambda>m. qm_completedAt m = None \<and> qm_dlqAt m = None)
      (\<lambda>m. m\<lparr>qm_lastError := Some reason, qm_processAfter := Some processAfter,
             qm_claimedBy := None, qm_claimedUntil := None\<rparr>)"

definition queue_failDlq ::
  "string \<Rightarrow> string \<Rightarrow> string \<Rightarrow> timestamp \<Rightarrow> queue_table \<Rightarrow> queue_error + queue_table" where
  "queue_failDlq messageId claimedBy err dlqAt =
    update_claimed messageId claimedBy (\<lambda>m. qm_completedAt m = None \<and> qm_dlqAt m = None)
      (\<lambda>m. m\<lparr>qm_dlqAt := Some dlqAt, qm_lastError := Some err, qm_processAfter := None,
             qm_claimedBy := None, qm_claimedUntil := None\<rparr>)"

definition cancelById :: "string \<Rightarrow> timestamp \<Rightarrow> queue_table \<Rightarrow> queue_table \<times> bool" where
  "cancelById messageId dbNow q =
    (let hit = (\<lambda>m. qm_id m = messageId \<and> qm_completedAt m = None \<and> qm_cancelledAt m = None \<and>
                    qm_claimedBy m = None)
     in (sql_update hit (\<lambda>m. m\<lparr>qm_cancelledAt := Some dbNow, qm_processAfter := None\<rparr>) q,
         sql_count hit q > 0))"

section \<open>Retention and depth\<close>

definition queue_due :: "QueueRetentionCategory \<Rightarrow> timestamp \<Rightarrow> QueueMessage \<Rightarrow> bool" where
  "queue_due cat cutoff m \<longleftrightarrow> retention_column cat m \<noteq> None \<and> sql_lt (retention_column cat m) cutoff"

definition deleteExpiredMessagesBatch ::
  "QueueRetentionCategory \<Rightarrow> timestamp \<Rightarrow> int \<Rightarrow> queue_table \<Rightarrow> queue_table \<times> nat" where
  "deleteExpiredMessagesBatch cat cutoff limit q =
    (if limit \<le> 0 then (q, 0)
     else let candidates = map qm_id (order_limit (\<lambda>m. the (retention_column cat m)) limit
                (filter (queue_due cat cutoff) q));
              hit = (\<lambda>m. qm_id m \<in> set candidates \<and> queue_due cat cutoff m)
       in (sql_delete hit q, sql_count hit q))"

definition depthByQueue :: "timestamp \<Rightarrow> queue_table \<Rightarrow> QueueDepthRow list" where
  "depthByQueue now q =
    (let active = filter (\<lambda>m. \<not> terminal m) q;
         dlq = filter (\<lambda>m. qm_dlqAt m \<noteq> None) q;
         in_queue = (\<lambda>n m. qm_queueName m = n);
         activeRow = (\<lambda>n.
           let pending = filter (\<lambda>m. in_queue n m \<and> claimable_now now m) active
           in \<lparr>qd_queueName = n, qd_pending = length pending,
              qd_oldestPendingAt = (if pending = [] then None
                 else Some (Min (set (map (\<lambda>m. the (qm_processAfter m)) pending)))),
              qd_dlq = sql_count (in_queue n) dlq\<rparr>);
         dlqRow = (\<lambda>n. \<lparr>qd_queueName = n, qd_pending = 0, qd_oldestPendingAt = None,
                        qd_dlq = sql_count (in_queue n) dlq\<rparr>);
         activeNames = js_dedup (map qm_queueName active)
     in map activeRow activeNames @
        map dlqRow (filter (\<lambda>n. n \<notin> set activeNames) (js_dedup (map qm_queueName dlq))))"

definition getById :: "string \<Rightarrow> queue_table \<Rightarrow> QueueMessage option" where
  "getById i q = find (\<lambda>m. qm_id m = i) q"

section \<open>The row invariant\<close>

text \<open>
  A terminal message is neither scheduled nor claimed, every other one is scheduled; a claim
  has a holder exactly when it has an expiry; a completed message is not cancelled and not in
  the dead-letter queue; failures never outnumber claims, and an open claim is one that has
  not failed.
\<close>

definition message_wf :: "QueueMessage \<Rightarrow> bool" where
  "message_wf m \<longleftrightarrow>
    (terminal m \<longleftrightarrow> qm_processAfter m = None) \<and> (terminal m \<longrightarrow> qm_claimedBy m = None) \<and>
    (qm_claimedBy m = None \<longleftrightarrow> qm_claimedUntil m = None) \<and>
    (qm_completedAt m \<noteq> None \<longrightarrow> qm_cancelledAt m = None \<and> qm_dlqAt m = None) \<and>
    0 \<le> qm_failedCount m \<and> qm_failedCount m \<le> qm_claimedCount m \<and>
    (qm_claimedBy m \<noteq> None \<longrightarrow> qm_failedCount m < qm_claimedCount m)"

definition queue_inv :: "queue_table \<Rightarrow> bool" where
  "queue_inv q \<longleftrightarrow> distinct (map qm_id q) \<and> (\<forall>m\<in>set q. message_wf m)"

text \<open>Every statement of the repository, with its arguments.\<close>

datatype queue_stmt =
    Q_insert InsertQueueMessageParams
  | Q_batchInsert "InsertQueueMessageParams list"
  | Q_claim "string \<Rightarrow> bool" ClaimParams
  | Q_renew "string list" string timestamp
  | Q_complete string string timestamp
  | Q_fail string string string timestamp
  | Q_defer string string string timestamp
  | Q_failDlq string string string timestamp
  | Q_cancel string timestamp
  | Q_expire QueueRetentionCategory timestamp int

abbreviation or_unchanged :: "'a \<Rightarrow> 'e + 'a \<Rightarrow> 'a" where
  "or_unchanged q r \<equiv> (case r of Inl _ \<Rightarrow> q | Inr q' \<Rightarrow> q')"

fun queue_exec :: "queue_stmt \<Rightarrow> queue_table \<Rightarrow> queue_table" where
  "queue_exec (Q_insert p) q = (case queue_insert q p of Inl _ \<Rightarrow> q | Inr (q', _) \<Rightarrow> q')"
| "queue_exec (Q_batchInsert ps) q = fst (batchInsert q ps)"
| "queue_exec (Q_claim locked p) q = fst (batchClaimMessages locked p q)"
| "queue_exec (Q_renew ids w u) q = fst (batchRenewClaims ids w u q)"
| "queue_exec (Q_complete i w t) q = or_unchanged q (queue_complete i w t q)"
| "queue_exec (Q_fail i w e t) q = or_unchanged q (queue_fail i w e t q)"
| "queue_exec (Q_defer i w r t) q = or_unchanged q (queue_defer i w r t q)"
| "queue_exec (Q_failDlq i w e t) q = or_unchanged q (queue_failDlq i w e t q)"
| "queue_exec (Q_cancel i t) q = fst (cancelById i t q)"
| "queue_exec (Q_expire cat t n) q = fst (deleteExpiredMessagesBatch cat t n q)"

lemma update_claimed_eq:
  "or_unchanged q (update_claimed i w g f q) = sql_update (\<lambda>m. qm_id m = i \<and> qm_claimedBy m = Some w \<and> g m) f q"
  by (auto simp: update_claimed_def Let_def sql_update_count_0)

lemma queue_inv_update:
  assumes "queue_inv q" and "\<And>m. qm_id (f m) = qm_id m" and "\<And>m. m \<in> set q \<Longrightarrow> message_wf m \<Longrightarrow> p m \<Longrightarrow> message_wf (f m)"
  shows "queue_inv (sql_update p f q)"
  using assms by (auto simp: queue_inv_def sql_update_key set_sql_update)

lemma new_message_wf: "message_wf (new_message p)"
  by (simp add: message_wf_def new_message_def terminal_def)

lemma new_message_id [simp]: "qm_id (new_message p) = ip_id p"
  by (simp add: new_message_def)

lemma queue_inv_append: "queue_inv q \<Longrightarrow> ip_id p \<notin> set (map qm_id q) \<Longrightarrow> queue_inv (q @ [new_message p])"
  by (auto simp: queue_inv_def new_message_wf)

lemma batchInsert_inv: "queue_inv q \<Longrightarrow> queue_inv (fst (batchInsert q ps))"
proof (induction q ps rule: batchInsert.induct)
  case (2 q p ps)
  then show ?case
    by (cases "ip_id p \<in> set (map qm_id q)") (simp_all add: Let_def case_prod_beta queue_inv_append)
qed simp

lemma unique_message:
  "distinct (map qm_id q) \<Longrightarrow> m \<in> set q \<Longrightarrow> m' \<in> set q \<Longrightarrow> qm_id m = qm_id m' \<Longrightarrow> m = m'"
  by (auto simp: distinct_map inj_on_def)

lemma selected_claimable:
  assumes "distinct (map qm_id q)" and "qm_id m \<in> set (selected_for_claim locked p q)" and "m \<in> set q"
  shows "claimable_now (cp_now p) m \<and> \<not> terminal m \<and> \<not> locked (qm_id m) \<and>
    qm_queueName m = cp_queueName p \<and> qm_workspaceId m = cp_workspaceId p"
proof -
  from assms(2) obtain m' where m': "qm_id m' = qm_id m"
      "m' \<in> set (order_limit (\<lambda>m. the (qm_processAfter m)) (cp_limit p)
        (filter (\<lambda>m. qm_queueName m = cp_queueName p \<and> qm_workspaceId m = cp_workspaceId p \<and>
          claimable_now (cp_now p) m \<and> \<not> terminal m \<and> \<not> locked (qm_id m)) q))"
    unfolding selected_for_claim_def by (metis (no_types, lifting) image_iff set_map)
  from set_order_limitD [OF m'(2)] unique_message [OF assms(1,3), of m'] m'(1) show ?thesis by simp
qed

lemma claim_message_wf:
  "message_wf m \<Longrightarrow> \<not> terminal m \<Longrightarrow> message_wf (claim_message w t u m)"
  by (auto simp: message_wf_def claim_message_def terminal_def)

lemma sql_greatest_Some [simp]: "sql_greatest x (Some y) \<noteq> None"
  by (cases x) auto

lemma deleteExpired_subset: "set (fst (deleteExpiredMessagesBatch cat t n q)) \<subseteq> set q"
  by (auto simp: deleteExpiredMessagesBatch_def Let_def)

lemma deleteExpired_distinct:
  "distinct (map qm_id q) \<Longrightarrow> distinct (map qm_id (fst (deleteExpiredMessagesBatch cat t n q)))"
  by (simp add: deleteExpiredMessagesBatch_def Let_def sql_delete_def distinct_key_filter)

lemma queue_exec_inv [step_inv]:
  assumes "queue_inv q"
  shows "queue_inv (queue_exec stmt q)"
proof (cases stmt)
  case (Q_insert p)
  with assms show ?thesis by (simp add: queue_insert_def queue_inv_append)
next
  case (Q_batchInsert ps)
  with assms show ?thesis by (simp add: batchInsert_inv)
next
  case (Q_claim locked p)
  have "queue_inv (sql_update (\<lambda>m. qm_id m \<in> set (selected_for_claim locked p q) \<and> qm_workspaceId m = cp_workspaceId p)
      (claim_message (cp_claimedBy p) (cp_claimedAt p) (cp_claimedUntil p)) q)"
    using assms selected_claimable [of q _ locked p]
    by (intro queue_inv_update claim_message_wf) (auto simp: claim_message_def queue_inv_def)
  with Q_claim show ?thesis by (simp add: batchClaimMessages_def Let_def)
next
  case (Q_renew ids w u)
  with assms show ?thesis
    by (simp add: batchRenewClaims_def Let_def)
      (intro queue_inv_update, auto simp: message_wf_def terminal_def)
next
  case (Q_complete i w t)
  with assms show ?thesis
    by (simp add: queue_complete_def update_claimed_eq)
      (intro queue_inv_update, auto simp: message_wf_def terminal_def)
next
  case (Q_fail i w e t)
  with assms show ?thesis
    by (simp add: queue_fail_def update_claimed_eq)
      (intro queue_inv_update, auto simp: message_wf_def terminal_def)
next
  case (Q_defer i w r t)
  with assms show ?thesis
    by (simp add: queue_defer_def update_claimed_eq)
      (intro queue_inv_update, auto simp: message_wf_def terminal_def)
next
  case (Q_failDlq i w e t)
  with assms show ?thesis
    by (simp add: queue_failDlq_def update_claimed_eq)
      (intro queue_inv_update, auto simp: message_wf_def terminal_def)
next
  case (Q_cancel i t)
  with assms show ?thesis
    by (simp add: cancelById_def Let_def)
      (intro queue_inv_update, auto simp: message_wf_def terminal_def)
next
  case (Q_expire cat t n)
  with assms show ?thesis
    using deleteExpired_subset [of cat t n q] deleteExpired_distinct [of q cat t n]
    by (auto simp: queue_inv_def)
qed

definition ex_insert :: "string \<Rightarrow> timestamp \<Rightarrow> InsertQueueMessageParams" where
  "ex_insert i t = \<lparr>ip_id = i, ip_queueName = ''embedding.generate'', ip_workspaceId = ''ws_1'', ip_payload = JObj [],
     ip_processAfter = t, ip_insertedAt = t\<rparr>"

definition ex_claim :: "string \<Rightarrow> timestamp \<Rightarrow> int \<Rightarrow> ClaimParams" where
  "ex_claim w now n = \<lparr>cp_queueName = ''embedding.generate'', cp_workspaceId = ''ws_1'', cp_claimedBy = w, cp_claimedAt = now,
     cp_claimedUntil = now + 1000, cp_now = now, cp_limit = n\<rparr>"

definition ex_queue :: queue_table where
  "ex_queue = map new_message [ex_insert ''q1'' 30, ex_insert ''q2'' 10, ex_insert ''q3'' 20]"

text \<open>
  C9. Whatever statements of the queue repository run in whatever order, the table stays well
  formed: unique ids, terminal messages unscheduled and unclaimed, open ones scheduled, holder
  and expiry together, completed messages in no other terminal state, no more failures than
  claims.
\<close>

theorem queue_always_well_formed: "queue_inv (fold queue_exec stmts [])"
proof -
  have "queue_inv q \<Longrightarrow> queue_inv (fold queue_exec stmts q)" for q
    by (induction stmts arbitrary: q) (simp_all add: queue_exec_inv)
  moreover have "queue_inv []" by (simp add: queue_inv_def)
  ultimately show ?thesis by blast
qed

section \<open>A claim as a timed lease\<close>

definition claim_msg :: "string \<Rightarrow> timestamp \<Rightarrow> timestamp \<Rightarrow> QueueMessage \<Rightarrow> QueueMessage option" where
  "claim_msg w t u m = (if claimable_now t m \<and> \<not> terminal m then Some (claim_message w t u m) else None)"

definition defer_msg :: "string \<Rightarrow> timestamp \<Rightarrow> string \<Rightarrow> QueueMessage \<Rightarrow> QueueMessage" where
  "defer_msg reason processAfter w m =
    (if qm_claimedBy m = Some w \<and> qm_completedAt m = None \<and> qm_dlqAt m = None
     then m\<lparr>qm_lastError := Some reason, qm_processAfter := Some processAfter, qm_claimedBy := None,
            qm_claimedUntil := None\<rparr> else m)"

interpretation message_lease:
  timed_lease claim_msg qm_claimedBy qm_claimedUntil 0 message_wf renew_message "defer_msg reason processAfter"
  for reason processAfter
proof unfold_locales
  fix m m' :: QueueMessage and w t u e
  assume "message_wf m" "claim_msg w t u m = Some m'" "qm_claimedUntil m = Some e"
  then show "e < t + 0" by (auto simp: claim_msg_def claimable_now_def split: if_splits)
next
  fix m m' :: QueueMessage and w t u
  assume "message_wf m" "claim_msg w t u m = Some m'"
  then show "message_wf m' \<and> qm_claimedBy m' = Some w \<and> qm_claimedUntil m' = Some u"
    by (auto simp: claim_msg_def claim_message_wf split: if_splits) (auto simp: claim_message_def)
next
  fix m :: QueueMessage and w u e
  assume "message_wf m" "qm_claimedBy m = Some w" "qm_claimedUntil m = Some e"
  then show "message_wf (renew_message w u m) \<and> qm_claimedBy (renew_message w u m) = Some w \<and>
      (\<exists>e'. qm_claimedUntil (renew_message w u m) = Some e' \<and> u \<le> e')"
    by (auto simp: renew_message_def message_wf_def terminal_def)
next
  fix m :: QueueMessage and w
  assume "message_wf m" "qm_claimedBy m = Some w"
  then show "message_wf (defer_msg reason processAfter w m) \<and> qm_claimedBy (defer_msg reason processAfter w m) \<noteq> Some w"
    by (auto simp: defer_msg_def message_wf_def terminal_def)
qed (auto simp: renew_message_def defer_msg_def)

text \<open>The schedules under which a claim good until \<open>e\<close> is kept: no finishing statement of the holder, and
  every claim reads a clock that has not passed the expiry promised last.\<close>

fun claim_kept :: "string \<Rightarrow> string \<Rightarrow> timestamp \<Rightarrow> queue_stmt list \<Rightarrow> bool" where
  "claim_kept i w e [] = True"
| "claim_kept i w e (Q_claim locked p # ss) = (cp_now p \<le> e \<and> claim_kept i w e ss)"
| "claim_kept i w e (Q_renew ids w' u # ss) = claim_kept i w (if w' = w \<and> i \<in> set ids then max e u else e) ss"
| "claim_kept i w e (Q_complete j w' t # ss) = ((j, w') \<noteq> (i, w) \<and> claim_kept i w e ss)"
| "claim_kept i w e (Q_fail j w' r t # ss) = ((j, w') \<noteq> (i, w) \<and> claim_kept i w e ss)"
| "claim_kept i w e (Q_defer j w' r t # ss) = ((j, w') \<noteq> (i, w) \<and> claim_kept i w e ss)"
| "claim_kept i w e (Q_failDlq j w' r t # ss) = ((j, w') \<noteq> (i, w) \<and> claim_kept i w e ss)"
| "claim_kept i w e (_ # ss) = claim_kept i w e ss"

text \<open>A row that no part of an update touches stays; one that it touches is the updated one.\<close>

lemma in_update_other: "m \<in> set q \<Longrightarrow> \<not> p m \<Longrightarrow> m \<in> set (sql_update p f q)"
  by (force simp: set_sql_update)

lemma in_update: "m \<in> set q \<Longrightarrow> p m \<Longrightarrow> f m \<in> set (sql_update p f q)"
  by (force simp: set_sql_update)

definition held :: "queue_table \<Rightarrow> string \<Rightarrow> string \<Rightarrow> int \<Rightarrow> timestamp \<Rightarrow> bool" where
  "held q i w n e \<longleftrightarrow> (\<exists>m\<in>set q. qm_id m = i \<and> qm_claimedBy m = Some w \<and> qm_claimedCount m = n \<and>
    (\<exists>u. qm_claimedUntil m = Some u \<and> e \<le> u))"

lemma batchInsert_keeps: "m \<in> set q \<Longrightarrow> m \<in> set (fst (batchInsert q ps))"
  by (induction q ps rule: batchInsert.induct) (auto simp: Let_def case_prod_beta)

lemma stays:
  assumes "m \<in> set q" and "qm_claimedBy m = Some w" and "\<not> terminal m"
    and "claim_kept (qm_id m) w e (s # ss)" and "\<And>l p. s \<noteq> Q_claim l p" and "\<And>ids w' u. s \<noteq> Q_renew ids w' u"
  shows "m \<in> set (queue_exec s q) \<and> claim_kept (qm_id m) w e ss"
proof (cases s)
  case (Q_expire cat t k)
  have "\<not> queue_due cat t m" using assms(3) by (cases cat) (auto simp: queue_due_def terminal_def)
  with Q_expire assms show ?thesis by (auto simp: deleteExpiredMessagesBatch_def Let_def)
qed (use assms in \<open>auto intro!: in_update_other batchInsert_keeps
      simp: queue_insert_def queue_complete_def queue_fail_def queue_defer_def queue_failDlq_def update_claimed_eq
        cancelById_def Let_def split: sum.split\<close>)

lemma held_step:
  assumes "queue_inv q" and "held q i w n e" and "claim_kept i w e (s # ss)"
  shows "\<exists>e'. held (queue_exec s q) i w n e' \<and> claim_kept i w e' ss"
proof -
  from assms(2) obtain m u where m: "m \<in> set q" "qm_id m = i" "qm_claimedBy m = Some w" "qm_claimedCount m = n"
      "qm_claimedUntil m = Some u" "e \<le> u" by (auto simp: held_def)
  have wf: "message_wf m" and dist: "distinct (map qm_id q)" using assms(1) m(1) by (auto simp: queue_inv_def)
  then have live: "\<not> terminal m" using m(3) by (auto simp: message_wf_def)
  have same: "held q' i w n e" if "m \<in> set q'" for q' using m that by (auto simp: held_def)
  show ?thesis
  proof (cases s)
    case (Q_claim locked p)
    have "claim_msg (cp_claimedBy p) (cp_now p) (cp_claimedUntil p) m = None"
      using assms(3) Q_claim m(6) by (intro message_lease.claim_blocked [OF wf m(5)]) simp
    then have "\<not> (qm_id m \<in> set (selected_for_claim locked p q) \<and> qm_workspaceId m = cp_workspaceId p)"
      using selected_claimable [OF dist _ m(1), of locked p] by (auto simp: claim_msg_def)
    from in_update_other [OF m(1), of "\<lambda>m. qm_id m \<in> set (selected_for_claim locked p q) \<and>
        qm_workspaceId m = cp_workspaceId p", OF this] same assms(3) Q_claim
    show ?thesis by (intro exI [of _ e]) (simp add: batchClaimMessages_def Let_def)
  next
    case (Q_renew ids w' u')
    let ?hit = "\<lambda>m. qm_id m \<in> set ids \<and> qm_claimedBy m = Some w' \<and> \<not> terminal m"
    let ?f = "\<lambda>m. m\<lparr>qm_claimedUntil := sql_greatest (qm_claimedUntil m) (Some u')\<rparr>"
    show ?thesis
    proof (cases "?hit m")
      case True
      have "held (sql_update ?hit ?f q) i w n (max e u')"
        unfolding held_def using in_update [of m q ?hit ?f, OF m(1) True] m by (intro bexI [of _ "?f m"]) auto
      then show ?thesis using assms(3) Q_renew True m
        by (intro exI [of _ "max e u'"]) (auto simp: batchRenewClaims_def Let_def)
    next
      case False
      from in_update_other [of m q ?hit ?f, OF m(1) False] same assms(3) Q_renew False m(2,3) live
      show ?thesis by (intro exI [of _ e]) (auto simp: batchRenewClaims_def Let_def split: if_splits)
    qed
  qed (use stays [OF m(1,3) live, unfolded m(2), OF assms(3)] same in auto)
qed

lemma held_lockClaim:
  assumes "queue_inv q" and "held q i w n e"
  shows "lockClaim \<lparr>qc_messageId = i, qc_claimedBy = w, qc_claimedCount = n\<rparr> q \<noteq> None"
proof -
  let ?P = "\<lambda>m. qm_id m = i \<and> qm_claimedBy m = Some w \<and> qm_claimedCount m = n \<and> \<not> terminal m"
  from assms(2) obtain m where m: "m \<in> set q" "qm_id m = i" "qm_claimedBy m = Some w" "qm_claimedCount m = n"
    by (auto simp: held_def)
  moreover have "\<not> terminal m" using assms(1) m(1,3) by (auto simp: queue_inv_def message_wf_def)
  ultimately have "\<exists>m\<in>set q. ?P m" by blast
  then have "find ?P q \<noteq> None" unfolding find_None_iff by blast
  then obtain m' where m': "find ?P q = Some m'" by blast
  then have "m' \<in> set q" "?P m'" by (auto simp: find_Some_iff)
  then have "qm_claimedUntil m' \<noteq> None" using assms(1) by (auto simp: queue_inv_def message_wf_def)
  with m' show ?thesis by (simp add: lockClaim_def)
qed

text \<open>
  C5. A claim excludes: from the moment a worker holds a message, every interleaving of queue
  statements by any workers leaves it the holder of the same claim generation, as long as no
  claim reads a clock past the expiry it was promised last and it does not itself finish the
  message.  Completions, failures, deferrals and dead-lettering by other workers do not touch
  the message, nor do cancellations and retention.
\<close>

theorem queue_claim_excludes:
  assumes "queue_inv q" and "m \<in> set q" and "qm_claimedBy m = Some w" and "qm_claimedUntil m = Some e"
    and "claim_kept (qm_id m) w e stmts"
  shows "\<exists>m'\<in>set (fold queue_exec stmts q). qm_id m' = qm_id m \<and> qm_claimedBy m' = Some w \<and>
    qm_claimedCount m' = qm_claimedCount m \<and> lockClaim \<lparr>qc_messageId = qm_id m, qc_claimedBy = w,
      qc_claimedCount = qm_claimedCount m\<rparr> (fold queue_exec stmts q) \<noteq> None"
proof -
  have initially: "held q (qm_id m) w (qm_claimedCount m) e" using assms(2-4) by (auto simp: held_def)
  have "queue_inv (fold queue_exec stmts q) \<and> (\<exists>e. held (fold queue_exec stmts q) (qm_id m) w (qm_claimedCount m) e)"
    using assms(1,5) initially
  proof (induction stmts arbitrary: q e)
    case (Cons s ss)
    from held_step [OF Cons.prems(1,3,2)] obtain e' where
      "held (queue_exec s q) (qm_id m) w (qm_claimedCount m) e'" "claim_kept (qm_id m) w e' ss" by blast
    with Cons.IH queue_exec_inv [OF Cons.prems(1)] show ?case by simp
  qed auto
  then show ?thesis using held_lockClaim by (fastforce simp: held_def)
qed

definition ex_claimed :: queue_table where
  "ex_claimed = fst (batchClaimMessages (\<lambda>_. False) (ex_claim ''w'' 50 1) ex_queue)"

theorem queue_claim_excludes_witness:
  "\<exists>m'\<in>set (fold queue_exec [Q_claim (\<lambda>_. False) (ex_claim ''v'' 900 9), Q_renew [''q2''] ''w'' 3000, Q_complete ''q2'' ''v'' 60,
      Q_cancel ''q2'' 70, Q_claim (\<lambda>_. False) (ex_claim ''v'' 2900 9)] ex_claimed).
    qm_id m' = ''q2'' \<and> qm_claimedBy m' = Some ''w'' \<and> qm_claimedCount m' = 1"
proof -
  let ?stmts = "[Q_claim (\<lambda>_. False) (ex_claim ''v'' 900 9), Q_renew [''q2''] ''w'' 3000, Q_complete ''q2'' ''v'' 60,
      Q_cancel ''q2'' 70, Q_claim (\<lambda>_. False) (ex_claim ''v'' 2900 9)]"
  let ?m = "claim_message ''w'' 50 1050 (new_message (ex_insert ''q2'' 10))"
  have h: "queue_inv ex_claimed" "?m \<in> set ex_claimed" "qm_claimedBy ?m = Some ''w''" "qm_claimedUntil ?m = Some 1050"
    "claim_kept (qm_id ?m) ''w'' 1050 ?stmts" "qm_id ?m = ''q2''" "qm_claimedCount ?m = 1"
    by code_simp+
  from queue_claim_excludes [OF h(1-5)] h(6,7) show ?thesis by auto
qed

text \<open>The messages a claim may take.\<close>

definition eligible :: "(string \<Rightarrow> bool) \<Rightarrow> ClaimParams \<Rightarrow> QueueMessage \<Rightarrow> bool" where
  "eligible locked p m \<longleftrightarrow> qm_queueName m = cp_queueName p \<and> qm_workspaceId m = cp_workspaceId p \<and>
    claimable_now (cp_now p) m \<and> \<not> terminal m \<and> \<not> locked (qm_id m)"

lemma selected_iff:
  assumes "distinct (map qm_id q)" and "m \<in> set q"
  shows "qm_id m \<in> set (selected_for_claim locked p q) \<longleftrightarrow>
    m \<in> set (order_limit (\<lambda>m. the (qm_processAfter m)) (cp_limit p) (filter (eligible locked p) q))"
proof -
  have "set (order_limit (\<lambda>m. the (qm_processAfter m)) (cp_limit p) (filter (eligible locked p) q)) \<subseteq> set q"
    using set_order_limit by fastforce
  from key_mem_iff [OF assms this] show ?thesis
    by (simp add: selected_for_claim_def eligible_def [abs_def])
qed

text \<open>
  A claim takes the oldest work first and nothing twice: it returns as many eligible messages
  as the limit allows, each now claimed by the caller until the given time with one more
  claim on its count, ordered by the time they were due; every eligible message it leaves is
  due no earlier than those it took, and the rows it did not take are unchanged.
\<close>

theorem claim_takes_oldest:
  assumes "queue_inv q" and "batchClaimMessages locked p q = (q', msgs)"
  shows "length msgs = min (nat (cp_limit p)) (sql_count (eligible locked p) q) \<and>
    set msgs \<subseteq> set q' \<and> sorted (map (\<lambda>m. the (qm_processAfter m)) msgs) \<and>
    (\<forall>m\<in>set msgs. \<exists>m0\<in>set q. eligible locked p m0 \<and>
      m = claim_message (cp_claimedBy p) (cp_claimedAt p) (cp_claimedUntil p) m0) \<and>
    (\<forall>m\<in>set q. qm_id m \<notin> qm_id ` set msgs \<longrightarrow> m \<in> set q' \<and>
      (eligible locked p m \<longrightarrow> (\<forall>m1\<in>set msgs. the (qm_processAfter m1) \<le> the (qm_processAfter m))))"
proof -
  let ?due = "\<lambda>m. the (qm_processAfter m)"
  let ?L = "order_limit ?due (cp_limit p) (filter (eligible locked p) q)"
  let ?claim = "claim_message (cp_claimedBy p) (cp_claimedAt p) (cp_claimedUntil p)"
  let ?hit = "\<lambda>m. qm_id m \<in> set (selected_for_claim locked p q) \<and> qm_workspaceId m = cp_workspaceId p"
  let ?key = "\<lambda>m. case qm_processAfter m of None \<Rightarrow> (1::int, 0) | Some t \<Rightarrow> (0, t)"
  have dist: "distinct (map qm_id q)" using assms(1) by (simp add: queue_inv_def)
  have L: "m \<in> set q \<and> eligible locked p m" if "m \<in> set ?L" for m using set_order_limitD [OF that] by simp
  have ws: "qm_workspaceId m = cp_workspaceId p" if "m \<in> set ?L" for m
    using L [OF that] by (simp add: eligible_def)
  have hit: "?hit m \<longleftrightarrow> m \<in> set ?L" if "m \<in> set q" for m
    using selected_iff [OF dist that, of locked p] ws [of m] by blast
  have q': "q' = sql_update ?hit ?claim q" and msgs: "msgs = sort_key ?key (map ?claim (filter ?hit q))"
    using assms(2) by (simp_all add: batchClaimMessages_def Let_def)
  have "set (filter ?hit q) = set ?L" using hit L by (simp only: set_filter) blast
  then have set_msgs: "set msgs = ?claim ` set ?L" by (simp only: msgs set_sort set_map)
  have same: "qm_id (?claim m) = qm_id m" "qm_processAfter (?claim m) = qm_processAfter m" for m
    by (simp_all add: claim_message_def)
  have "filter ?hit q = filter (\<lambda>m. qm_id m \<in> set (map qm_id ?L)) q"
    using hit key_mem_iff [OF dist, of _ "set ?L"] L by (intro filter_cong refl) (simp only: set_map, blast)
  then have "length msgs = min (nat (cp_limit p)) (sql_count (eligible locked p) q)"
    using batch_delete(1) [OF dist refl, of ?due "cp_limit p" "eligible locked p"] by (simp add: msgs sql_count_def)
  moreover have "set msgs \<subseteq> set q'"
    unfolding set_msgs q' using in_update [of _ q ?hit ?claim] hit L by blast
  moreover have "sorted (map ?due msgs)"
  proof -
    have "\<exists>t. qm_processAfter m = Some t" if "m \<in> set ?L" for m
      using L [OF that] by (auto simp: eligible_def claimable_now_def)
    then have due_some: "\<exists>t. qm_processAfter m = Some t" if "m \<in> set msgs" for m
      using that same(2) unfolding set_msgs by fastforce
    have mono: "?due x \<le> ?due y" if "x \<in> set msgs" "y \<in> set msgs" "?key x \<le> ?key y" for x y
      using due_some [OF that(1)] due_some [OF that(2)] that(3) by auto
    have "sorted (map ?key msgs)" unfolding msgs by (rule sorted_sort_key)
    then have "sorted_wrt (\<lambda>m m'. ?key m \<le> ?key m') msgs" by (rule sorted_map [THEN iffD1])
    then show ?thesis unfolding sorted_map
      by (rule sorted_wrt_mono_rel [rotated]) (rule mono)
  qed
  moreover have "\<forall>m\<in>set msgs. \<exists>m0\<in>set q. eligible locked p m0 \<and> m = ?claim m0"
    unfolding set_msgs using L by blast
  moreover have "m \<in> set q' \<and> (eligible locked p m \<longrightarrow> (\<forall>m1\<in>set msgs. ?due m1 \<le> ?due m))"
    if "m \<in> set q" "qm_id m \<notin> qm_id ` set msgs" for m
  proof -
    have "m \<notin> set ?L" using that(2) by (auto simp: set_msgs same image_iff)
    then have "m \<in> set q'" using in_update_other [of m q ?hit ?claim] hit that(1) by (simp add: q')
    moreover have "?due m0 \<le> ?due m" if "eligible locked p m" "m0 \<in> set ?L" for m0
      using order_limit_le_rest [OF that(2), of m] \<open>m \<in> set q\<close> that(1) \<open>m \<notin> set ?L\<close> by simp
    ultimately show ?thesis by (auto simp: set_msgs same)
  qed
  ultimately show ?thesis by blast
qed

theorem claim_takes_oldest_witness:
  "map qm_id (snd (batchClaimMessages (\<lambda>i. i = ''q2'') (ex_claim ''w'' 25 2) ex_queue)) = [''q3''] \<and>
   length (snd (batchClaimMessages (\<lambda>i. i = ''q2'') (ex_claim ''w'' 25 2) ex_queue)) = min 2 1"
proof -
  have "queue_inv ex_queue" by code_simp
  from claim_takes_oldest [OF this surjective_pairing, of "\<lambda>i. i = ''q2''" "ex_claim ''w'' 25 2"]
  have "length (snd (batchClaimMessages (\<lambda>i. i = ''q2'') (ex_claim ''w'' 25 2) ex_queue)) =
      min (nat (cp_limit (ex_claim ''w'' 25 2))) (sql_count (eligible (\<lambda>i. i = ''q2'') (ex_claim ''w'' 25 2)) ex_queue)"
    by (rule conjunct1)
  moreover have "nat (cp_limit (ex_claim ''w'' 25 2)) = 2" by code_simp
  moreover have "sql_count (eligible (\<lambda>i. i = ''q2'') (ex_claim ''w'' 25 2)) ex_queue = 1" by code_simp
  moreover have "map qm_id (snd (batchClaimMessages (\<lambda>i. i = ''q2'') (ex_claim ''w'' 25 2) ex_queue)) = [''q3'']" by code_simp
  ultimately show ?thesis by simp
qed

text \<open>
  \<open>cancelById\<close> does not look at \<open>dlq_at\<close>: a dead letter can be cancelled, which makes it terminal
  twice and hands it to the retention of cancelled messages.
\<close>

lemma cancel_dead_letter:
  "let q = [(new_message (ex_insert ''q1'' 0))\<lparr>qm_dlqAt := Some 5, qm_processAfter := None\<rparr>]; q' = fst (cancelById ''q1'' 9 q)
   in queue_inv q \<and> map qm_dlqAt q' = [Some 5] \<and> map qm_cancelledAt q' = [Some 9]"
  by code_simp

end
