(* ===== verification/Cron.thy ===== *)
theory Cron
  imports Queue_Repository
begin

text \<open>
  The distributed cron: \<^verbatim>\<open>apps/backend/src/lib/queue/cron-repository.ts\<close> (tables \<open>cron_schedules\<close> and
  \<open>cron_ticks\<close>), \<^verbatim>\<open>schedule-manager.ts\<close> (creates ticks ahead of time), \<^verbatim>\<open>cleanup-worker.ts\<close>, and the part
  of \<^verbatim>\<open>manager.ts\<close> that leases due ticks and turns each into a queue message.  The constraints
  \<open>UNIQUE NULLS NOT DISTINCT (queue_name, workspace_id)\<close> and \<open>UNIQUE (schedule_id, execute_at)\<close> are
  those of the migrations; fresh ids are arguments.
\<close>

record CronSchedule =
  sc_id :: string
  sc_queueName :: string
  sc_intervalSeconds :: int
  sc_payload :: json
  sc_workspaceId :: "string option"
  sc_nextTickNeededAt :: timestamp
  sc_enabled :: bool
  sc_createdAt :: timestamp
  sc_updatedAt :: timestamp

record CronTick =
  ct_id :: string
  ct_scheduleId :: string
  ct_queueName :: string
  ct_payload :: json
  ct_workspaceId :: "string option"
  ct_executeAt :: timestamp
  ct_leasedAt :: "timestamp option"
  ct_leasedBy :: "string option"
  ct_leasedUntil :: "timestamp option"
  ct_createdAt :: timestamp

record CronDb =
  cron_schedules :: "CronSchedule table"
  cron_ticks :: "CronTick table"

record CreateScheduleParams =
  csp_id :: string
  csp_queueName :: string
  csp_intervalSeconds :: int
  csp_payload :: json
  csp_workspaceId :: "string option"

record CreateTickParams =
  ctp_scheduleId :: string
  ctp_queueName :: string
  ctp_payload :: json
  ctp_workspaceId :: "string option"
  ctp_executeAt :: timestamp
  ctp_intervalSeconds :: int

definition new_schedule :: "CreateScheduleParams \<Rightarrow> timestamp \<Rightarrow> CronSchedule" where
  "new_schedule p dbNow =
    \<lparr>sc_id = csp_id p, sc_queueName = csp_queueName p, sc_intervalSeconds = csp_intervalSeconds p,
     sc_payload = csp_payload p, sc_workspaceId = csp_workspaceId p, sc_nextTickNeededAt = dbNow,
     sc_enabled = True, sc_createdAt = dbNow, sc_updatedAt = dbNow\<rparr>"

abbreviation sched_key :: "CronSchedule \<Rightarrow> string \<times> string option" where
  "sched_key s \<equiv> (sc_queueName s, sc_workspaceId s)"

abbreviation param_key :: "CreateScheduleParams \<Rightarrow> string \<times> string option" where
  "param_key p \<equiv> (csp_queueName p, csp_workspaceId p)"

definition createSchedule :: "CreateScheduleParams \<Rightarrow> timestamp \<Rightarrow> CronDb \<Rightarrow> string + (CronDb \<times> CronSchedule)" where
  "createSchedule p dbNow db =
    (if csp_id p \<in> set (map sc_id (cron_schedules db)) \<or> param_key p \<in> set (map sched_key (cron_schedules db))
     then Inl ''unique violation''
     else Inr (db\<lparr>cron_schedules := cron_schedules db @ [new_schedule p dbNow]\<rparr>, new_schedule p dbNow))"

text \<open>The upsert resets the next tick only when the interval changes.\<close>

definition upsert_schedule :: "CreateScheduleParams \<Rightarrow> timestamp \<Rightarrow> CronSchedule \<Rightarrow> CronSchedule" where
  "upsert_schedule p dbNow s =
    s\<lparr>sc_intervalSeconds := csp_intervalSeconds p,
      sc_nextTickNeededAt := (if sc_intervalSeconds s \<noteq> csp_intervalSeconds p then dbNow else sc_nextTickNeededAt s),
      sc_updatedAt := dbNow\<rparr>"

definition ensureSchedule ::
  "CreateScheduleParams \<Rightarrow> timestamp \<Rightarrow> CronDb \<Rightarrow> string + (CronDb \<times> CronSchedule \<times> bool)" where
  "ensureSchedule p dbNow db =
    (case find (\<lambda>s. sched_key s = param_key p) (cron_schedules db) of
       Some s \<Rightarrow> Inr (db\<lparr>cron_schedules := sql_update (\<lambda>s. sched_key s = param_key p) (upsert_schedule p dbNow)
                        (cron_schedules db)\<rparr>, upsert_schedule p dbNow s, False)
     | None \<Rightarrow>
         (if csp_id p \<in> set (map sc_id (cron_schedules db)) then Inl ''unique violation''
          else Inr (db\<lparr>cron_schedules := cron_schedules db @ [new_schedule p dbNow]\<rparr>, new_schedule p dbNow, True)))"

definition findSchedulesNeedingTicks :: "int \<Rightarrow> int \<Rightarrow> timestamp \<Rightarrow> CronDb \<Rightarrow> CronSchedule list" where
  "findSchedulesNeedingTicks lookaheadSeconds limit dbNow db =
    order_limit sc_nextTickNeededAt limit
      (filter (\<lambda>s. sc_enabled s \<and> sc_nextTickNeededAt s \<le> dbNow + lookaheadSeconds * 1000) (cron_schedules db))"

section \<open>Ticks\<close>

abbreviation tick_key :: "CronTick \<Rightarrow> string \<times> timestamp" where
  "tick_key t \<equiv> (ct_scheduleId t, ct_executeAt t)"

definition new_tick :: "string \<Rightarrow> timestamp \<Rightarrow> CreateTickParams \<Rightarrow> CronTick" where
  "new_tick i dbNow p =
    \<lparr>ct_id = i, ct_scheduleId = ctp_scheduleId p, ct_queueName = ctp_queueName p, ct_payload = ctp_payload p,
     ct_workspaceId = ctp_workspaceId p, ct_executeAt = ctp_executeAt p, ct_leasedAt = None, ct_leasedBy = None,
     ct_leasedUntil = None, ct_createdAt = dbNow\<rparr>"

text \<open>\<open>INSERT .. ON CONFLICT (schedule_id, execute_at) DO NOTHING RETURNING\<close>.\<close>

fun insert_ticks :: "timestamp \<Rightarrow> (string \<times> CreateTickParams) list \<Rightarrow> CronTick table \<Rightarrow> CronTick table \<times> CronTick list" where
  "insert_ticks dbNow [] ticks = (ticks, [])"
| "insert_ticks dbNow ((i, p) # ps) ticks =
    (if (ctp_scheduleId p, ctp_executeAt p) \<in> set (map tick_key ticks) then insert_ticks dbNow ps ticks
     else let (ticks', rows) = insert_ticks dbNow ps (ticks @ [new_tick i dbNow p])
       in (ticks', new_tick i dbNow p # rows))"

text \<open>The \<open>CASE\<close> takes the first branch whose id matches.\<close>

definition advance_schedule :: "CreateTickParams list \<Rightarrow> timestamp \<Rightarrow> CronSchedule \<Rightarrow> CronSchedule" where
  "advance_schedule ps dbNow s =
    (case find (\<lambda>p. ctp_scheduleId p = sc_id s) ps of
       None \<Rightarrow> s
     | Some p \<Rightarrow> s\<lparr>sc_nextTickNeededAt := ctp_executeAt p + ctp_intervalSeconds p * 1000, sc_updatedAt := dbNow\<rparr>)"

definition createTicks :: "string list \<Rightarrow> CreateTickParams list \<Rightarrow> timestamp \<Rightarrow> CronDb \<Rightarrow> CronDb \<times> CronTick list" where
  "createTicks tickIds ps dbNow db =
    (if ps = [] then (db, [])
     else let (ticks', rows) = insert_ticks dbNow (zip tickIds ps) (cron_ticks db)
       in (db\<lparr>cron_ticks := ticks', cron_schedules := map (advance_schedule ps dbNow) (cron_schedules db)\<rparr>, rows))"

definition tick_leasable :: "timestamp \<Rightarrow> CronTick \<Rightarrow> bool" where
  "tick_leasable now t \<longleftrightarrow> ct_executeAt t \<le> now \<and> (ct_leasedUntil t = None \<or> sql_lt (ct_leasedUntil t) now)"

definition lease_tick :: "string \<Rightarrow> timestamp \<Rightarrow> timestamp \<Rightarrow> CronTick \<Rightarrow> CronTick" where
  "lease_tick w now until t = t\<lparr>ct_leasedAt := Some now, ct_leasedBy := Some w, ct_leasedUntil := Some until\<rparr>"

definition batchLeaseTicks ::
  "(string \<Rightarrow> bool) \<Rightarrow> string \<Rightarrow> timestamp \<Rightarrow> int \<Rightarrow> timestamp \<Rightarrow> CronDb \<Rightarrow> CronDb \<times> CronTick list" where
  "batchLeaseTicks locked leasedBy leasedUntil limit now db =
    (let ids = map ct_id (order_limit ct_executeAt limit
            (filter (\<lambda>t. tick_leasable now t \<and> \<not> locked (ct_id t)) (cron_ticks db)));
         hit = (\<lambda>t. ct_id t \<in> set ids)
     in (db\<lparr>cron_ticks := sql_update hit (lease_tick leasedBy now leasedUntil) (cron_ticks db)\<rparr>,
         map (lease_tick leasedBy now leasedUntil) (filter hit (cron_ticks db))))"

definition deleteTick :: "string \<Rightarrow> string \<Rightarrow> CronDb \<Rightarrow> string + CronDb" where
  "deleteTick tickId leasedBy db =
    (let hit = (\<lambda>t. ct_id t = tickId \<and> ct_leasedBy t = Some leasedBy)
     in if sql_count hit (cron_ticks db) = 0 then Inl ''not found or wrong leasedBy''
        else Inr (db\<lparr>cron_ticks := sql_delete hit (cron_ticks db)\<rparr>))"

definition deleteExpiredTicks :: "timestamp \<Rightarrow> CronDb \<Rightarrow> CronDb \<times> nat" where
  "deleteExpiredTicks expiredBefore db =
    (let hit = (\<lambda>t. ct_leasedUntil t \<noteq> None \<and> sql_lt (ct_leasedUntil t) expiredBefore)
     in (db\<lparr>cron_ticks := sql_delete hit (cron_ticks db)\<rparr>, sql_count hit (cron_ticks db)))"

definition deleteOrphanedTicks :: "CronDb \<Rightarrow> CronDb \<times> nat" where
  "deleteOrphanedTicks db =
    (let hit = (\<lambda>t. ct_scheduleId t \<notin> set (map sc_id (cron_schedules db)))
     in (db\<lparr>cron_ticks := sql_delete hit (cron_ticks db)\<rparr>, sql_count hit (cron_ticks db)))"

definition getScheduleByQueueAndWorkspace :: "string \<Rightarrow> string option \<Rightarrow> CronDb \<Rightarrow> CronSchedule option" where
  "getScheduleByQueueAndWorkspace queueName workspaceId db =
    find (\<lambda>s. sched_key s = (queueName, workspaceId)) (cron_schedules db)"

section \<open>The schedule manager, the cleanup worker and the execution of a tick\<close>

definition tick_params :: "CronSchedule \<Rightarrow> CreateTickParams" where
  "tick_params s =
    \<lparr>ctp_scheduleId = sc_id s, ctp_queueName = sc_queueName s, ctp_payload = sc_payload s,
     ctp_workspaceId = sc_workspaceId s, ctp_executeAt = sc_nextTickNeededAt s,
     ctp_intervalSeconds = sc_intervalSeconds s\<rparr>"

text \<open>\<open>generateTicks\<close>: the schedules are read (from \<open>seen\<close>) before the ticks are created (in \<open>db\<close>);
  other managers may write in between.\<close>

definition generateTicks ::
  "int \<Rightarrow> int \<Rightarrow> string list \<Rightarrow> timestamp \<Rightarrow> CronDb \<Rightarrow> CronDb \<Rightarrow> CronDb \<times> CronTick list" where
  "generateTicks lookaheadSeconds batchSize tickIds dbNow seen db =
    (let schedules = findSchedulesNeedingTicks lookaheadSeconds batchSize dbNow seen
     in if schedules = [] then (db, []) else createTicks tickIds (map tick_params schedules) dbNow db)"

definition cron_cleanup :: "int \<Rightarrow> timestamp \<Rightarrow> CronDb \<Rightarrow> CronDb" where
  "cron_cleanup expiredThresholdMs now db =
    fst (deleteOrphanedTicks (fst (deleteExpiredTicks (now - expiredThresholdMs) db)))"

text \<open>\<open>executeTick\<close>: the tick is deleted whether or not the insert worked; its own failure is logged.\<close>

definition executeTick ::
  "string \<Rightarrow> string \<Rightarrow> timestamp \<Rightarrow> CronTick \<Rightarrow> queue_table \<times> CronDb \<Rightarrow> queue_table \<times> CronDb" where
  "executeTick managerId messageId now t s =
    (case s of (q, db) \<Rightarrow>
      (let ws = (case ct_workspaceId t of None \<Rightarrow> ''system'' | Some w \<Rightarrow> if w = '''' then ''system'' else w);
           q' = (case queue_insert q \<lparr>ip_id = messageId, ip_queueName = ct_queueName t, ip_workspaceId = ws,
                   ip_payload = ct_payload t, ip_processAfter = ct_executeAt t, ip_insertedAt = now\<rparr> of
                 Inl _ \<Rightarrow> q | Inr (q', _) \<Rightarrow> q');
           db' = (case deleteTick (ct_id t) managerId db of Inl _ \<Rightarrow> db | Inr db' \<Rightarrow> db')
       in (q', db')))"

section \<open>Invariant\<close>

definition cron_inv :: "CronDb \<Rightarrow> bool" where
  "cron_inv db \<longleftrightarrow> distinct (map sc_id (cron_schedules db)) \<and> distinct (map sched_key (cron_schedules db)) \<and>
    distinct (map tick_key (cron_ticks db))"

lemma insert_ticks_keys:
  "distinct (map tick_key ticks) \<Longrightarrow> distinct (map tick_key (fst (insert_ticks now ps ticks)))"
  "set (map tick_key (fst (insert_ticks now ps ticks))) =
    set (map tick_key ticks) \<union> (\<lambda>(i, p). (ctp_scheduleId p, ctp_executeAt p)) ` set ps"
  by (induction now ps ticks rule: insert_ticks.induct)
    (auto simp: Let_def case_prod_beta new_tick_def)

lemma insert_ticks_present:
  "(\<lambda>(i, p). (ctp_scheduleId p, ctp_executeAt p)) ` set ps \<subseteq> set (map tick_key ticks) \<Longrightarrow>
    insert_ticks now ps ticks = (ticks, [])"
  by (induction now ps ticks rule: insert_ticks.induct) auto

lemma advance_schedule_keys [simp]:
  "sc_id (advance_schedule ps t s) = sc_id s" "sched_key (advance_schedule ps t s) = sched_key s"
  by (simp_all add: advance_schedule_def split: option.split)

lemma createTicks_inv [step_inv]: "cron_inv db \<Longrightarrow> cron_inv (fst (createTicks ids ps t db))"
  by (auto simp: createTicks_def cron_inv_def Let_def case_prod_beta comp_def insert_ticks_keys(1))

datatype cron_stmt =
    C_create CreateScheduleParams timestamp
  | C_ensure CreateScheduleParams timestamp
  | C_ticks "string list" "CreateTickParams list" timestamp
  | C_lease "string \<Rightarrow> bool" string timestamp int timestamp
  | C_deleteTick string string
  | C_expire timestamp
  | C_orphans

fun cron_exec :: "cron_stmt \<Rightarrow> CronDb \<Rightarrow> CronDb" where
  "cron_exec (C_create p t) db = (case createSchedule p t db of Inl _ \<Rightarrow> db | Inr (db', _) \<Rightarrow> db')"
| "cron_exec (C_ensure p t) db = (case ensureSchedule p t db of Inl _ \<Rightarrow> db | Inr (db', _) \<Rightarrow> db')"
| "cron_exec (C_ticks ids ps t) db = fst (createTicks ids ps t db)"
| "cron_exec (C_lease l w u n now) db = fst (batchLeaseTicks l w u n now db)"
| "cron_exec (C_deleteTick i w) db = (case deleteTick i w db of Inl _ \<Rightarrow> db | Inr db' \<Rightarrow> db')"
| "cron_exec (C_expire t) db = fst (deleteExpiredTicks t db)"
| "cron_exec C_orphans db = fst (deleteOrphanedTicks db)"

lemma upsert_keys [simp]:
  "sc_id (upsert_schedule p t s) = sc_id s" "sched_key (upsert_schedule p t s) = sched_key s"
  by (simp_all add: upsert_schedule_def)

lemma lease_tick_keys [simp]:
  "ct_id (lease_tick w n u t) = ct_id t" "tick_key (lease_tick w n u t) = tick_key t"
  by (simp_all add: lease_tick_def)

lemma new_schedule_keys [simp]:
  "sc_id (new_schedule p t) = csp_id p" "sched_key (new_schedule p t) = param_key p"
  by (simp_all add: new_schedule_def)

lemma createSchedule_inv: "cron_inv db \<Longrightarrow> cron_inv (cron_exec (C_create p t) db)"
  by (auto simp: createSchedule_def cron_inv_def)

lemma ensureSchedule_inv: "cron_inv db \<Longrightarrow> cron_inv (cron_exec (C_ensure p t) db)"
  by (auto simp: ensureSchedule_def cron_inv_def sql_update_key find_None_iff image_iff split: option.split)

lemma cron_exec_inv [step_inv]: "cron_inv db \<Longrightarrow> cron_inv (cron_exec s db)"
proof (cases s)
  case (C_create p t)
  then show "cron_inv db \<Longrightarrow> ?thesis" by (simp only: createSchedule_inv)
next
  case (C_ensure p t)
  then show "cron_inv db \<Longrightarrow> ?thesis" by (simp only: ensureSchedule_inv)
next
  case (C_ticks ids ps t)
  then show "cron_inv db \<Longrightarrow> ?thesis" by (simp add: createTicks_inv)
qed (auto simp: cron_inv_def batchLeaseTicks_def deleteTick_def deleteExpiredTicks_def deleteOrphanedTicks_def Let_def
    sql_update_key sql_delete_def distinct_key_filter)

text \<open>
  The cron tables keep their keys through any sequence of statements: at most one schedule per
  queue and workspace, the system-wide one without a workspace included, and at most one
  tick per schedule and execution time.
\<close>

theorem cron_keys_unique:
  "cron_inv (fold cron_exec stmts \<lparr>cron_schedules = [], cron_ticks = []\<rparr>)"
proof -
  have "cron_inv db \<Longrightarrow> cron_inv (fold cron_exec stmts db)" for db
    by (induction stmts arbitrary: db) (simp_all add: cron_exec_inv)
  moreover have "cron_inv \<lparr>cron_schedules = [], cron_ticks = []\<rparr>" by (simp add: cron_inv_def)
  ultimately show ?thesis by blast
qed


definition ex_sched :: CreateScheduleParams where
  "ex_sched = \<lparr>csp_id = ''cron_1'', csp_queueName = ''memo.batch-check'', csp_intervalSeconds = 30, csp_payload = JObj [],
     csp_workspaceId = None\<rparr>"

definition ex_cron :: CronDb where
  "ex_cron = cron_exec (C_ensure ex_sched 1000) \<lparr>cron_schedules = [], cron_ticks = []\<rparr>"

definition ex_ps :: "CreateTickParams list" where
  "ex_ps = map tick_params (findSchedulesNeedingTicks 60 100 1000 ex_cron)"


text \<open>
  When the tick was executed and deleted in between, the constraint no longer helps: the stale
  manager creates the same tick again, and if a newer tick had been created by then it moves
  the schedule back behind it.
\<close>

lemma stale_manager_repeats_tick:
  "let db1 = fst (createTicks [''k1''] ex_ps 1000 ex_cron);
       db2 = cron_exec (C_deleteTick ''k1'' ''m'') (cron_exec (C_lease (\<lambda>_. False) ''m'' 9000 10 1000) db1);
       db3 = fst (createTicks [''k2''] (map tick_params (cron_schedules db2)) 2000 db2);
       (db4, rows) = createTicks [''k3''] ex_ps 2000 db3
   in map tick_key rows = [(''cron_1'', 1000)] \<and>
      map sc_nextTickNeededAt (cron_schedules db3) = [61000] \<and> map sc_nextTickNeededAt (cron_schedules db4) = [31000]"
  by code_simp

section \<open>Leasing and executing ticks\<close>

definition claim_tick :: "string \<Rightarrow> timestamp \<Rightarrow> timestamp \<Rightarrow> CronTick \<Rightarrow> CronTick option" where
  "claim_tick w now until t = (if tick_leasable now t then Some (lease_tick w now until t) else None)"

interpretation tick_lease: exclusive_claim claim_tick ct_leasedBy ct_leasedUntil 0 "\<lambda>_. True"
  by unfold_locales (auto simp: claim_tick_def tick_leasable_def lease_tick_def split: if_splits)

lemma leased_tick:
  assumes "distinct (map ct_id (cron_ticks db))" and "t \<in> set (snd (batchLeaseTicks l w u n now db))"
  shows "\<exists>t0\<in>set (cron_ticks db). claim_tick w now u t0 = Some t"
proof -
  let ?L = "order_limit ct_executeAt n (filter (\<lambda>t. tick_leasable now t \<and> \<not> l (ct_id t)) (cron_ticks db))"
  from assms(2) obtain t0 where t0: "t0 \<in> set (cron_ticks db)" "ct_id t0 \<in> set (map ct_id ?L)" "t = lease_tick w now u t0"
    by (auto simp: batchLeaseTicks_def Let_def)
  then obtain t1 where t1: "t1 \<in> set ?L" "ct_id t1 = ct_id t0" by auto
  from set_order_limitD [OF t1(1)] have "t1 \<in> set (cron_ticks db)" "tick_leasable now t1" by simp_all
  with t1 t0 assms(1) show ?thesis by (auto simp: claim_tick_def distinct_map inj_on_def)
qed

lemma batchLeaseTicks_ids: "map ct_id (cron_ticks (fst (batchLeaseTicks l w u n now db))) = map ct_id (cron_ticks db)"
  by (simp add: batchLeaseTicks_def Let_def sql_update_key)

lemma leased_in_table: "set (snd (batchLeaseTicks l w u n now db)) \<subseteq> set (cron_ticks (fst (batchLeaseTicks l w u n now db)))"
  by (auto simp: batchLeaseTicks_def Let_def set_sql_update)

text \<open>
  A due tick is executed by one manager: two managers that lease ticks one after the other get
  no tick in common unless the second reads a clock past the expiry of the first lease.
\<close>

theorem tick_leased_by_one_manager:
  assumes "distinct (map ct_id (cron_ticks db))"
    and "batchLeaseTicks l w u n now db = (db1, ticks1)" and "batchLeaseTicks l' w' u' n' now' db1 = (db2, ticks2)"
    and "now' \<le> u"
  shows "set (map ct_id ticks1) \<inter> set (map ct_id ticks2) = {}"
proof -
  have dist1: "distinct (map ct_id (cron_ticks db1))"
    using assms(1) batchLeaseTicks_ids [of l w u n now db] by (simp add: assms(2))
  have False if t: "t1 \<in> set ticks1" "t2 \<in> set ticks2" "ct_id t1 = ct_id t2" for t1 t2
  proof -
    obtain t0 where t0: "claim_tick w now u t0 = Some t1"
      using leased_tick [OF assms(1), of t1 l w u n now] t(1) assms(2) by auto
    obtain t1' where t1': "t1' \<in> set (cron_ticks db1)" "claim_tick w' now' u' t1' = Some t2"
      using leased_tick [OF dist1, of t2 l' w' u' n' now'] t(2) assms(3) by auto
    have "ct_id t1' = ct_id t2" using t1'(2) by (auto simp: claim_tick_def split: if_splits)
    moreover have "t1 \<in> set (cron_ticks db1)" using leased_in_table [of l w u n now db] t(1) assms(2) by auto
    ultimately have "t1' = t1" using dist1 t1'(1) t(3) by (auto simp: distinct_map inj_on_def)
    with tick_lease.second_claim [OF TrueI t0] t1'(2) assms(4) show False by fastforce
  qed
  then show ?thesis by auto
qed

theorem tick_leased_by_one_manager_witness:
  "let (db1, t1) = batchLeaseTicks (\<lambda>_. False) ''m'' 9000 10 1000 (fst (createTicks [''k1''] ex_ps 1000 ex_cron))
   in map ct_id t1 = [''k1''] \<and>
      set (map ct_id t1) \<inter> set (map ct_id (snd (batchLeaseTicks (\<lambda>_. False) ''v'' 19000 10 9000 db1))) = {}"
proof -
  let ?db = "fst (createTicks [''k1''] ex_ps 1000 ex_cron)"
  have "distinct (map ct_id (cron_ticks ?db))" by code_simp
  note one = tick_leased_by_one_manager [OF this surjective_pairing surjective_pairing, of 9000 9000]
  moreover have "map ct_id (snd (batchLeaseTicks (\<lambda>_. False) ''m'' 9000 10 1000 ?db)) = [''k1'']" by code_simp
  ultimately show ?thesis unfolding case_prod_beta Let_def by blast
qed

text \<open>
  Executing a tick that is still leased enqueues exactly one message, due at the tick's execution
  time for its workspace (or the system), and removes exactly that tick.
\<close>

theorem execute_tick_enqueues_once:
  assumes "distinct (map ct_id (cron_ticks db))" and "t \<in> set (cron_ticks db)" and "ct_leasedBy t = Some managerId"
    and "messageId \<notin> set (map qm_id q)" and "executeTick managerId messageId now t (q, db) = (q', db')"
  shows "cron_ticks db' = filter (\<lambda>t'. t' \<noteq> t) (cron_ticks db) \<and> cron_schedules db' = cron_schedules db \<and>
    (\<exists>m. q' = q @ [m] \<and> qm_id m = messageId \<and> qm_queueName m = ct_queueName t \<and> qm_payload m = ct_payload t \<and>
      qm_processAfter m = Some (ct_executeAt t) \<and>
      qm_workspaceId m = (case ct_workspaceId t of None \<Rightarrow> ''system'' | Some w \<Rightarrow> if w = '''' then ''system'' else w))"
proof -
  let ?hit = "\<lambda>t'. ct_id t' = ct_id t \<and> ct_leasedBy t' = Some managerId"
  have hit: "?hit t' \<longleftrightarrow> t' = t" if "t' \<in> set (cron_ticks db)" for t'
    using assms(1-3) that by (auto simp: distinct_map inj_on_def)
  then have "sql_delete ?hit (cron_ticks db) = filter (\<lambda>t'. t' \<noteq> t) (cron_ticks db)"
    unfolding sql_delete_def by (intro filter_cong) auto
  moreover have "sql_count ?hit (cron_ticks db) \<noteq> 0" using assms(2,3) by (auto simp: sql_count_0_iff)
  ultimately have "deleteTick (ct_id t) managerId db = Inr (db\<lparr>cron_ticks := filter (\<lambda>t'. t' \<noteq> t) (cron_ticks db)\<rparr>)"
    by (simp add: deleteTick_def Let_def)
  with assms(4,5) show ?thesis by (auto simp: executeTick_def Let_def queue_insert_def new_message_def)
qed

theorem execute_tick_enqueues_once_witness:
  "\<exists>m. fst (executeTick ''m'' ''q9'' 1000 (lease_tick ''m'' 1000 9000 (new_tick ''k1'' 1000 (hd ex_ps)))
      ([], fst (batchLeaseTicks (\<lambda>_. False) ''m'' 9000 10 1000 (fst (createTicks [''k1''] ex_ps 1000 ex_cron))))) = [] @ [m] \<and>
    qm_processAfter m = Some 1000"
proof -
  let ?db = "fst (batchLeaseTicks (\<lambda>_. False) ''m'' 9000 10 1000 (fst (createTicks [''k1''] ex_ps 1000 ex_cron)))"
  let ?t = "lease_tick ''m'' 1000 9000 (new_tick ''k1'' 1000 (hd ex_ps))"
  have h: "distinct (map ct_id (cron_ticks ?db))" "?t \<in> set (cron_ticks ?db)" "ct_leasedBy ?t = Some ''m''"
    "''q9'' \<notin> set (map qm_id [])" "ct_executeAt ?t = 1000"
    by code_simp+
  from execute_tick_enqueues_once [OF h(1-4) surjective_pairing, of 1000] h(5) show ?thesis by metis
qed

end
