(* ===== verification/Token_Pool.thy ===== *)
theory Token_Pool
  imports Queue_Repository
begin

text \<open>
  \<^verbatim>\<open>apps/backend/src/lib/queue/token-pool-repository.ts\<close>: the table \<open>queue_tokens\<close>.  A token lets
  one worker process one (queue, workspace) pair.  The fresh token ids that the source
  generates with \<open>tokenId()\<close> are an argument.
\<close>

record QueueToken =
  qt_id :: string
  qt_queueName :: string
  qt_workspaceId :: string
  qt_leasedAt :: timestamp
  qt_leasedBy :: string
  qt_leasedUntil :: timestamp
  qt_nextProcessAfter :: timestamp
  qt_createdAt :: timestamp

type_synonym token_table = "QueueToken table"

datatype Fairness = Fair_workspace | Fair_none

record BatchLeaseTokensParams =
  lt_leasedBy :: string
  lt_leasedAt :: timestamp
  lt_leasedUntil :: timestamp
  lt_now :: timestamp
  lt_limit :: int
  lt_queueNames :: "string list"
  lt_fairnessMode :: "Fairness option"

record AvailablePair =
  ap_queueName :: string
  ap_workspaceId :: string
  ap_nextProcessAfter :: timestamp
  ap_pendingCount :: nat

abbreviation msg_pair :: "QueueMessage \<Rightarrow> string \<times> string" where
  "msg_pair m \<equiv> (qm_queueName m, qm_workspaceId m)"

abbreviation token_pair :: "QueueToken \<Rightarrow> string \<times> string" where
  "token_pair t \<equiv> (qt_queueName t, qt_workspaceId t)"

abbreviation pair_of :: "AvailablePair \<Rightarrow> string \<times> string" where
  "pair_of a \<equiv> (ap_queueName a, ap_workspaceId a)"

definition leasable :: "timestamp \<Rightarrow> string list \<Rightarrow> QueueMessage \<Rightarrow> bool" where
  "leasable now queueNames m \<longleftrightarrow> claimable_now now m \<and> \<not> terminal m \<and> qm_queueName m \<in> set queueNames"

text \<open>\<open>GROUP BY queue_name, workspace_id\<close> with \<open>MIN(process_after)\<close> and \<open>COUNT(*)\<close>.\<close>

definition available_pairs :: "timestamp \<Rightarrow> string list \<Rightarrow> queue_table \<Rightarrow> AvailablePair list" where
  "available_pairs now queueNames q =
    (let ms = filter (leasable now queueNames) q
     in map (\<lambda>p. let g = filter (\<lambda>m. msg_pair m = p) ms
          in \<lparr>ap_queueName = fst p, ap_workspaceId = snd p,
             ap_nextProcessAfter = Min (set (map (\<lambda>m. the (qm_processAfter m)) g)),
             ap_pendingCount = length g\<rparr>) (js_dedup (map msg_pair ms)))"

definition has_active_token :: "timestamp \<Rightarrow> token_table \<Rightarrow> string \<times> string \<Rightarrow> bool" where
  "has_active_token now toks p \<longleftrightarrow> (\<exists>t\<in>set toks. token_pair t = p \<and> qt_leasedUntil t > now)"

definition selected_pairs ::
  "Fairness \<Rightarrow> timestamp \<Rightarrow> int \<Rightarrow> string list \<Rightarrow> queue_table \<Rightarrow> token_table \<Rightarrow> AvailablePair list" where
  "selected_pairs mode now limit queueNames q toks =
    (case mode of
       Fair_workspace \<Rightarrow>
         order_limit ap_nextProcessAfter limit
           (filter (\<lambda>a. \<not> has_active_token now toks (pair_of a)) (available_pairs now queueNames q))
     | Fair_none \<Rightarrow>
         map snd (order_limit (\<lambda>(slot, a). (slot, ap_nextProcessAfter a)) limit
           (concat (map (\<lambda>a. map (\<lambda>s. (s, a)) [1..<Suc (min (ap_pendingCount a) (nat limit))])
             (available_pairs now queueNames q)))))"

definition new_token :: "BatchLeaseTokensParams \<Rightarrow> string \<Rightarrow> AvailablePair \<Rightarrow> QueueToken" where
  "new_token p i a =
    \<lparr>qt_id = i, qt_queueName = ap_queueName a, qt_workspaceId = ap_workspaceId a, qt_leasedAt = lt_leasedAt p,
     qt_leasedBy = lt_leasedBy p, qt_leasedUntil = lt_leasedUntil p, qt_nextProcessAfter = ap_nextProcessAfter a,
     qt_createdAt = lt_leasedAt p\<rparr>"

definition batchLeaseTokens ::
  "BatchLeaseTokensParams \<Rightarrow> string list \<Rightarrow> queue_table \<Rightarrow> token_table \<Rightarrow> token_table \<times> QueueToken list" where
  "batchLeaseTokens p tokenIds q toks =
    (let mode = (case lt_fairnessMode p of None \<Rightarrow> Fair_workspace | Some f \<Rightarrow> f);
         sel = selected_pairs mode (lt_now p) (lt_limit p) (lt_queueNames p) q toks;
         rows = map (\<lambda>(i, a). new_token p i a) (zip tokenIds sel)
     in (toks @ rows, rows))"

definition renewLease :: "string \<Rightarrow> string \<Rightarrow> timestamp \<Rightarrow> token_table \<Rightarrow> token_table \<times> bool" where
  "renewLease tokenId leasedBy leasedUntil toks =
    (let hit = (\<lambda>t. qt_id t = tokenId \<and> qt_leasedBy t = leasedBy)
     in (sql_update hit (\<lambda>t. t\<lparr>qt_leasedUntil := leasedUntil\<rparr>) toks, sql_count hit toks > 0))"

definition deleteToken :: "string \<Rightarrow> string \<Rightarrow> token_table \<Rightarrow> string + token_table" where
  "deleteToken tokenId leasedBy toks =
    (let hit = (\<lambda>t. qt_id t = tokenId \<and> qt_leasedBy t = leasedBy)
     in if sql_count hit toks = 0 then Inl ''not found or wrong leasedBy'' else Inr (sql_delete hit toks))"

definition deleteExpiredTokens :: "timestamp \<Rightarrow> token_table \<Rightarrow> token_table \<times> nat" where
  "deleteExpiredTokens now toks =
    (sql_delete (\<lambda>t. qt_leasedUntil t < now) toks, sql_count (\<lambda>t. qt_leasedUntil t < now) toks)"

section \<open>What a lease hands out\<close>

lemma available_pairs_distinct: "distinct (map pair_of (available_pairs now names q))"
  by (simp add: available_pairs_def Let_def comp_def)

lemma available_pairD:
  assumes "a \<in> set (available_pairs now names q)"
  shows "ap_pendingCount a = sql_count (\<lambda>m. leasable now names m \<and> msg_pair m = pair_of a) q"
    and "\<exists>m\<in>set q. leasable now names m \<and> msg_pair m = pair_of a"
  using assms
  by (auto simp: available_pairs_def Let_def sql_count_def conj_commute intro!: arg_cong [of _ _ length] filter_cong)

lemma length_selected_pairs: "length (selected_pairs mode now limit names q toks) \<le> nat limit"
  by (cases mode) (simp_all add: selected_pairs_def length_order_limit)

lemma set_selected_pairs:
  "set (selected_pairs mode now limit names q toks) \<subseteq> set (available_pairs now names q)"
  by (cases mode) (auto simp: selected_pairs_def dest!: set_order_limitD)

definition active_count :: "timestamp \<Rightarrow> token_table \<Rightarrow> string \<times> string \<Rightarrow> nat" where
  "active_count now toks p = sql_count (\<lambda>t. token_pair t = p \<and> qt_leasedUntil t > now) toks"

lemma active_count_0: "active_count now toks p = 0 \<longleftrightarrow> \<not> has_active_token now toks p"
  by (simp add: active_count_def sql_count_0_iff has_active_token_def)

lemma zip_rows_pairs:
  "map token_pair (map (\<lambda>(i, a). new_token p i a) (zip ids sel)) = map pair_of (take (length ids) sel)"
  by (induction ids sel rule: list_induct2') (auto simp: new_token_def)

lemma count_pair_le_1: "distinct (map f xs) \<Longrightarrow> length (filter (\<lambda>x. f x = p \<and> g x) xs) \<le> 1"
  by (induction xs) (auto simp: filter_empty_conv image_iff)

text \<open>
  C12. Leasing under workspace fairness keeps at most one active token per queue and workspace, and
  in either mode no more tokens than the limit come back, each for a pair with work that a
  worker could claim at that moment and never for a queue outside the given names.
\<close>

theorem lease_respects_fairness_and_limit:
  assumes "batchLeaseTokens p ids q toks = (toks', rows)"
  shows "length rows \<le> nat (lt_limit p) \<and> toks' = toks @ rows \<and>
    (\<forall>t\<in>set rows. qt_queueName t \<in> set (lt_queueNames p) \<and>
      (\<exists>m\<in>set q. claimable_now (lt_now p) m \<and> \<not> terminal m \<and> msg_pair m = token_pair t)) \<and>
    (lt_fairnessMode p \<noteq> Some Fair_none \<longrightarrow> (\<forall>pr. active_count (lt_now p) toks pr \<le> 1) \<longrightarrow>
      (\<forall>pr. active_count (lt_now p) toks' pr \<le> 1))"
proof -
  define mode where "mode = (case lt_fairnessMode p of None \<Rightarrow> Fair_workspace | Some f \<Rightarrow> f)"
  define sel where "sel = selected_pairs mode (lt_now p) (lt_limit p) (lt_queueNames p) q toks"
  have rows: "rows = map (\<lambda>(i, a). new_token p i a) (zip ids sel)" and toks': "toks' = toks @ rows"
    using assms by (auto simp: batchLeaseTokens_def Let_def mode_def sel_def)
  have pairs: "map token_pair rows = map pair_of (take (length ids) sel)" unfolding rows by (rule zip_rows_pairs)
  have "length rows \<le> nat (lt_limit p)"
    using length_selected_pairs [of mode "lt_now p" "lt_limit p" "lt_queueNames p" q toks] by (simp add: rows sel_def)
  moreover have "qt_queueName t \<in> set (lt_queueNames p) \<and>
      (\<exists>m\<in>set q. claimable_now (lt_now p) m \<and> \<not> terminal m \<and> msg_pair m = token_pair t)" if "t \<in> set rows" for t
  proof -
    have "token_pair t \<in> set (map token_pair rows)" using that by auto
    then obtain a where "a \<in> set sel" "token_pair t = pair_of a"
      unfolding pairs by (auto dest: in_set_takeD)
    then show ?thesis
      using available_pairD(2) [of a "lt_now p" "lt_queueNames p" q] set_selected_pairs
      unfolding sel_def leasable_def by (metis (no_types, lifting) prod.inject subsetD)
  qed
  moreover have "active_count (lt_now p) toks' pr \<le> 1"
    if fair: "lt_fairnessMode p \<noteq> Some Fair_none" and le: "active_count (lt_now p) toks pr \<le> 1" for pr
  proof -
    have mode: "mode = Fair_workspace" using fair by (auto simp: mode_def split: option.split Fairness.split) (metis Fairness.exhaust)
    let ?free = "filter (\<lambda>a. \<not> has_active_token (lt_now p) toks (pair_of a)) (available_pairs (lt_now p) (lt_queueNames p) q)"
    have sel: "sel = order_limit ap_nextProcessAfter (lt_limit p) ?free" by (simp add: sel_def mode selected_pairs_def)
    have "distinct (map pair_of sel)"
      unfolding sel by (intro distinct_order_limit distinct_key_filter available_pairs_distinct)
    then have "distinct (map token_pair rows)" unfolding pairs take_map [symmetric] by (rule distinct_take)
    then have new: "active_count (lt_now p) rows pr \<le> 1"
      unfolding active_count_def sql_count_def by (rule count_pair_le_1)
    have split: "active_count (lt_now p) toks' pr = active_count (lt_now p) toks pr + active_count (lt_now p) rows pr"
      by (simp add: toks' active_count_def sql_count_def)
    show ?thesis
    proof (cases "pr \<in> set (map token_pair rows)")
      case True
      then obtain a where "a \<in> set sel" "pr = pair_of a" unfolding pairs by (auto dest: in_set_takeD)
      then have "\<not> has_active_token (lt_now p) toks pr" using set_order_limitD unfolding sel by fastforce
      then show ?thesis using split new by (simp add: active_count_0 [symmetric])
    next
      case False
      then have "active_count (lt_now p) rows pr = 0" by (auto simp: active_count_0 has_active_token_def)
      then show ?thesis using split le by simp
    qed
  qed
  ultimately show ?thesis using toks' by blast
qed

definition ex_lease :: "Fairness \<Rightarrow> BatchLeaseTokensParams" where
  "ex_lease f = \<lparr>lt_leasedBy = ''m'', lt_leasedAt = 50, lt_leasedUntil = 1050, lt_now = 50, lt_limit = 2,
     lt_queueNames = [''embedding.generate''], lt_fairnessMode = Some f\<rparr>"

theorem lease_respects_fairness_and_limit_witness:
  "\<forall>pr. active_count 50 (fst (batchLeaseTokens (ex_lease Fair_workspace) [''t1'', ''t2''] ex_queue [])) pr \<le> 1"
proof -
  have h: "lt_fairnessMode (ex_lease Fair_workspace) \<noteq> Some Fair_none" "lt_now (ex_lease Fair_workspace) = 50"
    by (simp_all add: ex_lease_def)
  have none: "\<forall>pr. active_count 50 [] pr \<le> 1" by (simp add: active_count_def sql_count_def)
  show ?thesis
    using lease_respects_fairness_and_limit [OF surjective_pairing, of "ex_lease Fair_workspace" "[''t1'', ''t2'']" ex_queue "[]"] h(1) none
    unfolding h(2) by blast
qed

text \<open>Without fairness a single workspace fills the whole limit.\<close>

lemma unfair_lease_example:
  "map token_pair (snd (batchLeaseTokens (ex_lease Fair_none) [''t1'', ''t2''] ex_queue [])) =
    [(''embedding.generate'', ''ws_1''), (''embedding.generate'', ''ws_1'')]"
  by code_simp

end
