(* ===== verification/Queue_Manager.thy ===== *)
theory Queue_Manager
  imports Cron Token_Pool Backoff
begin

text \<open>
  \<^verbatim>\<open>apps/backend/src/lib/queue/manager.ts\<close>, class \<open>QueueManager\<close>: registration of handlers, the
  concurrency tiers with their token budgets, the polling cycle as a step relation split at the
  awaits of the source, and the processing of one claimed message on every outcome of its
  handler.  Handlers and \<open>onDLQ\<close> hooks are parameters; \<open>'x\<close> is the part of the database they write.
  Timers that renew claims and leases are the statements \<open>Q_renew\<close> and \<open>renewLease\<close> of the
  repositories; metrics and log lines are left out.
\<close>

datatype QueueTier = Tier_interactive | Tier_light | Tier_heavy

definition DEFAULT_TIER :: QueueTier where "DEFAULT_TIER = Tier_interactive"

definition SPEND_DENIAL_DEFER_MS :: int where "SPEND_DENIAL_DEFER_MS = 30 * 60 * 1000"

record QueueManagerConfig =
  mc_lockDurationMs :: int
  mc_maxRetries :: int
  mc_baseBackoffMs :: rat
  mc_claimBatchSize :: int
  mc_pollIntervalMs :: int
  mc_tierBudgets :: "(QueueTier \<times> int) list"
  mc_legacyTierBudget :: int
  mc_managerId :: string

record HandlerOptions =
  ho_tier :: "QueueTier option"
  ho_fairness :: "Fairness option"
  ho_maxRetries :: "int option"

text \<open>The mutable per-tier state; \<open>ts_availableSlots\<close> is the local of the suspended \<open>fillSlots\<close>.\<close>

record TierRuntimeState =
  ts_tier :: QueueTier
  ts_budget :: int
  ts_fairness :: Fairness
  ts_queueNames :: "string list"
  ts_activeTokens :: "string list"
  ts_refillTimer :: bool
  ts_cycleExhausted :: bool
  ts_fillInProgress :: bool
  ts_availableSlots :: int

record ManagerState =
  ms_config :: QueueManagerConfig
  ms_handlers :: "string list"
  ms_handlerTiers :: "(string \<times> QueueTier) list"
  ms_handlerFairness :: "(string \<times> Fairness) list"
  ms_handlerMaxRetries :: "(string \<times> int) list"
  ms_isStarted :: bool
  ms_isStopping :: bool
  ms_pollTimer :: bool
  ms_tierState :: "((QueueTier \<times> Fairness) \<times> TierRuntimeState) list"

definition mkQueueManager :: "QueueManagerConfig \<Rightarrow> ManagerState" where
  "mkQueueManager cfg =
    \<lparr>ms_config = cfg, ms_handlers = [], ms_handlerTiers = [], ms_handlerFairness = [], ms_handlerMaxRetries = [],
     ms_isStarted = False, ms_isStopping = False, ms_pollTimer = False, ms_tierState = []\<rparr>"

definition registerHandler :: "string \<Rightarrow> HandlerOptions \<Rightarrow> ManagerState \<Rightarrow> string + ManagerState" where
  "registerHandler queueName opts s =
    (if ms_isStarted s then Inl (''Cannot register handler for '' @ queueName @ '': queue already started'')
     else Inr (s\<lparr>
       ms_handlers := (if queueName \<in> set (ms_handlers s) then ms_handlers s else ms_handlers s @ [queueName]),
       ms_handlerTiers := AList.update queueName
         (case ho_tier opts of None \<Rightarrow> DEFAULT_TIER | Some t \<Rightarrow> t) (ms_handlerTiers s),
       ms_handlerFairness := AList.update queueName
         (case ho_fairness opts of None \<Rightarrow> Fair_none | Some f \<Rightarrow> f) (ms_handlerFairness s),
       ms_handlerMaxRetries := (case ho_maxRetries opts of None \<Rightarrow> ms_handlerMaxRetries s
         | Some n \<Rightarrow> AList.update queueName n (ms_handlerMaxRetries s))\<rparr>))"

definition tier_key :: "ManagerState \<Rightarrow> string \<Rightarrow> QueueTier \<times> Fairness" where
  "tier_key s queueName =
    (case map_of (ms_handlerTiers s) queueName of None \<Rightarrow> DEFAULT_TIER | Some t \<Rightarrow> t,
     case map_of (ms_handlerFairness s) queueName of None \<Rightarrow> Fair_none | Some f \<Rightarrow> f)"

definition buildTierState :: "ManagerState \<Rightarrow> ManagerState" where
  "buildTierState s =
    s\<lparr>ms_tierState := map (\<lambda>key.
        (key, \<lparr>ts_tier = fst key,
          ts_budget = (case map_of (mc_tierBudgets (ms_config s)) (fst key) of
              None \<Rightarrow> mc_legacyTierBudget (ms_config s) | Some b \<Rightarrow> b),
          ts_fairness = snd key, ts_queueNames = filter (\<lambda>n. tier_key s n = key) (ms_handlers s),
          ts_activeTokens = [], ts_refillTimer = False, ts_cycleExhausted = False, ts_fillInProgress = False,
          ts_availableSlots = 0\<rparr>)) (js_dedup (map (tier_key s) (ms_handlers s)))\<rparr>"

section \<open>Filling the slots of a tier\<close>

text \<open>\<open>fillSlots\<close> up to the await of \<open>batchLeaseTokens\<close>; the result says whether a lease is asked for.\<close>

definition fillSlots_begin :: "bool \<Rightarrow> TierRuntimeState \<Rightarrow> TierRuntimeState \<times> bool" where
  "fillSlots_begin stopping t =
    (if stopping \<or> ts_cycleExhausted t \<or> ts_fillInProgress t then (t, False)
     else let availableSlots = ts_budget t - int (length (ts_activeTokens t))
       in if availableSlots \<le> 0 then (t, False)
          else (t\<lparr>ts_fillInProgress := True, ts_availableSlots := availableSlots\<rparr>, True))"

definition lease_params :: "QueueManagerConfig \<Rightarrow> timestamp \<Rightarrow> TierRuntimeState \<Rightarrow> BatchLeaseTokensParams" where
  "lease_params cfg now t =
    \<lparr>lt_leasedBy = mc_managerId cfg, lt_leasedAt = now, lt_leasedUntil = now + mc_lockDurationMs cfg, lt_now = now,
     lt_limit = ts_availableSlots t, lt_queueNames = ts_queueNames t, lt_fairnessMode = Some (ts_fairness t)\<rparr>"

definition fillSlots_end :: "QueueToken list \<Rightarrow> TierRuntimeState \<Rightarrow> TierRuntimeState" where
  "fillSlots_end tokens t =
    (if tokens = [] then t\<lparr>ts_cycleExhausted := True, ts_fillInProgress := False\<rparr>
     else t\<lparr>ts_activeTokens := ts_activeTokens t @ map qt_id tokens, ts_fillInProgress := False\<rparr>)"

definition fillSlots_throw :: "TierRuntimeState \<Rightarrow> TierRuntimeState" where
  "fillSlots_throw t = t\<lparr>ts_fillInProgress := False\<rparr>"

definition debouncedFillSlots :: "bool \<Rightarrow> TierRuntimeState \<Rightarrow> TierRuntimeState" where
  "debouncedFillSlots stopping t =
    (if stopping \<or> ts_cycleExhausted t then t else t\<lparr>ts_refillTimer := True\<rparr>)"

text \<open>The \<open>finally\<close> of \<open>processToken\<close>.\<close>

definition token_settled :: "bool \<Rightarrow> string \<Rightarrow> TierRuntimeState \<Rightarrow> TierRuntimeState" where
  "token_settled stopping i t =
    debouncedFillSlots stopping (t\<lparr>ts_activeTokens := remove1 i (ts_activeTokens t)\<rparr>)"

definition update_tier ::
  "(QueueTier \<times> Fairness) \<Rightarrow> (TierRuntimeState \<Rightarrow> TierRuntimeState) \<Rightarrow> ManagerState \<Rightarrow> ManagerState" where
  "update_tier key f s = s\<lparr>ms_tierState := map (\<lambda>(k, t). (k, if k = key then f t else t)) (ms_tierState s)\<rparr>"

definition scheduleNextCycle :: "ManagerState \<Rightarrow> ManagerState" where
  "scheduleNextCycle s = (if ms_isStopping s then s else s\<lparr>ms_pollTimer := True\<rparr>)"

text \<open>\<open>runCycle\<close> up to the awaits: every tier gets another chance and starts to fill.\<close>

definition runCycle_begin :: "ManagerState \<Rightarrow> ManagerState" where
  "runCycle_begin s =
    (if ms_isStopping s then s
     else if ms_tierState s = [] then scheduleNextCycle s
     else s\<lparr>ms_tierState := map (\<lambda>(k, t). (k, fst (fillSlots_begin False (t\<lparr>ts_cycleExhausted := False\<rparr>))))
            (ms_tierState s)\<rparr>)"

definition manager_start :: "ManagerState \<Rightarrow> string + ManagerState" where
  "manager_start s =
    (if ms_isStarted s then Inl ''QueueManager already started''
     else Inr (runCycle_begin (buildTierState (s\<lparr>ms_isStarted := True\<rparr>))))"

definition manager_stop :: "ManagerState \<Rightarrow> ManagerState \<times> string list" where
  "manager_stop s =
    (if ms_isStopping s then (s, [])
     else (s\<lparr>ms_isStopping := True, ms_pollTimer := False,
             ms_tierState := map (\<lambda>(k, t). (k, t\<lparr>ts_refillTimer := False\<rparr>)) (ms_tierState s)\<rparr>,
           concat (map (\<lambda>(k, t). ts_activeTokens t) (ms_tierState s))))"

inductive manager_step :: "ManagerState \<Rightarrow> ManagerState \<Rightarrow> bool" where
  step_register: "registerHandler n opts s = Inr s' \<Longrightarrow> manager_step s s'"
| step_start: "manager_start s = Inr s' \<Longrightarrow> manager_step s s'"
| step_leased: "(key, t) \<in> set (ms_tierState s) \<Longrightarrow> ts_fillInProgress t \<Longrightarrow>
    tokens = snd (batchLeaseTokens (lease_params (ms_config s) now t) ids q toks) \<Longrightarrow>
    manager_step s (update_tier key (fillSlots_end tokens) s)"
| step_lease_failed: "(key, t) \<in> set (ms_tierState s) \<Longrightarrow> ts_fillInProgress t \<Longrightarrow>
    manager_step s (update_tier key fillSlots_throw s)"
| step_refill_failed: "(key, t) \<in> set (ms_tierState s) \<Longrightarrow> ts_fillInProgress t \<Longrightarrow>
    manager_step s (update_tier key (\<lambda>t. (fillSlots_throw t)\<lparr>ts_cycleExhausted := True\<rparr>) s)"
| step_settled: "(key, t) \<in> set (ms_tierState s) \<Longrightarrow> i \<in> set (ts_activeTokens t) \<Longrightarrow>
    manager_step s (update_tier key (token_settled (ms_isStopping s) i) s)"
| step_refill: "(key, t) \<in> set (ms_tierState s) \<Longrightarrow> ts_refillTimer t \<Longrightarrow>
    manager_step s (update_tier key (\<lambda>t. fst (fillSlots_begin (ms_isStopping s) (t\<lparr>ts_refillTimer := False\<rparr>))) s)"
| step_cycle_done: "manager_step s (scheduleNextCycle s)"
| step_poll: "ms_pollTimer s \<Longrightarrow> manager_step s (runCycle_begin (s\<lparr>ms_pollTimer := False\<rparr>))"
| step_stop: "manager_step s (fst (manager_stop s))"

inductive_cases manager_stepE: "manager_step s s'"

section \<open>The token budget\<close>

definition tier_ok :: "TierRuntimeState \<Rightarrow> bool" where
  "tier_ok t \<longleftrightarrow> 0 \<le> ts_budget t \<longrightarrow>
    int (length (ts_activeTokens t)) + (if ts_fillInProgress t then ts_availableSlots t else 0) \<le> ts_budget t \<and>
    (ts_fillInProgress t \<longrightarrow> 0 \<le> ts_availableSlots t)"

definition manager_inv :: "ManagerState \<Rightarrow> bool" where
  "manager_inv s \<longleftrightarrow> distinct (map fst (ms_tierState s)) \<and> (\<forall>(k, t)\<in>set (ms_tierState s). tier_ok t)"

lemma lease_length: "length (snd (batchLeaseTokens p ids q toks)) \<le> nat (lt_limit p)"
proof -
  have "length (snd (batchLeaseTokens p ids q toks)) \<le> length (selected_pairs
      (case lt_fairnessMode p of None \<Rightarrow> Fair_workspace | Some f \<Rightarrow> f) (lt_now p) (lt_limit p) (lt_queueNames p) q toks)"
    by (simp add: batchLeaseTokens_def Let_def)
  then show ?thesis using length_selected_pairs order_trans by blast
qed

lemma fillSlots_begin_ok [step_inv]: "tier_ok t \<Longrightarrow> tier_ok (fst (fillSlots_begin b t))"
  by (auto simp: tier_ok_def fillSlots_begin_def Let_def)

lemma fillSlots_begin_exhausted: "tier_ok (t\<lparr>ts_cycleExhausted := b\<rparr>) = tier_ok t" "tier_ok (t\<lparr>ts_refillTimer := b\<rparr>) = tier_ok t"
  by (simp_all add: tier_ok_def)

lemma fillSlots_end_ok [step_inv]:
  assumes "tier_ok t" and "ts_fillInProgress t" and "length tokens \<le> nat (ts_availableSlots t)"
  shows "tier_ok (fillSlots_end tokens t)"
proof -
  have "int (length tokens) \<le> ts_availableSlots t" if "0 \<le> ts_availableSlots t" using assms(3) that by simp
  with assms(1,2) show ?thesis by (auto simp: tier_ok_def fillSlots_end_def)
qed

lemma fillSlots_throw_ok [step_inv]: "tier_ok t \<Longrightarrow> tier_ok (fillSlots_throw t)"
  by (auto simp: tier_ok_def fillSlots_throw_def split: if_splits)

lemma token_settled_ok [step_inv]: "tier_ok t \<Longrightarrow> tier_ok (token_settled b i t)"
proof -
  have "length (remove1 i (ts_activeTokens t)) \<le> length (ts_activeTokens t)" by (simp add: length_remove1)
  then show "tier_ok t \<Longrightarrow> ?thesis"
    by (auto simp: tier_ok_def token_settled_def debouncedFillSlots_def)
qed

lemma fst_keep [simp]: "fst \<circ> (\<lambda>(k, t). (k, f k t)) = fst"
  by auto

lemma update_tier_inv:
  assumes "manager_inv s" and "(key, t) \<in> set (ms_tierState s)" and "tier_ok t \<Longrightarrow> tier_ok (f t)"
  shows "manager_inv (update_tier key f s)"
proof -
  have dist: "distinct (map fst (ms_tierState s))" and ok: "\<And>k t. (k, t) \<in> set (ms_tierState s) \<Longrightarrow> tier_ok t"
    using assms(1) by (auto simp: manager_inv_def)
  have "tier_ok (if k = key then f t' else t')" if "(k, t') \<in> set (ms_tierState s)" for k t'
    using that ok assms(2,3) eq_key_imp_eq_value [OF dist, of key t' t] by auto
  with dist show ?thesis by (auto simp: manager_inv_def update_tier_def)
qed

lemma map_tiers_inv:
  assumes "manager_inv s" and "\<And>t. tier_ok t \<Longrightarrow> tier_ok (f t)"
  shows "manager_inv (s\<lparr>ms_tierState := map (\<lambda>(k, t). (k, f t)) (ms_tierState s)\<rparr>)"
  using assms by (auto simp: manager_inv_def)

lemma manager_inv_frame [simp]:
  "manager_inv (s\<lparr>ms_pollTimer := b\<rparr>) = manager_inv s" "manager_inv (s\<lparr>ms_isStopping := b\<rparr>) = manager_inv s"
  by (simp_all add: manager_inv_def)

lemma runCycle_inv: "manager_inv s \<Longrightarrow> manager_inv (runCycle_begin s)"
  unfolding runCycle_begin_def
  by (auto simp: scheduleNextCycle_def intro!: map_tiers_inv fillSlots_begin_ok simp: fillSlots_begin_exhausted)

lemma buildTierState_inv: "manager_inv (buildTierState s)"
  by (auto simp: manager_inv_def buildTierState_def tier_ok_def comp_def)

lemma manager_inv_step: "manager_step s s' \<Longrightarrow> manager_inv s \<Longrightarrow> manager_inv s'"
proof (induction rule: manager_step.induct)
  case (step_register n opts s s')
  then show ?case by (auto simp: registerHandler_def manager_inv_def split: if_splits)
next
  case (step_start s s')
  then show ?case by (auto simp: manager_start_def split: if_splits intro!: runCycle_inv buildTierState_inv)
next
  case (step_leased key t s tokens now ids q toks)
  have "length tokens \<le> nat (ts_availableSlots t)"
    using lease_length [of "lease_params (ms_config s) now t" ids q toks] step_leased(3) by (simp add: lease_params_def)
  with step_leased show ?case by (intro update_tier_inv [of s key t] fillSlots_end_ok) auto
next
  case (step_refill_failed key t s)
  then show ?case
    by (intro update_tier_inv [of s key t]) (auto simp: fillSlots_begin_exhausted fillSlots_throw_ok)
next
  case (step_refill key t s)
  then show ?case
    by (intro update_tier_inv [of s key t] fillSlots_begin_ok) (auto simp: fillSlots_begin_exhausted)
next
  case (step_stop s)
  then show ?case
    using map_tiers_inv [of s "\<lambda>t. t\<lparr>ts_refillTimer := False\<rparr>"]
    by (auto simp: manager_stop_def fillSlots_begin_exhausted manager_inv_def)
qed (auto intro: update_tier_inv fillSlots_throw_ok token_settled_ok runCycle_inv simp: scheduleNextCycle_def)


definition ex_manager :: QueueManagerConfig where
  "ex_manager = \<lparr>mc_lockDurationMs = 10000, mc_maxRetries = 3, mc_baseBackoffMs = 500, mc_claimBatchSize = 20,
     mc_pollIntervalMs = 500, mc_tierBudgets = [(Tier_heavy, 2)], mc_legacyTierBudget = 5, mc_managerId = ''m''\<rparr>"

definition ex_heavy :: HandlerOptions where
  "ex_heavy = \<lparr>ho_tier = Some Tier_heavy, ho_fairness = None, ho_maxRetries = None\<rparr>"

definition ex_started :: ManagerState where
  "ex_started = or_unchanged (mkQueueManager ex_manager)
    (manager_start (or_unchanged (mkQueueManager ex_manager)
      (registerHandler ''embedding.generate'' ex_heavy (mkQueueManager ex_manager))))"

lemma ex_started_reachable: "manager_step\<^sup>*\<^sup>* (mkQueueManager ex_manager) ex_started"
proof -
  let ?s1 = "or_unchanged (mkQueueManager ex_manager) (registerHandler ''embedding.generate'' ex_heavy (mkQueueManager ex_manager))"
  have "manager_step (mkQueueManager ex_manager) ?s1"
    by (rule step_register [of "''embedding.generate''" ex_heavy]) (simp add: registerHandler_def mkQueueManager_def)
  moreover have "manager_step ?s1 ex_started"
    by (rule step_start) (simp add: ex_started_def manager_start_def registerHandler_def mkQueueManager_def)
  ultimately show ?thesis by (meson rtranclp.intros)
qed


text \<open>
  \<open>stop\<close> collects the tokens to wait for while a \<open>fillSlots\<close> may be suspended in its lease query;
  the tokens that query returns are started afterwards, and nobody waits for them.
\<close>

lemma stop_misses_late_tokens:
  "let (s1, waited) = manager_stop ex_started;
       late = snd (batchLeaseTokens (lease_params ex_manager 50 (snd (hd (ms_tierState s1)))) [''t1'', ''t2''] ex_queue []);
       s2 = update_tier (Tier_heavy, Fair_none) (fillSlots_end late) s1
   in ms_isStopping s2 \<and> waited = [] \<and> map (\<lambda>(k, t). ts_activeTokens t) (ms_tierState s2) = [[''t1'', ''t2'']]"
  by code_simp

section \<open>Sending\<close>

datatype send_error = Invalid_job_data string | Insert_failed queue_error

definition extractWorkspaceId :: "string \<Rightarrow> json \<Rightarrow> send_error + string" where
  "extractWorkspaceId queueName data =
    (case data of
       JObj fs \<Rightarrow> (case map_of fs ''workspaceId'' of
           Some (JStr w) \<Rightarrow> if w = [] then Inl (Invalid_job_data queueName) else Inr w
         | _ \<Rightarrow> Inl (Invalid_job_data queueName))
     | _ \<Rightarrow> Inl (Invalid_job_data queueName))"

text \<open>\<open>freshId\<close> is what \<open>queueId()\<close> returns; a caller's own \<open>messageId\<close> makes the send idempotent.\<close>

definition send ::
  "string \<Rightarrow> json \<Rightarrow> timestamp option \<Rightarrow> string option \<Rightarrow> string \<Rightarrow> timestamp \<Rightarrow> queue_table
    \<Rightarrow> send_error + (queue_table \<times> string)" where
  "send queueName data processAfter messageId freshId now q =
    (case extractWorkspaceId queueName data of
       Inl e \<Rightarrow> Inl e
     | Inr workspaceId \<Rightarrow>
        (let mid = (case messageId of None \<Rightarrow> freshId | Some i \<Rightarrow> i);
             after = (case processAfter of None \<Rightarrow> now | Some t \<Rightarrow> t)
         in case queue_insert q \<lparr>ip_id = mid, ip_queueName = queueName, ip_workspaceId = workspaceId,
                ip_payload = data, ip_processAfter = after, ip_insertedAt = now\<rparr> of
              Inr (q', _) \<Rightarrow> Inr (q', mid)
            | Inl e \<Rightarrow> (case messageId of
                 Some i \<Rightarrow> if i \<noteq> [] then Inr (q, mid) else Inl (Insert_failed e)
               | None \<Rightarrow> Inl (Insert_failed e))))"

text \<open>
  Sending with an id of the caller's choice is idempotent: a second send with the same id, whatever
  its payload and delay, succeeds, returns the same id and leaves the queue as it was.
\<close>

theorem send_with_id_is_idempotent:
  assumes "send n data after (Some i) fresh now q = Inr (q1, j)" and "i \<noteq> []"
    and "extractWorkspaceId n' data' = Inr ws"
  shows "j = i \<and> send n' data' after' (Some i) fresh' now' q1 = Inr (q1, i) \<and>
    (\<exists>m\<in>set q1. qm_id m = i)"
proof -
  have ij: "j = i" and mem: "i \<in> set (map qm_id q1)"
    using assms(1,2) by (auto simp: send_def Let_def queue_insert_def split: sum.splits if_splits)
  then have "send n' data' after' (Some i) fresh' now' q1 = Inr (q1, i)"
    using assms(2,3) by (simp add: send_def Let_def queue_insert_def)
  with ij mem show ?thesis by auto
qed

theorem send_with_id_is_idempotent_witness:
  "let data = JObj [(''workspaceId'', JStr ''ws_1'')];
       q1 = fst (projr (send ''unfurl'' data None (Some ''reminder_1'') ''f'' 10 []))
   in send ''unfurl'' data (Some 99) (Some ''reminder_1'') ''g'' 20 q1 = Inr (q1, ''reminder_1'') \<and> length q1 = 1"
proof -
  let ?data = "JObj [(''workspaceId'', JStr ''ws_1'')]"
  let ?r = "send ''unfurl'' ?data None (Some ''reminder_1'') ''f'' 10 []"
  have h: "?r = Inr (fst (projr ?r), ''reminder_1'')" "extractWorkspaceId ''unfurl'' ?data = Inr ''ws_1''"
    "length (fst (projr ?r)) = 1" by code_simp+
  from send_with_id_is_idempotent [OF h(1) _ h(2)] h(3) show ?thesis by (simp add: Let_def)
qed

section \<open>Processing a claimed message\<close>

datatype job_outcome = Job_ok | Job_spend_denied string | Job_error string

text \<open>A hook may write; its writes are undone when it throws, and the move to the dead-letter queue stands.\<close>

type_synonym 'x dlq_hook = "QueueMessage \<Rightarrow> string \<Rightarrow> 'x \<Rightarrow> string + 'x"

definition moveMessageToDlq ::
  "'x dlq_hook option \<Rightarrow> QueueMessage \<Rightarrow> string \<Rightarrow> string \<Rightarrow> timestamp \<Rightarrow> queue_table \<times> 'x
    \<Rightarrow> queue_error + (queue_table \<times> 'x)" where
  "moveMessageToDlq hook m workerId err now s =
    (case s of (q, x) \<Rightarrow>
      (case queue_failDlq (qm_id m) workerId err now q of
         Inl e \<Rightarrow> Inl e
       | Inr q' \<Rightarrow> Inr (q', case hook of
             None \<Rightarrow> x
           | Some h \<Rightarrow> (case h m err x of Inl _ \<Rightarrow> x | Inr x' \<Rightarrow> x'))))"

definition retryMessage ::
  "QueueManagerConfig \<Rightarrow> rat \<Rightarrow> string \<Rightarrow> string \<Rightarrow> string \<Rightarrow> int \<Rightarrow> timestamp \<Rightarrow> queue_table \<Rightarrow> queue_error + queue_table" where
  "retryMessage cfg rnd messageId workerId err newFailedCount now q =
    queue_fail messageId workerId err
      (js_Date (of_int now + calculateBackoffMs (backoff_opts (mc_baseBackoffMs cfg) newFailedCount rnd))) q"

definition max_retries_for :: "ManagerState \<Rightarrow> string \<Rightarrow> int" where
  "max_retries_for s queueName =
    (case map_of (ms_handlerMaxRetries s) queueName of None \<Rightarrow> mc_maxRetries (ms_config s) | Some n \<Rightarrow> n)"

text \<open>The \<open>catch\<close> block of \<open>processMessage\<close>.\<close>

definition handle_failure ::
  "ManagerState \<Rightarrow> 'x dlq_hook option \<Rightarrow> rat \<Rightarrow> timestamp \<Rightarrow> QueueMessage \<Rightarrow> string \<Rightarrow> job_outcome \<Rightarrow> queue_table \<times> 'x
    \<Rightarrow> queue_error + (queue_table \<times> 'x)" where
  "handle_failure ms hook rnd now m workerId failure s =
    (case s of (q, x) \<Rightarrow>
      (case failure of
         Job_spend_denied reason \<Rightarrow>
           map_sum id (\<lambda>q'. (q', x)) (queue_defer (qm_id m) workerId reason (now + SPEND_DENIAL_DEFER_MS) q)
       | Job_ok \<Rightarrow> Inr s
       | Job_error err \<Rightarrow>
           (let newFailedCount = qm_failedCount m + 1
            in if newFailedCount \<ge> max_retries_for ms (qm_queueName m)
               then moveMessageToDlq hook m workerId err now s
               else map_sum id (\<lambda>q'. (q', x)) (retryMessage (ms_config ms) rnd (qm_id m) workerId err newFailedCount now q))))"

text \<open>\<open>completeMessage\<close> is inside the \<open>try\<close>: when it throws, its error takes the failure path too.\<close>

definition processMessage ::
  "ManagerState \<Rightarrow> 'x dlq_hook option \<Rightarrow> rat \<Rightarrow> timestamp \<Rightarrow> QueueMessage \<Rightarrow> string \<Rightarrow> job_outcome \<Rightarrow> queue_table \<times> 'x
    \<Rightarrow> queue_error + (queue_table \<times> 'x)" where
  "processMessage ms hook rnd now m workerId outcome s =
    (case outcome of
       Job_ok \<Rightarrow>
         (case queue_complete (qm_id m) workerId now (fst s) of
            Inr q' \<Rightarrow> Inr (q', snd s)
          | Inl e \<Rightarrow> handle_failure ms hook rnd now m workerId (Job_error ''Failed to complete message'') s)
     | _ \<Rightarrow> handle_failure ms hook rnd now m workerId outcome s)"

text \<open>
  \<open>processMessagesForToken\<close>: claim a batch, then process each message; an error that escapes
  \<open>processMessage\<close> is dropped.  What happens around one message is a \<open>MessageEnv\<close>: whether the
  renewal timer fires before the message is finished, and the clock, outcome and random draw the
  processing sees.  The callback of the renewal timer renews the claims not yet in
  \<open>completedMessageIds\<close>, which collects the messages completed or dead-lettered.
\<close>

record MessageEnv =
  me_renewAt :: "timestamp option"
  me_now :: timestamp
  me_outcome :: job_outcome
  me_random :: rat

definition message_renewal ::
  "QueueManagerConfig \<Rightarrow> string list \<Rightarrow> string list \<Rightarrow> string \<Rightarrow> timestamp \<Rightarrow> queue_table \<Rightarrow> queue_table" where
  "message_renewal cfg messageIds completedMessageIds workerId now q =
    (let idsToRenew = filter (\<lambda>i. i \<notin> set completedMessageIds) messageIds
     in if idsToRenew = [] then q else fst (batchRenewClaims idsToRenew workerId (now + mc_lockDurationMs cfg) q))"

definition no_longer_renewed ::
  "ManagerState \<Rightarrow> QueueMessage \<Rightarrow> job_outcome \<Rightarrow> queue_error + (queue_table \<times> 'x) \<Rightarrow> bool" where
  "no_longer_renewed ms m outcome r \<longleftrightarrow>
    (case r of
       Inl _ \<Rightarrow> False
     | Inr _ \<Rightarrow> (case outcome of
           Job_ok \<Rightarrow> True
         | Job_spend_denied _ \<Rightarrow> False
         | Job_error _ \<Rightarrow> qm_failedCount m + 1 \<ge> max_retries_for ms (qm_queueName m)))"

fun process_claimed ::
  "ManagerState \<Rightarrow> (QueueMessage \<Rightarrow> 'x dlq_hook option) \<Rightarrow> (QueueMessage \<Rightarrow> MessageEnv) \<Rightarrow> string \<Rightarrow> string list
    \<Rightarrow> string list \<Rightarrow> QueueMessage list \<Rightarrow> queue_table \<times> 'x \<Rightarrow> queue_table \<times> 'x" where
  "process_claimed ms hooks env workerId messageIds completed [] s = s"
| "process_claimed ms hooks env workerId messageIds completed (m # messages) s =
    (let e = env m;
         s1 = (case me_renewAt e of
                 None \<Rightarrow> s
               | Some t \<Rightarrow> (message_renewal (ms_config ms) messageIds completed workerId t (fst s), snd s));
         r = processMessage ms (hooks m) (me_random e) (me_now e) m workerId (me_outcome e) s1
     in process_claimed ms hooks env workerId messageIds
          (if no_longer_renewed ms m (me_outcome e) r then qm_id m # completed else completed) messages
          (or_unchanged s1 r))"

definition claim_params :: "QueueManagerConfig \<Rightarrow> timestamp \<Rightarrow> string \<Rightarrow> QueueToken \<Rightarrow> ClaimParams" where
  "claim_params cfg now workerId token =
    \<lparr>cp_queueName = qt_queueName token, cp_workspaceId = qt_workspaceId token, cp_claimedBy = workerId,
     cp_claimedAt = now, cp_claimedUntil = now + mc_lockDurationMs cfg, cp_now = now,
     cp_limit = mc_claimBatchSize cfg\<rparr>"

definition processMessagesForToken ::
  "ManagerState \<Rightarrow> (QueueMessage \<Rightarrow> 'x dlq_hook option) \<Rightarrow> (QueueMessage \<Rightarrow> MessageEnv) \<Rightarrow> timestamp \<Rightarrow> string
    \<Rightarrow> (string \<Rightarrow> bool) \<Rightarrow> QueueToken \<Rightarrow> queue_table \<times> 'x \<Rightarrow> queue_table \<times> 'x" where
  "processMessagesForToken ms hooks env now workerId locked token s =
    (let (q, messages) = batchClaimMessages locked (claim_params (ms_config ms) now workerId token) (fst s)
     in process_claimed ms hooks env workerId (map qm_id messages) [] messages (q, snd s))"

text \<open>\<open>processToken\<close>: the token is released in the \<open>finally\<close>; \<open>deleteToken\<close> may throw, which the caller logs.\<close>

definition processToken ::
  "ManagerState \<Rightarrow> (QueueMessage \<Rightarrow> 'x dlq_hook option) \<Rightarrow> (QueueMessage \<Rightarrow> MessageEnv) \<Rightarrow> timestamp \<Rightarrow> string
    \<Rightarrow> (string \<Rightarrow> bool) \<Rightarrow> QueueToken \<Rightarrow> (queue_table \<times> 'x) \<times> token_table \<Rightarrow> (queue_table \<times> 'x) \<times> token_table" where
  "processToken ms hooks env now workerId locked token s =
    (processMessagesForToken ms hooks env now workerId locked token (fst s),
     or_unchanged (snd s) (deleteToken (qt_id token) (mc_managerId (ms_config ms)) (snd s)))"

text \<open>What becomes of the row \<open>r\<close> of a message read as \<open>m\<close>, by the outcome of its handler.\<close>

definition settled_as ::
  "ManagerState \<Rightarrow> rat \<Rightarrow> timestamp \<Rightarrow> QueueMessage \<Rightarrow> job_outcome \<Rightarrow> QueueMessage \<Rightarrow> bool" where
  "settled_as ms rnd now m outcome m' \<longleftrightarrow>
    qm_claimedBy m' = None \<and> qm_claimedUntil m' = None \<and>
    (case outcome of
       Job_ok \<Rightarrow> qm_completedAt m' = Some now \<and> qm_failedCount m' = qm_failedCount m
     | Job_spend_denied reason \<Rightarrow> \<not> terminal m' \<and> qm_processAfter m' = Some (now + 1800000) \<and>
         qm_failedCount m' = qm_failedCount m \<and> qm_lastError m' = Some reason
     | Job_error err \<Rightarrow>
         qm_lastError m' = Some err \<and>
         (if qm_failedCount m + 1 \<ge> max_retries_for ms (qm_queueName m)
          then qm_dlqAt m' = Some now \<and> qm_processAfter m' = None
          else \<not> terminal m' \<and> qm_failedCount m' = qm_failedCount m + 1 \<and>
            qm_processAfter m' = Some (js_Date (of_int now + calculateBackoffMs
              (backoff_opts (mc_baseBackoffMs (ms_config ms)) (qm_failedCount m + 1) rnd)))))"

lemma update_claimed_hit:
  assumes "distinct (map qm_id q)" and "m \<in> set q" and "qm_claimedBy m = Some w" and "g m"
    and "\<And>m. qm_id (f m) = qm_id m"
  shows "\<exists>q'. update_claimed (qm_id m) w g f q = Inr q' \<and> getById (qm_id m) q' = Some (f m) \<and>
    (\<forall>i. i \<noteq> qm_id m \<longrightarrow> getById i q' = getById i q)"
proof -
  let ?hit = "\<lambda>m'. qm_id m' = qm_id m \<and> qm_claimedBy m' = Some w \<and> g m'"
  have "sql_count ?hit q \<noteq> 0" using assms(2-4) by (auto simp: sql_count_0_iff)
  moreover have "find (\<lambda>m'. qm_id m' = qm_id m) q = Some m" using assms(1,2) by (simp add: find_Some_iff_key)
  then have "getById (qm_id m) (sql_update ?hit f q) = Some (f m)"
    using find_sql_update [of qm_id f "qm_id m" "\<lambda>m'. qm_claimedBy m' = Some w \<and> g m'" q] assms(3-5)
    by (simp add: getById_def)
  moreover have "getById i (sql_update ?hit f q) = getById i q" if "i \<noteq> qm_id m" for i
    using find_sql_update_other [of qm_id f i "qm_id m" "\<lambda>m'. qm_claimedBy m' = Some w \<and> g m'" q] assms(5) that
    by (simp add: getById_def)
  ultimately show ?thesis by (simp add: update_claimed_def Let_def)
qed

lemma update_claimed_lost:
  assumes "\<forall>m\<in>set q. qm_id m = i \<longrightarrow> qm_claimedBy m \<noteq> Some w"
  shows "update_claimed i w g f q = Inl (Not_found_or_wrong_claim i)"
  using assms by (auto simp: update_claimed_def Let_def sql_count_0_iff)

lemma live_claimed:
  assumes "queue_inv q" and "m \<in> set q" and "qm_claimedBy m = Some w"
  shows "qm_completedAt m = None" "qm_dlqAt m = None" "qm_cancelledAt m = None" "distinct (map qm_id q)"
  using assms by (auto simp: queue_inv_def message_wf_def terminal_def)

lemma queue_stmt_inv:
  "queue_inv q \<Longrightarrow> queue_complete i w t q = Inr q' \<Longrightarrow> queue_inv q'"
  "queue_inv q \<Longrightarrow> queue_defer i w r t q = Inr q' \<Longrightarrow> queue_inv q'"
  "queue_inv q \<Longrightarrow> queue_fail i w r t q = Inr q' \<Longrightarrow> queue_inv q'"
  "queue_inv q \<Longrightarrow> queue_failDlq i w r t q = Inr q' \<Longrightarrow> queue_inv q'"
  using queue_exec_inv [of q "Q_complete i w t"] queue_exec_inv [of q "Q_defer i w r t"]
    queue_exec_inv [of q "Q_fail i w r t"] queue_exec_inv [of q "Q_failDlq i w r t"] by auto

definition last_attempt :: "ManagerState \<Rightarrow> QueueMessage \<Rightarrow> job_outcome \<Rightarrow> bool" where
  "last_attempt ms m outcome \<longleftrightarrow>
    (case outcome of Job_error _ \<Rightarrow> qm_failedCount m + 1 \<ge> max_retries_for ms (qm_queueName m) | _ \<Rightarrow> False)"

lemma claimed_outcome:
  assumes inv: "queue_inv q" and r: "r \<in> set q" "qm_claimedBy r = Some w" "qm_id r = qm_id m"
    and count: "qm_failedCount r = qm_failedCount m"
  shows "\<exists>q' x' m'. processMessage ms hook rnd now m w outcome (q, x) = Inr (q', x') \<and> queue_inv q' \<and>
    getById (qm_id m) q' = Some m' \<and> settled_as ms rnd now m outcome m' \<and>
    (\<forall>i. i \<noteq> qm_id m \<longrightarrow> getById i q' = getById i q) \<and> (\<not> last_attempt ms m outcome \<longrightarrow> x' = x)"
proof -
  note live = live_claimed [OF inv r(1,2)]
  note hit = update_claimed_hit [OF live(4) r(1,2), unfolded r(3)]
  note stmt = queue_stmt_inv [OF inv]
  show ?thesis
  proof (cases outcome)
    case Job_ok
    let ?f = "\<lambda>m. m\<lparr>qm_completedAt := Some now, qm_processAfter := None, qm_claimedBy := None, qm_claimedUntil := None\<rparr>"
    from hit [of "\<lambda>m. qm_completedAt m = None" ?f] live obtain q' where
      "queue_complete (qm_id m) w now q = Inr q'" "getById (qm_id m) q' = Some (?f r)"
      "\<forall>i. i \<noteq> qm_id m \<longrightarrow> getById i q' = getById i q" by (auto simp: queue_complete_def)
    with Job_ok count stmt(1) show ?thesis by (auto simp: processMessage_def settled_as_def)
  next
    case (Job_spend_denied reason)
    let ?f = "\<lambda>m. m\<lparr>qm_lastError := Some reason, qm_processAfter := Some (now + SPEND_DENIAL_DEFER_MS),
             qm_claimedBy := None, qm_claimedUntil := None\<rparr>"
    from hit [of "\<lambda>m. qm_completedAt m = None \<and> qm_dlqAt m = None" ?f] live obtain q' where
      "queue_defer (qm_id m) w reason (now + SPEND_DENIAL_DEFER_MS) q = Inr q'" "getById (qm_id m) q' = Some (?f r)"
      "\<forall>i. i \<noteq> qm_id m \<longrightarrow> getById i q' = getById i q" by (auto simp: queue_defer_def)
    with Job_spend_denied live count stmt(2) show ?thesis
      by (auto simp: processMessage_def handle_failure_def SPEND_DENIAL_DEFER_MS_def terminal_def settled_as_def)
  next
    case (Job_error err)
    let ?after = "js_Date (of_int now + calculateBackoffMs
        (backoff_opts (mc_baseBackoffMs (ms_config ms)) (qm_failedCount m + 1) rnd))"
    let ?d = "\<lambda>m. m\<lparr>qm_dlqAt := Some now, qm_lastError := Some err, qm_processAfter := None,
             qm_claimedBy := None, qm_claimedUntil := None\<rparr>"
    let ?r = "\<lambda>m. m\<lparr>qm_failedCount := qm_failedCount m + 1, qm_lastError := Some err,
             qm_processAfter := Some ?after, qm_claimedBy := None, qm_claimedUntil := None\<rparr>"
    from hit [of "\<lambda>m. qm_completedAt m = None \<and> qm_dlqAt m = None" ?d] live obtain q1 where dlq:
      "queue_failDlq (qm_id m) w err now q = Inr q1" "getById (qm_id m) q1 = Some (?d r)"
      "\<forall>i. i \<noteq> qm_id m \<longrightarrow> getById i q1 = getById i q" by (auto simp: queue_failDlq_def)
    from hit [of "\<lambda>m. qm_completedAt m = None \<and> qm_dlqAt m = None" ?r] live obtain q2 where retry:
      "queue_fail (qm_id m) w err ?after q = Inr q2" "getById (qm_id m) q2 = Some (?r r)"
      "\<forall>i. i \<noteq> qm_id m \<longrightarrow> getById i q2 = getById i q" by (auto simp: queue_fail_def)
    show ?thesis
    proof (cases "qm_failedCount m + 1 \<ge> max_retries_for ms (qm_queueName m)")
      case True
      with Job_error dlq stmt(4) show ?thesis
        by (auto simp: processMessage_def handle_failure_def moveMessageToDlq_def settled_as_def last_attempt_def)
    next
      case False
      with Job_error retry live count stmt(3) show ?thesis
        by (auto simp: processMessage_def handle_failure_def retryMessage_def terminal_def settled_as_def)
    qed
  qed
qed

text \<open>
  C6. What becomes of a claimed message, for every outcome of its handler: it is completed; or put
  back for thirty minutes without spending a retry when AI spending is denied; or, on an
  error, moved to the dead-letter queue exactly when this was the last permitted attempt, and
  otherwise scheduled again after the backoff with one more failure on its count.  In every
  case the claim is given up, no other message changes, and the hook of the dead-letter queue
  runs on the last attempt only.
\<close>

theorem claimed_message_outcome:
  assumes "queue_inv q" and "m \<in> set q" and "qm_claimedBy m = Some w"
  shows "\<exists>q' x' m'. processMessage ms hook rnd now m w outcome (q, x) = Inr (q', x') \<and>
    getById (qm_id m) q' = Some m' \<and> qm_claimedBy m' = None \<and> qm_claimedUntil m' = None \<and>
    (\<forall>i. i \<noteq> qm_id m \<longrightarrow> getById i q' = getById i q) \<and>
    (case outcome of
       Job_ok \<Rightarrow> qm_completedAt m' = Some now \<and> qm_failedCount m' = qm_failedCount m \<and> x' = x
     | Job_spend_denied reason \<Rightarrow> \<not> terminal m' \<and> qm_processAfter m' = Some (now + 1800000) \<and>
         qm_failedCount m' = qm_failedCount m \<and> qm_lastError m' = Some reason \<and> x' = x
     | Job_error err \<Rightarrow>
         qm_lastError m' = Some err \<and>
         (if qm_failedCount m + 1 \<ge> max_retries_for ms (qm_queueName m)
          then qm_dlqAt m' = Some now \<and> qm_processAfter m' = None
          else \<not> terminal m' \<and> qm_failedCount m' = qm_failedCount m + 1 \<and> x' = x \<and>
            qm_processAfter m' = Some (js_Date (of_int now + calculateBackoffMs
              (backoff_opts (mc_baseBackoffMs (ms_config ms)) (qm_failedCount m + 1) rnd)))))"
proof -
  from claimed_outcome [OF assms refl refl, of ms hook rnd now outcome x] obtain q' x' m' where
    "processMessage ms hook rnd now m w outcome (q, x) = Inr (q', x')" "getById (qm_id m) q' = Some m'"
    "settled_as ms rnd now m outcome m'" "\<forall>i. i \<noteq> qm_id m \<longrightarrow> getById i q' = getById i q"
    "\<not> last_attempt ms m outcome \<longrightarrow> x' = x" by blast
  then show ?thesis
    by (intro exI [of _ q'] exI [of _ x'] exI [of _ m'])
      (auto simp: settled_as_def last_attempt_def split: job_outcome.splits)
qed

theorem claimed_message_outcome_witness:
  "\<exists>q' m'. processMessage ex_started (None :: unit dlq_hook option) 0 60 (claim_message ''w'' 50 1050 (new_message (ex_insert ''q2'' 10))) ''w''
      (Job_error ''boom'') (ex_claimed, ()) = Inr (q', ()) \<and>
    getById ''q2'' q' = Some m' \<and> qm_claimedBy m' = None \<and> qm_failedCount m' = 1"
proof -
  let ?m = "claim_message ''w'' 50 1050 (new_message (ex_insert ''q2'' 10))"
  have h: "queue_inv ex_claimed" "?m \<in> set ex_claimed" "qm_claimedBy ?m = Some ''w''" "qm_id ?m = ''q2''"
    "\<not> qm_failedCount ?m + 1 \<ge> max_retries_for ex_started (qm_queueName ?m)" "qm_failedCount ?m = 0"
    by code_simp+
  from claimed_message_outcome [OF h(1-3), of ex_started None 0 60 "Job_error ''boom''" "()"] h(4-6)
  show ?thesis by auto
qed

text \<open>
  A worker that has lost its claim cannot touch the message any more: whatever its handler
  returned, completing, deferring, failing and dead-lettering all fail, no hook runs, and
  nothing is written.
\<close>

theorem lost_claim_writes_nothing:
  assumes "\<forall>m'\<in>set q. qm_id m' = qm_id m \<longrightarrow> qm_claimedBy m' \<noteq> Some w"
  shows "processMessage ms hook rnd now m w outcome (q, x) = Inl (Not_found_or_wrong_claim (qm_id m))"
  using update_claimed_lost [OF assms]
  by (simp add: processMessage_def handle_failure_def moveMessageToDlq_def retryMessage_def queue_complete_def
      queue_fail_def queue_defer_def queue_failDlq_def Let_def split: job_outcome.split)

theorem lost_claim_writes_nothing_witness:
  "processMessage ex_started (None :: unit dlq_hook option) 0 60 (new_message (ex_insert ''q2'' 10)) ''stale'' Job_ok (ex_claimed, ()) =
    Inl (Not_found_or_wrong_claim ''q2'')"
proof -
  have "\<forall>m'\<in>set ex_claimed. qm_id m' = qm_id (new_message (ex_insert ''q2'' 10)) \<longrightarrow> qm_claimedBy m' \<noteq> Some ''stale''"
    by code_simp
  from lost_claim_writes_nothing [OF this] show ?thesis by (simp add: ex_insert_def)
qed

section \<open>Processing a token\<close>

lemma getById_update:
  assumes "\<And>m. qm_id (f m) = qm_id m" and "distinct (map qm_id q)"
  shows "getById i (sql_update p f q) = map_option (\<lambda>m. if p m then f m else m) (getById i q)"
  using assms by (induction q) (auto simp: getById_def sql_update_def)

lemma getById_in: "getById i q = Some m \<Longrightarrow> m \<in> set q \<and> qm_id m = i"
  by (auto simp: getById_def find_Some_iff)

lemma getById_Some: "distinct (map qm_id q) \<Longrightarrow> m \<in> set q \<Longrightarrow> getById (qm_id m) q = Some m"
  by (induction q) (auto simp: getById_def)

lemma message_renewal_inv: "queue_inv q \<Longrightarrow> queue_inv (message_renewal cfg ids fin w t q)"
  using queue_exec_inv [of q "Q_renew (filter (\<lambda>i. i \<notin> set fin) ids) w (t + mc_lockDurationMs cfg)"]
  by (simp add: message_renewal_def Let_def)

lemma message_renewal_row:
  assumes "queue_inv q" and "getById i q = Some r"
  shows "\<exists>u. getById i (message_renewal cfg ids fin w t q) = Some (r\<lparr>qm_claimedUntil := u\<rparr>)"
    and "qm_claimedBy r \<noteq> Some w \<Longrightarrow> getById i (message_renewal cfg ids fin w t q) = Some r"
proof -
  have d: "distinct (map qm_id q)" using assms(1) by (simp add: queue_inv_def)
  have same: "\<exists>u. r = r\<lparr>qm_claimedUntil := u\<rparr>" by (rule exI [of _ "qm_claimedUntil r"]) simp
  show "\<exists>u. getById i (message_renewal cfg ids fin w t q) = Some (r\<lparr>qm_claimedUntil := u\<rparr>)"
    using assms(2) same by (auto simp: message_renewal_def Let_def batchRenewClaims_def getById_update d)
  show "qm_claimedBy r \<noteq> Some w \<Longrightarrow> getById i (message_renewal cfg ids fin w t q) = Some r"
    using assms(2) by (simp add: message_renewal_def Let_def batchRenewClaims_def getById_update d)
qed

lemma message_renewal_None:
  "queue_inv q \<Longrightarrow> getById i q = None \<Longrightarrow> getById i (message_renewal cfg ids fin w t q) = None"
  by (simp add: message_renewal_def Let_def batchRenewClaims_def getById_update queue_inv_def)

text \<open>The worker holds the message read as \<open>m\<close>: its row has had no failure since.\<close>

definition holds :: "string \<Rightarrow> queue_table \<Rightarrow> QueueMessage \<Rightarrow> bool" where
  "holds w q m \<longleftrightarrow> (\<exists>r. getById (qm_id m) q = Some r \<and> qm_claimedBy r = Some w \<and> qm_failedCount r = qm_failedCount m)"

definition not_held :: "string \<Rightarrow> queue_table \<Rightarrow> string \<Rightarrow> bool" where
  "not_held w q i \<longleftrightarrow> (\<forall>r. getById i q = Some r \<longrightarrow> qm_claimedBy r \<noteq> Some w)"

definition step_renewal ::
  "ManagerState \<Rightarrow> MessageEnv \<Rightarrow> string list \<Rightarrow> string list \<Rightarrow> string \<Rightarrow> queue_table \<times> 'x \<Rightarrow> queue_table \<times> 'x" where
  "step_renewal ms e ids fin w s = (case me_renewAt e of None \<Rightarrow> s
     | Some t \<Rightarrow> (message_renewal (ms_config ms) ids fin w t (fst s), snd s))"

lemma step_renewal:
  assumes "queue_inv (fst s)"
  shows "queue_inv (fst (step_renewal ms e ids fin w s))"
    and "holds w (fst s) m \<Longrightarrow> holds w (fst (step_renewal ms e ids fin w s)) m"
    and "not_held w (fst s) i \<Longrightarrow> getById i (fst (step_renewal ms e ids fin w s)) = getById i (fst s)"
proof -
  show "queue_inv (fst (step_renewal ms e ids fin w s))"
    using assms by (simp add: step_renewal_def message_renewal_inv split: option.split)
  show "holds w (fst s) m \<Longrightarrow> holds w (fst (step_renewal ms e ids fin w s)) m"
    using message_renewal_row(1) [OF assms, of "qm_id m" _ "ms_config ms" ids fin w]
    by (fastforce simp: holds_def step_renewal_def split: option.split)
  show "not_held w (fst s) i \<Longrightarrow> getById i (fst (step_renewal ms e ids fin w s)) = getById i (fst s)"
    using message_renewal_row(2) [OF assms, of i _ w "ms_config ms" ids fin]
      message_renewal_None [OF assms, of i "ms_config ms" ids fin w]
    by (cases "getById i (fst s)") (auto simp: not_held_def step_renewal_def split: option.split)
qed

lemma process_claimed_settles:
  assumes "queue_inv (fst s)" and "distinct (map qm_id messages)" and "\<forall>m\<in>set messages. holds w (fst s) m"
  shows "queue_inv (fst (process_claimed ms hooks env w ids fin messages s)) \<and>
    (\<forall>m\<in>set messages. \<exists>m'. getById (qm_id m) (fst (process_claimed ms hooks env w ids fin messages s)) = Some m' \<and>
       settled_as ms (me_random (env m)) (me_now (env m)) m (me_outcome (env m)) m') \<and>
    (\<forall>i. not_held w (fst s) i \<longrightarrow>
       getById i (fst (process_claimed ms hooks env w ids fin messages s)) = getById i (fst s))"
  using assms
proof (induction messages arbitrary: s fin)
  case (Cons m messages)
  let ?e = "env m"
  let ?s = "step_renewal ms ?e ids fin w s"
  note ren = step_renewal [OF Cons.prems(1), where ms = ms and e = ?e and ids = ids and fin = fin and w = w]
  from Cons.prems(3) ren(2) [where m = m] obtain r where r: "getById (qm_id m) (fst ?s) = Some r"
    "qm_claimedBy r = Some w" "qm_failedCount r = qm_failedCount m" by (auto simp: holds_def)
  from claimed_outcome [OF ren(1), of r w m ms "hooks m" "me_random ?e" "me_now ?e" "me_outcome ?e" "snd ?s"]
    getById_in [OF r(1)] r(2,3) obtain q' x' m' where p:
    "processMessage ms (hooks m) (me_random ?e) (me_now ?e) m w (me_outcome ?e) ?s = Inr (q', x')"
    "queue_inv q'" "getById (qm_id m) q' = Some m'"
    "settled_as ms (me_random ?e) (me_now ?e) m (me_outcome ?e) m'"
    "\<forall>i. i \<noteq> qm_id m \<longrightarrow> getById i q' = getById i (fst ?s)" by auto
  define fin' where "fin' = (if no_longer_renewed ms m (me_outcome ?e)
      (processMessage ms (hooks m) (me_random ?e) (me_now ?e) m w (me_outcome ?e) ?s) then qm_id m # fin else fin)"
  have eq: "process_claimed ms hooks env w ids fin (m # messages) s =
      process_claimed ms hooks env w ids fin' messages (q', x')"
    using p(1) by (simp add: fin'_def step_renewal_def [symmetric] Let_def)
  have held: "\<forall>k\<in>set messages. holds w q' k"
  proof
    fix k assume k: "k \<in> set messages"
    then have "qm_id k \<noteq> qm_id m" using Cons.prems(2) by (metis distinct.simps(2) image_eqI list.map(2) set_map)
    then have "getById (qm_id k) q' = getById (qm_id k) (fst ?s)" using p(5) by simp
    moreover have "holds w (fst ?s) k" using ren(2) [of k] Cons.prems(3) k by simp
    ultimately show "holds w q' k" by (simp add: holds_def)
  qed
  have rest: "distinct (map qm_id messages)" using Cons.prems(2) by simp
  have "queue_inv (fst (q', x'))" and "\<forall>k\<in>set messages. holds w (fst (q', x')) k" using p(2) held by simp_all
  note IH = Cons.IH [OF this(1) rest this(2), of fin', unfolded fst_conv]
  have free: "not_held w q' (qm_id m)" using p(3,4) by (simp add: not_held_def settled_as_def)
  have other: "getById i q' = getById i (fst s)" if "not_held w (fst s) i" for i
  proof -
    have "holds w (fst s) m" using Cons.prems(3) by simp
    then have "i \<noteq> qm_id m" using that by (auto simp: holds_def not_held_def)
    with p(5) ren(3) [OF that] show ?thesis by simp
  qed
  then have keep: "not_held w q' i" if "not_held w (fst s) i" for i using that by (simp add: not_held_def)
  show ?case unfolding eq using IH free p(3,4) other keep by simp
qed simp

text \<open>The messages a batch claim returns are held by the worker and differ by their ids.\<close>

lemma claim_batch_held:
  assumes "queue_inv q" and "batchClaimMessages locked p q = (q', messages)"
  shows "queue_inv q'" and "distinct (map qm_id messages)" and "\<forall>m\<in>set messages. holds (cp_claimedBy p) q' m"
    and "i \<notin> qm_id ` set messages \<Longrightarrow> getById i q' = getById i q"
proof -
  let ?hit = "\<lambda>m. qm_id m \<in> set (selected_for_claim locked p q) \<and> qm_workspaceId m = cp_workspaceId p"
  let ?claim = "claim_message (cp_claimedBy p) (cp_claimedAt p) (cp_claimedUntil p)"
  let ?key = "\<lambda>m. case qm_processAfter m of None \<Rightarrow> (1::int, 0) | Some t \<Rightarrow> (0, t)"
  from assms(2) have q': "q' = sql_update ?hit ?claim q" and ms: "messages = sort_key ?key (map ?claim (filter ?hit q))"
    by (auto simp: batchClaimMessages_def Let_def)
  have id: "\<And>m. qm_id (?claim m) = qm_id m" by (simp add: claim_message_def)
  have d: "distinct (map qm_id q)" using assms(1) by (simp add: queue_inv_def)
  have row: "getById i q' = map_option (\<lambda>m. if ?hit m then ?claim m else m) (getById i q)" for i
    unfolding q' by (rule getById_update [OF id d])
  show "queue_inv q'" using queue_exec_inv [OF assms(1), of "Q_claim locked p"] assms(2) by simp
  have "distinct (map qm_id (map ?claim (filter ?hit q)))" using d by (simp add: comp_def id distinct_map_filter)
  then show "distinct (map qm_id messages)" unfolding ms
    by (metis (no_types, lifting) distinct_map distinct_sort set_sort)
  have mem: "set messages = ?claim ` {m \<in> set q. ?hit m}" unfolding ms by simp
  show "\<forall>m\<in>set messages. holds (cp_claimedBy p) q' m"
  proof
    fix m assume "m \<in> set messages"
    then obtain k where k: "k \<in> set q" "?hit k" "m = ?claim k" unfolding mem by auto
    from getById_Some [OF d k(1)] k(2,3) have "getById (qm_id m) q' = Some m" by (simp add: row id)
    then show "holds (cp_claimedBy p) q' m" using k(3) by (simp add: holds_def claim_message_def)
  qed
  show "getById i q' = getById i q" if i: "i \<notin> qm_id ` set messages"
  proof (cases "getById i q")
    case (Some m)
    have "\<not> ?hit m" using i getById_in [OF Some] unfolding mem image_image id by auto
    then show ?thesis using Some by (auto simp: row)
  qed (simp add: row)
qed

text \<open>
  C4. Processing a token settles everything it claimed: each message of the batch ends with its
  claim given up and in the state its handler's outcome calls for, also when renewals of the
  claims come in between; every other message is as it was; and the token is gone.  The
  worker's id is fresh, so nothing was claimed under it before.
\<close>

theorem processed_token_settles_its_batch:
  assumes "queue_inv q" and "\<forall>m\<in>set q. qm_claimedBy m \<noteq> Some w" and "token \<in> set toks"
    and "qt_leasedBy token = mc_managerId (ms_config ms)"
    and "batchClaimMessages locked (claim_params (ms_config ms) now w token) q = (q1, messages)"
    and "processToken ms hooks env now w locked token ((q, x), toks) = ((q', x'), toks')"
  shows "queue_inv q' \<and>
    (\<forall>m\<in>set messages. \<exists>m'. getById (qm_id m) q' = Some m' \<and>
       settled_as ms (me_random (env m)) (me_now (env m)) m (me_outcome (env m)) m') \<and>
    (\<forall>i. i \<notin> qm_id ` set messages \<longrightarrow> getById i q' = getById i q) \<and>
    toks' = filter (\<lambda>t. \<not> (qt_id t = qt_id token \<and> qt_leasedBy t = mc_managerId (ms_config ms))) toks"
proof -
  have w: "cp_claimedBy (claim_params (ms_config ms) now w token) = w" by (simp add: claim_params_def)
  note c = claim_batch_held [OF assms(1,5), unfolded w]
  have res: "(q', x') = process_claimed ms hooks env w (map qm_id messages) [] messages (q1, x)"
    and toks': "toks' = or_unchanged toks (deleteToken (qt_id token) (mc_managerId (ms_config ms)) toks)"
    using assms(5,6) by (auto simp: processToken_def processMessagesForToken_def split: sum.splits)
  have q': "q' = fst (process_claimed ms hooks env w (map qm_id messages) [] messages (q1, x))" by (simp add: res [symmetric])
  have "queue_inv (fst (q1, x))" and "\<forall>m\<in>set messages. holds w (fst (q1, x)) m" using c(1,3) by simp_all
  note p = process_claimed_settles [OF this(1) c(2) this(2), of ms hooks env "map qm_id messages" "[]", folded q', unfolded fst_conv]
  have free: "not_held w q1 i" if "i \<notin> qm_id ` set messages" for i
    using assms(2) c(4) [OF that] getById_in by (fastforce simp: not_held_def)
  have "toks' = filter (\<lambda>t. \<not> (qt_id t = qt_id token \<and> qt_leasedBy t = mc_managerId (ms_config ms))) toks"
    using assms(3,4) unfolding toks' by (auto simp: deleteToken_def sql_count_0_iff sql_delete_def Let_def)
  with p free c(4) show ?thesis by simp
qed

definition ex_message_env :: "QueueMessage \<Rightarrow> MessageEnv" where
  "ex_message_env m = \<lparr>me_renewAt = (if qm_id m = ''q3'' then Some 55 else None), me_now = 60,
     me_outcome = (if qm_id m = ''q3'' then Job_error ''boom'' else Job_ok), me_random = 0\<rparr>"

definition ex_token :: QueueToken where
  "ex_token = \<lparr>qt_id = ''t1'', qt_queueName = ''embedding.generate'', qt_workspaceId = ''ws_1'', qt_leasedAt = 50,
     qt_leasedBy = ''m'', qt_leasedUntil = 1050, qt_nextProcessAfter = 10, qt_createdAt = 50\<rparr>"

theorem processed_token_settles_its_batch_witness:
  "\<exists>m'. getById ''q3'' (fst (fst (processToken ex_started (\<lambda>_. None :: unit dlq_hook option) ex_message_env 50 ''w''
      (\<lambda>_. False) ex_token ((ex_queue, ()), [ex_token])))) = Some m' \<and> qm_claimedBy m' = None \<and> qm_lastError m' = Some ''boom''"
proof -
  let ?c = "batchClaimMessages (\<lambda>_. False) (claim_params (ms_config ex_started) 50 ''w'' ex_token) ex_queue"
  let ?r = "processToken ex_started (\<lambda>_. None :: unit dlq_hook option) ex_message_env 50 ''w'' (\<lambda>_. False) ex_token
      ((ex_queue, ()), [ex_token])"
  let ?m = "claim_message ''w'' 50 10050 (new_message (ex_insert ''q3'' 20))"
  have h: "queue_inv ex_queue" "\<forall>m\<in>set ex_queue. qm_claimedBy m \<noteq> Some ''w''"
    "qt_leasedBy ex_token = mc_managerId (ms_config ex_started)" "?m \<in> set (snd ?c)" "qm_id ?m = ''q3''"
    "me_outcome (ex_message_env ?m) = Job_error ''boom''"
    by code_simp+
  have t: "ex_token \<in> set [ex_token]" by simp
  have r: "?r = ((fst (fst ?r), snd (fst ?r)), snd ?r)" by (simp only: prod.collapse)
  from processed_token_settles_its_batch [OF h(1,2) t h(3) surjective_pairing [of ?c] r] h(4)
  have "\<exists>m'. getById (qm_id ?m) (fst (fst ?r)) = Some m' \<and>
       settled_as ex_started (me_random (ex_message_env ?m)) (me_now (ex_message_env ?m)) ?m (me_outcome (ex_message_env ?m)) m'"
    by blast
  then show ?thesis unfolding h(5,6) settled_as_def by auto
qed

end
