(* ===== verification/Queue_Retention.thy ===== *)
theory Queue_Retention
  imports Queue_Repository
begin

text \<open>
  \<^verbatim>\<open>apps/backend/src/lib/queue/retention-worker.ts\<close>: the worker that purges terminal queue messages,
  one category after the other, in bounded batches.
\<close>

record QueueRetentionWorkerConfig =
  qr_intervalMs :: int
  qr_completedRetentionMs :: int
  qr_cancelledRetentionMs :: int
  qr_dlqRetentionMs :: int
  qr_batchSize :: int
  qr_maxBatchesPerRun :: int

text \<open>The constructor rejects the first value that is not positive.\<close>

definition mkQueueRetentionWorker :: "QueueRetentionWorkerConfig \<Rightarrow> (string \<times> int) + QueueRetentionWorkerConfig" where
  "mkQueueRetentionWorker c =
    (case find (\<lambda>(k, v). v \<le> 0)
       [(''intervalMs'', qr_intervalMs c), (''completedRetentionMs'', qr_completedRetentionMs c),
        (''cancelledRetentionMs'', qr_cancelledRetentionMs c), (''dlqRetentionMs'', qr_dlqRetentionMs c),
        (''batchSize'', qr_batchSize c), (''maxBatchesPerRun'', qr_maxBatchesPerRun c)] of
       Some bad \<Rightarrow> Inl bad
     | None \<Rightarrow> Inr c)"

definition queue_categories :: "QueueRetentionWorkerConfig \<Rightarrow> timestamp \<Rightarrow> (QueueRetentionCategory \<times> timestamp) list" where
  "queue_categories c now =
    [(Cat_completed, now - qr_completedRetentionMs c), (Cat_cancelled, now - qr_cancelledRetentionMs c),
     (Cat_dlq, now - qr_dlqRetentionMs c)]"

definition drain_category ::
  "QueueRetentionWorkerConfig \<Rightarrow> QueueRetentionCategory \<times> timestamp \<Rightarrow> queue_table \<Rightarrow> queue_table" where
  "drain_category c ct q =
    fst (drain_loop (deleteExpiredMessagesBatch (fst ct) (snd ct) (qr_batchSize c))
      (nat (qr_batchSize c)) (nat (qr_maxBatchesPerRun c)) q)"

definition queue_retention_runOnce :: "QueueRetentionWorkerConfig \<Rightarrow> timestamp \<Rightarrow> queue_table \<Rightarrow> queue_table" where
  "queue_retention_runOnce c now q = fold (drain_category c) (queue_categories c now) q"

lemma deleteExpired_eq:
  assumes "0 < limit" and "distinct (map qm_id q)"
    and cand_def: "cand = set (map qm_id (order_limit (\<lambda>m. the (retention_column cat m)) limit (filter (queue_due cat t) q)))"
  shows "deleteExpiredMessagesBatch cat t limit q = (sql_delete (\<lambda>m. qm_id m \<in> cand) q, sql_count (\<lambda>m. qm_id m \<in> cand) q)"
proof -
  have "queue_due cat t m" if "m \<in> set q" "qm_id m \<in> cand" for m
  proof -
    from that(2) obtain m' where "m' \<in> set (order_limit (\<lambda>m. the (retention_column cat m)) limit (filter (queue_due cat t) q))"
      "qm_id m' = qm_id m" unfolding cand_def by auto
    then show ?thesis using set_order_limitD [of m'] unique_message [OF assms(2) _ that(1), of m'] by fastforce
  qed
  then have "filter (\<lambda>m. qm_id m \<in> cand \<and> queue_due cat t m) q = filter (\<lambda>m. qm_id m \<in> cand) q"
    "filter (\<lambda>m. \<not> (qm_id m \<in> cand \<and> queue_due cat t m)) q = filter (\<lambda>m. qm_id m \<notin> cand) q"
    by (auto intro!: filter_cong)
  with assms(1) show ?thesis
    by (simp add: deleteExpiredMessagesBatch_def Let_def sql_delete_def sql_count_def cand_def)
qed

interpretation queue_drain: batched_drain
  "deleteExpiredMessagesBatch cat t (1 + int n)" "Suc n" "sql_count (queue_due cat t)" "\<lambda>q. distinct (map qm_id q)"
  for cat t n
proof unfold_locales
  fix q :: queue_table
  assume ok: "distinct (map qm_id q)"
  note del = deleteExpired_eq [OF _ ok refl, of "1 + int n" cat t]
  note batch = batch_delete [OF ok refl, where p = "queue_due cat t" and n = "1 + int n"
      and ord = "\<lambda>m. the (retention_column cat m)"]
  show "snd (deleteExpiredMessagesBatch cat t (1 + int n) q) = min (Suc n) (sql_count (queue_due cat t) q)"
    using del batch by (simp add: nat_add_distrib)
  then show "sql_count (queue_due cat t) (fst (deleteExpiredMessagesBatch cat t (1 + int n) q)) =
      sql_count (queue_due cat t) q - snd (deleteExpiredMessagesBatch cat t (1 + int n) q)"
    using del batch by (simp add: nat_add_distrib)
  show "distinct (map qm_id (fst (deleteExpiredMessagesBatch cat t (1 + int n) q)))"
    using ok by (rule deleteExpired_distinct)
qed

lemma drain_category_subset: "set (drain_category c ct q) \<subseteq> set q"
proof -
  have "set (fst (drain_loop (deleteExpiredMessagesBatch cat t l) b k q)) \<subseteq> set q" for cat t l b k
  proof (induction k arbitrary: q)
    case (Suc k)
    have "set (fst (deleteExpiredMessagesBatch cat t l q)) \<subseteq> set q" by (rule deleteExpired_subset)
    with Suc [of "fst (deleteExpiredMessagesBatch cat t l q)"] show ?case
      by (auto simp: Let_def case_prod_beta)
  qed simp
  then show ?thesis by (simp add: drain_category_def)
qed

lemma drain_category_distinct: "distinct (map qm_id q) \<Longrightarrow> distinct (map qm_id (drain_category c ct q))"
proof -
  have "distinct (map qm_id q) \<Longrightarrow> distinct (map qm_id (fst (drain_loop (deleteExpiredMessagesBatch cat t l) b k q)))" for cat t l b k
    by (induction k arbitrary: q) (simp_all add: Let_def case_prod_beta deleteExpired_distinct)
  then show "distinct (map qm_id q) \<Longrightarrow> ?thesis" by (simp add: drain_category_def)
qed

lemma drain_category_keeps:
  assumes "m \<in> set q" and "\<not> queue_due (fst ct) (snd ct) m"
  shows "m \<in> set (drain_category c ct q)"
proof -
  have "m \<in> set q \<Longrightarrow> m \<in> set (fst (drain_loop (deleteExpiredMessagesBatch (fst ct) (snd ct) l) b k q))" for l b k
  proof (induction k arbitrary: q)
    case (Suc k)
    have "m \<in> set (fst (deleteExpiredMessagesBatch (fst ct) (snd ct) l q))"
      using Suc.prems assms(2) by (auto simp: deleteExpiredMessagesBatch_def Let_def)
    with Suc.IH show ?case by (auto simp: Let_def case_prod_beta)
  qed simp
  with assms(1) show ?thesis by (simp add: drain_category_def)
qed

lemma sql_count_subset: "distinct q' \<Longrightarrow> set q' \<subseteq> set q \<Longrightarrow> sql_count p q' \<le> sql_count p q"
proof -
  assume "distinct q'" "set q' \<subseteq> set q"
  then have "card (set (filter p q')) \<le> card (set (filter p q))" by (intro card_mono) auto
  moreover have "card (set (filter p q)) \<le> length (filter p q)" by (rule card_length)
  moreover have "length (filter p q') = card (set (filter p q'))"
    using \<open>distinct q'\<close> by (simp only: distinct_card distinct_filter)
  ultimately show ?thesis unfolding sql_count_def by linarith
qed

lemma fold_drain_subset: "set (fold (drain_category c) cts q) \<subseteq> set q"
  using drain_category_subset by (induction cts arbitrary: q) fastforce+

lemma fold_drain_distinct: "distinct (map qm_id q) \<Longrightarrow> distinct (map qm_id (fold (drain_category c) cts q))"
  by (induction cts arbitrary: q) (simp_all add: drain_category_distinct)

lemma fold_drain_all:
  assumes "0 < qr_batchSize c" and "distinct (map qm_id q)" and "(cat, t) \<in> set cts"
    and fits: "sql_count (queue_due cat t) q \<le> nat (qr_maxBatchesPerRun c) * nat (qr_batchSize c)"
  shows "sql_count (queue_due cat t) (fold (drain_category c) cts q) = 0"
proof -
  obtain n where n: "qr_batchSize c = 1 + int n"
    using assms(1) by (metis zless_iff_Suc_zadd add_0 of_nat_Suc add.commute)
  then have size: "nat (qr_batchSize c) = Suc n" by simp
  from assms(3) obtain before after where cts: "cts = before @ (cat, t) # after" by (auto simp: in_set_conv_decomp)
  let ?q1 = "fold (drain_category c) before q"
  have ok: "distinct (map qm_id ?q1)" using assms(2) by (rule fold_drain_distinct)
  have "sql_count (queue_due cat t) ?q1 \<le> sql_count (queue_due cat t) q"
    using ok fold_drain_subset by (intro sql_count_subset) (auto simp: distinct_map)
  then have "sql_count (queue_due cat t) ?q1 \<le> nat (qr_maxBatchesPerRun c) * Suc n" using fits unfolding size by (rule order_trans)
  from queue_drain.drain_all [OF ok this]
  have "sql_count (queue_due cat t) (drain_category c (cat, t) ?q1) = 0" by (simp add: drain_category_def [of c "(cat, t)"] n nat_add_distrib)
  then show ?thesis
    using fold_drain_subset [of c after "drain_category c (cat, t) ?q1"] by (auto simp: cts sql_count_0_iff)
qed

text \<open>
  The queue's retention removes terminal messages only: after a run every message that is
  still open, and every terminal one that is within the retention of each of its terminal states,
  is still there, and nothing new appears; and for each of the three categories, when its messages
  past their retention fit into the batches of one run, none of them is left.
\<close>

theorem queue_retention_is_safe_and_drains:
  assumes "mkQueueRetentionWorker c0 = Inr c" and "queue_inv q"
  shows "(\<forall>m\<in>set q. (\<forall>(cat, t)\<in>set (queue_categories c now). \<not> queue_due cat t m) \<longrightarrow>
      m \<in> set (queue_retention_runOnce c now q)) \<and>
    (\<forall>m\<in>set q. \<not> terminal m \<longrightarrow> m \<in> set (queue_retention_runOnce c now q)) \<and>
    set (queue_retention_runOnce c now q) \<subseteq> set q \<and>
    (\<forall>(cat, t)\<in>set (queue_categories c now).
      sql_count (queue_due cat t) q \<le> nat (qr_maxBatchesPerRun c) * nat (qr_batchSize c) \<longrightarrow>
      sql_count (queue_due cat t) (queue_retention_runOnce c now q) = 0)"
proof -
  have pos: "0 < qr_batchSize c" using assms(1) by (auto simp: mkQueueRetentionWorker_def split: if_splits)
  have ok: "distinct (map qm_id q)" using assms(2) by (simp add: queue_inv_def)
  have keep: "m \<in> set (queue_retention_runOnce c now q)"
    if "m \<in> set q" "\<forall>(cat, t)\<in>set (queue_categories c now). \<not> queue_due cat t m" for m
    using that unfolding queue_retention_runOnce_def
    by (induction "queue_categories c now" arbitrary: q) (auto simp: queue_categories_def intro!: drain_category_keeps)
  moreover have "m \<in> set (queue_retention_runOnce c now q)" if "m \<in> set q" "\<not> terminal m" for m
    using that by (intro keep) (auto simp: queue_categories_def queue_due_def terminal_def)
  moreover have "set (queue_retention_runOnce c now q) \<subseteq> set q"
    unfolding queue_retention_runOnce_def by (rule fold_drain_subset)
  ultimately show ?thesis
    using fold_drain_all [OF pos ok] unfolding queue_retention_runOnce_def by blast
qed

definition ex_qr :: QueueRetentionWorkerConfig where
  "ex_qr = \<lparr>qr_intervalMs = 1, qr_completedRetentionMs = 10, qr_cancelledRetentionMs = 20, qr_dlqRetentionMs = 30,
     qr_batchSize = 1, qr_maxBatchesPerRun = 2\<rparr>"

definition ex_done :: queue_table where
  "ex_done = or_unchanged ex_claimed (queue_complete ''q2'' ''w'' 60 ex_claimed)"

theorem queue_retention_is_safe_and_drains_witness:
  "sql_count (queue_due Cat_completed 90) ex_done = 1 \<and>
    sql_count (queue_due Cat_completed 90) (queue_retention_runOnce ex_qr 100 ex_done) = 0"
proof -
  have h: "mkQueueRetentionWorker ex_qr = Inr ex_qr" "queue_inv ex_done"
    "(Cat_completed, 90) \<in> set (queue_categories ex_qr 100)" "sql_count (queue_due Cat_completed 90) ex_done = 1"
    "(1::nat) \<le> nat (qr_maxBatchesPerRun ex_qr) * nat (qr_batchSize ex_qr)"
    by code_simp+
  from queue_retention_is_safe_and_drains [OF h(1,2), of 100] h(3-5) show ?thesis by fastforce
qed

end
