(* ===== verification/Queue_Glue.thy ===== *)
theory Queue_Glue
  imports Queue_Repository
begin

text \<open>
  Two helpers around the queue table: \<^verbatim>\<open>lib/queue/enqueue-with-id-retry.ts\<close>, which draws another id when an insert hits one that is
  taken, and \<^verbatim>\<open>lib/queue/depth-sampler.ts\<close>, which turns the depth query into metrics.
\<close>

section \<open>Enqueueing with a retry on a taken id\<close>

text \<open>
  What PostgreSQL does to a statement of a client: outside a transaction a failed statement has no effect on the next one; inside one,
  every statement after a failed one raises, until the transaction is rolled back.
\<close>

record QueueClient =
  qc_queue :: queue_table
  qc_inTransaction :: bool
  qc_aborted :: bool

datatype client_error = Pkey_violation | Transaction_aborted | Gave_up

definition client_insert :: "InsertQueueMessageParams \<Rightarrow> QueueClient \<Rightarrow> QueueClient \<times> client_error option" where
  "client_insert p c =
    (if qc_aborted c then (c, Some Transaction_aborted)
     else case queue_insert (qc_queue c) p of
       Inr (q, _) \<Rightarrow> (c\<lparr>qc_queue := q\<rparr>, None)
     | Inl _ \<Rightarrow> (c\<lparr>qc_aborted := qc_inTransaction c\<rparr>, Some Pkey_violation))"

definition DEFAULT_MAX_RETRIES :: nat where "DEFAULT_MAX_RETRIES = 5"

text \<open>The number of attempts left, and the ids drawn so far; \<open>generateId k\<close> is the id drawn at the attempt \<open>k\<close>.\<close>

fun enqueue_attempts ::
  "(nat \<Rightarrow> string) \<Rightarrow> InsertQueueMessageParams \<Rightarrow> nat \<Rightarrow> nat \<Rightarrow> QueueClient \<Rightarrow> QueueClient \<times> (client_error + string)"
where
  "enqueue_attempts generateId p 0 k c = (c, Inl Gave_up)"
| "enqueue_attempts generateId p (Suc n) k c =
    (case client_insert (p\<lparr>ip_id := generateId k\<rparr>) c of
       (c', None) \<Rightarrow> (c', Inr (generateId k))
     | (c', Some e) \<Rightarrow>
         if e \<noteq> Pkey_violation \<or> n = 0 then (c', Inl e) else enqueue_attempts generateId p n (Suc k) c')"

definition enqueueQueuedJob ::
  "(nat \<Rightarrow> string) \<Rightarrow> nat option \<Rightarrow> InsertQueueMessageParams \<Rightarrow> QueueClient \<Rightarrow> QueueClient \<times> (client_error + string)"
where
  "enqueueQueuedJob generateId maxRetries p =
     enqueue_attempts generateId p (case maxRetries of None \<Rightarrow> DEFAULT_MAX_RETRIES | Some n \<Rightarrow> n) 0"

definition taken :: "QueueClient \<Rightarrow> string \<Rightarrow> bool" where
  "taken c i \<longleftrightarrow> i \<in> qm_id ` set (qc_queue c)"

lemma client_insert_fresh: "\<not> qc_aborted c \<Longrightarrow> \<not> taken c (ip_id p) \<Longrightarrow>
    client_insert p c = (c\<lparr>qc_queue := qc_queue c @ [new_message p]\<rparr>, None)"
  by (simp add: client_insert_def queue_insert_def taken_def)

lemma client_insert_taken: "\<not> qc_aborted c \<Longrightarrow> taken c (ip_id p) \<Longrightarrow>
    client_insert p c = (c\<lparr>qc_aborted := qc_inTransaction c\<rparr>, Some Pkey_violation)"
  by (simp add: client_insert_def queue_insert_def taken_def)

text \<open>Outside a transaction the first free id among the attempts is used, and nothing else is written.\<close>

lemma enqueue_uses_first_free_id:
  "\<not> qc_aborted c \<Longrightarrow> \<not> qc_inTransaction c \<Longrightarrow> \<forall>j<m. taken c (generateId (k + j)) \<Longrightarrow> \<not> taken c (generateId (k + m)) \<Longrightarrow> m < n \<Longrightarrow>
   enqueue_attempts generateId p n k c =
     (c\<lparr>qc_queue := qc_queue c @ [new_message (p\<lparr>ip_id := generateId (k + m)\<rparr>)]\<rparr>, Inr (generateId (k + m)))"
proof (induction m arbitrary: n k)
  case 0
  then obtain n' where "n = Suc n'" by (cases n) auto
  with 0 show ?case by (simp add: client_insert_fresh)
next
  case (Suc m)
  then obtain n' where n: "n = Suc n'" "m < n'" by (cases n) auto
  have "taken c (generateId k)" using Suc.prems(3) by (metis add_0_right zero_less_Suc)
  then have "client_insert (p\<lparr>ip_id := generateId k\<rparr>) c = (c, Some Pkey_violation)"
    using Suc.prems(1,2) by (simp add: client_insert_taken)
  moreover have "\<forall>j<m. taken c (generateId (Suc k + j))" using Suc.prems(3) by (metis Suc_mono add_Suc add_Suc_right)
  ultimately show ?case using Suc.IH [of "Suc k" n'] Suc.prems(1,2,4) n by simp
qed

text \<open>
  Inside a transaction the retry never helps: the first collision aborts the transaction, the second insert raises the error of an
  aborted transaction, whatever id it carries.  Every caller passes the client of a transaction.
\<close>

lemma retry_fails_in_transaction:
  assumes "\<not> qc_aborted c" "qc_inTransaction c" "taken c (generateId 0)" "maxRetries = None \<or> (\<exists>n\<ge>2. maxRetries = Some n)"
  shows "enqueueQueuedJob generateId maxRetries p c = (c\<lparr>qc_aborted := True\<rparr>, Inl Transaction_aborted)"
proof -
  have "2 \<le> (case maxRetries of None \<Rightarrow> DEFAULT_MAX_RETRIES | Some n \<Rightarrow> n)" using assms(4) by (auto simp: DEFAULT_MAX_RETRIES_def)
  then obtain n where n: "(case maxRetries of None \<Rightarrow> DEFAULT_MAX_RETRIES | Some n \<Rightarrow> n) = Suc (Suc n)"
    by (auto dest!: le_Suc_ex simp: numeral_2_eq_2)
  show ?thesis using assms(1-3) by (simp add: enqueueQueuedJob_def n client_insert_taken) (simp add: client_insert_def)
qed

section \<open>Sampling the depth\<close>

text \<open>The three gauges, by queue, and the queues seen so far.\<close>

record DepthSampler =
  sm_pending :: "string \<rightharpoonup> int"
  sm_oldest :: "string \<rightharpoonup> rat"
  sm_dlq :: "string \<rightharpoonup> int"
  sm_knownQueues :: "string list"

definition no_samples :: DepthSampler where
  "no_samples = \<lparr>sm_pending = Map.empty, sm_oldest = Map.empty, sm_dlq = Map.empty, sm_knownQueues = []\<rparr>"

definition sample_row :: "timestamp \<Rightarrow> QueueDepthRow \<Rightarrow> DepthSampler \<Rightarrow> DepthSampler" where
  "sample_row now row s = s\<lparr>sm_knownQueues := List.insert (qd_queueName row) (sm_knownQueues s),
     sm_pending := (sm_pending s)(qd_queueName row \<mapsto> int (qd_pending row)),
     sm_dlq := (sm_dlq s)(qd_queueName row \<mapsto> int (qd_dlq row)),
     sm_oldest := (sm_oldest s)(qd_queueName row \<mapsto> (case qd_oldestPendingAt row of None \<Rightarrow> 0 | Some t \<Rightarrow> max 0 (rat_of_int (now - t) / 1000)))\<rparr>"

definition clear_queue :: "string \<Rightarrow> DepthSampler \<Rightarrow> DepthSampler" where
  "clear_queue q s = s\<lparr>sm_pending := (sm_pending s)(q \<mapsto> 0), sm_dlq := (sm_dlq s)(q \<mapsto> 0), sm_oldest := (sm_oldest s)(q \<mapsto> 0)\<rparr>"

text \<open>\<open>None\<close>: the query failed.\<close>

definition sampleOnce :: "timestamp \<Rightarrow> QueueDepthRow list option \<Rightarrow> DepthSampler \<Rightarrow> DepthSampler" where
  "sampleOnce now rows s =
    (case rows of
       None \<Rightarrow> no_samples
     | Some rs \<Rightarrow>
        (let s1 = fold (sample_row now) rs s
         in fold clear_queue (filter (\<lambda>q. q \<notin> qd_queueName ` set rs) (sm_knownQueues s1)) s1))"

lemma sample_rows:
  "distinct (map qd_queueName rs) \<Longrightarrow>
   sm_pending (fold (sample_row now) rs s) q = (case find (\<lambda>r. qd_queueName r = q) rs of None \<Rightarrow> sm_pending s q | Some r \<Rightarrow> Some (int (qd_pending r)))
   \<and> set (sm_knownQueues (fold (sample_row now) rs s)) = qd_queueName ` set rs \<union> set (sm_knownQueues s)"
proof (induction rs arbitrary: s)
  case (Cons r rs)
  have none: "find (\<lambda>r. qd_queueName r = q) rs = None" if "qd_queueName r = q"
    using Cons.prems that unfolding find_None_iff by (auto simp: image_iff)
  have head: "sm_pending (sample_row now r s) q = (if qd_queueName r = q then Some (int (qd_pending r)) else sm_pending s q)"
    "set (sm_knownQueues (sample_row now r s)) = insert (qd_queueName r) (set (sm_knownQueues s))"
    by (simp_all add: sample_row_def)
  note ih = Cons.IH [of "sample_row now r s"]
  show ?case
  proof (cases "qd_queueName r = q")
    case True
    then show ?thesis using ih Cons.prems head none by simp
  next
    case False
    then show ?thesis using ih Cons.prems head by (simp split: option.splits)
  qed
qed simp

lemma clear_queues: "sm_pending (fold clear_queue qs s) q = (if q \<in> set qs then Some 0 else sm_pending s q)"
  by (induction qs arbitrary: s) (auto simp: clear_queue_def)

text \<open>After a sample the gauge of every queue ever seen shows what the query gave for it, or zero: no value is left over.\<close>

lemma sample_leaves_nothing_stale:
  assumes "distinct (map qd_queueName rs)"
    and "dom (sm_pending s) \<subseteq> set (sm_knownQueues s)"
  shows "sm_pending (sampleOnce now (Some rs) s) q =
      (case find (\<lambda>r. qd_queueName r = q) rs of Some r \<Rightarrow> Some (int (qd_pending r)) | None \<Rightarrow> if q \<in> set (sm_knownQueues s) then Some 0 else None)"
proof -
  note row = sample_rows [OF assms(1), of now s q]
  have "find (\<lambda>r. qd_queueName r = q) rs = None \<longleftrightarrow> q \<notin> qd_queueName ` set rs" by (force simp: find_None_iff)
  then show ?thesis using row assms(2) by (auto simp: sampleOnce_def Let_def clear_queues split: option.splits)
qed

end
