(* ===== verification/Operation_Leases.thy ===== *)
theory Operation_Leases
  imports Threa_Prelude Json
begin

text \<open>
  \<^verbatim>\<open>lib/operation-leases/repository.ts\<close>: a lease authorises the second step of a batch operation once, for the user, workspace and operation
  it was made for, until it expires.  The id is drawn by the caller of the model; a taken one breaks the primary key.
\<close>

record OperationLease =
  ol_id :: string
  ol_workspaceId :: string
  ol_userId :: string
  ol_operationType :: string
  ol_payload :: json
  ol_expiresAt :: timestamp
  ol_consumedAt :: "timestamp option"
  ol_createdAt :: timestamp

definition lease_create ::
  "timestamp \<Rightarrow> string \<Rightarrow> string \<Rightarrow> string \<Rightarrow> string \<Rightarrow> json \<Rightarrow> int option \<Rightarrow> OperationLease table \<Rightarrow> (OperationLease table \<times> OperationLease) option"
where
  "lease_create now i ws user t payload ttlSeconds db =
    (let lease = \<lparr>ol_id = i, ol_workspaceId = ws, ol_userId = user, ol_operationType = t, ol_payload = payload,
        ol_expiresAt = now + 1000 * (case ttlSeconds of None \<Rightarrow> 300 | Some s \<Rightarrow> s), ol_consumedAt = None, ol_createdAt = now\<rparr>
     in if i \<in> ol_id ` set db then None else Some (db @ [lease], lease))"

definition consumable :: "timestamp \<Rightarrow> string \<Rightarrow> string \<Rightarrow> string \<Rightarrow> string \<Rightarrow> OperationLease \<Rightarrow> bool" where
  "consumable now i ws user t l \<longleftrightarrow> ol_id l = i \<and> ol_workspaceId l = ws \<and> ol_userId l = user \<and> ol_operationType l = t \<and>
     ol_consumedAt l = None \<and> now < ol_expiresAt l"

definition lease_consume ::
  "timestamp \<Rightarrow> string \<Rightarrow> string \<Rightarrow> string \<Rightarrow> string \<Rightarrow> OperationLease table \<Rightarrow> OperationLease table \<times> OperationLease option"
where
  "lease_consume now i ws user t db =
    (let use = (\<lambda>l. l\<lparr>ol_consumedAt := Some now\<rparr>)
     in (sql_update (consumable now i ws user t) use db, map_option use (find (consumable now i ws user t) db)))"

section \<open>A lease is used once\<close>

datatype lease_op =
    Create timestamp string string string string json "int option"
  | Consume timestamp string string string string

fun lease_op_step :: "lease_op \<Rightarrow> OperationLease table \<Rightarrow> OperationLease table \<times> OperationLease option" where
  "lease_op_step (Create now i ws user t payload ttl) db =
    (case lease_create now i ws user t payload ttl db of None \<Rightarrow> (db, None) | Some (db', _) \<Rightarrow> (db', None))"
| "lease_op_step (Consume now i ws user t) db = lease_consume now i ws user t db"

text \<open>The leases that were handed out for use, in order.\<close>

fun leases_used :: "lease_op list \<Rightarrow> OperationLease table \<Rightarrow> OperationLease list" where
  "leases_used [] db = []"
| "leases_used (op # ops) db =
    (case lease_op_step op db of (db', used) \<Rightarrow> (case used of None \<Rightarrow> [] | Some l \<Rightarrow> [l]) @ leases_used ops db')"

definition spent :: "OperationLease table \<Rightarrow> string set" where
  "spent db = {ol_id l |l. l \<in> set db \<and> ol_consumedAt l \<noteq> None}"

lemma step_spent:
  assumes "lease_op_step op db = (db', used)" "distinct (map ol_id db)"
  shows "distinct (map ol_id db')" "spent db \<subseteq> spent db'" "ol_id ` set db \<subseteq> ol_id ` set db'"
    "used = Some l \<Longrightarrow> ol_id l \<in> spent db' - spent db"
    "used = Some l \<Longrightarrow> \<exists>now l0. l = l0\<lparr>ol_consumedAt := Some now\<rparr> \<and> op = Consume now (ol_id l) (ol_workspaceId l) (ol_userId l) (ol_operationType l) \<and>
       l0 \<in> set db \<and> ol_consumedAt l0 = None \<and> now < ol_expiresAt l"
proof -
  have "distinct (map ol_id db') \<and> spent db \<subseteq> spent db' \<and> ol_id ` set db \<subseteq> ol_id ` set db' \<and>
      (used = Some l \<longrightarrow> ol_id l \<in> spent db' - spent db \<and>
        (\<exists>now l0. l = l0\<lparr>ol_consumedAt := Some now\<rparr> \<and> op = Consume now (ol_id l) (ol_workspaceId l) (ol_userId l) (ol_operationType l) \<and>
           l0 \<in> set db \<and> ol_consumedAt l0 = None \<and> now < ol_expiresAt l))"
  proof (cases op)
    case (Create now i ws user t payload ttl)
    then show ?thesis using assms by (auto simp: lease_create_def Let_def spent_def split: if_splits option.splits)
  next
    case (Consume now i ws user t)
    let ?p = "consumable now i ws user t" and ?use = "\<lambda>l :: OperationLease. l\<lparr>ol_consumedAt := Some now\<rparr>"
    have db': "db' = sql_update ?p ?use db" and used: "used = map_option ?use (find ?p db)"
      using assms(1) Consume by (simp_all add: lease_consume_def Let_def)
    have ids: "map ol_id db' = map ol_id db" unfolding db' by (rule sql_update_key) simp
    then have same: "ol_id ` set db' = ol_id ` set db" by (metis list.set_map)
    have more: "spent db \<subseteq> spent db'"
    proof
      fix x
      assume "x \<in> spent db"
      then obtain m where m: "m \<in> set db" "ol_consumedAt m \<noteq> None" "x = ol_id m" by (auto simp: spent_def)
      then have "\<not> ?p m" by (simp add: consumable_def)
      then have "m \<in> set db'" using m(1) unfolding db' set_sql_update by force
      then show "x \<in> spent db'" using m by (auto simp: spent_def)
    qed
    have "ol_id l \<in> spent db' - spent db \<and> (\<exists>now l0. l = l0\<lparr>ol_consumedAt := Some now\<rparr> \<and> op = Consume now (ol_id l) (ol_workspaceId l) (ol_userId l) (ol_operationType l) \<and>
        l0 \<in> set db \<and> ol_consumedAt l0 = None \<and> now < ol_expiresAt l)" if "used = Some l"
    proof -
      obtain l0 where found: "find ?p db = Some l0" and use: "l = ?use l0" using \<open>used = Some l\<close> unfolding used by blast
      have l0: "l0 \<in> set db" "?p l0" "l = ?use l0" using found use by (auto simp: find_Some_iff)
      have "l \<in> set db'" using l0 unfolding db' set_sql_update by (auto intro!: image_eqI [of _ _ l0])
      moreover have "ol_consumedAt l \<noteq> None" unfolding l0(3) by simp
      ultimately have "ol_id l \<in> spent db'" unfolding spent_def by blast
      moreover have "ol_id l \<notin> spent db"
      proof
        assume "ol_id l \<in> spent db"
        then obtain m where "m \<in> set db" "ol_consumedAt m \<noteq> None" "ol_id m = ol_id l0" using l0(3) by (auto simp: spent_def)
        moreover from this have "m = l0" using assms(2) l0(1) by (auto simp: distinct_map dest: inj_onD)
        ultimately show False using l0(2) by (simp add: consumable_def)
      qed
      ultimately show ?thesis using l0 Consume by (auto simp: consumable_def)
    qed
    then show ?thesis using ids same more assms(2) by simp
  qed
  then show "distinct (map ol_id db')" "spent db \<subseteq> spent db'" "ol_id ` set db \<subseteq> ol_id ` set db'"
    "used = Some l \<Longrightarrow> ol_id l \<in> spent db' - spent db"
    "used = Some l \<Longrightarrow> \<exists>now l0. l = l0\<lparr>ol_consumedAt := Some now\<rparr> \<and> op = Consume now (ol_id l) (ol_workspaceId l) (ol_userId l) (ol_operationType l) \<and>
       l0 \<in> set db \<and> ol_consumedAt l0 = None \<and> now < ol_expiresAt l" by blast+
qed

text \<open>
  Whatever is created and consumed in whatever order, no lease is handed out twice, none that was consumed before, and each only to a
  call that names its user, workspace and operation before it expires.
\<close>

lemma lease_used_once:
  "distinct (map ol_id db) \<Longrightarrow>
   distinct (map ol_id (leases_used ops db)) \<and> ol_id ` set (leases_used ops db) \<inter> spent db = {} \<and>
   (\<forall>l\<in>set (leases_used ops db). \<exists>now<ol_expiresAt l. Consume now (ol_id l) (ol_workspaceId l) (ol_userId l) (ol_operationType l) \<in> set ops)"
proof (induction ops arbitrary: db)
  case (Cons op ops)
  obtain db' used where st: "lease_op_step op db = (db', used)" by fastforce
  note s = step_spent [OF st Cons.prems]
  note ih = Cons.IH [OF s(1)]
  show ?case
  proof (cases used)
    case None
    then show ?thesis using ih s(2) st by auto
  next
    case (Some l)
    have fresh: "ol_id l \<in> spent db'" "ol_id l \<notin> spent db" using s(4) [OF Some] by blast+
    from s(5) [OF Some] have "\<exists>now<ol_expiresAt l. Consume now (ol_id l) (ol_workspaceId l) (ol_userId l) (ol_operationType l) = op" by blast
    then show ?thesis using ih s(2) st Some fresh by auto
  qed
qed simp

end
