(* ===== verification/Permissions.thy ===== *)
theory Permissions
  imports Threa_Prelude
begin

text \<open>
  The permission catalogue of \<^verbatim>\<open>packages/types/src/workspace-permissions.ts\<close> and the three places that
  turn stored role slugs into permissions: \<open>expandRoleSlugs\<close> of
  \<^verbatim>\<open>apps/backend/src/features/workspace-authz/service.ts\<close>, the SQL fragments of
  \<^verbatim>\<open>apps/backend/src/features/workspaces/viewer-browse.ts\<close>, and the role a user row is displayed with
  (\<open>pickMirroredRole\<close> of \<^verbatim>\<open>user-repository.ts\<close>).  Slugs are strings, as on the wire and in the database.
\<close>

section \<open>The catalogue\<close>

definition WORKSPACE_PERMISSION_SCOPES :: "(string \<times> string) list" where
  "WORKSPACE_PERMISSION_SCOPES =
    [(''WORKSPACE_BROWSE'', ''workspace:browse''), (''MESSAGES_SEARCH'', ''messages:search''),
     (''STREAMS_READ'', ''streams:read''), (''STREAMS_WRITE'', ''streams:write''),
     (''MESSAGES_READ'', ''messages:read''), (''MESSAGES_WRITE'', ''messages:write''),
     (''USERS_READ'', ''users:read''), (''MEMOS_READ'', ''memos:read''),
     (''ATTACHMENTS_READ'', ''attachments:read''), (''ATTACHMENTS_WRITE'', ''attachments:write''),
     (''LABELS_READ'', ''labels:read''), (''LABELS_WRITE'', ''labels:write''),
     (''DOCS_READ'', ''docs:read''), (''DOCS_WRITE'', ''docs:write''),
     (''BOTS_CREATE_PERSONAL'', ''bots:create:personal''), (''BOTS_CREATE_SHARED'', ''bots:create:shared''),
     (''BOTS_MANAGE'', ''bots:manage''), (''BOT_RUNTIME_READ'', ''bot-runtime:read''),
     (''BOT_RUNTIME_WRITE'', ''bot-runtime:write''), (''BOT_INVOCATIONS_READ'', ''bot-invocations:read''),
     (''BOT_INVOCATIONS_WRITE'', ''bot-invocations:write''), (''DELEGATIONS_READ'', ''delegations:read''),
     (''DELEGATIONS_WRITE'', ''delegations:write''), (''MEMBERS_WRITE'', ''members:write''),
     (''WORKSPACE_ADMIN'', ''workspace:admin''), (''WORKSPACE_OWNER'', ''workspace:owner'')]"

definition READ_AND_SELF_SERVE :: "string list" where
  "READ_AND_SELF_SERVE =
    [''workspace:browse'', ''messages:search'', ''streams:read'', ''streams:write'', ''messages:read'',
     ''messages:write'', ''users:read'', ''memos:read'', ''attachments:read'', ''attachments:write'',
     ''labels:read'', ''labels:write'', ''docs:read'', ''docs:write'', ''bots:create:personal'',
     ''delegations:read'', ''delegations:write'']"

definition GUEST_PERMISSIONS :: "string list" where
  "GUEST_PERMISSIONS =
    filter (\<lambda>slug. slug \<noteq> ''workspace:browse'' \<and> slug \<noteq> ''bots:create:personal'') READ_AND_SELF_SERVE"

definition ADMIN_ADDITIONS :: "string list" where
  "ADMIN_ADDITIONS =
    [''bots:create:shared'', ''bots:manage'', ''bot-runtime:read'', ''bot-runtime:write'', ''bot-invocations:read'',
     ''bot-invocations:write'', ''members:write'', ''workspace:admin'']"

record WorkspaceRoleDefinition =
  rd_slug :: string
  rd_name :: string
  rd_permissions :: "string list"

definition WORKSPACE_ROLE_DEFINITIONS :: "WorkspaceRoleDefinition list" where
  "WORKSPACE_ROLE_DEFINITIONS =
    [\<lparr>rd_slug = ''member'', rd_name = ''Member'', rd_permissions = READ_AND_SELF_SERVE\<rparr>,
     \<lparr>rd_slug = ''admin'', rd_name = ''Admin'', rd_permissions = READ_AND_SELF_SERVE @ ADMIN_ADDITIONS\<rparr>,
     \<lparr>rd_slug = ''owner'', rd_name = ''Owner'',
      rd_permissions = READ_AND_SELF_SERVE @ ADMIN_ADDITIONS @ [''workspace:owner'']\<rparr>,
     \<lparr>rd_slug = ''guest'', rd_name = ''Guest'', rd_permissions = GUEST_PERMISSIONS\<rparr>]"

definition WORKSPACE_USER_ROLES :: "string list" where
  "WORKSPACE_USER_ROLES = map rd_slug WORKSPACE_ROLE_DEFINITIONS"

definition WORKSPACE_INVITABLE_ROLES :: "string list" where
  "WORKSPACE_INVITABLE_ROLES = [''member'', ''admin'', ''guest'']"

definition WORKSPACE_ASSIGNABLE_ROLES :: "string list" where
  "WORKSPACE_ASSIGNABLE_ROLES = [''member'', ''admin'', ''owner'']"

definition role_definition :: "string \<Rightarrow> WorkspaceRoleDefinition option" where
  "role_definition slug = find (\<lambda>r. rd_slug r = slug) WORKSPACE_ROLE_DEFINITIONS"

definition permissionsForRole :: "string \<Rightarrow> string + string list" where
  "permissionsForRole slug =
    (case role_definition slug of
       None \<Rightarrow> Inl (''Unknown workspace role: '' @ slug)
     | Some r \<Rightarrow> Inr (rd_permissions r))"

definition roleDisplayName :: "string \<Rightarrow> string" where
  "roleDisplayName slug =
    (case map_of (map (\<lambda>r. (rd_slug r, rd_name r)) WORKSPACE_ROLE_DEFINITIONS) slug of
       None \<Rightarrow> slug
     | Some name \<Rightarrow> name)"

fun rolesGrant :: "string list \<Rightarrow> string \<Rightarrow> bool" where
  "rolesGrant [] permission = False"
| "rolesGrant (slug # slugs) permission =
    (case role_definition slug of
       None \<Rightarrow> rolesGrant slugs permission
     | Some r \<Rightarrow> permission \<in> set (rd_permissions r) \<or> rolesGrant slugs permission)"

definition parseJwtPermissions :: "string list \<Rightarrow> string list" where
  "parseJwtPermissions raw = filter (\<lambda>slug. slug \<in> set (map snd WORKSPACE_PERMISSION_SCOPES)) raw"

section \<open>Stored roles to permissions\<close>

text \<open>\<open>expandRoleSlugs\<close>: the union over the recognised roles, in the order a \<open>Set\<close> keeps.\<close>

fun expand_onto :: "string list \<Rightarrow> string list \<Rightarrow> string list" where
  "expand_onto acc [] = acc"
| "expand_onto acc (slug # slugs) =
    (if slug \<notin> set WORKSPACE_USER_ROLES then expand_onto acc slugs
     else case permissionsForRole slug of
            Inl _ \<Rightarrow> expand_onto acc slugs
          | Inr perms \<Rightarrow> expand_onto (foldl (\<lambda>u p. if p \<in> set u then u else u @ [p]) acc perms) slugs)"

definition expandRoleSlugs :: "string list \<Rightarrow> string list" where
  "expandRoleSlugs roleSlugs = expand_onto [] roleSlugs"

text \<open>\<open>pickMirroredRole\<close>: the first recognised slug of the mirror row, else the role of the user row.\<close>

definition pickMirroredRole :: "string list option \<Rightarrow> string \<Rightarrow> string" where
  "pickMirroredRole slugs fallback =
    (case slugs of
       None \<Rightarrow> fallback
     | Some ss \<Rightarrow> (case find (\<lambda>s. s \<in> set WORKSPACE_USER_ROLES) ss of None \<Rightarrow> fallback | Some s \<Rightarrow> s))"

definition roleSlugsHolding :: "string \<Rightarrow> string list" where
  "roleSlugsHolding scope = map rd_slug (filter (\<lambda>r. scope \<in> set (rd_permissions r)) WORKSPACE_ROLE_DEFINITIONS)"

text \<open>
  \<open>holdsRoleSlugsSql\<close>: an overlap with a null array is null, which the \<open>CASE\<close> treats like false.
  The mirror's slugs are those of the active mirror row joined to the user row, if any.
\<close>

definition overlaps :: "string list option \<Rightarrow> string list \<Rightarrow> bool" where
  "overlaps slugs wanted \<longleftrightarrow> (case slugs of None \<Rightarrow> False | Some ss \<Rightarrow> \<exists>s\<in>set ss. s \<in> set wanted)"

definition holdsRoleSlugs :: "string list \<Rightarrow> string list option \<Rightarrow> string \<Rightarrow> bool" where
  "holdsRoleSlugs holding mirror role =
    (if overlaps mirror WORKSPACE_USER_ROLES then overlaps mirror holding else role \<in> set holding)"

section \<open>The two resolutions agree\<close>

lemma foldl_union_set:
  "set (foldl (\<lambda>u p. if p \<in> set u then u else u @ [p]) acc perms) = set acc \<union> set perms"
  by (induction perms arbitrary: acc) auto

lemma role_definition_known: "slug \<in> set WORKSPACE_USER_ROLES \<longleftrightarrow> (\<exists>r. role_definition slug = Some r)"
  by (auto simp: WORKSPACE_USER_ROLES_def role_definition_def WORKSPACE_ROLE_DEFINITIONS_def)

lemma expand_onto_set:
  "p \<in> set (expand_onto acc slugs) \<longleftrightarrow> p \<in> set acc \<or> rolesGrant slugs p"
proof (induction acc slugs rule: expand_onto.induct)
  case (2 acc slug slugs)
  show ?case
  proof (cases "role_definition slug")
    case None
    then show ?thesis using 2(1) by (simp add: role_definition_known)
  next
    case (Some r)
    then have "slug \<in> set WORKSPACE_USER_ROLES" "permissionsForRole slug = Inr (rd_permissions r)"
      by (simp_all add: role_definition_known permissionsForRole_def)
    then show ?thesis using 2(3) Some by (auto simp: foldl_union_set)
  qed
qed simp

lemma expandRoleSlugs_set: "p \<in> set (expandRoleSlugs slugs) \<longleftrightarrow> rolesGrant slugs p"
  by (simp add: expandRoleSlugs_def expand_onto_set)

lemma roleSlugsHolding_iff:
  "slug \<in> set (roleSlugsHolding p) \<longleftrightarrow> (\<exists>r. role_definition slug = Some r \<and> p \<in> set (rd_permissions r))"
  by (auto simp: roleSlugsHolding_def role_definition_def WORKSPACE_ROLE_DEFINITIONS_def)

lemma rolesGrant_iff: "rolesGrant slugs p \<longleftrightarrow> (\<exists>s\<in>set slugs. s \<in> set (roleSlugsHolding p))"
  by (induction slugs) (auto simp: roleSlugsHolding_iff split: option.splits)


text \<open>The roles form a ladder, and the owner holds the whole catalogue.\<close>

lemma role_ladder:
  "set GUEST_PERMISSIONS \<subset> set READ_AND_SELF_SERVE"
  "set READ_AND_SELF_SERVE \<subset> set (READ_AND_SELF_SERVE @ ADMIN_ADDITIONS)"
  "set (READ_AND_SELF_SERVE @ ADMIN_ADDITIONS @ [''workspace:owner'']) = set (map snd WORKSPACE_PERMISSION_SCOPES)"
  by code_simp+

lemma browse_holders: "roleSlugsHolding ''workspace:browse'' = [''member'', ''admin'', ''owner'']"
  by code_simp

text \<open>
  A mirror row with two recognised roles is read two ways: the union of both roles decides access in SQL,
  the first role alone is the one the user is displayed with and seated by in the permission rooms.
\<close>

lemma two_roles_diverge:
  "holdsRoleSlugs (roleSlugsHolding ''workspace:browse'') (Some [''guest'', ''admin'']) ''guest''"
  "pickMirroredRole (Some [''guest'', ''admin'']) ''guest'' = ''guest''"
  "permissionsForRole ''guest'' = Inr GUEST_PERMISSIONS" "''workspace:browse'' \<notin> set GUEST_PERMISSIONS"
  by code_simp+

end
