(* ===== verification/Delivery_Groups.thy ===== *)
theory Delivery_Groups
  imports Permissions Outbox_Repository "HOL-Library.Monad_Syntax"
begin

text \<open>
  \<^verbatim>\<open>apps/backend/src/lib/outbox/delivery-groups.ts\<close> with the event lists of
  \<^verbatim>\<open>lib/outbox/repository.ts\<close>: the audience of every outbox event as delivery groups, and the
  Socket.IO rooms the groups stand for.  Payloads are JSON values; \<open>None\<close> is the \<open>TypeError\<close> of
  reading a field of null or of iterating something that is not iterable, \<open>Some None\<close> is the \<open>null\<close> of
  an event that rides the bot namespace or stays internal, \<open>Some (Some groups)\<close> a list of groups.
\<close>

section \<open>Event lists\<close>

definition STREAM_SCOPED_EVENTS :: "string list" where
  "STREAM_SCOPED_EVENTS =
    [''memo:created'', ''memo:updated'', ''message:created'', ''message:edited'', ''message:deleted'',
     ''message:shares_granted'', ''messages:moved'', ''thread:updated'', ''reaction:added'', ''reaction:removed'',
     ''stream:display_name_updated'', ''stream:member_joined'', ''stream:member_added'', ''stream:member_removed'',
     ''stream:memos_captured'', ''stream:description_set'', ''stream:agent_follow_up_scheduled'',
     ''stream:agent_follow_up_cancelled'', ''stream:brief_updated'', ''stream:delegation_created'',
     ''stream:delegation_status_changed'', ''stream:subagent_created'', ''stream:subagent_status_changed'',
     ''stream:bot_access_requested'', ''stream:bot_access_status_changed'', ''stream:decision_requested'',
     ''stream:decision_resolved'', ''stream:doc_created'', ''stream:doc_activity'', ''stream:doc_moved'', ''doc:updated'',
     ''call:participants_changed'', ''call:transport_transfer_changed'', ''stream:activity'', ''stream:message_count'',
     ''conversation:created'', ''conversation:updated'', ''conversation:message_assigned'',
     ''conversation:message_reassigned'', ''agent_session:started'', ''agent_session:completed'',
     ''agent_session:failed'', ''agent_session:interrupted'', ''agent_session:deleted'', ''link_preview:ready'',
     ''command:dispatched'', ''command:completed'', ''command:failed'', ''command:progress'']"

definition SYNC_LOG_EXCLUDED_EVENT_TYPES :: "string list" where
  "SYNC_LOG_EXCLUDED_EVENT_TYPES = [''doc:updated'']"

definition AUTHOR_SCOPED_EVENTS :: "string list" where
  "AUTHOR_SCOPED_EVENTS =
    [''stream:aside_anchored'', ''stream:read'', ''stream:read_set'', ''stream:read_all'', ''stream:read_messages'',
     ''stream:inbox_updated'', ''stream:notification_level_updated'', ''link_preview:dismissed'',
     ''user_preferences:updated'', ''sidebar_config:updated'']"

definition USER_SCOPED_EVENTS :: "string list" where
  "USER_SCOPED_EVENTS =
    [''activity:created'', ''activity:read'', ''saved:upserted'', ''saved:deleted'', ''saved_reminder:fired'',
     ''saved_suggestion:upserted'', ''scheduled_message:upserted'', ''scheduled_message:sent'',
     ''scheduled_message:cancelled'', ''draft:upserted'', ''draft:deleted'', ''board:conversation_hide_changed'',
     ''board:stream_mute_changed'', ''feature_flags:updated'', ''e2e:rewrap_needed'', ''call:invitation_created'',
     ''call:invitation_settled'']"

definition BOT_SCOPED_EVENTS :: "string list" where
  "BOT_SCOPED_EVENTS =
    [''bot_invocation:available'', ''bot_invocation:claimed'', ''bot_invocation:input_updated'',
     ''bot_invocation:cancelled'', ''bot:active_actor_changed'', ''bot:resync'', ''bot:session_archived'',
     ''bot:session_restored'', ''bot_decision:resolved'', ''bot_decision:cancelled'', ''bot:e2e_grant'', ''bot:e2e_revoke'']"

section \<open>Groups\<close>

definition WORKSPACE_GROUP :: string where "WORKSPACE_GROUP = ''workspace''"

definition streamGroup :: "string \<Rightarrow> string" where "streamGroup streamId = ''stream:'' @ streamId"

definition docReadersGroup :: "string \<Rightarrow> string" where "docReadersGroup docId = ''doc-readers:'' @ docId"

definition userGroup :: "string \<Rightarrow> string" where "userGroup userId = ''user:'' @ userId"

definition permissionGroup :: "string \<Rightarrow> string" where "permissionGroup slug = ''permission:'' @ slug"

definition BROWSE_GROUP :: string where "BROWSE_GROUP = permissionGroup ''workspace:browse''"

definition openAudienceGroups :: "json \<Rightarrow> string list" where
  "openAudienceGroups visibility =
    (if js_is visibility ''guest_public'' then [WORKSPACE_GROUP]
     else if js_is visibility ''public'' then [BROWSE_GROUP] else [])"

definition docReaderGroups :: "json \<Rightarrow> json \<Rightarrow> string list" where
  "docReaderGroups streamId streamType = (if js_is streamType ''doc'' then [docReadersGroup (js_string streamId)] else [])"

definition PERMISSION_SCOPED_EVENTS :: "(string \<times> string list) list" where
  "PERMISSION_SCOPED_EVENTS =
    [(''members:write'', [''invitation:sent'', ''invitation:accepted'', ''invitation:revoked'', ''invitation:link-created'',
        ''invitation:link-claimed'']),
     (''workspace:admin'', [''stream_connection:updated'']),
     (''workspace:browse'', [])]"

definition DELIVERED_PERMISSION_SCOPES :: "string list" where
  "DELIVERED_PERMISSION_SCOPES = map fst PERMISSION_SCOPED_EVENTS"

definition PERMISSION_GROUP_BY_EVENT :: "(string \<times> string) list" where
  "PERMISSION_GROUP_BY_EVENT =
    concat (map (\<lambda>(scope, eventTypes). map (\<lambda>eventType. (eventType, permissionGroup scope)) eventTypes) PERMISSION_SCOPED_EVENTS)"

text \<open>The role comes typed, so an unknown one does not occur; \<open>permissionsForRole\<close> would raise.\<close>

definition permissionGroupsForRole :: "string \<Rightarrow> string + string list" where
  "permissionGroupsForRole role =
    map_sum id (\<lambda>held. map permissionGroup (filter (\<lambda>slug. slug \<in> set held) DELIVERED_PERMISSION_SCOPES)) (permissionsForRole role)"

definition groupToRoom :: "string \<Rightarrow> string \<Rightarrow> string" where
  "groupToRoom ws grp = (if grp = WORKSPACE_GROUP then ''ws:'' @ ws else ''ws:'' @ ws @ '':'' @ grp)"

section \<open>Routing\<close>

text \<open>\<open>v.length\<close> and \<open>for .. of\<close>: arrays and strings have both, \<open>?.\<close> stops at null.\<close>

fun js_length :: "json \<Rightarrow> nat option" where
  "js_length (JArr vs) = Some (length vs)"
| "js_length (JStr s) = Some (length s)"
| "js_length _ = None"

fun js_iter :: "json \<Rightarrow> json list option" where
  "js_iter (JArr vs) = Some vs"
| "js_iter (JStr s) = Some (map (\<lambda>c. JStr [c]) s)"
| "js_iter _ = None"

definition stream_group_of :: "json \<Rightarrow> string" where "stream_group_of v = streamGroup (js_string v)"

definition user_group_of :: "json \<Rightarrow> string" where "user_group_of v = userGroup (js_string v)"

definition workspaceUserOf :: "OutboxEvent \<Rightarrow> (json \<times> json) option option" where
  "workspaceUserOf e =
    (if ev_type e \<in> {''workspace_user:added'', ''workspace_user:updated''} then do {
       ws \<leftarrow> jget ''workspaceId'' (ev_payload e); u \<leftarrow> jget ''user'' (ev_payload e); i \<leftarrow> jget ''id'' u; Some (Some (ws, i)) }
     else if ev_type e = ''workspace_user:removed'' then do {
       ws \<leftarrow> jget ''workspaceId'' (ev_payload e); i \<leftarrow> jget ''removedUserId'' (ev_payload e); Some (Some (ws, i)) }
     else Some None)"

text \<open>The branches of \<open>resolveDeliveryGroups\<close> that need more than one field, in the order of the source.\<close>

definition stream_created_groups :: "json \<Rightarrow> string list option" where
  "stream_created_groups p = do {
     stream \<leftarrow> jget ''stream'' p; anchor \<leftarrow> jget ''parentAnchorId'' stream; ty \<leftarrow> jget ''type'' stream;
     parent \<leftarrow> jget ''parentStreamId'' stream; streamId \<leftarrow> jget ''streamId'' p; dm \<leftarrow> jget ''dmUserIds'' p;
     visibility \<leftarrow> jget ''visibility'' stream; createdBy \<leftarrow> jget ''createdBy'' stream;
     if (truthy anchor \<and> js_is ty ''thread'') \<or> (js_is ty ''doc'' \<and> truthy parent)
     then Some [stream_group_of (coalesce parent streamId)]
     else if js_is ty ''dm'' \<and> js_length dm = Some 2
     then map_option (\<lambda>vs. map user_group_of (js_dedup vs)) (js_iter dm)
     else Some (openAudienceGroups visibility @ [user_group_of createdBy]) }"

definition stream_updated_groups :: "json \<Rightarrow> string list option" where
  "stream_updated_groups p = do {
     streamId \<leftarrow> jget ''streamId'' p; stream \<leftarrow> jget ''stream'' p; visibility \<leftarrow> jget ''visibility'' stream;
     rt \<leftarrow> jget ''rootStreamId'' stream; sid \<leftarrow> jget ''id'' stream; ty \<leftarrow> jget ''type'' stream;
     Some ((if js_is visibility ''guest_public'' \<and> \<not> truthy rt then WORKSPACE_GROUP else BROWSE_GROUP) #
       stream_group_of streamId # docReaderGroups sid ty) }"

definition conversation_groups :: "json \<Rightarrow> string list option" where
  "conversation_groups p = do {
     streamId \<leftarrow> jget ''streamId'' p; parent \<leftarrow> jget ''parentStreamId'' p; visibility \<leftarrow> jget ''streamVisibility'' p;
     Some (stream_group_of streamId # (if truthy parent then [stream_group_of parent] else []) @ openAudienceGroups visibility) }"

definition message_assigned_groups :: "json \<Rightarrow> string list option" where
  "message_assigned_groups p = do {
     streamId \<leftarrow> jget ''streamId'' p; parent \<leftarrow> jget ''parentStreamId'' p;
     Some (stream_group_of streamId # (if truthy parent then [stream_group_of parent] else [])) }"

definition display_name_groups :: "json \<Rightarrow> string list option" where
  "display_name_groups p = do {
     visibility \<leftarrow> jget ''visibility'' p; streamId \<leftarrow> jget ''streamId'' p; ty \<leftarrow> jget ''streamType'' p;
     Some (openAudienceGroups visibility @ stream_group_of streamId # docReaderGroups streamId ty) }"

definition archived_groups :: "json \<Rightarrow> string list option" where
  "archived_groups p = do {
     streamId \<leftarrow> jget ''streamId'' p; stream \<leftarrow> jget ''stream'' p; sid \<leftarrow> jget ''id'' stream; ty \<leftarrow> jget ''type'' stream;
     threads \<leftarrow> jget ''threadStreamIds'' p; ids \<leftarrow> js_iter (coalesce threads (JArr []));
     Some (stream_group_of streamId # docReaderGroups sid ty @ map stream_group_of (filter (\<lambda>t. t \<noteq> streamId) ids)) }"

definition call_groups :: "json \<Rightarrow> string list option" where
  "call_groups p = do {
     streamId \<leftarrow> jget ''streamId'' p; visibility \<leftarrow> jget ''streamVisibility'' p; members \<leftarrow> jget ''memberUserIds'' p;
     ids \<leftarrow> js_elems members;
     Some (stream_group_of streamId # openAudienceGroups visibility @ map user_group_of ids) }"

definition message_count_groups :: "json \<Rightarrow> string list option" where
  "message_count_groups p = do {
     streamId \<leftarrow> jget ''streamId'' p; rt \<leftarrow> jget ''rootStreamId'' p; visibility \<leftarrow> jget ''streamVisibility'' p;
     Some (stream_group_of streamId # (if truthy rt \<and> rt \<noteq> streamId then [stream_group_of rt] else []) @
       openAudienceGroups visibility) }"

definition agent_session_groups :: "json \<Rightarrow> string list option" where
  "agent_session_groups p = do {
     streamId \<leftarrow> jget ''streamId'' p; rt \<leftarrow> jget ''rootStreamId'' p;
     Some (if truthy rt \<and> rt \<noteq> streamId then [stream_group_of streamId, stream_group_of rt] else [stream_group_of streamId]) }"

definition agent_config_groups :: "json \<Rightarrow> string list option" where
  "agent_config_groups p = do {
     persona \<leftarrow> jget ''persona'' p; owner \<leftarrow> jget ''ownerUserId'' persona;
     Some [if truthy owner then user_group_of owner else WORKSPACE_GROUP] }"

definition memo_created_groups :: "json \<Rightarrow> string list option" where
  "memo_created_groups p = do {
     scopeUser \<leftarrow> jget ''scopeUserId'' p; streamId \<leftarrow> jget ''streamId'' p;
     Some (if truthy scopeUser then [user_group_of scopeUser] else if truthy streamId then [stream_group_of streamId] else []) }"

definition bot_groups :: "json \<Rightarrow> string list option" where
  "bot_groups p = do {
     bot \<leftarrow> jget ''bot'' p; ty \<leftarrow> jget ''type'' bot; owner \<leftarrow> jget ''ownerUserId'' bot;
     Some (if js_is ty ''personal'' then [BROWSE_GROUP, user_group_of owner] else [WORKSPACE_GROUP]) }"

definition attachment_groups :: "json \<Rightarrow> string list option" where
  "attachment_groups p = do {
     streamId \<leftarrow> jget ''streamId'' p; Some [if truthy streamId then stream_group_of streamId else WORKSPACE_GROUP] }"

text \<open>The audience named by one or two fields of the payload.\<close>

definition field_groups :: "(json \<Rightarrow> string) \<Rightarrow> string list \<Rightarrow> json \<Rightarrow> string list option" where
  "field_groups f ks p = those (map (\<lambda>k. map_option f (jget k p)) ks)"

definition doc_moved_groups :: "json \<Rightarrow> string list option" where
  "doc_moved_groups p = do {
     streamId \<leftarrow> jget ''streamId'' p; doc \<leftarrow> jget ''doc'' p; i \<leftarrow> jget ''id'' doc;
     Some [stream_group_of streamId, stream_group_of i, docReadersGroup (js_string i)] }"

text \<open>The last part of the routing, after the people directory.\<close>

definition resolve_tail :: "string \<Rightarrow> json \<Rightarrow> string list option" where
  "resolve_tail ty p =
    (if ty \<in> {''bot:created'', ''bot:updated''} then bot_groups p
     else if ty \<in> {''workspace_settings:updated'', ''feature_flags:workspace_updated'', ''workspace:name_updated''} then Some [WORKSPACE_GROUP]
     else case map_of PERMISSION_GROUP_BY_EVENT ty of
       Some grp \<Rightarrow> Some [grp]
     | None \<Rightarrow>
         if ty = ''stream:doc_moved'' then doc_moved_groups p
         else if ty \<in> set STREAM_SCOPED_EVENTS then field_groups stream_group_of [''streamId''] p
         else Some [BROWSE_GROUP])"

definition resolve_people :: "OutboxEvent \<Rightarrow> string list option" where
  "resolve_people e =
    (case workspaceUserOf e of
       None \<Rightarrow> None
     | Some (Some (ws, i)) \<Rightarrow> Some [BROWSE_GROUP, user_group_of i]
     | Some None \<Rightarrow> resolve_tail (ev_type e) (ev_payload e))"

definition connection_groups :: "OutboxEvent \<Rightarrow> string list option" where
  "connection_groups e = do {
     visibility \<leftarrow> jget ''streamVisibility'' (ev_payload e);
     if js_is visibility ''private''
     then do { admins \<leftarrow> jget ''adminMemberUserIds'' (ev_payload e); ids \<leftarrow> js_elems admins; Some (map user_group_of ids) }
     else resolve_people e }"

definition client_groups :: "OutboxEvent \<Rightarrow> string list option" where
  "client_groups e = (let ty = ev_type e; p = ev_payload e in
     if ty \<in> set USER_SCOPED_EVENTS then field_groups user_group_of [''targetUserId''] p
     else if ty \<in> set AUTHOR_SCOPED_EVENTS then field_groups user_group_of [''authorId''] p
     else if ty = ''stream:created'' then stream_created_groups p
     else if ty = ''stream:updated'' then stream_updated_groups p
     else if ty = ''stream:member_added'' then
       do { streamId \<leftarrow> jget ''streamId'' p; memberId \<leftarrow> jget ''memberId'' p; Some [stream_group_of streamId, user_group_of memberId] }
     else if ty \<in> {''conversation:created'', ''conversation:updated''} then conversation_groups p
     else if ty = ''conversation:message_assigned'' then message_assigned_groups p
     else if ty = ''messages:moved'' then field_groups stream_group_of [''sourceStreamId'', ''destinationStreamId''] p
     else if ty = ''stream:display_name_updated'' then display_name_groups p
     else if ty \<in> {''attachment:transcoded'', ''attachment:thumbnailed''} then attachment_groups p
     else if ty = ''attachment:upload_status_changed'' then field_groups stream_group_of [''streamId''] p
     else if ty \<in> {''label:created'', ''label:updated'', ''label:deleted'', ''label:assigned'', ''label:unassigned''}
       then field_groups user_group_of [''targetUserId''] p
     else if ty \<in> {''stream:archived'', ''stream:unarchived''} then archived_groups p
     else if ty = ''doc:updated'' then
       do { streamId \<leftarrow> jget ''streamId'' p; Some [stream_group_of streamId, docReadersGroup (js_string streamId)] }
     else if ty = ''agent_config:updated'' then agent_config_groups p
     else if ty \<in> {''stream:call_started'', ''stream:call_ended''} then call_groups p
     else if ty = ''stream:message_count'' then message_count_groups p
     else if ty \<in> {''agent_session:started'', ''agent_session:completed'', ''agent_session:failed'',
       ''agent_session:interrupted'', ''agent_session:deleted''} then agent_session_groups p
     else if ty = ''memo:created'' then memo_created_groups p
     else if ty = ''stream_connection:updated'' then connection_groups e
     else resolve_people e)"

definition resolveDeliveryGroups :: "OutboxEvent \<Rightarrow> string list option option" where
  "resolveDeliveryGroups e =
    (if ev_type e \<in> {''dynamic_naming:requested'', ''memo:shared_changed''} then Some (Some [])
     else if ev_type e \<in> set BOT_SCOPED_EVENTS then Some None
     else if ev_type e = ''e2e:rewrap_nudge'' then Some None
     else if ev_type e \<in> {''github_route:register'', ''github_route:unregister''} then Some None
     else if ev_type e = ''access:narrowed'' then Some None
     else map_option Some (client_groups e))"

section \<open>What guests hear\<close>

text \<open>
  The \<open>workspace\<close> group reaches guests.  An event is open to guests when it says nothing about a stream, or
  when the stream it speaks of is open to them.
\<close>

abbreviation field_is :: "json \<Rightarrow> string \<Rightarrow> string \<Rightarrow> bool" where
  "field_is v k s \<equiv> jget k v = Some (JStr s)"

definition open_to_guests :: "string \<Rightarrow> json \<Rightarrow> bool" where
  "open_to_guests ty p \<longleftrightarrow>
    ty \<in> {''workspace_settings:updated'', ''feature_flags:workspace_updated'', ''workspace:name_updated''} \<or>
    (ty = ''stream:created'' \<and> (\<exists>stream. jget ''stream'' p = Some stream \<and> field_is stream ''visibility'' ''guest_public'')) \<or>
    (ty = ''stream:updated'' \<and> (\<exists>stream rt. jget ''stream'' p = Some stream \<and> field_is stream ''visibility'' ''guest_public'' \<and>
       jget ''rootStreamId'' stream = Some rt \<and> \<not> truthy rt)) \<or>
    (ty \<in> {''conversation:created'', ''conversation:updated'', ''stream:call_started'', ''stream:call_ended'', ''stream:message_count''} \<and>
       field_is p ''streamVisibility'' ''guest_public'') \<or>
    (ty = ''stream:display_name_updated'' \<and> field_is p ''visibility'' ''guest_public'') \<or>
    (ty \<in> {''attachment:transcoded'', ''attachment:thumbnailed''} \<and> (\<exists>i. jget ''streamId'' p = Some i \<and> \<not> truthy i)) \<or>
    (ty = ''agent_config:updated'' \<and> (\<exists>persona owner. jget ''persona'' p = Some persona \<and> jget ''ownerUserId'' persona = Some owner \<and>
       \<not> truthy owner)) \<or>
    (ty \<in> {''bot:created'', ''bot:updated''} \<and> (\<exists>bot. jget ''bot'' p = Some bot \<and> \<not> field_is bot ''type'' ''personal''))"

lemma group_ne [simp]:
  "stream_group_of v \<noteq> WORKSPACE_GROUP" "user_group_of v \<noteq> WORKSPACE_GROUP" "docReadersGroup s \<noteq> WORKSPACE_GROUP"
  "permissionGroup s \<noteq> WORKSPACE_GROUP" "BROWSE_GROUP \<noteq> WORKSPACE_GROUP"
  "WORKSPACE_GROUP \<noteq> stream_group_of v" "WORKSPACE_GROUP \<noteq> user_group_of v" "WORKSPACE_GROUP \<noteq> docReadersGroup s"
  "WORKSPACE_GROUP \<noteq> permissionGroup s" "WORKSPACE_GROUP \<noteq> BROWSE_GROUP"
  by (simp_all add: stream_group_of_def streamGroup_def user_group_of_def userGroup_def docReadersGroup_def
      permissionGroup_def BROWSE_GROUP_def WORKSPACE_GROUP_def)

lemma openAudience_workspace: "WORKSPACE_GROUP \<in> set (openAudienceGroups v) \<longleftrightarrow> v = JStr ''guest_public''"
  by (auto simp: openAudienceGroups_def js_is_def)

lemma docReaderGroups_workspace [simp]: "WORKSPACE_GROUP \<notin> set (docReaderGroups i ty)"
  by (simp add: docReaderGroups_def)

lemma map_group_workspace [simp]:
  "WORKSPACE_GROUP \<notin> set (map user_group_of vs)" "WORKSPACE_GROUP \<notin> set (map stream_group_of vs)"
  by (auto simp: image_iff)

lemma field_groups_workspace:
  assumes "field_groups f ks p = Some gs" and "\<And>v. WORKSPACE_GROUP \<noteq> f v"
  shows "WORKSPACE_GROUP \<notin> set gs"
  using assms(1) unfolding field_groups_def
proof (induction ks arbitrary: gs)
  case (Cons k ks)
  then show ?case using assms(2) by (cases "jget k p") (auto split: option.splits)
qed simp

lemmas bind_splits = bind_eq_Some_conv

text \<open>One fact per branch: the \<open>workspace\<close> group comes from the visibility or from the missing owner.\<close>

lemma branch_workspace:
  "stream_created_groups p = Some gs \<Longrightarrow> WORKSPACE_GROUP \<in> set gs \<Longrightarrow> open_to_guests ''stream:created'' p"
  "stream_updated_groups p = Some gs \<Longrightarrow> WORKSPACE_GROUP \<in> set gs \<Longrightarrow> open_to_guests ''stream:updated'' p"
  "conversation_groups p = Some gs \<Longrightarrow> WORKSPACE_GROUP \<in> set gs \<Longrightarrow> field_is p ''streamVisibility'' ''guest_public''"
  "display_name_groups p = Some gs \<Longrightarrow> WORKSPACE_GROUP \<in> set gs \<Longrightarrow> field_is p ''visibility'' ''guest_public''"
  "call_groups p = Some gs \<Longrightarrow> WORKSPACE_GROUP \<in> set gs \<Longrightarrow> field_is p ''streamVisibility'' ''guest_public''"
  "message_count_groups p = Some gs \<Longrightarrow> WORKSPACE_GROUP \<in> set gs \<Longrightarrow> field_is p ''streamVisibility'' ''guest_public''"
  "attachment_groups p = Some gs \<Longrightarrow> WORKSPACE_GROUP \<in> set gs \<Longrightarrow> \<exists>i. jget ''streamId'' p = Some i \<and> \<not> truthy i"
  "agent_config_groups p = Some gs \<Longrightarrow> WORKSPACE_GROUP \<in> set gs \<Longrightarrow> open_to_guests ''agent_config:updated'' p"
  "bot_groups p = Some gs \<Longrightarrow> WORKSPACE_GROUP \<in> set gs \<Longrightarrow> \<exists>bot. jget ''bot'' p = Some bot \<and> \<not> field_is bot ''type'' ''personal''"
  subgoal by (auto simp: stream_created_groups_def bind_splits openAudience_workspace open_to_guests_def simp del: set_map split: if_splits)
  subgoal by (auto simp: stream_updated_groups_def bind_splits js_is_def open_to_guests_def split: if_splits)
  subgoal by (auto simp: conversation_groups_def bind_splits openAudience_workspace split: if_splits)
  subgoal by (auto simp: display_name_groups_def bind_splits openAudience_workspace split: if_splits)
  subgoal by (auto simp: call_groups_def bind_splits openAudience_workspace simp del: set_map split: if_splits)
  subgoal by (auto simp: message_count_groups_def bind_splits openAudience_workspace split: if_splits)
  subgoal by (auto simp: attachment_groups_def bind_splits split: if_splits)
  subgoal by (auto simp: agent_config_groups_def bind_splits open_to_guests_def split: if_splits)
  subgoal by (auto simp: bot_groups_def bind_splits js_is_def split: if_splits)
  done

lemma branch_no_workspace:
  "message_assigned_groups p = Some gs \<Longrightarrow> WORKSPACE_GROUP \<notin> set gs"
  "archived_groups p = Some gs \<Longrightarrow> WORKSPACE_GROUP \<notin> set gs"
  "agent_session_groups p = Some gs \<Longrightarrow> WORKSPACE_GROUP \<notin> set gs"
  "memo_created_groups p = Some gs \<Longrightarrow> WORKSPACE_GROUP \<notin> set gs"
  "doc_moved_groups p = Some gs \<Longrightarrow> WORKSPACE_GROUP \<notin> set gs"
  by (auto simp: message_assigned_groups_def archived_groups_def agent_session_groups_def memo_created_groups_def
      doc_moved_groups_def bind_splits simp del: set_map split: if_splits)

lemma permission_groups_no_workspace: "map_of PERMISSION_GROUP_BY_EVENT ty = Some g \<Longrightarrow> g \<noteq> WORKSPACE_GROUP"
  by (auto simp: PERMISSION_GROUP_BY_EVENT_def PERMISSION_SCOPED_EVENTS_def split: if_splits)

lemma tail_workspace:
  assumes "resolve_tail ty p = Some gs" and "WORKSPACE_GROUP \<in> set gs"
  shows "open_to_guests ty p"
proof (cases "ty \<in> {''bot:created'', ''bot:updated''}")
  case True
  with assms have "bot_groups p = Some gs" by (simp add: resolve_tail_def)
  from branch_workspace(9) [OF this assms(2)] True show ?thesis by (simp add: open_to_guests_def)
next
  case bot: False
  show ?thesis
  proof (cases "ty \<in> {''workspace_settings:updated'', ''feature_flags:workspace_updated'', ''workspace:name_updated''}")
    case False
    have "WORKSPACE_GROUP \<notin> set gs"
    proof (cases "map_of PERMISSION_GROUP_BY_EVENT ty")
      case None
      with assms(1) bot False show ?thesis
        using branch_no_workspace(5) field_groups_workspace [of stream_group_of "[''streamId'']" p gs]
        unfolding resolve_tail_def by (auto split: if_splits)
    next
      case (Some g)
      with assms(1) bot False have "gs = [g]" unfolding resolve_tail_def by simp
      with permission_groups_no_workspace [OF Some] show ?thesis by simp
    qed
    with assms(2) show ?thesis by contradiction
  qed (simp add: open_to_guests_def)
qed

lemma people_workspace:
  assumes "resolve_people e = Some gs" and "WORKSPACE_GROUP \<in> set gs"
  shows "open_to_guests (ev_type e) (ev_payload e)"
  using assms by (auto simp: resolve_people_def split: option.splits intro: tail_workspace)

lemma connection_workspace:
  assumes "connection_groups e = Some gs" and "WORKSPACE_GROUP \<in> set gs"
  shows "open_to_guests (ev_type e) (ev_payload e)"
  using assms people_workspace by (auto simp: connection_groups_def bind_splits simp del: set_map split: if_splits)

lemma client_workspace:
  assumes "client_groups e = Some gs" and w: "WORKSPACE_GROUP \<in> set gs"
  shows "open_to_guests (ev_type e) (ev_payload e)"
proof (rule ccontr)
  assume closed: "\<not> open_to_guests (ev_type e) (ev_payload e)"
  let ?p = "ev_payload e"
  note b = branch_workspace [of ?p gs, OF _ w] and n = branch_no_workspace [of ?p gs, THEN notE, OF _ w]
  note f = field_groups_workspace [where p = ?p and gs = gs, THEN notE, OF _ _ w]
  from closed have c: "ev_type e = ''stream:created'' \<longrightarrow> stream_created_groups ?p \<noteq> Some gs"
      "ev_type e = ''stream:updated'' \<longrightarrow> stream_updated_groups ?p \<noteq> Some gs"
      "ev_type e = ''agent_config:updated'' \<longrightarrow> agent_config_groups ?p \<noteq> Some gs"
    using b(1,2,8) by metis+
  from closed have d: "ev_type e \<in> {''conversation:created'', ''conversation:updated''} \<longrightarrow> conversation_groups ?p \<noteq> Some gs"
      "ev_type e = ''stream:display_name_updated'' \<longrightarrow> display_name_groups ?p \<noteq> Some gs"
      "ev_type e \<in> {''stream:call_started'', ''stream:call_ended''} \<longrightarrow> call_groups ?p \<noteq> Some gs"
      "ev_type e = ''stream:message_count'' \<longrightarrow> message_count_groups ?p \<noteq> Some gs"
      "ev_type e \<in> {''attachment:transcoded'', ''attachment:thumbnailed''} \<longrightarrow> attachment_groups ?p \<noteq> Some gs"
    using b(3-7) unfolding open_to_guests_def by blast+
  have o: "resolve_people e \<noteq> Some gs" "connection_groups e \<noteq> Some gs"
    using people_workspace connection_workspace w closed by blast+
  have v: "field_groups stream_group_of ks ?p \<noteq> Some gs" "field_groups user_group_of ks ?p \<noteq> Some gs" for ks
    using f [of stream_group_of ks] f [of user_group_of ks] by auto
  have m: "do { streamId \<leftarrow> jget ''streamId'' ?p; memberId \<leftarrow> jget ''memberId'' ?p; Some [stream_group_of streamId, user_group_of memberId] } \<noteq> Some gs"
      "do { streamId \<leftarrow> jget ''streamId'' ?p; Some [stream_group_of streamId, docReadersGroup (js_string streamId)] } \<noteq> Some gs"
    using w by (auto simp: bind_splits)
  have n': "message_assigned_groups ?p \<noteq> Some gs" "archived_groups ?p \<noteq> Some gs" "agent_session_groups ?p \<noteq> Some gs"
      "memo_created_groups ?p \<noteq> Some gs"
    using n(1-4) by blast+
  show False
    using assms(1) unfolding client_groups_def Let_def
    by (simp only: c d o v m n' split: if_split_asm)
qed

text \<open>
  C26. Routing fails closed for guests: when an event is routed to the whole workspace, which guests are part
  of, then it is one of the few events that say nothing about a stream, or the stream it is about is
  visible to guests.  Every other event type, known or not, stays out of the workspace group.
\<close>

theorem guests_hear_only_open_events:
  assumes "resolveDeliveryGroups e = Some (Some gs)" and "WORKSPACE_GROUP \<in> set gs"
  shows "open_to_guests (ev_type e) (ev_payload e)"
proof -
  from assms have "client_groups e = Some gs" by (auto simp: resolveDeliveryGroups_def split: if_splits)
  from client_workspace [OF this assms(2)] show ?thesis .
qed

definition ex_created :: "string \<Rightarrow> OutboxEvent" where
  "ex_created vis = \<lparr>ev_id = 1, ev_type = ''stream:created'', ev_payload = JObj [(''workspaceId'', JStr ''ws''), (''streamId'', JStr ''s1''),
     (''stream'', JObj [(''id'', JStr ''s1''), (''type'', JStr ''channel''), (''visibility'', JStr vis), (''createdBy'', JStr ''u1'')])],
     ev_createdAt = 0\<rparr>"

theorem guests_hear_only_open_events_witness:
  "open_to_guests (ev_type (ex_created ''guest_public'')) (ev_payload (ex_created ''guest_public''))"
proof -
  have "resolveDeliveryGroups (ex_created ''guest_public'') = Some (Some [''workspace'', ''user:u1''])" by code_simp
  from guests_hear_only_open_events [OF this] show ?thesis by (simp add: WORKSPACE_GROUP_def)
qed

text \<open>An event type nobody routes goes to those who may browse, and a private stream to its creator.\<close>

lemma unrouted_event_example:
  "resolveDeliveryGroups \<lparr>ev_id = 1, ev_type = ''brand:new'', ev_payload = JObj [], ev_createdAt = 0\<rparr> = Some (Some [BROWSE_GROUP])"
  "resolveDeliveryGroups (ex_created ''private'') = Some (Some [''user:u1''])"
  by code_simp+

end
