(* ===== verification/Workspace_Authz.thy ===== *)
theory Workspace_Authz
  imports Permissions Outbox_Repository
begin

text \<open>
  \<^verbatim>\<open>apps/backend/src/features/workspace-authz/\<close>: the regional mirror of WorkOS memberships, fed by
  events of the control plane that may arrive late, twice or out of order, and
  \<open>UserRepository\<close>'s reads of a user with the role the mirror gives.  The columns of a user row that
  take no part in authorisation are kept together in \<open>u_profile\<close>, in the form the read masks them to.
\<close>

record PermissionRow =
  wp_workspaceId :: string
  wp_workosUserId :: string
  wp_roleSlugs :: "string list"
  wp_status :: string
  wp_lastEventAt :: timestamp
  wp_createdAt :: timestamp
  wp_updatedAt :: timestamp

record UpsertParams =
  up_workspaceId :: string
  up_workosUserId :: string
  up_roleSlugs :: "string list"
  up_status :: string
  up_lastEventAt :: timestamp

record UserRow =
  u_id :: string
  u_workspaceId :: string
  u_workosUserId :: "string option"
  u_role :: string
  u_originWorkspaceId :: "string option"
  u_profile :: "(string \<times> json) list"

abbreviation row_key :: "PermissionRow \<Rightarrow> string \<times> string" where
  "row_key r \<equiv> (wp_workspaceId r, wp_workosUserId r)"

abbreviation params_key :: "UpsertParams \<Rightarrow> string \<times> string" where
  "params_key p \<equiv> (up_workspaceId p, up_workosUserId p)"

definition new_permission_row :: "timestamp \<Rightarrow> UpsertParams \<Rightarrow> PermissionRow" where
  "new_permission_row dbNow p =
    \<lparr>wp_workspaceId = up_workspaceId p, wp_workosUserId = up_workosUserId p, wp_roleSlugs = up_roleSlugs p,
     wp_status = up_status p, wp_lastEventAt = up_lastEventAt p, wp_createdAt = dbNow, wp_updatedAt = dbNow\<rparr>"

text \<open>\<open>INSERT .. ON CONFLICT (workspace_id, workos_user_id) DO UPDATE .. WHERE last_event_at < EXCLUDED.last_event_at\<close>.\<close>

definition permissions_upsert ::
  "timestamp \<Rightarrow> UpsertParams \<Rightarrow> PermissionRow table \<Rightarrow> PermissionRow table \<times> PermissionRow option" where
  "permissions_upsert dbNow p rows =
    (case find (\<lambda>r. row_key r = params_key p) rows of
       None \<Rightarrow> (rows @ [new_permission_row dbNow p], Some (new_permission_row dbNow p))
     | Some r \<Rightarrow>
         if wp_lastEventAt r < up_lastEventAt p
         then let set_row = (\<lambda>r. r\<lparr>wp_roleSlugs := up_roleSlugs p, wp_status := up_status p,
                                   wp_lastEventAt := up_lastEventAt p, wp_updatedAt := dbNow\<rparr>)
           in (sql_update (\<lambda>r. row_key r = params_key p) set_row rows, Some (set_row r))
         else (rows, None))"

definition markRemoved ::
  "timestamp \<Rightarrow> string \<Rightarrow> string \<Rightarrow> timestamp \<Rightarrow> PermissionRow table \<Rightarrow> PermissionRow table \<times> bool" where
  "markRemoved dbNow workspaceId workosUserId eventCreatedAt rows =
    (let (rows', r) = permissions_upsert dbNow
       \<lparr>up_workspaceId = workspaceId, up_workosUserId = workosUserId, up_roleSlugs = [], up_status = ''removed'',
        up_lastEventAt = eventCreatedAt\<rparr> rows
     in (rows', r \<noteq> None))"

definition getByWorkspaceAndUser :: "string \<Rightarrow> string \<Rightarrow> PermissionRow table \<Rightarrow> PermissionRow option" where
  "getByWorkspaceAndUser workspaceId workosUserId rows = find (\<lambda>r. row_key r = (workspaceId, workosUserId)) rows"

definition existsForWorkspace :: "string \<Rightarrow> PermissionRow table \<Rightarrow> bool" where
  "existsForWorkspace workspaceId rows \<longleftrightarrow> (\<exists>r\<in>set rows. wp_workspaceId r = workspaceId)"

definition listByWorkspace :: "string \<Rightarrow> PermissionRow table \<Rightarrow> PermissionRow list" where
  "listByWorkspace workspaceId rows = sort_key wp_createdAt (filter (\<lambda>r. wp_workspaceId r = workspaceId) rows)"

definition resolveActivePermissions :: "string \<Rightarrow> string \<Rightarrow> PermissionRow table \<Rightarrow> string list option" where
  "resolveActivePermissions workspaceId workosUserId rows =
    (case getByWorkspaceAndUser workspaceId workosUserId rows of
       None \<Rightarrow> None
     | Some mirror \<Rightarrow> if wp_status mirror \<noteq> ''active'' then None else Some (expandRoleSlugs (wp_roleSlugs mirror)))"

section \<open>Reading users\<close>

text \<open>The mirror row \<open>JOIN_AUTHZ_MIRROR\<close> finds for a user: active rows of the same WorkOS user only.\<close>

definition mirror_slugs :: "PermissionRow table \<Rightarrow> UserRow \<Rightarrow> string list option" where
  "mirror_slugs rows u =
    (case u_workosUserId u of
       None \<Rightarrow> None
     | Some w \<Rightarrow> map_option wp_roleSlugs
         (find (\<lambda>r. row_key r = (u_workspaceId u, w) \<and> wp_status r = ''active'') rows))"

definition mapRowToUser :: "PermissionRow table \<Rightarrow> UserRow \<Rightarrow> string + UserRow" where
  "mapRowToUser rows u =
    (let role = pickMirroredRole (mirror_slugs rows u) (u_role u)
     in if role \<in> set WORKSPACE_USER_ROLES then Inr (u\<lparr>u_role := role\<rparr>)
        else Inl (''User '' @ u_id u @ '' has unrecognized role slug '' @ [CHR 0x22] @ role @ [CHR 0x22]))"

definition findByWorkosUserIdInWorkspace ::
  "PermissionRow table \<Rightarrow> UserRow table \<Rightarrow> string \<Rightarrow> string \<Rightarrow> string + UserRow option" where
  "findByWorkosUserIdInWorkspace rows users workspaceId workosUserId =
    (case find (\<lambda>u. u_workspaceId u = workspaceId \<and> u_workosUserId u = Some workosUserId) users of
       None \<Rightarrow> Inr None
     | Some u \<Rightarrow> map_sum id Some (mapRowToUser rows u))"

definition user_findById ::
  "PermissionRow table \<Rightarrow> UserRow table \<Rightarrow> string \<Rightarrow> string \<Rightarrow> string + UserRow option" where
  "user_findById rows users workspaceId i =
    (case find (\<lambda>u. u_workspaceId u = workspaceId \<and> u_id u = i) users of
       None \<Rightarrow> Inr None
     | Some u \<Rightarrow> map_sum id Some (mapRowToUser rows u))"

definition user_json :: "UserRow \<Rightarrow> json" where
  "user_json u = JObj ([(''id'', JStr (u_id u)), (''workspaceId'', JStr (u_workspaceId u)),
     (''workosUserId'', case u_workosUserId u of None \<Rightarrow> JNull | Some w \<Rightarrow> JStr w), (''role'', JStr (u_role u)),
     (''originWorkspaceId'', case u_originWorkspaceId u of None \<Rightarrow> JNull | Some w \<Rightarrow> JStr w)] @ u_profile u)"

section \<open>Applying membership events\<close>

text \<open>A throw inside the transaction undoes the upsert: the result is the error alone.\<close>

definition applyMembershipChange ::
  "timestamp \<Rightarrow> UpsertParams \<Rightarrow> UserRow table \<Rightarrow> PermissionRow table \<times> OutboxDb \<Rightarrow> string + (PermissionRow table \<times> OutboxDb)" where
  "applyMembershipChange dbNow input users s =
    (case s of (rows, db) \<Rightarrow>
      (case permissions_upsert dbNow input rows of
         (rows', None) \<Rightarrow> Inr (rows', db)
       | (rows', Some updated) \<Rightarrow>
           if wp_status updated \<noteq> ''active'' then Inr (rows', db)
           else (case findByWorkosUserIdInWorkspace rows' users (up_workspaceId input) (up_workosUserId input) of
                   Inl e \<Rightarrow> Inl e
                 | Inr None \<Rightarrow> Inr (rows', db)
                 | Inr (Some u) \<Rightarrow> Inr (rows', fst (insert_event db dbNow ''workspace_user:updated''
                      (JObj [(''workspaceId'', JStr (up_workspaceId input)), (''user'', user_json u)]))))))"

definition applyMembershipRemoval ::
  "timestamp \<Rightarrow> string \<Rightarrow> string \<Rightarrow> timestamp \<Rightarrow> PermissionRow table \<Rightarrow> PermissionRow table" where
  "applyMembershipRemoval dbNow workspaceId workosUserId eventCreatedAt rows =
    fst (markRemoved dbNow workspaceId workosUserId eventCreatedAt rows)"

section \<open>The mirror converges\<close>

text \<open>What an event leaves in the mirror, seen as a register: slugs, status and the time of the event.\<close>

datatype membership_event =
    Membership_changed UpsertParams
  | Membership_removed string string timestamp

fun event_params :: "membership_event \<Rightarrow> UpsertParams" where
  "event_params (Membership_changed p) = p"
| "event_params (Membership_removed ws w t) =
    \<lparr>up_workspaceId = ws, up_workosUserId = w, up_roleSlugs = [], up_status = ''removed'', up_lastEventAt = t\<rparr>"

fun mirror_event :: "timestamp \<times> membership_event \<Rightarrow> PermissionRow table \<Rightarrow> PermissionRow table" where
  "mirror_event (dbNow, Membership_changed p) rows = fst (permissions_upsert dbNow p rows)"
| "mirror_event (dbNow, Membership_removed ws w t) rows = applyMembershipRemoval dbNow ws w t rows"

type_synonym mirror_state = "string list \<times> string \<times> timestamp"

definition register_of :: "PermissionRow table \<Rightarrow> string \<times> string \<Rightarrow> mirror_state option" where
  "register_of rows k = map_option (\<lambda>r. (wp_roleSlugs r, wp_status r, wp_lastEventAt r)) (getByWorkspaceAndUser (fst k) (snd k) rows)"

definition params_state :: "UpsertParams \<Rightarrow> mirror_state" where
  "params_state p = (up_roleSlugs p, up_status p, up_lastEventAt p)"

definition later :: "mirror_state option \<Rightarrow> mirror_state \<Rightarrow> mirror_state option" where
  "later st s = (case st of None \<Rightarrow> Some s | Some s0 \<Rightarrow> if snd (snd s0) < snd (snd s) then Some s else st)"

lemma mirror_event_upsert: "mirror_event e rows = fst (permissions_upsert (fst e) (event_params (snd e)) rows)"
  by (cases "(e, rows)" rule: mirror_event.cases) (simp_all add: applyMembershipRemoval_def markRemoved_def case_prod_beta)

lemma register_find: "register_of rows k = map_option (\<lambda>r. (wp_roleSlugs r, wp_status r, wp_lastEventAt r)) (find (\<lambda>r. row_key r = k) rows)"
  by (simp add: register_of_def getByWorkspaceAndUser_def)

lemma register_upsert:
  "register_of (fst (permissions_upsert dbNow p rows)) k =
    (if k = params_key p then later (register_of rows k) (params_state p) else register_of rows k)"
proof (cases "find (\<lambda>r. row_key r = params_key p) rows")
  case None
  then show ?thesis
    by (auto simp: permissions_upsert_def register_find find_append later_def params_state_def new_permission_row_def
        split: option.splits)
next
  case (Some r)
  let ?f = "\<lambda>r. r\<lparr>wp_roleSlugs := up_roleSlugs p, wp_status := up_status p, wp_lastEventAt := up_lastEventAt p, wp_updatedAt := dbNow\<rparr>"
  have "find (\<lambda>r. row_key r = k) (sql_update (\<lambda>r. row_key r = params_key p) ?f rows) =
      (if k = params_key p then map_option ?f (find (\<lambda>r. row_key r = k) rows) else find (\<lambda>r. row_key r = k) rows)"
    by (induction rows) auto
  then show ?thesis
    using Some by (auto simp: permissions_upsert_def register_find later_def params_state_def Let_def)
qed

lemma register_events:
  "register_of (fold mirror_event es rows) k =
    fold (\<lambda>s st. later st s)
      (map (\<lambda>e. params_state (event_params (snd e))) (filter (\<lambda>e. params_key (event_params (snd e)) = k) es)) (register_of rows k)"
  by (induction es arbitrary: rows) (simp_all add: mirror_event_upsert register_upsert)

text \<open>A fold of \<open>later\<close> ends in the start or in a state of the list, and none is later than it.\<close>

abbreviation event_time :: "mirror_state \<Rightarrow> timestamp" where
  "event_time s \<equiv> snd (snd s)"

abbreviation settle :: "mirror_state list \<Rightarrow> mirror_state option \<Rightarrow> mirror_state option" where
  "settle \<equiv> fold (\<lambda>s st. later st s)"

lemma settle_ge:
  "s \<in> set ss \<or> st = Some s \<Longrightarrow> \<exists>s'. settle ss st = Some s' \<and> event_time s \<le> event_time s'"
proof (induction ss arbitrary: st s)
  case (Cons x ss)
  obtain y where y: "later st x = Some y" "event_time x \<le> event_time y" "\<forall>s. st = Some s \<longrightarrow> event_time s \<le> event_time y"
  proof (cases st)
    case (Some s0)
    then show ?thesis using that [of "if event_time s0 < event_time x then x else s0"] by (simp add: later_def)
  qed (simp add: later_def)
  then have "s \<in> set ss \<or> event_time s \<le> event_time y" using Cons.prems by (auto simp del: split_paired_All)
  then show ?case using Cons.IH [of s "later st x"] Cons.IH [of y "later st x"] y(1) by fastforce
qed simp

lemma settle_from:
  "settle ss st = Some s' \<Longrightarrow> st = Some s' \<or> (s' \<in> set ss \<and> (\<forall>s0. st = Some s0 \<longrightarrow> event_time s0 < event_time s'))"
proof (induction ss arbitrary: st)
  case (Cons x ss)
  from Cons.prems have "settle ss (later st x) = Some s'" by simp
  note IH = Cons.IH [OF this]
  show ?case
  proof (cases st)
    case (Some s0)
    show ?thesis
    proof (cases "event_time s0 < event_time x")
      case True
      with IH Some have "x = s' \<or> s' \<in> set ss \<and> event_time x < event_time s'" by (simp add: later_def del: split_paired_All)
      with True Some show ?thesis by auto
    qed (use IH Some in \<open>auto simp: later_def\<close>)
  qed (use IH in \<open>auto simp: later_def\<close>)
qed simp

text \<open>
  The membership mirror converges however the control plane's events are delivered: any two
  deliveries of the same changes and removals, in any order, with any repetitions and at any times of
  arrival, leave every user with the same roles, status and event time, as long as different events of
  one user carry different times.  So a late or replayed event never resurrects a removed member.
\<close>

theorem mirror_converges:
  assumes "snd ` set es = snd ` set es'"
    and "\<forall>e\<in>snd ` set es. \<forall>e'\<in>snd ` set es. params_key (event_params e) = params_key (event_params e') \<longrightarrow>
      up_lastEventAt (event_params e) = up_lastEventAt (event_params e') \<longrightarrow> params_state (event_params e) = params_state (event_params e')"
  shows "register_of (fold mirror_event es rows) k = register_of (fold mirror_event es' rows) k"
proof -
  define states where "states es = map (\<lambda>e. params_state (event_params (snd e)))
      (filter (\<lambda>e. params_key (event_params (snd e)) = k) es)" for es :: "(timestamp \<times> membership_event) list"
  have set_states: "set (states es) = params_state ` event_params ` {e \<in> snd ` set es. params_key (event_params e) = k}" for es
    by (auto simp: states_def)
  then have same: "set (states es) = set (states es')" using assms(1) by simp
  have uniq: "s = s'" if "s \<in> set (states es)" "s' \<in> set (states es)" "snd (snd s) = snd (snd s')" for s s'
    using that assms(2) unfolding set_states by (fastforce simp: params_state_def)
  let ?st = "register_of rows k"
  have le: "\<exists>s'. settle (states es2) ?st = Some s' \<and> event_time s \<le> event_time s'"
    if "set (states es1) = set (states es2)" "settle (states es1) ?st = Some s" for es1 es2 s
    using settle_from [OF that(2)] settle_ge [of s "states es2" ?st] that(1) by auto
  have "settle (states es) ?st = settle (states es') ?st"
  proof (cases "settle (states es) ?st")
    case None
    with le [OF same [symmetric]] show ?thesis by (cases "settle (states es') ?st") auto
  next
    case (Some s)
    with le [OF same] obtain s' where s': "settle (states es') ?st = Some s'" "event_time s \<le> event_time s'" by blast
    with le [OF same [symmetric] s'(1)] Some have t: "event_time s = event_time s'" by auto
    from settle_from [OF Some] settle_from [OF s'(1)] t have "s = s'"
      using uniq [OF _ _ t] same by (metis less_irrefl option.inject)
    with Some s'(1) show ?thesis by simp
  qed
  then show ?thesis unfolding register_events states_def .
qed

definition ex_change :: "string \<Rightarrow> timestamp \<Rightarrow> membership_event" where
  "ex_change role t = Membership_changed \<lparr>up_workspaceId = ''ws'', up_workosUserId = ''u'', up_roleSlugs = [role],
     up_status = ''active'', up_lastEventAt = t\<rparr>"

theorem mirror_converges_witness:
  "register_of (fold mirror_event [(1, ex_change ''admin'' 10), (2, Membership_removed ''ws'' ''u'' 30), (3, ex_change ''member'' 20)] [])
      (''ws'', ''u'') =
   register_of (fold mirror_event [(1, Membership_removed ''ws'' ''u'' 30), (2, ex_change ''member'' 20), (3, ex_change ''admin'' 10),
      (4, ex_change ''admin'' 10)] []) (''ws'', ''u'')"
  by (rule mirror_converges) (auto simp: ex_change_def)

text \<open>A removed member has no permissions, whatever older events are replayed after the removal.\<close>

lemma removed_has_no_permissions:
  "resolveActivePermissions ''ws'' ''u'' (fold mirror_event [(1, Membership_removed ''ws'' ''u'' 30), (2, ex_change ''owner'' 20)] []) = None"
  by code_simp

end
