(* ===== verification/Stream_Access.thy ===== *)
theory Stream_Access
  imports Workspace_Authz
begin

text \<open>
  Who reads which stream: \<^verbatim>\<open>apps/backend/src/features/streams/access.ts\<close> with the browse permission
  of \<^verbatim>\<open>workspaces/viewer-browse.ts\<close> and the people a viewer may see of \<^verbatim>\<open>workspaces/people.ts\<close>.
  Each SQL fragment is a predicate over the tables it reads, spliced the way the source
  splices it; an inner join of a stream to its effective root is an existential over the
  \<open>streams\<close> table.  Comparisons with a null column do not hold.
\<close>

record StreamRow =
  st_id :: string
  st_workspaceId :: string
  st_type :: string
  st_parentStreamId :: "string option"
  st_rootStreamId :: "string option"
  st_visibility :: string
  st_originWorkspaceId :: "string option"

record MemberRow =
  sm_workspaceId :: string
  sm_streamId :: string
  sm_memberId :: string

record MessageRow =
  mg_workspaceId :: string
  mg_id :: string
  mg_streamId :: string
  mg_authorId :: string
  mg_deletedAt :: "timestamp option"

record SharedDocRow =
  sd_workspaceId :: string
  sd_docId :: string
  sd_shareMessageId :: string

record ConnectionRow =
  sc_workspaceId :: string
  sc_streamId :: string
  sc_role :: string
  sc_state :: string

record AccessDb =
  ad_streams :: "StreamRow table"
  ad_members :: "MemberRow table"
  ad_messages :: "MessageRow table"
  ad_sharedDocs :: "SharedDocRow table"
  ad_connections :: "ConnectionRow table"
  ad_users :: "UserRow table"
  ad_permissions :: "PermissionRow table"

text \<open>\<open>Visibilities\<close> of \<^verbatim>\<open>packages/types/src/constants.ts\<close>.\<close>

definition OPEN_VISIBILITIES :: "string list" where
  "OPEN_VISIBILITIES = [''public'', ''guest_public'']"

definition isOpenVisibility :: "string \<Rightarrow> bool" where
  "isOpenVisibility v \<longleftrightarrow> v \<in> set OPEN_VISIBILITIES"

section \<open>Users without browse\<close>

definition user_lacks_browse :: "AccessDb \<Rightarrow> UserRow \<Rightarrow> bool" where
  "user_lacks_browse db u \<longleftrightarrow>
    \<not> holdsRoleSlugs (roleSlugsHolding ''workspace:browse'') (mirror_slugs (ad_permissions db) u) (u_role u)"

definition viewersLackingBrowse :: "AccessDb \<Rightarrow> string \<Rightarrow> (UserRow \<Rightarrow> bool) \<Rightarrow> UserRow list" where
  "viewersLackingBrowse db ws viewerFilter =
    filter (\<lambda>u. u_workspaceId u = ws \<and> viewerFilter u \<and> user_lacks_browse db u) (ad_users db)"

definition viewerLacksBrowse :: "AccessDb \<Rightarrow> string \<Rightarrow> string \<Rightarrow> bool" where
  "viewerLacksBrowse db ws userId \<longleftrightarrow> viewersLackingBrowse db ws (\<lambda>u. u_id u = userId) \<noteq> []"

definition userIdsLackingBrowse :: "AccessDb \<Rightarrow> string \<Rightarrow> string list" where
  "userIdsLackingBrowse db ws = map u_id (viewersLackingBrowse db ws (\<lambda>_. True))"

definition anyUserLacksBrowse :: "AccessDb \<Rightarrow> string \<Rightarrow> string list \<Rightarrow> bool" where
  "anyUserLacksBrowse db ws userIds \<longleftrightarrow> viewersLackingBrowse db ws (\<lambda>u. u_id u \<in> set userIds) \<noteq> []"

definition findUserIdsWithoutBrowse :: "AccessDb \<Rightarrow> string \<Rightarrow> string list \<Rightarrow> string list" where
  "findUserIdsWithoutBrowse db ws userIds =
    (if userIds = [] then [] else map u_id (viewersLackingBrowse db ws (\<lambda>u. u_id u \<in> set userIds)))"

definition findUserIdsWithAdmin :: "AccessDb \<Rightarrow> string \<Rightarrow> string list \<Rightarrow> string list" where
  "findUserIdsWithAdmin db ws userIds =
    (if userIds = [] then []
     else map u_id (filter (\<lambda>u. u_workspaceId u = ws \<and> u_id u \<in> set userIds \<and>
       holdsRoleSlugs (roleSlugsHolding ''workspace:admin'') (mirror_slugs (ad_permissions db) u) (u_role u)) (ad_users db)))"

section \<open>Reading a stream\<close>

definition rootReadableWithoutMembership :: "AccessDb \<Rightarrow> string \<Rightarrow> string \<Rightarrow> string \<Rightarrow> bool" where
  "rootReadableWithoutMembership db ws userId visibility \<longleftrightarrow>
    visibility = ''guest_public'' \<or> (visibility = ''public'' \<and> \<not> viewerLacksBrowse db ws userId)"

definition is_member :: "AccessDb \<Rightarrow> string \<Rightarrow> string \<Rightarrow> string \<Rightarrow> bool" where
  "is_member db ws streamId userId \<longleftrightarrow>
    (\<exists>m\<in>set (ad_members db). sm_workspaceId m = ws \<and> sm_streamId m = streamId \<and> sm_memberId m = userId)"

definition rootReadable :: "AccessDb \<Rightarrow> string \<Rightarrow> string \<Rightarrow> StreamRow \<Rightarrow> bool" where
  "rootReadable db ws userId rt \<longleftrightarrow>
    rootReadableWithoutMembership db ws userId (st_visibility rt) \<or> is_member db ws (st_id rt) userId"

definition root_id :: "StreamRow \<Rightarrow> string" where
  "root_id s = (case st_rootStreamId s of None \<Rightarrow> st_id s | Some r \<Rightarrow> r)"

text \<open>\<open>JOIN streams root ON root.id = COALESCE(s.root_stream_id, s.id) AND root.workspace_id = s.workspace_id\<close>.\<close>

definition effective_root :: "AccessDb \<Rightarrow> StreamRow \<Rightarrow> StreamRow \<Rightarrow> bool" where
  "effective_root db s rt \<longleftrightarrow> rt \<in> set (ad_streams db) \<and> st_id rt = root_id s \<and> st_workspaceId rt = st_workspaceId s"

definition docGrantReadable :: "AccessDb \<Rightarrow> string \<Rightarrow> string \<Rightarrow> string \<Rightarrow> bool" where
  "docGrantReadable db ws userId docId \<longleftrightarrow>
    (\<exists>sd\<in>set (ad_sharedDocs db). \<exists>m\<in>set (ad_messages db). \<exists>s\<in>set (ad_streams db). \<exists>rt\<in>set (ad_streams db).
      sd_workspaceId sd = ws \<and> sd_docId sd = docId \<and> mg_workspaceId m = sd_workspaceId sd \<and> mg_id m = sd_shareMessageId sd \<and>
      mg_deletedAt m = None \<and> st_id s = mg_streamId m \<and> st_workspaceId s = sd_workspaceId sd \<and>
      st_id rt = root_id s \<and> st_workspaceId rt = sd_workspaceId sd \<and> rootReadable db ws userId rt)"

definition streamAccess :: "AccessDb \<Rightarrow> string \<Rightarrow> string \<Rightarrow> string \<Rightarrow> bool \<Rightarrow> bool" where
  "streamAccess db ws userId streamId docGrants \<longleftrightarrow>
    (\<exists>s\<in>set (ad_streams db). \<exists>rt\<in>set (ad_streams db).
      effective_root db s rt \<and> st_id s = streamId \<and> st_workspaceId s = ws \<and>
      (rootReadable db ws userId rt \<or> (docGrants \<and> st_type s = ''doc'' \<and> docGrantReadable db ws userId (st_id s))))"

definition listAccessibleStreamIds :: "AccessDb \<Rightarrow> string \<Rightarrow> string \<Rightarrow> string list \<Rightarrow> bool \<Rightarrow> string list" where
  "listAccessibleStreamIds db ws userId candidates docGrants =
    (if candidates = [] then []
     else map st_id (filter (\<lambda>s. st_workspaceId s = ws \<and> st_id s \<in> set candidates \<and>
       streamAccess db ws userId (st_id s) docGrants) (ad_streams db)))"

definition checkStreamAccess :: "AccessDb \<Rightarrow> string \<Rightarrow> string \<Rightarrow> string \<Rightarrow> bool \<Rightarrow> StreamRow option" where
  "checkStreamAccess db streamId ws userId docGrants =
    (case find (\<lambda>s. st_id s = streamId \<and> st_workspaceId s = ws) (ad_streams db) of
       None \<Rightarrow> None
     | Some s \<Rightarrow> if st_id s \<in> set (listAccessibleStreamIds db ws userId [st_id s] docGrants) then Some s else None)"

definition listUsersWithStreamAccess :: "AccessDb \<Rightarrow> string \<Rightarrow> string \<Rightarrow> string list \<Rightarrow> string list" where
  "listUsersWithStreamAccess db ws streamId userIds =
    (if userIds = [] then []
     else map u_id (filter (\<lambda>u. u_workspaceId u = ws \<and> u_id u \<in> set userIds \<and> streamAccess db ws (u_id u) streamId True) (ad_users db)))"

definition userReadsDocWithoutGrant :: "AccessDb \<Rightarrow> StreamRow \<Rightarrow> string \<Rightarrow> string \<Rightarrow> bool" where
  "userReadsDocWithoutGrant db doc ws userId \<longleftrightarrow> checkStreamAccess db (root_id doc) ws userId False \<noteq> None"

definition scopeReadsDocWithoutGrant :: "string set \<Rightarrow> StreamRow \<Rightarrow> bool" where
  "scopeReadsDocWithoutGrant scope doc \<longleftrightarrow>
    (case st_rootStreamId doc of None \<Rightarrow> False | Some r \<Rightarrow> st_id doc \<in> scope \<and> r \<in> scope)"

text \<open>The effective root in memory: a dangling root falls back to the stream itself.\<close>

definition resolveEffectiveAccessStream :: "AccessDb \<Rightarrow> StreamRow \<Rightarrow> StreamRow" where
  "resolveEffectiveAccessStream db s =
    (case st_rootStreamId s of
       None \<Rightarrow> s
     | Some r \<Rightarrow> (case find (\<lambda>t. st_workspaceId t = st_workspaceId s \<and> st_id t = r) (ad_streams db) of None \<Rightarrow> s | Some t \<Rightarrow> t))"

definition resolveEffectiveAccessStreams :: "AccessDb \<Rightarrow> string \<Rightarrow> StreamRow list \<Rightarrow> (StreamRow \<times> StreamRow) list" where
  "resolveEffectiveAccessStreams db ws streams =
    concat (map (\<lambda>t. if st_workspaceId t \<noteq> ws then []
      else (case find (\<lambda>r. st_workspaceId r = ws \<and> st_id r = root_id t) (ad_streams db) of None \<Rightarrow> [] | Some r \<Rightarrow> [(t, r)])) streams)"

section \<open>What everyone in a room reads\<close>

definition roomReadersAllBrowse :: "AccessDb \<Rightarrow> string \<Rightarrow> string \<Rightarrow> bool" where
  "roomReadersAllBrowse db ws roomStreamId \<longleftrightarrow>
    (\<exists>room\<in>set (ad_streams db). \<exists>rt\<in>set (ad_streams db).
      effective_root db room rt \<and> st_workspaceId room = ws \<and> st_id room = roomStreamId \<and>
      st_visibility rt \<noteq> ''guest_public'' \<and>
      \<not> anyUserLacksBrowse db ws
        (map sm_memberId (filter (\<lambda>m. sm_workspaceId m = ws \<and> sm_streamId m = st_id rt) (ad_members db))))"

definition roomReadableWithoutMembership :: "AccessDb \<Rightarrow> string \<Rightarrow> string \<Rightarrow> StreamRow \<Rightarrow> bool" where
  "roomReadableWithoutMembership db ws roomStreamId rt \<longleftrightarrow>
    st_visibility rt = ''guest_public'' \<or> (st_visibility rt = ''public'' \<and> roomReadersAllBrowse db ws roomStreamId)"

definition isRoomShared :: "AccessDb \<Rightarrow> string \<Rightarrow> string \<Rightarrow> bool" where
  "isRoomShared db ws roomStreamId \<longleftrightarrow>
    (\<exists>room\<in>set (ad_streams db). \<exists>rt\<in>set (ad_streams db).
      effective_root db room rt \<and> st_workspaceId room = ws \<and> st_id room = roomStreamId \<and>
      (st_originWorkspaceId rt \<noteq> None \<or>
       (\<exists>c\<in>set (ad_connections db). sc_workspaceId c = st_workspaceId rt \<and> sc_streamId c = st_id rt \<and>
          sc_role c = ''host'' \<and> sc_state c = ''active'')))"

definition listRoomReadableStreamIds :: "AccessDb \<Rightarrow> string \<Rightarrow> string \<Rightarrow> string list \<Rightarrow> string list" where
  "listRoomReadableStreamIds db ws roomStreamId candidates =
    (if candidates = [] then []
     else map st_id (filter (\<lambda>s. st_workspaceId s = ws \<and> st_id s \<in> set candidates \<and>
       (\<exists>rt\<in>set (ad_streams db). effective_root db s rt \<and>
          (st_id s = roomStreamId \<or> roomReadableWithoutMembership db ws roomStreamId rt))) (ad_streams db)))"

definition usersReadingWithoutMembership :: "AccessDb \<Rightarrow> string \<Rightarrow> string \<Rightarrow> string list \<Rightarrow> string list" where
  "usersReadingWithoutMembership db ws visibility userIds =
    (if visibility = ''guest_public'' then js_dedup userIds
     else if visibility = ''public''
     then let lacking = findUserIdsWithoutBrowse db ws userIds in js_dedup (filter (\<lambda>u. u \<notin> set lacking) userIds)
     else [])"

section \<open>The access rule\<close>

definition access_wf :: "AccessDb \<Rightarrow> bool" where
  "access_wf db \<longleftrightarrow> distinct (map st_id (ad_streams db)) \<and>
    (\<forall>s\<in>set (ad_streams db). \<forall>r\<in>set (ad_streams db). st_rootStreamId s = Some (st_id r) \<longrightarrow> st_rootStreamId r = None)"

lemma stream_unique:
  "access_wf db \<Longrightarrow> s \<in> set (ad_streams db) \<Longrightarrow> t \<in> set (ad_streams db) \<Longrightarrow> st_id s = st_id t \<Longrightarrow> s = t"
  by (auto simp: access_wf_def distinct_map inj_on_def)

lemma streamAccessI:
  "s \<in> set (ad_streams db) \<Longrightarrow> effective_root db s rt \<Longrightarrow> st_workspaceId s = ws \<Longrightarrow> rootReadable db ws u rt \<Longrightarrow>
    streamAccess db ws u (st_id s) g"
  by (auto simp: streamAccess_def effective_root_def)

lemma streamAccess_noGrantsE:
  assumes "streamAccess db ws u i False"
  obtains s rt where "s \<in> set (ad_streams db)" "effective_root db s rt" "st_id s = i" "st_workspaceId s = ws"
    "rootReadable db ws u rt"
  using assms by (auto simp: streamAccess_def)

lemma viewerLacksBrowse_any: "viewerLacksBrowse db ws u \<Longrightarrow> u \<in> set us \<Longrightarrow> anyUserLacksBrowse db ws us"
  by (auto simp: viewerLacksBrowse_def anyUserLacksBrowse_def viewersLackingBrowse_def filter_empty_conv)

lemma room_reader_browses:
  assumes wf: "access_wf db" and reads: "streamAccess db ws u room False" and all: "roomReadersAllBrowse db ws room"
  shows "\<not> viewerLacksBrowse db ws u"
proof
  assume lacks: "viewerLacksBrowse db ws u"
  from reads obtain s rt where s: "s \<in> set (ad_streams db)" "effective_root db s rt" "st_id s = room"
    "rootReadable db ws u rt" by (elim streamAccess_noGrantsE)
  from all obtain s' rt' where s': "s' \<in> set (ad_streams db)" "effective_root db s' rt'" "st_id s' = room"
    "st_visibility rt' \<noteq> ''guest_public''"
    "\<not> anyUserLacksBrowse db ws (map sm_memberId (filter (\<lambda>m. sm_workspaceId m = ws \<and> sm_streamId m = st_id rt') (ad_members db)))"
    by (auto simp: roomReadersAllBrowse_def)
  have "s' = s" using stream_unique [OF wf s'(1) s(1)] s(3) s'(3) by simp
  then have "rt' = rt" using stream_unique [OF wf, of rt' rt] s(2) s'(2) by (auto simp: effective_root_def)
  with s(4) s'(4) lacks have "is_member db ws (st_id rt) u" by (auto simp: rootReadable_def rootReadableWithoutMembership_def)
  then have "u \<in> set (map sm_memberId (filter (\<lambda>m. sm_workspaceId m = ws \<and> sm_streamId m = st_id rt) (ad_members db)))"
    by (auto simp: is_member_def)
  with s'(5) \<open>rt' = rt\<close> viewerLacksBrowse_any [OF lacks] show False by simp
qed

text \<open>
  C25. Content that passes the check for a whole room is readable by each of its readers: whoever reads
  the room's stream by membership or visibility also reads every stream that
  \<open>listRoomReadableStreamIds\<close> lets through, guests included.
\<close>

theorem room_readable_by_every_reader:
  assumes "access_wf db" and "streamAccess db ws u room False"
    and "i \<in> set (listRoomReadableStreamIds db ws room candidates)"
  shows "streamAccess db ws u i False"
proof -
  from assms(3) obtain s rt where s: "s \<in> set (ad_streams db)" "st_workspaceId s = ws" "st_id s = i"
    "effective_root db s rt" "i = room \<or> roomReadableWithoutMembership db ws room rt"
    by (auto simp: listRoomReadableStreamIds_def split: if_splits)
  show ?thesis
  proof (cases "i = room")
    case False
    with s(5) room_reader_browses [OF assms(1,2)] have "rootReadable db ws u rt"
      by (auto simp: roomReadableWithoutMembership_def rootReadable_def rootReadableWithoutMembership_def)
    with streamAccessI [OF s(1,4,2)] s(3) show ?thesis by blast
  qed (use assms(2) in simp)
qed

text \<open>
  The two forms of the rule for reading without membership agree: for every visibility and every
  user asked about, the TypeScript gate returns the user exactly when the SQL condition holds.
\<close>

theorem reading_without_membership_agrees:
  "u \<in> set (usersReadingWithoutMembership db ws visibility userIds) \<longleftrightarrow>
    u \<in> set userIds \<and> rootReadableWithoutMembership db ws u visibility"
proof -
  have "u \<in> set userIds \<Longrightarrow> u \<in> set (findUserIdsWithoutBrowse db ws userIds) \<longleftrightarrow> viewerLacksBrowse db ws u"
    by (auto simp: findUserIdsWithoutBrowse_def viewerLacksBrowse_def viewersLackingBrowse_def filter_empty_conv)
  then show ?thesis by (auto simp: usersReadingWithoutMembership_def rootReadableWithoutMembership_def Let_def)
qed

definition ex_stream :: "string \<Rightarrow> string \<Rightarrow> string option \<Rightarrow> string \<Rightarrow> StreamRow" where
  "ex_stream i ty rt vis = \<lparr>st_id = i, st_workspaceId = ''ws'', st_type = ty, st_parentStreamId = rt, st_rootStreamId = rt,
     st_visibility = vis, st_originWorkspaceId = None\<rparr>"

definition ex_user :: "string \<Rightarrow> string \<Rightarrow> UserRow" where
  "ex_user i role = \<lparr>u_id = i, u_workspaceId = ''ws'', u_workosUserId = None, u_role = role, u_originWorkspaceId = None, u_profile = []\<rparr>"

definition ex_member :: "string \<Rightarrow> string \<Rightarrow> MemberRow" where
  "ex_member s u = \<lparr>sm_workspaceId = ''ws'', sm_streamId = s, sm_memberId = u\<rparr>"

definition ex_access :: AccessDb where
  "ex_access = \<lparr>ad_streams = [ex_stream ''dm'' ''dm'' None ''private'', ex_stream ''general'' ''channel'' None ''public'',
       ex_stream ''thread'' ''thread'' (Some ''general'') ''public''],
     ad_members = [ex_member ''dm'' ''ann'', ex_member ''dm'' ''bob''], ad_messages = [], ad_sharedDocs = [], ad_connections = [],
     ad_users = [ex_user ''ann'' ''member'', ex_user ''bob'' ''admin'', ex_user ''gus'' ''guest''], ad_permissions = []\<rparr>"

theorem room_readable_by_every_reader_witness:
  "''thread'' \<in> set (listRoomReadableStreamIds ex_access ''ws'' ''dm'' [''thread'']) \<and> streamAccess ex_access ''ws'' ''ann'' ''thread'' False"
proof -
  have h: "access_wf ex_access" "streamAccess ex_access ''ws'' ''ann'' ''dm'' False"
    "''thread'' \<in> set (listRoomReadableStreamIds ex_access ''ws'' ''dm'' [''thread''])"
    by code_simp+
  from room_readable_by_every_reader [OF this] h(3) show ?thesis by simp
qed

text \<open>A guest in the room closes it to \<open>public\<close> content.\<close>

lemma guest_closes_the_room:
  "listRoomReadableStreamIds (ex_access\<lparr>ad_members := ex_member ''dm'' ''gus'' # ad_members ex_access\<rparr>) ''ws'' ''dm'' [''thread''] = []"
  by code_simp

end
