(* ===== verification/People.thy ===== *)
theory People
  imports Stream_Access
begin

text \<open>
  \<^verbatim>\<open>apps/backend/src/features/workspaces/people.ts\<close>: which workspace users a viewer may see or pick, and
  the query that finds, for a changed user, the guests who see that user.
\<close>

datatype PeoplePurpose = Purpose_visible | Purpose_targetable

datatype PeopleViewer = Viewer_user string | Viewer_room string | Viewer_workspace

definition peopleViewerForActor :: "string \<Rightarrow> string \<Rightarrow> PeopleViewer" where
  "peopleViewerForActor actorType actorId = (if actorType = ''user'' then Viewer_user actorId else Viewer_workspace)"

definition streamPeople :: "AccessDb \<Rightarrow> string \<Rightarrow> (string \<times> string) list" where
  "streamPeople db ws =
    map (\<lambda>m. (sm_streamId m, sm_memberId m)) (filter (\<lambda>m. sm_workspaceId m = ws) (ad_members db)) @
    map (\<lambda>m. (mg_streamId m, mg_authorId m)) (filter (\<lambda>m. mg_workspaceId m = ws \<and> mg_deletedAt m = None) (ad_messages db))"

definition peopleOfStreams :: "AccessDb \<Rightarrow> string \<Rightarrow> string list \<Rightarrow> string \<Rightarrow> bool" where
  "peopleOfStreams db ws streamIds userId \<longleftrightarrow> (\<exists>(sid, person)\<in>set (streamPeople db ws). person = userId \<and> sid \<in> set streamIds)"

fun visibleToViewer :: "AccessDb \<Rightarrow> string \<Rightarrow> PeopleViewer \<Rightarrow> string \<Rightarrow> bool" where
  "visibleToViewer db ws Viewer_workspace userId = True"
| "visibleToViewer db ws (Viewer_user viewer) userId =
    (\<not> viewerLacksBrowse db ws viewer \<or> userId = viewer \<or>
     peopleOfStreams db ws
       (map st_id (filter (\<lambda>s. st_workspaceId s = ws \<and> streamAccess db ws viewer (st_id s) True) (ad_streams db))) userId)"
| "visibleToViewer db ws (Viewer_room roomStreamId) userId =
    ((\<not> isRoomShared db ws roomStreamId \<and> roomReadersAllBrowse db ws roomStreamId) \<or>
     peopleOfStreams db ws
       (map st_id (filter (\<lambda>s. st_workspaceId s = ws \<and>
          (\<exists>rt\<in>set (ad_streams db). effective_root db s rt \<and>
             ((\<exists>room\<in>set (ad_streams db). st_workspaceId room = ws \<and> st_id room = roomStreamId \<and> st_id rt = root_id room) \<or>
              (\<not> isRoomShared db ws roomStreamId \<and> roomReadableWithoutMembership db ws roomStreamId rt)))) (ad_streams db))) userId)"

definition peopleScope :: "AccessDb \<Rightarrow> string \<Rightarrow> PeopleViewer \<Rightarrow> PeoplePurpose \<Rightarrow> UserRow \<Rightarrow> bool" where
  "peopleScope db ws viewer purpose u \<longleftrightarrow>
    (purpose = Purpose_targetable \<longrightarrow> u_originWorkspaceId u = None) \<and> visibleToViewer db ws viewer (u_id u)"

text \<open>\<open>subject_roots\<close>: the people asked about with the roots of the streams they are in.\<close>

definition subject_roots :: "AccessDb \<Rightarrow> string \<Rightarrow> string list \<Rightarrow> (string \<times> string) list" where
  "subject_roots db ws userIds =
    js_dedup (concat (map (\<lambda>(sid, person).
      if person \<in> set userIds \<and> userIdsLackingBrowse db ws \<noteq> []
      then map (\<lambda>s. (person, root_id s)) (filter (\<lambda>s. st_id s = sid \<and> st_workspaceId s = ws) (ad_streams db)) else [])
      (streamPeople db ws)))"

definition guest_viewer_rows :: "AccessDb \<Rightarrow> string \<Rightarrow> string list \<Rightarrow> (string \<times> string) list" where
  "guest_viewer_rows db ws userIds =
    (let roots = subject_roots db ws userIds
     in concat (map (\<lambda>subject. map (\<lambda>g. (subject, g)) (filter (\<lambda>g. g \<noteq> subject \<and>
          (\<exists>(p, r)\<in>set roots. p = subject \<and> streamAccess db ws g r True)) (userIdsLackingBrowse db ws)))
          (js_dedup (map fst roots))))"

definition push_viewer :: "string \<times> string \<Rightarrow> (string \<times> string list) list \<Rightarrow> (string \<times> string list) list" where
  "push_viewer row viewers =
    (case map_of viewers (fst row) of
       None \<Rightarrow> AList.update (fst row) [snd row] viewers
     | Some ids \<Rightarrow> AList.update (fst row) (ids @ [snd row]) viewers)"

definition listGuestViewers :: "AccessDb \<Rightarrow> string \<Rightarrow> string list \<Rightarrow> (string \<times> string list) list" where
  "listGuestViewers db ws userIds = (if userIds = [] then [] else fold push_viewer (guest_viewer_rows db ws userIds) [])"

text \<open>\<open>guests.get(userId) ?? []\<close>.\<close>

definition guests_of :: "(string \<times> string list) list \<Rightarrow> string \<Rightarrow> string list" where
  "guests_of viewers u = (case map_of viewers u of None \<Rightarrow> [] | Some gs \<Rightarrow> gs)"

lemma guests_of_push: "guests_of (push_viewer row viewers) u = guests_of viewers u @ (if fst row = u then [snd row] else [])"
  by (auto simp: guests_of_def push_viewer_def update_conv' split: option.splits)

lemma guests_of_fold:
  "guests_of (fold push_viewer rows viewers) u = guests_of viewers u @ map snd (filter (\<lambda>r. fst r = u) rows)"
  by (induction rows arbitrary: viewers) (simp_all add: guests_of_push)

lemma guests_of_rows: "g \<in> set (guests_of (listGuestViewers db ws userIds) u) \<longleftrightarrow> userIds \<noteq> [] \<and> (u, g) \<in> set (guest_viewer_rows db ws userIds)"
proof (cases "userIds = []")
  case False
  then have "guests_of (listGuestViewers db ws userIds) u = map snd (filter (\<lambda>r. fst r = u) (guest_viewer_rows db ws userIds))"
    by (simp add: listGuestViewers_def guests_of_fold) (simp add: guests_of_def)
  then show ?thesis using False by force
qed (simp add: listGuestViewers_def guests_of_def)

lemma subject_roots_iff:
  assumes "userIdsLackingBrowse db ws \<noteq> []"
  shows "(p, r) \<in> set (subject_roots db ws userIds) \<longleftrightarrow>
    p \<in> set userIds \<and> (\<exists>s\<in>set (ad_streams db). st_workspaceId s = ws \<and> r = root_id s \<and> (st_id s, p) \<in> set (streamPeople db ws))"
  using assms by (fastforce simp: subject_roots_def split: if_splits)

lemma lacking_iff: "viewerLacksBrowse db ws g \<longleftrightarrow> g \<in> set (userIdsLackingBrowse db ws)"
  by (auto simp: viewerLacksBrowse_def userIdsLackingBrowse_def viewersLackingBrowse_def filter_empty_conv)

lemma guest_rows_iff:
  "(u, g) \<in> set (guest_viewer_rows db ws userIds) \<longleftrightarrow>
    u \<in> set userIds \<and> g \<noteq> u \<and> viewerLacksBrowse db ws g \<and>
    (\<exists>s\<in>set (ad_streams db). st_workspaceId s = ws \<and> (st_id s, u) \<in> set (streamPeople db ws) \<and> streamAccess db ws g (root_id s) True)"
proof (cases "userIdsLackingBrowse db ws = []")
  case True
  then show ?thesis by (simp add: guest_viewer_rows_def lacking_iff)
next
  case False
  have "(u, g) \<in> set (guest_viewer_rows db ws userIds) \<longleftrightarrow>
      g \<noteq> u \<and> viewerLacksBrowse db ws g \<and> (\<exists>r. (u, r) \<in> set (subject_roots db ws userIds) \<and> streamAccess db ws g r True)"
    by (force simp: guest_viewer_rows_def Let_def lacking_iff)
  then show ?thesis unfolding subject_roots_iff [OF False] by auto
qed

text \<open>A stream below a root is read through the root alone, unless a share grant of a doc is in play.\<close>

definition grant_reads :: "AccessDb \<Rightarrow> string \<Rightarrow> string \<Rightarrow> StreamRow \<Rightarrow> bool" where
  "grant_reads db ws u s \<longleftrightarrow> st_type s = ''doc'' \<and> docGrantReadable db ws u (st_id s)"

lemma access_through_root:
  assumes wf: "access_wf db" and s: "s \<in> set (ad_streams db)" "st_workspaceId s = ws"
    and grants: "st_rootStreamId s \<noteq> None \<Longrightarrow> \<not> grant_reads db ws u s \<and> (\<forall>rt. effective_root db s rt \<longrightarrow> \<not> grant_reads db ws u rt)"
  shows "streamAccess db ws u (st_id s) True \<longleftrightarrow> streamAccess db ws u (root_id s) True"
proof (cases "st_rootStreamId s")
  case (Some r)
  have at: "streamAccess db ws u (st_id t) True \<longleftrightarrow>
      (\<exists>rt. effective_root db t rt \<and> (rootReadable db ws u rt \<or> grant_reads db ws u t))"
    if "t \<in> set (ad_streams db)" "st_workspaceId t = ws" for t
  proof
    assume "streamAccess db ws u (st_id t) True"
    then obtain t' rt where "t' \<in> set (ad_streams db)" "effective_root db t' rt" "st_id t' = st_id t"
      "rootReadable db ws u rt \<or> grant_reads db ws u t'" by (auto simp: streamAccess_def grant_reads_def)
    with stream_unique [OF wf _ that(1)] show "\<exists>rt. effective_root db t rt \<and> (rootReadable db ws u rt \<or> grant_reads db ws u t)" by blast
  next
    assume "\<exists>rt. effective_root db t rt \<and> (rootReadable db ws u rt \<or> grant_reads db ws u t)"
    then show "streamAccess db ws u (st_id t) True" using that by (auto simp: streamAccess_def grant_reads_def effective_root_def)
  qed
  show ?thesis
  proof (cases "\<exists>rt. effective_root db s rt")
    case True
    then obtain rt where rt: "effective_root db s rt" by blast
    then have r: "rt \<in> set (ad_streams db)" "st_id rt = r" "st_workspaceId rt = ws" using Some s by (auto simp: effective_root_def root_id_def)
    have "\<forall>s\<in>set (ad_streams db). \<forall>r\<in>set (ad_streams db). st_rootStreamId s = Some (st_id r) \<longrightarrow> st_rootStreamId r = None"
      using wf unfolding access_wf_def by (rule conjunct2)
    then have "st_rootStreamId rt = None" using s(1) r(1,2) Some by blast
    then have self: "effective_root db rt x \<longleftrightarrow> x = rt" for x
      using r stream_unique [OF wf, of x rt] by (auto simp: effective_root_def root_id_def)
    have one: "effective_root db s x \<longleftrightarrow> x = rt" for x
      using rt stream_unique [OF wf, of x rt] by (auto simp: effective_root_def)
    have "st_id rt = root_id s" using rt by (simp add: effective_root_def)
    then show ?thesis using at [OF s] at [OF r(1,3)] grants Some by (simp add: self one)
  next
    case False
    then have "\<not> streamAccess db ws u (root_id s) True"
      using s by (auto simp: streamAccess_def effective_root_def)
    with at [OF s] False show ?thesis by simp
  qed
qed (simp add: root_id_def)

text \<open>
  The guests who hear of a change of a user are those who may see the user: for a user asked about and a
  guest other than the user, \<open>listGuestViewers\<close> lists the guest exactly when \<open>peopleScopeSql\<close> shows
  the user to the guest, as long as the guest reads no doc of a nested stream through a share grant.
\<close>

theorem guest_viewers_match_people_scope:
  assumes "access_wf db" and "u_id u \<in> set userIds" and "g \<noteq> u_id u" and "viewerLacksBrowse db ws g"
    and "\<forall>s\<in>set (ad_streams db). st_workspaceId s = ws \<longrightarrow> st_rootStreamId s \<noteq> None \<longrightarrow>
      \<not> grant_reads db ws g s \<and> (\<forall>rt. effective_root db s rt \<longrightarrow> \<not> grant_reads db ws g rt)"
  shows "g \<in> set (guests_of (listGuestViewers db ws userIds) (u_id u)) \<longleftrightarrow>
    peopleScope db ws (Viewer_user g) Purpose_visible u"
proof -
  have "userIds \<noteq> []" using assms(2) by auto
  then have "g \<in> set (guests_of (listGuestViewers db ws userIds) (u_id u)) \<longleftrightarrow>
      (\<exists>s\<in>set (ad_streams db). st_workspaceId s = ws \<and> (st_id s, u_id u) \<in> set (streamPeople db ws) \<and> streamAccess db ws g (root_id s) True)"
    using assms(2-4) by (simp add: guests_of_rows guest_rows_iff)
  also have "\<dots> \<longleftrightarrow> (\<exists>s\<in>set (ad_streams db). st_workspaceId s = ws \<and> (st_id s, u_id u) \<in> set (streamPeople db ws) \<and>
      streamAccess db ws g (st_id s) True)"
    using access_through_root [OF assms(1), of _ ws g] assms(5) by blast
  also have "\<dots> \<longleftrightarrow> peopleScope db ws (Viewer_user g) Purpose_visible u"
    using assms(3,4) by (auto simp: peopleScope_def peopleOfStreams_def)
  finally show ?thesis .
qed

definition ex_people :: AccessDb where
  "ex_people = ex_access\<lparr>ad_members := [ex_member ''general'' ''gus'', ex_member ''general'' ''ann'']\<rparr>"

theorem guest_viewers_match_people_scope_witness:
  "''gus'' \<in> set (guests_of (listGuestViewers ex_people ''ws'' [''ann'']) ''ann'') \<and>
    peopleScope ex_people ''ws'' (Viewer_user ''gus'') Purpose_visible (ex_user ''ann'' ''member'')"
proof -
  have h: "access_wf ex_people" "u_id (ex_user ''ann'' ''member'') \<in> set [''ann'']" "''gus'' \<noteq> u_id (ex_user ''ann'' ''member'')"
    "viewerLacksBrowse ex_people ''ws'' ''gus''" "''gus'' \<in> set (guests_of (listGuestViewers ex_people ''ws'' [''ann'']) ''ann'')"
    "u_id (ex_user ''ann'' ''member'') = ''ann''"
    by code_simp+
  have "\<forall>s\<in>set (ad_streams ex_people). st_workspaceId s = ''ws'' \<longrightarrow> st_rootStreamId s \<noteq> None \<longrightarrow>
      \<not> grant_reads ex_people ''ws'' ''gus'' s \<and> (\<forall>rt. effective_root ex_people s rt \<longrightarrow> \<not> grant_reads ex_people ''ws'' ''gus'' rt)"
    by (simp add: grant_reads_def docGrantReadable_def ex_people_def ex_access_def)
  from guest_viewers_match_people_scope [OF h(1-4) this] h(5,6) show ?thesis by simp
qed

text \<open>
  With grants the two differ both ways.  A guest who reads a nested doc through a grant sees its authors, but
  is not told of their changes; and a guest who reads a top-level doc through a grant is told of
  people who only wrote in the doc's threads, whom the guest may not see.
\<close>

definition ex_grant :: "string \<Rightarrow> string option \<Rightarrow> AccessDb" where
  "ex_grant author rt = \<lparr>ad_streams = [ex_stream ''host'' ''channel'' None ''private'', ex_stream ''doc'' ''doc'' rt ''private'',
       ex_stream ''section'' ''thread'' (Some (case rt of None \<Rightarrow> ''doc'' | Some r \<Rightarrow> r)) ''private'', ex_stream ''lobby'' ''channel'' None ''private''],
     ad_members = [ex_member ''lobby'' ''gus''],
     ad_messages = [\<lparr>mg_workspaceId = ''ws'', mg_id = ''m1'', mg_streamId = ''lobby'', mg_authorId = ''bob'', mg_deletedAt = None\<rparr>,
       \<lparr>mg_workspaceId = ''ws'', mg_id = ''m2'', mg_streamId = author, mg_authorId = ''ann'', mg_deletedAt = None\<rparr>],
     ad_sharedDocs = [\<lparr>sd_workspaceId = ''ws'', sd_docId = ''doc'', sd_shareMessageId = ''m1''\<rparr>], ad_connections = [],
     ad_users = [ex_user ''ann'' ''member'', ex_user ''bob'' ''member'', ex_user ''gus'' ''guest''], ad_permissions = []\<rparr>"

lemma grant_reader_not_told:
  "peopleScope (ex_grant ''doc'' (Some ''host'')) ''ws'' (Viewer_user ''gus'') Purpose_visible (ex_user ''ann'' ''member'')"
  "listGuestViewers (ex_grant ''doc'' (Some ''host'')) ''ws'' [''ann''] = []"
  by code_simp+

lemma grant_reader_told_too_much:
  "\<not> peopleScope (ex_grant ''section'' None) ''ws'' (Viewer_user ''gus'') Purpose_visible (ex_user ''ann'' ''member'')"
  "listGuestViewers (ex_grant ''section'' None) ''ws'' [''ann''] = [(''ann'', [''gus''])]"
  by code_simp+

end
