(* ===== verification/Slots.thy ===== *)
theory Slots
  imports Json "HOL-Library.Log_Nat"
begin

text \<open>
  \<^verbatim>\<open>packages/types/src/slots.ts\<close>: the keys of the hydration envelope.  A key names a shared message, the
  revision it is pinned to and the span of that revision.  \<open>Number(..)\<close> of a string of digits is the nearest
  double (ties to even); values beyond the largest double, which JavaScript reads as \<open>Infinity\<close>, are not
  treated apart.  \<open>\<^verbatim>\<open>`${n}`\<close>\<close> prints integers below \<open>10\<^sup>2\<^sup>1\<close> as plain digits.
\<close>

record ContentRange =
  cr_from :: int
  cr_to :: int

record SharedMessageRef =
  sr_messageId :: string
  sr_version :: "int option"
  sr_range :: "ContentRange option"

definition sharedMessageSlotKey :: "string \<Rightarrow> int option \<Rightarrow> ContentRange option \<Rightarrow> string" where
  "sharedMessageSlotKey messageId version rng =
    (case version of
       None \<Rightarrow> ''shared:'' @ messageId
     | Some v \<Rightarrow> (case rng of
         None \<Rightarrow> ''shared:'' @ messageId @ ''@'' @ int_digits v
       | Some r \<Rightarrow> ''shared:'' @ messageId @ ''@'' @ int_digits v @ '':'' @ int_digits (cr_from r) @ ''-'' @ int_digits (cr_to r)))"

definition is_digit :: "char \<Rightarrow> bool" where
  "is_digit c \<longleftrightarrow> 48 \<le> (of_char c :: nat) \<and> (of_char c :: nat) \<le> 57"

definition digits_value :: "string \<Rightarrow> nat" where
  "digits_value s = foldl (\<lambda>a c. 10 * a + (of_char c - 48)) 0 s"

definition js_double :: "nat \<Rightarrow> nat" where
  "js_double n =
    (if n < 2 ^ 53 then n
     else let e = floorlog 2 n - 53; q = n div 2 ^ e; r = n mod 2 ^ e; half = 2 ^ (e - 1)
       in (if r > half \<or> (r = half \<and> odd q) then q + 1 else q) * 2 ^ e)"

definition js_Number_digits :: "string \<Rightarrow> int" where
  "js_Number_digits s = int (js_double (digits_value s))"

text \<open>
  The pattern \<open>\<^verbatim>\<open>^shared:([^@]+)(?:@(\d+)(?::(\d+)-(\d+))?)?$\<close>\<close>.  Its groups cannot overlap, so matching from left
  to right is the only match: the id up to the first \<open>@\<close>, then digits, then a span.
\<close>

fun match_span :: "string \<Rightarrow> (string \<times> string) option option" where
  "match_span [] = Some None"
| "match_span (c # s) =
    (let from = takeWhile is_digit s; rest = dropWhile is_digit s
     in if c \<noteq> CHR '':'' \<or> from = [] then None
        else (case rest of
                [] \<Rightarrow> None
              | d # to \<Rightarrow> if d = CHR ''-'' \<and> to \<noteq> [] \<and> (\<forall>x\<in>set to. is_digit x) then Some (Some (from, to)) else None))"

definition match_pin :: "string \<Rightarrow> (string \<times> (string \<times> string) option) option option" where
  "match_pin s =
    (case s of
       [] \<Rightarrow> Some None
     | c # s' \<Rightarrow>
         let version = takeWhile is_digit s'
         in if version = [] then None
            else map_option (\<lambda>span. Some (version, span)) (match_span (dropWhile is_digit s')))"

definition parseSharedMessageSlotKey :: "string \<Rightarrow> SharedMessageRef option" where
  "parseSharedMessageSlotKey key =
    (if take 7 key \<noteq> ''shared:'' then None
     else
       let messageId = takeWhile (\<lambda>c. c \<noteq> CHR ''@'') (drop 7 key)
       in if messageId = [] then None
          else map_option (\<lambda>pin.
                 \<lparr>sr_messageId = messageId,
                  sr_version = map_option (\<lambda>(version, _). js_Number_digits version) pin,
                  sr_range = (case pin of
                    Some (_, Some (from, to)) \<Rightarrow> Some \<lparr>cr_from = js_Number_digits from, cr_to = js_Number_digits to\<rparr>
                  | _ \<Rightarrow> None)\<rparr>)
               (match_pin (dropWhile (\<lambda>c. c \<noteq> CHR ''@'') (drop 7 key))))"

section \<open>Printing and parsing\<close>

lemma digit_char [simp]: "n < 10 \<Longrightarrow> (of_char (char_of (n + 48) :: char) :: nat) = n + 48"
  by (simp add: of_char_of take_bit_nat_def)

lemma nat_digits_digits: "\<forall>c\<in>set (nat_digits n). is_digit c"
proof (induction n rule: nat_digits.induct)
  case (1 n)
  have last: "is_digit (char_of (n mod 10 + 48))" by (simp add: is_digit_def)
  show ?case
  proof (cases "n < 10")
    case True
    then show ?thesis by (subst nat_digits.simps) (simp add: is_digit_def)
  next
    case False
    then show ?thesis using 1 last by (subst nat_digits.simps) auto
  qed
qed

lemma nat_digits_ne [simp]: "nat_digits n \<noteq> []"
  by (subst nat_digits.simps) simp

lemma digits_value_snoc: "digits_value (s @ [c]) = 10 * digits_value s + (of_char c - 48)"
  by (simp add: digits_value_def)

lemma digits_value_nat_digits [simp]: "digits_value (nat_digits n) = n"
proof (induction n rule: nat_digits.induct)
  case (1 n)
  show ?case
  proof (cases "n < 10")
    case True
    then show ?thesis by (subst nat_digits.simps) (simp add: digits_value_def)
  next
    case False
    then show ?thesis using 1 by (subst nat_digits.simps) (simp add: digits_value_snoc)
  qed
qed

definition safe_number :: "int \<Rightarrow> bool" where
  "safe_number i \<longleftrightarrow> 0 \<le> i \<and> i < 2 ^ 53"

lemma safe_digits:
  assumes "safe_number i"
  shows "js_Number_digits (int_digits i) = i" "int_digits i \<noteq> []" "\<forall>c\<in>set (int_digits i). is_digit c"
proof -
  have d: "int_digits i = nat_digits (nat i)" using assms by (simp add: int_digits_def safe_number_def)
  have "nat i < 2 ^ 53" using assms by (simp add: safe_number_def nat_less_iff)
  then show "js_Number_digits (int_digits i) = i"
    using assms by (simp add: d js_Number_digits_def js_double_def safe_number_def)
  show "int_digits i \<noteq> []" "\<forall>c\<in>set (int_digits i). is_digit c" using nat_digits_digits by (simp_all add: d)
qed

lemma takeWhile_digits:
  "\<forall>c\<in>set ds. is_digit c \<Longrightarrow> \<not> is_digit x \<Longrightarrow>
    takeWhile is_digit (ds @ x # s) = ds \<and> dropWhile is_digit (ds @ x # s) = x # s"
  "\<forall>c\<in>set ds. is_digit c \<Longrightarrow> takeWhile is_digit ds = ds \<and> dropWhile is_digit ds = []"
  by (induction ds) auto

lemma split_at_id:
  "CHR ''@'' \<notin> set m \<Longrightarrow> takeWhile (\<lambda>c. c \<noteq> CHR ''@'') (m @ CHR ''@'' # s) = m \<and>
    dropWhile (\<lambda>c. c \<noteq> CHR ''@'') (m @ CHR ''@'' # s) = CHR ''@'' # s"
  "CHR ''@'' \<notin> set m \<Longrightarrow> takeWhile (\<lambda>c. c \<noteq> CHR ''@'') m = m \<and> dropWhile (\<lambda>c. c \<noteq> CHR ''@'') m = []"
  by (induction m) auto

lemma separators [simp]: "\<not> is_digit (CHR '':'')" "\<not> is_digit (CHR ''-'')"
  by (simp_all add: is_digit_def)

lemma match_span_digits:
  assumes "\<forall>c\<in>set f. is_digit c" "f \<noteq> []" "\<forall>c\<in>set t. is_digit c" "t \<noteq> []"
  shows "match_span (CHR '':'' # f @ CHR ''-'' # t) = Some (Some (f, t))"
  using assms by (simp add: takeWhile_digits)

text \<open>The references a pointer node carries: an id, and a span only together with a revision.\<close>

definition wf_ref :: "SharedMessageRef \<Rightarrow> bool" where
  "wf_ref r \<longleftrightarrow> sr_messageId r \<noteq> [] \<and> CHR ''@'' \<notin> set (sr_messageId r) \<and>
    (case sr_version r of None \<Rightarrow> sr_range r = None | Some v \<Rightarrow> safe_number v) \<and>
    (case sr_range r of None \<Rightarrow> True | Some x \<Rightarrow> safe_number (cr_from x) \<and> safe_number (cr_to x))"

text \<open>
  C40. Parsing the key of a shared-message slot gives back the reference it was printed from: the id, the
  pinned revision and the span, whenever the id is not empty and has no \<open>@\<close>, the numbers are non-negative
  safe integers and a span comes with a revision.  So two different references never share a key.
\<close>

theorem slot_key_roundtrip:
  assumes "wf_ref r"
  shows "parseSharedMessageSlotKey (sharedMessageSlotKey (sr_messageId r) (sr_version r) (sr_range r)) = Some r"
proof -
  obtain m v x where r: "r = \<lparr>sr_messageId = m, sr_version = v, sr_range = x\<rparr>" by (cases r)
  have m: "m \<noteq> []" "CHR ''@'' \<notin> set m" using assms by (simp_all add: wf_ref_def r)
  show ?thesis
  proof (cases v)
    case None
    then have "x = None" using assms by (simp add: wf_ref_def r)
    with None m show ?thesis
      by (simp add: r sharedMessageSlotKey_def parseSharedMessageSlotKey_def split_at_id match_pin_def)
  next
    case (Some n)
    then have n: "safe_number n" using assms by (simp add: wf_ref_def r)
    show ?thesis
    proof (cases x)
      case None
      then show ?thesis using m safe_digits [OF n]
        by (simp add: r Some sharedMessageSlotKey_def parseSharedMessageSlotKey_def split_at_id match_pin_def Let_def takeWhile_digits)
    next
      case (Some y)
      obtain f t where y: "y = \<lparr>cr_from = f, cr_to = t\<rparr>" by (cases y)
      have ft: "safe_number f" "safe_number t" using assms by (simp_all add: wf_ref_def r Some y)
      have sp: "match_span (CHR '':'' # int_digits f @ CHR ''-'' # int_digits t) = Some (Some (int_digits f, int_digits t))"
        using safe_digits [OF ft(1)] safe_digits [OF ft(2)] by (intro match_span_digits) auto
      show ?thesis using m safe_digits [OF n] safe_digits [OF ft(1)] safe_digits [OF ft(2)] sp
        by (simp add: r \<open>v = Some n\<close> Some y sharedMessageSlotKey_def parseSharedMessageSlotKey_def split_at_id match_pin_def
            Let_def takeWhile_digits del: match_span.simps)
    qed
  qed
qed

theorem slot_key_roundtrip_witness:
  "parseSharedMessageSlotKey (sharedMessageSlotKey ''msg_1'' (Some 12) (Some \<lparr>cr_from = 3, cr_to = 40\<rparr>)) =
    Some \<lparr>sr_messageId = ''msg_1'', sr_version = Some 12, sr_range = Some \<lparr>cr_from = 3, cr_to = 40\<rparr>\<rparr>"
  using slot_key_roundtrip [of "\<lparr>sr_messageId = ''msg_1'', sr_version = Some 12, sr_range = Some \<lparr>cr_from = 3, cr_to = 40\<rparr>\<rparr>"]
  by (simp add: wf_ref_def safe_number_def)

end
