(* ===== verification/Sync_Log.thy ===== *)
theory Sync_Log
  imports Stream_Access Delivery_Groups Batched_Drain
begin

text \<open>
  \<^verbatim>\<open>apps/backend/src/features/sync/repository.ts\<close>: the per-workspace log of client-routed events.
  \<open>sync_log\<close> has the primary key \<open>(workspace_id, sync_id)\<close> and a unique index on \<open>outbox_event_id\<close>;
  \<open>workspace_sync_sequences\<close> holds the next sync id of each workspace and its row is the lock of the
  writers, so appends to one workspace run one after another and each is one step here.
  \<open>sync_log_retention_state\<close> holds the highest pruned sync id.  Payloads come from a \<open>JSONB\<close>
  column and go into one, so storing them changes nothing.
\<close>

record SyncLogRow =
  sl_workspaceId :: string
  sl_syncId :: int
  sl_outboxEventId :: int
  sl_eventType :: string
  sl_groups :: "string list"
  sl_payload :: json
  sl_createdAt :: timestamp

record SyncLogEntryInput =
  ei_outboxEventId :: int
  ei_eventType :: string
  ei_groups :: "string list"
  ei_payload :: json

record LoggedEntry =
  le_syncId :: int
  le_groups :: "string list"

record SyncLogEntry =
  se_syncId :: int
  se_eventType :: string
  se_payload :: json
  se_createdAt :: timestamp

record SyncDb =
  sync_log :: "SyncLogRow table"
  sync_sequences :: "(string \<times> int) list"
  sync_retention :: "(string \<times> int) list"
  sync_swept :: "timestamp option"

abbreviation log_key :: "SyncLogRow \<Rightarrow> string \<times> int" where
  "log_key r \<equiv> (sl_workspaceId r, sl_syncId r)"

definition mapRowToEntry :: "SyncLogRow \<Rightarrow> SyncLogEntry" where
  "mapRowToEntry r = \<lparr>se_syncId = sl_syncId r, se_eventType = sl_eventType r, se_payload = sl_payload r, se_createdAt = sl_createdAt r\<rparr>"

section \<open>Appending\<close>

fun number_entries :: "string \<Rightarrow> timestamp \<Rightarrow> int \<Rightarrow> SyncLogEntryInput list \<Rightarrow> SyncLogRow list" where
  "number_entries ws dbNow start [] = []"
| "number_entries ws dbNow start (e # es) =
    \<lparr>sl_workspaceId = ws, sl_syncId = start, sl_outboxEventId = ei_outboxEventId e, sl_eventType = ei_eventType e,
     sl_groups = ei_groups e, sl_payload = ei_payload e, sl_createdAt = dbNow\<rparr> # number_entries ws dbNow (start + 1) es"

definition assign_row :: "SyncLogRow \<Rightarrow> (int \<times> LoggedEntry) list \<Rightarrow> (int \<times> LoggedEntry) list" where
  "assign_row r = AList.update (sl_outboxEventId r) \<lparr>le_syncId = sl_syncId r, le_groups = sl_groups r\<rparr>"

definition next_sequence :: "SyncDb \<Rightarrow> string \<Rightarrow> int" where
  "next_sequence db ws = (case map_of (sync_sequences db) ws of None \<Rightarrow> 1 | Some n \<Rightarrow> n)"

text \<open>The unique indexes of \<open>sync_log\<close>; the insert of a row that breaks one raises and undoes the transaction.\<close>

definition sync_log_unique :: "SyncLogRow table \<Rightarrow> bool" where
  "sync_log_unique rows \<longleftrightarrow> distinct (map log_key rows) \<and> distinct (map sl_outboxEventId rows)"

definition appendForWorkspace ::
  "timestamp \<Rightarrow> string \<Rightarrow> SyncLogEntryInput list \<Rightarrow> SyncDb \<Rightarrow> string + (SyncDb \<times> (int \<times> LoggedEntry) list)" where
  "appendForWorkspace dbNow ws entries db =
    (if entries = [] then Inr (db, [])
     else
       let start = next_sequence db ws;
           locked = db\<lparr>sync_sequences := AList.update ws start (sync_sequences db)\<rparr>;
           ids = map ei_outboxEventId entries;
           assigned = fold assign_row
             (filter (\<lambda>r. sl_workspaceId r = ws \<and> sl_outboxEventId r \<in> set ids) (sync_log db)) [];
           missing = filter (\<lambda>e. ei_outboxEventId e \<notin> obj_keys assigned) entries
       in if missing = [] then Inr (locked, assigned)
          else
            let rows = number_entries ws dbNow start missing
            in if \<not> sync_log_unique (sync_log db @ rows) then Inl ''duplicate key value violates unique constraint''
               else Inr (locked\<lparr>sync_log := sync_log db @ rows,
                      sync_sequences := AList.update ws (start + int (length missing)) (sync_sequences locked)\<rparr>,
                    fold assign_row rows assigned))"

section \<open>Reading\<close>

text \<open>\<open>join_bounds\<close>: the latest \<open>stream:member_added\<close> entry of the user for a stream.\<close>

definition member_added_for :: "string \<Rightarrow> string \<Rightarrow> string \<Rightarrow> SyncLogRow \<Rightarrow> bool" where
  "member_added_for ws userId streamId r \<longleftrightarrow>
    sl_workspaceId r = ws \<and> sl_eventType r = ''stream:member_added'' \<and> ''user:'' @ userId \<in> set (sl_groups r) \<and>
    json_text ''streamId'' (sl_payload r) = Some streamId"

definition join_sync_id :: "SyncLogRow table \<Rightarrow> string \<Rightarrow> string \<Rightarrow> string \<Rightarrow> int option" where
  "join_sync_id rows ws userId streamId =
    (case filter (member_added_for ws userId streamId) rows of
       [] \<Rightarrow> None
     | rs \<Rightarrow> Some (Max (set (map sl_syncId rs))))"

abbreviation join_bound :: "SyncLogRow table \<Rightarrow> string \<Rightarrow> string \<Rightarrow> string \<Rightarrow> int" where
  "join_bound rows ws userId streamId \<equiv> case_option 0 id (join_sync_id rows ws userId streamId)"

definition visible_streams :: "AccessDb \<Rightarrow> SyncLogRow table \<Rightarrow> string \<Rightarrow> string \<Rightarrow> (string \<times> int) list" where
  "visible_streams ad rows ws userId =
    map (\<lambda>m. (sm_streamId m, join_bound rows ws userId (sm_streamId m)))
      (filter (\<lambda>m. sm_workspaceId m = ws \<and> sm_memberId m = userId) (ad_members ad)) @
    concat (map (\<lambda>s. map (\<lambda>rt. (st_id s,
        if rootReadableWithoutMembership ad ws userId (st_visibility rt) then 0 else join_bound rows ws userId (st_id rt)))
      (filter (\<lambda>rt. effective_root ad s rt \<and> rootReadable ad ws userId rt) (ad_streams ad)))
      (filter (\<lambda>s. st_workspaceId s = ws) (ad_streams ad)))"

definition entry_admitted ::
  "AccessDb \<Rightarrow> SyncLogRow table \<Rightarrow> string \<Rightarrow> string \<Rightarrow> string list \<Rightarrow> SyncLogRow \<Rightarrow> bool" where
  "entry_admitted ad rows ws userId permissionGroups l \<longleftrightarrow>
    (\<exists>g\<in>set (sl_groups l). g = ''workspace'' \<or> g = ''user:'' @ userId \<or> g \<in> set permissionGroups) \<or>
    (\<exists>(streamId, bound)\<in>set (visible_streams ad rows ws userId).
       ''stream:'' @ streamId \<in> set (sl_groups l) \<and> bound < sl_syncId l)"

definition listEntriesForUser ::
  "AccessDb \<Rightarrow> SyncDb \<Rightarrow> string \<Rightarrow> string \<Rightarrow> string list \<Rightarrow> int \<Rightarrow> int \<Rightarrow> SyncLogEntry list" where
  "listEntriesForUser ad db ws userId permissionGroups after limit =
    map mapRowToEntry (order_limit sl_syncId limit
      (filter (\<lambda>l. sl_workspaceId l = ws \<and> after < sl_syncId l \<and>
         entry_admitted ad (sync_log db) ws userId permissionGroups l) (sync_log db)))"

definition log_head :: "SyncDb \<Rightarrow> string \<Rightarrow> int option" where
  "log_head db ws =
    (case filter (\<lambda>r. sl_workspaceId r = ws) (sync_log db) of [] \<Rightarrow> None | rs \<Rightarrow> Some (Max (set (map sl_syncId rs))))"

definition getHeads :: "SyncDb \<Rightarrow> string list \<Rightarrow> (string \<times> int) list" where
  "getHeads db workspaceIds =
    fold (\<lambda>ws m. case log_head db ws of None \<Rightarrow> m | Some h \<Rightarrow> AList.update ws h m) workspaceIds []"

definition retained_from :: "SyncDb \<Rightarrow> string \<Rightarrow> int" where
  "retained_from db ws = case_option 0 id (map_of (sync_retention db) ws)"

definition getHeadAndRetainedFrom :: "SyncDb \<Rightarrow> string \<Rightarrow> int \<times> int" where
  "getHeadAndRetainedFrom db ws = (case_option 0 id (log_head db ws), retained_from db ws)"

section \<open>Pruning and the sweep state\<close>

text \<open>
  One statement: the victims of the batch are deleted and the floors move with them.  The \<open>LIMIT\<close> has no
  \<open>ORDER BY\<close>, so the victims are the first prunable rows of the table in whatever order it has.
\<close>

definition prunable :: "SyncDb \<Rightarrow> timestamp \<Rightarrow> int \<Rightarrow> SyncLogRow \<Rightarrow> bool" where
  "prunable db cutoff minKeep l \<longleftrightarrow>
    sl_createdAt l < cutoff \<and>
    (case map_of (sync_sequences db) (sl_workspaceId l) of None \<Rightarrow> False | Some n \<Rightarrow> sl_syncId l \<le> n - 1 - minKeep)"

definition raise_floor :: "SyncLogRow \<Rightarrow> (string \<times> int) list \<Rightarrow> (string \<times> int) list" where
  "raise_floor r m = AList.update (sl_workspaceId r)
     (case map_of m (sl_workspaceId r) of None \<Rightarrow> sl_syncId r | Some f \<Rightarrow> max f (sl_syncId r)) m"

definition pruneExpiredEntries ::
  "timestamp \<Rightarrow> int \<Rightarrow> int \<Rightarrow> SyncDb \<Rightarrow> SyncDb \<times> (string \<times> int) list \<times> nat" where
  "pruneExpiredEntries cutoff minKeep limit db =
    (let victims = take (nat limit) (filter (prunable db cutoff minKeep) (sync_log db))
     in (db\<lparr>sync_log := sql_delete (\<lambda>l. log_key l \<in> set (map log_key victims)) (sync_log db),
           sync_retention := fold raise_floor victims (sync_retention db)\<rparr>,
         fold raise_floor victims [], length victims))"

definition ensureSweepState :: "timestamp \<Rightarrow> SyncDb \<Rightarrow> SyncDb" where
  "ensureSweepState dbNow db = (if sync_swept db = None then db\<lparr>sync_swept := Some dbNow\<rparr> else db)"

definition getSweptUntil :: "SyncDb \<Rightarrow> timestamp option" where
  "getSweptUntil db = sync_swept db"

definition advanceSweptUntil :: "timestamp \<Rightarrow> SyncDb \<Rightarrow> SyncDb" where
  "advanceSweptUntil until db = db\<lparr>sync_swept := map_option (\<lambda>t. max t until) (sync_swept db)\<rparr>"

text \<open>\<open>xactStarts\<close>: the start of every transaction running in this database, \<open>pg_stat_activity\<close>.\<close>

definition getFrozenCutoff :: "timestamp \<Rightarrow> timestamp list \<Rightarrow> int \<Rightarrow> timestamp" where
  "getFrozenCutoff dbNow xactStarts delayMs =
    min (dbNow - delayMs) (if xactStarts = [] then dbNow else Min (set xactStarts))"

definition listUnsequencedOutboxEvents ::
  "OutboxEvent table \<Rightarrow> SyncLogRow table \<Rightarrow> timestamp \<Rightarrow> timestamp \<Rightarrow> int \<Rightarrow> string list \<Rightarrow> OutboxEvent list" where
  "listUnsequencedOutboxEvents events rows since until limit excludeEventTypes =
    order_limit ev_id limit (filter (\<lambda>o'. since \<le> ev_createdAt o' \<and> ev_createdAt o' < until \<and>
      ev_type o' \<notin> set excludeEventTypes \<and> ev_id o' \<notin> sl_outboxEventId ` set rows) events)"

section \<open>The invariant of the log\<close>

text \<open>
  Keys are unique, the sync ids of a workspace lie below its allocator, and every id between the retention
  floor and the allocator is there: the log has no gaps above the floor.
\<close>

definition sync_wf :: "SyncDb \<Rightarrow> bool" where
  "sync_wf db \<longleftrightarrow>
    sync_log_unique (sync_log db) \<and>
    (\<forall>l\<in>set (sync_log db). 1 \<le> sl_syncId l \<and> sl_syncId l < next_sequence db (sl_workspaceId l) \<and>
       map_of (sync_sequences db) (sl_workspaceId l) \<noteq> None) \<and>
    (\<forall>ws. 1 \<le> next_sequence db ws \<and> 0 \<le> retained_from db ws \<and> retained_from db ws < next_sequence db ws) \<and>
    (\<forall>ws s. retained_from db ws < s \<and> s < next_sequence db ws \<longrightarrow> (ws, s) \<in> log_key ` set (sync_log db))"


lemma map_of_assign_row: "map_of (assign_row r m) = (map_of m)(sl_outboxEventId r \<mapsto> \<lparr>le_syncId = sl_syncId r, le_groups = sl_groups r\<rparr>)"
  by (simp add: assign_row_def update_conv')

lemma obj_keys_assign: "obj_keys (fold assign_row rs m) = obj_keys m \<union> sl_outboxEventId ` set rs"
  by (induction rs arbitrary: m) (auto simp: assign_row_def)

lemma map_of_assign_other: "i \<notin> sl_outboxEventId ` set rs \<Longrightarrow> map_of (fold assign_row rs m) i = map_of m i"
  by (induction rs arbitrary: m) (auto simp: assign_row_def update_conv')

lemma map_of_assign:
  "distinct (map sl_outboxEventId rs) \<Longrightarrow> r \<in> set rs \<Longrightarrow>
    map_of (fold assign_row rs m) (sl_outboxEventId r) = Some \<lparr>le_syncId = sl_syncId r, le_groups = sl_groups r\<rparr>"
proof (induction rs arbitrary: m)
  case (Cons a rs)
  show ?case
  proof (cases "r \<in> set rs")
    case False
    then have "r = a" using Cons.prems by simp
    then show ?thesis using Cons.prems by (simp add: map_of_assign_other map_of_assign_row)
  qed (use Cons in simp)
qed simp

lemma update_same: "map_of m k = Some v \<Longrightarrow> AList.update k v m = m"
  by (induction m) (auto split: if_splits)

lemma length_number_entries [simp]: "length (number_entries ws t n es) = length es"
  by (induction es arbitrary: n) auto

lemma number_entries_events [simp]: "map sl_outboxEventId (number_entries ws t n es) = map ei_outboxEventId es"
  by (induction es arbitrary: n) auto

lemma number_entries_event_set: "sl_outboxEventId ` set (number_entries ws t n es) = ei_outboxEventId ` set es"
  by (metis list.set_map number_entries_events)

lemma number_entries_keys: "log_key ` set (number_entries ws t n es) = {ws} \<times> {n..<n + int (length es)}"
proof (induction es arbitrary: n)
  case (Cons e es)
  then show ?case by (auto simp: image_iff)
qed simp

lemma number_entries_distinct: "distinct (map log_key (number_entries ws t n es))"
proof (induction es arbitrary: n)
  case (Cons e es)
  then show ?case using number_entries_keys [of ws t "n + 1" es] by auto
qed simp

lemma number_entriesD:
  assumes "l \<in> set (number_entries ws t n es)"
  shows "sl_workspaceId l = ws" "n \<le> sl_syncId l" "sl_syncId l < n + int (length es)" "sl_createdAt l = t"
proof -
  have "log_key l \<in> {ws} \<times> {n..<n + int (length es)}" using assms number_entries_keys [of ws t n es] by blast
  then show "sl_workspaceId l = ws" "n \<le> sl_syncId l" "sl_syncId l < n + int (length es)" by auto
  show "sl_createdAt l = t" using assms by (induction es arbitrary: n) auto
qed

subsection \<open>Appending keeps the log dense\<close>

definition append_missing :: "string \<Rightarrow> SyncLogEntryInput list \<Rightarrow> SyncDb \<Rightarrow> SyncLogEntryInput list" where
  "append_missing ws entries db =
    filter (\<lambda>e. \<not> (\<exists>l\<in>set (sync_log db). sl_workspaceId l = ws \<and> sl_outboxEventId l = ei_outboxEventId e)) entries"

lemma append_cases:
  assumes "appendForWorkspace t ws entries db = Inr (db', assigned)"
  obtains (empty) "entries = []" "db' = db" "assigned = []"
  | (rows) rows existing where "rows = number_entries ws t (next_sequence db ws) (append_missing ws entries db)"
      "existing = filter (\<lambda>r. sl_workspaceId r = ws \<and> sl_outboxEventId r \<in> ei_outboxEventId ` set entries) (sync_log db)"
      "sync_log db' = sync_log db @ rows" "entries \<noteq> []" "rows \<noteq> [] \<longrightarrow> sync_log_unique (sync_log db @ rows)"
      "sync_retention db' = sync_retention db" "sync_swept db' = sync_swept db"
      "map_of (sync_sequences db') = (map_of (sync_sequences db))(ws \<mapsto> next_sequence db ws + int (length rows))"
      "assigned = fold assign_row rows (fold assign_row existing [])"
proof (cases "entries = []")
  case True
  then show ?thesis using assms empty by (simp add: appendForWorkspace_def)
next
  case False
  let ?existing = "filter (\<lambda>r. sl_workspaceId r = ws \<and> sl_outboxEventId r \<in> ei_outboxEventId ` set entries) (sync_log db)"
  let ?rows = "number_entries ws t (next_sequence db ws) (append_missing ws entries db)"
  have missing: "filter (\<lambda>e. ei_outboxEventId e \<notin> obj_keys (fold assign_row ?existing [])) entries = append_missing ws entries db"
    unfolding append_missing_def by (rule filter_cong) (auto simp: obj_keys_assign image_iff)
  show ?thesis
  proof (cases "append_missing ws entries db = []")
    case True
    with False assms have "db' = db\<lparr>sync_sequences := AList.update ws (next_sequence db ws) (sync_sequences db)\<rparr>"
      "assigned = fold assign_row ?existing []"
      by (simp_all add: appendForWorkspace_def Let_def missing)
    with True False show ?thesis by (intro rows [of ?rows ?existing]) (simp_all add: update_conv')
  next
    case ne: False
    with False assms have u: "sync_log_unique (sync_log db @ ?rows)"
      by (simp add: appendForWorkspace_def Let_def missing split: if_splits)
    with ne False assms have "db' = db\<lparr>sync_log := sync_log db @ ?rows, sync_sequences :=
        AList.update ws (next_sequence db ws + int (length (append_missing ws entries db)))
          (AList.update ws (next_sequence db ws) (sync_sequences db))\<rparr>"
      "assigned = fold assign_row ?rows (fold assign_row ?existing [])"
      by (simp_all add: appendForWorkspace_def Let_def missing)
    with u ne False show ?thesis by (intro rows [of ?rows ?existing]) (simp_all add: update_conv' fun_upd_idem_iff)
  qed
qed

lemma sync_wf_append [step_inv]:
  assumes wf: "sync_wf db" and app: "appendForWorkspace t ws entries db = Inr (db', assigned)"
  shows "sync_wf db'"
  using app
proof (cases rule: append_cases)
  case (rows rows existing)
  have seq: "next_sequence db' w = (if w = ws then next_sequence db ws + int (length rows) else next_sequence db w)" for w
    unfolding next_sequence_def rows(8) by (simp add: next_sequence_def)
  have ret: "retained_from db' = retained_from db" by (simp add: retained_from_def rows fun_eq_iff)
  have len: "length rows = length (append_missing ws entries db)" by (simp add: rows)
  have keys: "log_key ` set rows = {ws} \<times> {next_sequence db ws..<next_sequence db ws + int (length rows)}"
    using number_entries_keys [of ws t "next_sequence db ws" "append_missing ws entries db"] unfolding rows(1) by simp
  have old: "1 \<le> sl_syncId l" "sl_syncId l < next_sequence db (sl_workspaceId l)" "map_of (sync_sequences db) (sl_workspaceId l) \<noteq> None"
    if "l \<in> set (sync_log db)" for l using wf that by (simp_all add: sync_wf_def)
  have bnd: "1 \<le> next_sequence db w" "0 \<le> retained_from db w" "retained_from db w < next_sequence db w" for w
    using wf by (simp_all add: sync_wf_def)
  have dense: "(w, s) \<in> log_key ` set (sync_log db)" if "retained_from db w < s" "s < next_sequence db w" for w s
    using wf that unfolding sync_wf_def by blast
  show ?thesis
    unfolding sync_wf_def
  proof (intro conjI ballI allI impI)
    show "sync_log_unique (sync_log db')" using rows(5) wf by (cases "rows = []") (simp_all add: rows sync_wf_def)
  next
    fix l assume "l \<in> set (sync_log db')"
    then consider "l \<in> set (sync_log db)" | "l \<in> set rows" by (auto simp: rows(3))
    then have "1 \<le> sl_syncId l \<and> sl_syncId l < next_sequence db' (sl_workspaceId l) \<and> map_of (sync_sequences db') (sl_workspaceId l) \<noteq> None"
    proof cases
      case 1
      then show ?thesis using old [OF 1] by (auto simp: seq rows(8))
    next
      case 2
      then have "sl_workspaceId l = ws" "next_sequence db ws \<le> sl_syncId l" "sl_syncId l < next_sequence db ws + int (length rows)"
        using number_entriesD [of l ws t "next_sequence db ws" "append_missing ws entries db"] unfolding rows(1) by auto
      then show ?thesis using bnd(1) [of ws] by (simp add: seq rows(8))
    qed
    then show "1 \<le> sl_syncId l" "sl_syncId l < next_sequence db' (sl_workspaceId l)" "map_of (sync_sequences db') (sl_workspaceId l) \<noteq> None"
      by auto
  next
    fix w
    show "1 \<le> next_sequence db' w" "0 \<le> retained_from db' w" "retained_from db' w < next_sequence db' w"
      using bnd [of w] by (auto simp: seq ret)
  next
    fix w s assume a: "retained_from db' w < s \<and> s < next_sequence db' w"
    show "(w, s) \<in> log_key ` set (sync_log db')"
    proof (cases "s < next_sequence db w")
      case True
      with a have "(w, s) \<in> log_key ` set (sync_log db)" by (intro dense) (simp_all add: ret)
      then show ?thesis by (auto simp: rows(3))
    next
      case False
      with a have "w = ws" "(w, s) \<in> log_key ` set rows" unfolding keys by (auto simp: seq split: if_splits)
      then show ?thesis by (auto simp: rows(3))
    qed
  qed
qed (use wf in simp)


lemma append_succeeds:
  assumes wf: "sync_wf db" and d: "distinct (map ei_outboxEventId entries)"
    and home: "\<forall>l\<in>set (sync_log db). sl_outboxEventId l \<in> ei_outboxEventId ` set entries \<longrightarrow> sl_workspaceId l = ws"
  shows "\<exists>db' assigned. appendForWorkspace t ws entries db = Inr (db', assigned)"
proof -
  let ?existing = "filter (\<lambda>r. sl_workspaceId r = ws \<and> sl_outboxEventId r \<in> ei_outboxEventId ` set entries) (sync_log db)"
  have missing: "filter (\<lambda>e. ei_outboxEventId e \<notin> obj_keys (fold assign_row ?existing [])) entries = append_missing ws entries db"
    unfolding append_missing_def by (rule filter_cong) (auto simp: obj_keys_assign image_iff)
  let ?rows = "number_entries ws t (next_sequence db ws) (append_missing ws entries db)"
  have sub: "set (append_missing ws entries db) \<subseteq> set entries" by (auto simp: append_missing_def)
  have "log_key l \<notin> log_key ` set ?rows" if "l \<in> set (sync_log db)" for l
    using wf that by (auto simp: number_entries_keys sync_wf_def)
  moreover have "sl_outboxEventId l \<notin> ei_outboxEventId ` set (append_missing ws entries db)" if "l \<in> set (sync_log db)" for l
  proof
    assume "sl_outboxEventId l \<in> ei_outboxEventId ` set (append_missing ws entries db)"
    then obtain e where e: "e \<in> set (append_missing ws entries db)" "sl_outboxEventId l = ei_outboxEventId e" by auto
    with sub home that have "sl_workspaceId l = ws" by blast
    with e that show False by (auto simp: append_missing_def)
  qed
  moreover have "distinct (map ei_outboxEventId (append_missing ws entries db))"
    using d by (simp add: append_missing_def distinct_map_filter)
  ultimately have "sync_log_unique (sync_log db @ ?rows)"
    using wf number_entries_distinct [of ws t "next_sequence db ws" "append_missing ws entries db"]
    by (fastforce simp: sync_log_unique_def sync_wf_def number_entries_event_set)
  then show ?thesis by (simp add: appendForWorkspace_def Let_def missing)
qed

lemma append_assigns:
  assumes wf: "sync_wf db" and app: "appendForWorkspace t ws entries db = Inr (db', assigned)"
  shows "map_of assigned i = Some v \<longleftrightarrow>
    (\<exists>l\<in>set (sync_log db'). sl_workspaceId l = ws \<and> sl_outboxEventId l = i \<and> i \<in> ei_outboxEventId ` set entries \<and>
       v = \<lparr>le_syncId = sl_syncId l, le_groups = sl_groups l\<rparr>)"
  using app
proof (cases rule: append_cases)
  case (rows rows existing)
  have dist: "distinct (map sl_outboxEventId (sync_log db'))" "distinct (map sl_outboxEventId rows)"
    "distinct (map sl_outboxEventId existing)"
    using sync_wf_append [OF wf app] by (auto simp: sync_wf_def sync_log_unique_def rows(2,3) distinct_map_filter)
  have uniq: "l = l'" if "l \<in> set (sync_log db')" "l' \<in> set (sync_log db')" "sl_outboxEventId l = sl_outboxEventId l'" for l l'
    using dist(1) that by (auto simp: distinct_map inj_on_def)
  have of_rows: "sl_workspaceId l = ws" "sl_outboxEventId l \<in> ei_outboxEventId ` set entries" if "l \<in> set rows" for l
  proof -
    show "sl_workspaceId l = ws" using that number_entriesD(1) unfolding rows(1) by blast
    have "sl_outboxEventId l \<in> ei_outboxEventId ` set (append_missing ws entries db)"
      using that number_entries_event_set unfolding rows(1) by blast
    then show "sl_outboxEventId l \<in> ei_outboxEventId ` set entries" by (auto simp: append_missing_def)
  qed
  have val: "map_of assigned (sl_outboxEventId l) = Some \<lparr>le_syncId = sl_syncId l, le_groups = sl_groups l\<rparr>"
    if l: "l \<in> set (sync_log db')" "sl_workspaceId l = ws" "sl_outboxEventId l \<in> ei_outboxEventId ` set entries" for l
  proof (cases "l \<in> set rows")
    case False
    then have ex: "l \<in> set existing" and old: "l \<in> set (sync_log db)" using l by (auto simp: rows(2,3))
    have "sl_outboxEventId l \<notin> sl_outboxEventId ` set rows"
    proof
      assume "sl_outboxEventId l \<in> sl_outboxEventId ` set rows"
      then obtain l' where "l' \<in> set rows" "sl_outboxEventId l' = sl_outboxEventId l" by auto
      with uniq [of l' l] l(1) False show False by (auto simp: rows(3))
    qed
    then show ?thesis using map_of_assign [OF dist(3) ex] by (simp add: rows(9) map_of_assign_other)
  qed (use dist in \<open>simp add: rows(9) map_of_assign\<close>)
  show ?thesis
  proof
    assume some: "map_of assigned i = Some v"
    then have "i \<in> obj_keys assigned" using map_of_None_keys [of assigned i] by auto
    then have "i \<in> sl_outboxEventId ` (set rows \<union> set existing)" by (auto simp: rows(9) obj_keys_assign)
    then obtain l where l: "l \<in> set rows \<union> set existing" "sl_outboxEventId l = i" by auto
    then have "l \<in> set (sync_log db')" "sl_workspaceId l = ws" "sl_outboxEventId l \<in> ei_outboxEventId ` set entries"
      using of_rows by (auto simp: rows(2,3))
    with val [of l] l(2) some show "\<exists>l\<in>set (sync_log db'). sl_workspaceId l = ws \<and> sl_outboxEventId l = i \<and>
        i \<in> ei_outboxEventId ` set entries \<and> v = \<lparr>le_syncId = sl_syncId l, le_groups = sl_groups l\<rparr>" by auto
  qed (use val in auto)
qed simp

lemma append_again:
  assumes wf: "sync_wf db" and app: "appendForWorkspace t ws entries db = Inr (db', assigned)"
  shows "\<exists>assigned'. appendForWorkspace t' ws entries db' = Inr (db', assigned') \<and> map_of assigned' = map_of assigned"
proof -
  have "\<exists>assigned'. appendForWorkspace t' ws entries db' = Inr (db', assigned')"
    using app
  proof (cases rule: append_cases)
    case (rows rows existing)
    have all: "\<exists>l\<in>set (sync_log db'). sl_workspaceId l = ws \<and> sl_outboxEventId l = ei_outboxEventId e" if "e \<in> set entries" for e
    proof (cases "e \<in> set (append_missing ws entries db)")
      case True
      then obtain l where "l \<in> set rows" "sl_outboxEventId l = ei_outboxEventId e"
        using number_entries_event_set [of ws t "next_sequence db ws" "append_missing ws entries db"] unfolding rows(1) by (metis imageE imageI)
      then show ?thesis using number_entriesD(1) unfolding rows(1,3) by fastforce
    next
      case False
      then show ?thesis using that by (auto simp: append_missing_def rows(3))
    qed
    have "sync_sequences db' = AList.update ws (next_sequence db' ws) (sync_sequences db')"
      by (rule update_same [symmetric]) (simp add: next_sequence_def rows(8))
    moreover have "ei_outboxEventId e \<in> sl_outboxEventId ` {l \<in> set (sync_log db'). sl_workspaceId l = ws \<and>
      sl_outboxEventId l \<in> ei_outboxEventId ` set entries}" if "e \<in> set entries" for e
      using all [OF that] that by (auto simp: image_iff)
    ultimately show ?thesis
      by (auto simp: appendForWorkspace_def Let_def obj_keys_assign filter_empty_conv)
  qed (simp add: appendForWorkspace_def)
  then obtain assigned' where a: "appendForWorkspace t' ws entries db' = Inr (db', assigned')" by blast
  have "map_of assigned' i = Some v \<longleftrightarrow> map_of assigned i = Some v" for i v
    unfolding append_assigns [OF wf app] append_assigns [OF sync_wf_append [OF wf app] a] ..
  then have "map_of assigned' = map_of assigned" by (intro ext) (metis option.exhaust)
  with a show ?thesis by blast
qed


text \<open>
  C29. Appending to the sync log: on a well-formed log, a batch of distinct events none of which is logged
  for another workspace is always accepted.  The events that have no entry yet get the next sync ids of the
  workspace, without gaps and in input order, and nothing else is written; the result names, for every
  event of the batch, the sync id and the groups its entry has in the log; appending the batch again
  (a retry after a crash, the reconciliation sweep) changes nothing and returns the same.
\<close>

theorem append_is_dense_and_idempotent:
  assumes "sync_wf db" and "distinct (map ei_outboxEventId entries)" and "entries \<noteq> []"
    and "\<forall>l\<in>set (sync_log db). sl_outboxEventId l \<in> ei_outboxEventId ` set entries \<longrightarrow> sl_workspaceId l = ws"
  shows "\<exists>db' assigned assigned'.
    appendForWorkspace dbNow ws entries db = Inr (db', assigned) \<and>
    sync_log db' = sync_log db @ number_entries ws dbNow (next_sequence db ws)
      (filter (\<lambda>e. ei_outboxEventId e \<notin> sl_outboxEventId ` set (sync_log db)) entries) \<and>
    next_sequence db' ws = next_sequence db ws +
      int (length (filter (\<lambda>e. ei_outboxEventId e \<notin> sl_outboxEventId ` set (sync_log db)) entries)) \<and>
    (\<forall>e\<in>set entries. \<exists>l\<in>set (sync_log db'). sl_workspaceId l = ws \<and> sl_outboxEventId l = ei_outboxEventId e \<and>
       map_of assigned (ei_outboxEventId e) = Some \<lparr>le_syncId = sl_syncId l, le_groups = sl_groups l\<rparr>) \<and>
    appendForWorkspace dbNow2 ws entries db' = Inr (db', assigned') \<and> map_of assigned' = map_of assigned"
proof -
  obtain db' assigned where app: "appendForWorkspace dbNow ws entries db = Inr (db', assigned)"
    using append_succeeds [OF assms(1,2,4)] by blast
  have miss: "append_missing ws entries db = filter (\<lambda>e. ei_outboxEventId e \<notin> sl_outboxEventId ` set (sync_log db)) entries"
    unfolding append_missing_def using assms(4) by (intro filter_cong) (simp_all add: image_iff, metis)
  from app obtain rows where rows: "rows = number_entries ws dbNow (next_sequence db ws) (append_missing ws entries db)"
      "sync_log db' = sync_log db @ rows"
      "map_of (sync_sequences db') = (map_of (sync_sequences db))(ws \<mapsto> next_sequence db ws + int (length rows))"
  proof (cases rule: append_cases)
    case empty
    with assms(3) show thesis by simp
  next
    case (rows r ex)
    from that [OF rows(1,3,8)] show thesis .
  qed
  have "\<exists>l\<in>set (sync_log db'). sl_workspaceId l = ws \<and> sl_outboxEventId l = ei_outboxEventId e \<and>
       map_of assigned (ei_outboxEventId e) = Some \<lparr>le_syncId = sl_syncId l, le_groups = sl_groups l\<rparr>" if e: "e \<in> set entries" for e
  proof -
    have "\<exists>l\<in>set (sync_log db'). sl_workspaceId l = ws \<and> sl_outboxEventId l = ei_outboxEventId e"
    proof (cases "ei_outboxEventId e \<in> sl_outboxEventId ` set (sync_log db)")
      case True
      then obtain l where "l \<in> set (sync_log db)" "sl_outboxEventId l = ei_outboxEventId e" by auto
      with assms(4) e show ?thesis by (intro bexI [of _ l]) (auto simp: rows(2))
    next
      case False
      then have "ei_outboxEventId e \<in> ei_outboxEventId ` set (append_missing ws entries db)" using e by (auto simp: miss)
      then have "ei_outboxEventId e \<in> sl_outboxEventId ` set rows" by (simp add: rows(1) number_entries_event_set)
      then show ?thesis using number_entriesD(1) unfolding rows(1,2) by fastforce
    qed
    then show ?thesis using append_assigns [OF assms(1) app] e by (metis imageI)
  qed
  moreover have "next_sequence db' ws = next_sequence db ws + int (length (append_missing ws entries db))"
    unfolding next_sequence_def [of db'] rows(3) by (simp add: rows(1))
  ultimately show ?thesis using app append_again [OF assms(1) app, of dbNow2] rows(1,2) by (auto simp: miss)
qed

definition ex_input :: "int \<Rightarrow> string \<Rightarrow> SyncLogEntryInput" where
  "ex_input i streamId = \<lparr>ei_outboxEventId = i, ei_eventType = ''message:created'', ei_groups = [''stream:'' @ streamId],
     ei_payload = JObj [(''workspaceId'', JStr ''ws''), (''streamId'', JStr streamId)]\<rparr>"

definition empty_sync :: SyncDb where
  "empty_sync = \<lparr>sync_log = [], sync_sequences = [], sync_retention = [], sync_swept = None\<rparr>"

lemma sync_wf_empty: "sync_wf empty_sync"
  by (simp add: sync_wf_def empty_sync_def sync_log_unique_def next_sequence_def retained_from_def)

definition ex_logged :: SyncDb where
  "ex_logged = (case appendForWorkspace 5 ''ws'' [ex_input 10 ''general'', ex_input 12 ''dm''] empty_sync of Inr (db, _) \<Rightarrow> db)"

lemma ex_logged_wf: "sync_wf ex_logged"
proof -
  have "appendForWorkspace 5 ''ws'' [ex_input 10 ''general'', ex_input 12 ''dm''] empty_sync =
      Inr (ex_logged, [(10, \<lparr>le_syncId = 1, le_groups = [''stream:general'']\<rparr>), (12, \<lparr>le_syncId = 2, le_groups = [''stream:dm'']\<rparr>)])"
    by code_simp
  then show ?thesis by (rule sync_wf_append [OF sync_wf_empty])
qed

theorem append_is_dense_and_idempotent_witness:
  "\<exists>db' assigned. appendForWorkspace 9 ''ws'' [ex_input 11 ''general'', ex_input 12 ''dm''] ex_logged = Inr (db', assigned) \<and>
    next_sequence db' ''ws'' = 4 \<and> length (sync_log db') = 3"
proof -
  have "filter (\<lambda>e. ei_outboxEventId e \<notin> sl_outboxEventId ` set (sync_log ex_logged)) [ex_input 11 ''general'', ex_input 12 ''dm''] =
      [ex_input 11 ''general'']" "next_sequence ex_logged ''ws'' = 3" "length (sync_log ex_logged) = 2"
    "distinct (map ei_outboxEventId [ex_input 11 ''general'', ex_input 12 ''dm''])"
    "\<forall>l\<in>set (sync_log ex_logged). sl_outboxEventId l \<in> ei_outboxEventId ` set [ex_input 11 ''general'', ex_input 12 ''dm''] \<longrightarrow>
      sl_workspaceId l = ''ws''"
    by code_simp+
  with append_is_dense_and_idempotent [OF ex_logged_wf this(4) _ this(5), of 9 9] show ?thesis by auto
qed

section \<open>Pruning keeps the log dense above the floor\<close>

abbreviation flr :: "(string \<times> int) list \<Rightarrow> string \<Rightarrow> int" where
  "flr m ws \<equiv> case_option 0 id (map_of m ws)"

lemma map_of_raise_floor:
  "map_of (raise_floor r m) = (map_of m)(sl_workspaceId r \<mapsto>
     (case map_of m (sl_workspaceId r) of None \<Rightarrow> sl_syncId r | Some f \<Rightarrow> max f (sl_syncId r)))"
  by (simp add: raise_floor_def update_conv')

lemma flr_raise_floor:
  "0 \<le> sl_syncId r \<Longrightarrow> flr (raise_floor r m) ws = (if ws = sl_workspaceId r then max (flr m ws) (sl_syncId r) else flr m ws)"
  by (auto simp: map_of_raise_floor split: option.splits)

lemma flr_fold:
  assumes "\<forall>v\<in>set vs. 0 \<le> sl_syncId v"
  shows "flr m ws \<le> flr (fold raise_floor vs m) ws"
    and "v \<in> set vs \<Longrightarrow> sl_syncId v \<le> flr (fold raise_floor vs m) (sl_workspaceId v)"
    and "flr (fold raise_floor vs m) ws = flr m ws \<or>
      (\<exists>v\<in>set vs. sl_workspaceId v = ws \<and> flr (fold raise_floor vs m) ws = sl_syncId v)"
  using assms
proof (induction vs arbitrary: m ws v)
  case (Cons a vs)
  {
    case 1
    then show ?case using Cons.IH(1) [of "raise_floor a m" ws] by (auto simp: flr_raise_floor split: if_splits)
  next
    case 2
    then show ?case using Cons.IH(1) [of "raise_floor a m" "sl_workspaceId a"] Cons.IH(2) [of v "raise_floor a m"]
      by (auto simp: flr_raise_floor)
  next
    case 3
    then show ?case using Cons.IH(3) [of "raise_floor a m" ws] by (auto simp: flr_raise_floor max_def split: if_splits)
  }
qed auto

lemma pruned_rows:
  assumes "sync_wf db" and "(db', through, n) = pruneExpiredEntries cutoff minKeep limit db"
  obtains victims where "set victims \<subseteq> set (sync_log db)" "\<forall>v\<in>set victims. prunable db cutoff minKeep v"
    "set (sync_log db') = set (sync_log db) - set victims" "sync_sequences db' = sync_sequences db"
    "sync_retention db' = fold raise_floor victims (sync_retention db)" "n = length victims"
    "victims = take (nat limit) (filter (prunable db cutoff minKeep) (sync_log db))"
    "sync_log db' = filter (\<lambda>l. l \<notin> set victims) (sync_log db)" "sync_swept db' = sync_swept db"
proof -
  let ?v = "take (nat limit) (filter (prunable db cutoff minKeep) (sync_log db))"
  have sub: "set ?v \<subseteq> {l \<in> set (sync_log db). prunable db cutoff minKeep l}"
    by (metis set_filter set_take_subset)
  have inj: "inj_on log_key (set (sync_log db))"
    using assms(1) by (simp add: sync_wf_def sync_log_unique_def distinct_map)
  have key: "log_key l \<in> log_key ` set ?v \<longleftrightarrow> l \<in> set ?v" if "l \<in> set (sync_log db)" for l
    using that sub by (intro inj_on_image_mem_iff [OF inj]) auto
  then have flt: "sql_delete (\<lambda>l. log_key l \<in> set (map log_key ?v)) (sync_log db) = filter (\<lambda>l. l \<notin> set ?v) (sync_log db)"
    unfolding sql_delete_def set_map by (intro filter_cong) auto
  show ?thesis
  proof (rule that [of ?v])
    show "sync_log db' = filter (\<lambda>l. l \<notin> set ?v) (sync_log db)"
      using assms(2) flt by (simp add: pruneExpiredEntries_def Let_def)
    then show "set (sync_log db') = set (sync_log db) - set ?v" by auto
  qed (use assms(2) sub in \<open>auto simp: pruneExpiredEntries_def Let_def\<close>)
qed

lemma wf_prune:
  assumes wf: "sync_wf db"
  shows "sync_wf (fst (pruneExpiredEntries cutoff minKeep limit db))"
    and "retained_from db ws \<le> retained_from (fst (pruneExpiredEntries cutoff minKeep limit db)) ws"
    and "l \<in> set (sync_log db) \<Longrightarrow> l \<notin> set (sync_log (fst (pruneExpiredEntries cutoff minKeep limit db))) \<Longrightarrow>
      sl_syncId l \<le> retained_from (fst (pruneExpiredEntries cutoff minKeep limit db)) (sl_workspaceId l)"
proof -
  obtain db' through n where p: "(db', through, n) = pruneExpiredEntries cutoff minKeep limit db" by (metis prod_cases3)
  then have db': "fst (pruneExpiredEntries cutoff minKeep limit db) = db'" by (metis fst_conv)
  obtain victims where v: "set victims \<subseteq> set (sync_log db)" "set (sync_log db') = set (sync_log db) - set victims"
    "sync_sequences db' = sync_sequences db" "sync_retention db' = fold raise_floor victims (sync_retention db)"
    "sync_log db' = filter (\<lambda>l. l \<notin> set victims) (sync_log db)"
    using pruned_rows [OF wf p] by blast
  have old: "1 \<le> sl_syncId l" "sl_syncId l < next_sequence db (sl_workspaceId l)"
    "map_of (sync_sequences db) (sl_workspaceId l) \<noteq> None" if "l \<in> set (sync_log db)" for l
    using wf that by (simp_all add: sync_wf_def)
  have pos: "\<forall>x\<in>set victims. 0 \<le> sl_syncId x" using v(1) old(1) by fastforce
  have seq: "next_sequence db' = next_sequence db" by (simp add: next_sequence_def v(3) fun_eq_iff)
  note floor = flr_fold [OF pos, where m = "sync_retention db", folded v(4), folded retained_from_def]
  show mono: "retained_from db ws \<le> retained_from (fst (pruneExpiredEntries cutoff minKeep limit db)) ws" for ws
    unfolding db' by (rule floor(1))
  show gone: "sl_syncId l \<le> retained_from (fst (pruneExpiredEntries cutoff minKeep limit db)) (sl_workspaceId l)"
    if "l \<in> set (sync_log db)" "l \<notin> set (sync_log (fst (pruneExpiredEntries cutoff minKeep limit db)))" for l
    using that floor(2) unfolding db' v(2) by simp
  have bnd: "1 \<le> next_sequence db w" "0 \<le> retained_from db w" "retained_from db w < next_sequence db w" for w
    using wf by (simp_all add: sync_wf_def)
  have dense: "(w, s) \<in> log_key ` set (sync_log db)" if "retained_from db w < s" "s < next_sequence db w" for w s
    using wf that unfolding sync_wf_def by blast
  show "sync_wf (fst (pruneExpiredEntries cutoff minKeep limit db))"
    unfolding db' sync_wf_def
  proof (intro conjI ballI allI impI)
    show "sync_log_unique (sync_log db')"
      using wf by (simp add: v(5) sync_wf_def sync_log_unique_def distinct_map_filter)
  next
    fix l assume "l \<in> set (sync_log db')"
    then have "l \<in> set (sync_log db)" by (simp add: v(2))
    then show "1 \<le> sl_syncId l" "sl_syncId l < next_sequence db' (sl_workspaceId l)"
      "map_of (sync_sequences db') (sl_workspaceId l) \<noteq> None"
      using old by (simp_all add: seq v(3))
  next
    fix w
    show "1 \<le> next_sequence db' w" using bnd by (simp add: seq)
    show "0 \<le> retained_from db' w" using bnd(2) [of w] floor(1) [of w] by simp
    show "retained_from db' w < next_sequence db' w"
      using floor(3) [of w] bnd(3) [of w] old(2) v(1) by (auto simp: seq)
  next
    fix w s assume a: "retained_from db' w < s \<and> s < next_sequence db' w"
    then have "(w, s) \<in> log_key ` set (sync_log db)" using floor(1) [of w] by (intro dense) (simp_all add: seq)
    then obtain l where l: "l \<in> set (sync_log db)" "sl_workspaceId l = w" "sl_syncId l = s" by auto
    with a floor(2) have "l \<notin> set victims" by fastforce
    with l have "l \<in> set (sync_log db')" by (simp add: v(2))
    then show "(w, s) \<in> log_key ` set (sync_log db')" using l(2,3) by (intro image_eqI [of _ _ l]) simp_all
  qed
qed

section \<open>The log over time\<close>

text \<open>
  A state of the system is the database and the list of all entries ever logged.  Writers of one
  workspace are serialised by the allocator row, so every transaction is one step.
\<close>

inductive sync_step :: "SyncDb \<times> SyncLogRow list \<Rightarrow> SyncDb \<times> SyncLogRow list \<Rightarrow> bool" where
  step_append: "appendForWorkspace t ws entries db = Inr (db', assigned) \<Longrightarrow>
    sync_step (db, h) (db', h @ drop (length (sync_log db)) (sync_log db'))"
| step_prune: "sync_step (db, h) (fst (pruneExpiredEntries cutoff minKeep limit db), h)"
| step_ensure: "sync_step (db, h) (ensureSweepState t db, h)"
| step_advance: "sync_step (db, h) (advanceSweptUntil t db, h)"

inductive_cases sync_stepE: "sync_step (db, h) (db', h')"

definition sync_inv :: "SyncDb \<times> SyncLogRow list \<Rightarrow> bool" where
  "sync_inv s \<longleftrightarrow> (case s of (db, h) \<Rightarrow>
    sync_wf db \<and> set (sync_log db) \<subseteq> set h \<and> distinct (map log_key h) \<and>
    (\<forall>l\<in>set h. l \<in> set (sync_log db) \<or> sl_syncId l \<le> retained_from db (sl_workspaceId l)) \<and>
    log_key ` set h = {(ws, n). 1 \<le> n \<and> n < next_sequence db ws})"

definition sync_reachable :: "SyncDb \<times> SyncLogRow list \<Rightarrow> bool" where
  "sync_reachable = sync_step\<^sup>*\<^sup>* (empty_sync, [])"

lemma sync_inv_append:
  assumes inv: "sync_inv (db, h)" and app: "appendForWorkspace t ws entries db = Inr (db', assigned)"
  shows "sync_inv (db', h @ drop (length (sync_log db)) (sync_log db'))"
  using app
proof (cases rule: append_cases)
  case (rows rows existing)
  have h: "sync_wf db" "set (sync_log db) \<subseteq> set h" "distinct (map log_key h)"
    "\<And>l. l \<in> set h \<Longrightarrow> l \<in> set (sync_log db) \<or> sl_syncId l \<le> retained_from db (sl_workspaceId l)"
    "log_key ` set h = {(ws, n). 1 \<le> n \<and> n < next_sequence db ws}"
    using inv by (auto simp: sync_inv_def)
  have drop: "drop (length (sync_log db)) (sync_log db') = rows" by (simp add: rows(3))
  have keys: "log_key ` set rows = {ws} \<times> {next_sequence db ws..<next_sequence db ws + int (length rows)}"
    using number_entries_keys [of ws t "next_sequence db ws" "append_missing ws entries db"] unfolding rows(1) by simp
  have dk: "distinct (map log_key rows)" unfolding rows(1) by (rule number_entries_distinct)
  have seq: "next_sequence db' w = (if w = ws then next_sequence db ws + int (length rows) else next_sequence db w)" for w
    unfolding next_sequence_def rows(8) by (simp add: next_sequence_def)
  have one: "1 \<le> next_sequence db w" for w using h(1) by (simp add: sync_wf_def)
  have ret: "retained_from db' = retained_from db" by (simp add: retained_from_def rows fun_eq_iff)
  have "log_key ` set (h @ rows) = {(ws, n). 1 \<le> n \<and> n < next_sequence db' ws}"
    unfolding set_append image_Un h(5) keys using one [of ws] by (auto simp: seq split: if_splits)
  moreover have "distinct (map log_key (h @ rows))"
  proof -
    have "log_key ` set h \<inter> log_key ` set rows = {}" unfolding h(5) keys by auto
    then show ?thesis using h(3) dk by simp
  qed
  ultimately show ?thesis
    using sync_wf_append [OF h(1) app] h(2,4) by (auto simp: sync_inv_def drop rows(3) ret)
qed (use inv in simp)

lemma sync_inv_step: "sync_step s s' \<Longrightarrow> sync_inv s \<Longrightarrow> sync_inv s'"
proof (induction rule: sync_step.induct)
  case (step_append t ws entries db db' assigned h)
  then show ?case by (rule sync_inv_append [rotated])
next
  case (step_prune db h cutoff minKeep limit)
  let ?db = "fst (pruneExpiredEntries cutoff minKeep limit db)"
  have wf: "sync_wf db" using step_prune by (simp add: sync_inv_def)
  have seq: "next_sequence ?db = next_sequence db" by (simp add: pruneExpiredEntries_def Let_def next_sequence_def fun_eq_iff)
  have sub: "set (sync_log ?db) \<subseteq> set (sync_log db)" by (auto simp: pruneExpiredEntries_def Let_def)
  have "l \<in> set (sync_log ?db) \<or> sl_syncId l \<le> retained_from ?db (sl_workspaceId l)" if "l \<in> set h" for l
  proof (cases "l \<in> set (sync_log db)")
    case True
    then show ?thesis using wf_prune(3) [OF wf True] by blast
  next
    case False
    then have "sl_syncId l \<le> retained_from db (sl_workspaceId l)" using step_prune that by (auto simp: sync_inv_def)
    then show ?thesis using wf_prune(2) [OF wf] order_trans by blast
  qed
  then show ?case using step_prune wf_prune(1) [OF wf] sub seq by (auto simp: sync_inv_def)
qed (auto simp: sync_inv_def sync_wf_def ensureSweepState_def advanceSweptUntil_def next_sequence_def retained_from_def)

lemma sync_floor_mono: "sync_step (db, h) (db', h') \<Longrightarrow> sync_inv (db, h) \<Longrightarrow> retained_from db ws \<le> retained_from db' ws"
proof (erule sync_stepE)
  fix t w entries assigned
  assume "appendForWorkspace t w entries db = Inr (db', assigned)"
  then show ?thesis by (cases rule: append_cases) (simp_all add: retained_from_def)
next
  fix cutoff minKeep limit
  assume "db' = fst (pruneExpiredEntries cutoff minKeep limit db)" "sync_inv (db, h)"
  then show ?thesis by (simp add: sync_inv_def wf_prune(2))
qed (auto simp: ensureSweepState_def advanceSweptUntil_def retained_from_def)

lemma sync_hist_mono: "sync_step (db, h) (db', h') \<Longrightarrow> set h \<subseteq> set h'"
  by (erule sync_stepE) auto

lemma sync_inv_later:
  assumes "sync_step\<^sup>*\<^sup>* s s'" and "sync_inv s"
  shows "sync_inv s'" "retained_from (fst s) ws \<le> retained_from (fst s') ws" "set (snd s) \<subseteq> set (snd s')"
  using assms
proof (induction rule: rtranclp_induct)
  case (step s' s'')
  {
    case 1
    then show ?case using step sync_inv_step by blast
  next
    case 2
    then show ?case using step sync_floor_mono [of "fst s'" "snd s'" "fst s''" "snd s''" ws] by fastforce
  next
    case 3
    then show ?case using step sync_hist_mono [of "fst s'" "snd s'" "fst s''" "snd s''"] by fastforce
  }
qed auto

lemma sync_reachable_inv: "sync_reachable s \<Longrightarrow> sync_inv s"
proof -
  have "sync_inv (empty_sync, [])"
    using sync_wf_empty by (auto simp: sync_inv_def empty_sync_def next_sequence_def)
  then show "sync_reachable s \<Longrightarrow> sync_inv s" unfolding sync_reachable_def using sync_inv_later(1) by blast
qed

end
