(* ===== verification/Sync_Sanitize.thy ===== *)
theory Sync_Sanitize
  imports Sync_Log Slots
begin

text \<open>
  \<^verbatim>\<open>apps/backend/src/features/sync/sanitize.ts\<close>: what a stored entry says of shared messages and memos is
  resolved again when the entry is served.  The two resolvers the function calls,
  \<open>hydrateSharedMessageRefs\<close> of the messaging feature and \<open>resolveMemoSummariesByStream\<close> of the memos feature, are
  arguments: \<open>rehydrated\<close> maps a slot key to the slot the viewer may see now, \<open>summaries\<close> maps a
  stream and a memo id to the summary the stream's room may see now.  \<open>None\<close> is the \<open>TypeError\<close> of
  reading \<open>memoId\<close> of null.  The payloads are trees, so writing into them is writing into one entry.
\<close>

type_synonym rehydrated = "string \<Rightarrow> json option"
type_synonym summaries = "string \<Rightarrow> json \<Rightarrow> json option"

section \<open>Values\<close>

fun js_entries :: "json \<Rightarrow> (string \<times> json) list" where
  "js_entries (JObj fs) = fs"
| "js_entries (JArr vs) = zip (map (\<lambda>i. nat_digits i) [0..<length vs]) vs"
| "js_entries _ = []"

fun set_entries :: "(string \<times> json \<Rightarrow> json) \<Rightarrow> json \<Rightarrow> json" where
  "set_entries f (JObj fs) = JObj (map (\<lambda>e. (fst e, f e)) fs)"
| "set_entries f (JArr vs) = JArr (map f (zip (map (\<lambda>i. nat_digits i) [0..<length vs]) vs))"
| "set_entries f v = v"

fun jset :: "string \<Rightarrow> json \<Rightarrow> json \<Rightarrow> json" where
  "jset k v (JObj fs) = JObj (AList.update k v fs)"
| "jset k v w = w"

fun is_object :: "json \<Rightarrow> bool" where
  "is_object (JObj _) = True"
| "is_object (JArr _) = True"
| "is_object _ = False"

text \<open>\<open>v?.k\<close>: undefined for null and undefined.\<close>

definition opt_get :: "string \<Rightarrow> json \<Rightarrow> json" where
  "opt_get k v = case_option JUndefined id (jget k v)"

fun as_array :: "json \<Rightarrow> json list" where
  "as_array (JArr vs) = vs"
| "as_array _ = []"

fun as_string :: "json \<Rightarrow> string option" where
  "as_string (JStr s) = Some s"
| "as_string _ = None"

section \<open>Shared-message slots\<close>

definition slot_message :: "json \<Rightarrow> string option" where
  "slot_message slot = (if truthy slot then as_string (opt_get ''messageId'' slot) else None)"

definition refForSlot :: "string \<Rightarrow> string \<Rightarrow> SharedMessageRef" where
  "refForSlot slotKey messageId =
    (case parseSharedMessageSlotKey slotKey of Some r \<Rightarrow> r | None \<Rightarrow> \<lparr>sr_messageId = messageId, sr_version = None, sr_range = None\<rparr>)"

definition slot_lookup_key :: "string \<Rightarrow> string \<Rightarrow> string" where
  "slot_lookup_key slotKey messageId =
    (let r = refForSlot slotKey messageId in sharedMessageSlotKey (sr_messageId r) (sr_version r) (sr_range r))"

definition fresh_slot :: "rehydrated \<Rightarrow> string \<times> json \<Rightarrow> json" where
  "fresh_slot rh e =
    (case slot_message (snd e) of
       None \<Rightarrow> snd e
     | Some messageId \<Rightarrow>
         (case rh (slot_lookup_key (fst e) messageId) of None \<Rightarrow> snd e | Some fresh \<Rightarrow> if truthy fresh then fresh else snd e))"

definition fresh_slot_map :: "rehydrated \<Rightarrow> string \<Rightarrow> json \<Rightarrow> json" where
  "fresh_slot_map rh k p =
    (let m = opt_get k p in if truthy m then jset k (set_entries (fresh_slot rh) m) p else p)"

definition fresh_slots :: "rehydrated \<Rightarrow> json \<Rightarrow> json" where
  "fresh_slots rh p = fresh_slot_map rh ''sharedMessages'' (fresh_slot_map rh ''slots'' p)"

section \<open>Memo summaries\<close>

definition fresh_embeds :: "summaries \<Rightarrow> string \<Rightarrow> json list \<Rightarrow> json list option" where
  "fresh_embeds sm streamId embeds =
    map_option (\<lambda>ids. concat (map (\<lambda>i. case sm streamId i of None \<Rightarrow> [] | Some s \<Rightarrow> [s]) ids))
      (those (map (jget ''memoId'') embeds))"

text \<open>A holder of memo embeds, \<open>collectMemoEmbeds\<close> and the later rewrite of \<open>holder.memoEmbeds\<close>.\<close>

definition fresh_holder :: "summaries \<Rightarrow> json \<Rightarrow> json \<Rightarrow> json option" where
  "fresh_holder sm streamId holder =
    (case as_string streamId of
       None \<Rightarrow> Some holder
     | Some sid \<Rightarrow>
         if truthy holder \<and> as_array (opt_get ''memoEmbeds'' holder) \<noteq> []
         then map_option (\<lambda>es. jset ''memoEmbeds'' (JArr es) holder) (fresh_embeds sm sid (as_array (opt_get ''memoEmbeds'' holder)))
         else Some holder)"

definition fresh_in :: "summaries \<Rightarrow> json \<Rightarrow> json \<Rightarrow> json option" where
  "fresh_in sm streamId wrapped =
    (case opt_get ''payload'' wrapped of
       JObj fs \<Rightarrow> map_option (\<lambda>h. jset ''payload'' h wrapped) (fresh_holder sm streamId (JObj fs))
     | _ \<Rightarrow> Some wrapped)"

definition fresh_event :: "summaries \<Rightarrow> json \<Rightarrow> json option" where
  "fresh_event sm p =
    (case opt_get ''event'' p of
       JObj fs \<Rightarrow> map_option (\<lambda>ev. jset ''event'' ev p) (fresh_in sm (opt_get ''streamId'' p) (JObj fs))
     | _ \<Rightarrow> Some p)"

definition fresh_moved :: "summaries \<Rightarrow> string \<Rightarrow> json \<Rightarrow> json option" where
  "fresh_moved sm ty p =
    (case opt_get ''events'' p of
       JArr evs \<Rightarrow>
         if ty = ''messages:moved''
         then map_option (\<lambda>evs'. jset ''events'' (JArr evs') p)
           (those (map (\<lambda>ev. case ev of JObj fs \<Rightarrow> fresh_in sm (opt_get ''destinationStreamId'' p) ev | _ \<Rightarrow> Some ev) evs))
         else Some p
     | _ \<Rightarrow> Some p)"

text \<open>A \<open>memo:updated\<close> entry whose summary the room may no longer see is dropped: \<open>Some None\<close>.\<close>

definition fresh_summary :: "summaries \<Rightarrow> string \<Rightarrow> json \<Rightarrow> json option" where
  "fresh_summary sm ty p =
    (case as_string (opt_get ''streamId'' p) of
       None \<Rightarrow> Some p
     | Some sid \<Rightarrow>
         if ty = ''memo:updated'' \<and> truthy (opt_get ''summary'' p)
         then (case sm sid (opt_get ''memoId'' (opt_get ''summary'' p)) of
                 None \<Rightarrow> None
               | Some fresh \<Rightarrow> if truthy fresh then Some (jset ''summary'' fresh p) else None)
         else Some p)"

definition sanitize_entry :: "rehydrated \<Rightarrow> summaries \<Rightarrow> SyncLogEntry \<Rightarrow> SyncLogEntry option option" where
  "sanitize_entry rh sm e =
    (if \<not> is_object (se_payload e) then Some (Some e)
     else Option.bind (fresh_event sm (fresh_slots rh (se_payload e))) (\<lambda>p.
       Option.bind (fresh_moved sm (se_eventType e) p) (\<lambda>p.
         Some (map_option (\<lambda>p. e\<lparr>se_payload := p\<rparr>) (fresh_summary sm (se_eventType e) p)))))"

definition sanitizeSyncEntries :: "rehydrated \<Rightarrow> summaries \<Rightarrow> SyncLogEntry list \<Rightarrow> SyncLogEntry list option" where
  "sanitizeSyncEntries rh sm entries =
    map_option (\<lambda>es. map the (filter (\<lambda>x. x \<noteq> None) es)) (those (map (sanitize_entry rh sm) entries))"

section \<open>What is served is fresh\<close>

lemma opt_get_jset: "opt_get k (jset k' v p) = (if k = k' \<and> (\<exists>fs. p = JObj fs) then v else opt_get k p)"
  by (cases p) (simp_all add: opt_get_def update_conv')

lemma jset_JObj: "(\<exists>fs. jset k v p = JObj fs) \<longleftrightarrow> (\<exists>fs. p = JObj fs)"
  by (cases p) simp_all

declare jset.simps [simp del]

lemma opt_get_JObj: "opt_get k p \<noteq> JUndefined \<Longrightarrow> \<exists>fs. p = JObj fs"
  by (cases p) (simp_all add: opt_get_def)

lemma set_entries_entries: "js_entries (set_entries f m) = map (\<lambda>e. (fst e, f e)) (js_entries m)"
proof (cases m)
  case (JArr vs)
  have "zip xs (map f (zip xs vs)) = map (\<lambda>e. (fst e, f e)) (zip xs vs)" if "length xs = length vs" for xs
    using that by (induction xs vs rule: list_induct2) auto
  then show ?thesis by (simp add: JArr)
qed simp_all

lemma fresh_slot_map_get:
  "opt_get k' (fresh_slot_map rh k p) = (if k' = k \<and> truthy (opt_get k p) then set_entries (fresh_slot rh) (opt_get k p) else opt_get k' p)"
proof -
  have "\<exists>fs. p = JObj fs" if "truthy (opt_get k p)" using that by (intro opt_get_JObj [of k]) auto
  then show ?thesis by (auto simp: fresh_slot_map_def Let_def opt_get_jset)
qed

lemma fresh_slots_get:
  "k' \<notin> {''slots'', ''sharedMessages''} \<Longrightarrow> opt_get k' (fresh_slots rh p) = opt_get k' p"
  "k' \<in> {''slots'', ''sharedMessages''} \<Longrightarrow> opt_get k' (fresh_slots rh p) =
    (if truthy (opt_get k' p) then set_entries (fresh_slot rh) (opt_get k' p) else opt_get k' p)"
  by (auto simp: fresh_slots_def fresh_slot_map_get)

lemma fresh_embeds_fresh: "fresh_embeds sm sid embeds = Some es \<Longrightarrow> s \<in> set es \<Longrightarrow> \<exists>i. sm sid i = Some s"
  by (auto simp: fresh_embeds_def split: option.splits) metis

lemma fresh_in_fresh:
  assumes "fresh_in sm (JStr sid) wrapped = Some w" and "s \<in> set (as_array (opt_get ''memoEmbeds'' (opt_get ''payload'' w)))"
  shows "\<exists>i. sm sid i = Some s"
proof (cases "\<exists>fs. opt_get ''payload'' wrapped = JObj fs")
  case True
  then obtain fs where pl: "opt_get ''payload'' wrapped = JObj fs" by blast
  then obtain gs where w: "wrapped = JObj gs" using opt_get_JObj [of "''payload''" wrapped] by auto
  obtain h where h: "fresh_holder sm (JStr sid) (JObj fs) = Some h" and weq: "w = jset ''payload'' h wrapped"
    using assms(1) pl by (auto simp: fresh_in_def)
  have "s \<in> set (as_array (opt_get ''memoEmbeds'' h))" using assms(2) by (simp add: weq opt_get_jset w)
  then show ?thesis using h by (auto simp: fresh_holder_def opt_get_jset dest: fresh_embeds_fresh split: if_splits)
next
  case False
  then have "w = wrapped" using assms(1) by (auto simp: fresh_in_def split: json.splits)
  with False assms(2) show ?thesis by (cases "opt_get ''payload'' wrapped") (auto simp: opt_get_def)
qed

lemma fresh_event_get:
  assumes "fresh_event sm p = Some p'"
  shows "k \<noteq> ''event'' \<Longrightarrow> opt_get k p' = opt_get k p"
    and "opt_get ''streamId'' p = JStr sid \<Longrightarrow> s \<in> set (as_array (opt_get ''memoEmbeds'' (opt_get ''payload'' (opt_get ''event'' p')))) \<Longrightarrow>
      \<exists>i. sm sid i = Some s"
proof -
  show "k \<noteq> ''event'' \<Longrightarrow> opt_get k p' = opt_get k p"
    using assms by (auto simp: fresh_event_def opt_get_jset split: json.splits)
  assume sid: "opt_get ''streamId'' p = JStr sid"
    and s: "s \<in> set (as_array (opt_get ''memoEmbeds'' (opt_get ''payload'' (opt_get ''event'' p'))))"
  show "\<exists>i. sm sid i = Some s"
  proof (cases "opt_get ''event'' p")
    case (JObj fs)
    then obtain w where w: "fresh_in sm (JStr sid) (JObj fs) = Some w" "p' = jset ''event'' w p"
      using assms sid by (auto simp: fresh_event_def)
    moreover have "\<exists>gs. p = JObj gs" using JObj by (intro opt_get_JObj [of "''event''"]) simp
    ultimately have "opt_get ''event'' p' = w" by (simp add: opt_get_jset)
    with fresh_in_fresh [OF w(1)] s show ?thesis by simp
  qed (use assms s in \<open>auto simp: fresh_event_def opt_get_def\<close>)
qed

lemma those_SomeD: "those xs = Some ys \<Longrightarrow> xs = map Some ys"
  by (induction xs arbitrary: ys) (auto split: option.splits)

lemma fresh_moved_get:
  assumes "fresh_moved sm ty p = Some p'"
  shows "k \<noteq> ''events'' \<Longrightarrow> opt_get k p' = opt_get k p"
    and "ty = ''messages:moved'' \<Longrightarrow> opt_get ''destinationStreamId'' p = JStr sid \<Longrightarrow> ev \<in> set (as_array (opt_get ''events'' p')) \<Longrightarrow>
      s \<in> set (as_array (opt_get ''memoEmbeds'' (opt_get ''payload'' ev))) \<Longrightarrow> \<exists>i. sm sid i = Some s"
proof -
  show "k \<noteq> ''events'' \<Longrightarrow> opt_get k p' = opt_get k p"
    using assms by (auto simp: fresh_moved_def opt_get_jset split: json.splits if_splits)
  assume a: "ty = ''messages:moved''" "opt_get ''destinationStreamId'' p = JStr sid" "ev \<in> set (as_array (opt_get ''events'' p'))"
    "s \<in> set (as_array (opt_get ''memoEmbeds'' (opt_get ''payload'' ev)))"
  show "\<exists>i. sm sid i = Some s"
  proof (cases "opt_get ''events'' p")
    case (JArr evs)
    let ?f = "\<lambda>ev. case ev of JObj fs \<Rightarrow> fresh_in sm (opt_get ''destinationStreamId'' p) ev | _ \<Rightarrow> Some ev"
    obtain evs' where evs': "those (map ?f evs) = Some evs'" "p' = jset ''events'' (JArr evs') p"
      using assms a(1) JArr by (auto simp: fresh_moved_def)
    moreover have "\<exists>gs. p = JObj gs" using JArr by (intro opt_get_JObj [of "''events''"]) simp
    ultimately have "ev \<in> set evs'" using a(3) by (simp add: opt_get_jset)
    then have "Some ev \<in> set (map ?f evs)" using those_SomeD [OF evs'(1)] by simp
    then obtain ev0 where ev0: "?f ev0 = Some ev" by auto
    then show ?thesis
    proof (cases ev0)
      case (JObj fs)
      then show ?thesis using ev0 fresh_in_fresh [OF _ a(4)] a(2) by simp
    qed (use a(4) in \<open>auto simp: opt_get_def\<close>)
  qed (use assms a(3) in \<open>auto simp: fresh_moved_def\<close>)
qed

text \<open>The parts of a served payload that were decided by an access check in the past.\<close>

definition fresh_payload :: "rehydrated \<Rightarrow> summaries \<Rightarrow> string \<Rightarrow> json \<Rightarrow> bool" where
  "fresh_payload rh sm ty p \<longleftrightarrow>
    (\<forall>k\<in>{''slots'', ''sharedMessages''}. \<forall>(slotKey, slot)\<in>set (js_entries (opt_get k p)).
       slot_message slot \<noteq> None \<longrightarrow> (\<exists>key. rh key = Some slot)) \<and>
    (\<forall>sid. opt_get ''streamId'' p = JStr sid \<longrightarrow>
       (\<forall>s\<in>set (as_array (opt_get ''memoEmbeds'' (opt_get ''payload'' (opt_get ''event'' p)))). \<exists>i. sm sid i = Some s) \<and>
       (ty = ''memo:updated'' \<and> truthy (opt_get ''summary'' p) \<longrightarrow> (\<exists>i. sm sid i = Some (opt_get ''summary'' p)))) \<and>
    (\<forall>sid. ty = ''messages:moved'' \<and> opt_get ''destinationStreamId'' p = JStr sid \<longrightarrow>
       (\<forall>ev\<in>set (as_array (opt_get ''events'' p)). \<forall>s\<in>set (as_array (opt_get ''memoEmbeds'' (opt_get ''payload'' ev))). \<exists>i. sm sid i = Some s))"

lemma fresh_summary_get:
  assumes "fresh_summary sm ty p = Some p'"
  shows "k \<noteq> ''summary'' \<Longrightarrow> opt_get k p' = opt_get k p"
    and "ty = ''memo:updated'' \<Longrightarrow> opt_get ''streamId'' p = JStr sid \<Longrightarrow> truthy (opt_get ''summary'' p') \<Longrightarrow>
      \<exists>i. sm sid i = Some (opt_get ''summary'' p')"
proof -
  show "k \<noteq> ''summary'' \<Longrightarrow> opt_get k p' = opt_get k p"
    using assms by (auto simp: fresh_summary_def opt_get_jset split: option.splits if_splits)
  assume a: "ty = ''memo:updated''" "opt_get ''streamId'' p = JStr sid" "truthy (opt_get ''summary'' p')"
  have "\<exists>fs. p = JObj fs" using a(2) by (intro opt_get_JObj [of "''streamId''"]) simp
  then show "\<exists>i. sm sid i = Some (opt_get ''summary'' p')"
    using assms a by (auto simp: fresh_summary_def opt_get_jset split: option.splits if_splits)
qed

lemma fresh_slot_fresh:
  assumes "\<forall>m v r. \<exists>slot. rh (sharedMessageSlotKey m v r) = Some slot \<and> truthy slot" and "slot_message (fresh_slot rh e) \<noteq> None"
  shows "\<exists>key. rh key = Some (fresh_slot rh e)"
proof (cases "slot_message (snd e)")
  case None
  then show ?thesis using assms(2) by (simp add: fresh_slot_def)
next
  case (Some m)
  obtain slot where "rh (slot_lookup_key (fst e) m) = Some slot" "truthy slot"
    using assms(1) unfolding slot_lookup_key_def Let_def by blast
  with Some show ?thesis by (auto simp: fresh_slot_def)
qed

lemma sanitize_entry_fresh:
  assumes rh: "\<forall>m v r. \<exists>slot. rh (sharedMessageSlotKey m v r) = Some slot \<and> truthy slot"
    and e: "sanitize_entry rh sm e0 = Some (Some e)"
  shows "fresh_payload rh sm (se_eventType e) (se_payload e)"
proof (cases "is_object (se_payload e0)")
  case False
  then have "e = e0" using e by (simp add: sanitize_entry_def)
  with False show ?thesis by (cases "se_payload e0") (auto simp: fresh_payload_def opt_get_def)
next
  case True
  let ?ty = "se_eventType e0" and ?p0 = "fresh_slots rh (se_payload e0)"
  obtain p1 p2 p3 where p: "fresh_event sm ?p0 = Some p1" "fresh_moved sm ?ty p1 = Some p2" "fresh_summary sm ?ty p2 = Some p3"
    "e = e0\<lparr>se_payload := p3\<rparr>"
    using e True by (auto simp: sanitize_entry_def bind_eq_Some_conv)
  note g1 = fresh_event_get [OF p(1)] and g2 = fresh_moved_get [OF p(2)] and g3 = fresh_summary_get [OF p(3)]
  have keep: "opt_get k p3 = opt_get k ?p0" if "k \<notin> {''event'', ''events'', ''summary''}" for k
    using that by (simp add: g1(1) g2(1) g3(1))
  have slots: "\<exists>key. rh key = Some slot"
    if k: "k \<in> {''slots'', ''sharedMessages''}" "(slotKey, slot) \<in> set (js_entries (opt_get k p3))" "slot_message slot \<noteq> None" for k slotKey slot
  proof -
    have "opt_get k p3 = opt_get k ?p0" using k(1) by (intro keep) auto
    moreover have "js_entries v = []" if "\<not> truthy v" for v using that by (cases v) auto
    ultimately have "(slotKey, slot) \<in> set (js_entries (set_entries (fresh_slot rh) (opt_get k (se_payload e0))))"
      using k(1,2) by (auto simp: fresh_slots_get(2) split: if_splits)
    then obtain x where "slot = fresh_slot rh x" by (auto simp: set_entries_entries)
    with fresh_slot_fresh [OF rh] k(3) show ?thesis by simp
  qed
  have ev: "opt_get ''event'' p3 = opt_get ''event'' p1" "opt_get ''events'' p3 = opt_get ''events'' p2"
    "opt_get ''streamId'' p2 = opt_get ''streamId'' p3" "opt_get ''streamId'' ?p0 = opt_get ''streamId'' p3"
    "opt_get ''destinationStreamId'' p1 = opt_get ''destinationStreamId'' p3"
    by (simp_all add: g1(1) g2(1) g3(1))
  show ?thesis
    unfolding fresh_payload_def p(4)
  proof (intro conjI ballI allI impI)
    fix k x assume "k \<in> {''slots'', ''sharedMessages''}" "x \<in> set (js_entries (opt_get k (se_payload (e0\<lparr>se_payload := p3\<rparr>))))"
    then show "case x of (slotKey, slot) \<Rightarrow> slot_message slot \<noteq> None \<longrightarrow> (\<exists>key. rh key = Some slot)"
      using slots [of k "fst x" "snd x"] by (simp add: case_prod_beta)
  qed (use g1(2) g2(2) g3(2) in \<open>auto simp: ev\<close>)
qed

text \<open>
  What catch-up serves of content that an access check decided in the past is resolved again: if the
  hydration of shared messages answers every reference (with the \<open>private\<close> variant when the viewer may not
  read it), then in every served entry each shared-message slot is one the hydration returned now, each memo
  embed of the event or of a moved event is a summary the stream's room may see now, and the
  summary of a \<open>memo:updated\<close> entry is too; entries whose summary is gone are not served.  No other entry is
  dropped, and ids, types, times and order stay.
\<close>

theorem served_content_is_fresh:
  assumes "\<forall>m v r. \<exists>slot. rh (sharedMessageSlotKey m v r) = Some slot \<and> truthy slot"
    and "sanitizeSyncEntries rh sm entries = Some served"
  shows "(\<forall>e\<in>set served. fresh_payload rh sm (se_eventType e) (se_payload e)) \<and>
    (\<exists>kept. map (\<lambda>e. (se_syncId e, se_eventType e, se_createdAt e)) served =
       map (\<lambda>e. (se_syncId e, se_eventType e, se_createdAt e)) (filter kept entries) \<and>
       (\<forall>e\<in>set entries. se_eventType e \<noteq> ''memo:updated'' \<longrightarrow> kept e))"
proof -
  obtain es where es: "those (map (sanitize_entry rh sm) entries) = Some es" "served = map the (filter (\<lambda>x. x \<noteq> None) es)"
    using assms(2) by (auto simp: sanitizeSyncEntries_def)
  have all: "map (sanitize_entry rh sm) entries = map Some es" by (rule those_SomeD [OF es(1)])
  have keys: "(se_syncId e', se_eventType e', se_createdAt e') = (se_syncId e, se_eventType e, se_createdAt e)"
    if "sanitize_entry rh sm e = Some (Some e')" for e e'
    using that by (auto simp: sanitize_entry_def bind_eq_Some_conv split: if_splits)
  have other: "se_eventType e = ''memo:updated''" if "sanitize_entry rh sm e = Some None" for e
    using that by (auto simp: sanitize_entry_def fresh_summary_def bind_eq_Some_conv split: if_splits option.splits)
  let ?kept = "\<lambda>e. sanitize_entry rh sm e \<noteq> Some None"
  let ?key = "\<lambda>e. (se_syncId e, se_eventType e, se_createdAt e)"
  have "map ?key (map the (filter (\<lambda>x. x \<noteq> None) es)) = map ?key (filter ?kept entries)"
    using all
  proof (induction entries arbitrary: es)
    case (Cons e entries)
    obtain x xs where "es = x # xs" "sanitize_entry rh sm e = Some x" using Cons.prems by (cases es) auto
    with Cons keys [of e] show ?case by (cases x) auto
  qed simp
  moreover have "fresh_payload rh sm (se_eventType e) (se_payload e)" if e: "e \<in> set served" for e
  proof -
    have "Some e \<in> set es" using e by (auto simp: es(2))
    then have "Some (Some e) \<in> set (map (sanitize_entry rh sm) entries)" unfolding all by simp
    then obtain e0 where "sanitize_entry rh sm e0 = Some (Some e)" by auto
    then show ?thesis by (rule sanitize_entry_fresh [OF assms(1)])
  qed
  ultimately show ?thesis using other unfolding es(2) by blast
qed

definition ex_entry :: "int \<Rightarrow> string \<Rightarrow> json \<Rightarrow> SyncLogEntry" where
  "ex_entry i ty p = \<lparr>se_syncId = i, se_eventType = ty, se_payload = p, se_createdAt = 0\<rparr>"

definition ex_memo_updated :: "int \<Rightarrow> string \<Rightarrow> SyncLogEntry" where
  "ex_memo_updated i memo = ex_entry i ''memo:updated'' (JObj [(''workspaceId'', JStr ''w''), (''streamId'', JStr ''s1''),
     (''summary'', JObj [(''memoId'', JStr memo), (''title'', JStr ''old'')])])"

definition ex_slot :: json where
  "ex_slot = JObj [(''messageId'', JStr ''m9''), (''state'', JStr ''private'')]"

definition ex_shared :: "int \<Rightarrow> SyncLogEntry" where
  "ex_shared i = ex_entry i ''message:created'' (JObj [(''streamId'', JStr ''s1''),
     (''slots'', JObj [(''shared:m9'', JObj [(''messageId'', JStr ''m9''), (''contentMarkdown'', JStr ''secret'')])])])"

definition ex_summaries :: summaries where
  "ex_summaries sid i = (if i = JStr ''m1'' then Some (JObj [(''memoId'', JStr ''m1''), (''title'', JStr ''new'')]) else None)"

theorem served_content_is_fresh_witness:
  "sanitizeSyncEntries (\<lambda>_. Some ex_slot) ex_summaries [ex_memo_updated 1 ''m1'', ex_memo_updated 2 ''m2'', ex_shared 3] \<noteq> None \<and>
   (\<exists>served. sanitizeSyncEntries (\<lambda>_. Some ex_slot) ex_summaries [ex_memo_updated 1 ''m1'', ex_memo_updated 2 ''m2'', ex_shared 3] = Some served \<and>
     map se_syncId served = [1, 3] \<and> list_all (\<lambda>e. fresh_payload (\<lambda>_. Some ex_slot) ex_summaries (se_eventType e) (se_payload e)) served)"
proof -
  obtain served where s: "sanitizeSyncEntries (\<lambda>_. Some ex_slot) ex_summaries [ex_memo_updated 1 ''m1'', ex_memo_updated 2 ''m2'', ex_shared 3] = Some served"
    "map se_syncId served = [1, 3]"
  proof -
    have "map_option (map se_syncId) (sanitizeSyncEntries (\<lambda>_. Some ex_slot) ex_summaries
      [ex_memo_updated 1 ''m1'', ex_memo_updated 2 ''m2'', ex_shared 3]) = Some [1, 3]"
      by code_simp
    then show thesis using that by auto
  qed
  have "\<forall>m v r. \<exists>slot. Some ex_slot = Some slot \<and> truthy slot" by (simp add: ex_slot_def)
  with served_content_is_fresh [OF _ s(1)] s show ?thesis by (simp add: list_all_iff)
qed

end
