(* ===== verification/Delivery_Rooms.thy ===== *)
theory Delivery_Rooms
  imports Delivery_Groups People
begin

text \<open>
  The Socket.IO side of \<^verbatim>\<open>apps/backend/src/lib/outbox/delivery-groups.ts\<close> and the audiences of
  \<^verbatim>\<open>lib/outbox/audiences.ts\<close>.  The server is the list of connected sockets of all nodes, each with its
  namespace, the login it authenticated with and the rooms it is in (its own id is one of them), and the list of
  what was emitted: to which rooms, and to which sockets that were in one of the rooms at that time.
\<close>

record Socket =
  sk_id :: string
  sk_node :: string
  sk_namespace :: string
  sk_login :: string
  sk_rooms :: "string list"

record Emit =
  em_namespace :: string
  em_rooms :: "string list"
  em_event :: string
  em_payload :: json
  em_recipients :: "string list"

record Io =
  io_sockets :: "Socket list"
  io_emitted :: "Emit list"

definition in_rooms :: "string \<Rightarrow> string list \<Rightarrow> Socket \<Rightarrow> bool" where
  "in_rooms namespace rooms s \<longleftrightarrow> sk_namespace s = namespace \<and> (\<exists>r\<in>set rooms. r \<in> set (sk_rooms s))"

definition io_emit :: "string \<Rightarrow> string list \<Rightarrow> string \<Rightarrow> json \<Rightarrow> Io \<Rightarrow> Io" where
  "io_emit namespace rooms event payload io =
    io\<lparr>io_emitted := io_emitted io @
      [\<lparr>em_namespace = namespace, em_rooms = rooms, em_event = event, em_payload = payload,
        em_recipients = map sk_id (filter (in_rooms namespace rooms) (io_sockets io))\<rparr>]\<rparr>"

definition sockets_leave :: "string list \<Rightarrow> Socket \<Rightarrow> Socket" where
  "sockets_leave rooms s = s\<lparr>sk_rooms := filter (\<lambda>r. r \<notin> set rooms) (sk_rooms s)\<rparr>"

definition sockets_join :: "string list \<Rightarrow> Socket \<Rightarrow> Socket" where
  "sockets_join rooms s = s\<lparr>sk_rooms := sk_rooms s @ filter (\<lambda>r. r \<notin> set (sk_rooms s)) (js_dedup rooms)\<rparr>"

text \<open>\<^verbatim>\<open>/^ws:([^:]+)$/\<close> of the heartbeat, and the room parser of \<^verbatim>\<open>room-eviction.ts\<close>.\<close>

definition workspace_of_room :: "string \<Rightarrow> string option" where
  "workspace_of_room room =
    (if take 3 room = ''ws:'' \<and> drop 3 room \<noteq> [] \<and> CHR '':'' \<notin> set (drop 3 room) then Some (drop 3 room) else None)"

definition idAfter :: "string \<Rightarrow> string \<Rightarrow> string \<Rightarrow> string option" where
  "idAfter ws kind room =
    (let pre = ''ws:'' @ ws @ '':'' @ kind @ '':'' in if take (length pre) room = pre then Some (drop (length pre) room) else None)"

definition inWorkspace :: "string \<Rightarrow> string \<Rightarrow> bool" where
  "inWorkspace ws room \<longleftrightarrow> room = ''ws:'' @ ws \<or> take (length ws + 4) room = ''ws:'' @ ws @ '':''"

section \<open>Permission rooms\<close>

definition permissionRoomsFor :: "string \<Rightarrow> string option \<Rightarrow> string + (string list \<times> string list)" where
  "permissionRoomsFor ws role =
    map_sum id (\<lambda>held. (map (groupToRoom ws) held,
        map (groupToRoom ws) (filter (\<lambda>g. g \<notin> set held) (map permissionGroup DELIVERED_PERMISSION_SCOPES))))
      (case role of None \<Rightarrow> Inr [] | Some r \<Rightarrow> permissionGroupsForRole r)"

definition syncPermissionRooms :: "string \<Rightarrow> string \<Rightarrow> string option \<Rightarrow> Io \<Rightarrow> string + Io" where
  "syncPermissionRooms ws userId role io =
    map_sum id (\<lambda>(held, stale).
        io\<lparr>io_sockets := map (\<lambda>s. if in_rooms ''/'' [groupToRoom ws (userGroup userId)] s
             then sockets_join held (sockets_leave stale s) else s) (io_sockets io)\<rparr>)
      (permissionRoomsFor ws role)"

section \<open>Emitting\<close>

text \<open>\<open>{ ...payload, syncId }\<close>: the spread of a value that is no object adds nothing.  A sync id of 0 would be falsy.\<close>

fun spread_with :: "string \<Rightarrow> json \<Rightarrow> json \<Rightarrow> json" where
  "spread_with k v (JObj fs) = JObj (AList.update k v fs)"
| "spread_with k v _ = JObj [(k, v)]"

definition emitToGroups :: "string \<Rightarrow> json \<Rightarrow> string list \<Rightarrow> int option \<Rightarrow> Io \<Rightarrow> Io option" where
  "emitToGroups eventType payload groups syncId io =
    (if groups = [] then Some io
     else map_option (\<lambda>ws.
       io_emit ''/'' (map (groupToRoom (js_string ws)) groups) eventType
         (case syncId of
            Some n \<Rightarrow> if n \<noteq> 0 then spread_with ''syncId'' (JStr (int_digits n)) payload else payload
          | None \<Rightarrow> payload) io) (jget ''workspaceId'' payload))"

section \<open>Audiences\<close>

record EventAudience =
  au_event :: OutboxEvent
  au_groups :: "string list option"

text \<open>
  The people directory events of a batch by workspace, in the order of their first event, each with the position
  of its audience.  The values of \<open>workspaceUserOf\<close> are read from JSON; as keys and ids they are strings.
\<close>

definition push_person ::
  "json \<Rightarrow> nat \<times> string list \<times> json \<Rightarrow> (json \<times> (nat \<times> string list \<times> json) list) list \<Rightarrow> (json \<times> (nat \<times> string list \<times> json) list) list" where
  "push_person ws person m = AList.update ws (case_option [] id (map_of m ws) @ [person]) m"

fun collect_audiences ::
  "nat \<Rightarrow> OutboxEvent list \<Rightarrow> EventAudience list \<times> (json \<times> (nat \<times> string list \<times> json) list) list \<Rightarrow>
    (EventAudience list \<times> (json \<times> (nat \<times> string list \<times> json) list) list) option" where
  "collect_audiences n [] acc = Some acc"
| "collect_audiences n (e # es) (audiences, people) =
    Option.bind (resolveDeliveryGroups e) (\<lambda>groups.
      let audiences' = audiences @ [\<lparr>au_event = e, au_groups = groups\<rparr>]
      in case groups of
           None \<Rightarrow> collect_audiences (Suc n) es (audiences', people)
         | Some gs \<Rightarrow>
             Option.bind (workspaceUserOf e) (\<lambda>person.
               case person of
                 None \<Rightarrow> collect_audiences (Suc n) es (audiences', people)
               | Some (ws, userId) \<Rightarrow> collect_audiences (Suc n) es (audiences', push_person ws (n, gs, userId) people)))"

definition add_guests :: "AccessDb \<Rightarrow> json \<times> (nat \<times> string list \<times> json) list \<Rightarrow> EventAudience list \<Rightarrow> EventAudience list" where
  "add_guests ad wp audiences =
    (case wp of (ws, people) \<Rightarrow>
      let guests = listGuestViewers ad (js_string ws) (js_dedup (map (\<lambda>(_, _, u). js_string u) people))
      in fold (\<lambda>(n, gs, u) as. as[n := (as ! n)\<lparr>au_groups := Some (gs @ map userGroup (case u of JStr i \<Rightarrow> guests_of guests i | _ \<Rightarrow> []))\<rparr>])
           people audiences)"

definition resolveAudiences :: "AccessDb \<Rightarrow> OutboxEvent list \<Rightarrow> EventAudience list option" where
  "resolveAudiences ad events =
    map_option (\<lambda>(audiences, people). fold (add_guests ad) people audiences) (collect_audiences 0 events ([], []))"

section \<open>Rooms and groups\<close>

lemma groupToRoom_groups [simp]:
  "groupToRoom ws (streamGroup i) = ''ws:'' @ ws @ '':stream:'' @ i"
  "groupToRoom ws (userGroup i) = ''ws:'' @ ws @ '':user:'' @ i"
  "groupToRoom ws (docReadersGroup i) = ''ws:'' @ ws @ '':doc-readers:'' @ i"
  "groupToRoom ws (permissionGroup i) = ''ws:'' @ ws @ '':permission:'' @ i"
  by (simp_all add: groupToRoom_def streamGroup_def userGroup_def docReadersGroup_def permissionGroup_def WORKSPACE_GROUP_def)

lemma idAfter_iff: "idAfter ws kind room = Some i \<longleftrightarrow> room = ''ws:'' @ ws @ '':'' @ kind @ '':'' @ i"
proof -
  let ?pre = "''ws:'' @ ws @ '':'' @ kind @ '':''"
  have "take (length ?pre) room = ?pre \<and> drop (length ?pre) room = i \<longleftrightarrow> room = ?pre @ i"
    by (metis append_eq_conv_conj append_take_drop_id)
  then show ?thesis unfolding idAfter_def Let_def by auto
qed

lemma inWorkspace_room: "inWorkspace ws (groupToRoom ws g)"
  by (simp add: inWorkspace_def groupToRoom_def eval_nat_numeral)

text \<open>The heartbeat finds exactly the workspace rooms, whatever other rooms a workspace has.\<close>

lemma workspace_of_room_iff:
  assumes "ws \<noteq> []" and "CHR '':'' \<notin> set ws"
  shows "workspace_of_room (groupToRoom ws g) = (if g = WORKSPACE_GROUP then Some ws else None)"
  using assms by (simp add: workspace_of_room_def groupToRoom_def)

lemma room_inj:
  assumes "CHR '':'' \<notin> set ws" and "CHR '':'' \<notin> set ws'" and "''ws:'' @ ws @ '':'' @ x = ''ws:'' @ ws' @ '':'' @ y"
  shows "ws = ws' \<and> x = y"
proof -
  have "takeWhile (\<lambda>c. c \<noteq> CHR '':'') (ws @ '':'' @ x) = takeWhile (\<lambda>c. c \<noteq> CHR '':'') (ws' @ '':'' @ y)" using assms(3) by simp
  moreover have "takeWhile (\<lambda>c. c \<noteq> CHR '':'') (v @ '':'' @ z) = v" if "CHR '':'' \<notin> set v" for v z
    using that by (induction v) auto
  ultimately have "ws = ws'" using assms(1,2) by metis
  then show ?thesis using assms(3) by simp
qed

section \<open>A role change moves the sockets\<close>

lemma set_sockets_join: "set (sk_rooms (sockets_join rooms s)) = set (sk_rooms s) \<union> set rooms"
  by (auto simp: sockets_join_def)

lemma set_sockets_leave: "set (sk_rooms (sockets_leave rooms s)) = set (sk_rooms s) - set rooms"
  by (auto simp: sockets_leave_def)

text \<open>
  After a sync the member's sockets are in exactly those permission rooms whose groups catch-up admits for the
  same role, and in all the other rooms they were in before; no other socket moves.
\<close>

lemma syncPermissionRooms_exact:
  assumes sync: "syncPermissionRooms ws userId (Some role) io = Inr io'" and groups: "permissionGroupsForRole role = Inr held"
    and s: "s \<in> set (io_sockets io)" "in_rooms ''/'' [groupToRoom ws (userGroup userId)] s"
  shows "\<exists>s'\<in>set (io_sockets io'). sk_id s' = sk_id s \<and>
    (\<forall>slug\<in>set DELIVERED_PERMISSION_SCOPES. groupToRoom ws (permissionGroup slug) \<in> set (sk_rooms s') \<longleftrightarrow> permissionGroup slug \<in> set held) \<and>
    (\<forall>r. r \<notin> groupToRoom ws ` permissionGroup ` set DELIVERED_PERMISSION_SCOPES \<longrightarrow> (r \<in> set (sk_rooms s') \<longleftrightarrow> r \<in> set (sk_rooms s)))"
proof -
  let ?held = "map (groupToRoom ws) held"
  let ?stale = "map (groupToRoom ws) (filter (\<lambda>g. g \<notin> set held) (map permissionGroup DELIVERED_PERMISSION_SCOPES))"
  let ?s = "sockets_join ?held (sockets_leave ?stale s)"
  have io': "?s \<in> set (io_sockets io')"
    using sync s by (auto simp: syncPermissionRooms_def permissionRoomsFor_def groups)
  have held: "set held \<subseteq> permissionGroup ` set DELIVERED_PERMISSION_SCOPES"
    using groups by (cases "permissionsForRole role") (auto simp: permissionGroupsForRole_def)
  have rooms: "set (sk_rooms ?s) = (set (sk_rooms s) - set ?stale) \<union> set ?held"
    by (simp only: set_sockets_join set_sockets_leave)
  have inj: "groupToRoom ws (permissionGroup a) = groupToRoom ws (permissionGroup b) \<longleftrightarrow> permissionGroup a = permissionGroup b" for a b
    by (simp, simp add: permissionGroup_def)
  have mem: "groupToRoom ws (permissionGroup slug) \<in> groupToRoom ws ` A \<longleftrightarrow> permissionGroup slug \<in> A" if "A \<subseteq> range permissionGroup" for slug A
  proof
    assume "groupToRoom ws (permissionGroup slug) \<in> groupToRoom ws ` A"
    then obtain x where x: "x \<in> A" "groupToRoom ws (permissionGroup slug) = groupToRoom ws x" by (rule imageE) simp
    then obtain b where "x = permissionGroup b" using \<open>A \<subseteq> range permissionGroup\<close> by auto
    with x inj [of slug b] show "permissionGroup slug \<in> A" by simp
  qed (rule imageI)
  have "groupToRoom ws (permissionGroup slug) \<in> set (sk_rooms ?s) \<longleftrightarrow> permissionGroup slug \<in> set held"
    if "slug \<in> set DELIVERED_PERMISSION_SCOPES" for slug
  proof -
    have "set held \<subseteq> range permissionGroup" "set (filter (\<lambda>g. g \<notin> set held) (map permissionGroup DELIVERED_PERMISSION_SCOPES)) \<subseteq> range permissionGroup"
      using held by auto
    then show ?thesis unfolding rooms set_map [of "groupToRoom ws"] Un_iff Diff_iff using that mem by (auto simp del: groupToRoom_groups)
  qed
  moreover have "r \<in> set (sk_rooms ?s) \<longleftrightarrow> r \<in> set (sk_rooms s)"
    if "r \<notin> groupToRoom ws ` permissionGroup ` set DELIVERED_PERMISSION_SCOPES" for r
    unfolding rooms using that held by auto
  moreover have "sk_id ?s = sk_id s" by (simp add: sockets_join_def sockets_leave_def)
  ultimately show ?thesis using io' by blast
qed

section \<open>Audiences keep the routing\<close>

text \<open>The audience of an event is what \<open>resolveDeliveryGroups\<close> says, plus user groups of guests.\<close>

definition audience_of :: "OutboxEvent \<Rightarrow> EventAudience \<Rightarrow> bool" where
  "audience_of e a \<longleftrightarrow> au_event a = e \<and>
    (case resolveDeliveryGroups e of
       None \<Rightarrow> False
     | Some None \<Rightarrow> au_groups a = None
     | Some (Some gs) \<Rightarrow> \<exists>us. au_groups a = Some (gs @ map userGroup us) \<and> (workspaceUserOf e = Some None \<longrightarrow> us = []))"

definition people_ok :: "OutboxEvent list \<Rightarrow> (json \<times> (nat \<times> string list \<times> json) list) list \<Rightarrow> bool" where
  "people_ok events people \<longleftrightarrow> (\<forall>(ws, ps)\<in>set people. \<forall>(n, gs, u)\<in>set ps.
    n < length events \<and> resolveDeliveryGroups (events ! n) = Some (Some gs) \<and> workspaceUserOf (events ! n) \<noteq> Some None)"

lemma people_ok_push:
  assumes "people_ok events people" "n < length events" "resolveDeliveryGroups (events ! n) = Some (Some gs)"
    "workspaceUserOf (events ! n) \<noteq> Some None"
  shows "people_ok events (push_person ws (n, gs, u) people)"
proof -
  let ?old = "case_option [] id (map_of people ws)"
  have upd: "set (push_person ws (n, gs, u) people) \<subseteq> set people \<union> {(ws, ?old @ [(n, gs, u)])}"
    unfolding push_person_def by (induction people) auto
  have old: "x \<in> set ?old \<Longrightarrow> \<exists>ps. (ws, ps) \<in> set people \<and> x \<in> set ps" for x
    by (cases "map_of people ws") (auto dest: map_of_SomeD)
  show ?thesis
    unfolding people_ok_def
  proof clarify
    fix w ps n' gs' u' assume m: "(w, ps) \<in> set (push_person ws (n, gs, u) people)" "(n', gs', u') \<in> set ps"
    then have "(\<exists>ps. (w, ps) \<in> set people \<and> (n', gs', u') \<in> set ps) \<or> (n', gs', u') = (n, gs, u)"
      using upd old by fastforce
    then show "n' < length events \<and> resolveDeliveryGroups (events ! n') = Some (Some gs') \<and> workspaceUserOf (events ! n') \<noteq> Some None"
      using assms unfolding people_ok_def by fastforce
  qed
qed

lemma collect_audiences_Some:
  "collect_audiences n es (as, ps) = Some (as', ps') \<Longrightarrow> n = length done_es \<Longrightarrow> list_all2 audience_of done_es as \<Longrightarrow>
    people_ok (done_es @ es) ps \<Longrightarrow> list_all2 audience_of (done_es @ es) as' \<and> people_ok (done_es @ es) ps'"
proof (induction n es "(as, ps)" arbitrary: as ps done_es rule: collect_audiences.induct)
  case (2 n e es as ps)
  obtain g where g: "resolveDeliveryGroups e = Some g" using 2(4) by (cases "resolveDeliveryGroups e") auto
  let ?as = "as @ [\<lparr>au_event = e, au_groups = g\<rparr>]"
  have at: "(done_es @ e # es) ! n = e" "n < length (done_es @ e # es)" using 2(5) by simp_all
  have snoc: "list_all2 audience_of (done_es @ [e]) ?as"
  proof (rule list_all2_appendI)
    have "audience_of e \<lparr>au_event = e, au_groups = g\<rparr>"
      using g by (auto simp: audience_of_def split: option.splits)
    then show "list_all2 audience_of [e] [\<lparr>au_event = e, au_groups = g\<rparr>]" by simp
  qed (rule 2(6))
  show ?case
  proof (cases "g = None \<or> workspaceUserOf e = Some None")
    case True
    then have rec: "collect_audiences (Suc n) es (?as, ps) = Some (as', ps')" using 2(4) g by (auto simp: Let_def split: option.splits)
    show ?thesis
    proof (cases g)
      case None
      then show ?thesis using 2(1) [OF g refl None, of "done_es @ [e]"] rec snoc 2(5,7) by simp
    next
      case (Some gs)
      then have "workspaceUserOf e = Some None" using True by simp
      then show ?thesis using 2(2) [OF g refl Some _ refl, of "done_es @ [e]"] rec snoc 2(5,7) by simp
    qed
  next
    case False
    then obtain gs where gs: "g = Some gs" by (cases g) auto
    then obtain ws u where p: "workspaceUserOf e = Some (Some (ws, u))"
      using False 2(4) g by (cases "workspaceUserOf e") (auto simp: Let_def)
    have rec: "collect_audiences (Suc n) es (?as, push_person ws (n, gs, u) ps) = Some (as', ps')"
      using 2(4) g gs p by (simp add: Let_def)
    have "people_ok (done_es @ e # es) (push_person ws (n, gs, u) ps)"
      using 2(7) at g gs p by (intro people_ok_push) simp_all
    then show ?thesis using 2(3) [OF g refl gs p refl refl, of "done_es @ [e]"] rec snoc 2(5) by simp
  qed
qed simp

lemma add_guests_audience:
  assumes "list_all2 audience_of events as" and "people_ok events [(ws, people)]"
  shows "list_all2 audience_of events (add_guests ad (ws, people) as)"
proof -
  have "list_all2 audience_of events (fold (\<lambda>(n, gs, u) as. as[n := (as ! n)\<lparr>au_groups := Some (gs @ map userGroup (f u))\<rparr>]) people as)" for f
    using assms
  proof (induction people arbitrary: as)
    case (Cons p people)
    obtain n gs u where p: "p = (n, gs, u)" by (cases p)
    have n: "n < length events" "resolveDeliveryGroups (events ! n) = Some (Some gs)" "workspaceUserOf (events ! n) \<noteq> Some None"
      using Cons.prems(2) by (auto simp: people_ok_def p)
    have len: "length as = length events" using Cons.prems(1) by (simp add: list_all2_lengthD)
    have "audience_of (events ! n) (as ! n)" using Cons.prems(1) n(1) by (rule list_all2_nthD)
    then have "audience_of (events ! n) ((as ! n)\<lparr>au_groups := Some (gs @ map userGroup (f u))\<rparr>)"
      using n by (auto simp: audience_of_def)
    then have "list_all2 audience_of events (as[n := (as ! n)\<lparr>au_groups := Some (gs @ map userGroup (f u))\<rparr>])"
      using Cons.prems(1) by (metis list_all2_update_cong list_update_id)
    moreover have "people_ok events [(ws, people)]" using Cons.prems(2) by (auto simp: people_ok_def)
    ultimately show ?case using Cons.IH by (simp add: p)
  qed simp
  then show ?thesis by (simp add: add_guests_def Let_def)
qed

lemma resolveAudiences_audience:
  assumes "resolveAudiences ad events = Some audiences"
  shows "list_all2 audience_of events audiences"
proof -
  obtain as people where c: "collect_audiences 0 events ([], []) = Some (as, people)" "audiences = fold (add_guests ad) people as"
    using assms by (auto simp: resolveAudiences_def)
  have "list_all2 audience_of events as" "people_ok events people"
    using collect_audiences_Some [OF c(1), of "[]"] by (simp_all add: people_ok_def)
  then show ?thesis unfolding c(2)
  proof (induction people arbitrary: as)
    case (Cons wp people)
    have "list_all2 audience_of events (add_guests ad wp as)"
      using Cons.prems by (cases wp) (auto intro!: add_guests_audience simp: people_ok_def)
    moreover have "people_ok events people" using Cons.prems by (auto simp: people_ok_def)
    ultimately show ?case using Cons.IH by simp
  qed simp
qed

end
