(* ===== verification/Sync_Service.thy ===== *)
theory Sync_Service
  imports Sync_Sanitize Delivery_Rooms
begin

text \<open>
  \<^verbatim>\<open>apps/backend/src/features/sync\<close>: catch-up (\<open>service.ts\<close> and \<open>handlers.ts\<close>), the retention worker and the
  heartbeat worker.  Catch-up runs two statements without a transaction, so it takes the database as each
  of them sees it; other transactions may commit between the two.
\<close>

record CatchUpResult =
  cu_entries :: "SyncLogEntry list"
  cu_head :: int
  cu_requiresBootstrap :: bool

text \<open>\<open>None\<close>: sanitizing a malformed payload raised.\<close>

definition catchUp ::
  "AccessDb \<Rightarrow> SyncDb \<Rightarrow> SyncDb \<Rightarrow> rehydrated \<Rightarrow> summaries \<Rightarrow> string \<Rightarrow> string \<Rightarrow> string list \<Rightarrow> int \<Rightarrow> int \<Rightarrow> CatchUpResult option" where
  "catchUp ad db1 db2 rh sm ws userId permissionGroups after limit =
    (let entries = listEntriesForUser ad db1 ws userId permissionGroups after limit;
         (head, retainedFrom) = getHeadAndRetainedFrom db2 ws
     in if after < retainedFrom then Some \<lparr>cu_entries = [], cu_head = head, cu_requiresBootstrap = True\<rparr>
        else map_option (\<lambda>es. \<lparr>cu_entries = es, cu_head = head, cu_requiresBootstrap = False\<rparr>) (sanitizeSyncEntries rh sm entries))"

text \<open>
  The query of the request: \<open>after\<close> is a string of digits, \<open>limit\<close> a number between 1 and 500 after coercion
  (\<open>Some None\<close> is a limit that coerces to no finite number).
\<close>

definition parse_after :: "string option \<Rightarrow> int option" where
  "parse_after q =
    (case q of None \<Rightarrow> Some 0
     | Some s \<Rightarrow> if s \<noteq> [] \<and> (\<forall>c\<in>set s. is_digit c) then Some (int (digits_value s)) else None)"

definition parse_limit :: "rat option option \<Rightarrow> int option" where
  "parse_limit q =
    (case q of None \<Rightarrow> Some 200
     | Some None \<Rightarrow> None
     | Some (Some r) \<Rightarrow> if r = of_int \<lfloor>r\<rfloor> \<and> 1 \<le> r \<and> r \<le> 500 then Some \<lfloor>r\<rfloor> else None)"

datatype catchup_error = Validation_error | Unknown_role | Malformed_payload

definition catchUp_handler ::
  "AccessDb \<Rightarrow> SyncDb \<Rightarrow> SyncDb \<Rightarrow> rehydrated \<Rightarrow> summaries \<Rightarrow> string \<Rightarrow> string \<Rightarrow> string \<Rightarrow> string option \<Rightarrow> rat option option \<Rightarrow>
    catchup_error + CatchUpResult" where
  "catchUp_handler ad db1 db2 rh sm ws userId role after limit =
    (case permissionGroupsForRole role of
       Inl _ \<Rightarrow> Inl Unknown_role
     | Inr permissionGroups \<Rightarrow>
         (case (parse_after after, parse_limit limit) of
            (Some a, Some l) \<Rightarrow>
              (case catchUp ad db1 db2 rh sm ws userId permissionGroups a l of None \<Rightarrow> Inl Malformed_payload | Some r \<Rightarrow> Inr r)
          | _ \<Rightarrow> Inl Validation_error))"

section \<open>Retention\<close>

record SyncLogRetentionWorkerConfig =
  sr_retentionMs :: int
  sr_minKeep :: int
  sr_batchSize :: int
  sr_maxBatchesPerRun :: int

definition default_sync_retention :: SyncLogRetentionWorkerConfig where
  "default_sync_retention = \<lparr>sr_retentionMs = 2592000000, sr_minKeep = 2000, sr_batchSize = 5000, sr_maxBatchesPerRun = 50\<rparr>"

definition prune_batch :: "timestamp \<Rightarrow> int \<Rightarrow> int \<Rightarrow> SyncDb \<Rightarrow> SyncDb \<times> nat" where
  "prune_batch cutoff minKeep limit db = (case pruneExpiredEntries cutoff minKeep limit db of (db', prunedThrough, deletedCount) \<Rightarrow> (db', deletedCount))"

definition pruneOnce :: "SyncLogRetentionWorkerConfig \<Rightarrow> timestamp \<Rightarrow> SyncDb \<Rightarrow> SyncDb \<times> nat" where
  "pruneOnce c now db =
    drain_loop (prune_batch (now - sr_retentionMs c) (sr_minKeep c) (sr_batchSize c)) (nat (sr_batchSize c)) (nat (sr_maxBatchesPerRun c)) db"

section \<open>Heartbeat\<close>

text \<open>\<open>rooms\<close>: the rooms this node's adapter knows, \<open>io.local\<close> reaches this node's sockets only.\<close>

definition emit_local :: "string \<Rightarrow> string list \<Rightarrow> string \<Rightarrow> json \<Rightarrow> Io \<Rightarrow> Io" where
  "emit_local node rooms event payload io =
    io\<lparr>io_emitted := io_emitted io @
      [\<lparr>em_namespace = ''/'', em_rooms = rooms, em_event = event, em_payload = payload,
        em_recipients = map sk_id (filter (\<lambda>s. sk_node s = node \<and> in_rooms ''/'' rooms s) (io_sockets io))\<rparr>]\<rparr>"

definition node_rooms :: "string \<Rightarrow> Io \<Rightarrow> string list" where
  "node_rooms node io =
    js_dedup (concat (map sk_rooms (filter (\<lambda>s. sk_node s = node \<and> sk_namespace s = ''/'') (io_sockets io))))"

definition heartbeat_payload :: "(string \<times> int) list \<Rightarrow> string \<Rightarrow> json" where
  "heartbeat_payload heads ws =
    JObj [(''workspaceId'', JStr ws), (''head'', JStr (int_digits (case_option 0 id (map_of heads ws))))]"

definition tickOnce :: "string \<Rightarrow> SyncDb \<Rightarrow> Io \<Rightarrow> Io" where
  "tickOnce node db io =
    (let workspaceIds = concat (map (\<lambda>room. case workspace_of_room room of None \<Rightarrow> [] | Some ws \<Rightarrow> [ws]) (node_rooms node io))
     in if workspaceIds = [] then io
        else fold (\<lambda>ws. emit_local node [''ws:'' @ ws] ''sync:heartbeat'' (heartbeat_payload (getHeads db workspaceIds) ws)) workspaceIds io)"

section \<open>Catch-up is complete\<close>

text \<open>The rows a user is admitted to, listed from any table of rows: the page of a log that was never pruned.\<close>

lemma order_limit_unique:
  fixes k :: "'r \<Rightarrow> 'k::linorder"
  assumes "inj_on k (set xs)" and "distinct xs" and "distinct ys" and "set xs = set ys"
  shows "order_limit k n xs = order_limit k n ys"
proof -
  have "sort_key k xs = sort_key k ys"
  proof (rule map_sorted_distinct_set_unique [of k])
    show "distinct (map k (sort_key k xs))" "distinct (map k (sort_key k ys))"
      using assms by (simp_all add: distinct_map)
  qed (use assms in simp_all)
  then show ?thesis by (simp add: order_limit_def)
qed

lemma join_sync_id_mem:
  "join_sync_id rows ws u sid = Some b \<longleftrightarrow>
    b \<in> sl_syncId ` {r \<in> set rows. member_added_for ws u sid r} \<and> (\<forall>r\<in>set rows. member_added_for ws u sid r \<longrightarrow> sl_syncId r \<le> b)"
  "join_sync_id rows ws u sid = None \<longleftrightarrow> (\<forall>r\<in>set rows. \<not> member_added_for ws u sid r)"
proof -
  let ?rs = "filter (member_added_for ws u sid) rows"
  show "join_sync_id rows ws u sid = None \<longleftrightarrow> (\<forall>r\<in>set rows. \<not> member_added_for ws u sid r)"
    by (cases ?rs) (auto simp: join_sync_id_def filter_empty_conv dest: filter_eq_ConsD)
  show "join_sync_id rows ws u sid = Some b \<longleftrightarrow>
    b \<in> sl_syncId ` {r \<in> set rows. member_added_for ws u sid r} \<and> (\<forall>r\<in>set rows. member_added_for ws u sid r \<longrightarrow> sl_syncId r \<le> b)"
  proof (cases "?rs = []")
    case True
    then show ?thesis by (auto simp: join_sync_id_def filter_empty_conv)
  next
    case False
    then have eq: "join_sync_id rows ws u sid = Some (Max (set (map sl_syncId ?rs)))"
      by (cases ?rs) (simp_all add: join_sync_id_def)
    have "Max (set (map sl_syncId ?rs)) = b \<longleftrightarrow> b \<in> set (map sl_syncId ?rs) \<and> (\<forall>x\<in>set (map sl_syncId ?rs). x \<le> b)"
    proof (rule Max_eq_iff)
      show "set (map sl_syncId ?rs) \<noteq> {}" using False by (metis list.map_disc_iff set_empty2)
    qed simp
    then show ?thesis unfolding eq by auto
  qed
qed

text \<open>What was pruned lies at or below the floor, so above it the join bounds decide as they would with the whole log.\<close>

lemma join_bound_pruned:
  assumes "set rows \<subseteq> set h" and "\<forall>l\<in>set h. l \<in> set rows \<or> sl_workspaceId l \<noteq> ws \<or> sl_syncId l \<le> f" and "f < n" and "0 \<le> f"
    and "\<forall>l\<in>set h. 0 \<le> sl_syncId l"
  shows "join_bound rows ws u sid < n \<longleftrightarrow> join_bound h ws u sid < n"
proof -
  have low: "sl_syncId r \<le> f" if "r \<in> set h" "member_added_for ws u sid r" "r \<notin> set rows" for r
    using assms(2) that by (auto simp: member_added_for_def)
  have "join_bound rows ws u sid < n \<longleftrightarrow> (\<forall>r\<in>set rows. member_added_for ws u sid r \<longrightarrow> sl_syncId r < n)"
    if "0 < n" for rows :: "SyncLogRow list"
  proof (cases "join_sync_id rows ws u sid")
    case None
    then show ?thesis using that join_sync_id_mem(2) [of rows ws u sid] by simp
  next
    case (Some b)
    then show ?thesis using join_sync_id_mem(1) [of rows ws u sid b] by auto
  qed
  moreover have "0 < n" using assms(3,4) by simp
  ultimately show ?thesis using low assms(1,3) by (smt (verit) subsetD)
qed

lemma entry_admitted_pruned:
  assumes "set rows \<subseteq> set h" and "\<forall>l\<in>set h. l \<in> set rows \<or> sl_workspaceId l \<noteq> ws \<or> sl_syncId l \<le> f"
    and "f < sl_syncId l" and "0 \<le> f" and "\<forall>l\<in>set h. 0 \<le> sl_syncId l"
  shows "entry_admitted ad rows ws u pg l \<longleftrightarrow> entry_admitted ad h ws u pg l"
proof -
  note jb = join_bound_pruned [OF assms(1,2,3,4,5), of u]
  have vis: "(\<exists>(sid, b)\<in>set (visible_streams ad rs ws u). ''stream:'' @ sid \<in> set (sl_groups l) \<and> b < sl_syncId l) \<longleftrightarrow>
    (\<exists>m\<in>set (ad_members ad). sm_workspaceId m = ws \<and> sm_memberId m = u \<and> ''stream:'' @ sm_streamId m \<in> set (sl_groups l) \<and>
       join_bound rs ws u (sm_streamId m) < sl_syncId l) \<or>
    (\<exists>s\<in>set (ad_streams ad). \<exists>rt\<in>set (ad_streams ad). st_workspaceId s = ws \<and> effective_root ad s rt \<and> rootReadable ad ws u rt \<and>
       ''stream:'' @ st_id s \<in> set (sl_groups l) \<and>
       (if rootReadableWithoutMembership ad ws u (st_visibility rt) then 0 else join_bound rs ws u (st_id rt)) < sl_syncId l)" for rs
    by (simp add: visible_streams_def bex_Un image_image) blast
  show ?thesis unfolding entry_admitted_def vis using jb by (simp split: if_split)
qed

lemma list_unpruned:
  assumes inv: "sync_inv (db, h)" and "retained_from db ws \<le> after"
  shows "listEntriesForUser ad db ws u pg after limit = listEntriesForUser ad (db\<lparr>sync_log := h\<rparr>) ws u pg after limit"
proof -
  have i: "sync_wf db" "set (sync_log db) \<subseteq> set h" "distinct (map log_key h)"
    "\<forall>l\<in>set h. l \<in> set (sync_log db) \<or> sl_syncId l \<le> retained_from db (sl_workspaceId l)"
    "log_key ` set h = {(ws, n). 1 \<le> n \<and> n < next_sequence db ws}"
    using inv by (auto simp: sync_inv_def)
  have pos: "\<forall>l\<in>set h. 0 \<le> sl_syncId l" 
  proof
    fix l assume "l \<in> set h"
    then have "log_key l \<in> {(ws, n). 1 \<le> n \<and> n < next_sequence db ws}" unfolding i(5) [symmetric] by (rule imageI)
    then show "0 \<le> sl_syncId l" by simp
  qed
  have f0: "0 \<le> retained_from db ws" using i(1) by (simp add: sync_wf_def)
  have adm: "entry_admitted ad (sync_log db) ws u pg l \<longleftrightarrow> entry_admitted ad h ws u pg l" if "after < sl_syncId l" for l
    using i(2,4) that assms(2) f0 pos by (intro entry_admitted_pruned [where f = "retained_from db ws"]) auto
  let ?p = "\<lambda>rows l. sl_workspaceId l = ws \<and> after < sl_syncId l \<and> entry_admitted ad rows ws u pg l"
  have "order_limit sl_syncId limit (filter (?p (sync_log db)) (sync_log db)) = order_limit sl_syncId limit (filter (?p h) h)"
  proof (rule order_limit_unique)
    show "set (filter (?p (sync_log db)) (sync_log db)) = set (filter (?p h) h)"
      using i(2,4) adm assms(2) by fastforce
    have "inj_on log_key (set h)" using i(3) by (simp add: distinct_map)
    then show "inj_on sl_syncId (set (filter (?p (sync_log db)) (sync_log db)))"
      using i(2) by (auto simp: inj_on_def subset_iff)
    show "distinct (filter (?p (sync_log db)) (sync_log db))"
      using i(1) by (simp add: sync_wf_def sync_log_unique_def distinct_map)
    show "distinct (filter (?p h) h)" using i(3) by (simp add: distinct_map)
  qed
  then show ?thesis by (simp add: listEntriesForUser_def)
qed

lemma log_head_ge: "l \<in> set (sync_log db) \<Longrightarrow> sl_workspaceId l = ws \<Longrightarrow> sl_syncId l \<le> case_option 0 id (log_head db ws)"
proof -
  assume l: "l \<in> set (sync_log db)" "sl_workspaceId l = ws"
  let ?rs = "filter (\<lambda>r. sl_workspaceId r = ws) (sync_log db)"
  have "?rs \<noteq> []" using l by (auto simp: filter_empty_conv)
  then have "log_head db ws = Some (Max (set (map sl_syncId ?rs)))" by (cases ?rs) (simp_all add: log_head_def)
  then show ?thesis using l by simp
qed

text \<open>
  C30. Catch-up never silently skips a pruned span.  Whatever appends, prunes and sweeps commit before, between and
  after its two statements, a response without \<open>requiresBootstrap\<close> is the sanitized page of the log that was never
  pruned: exactly the first entries after the cursor, up to the limit, that the user is admitted to, among all
  entries ever logged for the workspace, with the join bounds of the whole log; and the head it reports is not
  below any of them.
\<close>

theorem catch_up_hides_no_pruning:
  assumes "sync_reachable (db1, h1)" and "sync_step\<^sup>*\<^sup>* (db1, h1) (db2, h2)"
    and "catchUp ad db1 db2 rh sm ws userId permissionGroups after limit = Some r" and "\<not> cu_requiresBootstrap r"
  shows "sanitizeSyncEntries rh sm (listEntriesForUser ad (db1\<lparr>sync_log := h1\<rparr>) ws userId permissionGroups after limit) = Some (cu_entries r) \<and>
    (\<forall>e\<in>set (listEntriesForUser ad (db1\<lparr>sync_log := h1\<rparr>) ws userId permissionGroups after limit).
       after < se_syncId e \<and> se_syncId e \<le> cu_head r)"
proof -
  have inv1: "sync_inv (db1, h1)" by (rule sync_reachable_inv [OF assms(1)])
  have inv2: "sync_inv (db2, h2)" "retained_from db1 ws \<le> retained_from db2 ws" "set h1 \<subseteq> set h2"
    using sync_inv_later(1,3) [OF assms(2) inv1] sync_inv_later(2) [OF assms(2) inv1, of ws] by simp_all
  have floor: "retained_from db2 ws \<le> after"
    and page: "sanitizeSyncEntries rh sm (listEntriesForUser ad db1 ws userId permissionGroups after limit) = Some (cu_entries r)"
    and head: "cu_head r = case_option 0 id (log_head db2 ws)"
    using assms(3,4) by (auto simp: catchUp_def Let_def getHeadAndRetainedFrom_def split: if_splits)
  have eq: "listEntriesForUser ad db1 ws userId permissionGroups after limit = listEntriesForUser ad (db1\<lparr>sync_log := h1\<rparr>) ws userId permissionGroups after limit"
    using inv2(2) floor by (intro list_unpruned [OF inv1]) simp
  have "after < se_syncId e \<and> se_syncId e \<le> cu_head r" if e: "e \<in> set (listEntriesForUser ad db1 ws userId permissionGroups after limit)" for e
  proof -
    obtain l where l: "l \<in> set (sync_log db1)" "sl_workspaceId l = ws" "after < sl_syncId l" "e = mapRowToEntry l"
      using e set_order_limitD unfolding listEntriesForUser_def by fastforce
    have "l \<in> set h2" using l(1) inv1 inv2(3) by (auto simp: sync_inv_def)
    then have "l \<in> set (sync_log db2)" using inv2(1) l(2,3) floor by (auto simp: sync_inv_def)
    then show ?thesis using log_head_ge [of l db2 ws] l by (simp add: head mapRowToEntry_def)
  qed
  with page show ?thesis unfolding eq by blast
qed

definition ex_pruned :: SyncDb where
  "ex_pruned = fst (pruneExpiredEntries 100 1 10 ex_logged)"

lemma ex_history: "sync_reachable (ex_logged, sync_log ex_logged)" "sync_step\<^sup>*\<^sup>* (ex_logged, sync_log ex_logged) (ex_pruned, sync_log ex_logged)"
proof -
  have "appendForWorkspace 5 ''ws'' [ex_input 10 ''general'', ex_input 12 ''dm''] empty_sync =
      Inr (ex_logged, [(10, \<lparr>le_syncId = 1, le_groups = [''stream:general'']\<rparr>), (12, \<lparr>le_syncId = 2, le_groups = [''stream:dm'']\<rparr>)])"
    by code_simp
  from step_append [OF this, of "[]"] show "sync_reachable (ex_logged, sync_log ex_logged)"
    by (simp add: sync_reachable_def empty_sync_def)
  show "sync_step\<^sup>*\<^sup>* (ex_logged, sync_log ex_logged) (ex_pruned, sync_log ex_logged)"
    unfolding ex_pruned_def using step_prune by blast
qed

theorem catch_up_hides_no_pruning_witness:
  "\<exists>r. catchUp ex_access ex_pruned ex_pruned (\<lambda>_. None) (\<lambda>_ _. None) ''ws'' ''bob'' [] 0 10 = Some r \<and> cu_requiresBootstrap r \<and>
    (\<exists>r. catchUp ex_access ex_logged ex_logged (\<lambda>_. None) (\<lambda>_ _. None) ''ws'' ''bob'' [] 0 10 = Some r \<and> \<not> cu_requiresBootstrap r \<and>
      sanitizeSyncEntries (\<lambda>_. None) (\<lambda>_ _. None)
        (listEntriesForUser ex_access (ex_logged\<lparr>sync_log := sync_log ex_logged\<rparr>) ''ws'' ''bob'' [] 0 10) = Some (cu_entries r) \<and>
      length (cu_entries r) = 2)"
proof -
  have p: "catchUp ex_access ex_pruned ex_pruned (\<lambda>_. None) (\<lambda>_ _. None) ''ws'' ''bob'' [] 0 10 =
      Some \<lparr>cu_entries = [], cu_head = 2, cu_requiresBootstrap = True\<rparr>"
    by code_simp
  have "map_option (\<lambda>r. (cu_requiresBootstrap r, length (cu_entries r))) (catchUp ex_access ex_logged ex_logged (\<lambda>_. None) (\<lambda>_ _. None) ''ws'' ''bob'' [] 0 10) = Some (False, 2)"
    by code_simp
  then obtain r where r: "catchUp ex_access ex_logged ex_logged (\<lambda>_. None) (\<lambda>_ _. None) ''ws'' ''bob'' [] 0 10 = Some r" "\<not> cu_requiresBootstrap r"
    "length (cu_entries r) = 2" by auto
  with catch_up_hides_no_pruning [OF ex_history(1) rtranclp.rtrancl_refl r(1,2)] p show ?thesis by simp
qed



section \<open>Retention drains and keeps the recent entries\<close>

interpretation sync_drain: batched_drain
  "prune_batch cutoff minKeep limit" "nat limit" "\<lambda>db. sql_count (prunable db cutoff minKeep) (sync_log db)" sync_wf
  for cutoff minKeep limit
proof unfold_locales
  fix db assume wf: "sync_wf db"
  obtain db' through n where p: "(db', through, n) = pruneExpiredEntries cutoff minKeep limit db" by (metis prod_cases3)
  then have b: "prune_batch cutoff minKeep limit db = (db', n)" unfolding prune_batch_def by (simp flip: p)
  show "sync_wf (fst (prune_batch cutoff minKeep limit db))"
    using wf_prune(1) [OF wf, of cutoff minKeep limit] by (simp add: b flip: p)
  obtain victims where v: "sync_sequences db' = sync_sequences db" "n = length victims"
    "victims = take (nat limit) (filter (prunable db cutoff minKeep) (sync_log db))"
    "sync_log db' = filter (\<lambda>l. l \<notin> set victims) (sync_log db)"
    using pruned_rows [OF wf p] by metis
  let ?due = "filter (prunable db cutoff minKeep) (sync_log db)"
  have d: "distinct ?due" using wf by (simp add: sync_wf_def sync_log_unique_def distinct_map)
  show "snd (prune_batch cutoff minKeep limit db) = min (nat limit) (sql_count (prunable db cutoff minKeep) (sync_log db))"
    by (simp add: b v(2,3) sql_count_def min.commute)
  have pr: "prunable db' cutoff minKeep = prunable db cutoff minKeep" by (simp add: prunable_def v(1) fun_eq_iff)
  have "filter (prunable db' cutoff minKeep) (sync_log db') = filter (\<lambda>l. l \<notin> set victims) ?due"
    unfolding pr v(4) by (simp add: conj_commute)
  also have "\<dots> = drop (nat limit) ?due"
  proof -
    have "distinct (take (nat limit) ?due @ drop (nat limit) ?due)" using d by simp
    then have "filter (\<lambda>l. l \<notin> set (take (nat limit) ?due)) (take (nat limit) ?due @ drop (nat limit) ?due) = drop (nat limit) ?due"
      by (auto simp: filter_empty_conv filter_id_conv disjoint_iff simp del: append_take_drop_id)
    then show ?thesis by (simp add: v(3))
  qed
  finally show "sql_count (prunable (fst (prune_batch cutoff minKeep limit db)) cutoff minKeep) (sync_log (fst (prune_batch cutoff minKeep limit db))) =
      sql_count (prunable db cutoff minKeep) (sync_log db) - snd (prune_batch cutoff minKeep limit db)"
    by (simp add: b sql_count_def v(2,3))
qed

lemma pruneOnce_drains:
  assumes "sync_wf db" and "sql_count (prunable db (now - sr_retentionMs c) (sr_minKeep c)) (sync_log db) \<le> nat (sr_maxBatchesPerRun c) * nat (sr_batchSize c)"
  shows "sync_wf (fst (pruneOnce c now db)) \<and>
    \<not> (\<exists>l\<in>set (sync_log (fst (pruneOnce c now db))). prunable (fst (pruneOnce c now db)) (now - sr_retentionMs c) (sr_minKeep c) l)"
  using sync_drain.drain_ok [OF assms(1)] sync_drain.drain_all [OF assms]
  by (simp add: pruneOnce_def sql_count_0_iff)

lemma pruneOnce_keeps:
  assumes "sync_wf db" and "l \<in> set (sync_log db)"
    and "now - sr_retentionMs c \<le> sl_createdAt l \<or> next_sequence db (sl_workspaceId l) - 1 - sr_minKeep c < sl_syncId l"
  shows "l \<in> set (sync_log (fst (pruneOnce c now db)))"
proof -
  let ?s = "prune_batch (now - sr_retentionMs c) (sr_minKeep c) (sr_batchSize c)"
  have step: "l \<in> set (sync_log (fst (?s db))) \<and> next_sequence (fst (?s db)) = next_sequence db"
    if l: "l \<in> set (sync_log db)" "sync_wf db" and
      h: "now - sr_retentionMs c \<le> sl_createdAt l \<or> next_sequence db (sl_workspaceId l) - 1 - sr_minKeep c < sl_syncId l" for db
  proof -
    obtain db' through n where p: "(db', through, n) = pruneExpiredEntries (now - sr_retentionMs c) (sr_minKeep c) (sr_batchSize c) db" by (metis prod_cases3)
    then have b: "?s db = (db', n)" unfolding prune_batch_def by (simp flip: p)
    obtain victims where v: "\<forall>v\<in>set victims. prunable db (now - sr_retentionMs c) (sr_minKeep c) v" "sync_sequences db' = sync_sequences db"
      "set (sync_log db') = set (sync_log db) - set victims" using pruned_rows [OF l(2) p] by metis
    have "\<not> prunable db (now - sr_retentionMs c) (sr_minKeep c) l"
      using h by (auto simp: prunable_def next_sequence_def split: option.splits)
    then show ?thesis using l v by (auto simp: b next_sequence_def fun_eq_iff)
  qed
  have "l \<in> set (sync_log (fst (drain_loop ?s b k db)))" for b k
    using assms
  proof (induction k arbitrary: db)
    case (Suc k)
    note st = step [OF Suc.prems(2,1,3)]
    have "sync_wf (fst (?s db))" using Suc.prems(1) by (rule sync_drain.step_ok)
    then have "l \<in> set (sync_log (fst (drain_loop ?s b k (fst (?s db)))))" using Suc.IH st Suc.prems(3) by simp
    with st show ?case by (simp add: Let_def case_prod_beta)
  qed simp
  then show ?thesis by (simp add: pruneOnce_def)
qed

section \<open>An empty page does not prove there is nothing left\<close>

text \<open>
  The client takes an empty page as proof that nothing visible lies between its cursor and the head.  Sanitizing
  happens after the limit, so a page of \<open>memo:updated\<close> entries whose summaries are gone is served empty
  although later entries are visible.
\<close>

definition ex_memo_input :: "int \<Rightarrow> SyncLogEntryInput" where
  "ex_memo_input i = \<lparr>ei_outboxEventId = i, ei_eventType = ''memo:updated'', ei_groups = [''stream:general''],
     ei_payload = JObj [(''streamId'', JStr ''general''), (''summary'', JObj [(''memoId'', JStr ''gone'')])]\<rparr>"

definition ex_memo_log :: SyncDb where
  "ex_memo_log = (case appendForWorkspace 5 ''ws'' [ex_memo_input 1, ex_memo_input 2, ex_input 3 ''general''] empty_sync of Inr (db, _) \<Rightarrow> db)"

lemma empty_page_hides_entries:
  "catchUp ex_access ex_memo_log ex_memo_log (\<lambda>_. None) (\<lambda>_ _. None) ''ws'' ''ann'' [] 0 2 =
     Some \<lparr>cu_entries = [], cu_head = 3, cu_requiresBootstrap = False\<rparr> \<and>
   map_option (\<lambda>r. map se_syncId (cu_entries r)) (catchUp ex_access ex_memo_log ex_memo_log (\<lambda>_. None) (\<lambda>_ _. None) ''ws'' ''ann'' [] 2 2) = Some [3]"
  by code_simp

end
