(* ===== verification/Sync_Reconciliation.thy ===== *)
theory Sync_Reconciliation
  imports Sync_Service
begin

text \<open>
  \<^verbatim>\<open>apps/backend/src/features/sync/reconciliation-worker.ts\<close>: the sweep that logs what the broadcast handler
  missed.  A straggler is an outbox row of the swept window without a log entry.  An append that raises ends the
  sweep; what earlier workspaces appended and emitted stays.
\<close>

record SyncLogReconciliationWorkerConfig =
  rc_delayMs :: int
  rc_batchSize :: int
  rc_maxBatchesPerRun :: int

definition default_reconciliation :: SyncLogReconciliationWorkerConfig where
  "default_reconciliation = \<lparr>rc_delayMs = 15000, rc_batchSize = 500, rc_maxBatchesPerRun = 10\<rparr>"

section \<open>Rescue\<close>

text \<open>The log entry of an audience: \<open>None\<close> raises, \<open>Some None\<close> is skipped.\<close>

definition log_entry :: "EventAudience \<Rightarrow> (string \<times> SyncLogEntryInput) option option" where
  "log_entry a =
    (case au_groups a of
       None \<Rightarrow> Some None
     | Some gs \<Rightarrow>
         if gs = [] then Some None
         else map_option (\<lambda>ws. case ws of
             JStr w \<Rightarrow> if w = [] then None
               else Some (w, \<lparr>ei_outboxEventId = ev_id (au_event a), ei_eventType = ev_type (au_event a), ei_groups = gs,
                              ei_payload = ev_payload (au_event a)\<rparr>)
           | _ \<Rightarrow> None) (jget ''workspaceId'' (ev_payload (au_event a))))"

type_synonym rescue_map = "(string \<times> (OutboxEvent \<times> SyncLogEntryInput) list) list"

definition push_entry :: "string \<Rightarrow> OutboxEvent \<times> SyncLogEntryInput \<Rightarrow> rescue_map \<Rightarrow> rescue_map" where
  "push_entry ws x m = AList.update ws (case_option [] id (map_of m ws) @ [x]) m"

fun by_workspace :: "EventAudience list \<Rightarrow> rescue_map \<Rightarrow> rescue_map option" where
  "by_workspace [] m = Some m"
| "by_workspace (a # as) m =
    Option.bind (log_entry a) (\<lambda>x.
      case x of None \<Rightarrow> by_workspace as m | Some (ws, entry) \<Rightarrow> by_workspace as (push_entry ws (au_event a, entry) m))"

definition emit_rescued :: "(int \<times> LoggedEntry) list \<Rightarrow> OutboxEvent \<times> SyncLogEntryInput \<Rightarrow> Io \<Rightarrow> Io" where
  "emit_rescued logged x io =
    (case x of (event, entry) \<Rightarrow>
      case_option io id (emitToGroups (ev_type event) (ev_payload event)
        (case map_of logged (ev_id event) of None \<Rightarrow> ei_groups entry | Some r \<Rightarrow> le_groups r)
        (map_option le_syncId (map_of logged (ev_id event))) io))"

fun rescue_workspaces :: "timestamp \<Rightarrow> rescue_map \<Rightarrow> SyncDb \<times> Io \<Rightarrow> bool \<times> SyncDb \<times> Io" where
  "rescue_workspaces t [] s = (True, s)"
| "rescue_workspaces t ((ws, entries) # rest) (db, io) =
    (case appendForWorkspace t ws (map snd entries) db of
       Inl _ \<Rightarrow> (False, db, io)
     | Inr (db', logged) \<Rightarrow> rescue_workspaces t rest (db', fold (emit_rescued logged) entries io))"

definition rescue :: "AccessDb \<Rightarrow> timestamp \<Rightarrow> OutboxEvent list \<Rightarrow> SyncDb \<times> Io \<Rightarrow> bool \<times> SyncDb \<times> Io" where
  "rescue ad t stragglers s =
    (if stragglers = [] then (True, s)
     else case Option.bind (resolveAudiences ad stragglers) (\<lambda>audiences. by_workspace audiences []) of
       None \<Rightarrow> (False, s)
     | Some m \<Rightarrow> rescue_workspaces t m s)"

section \<open>The sweep\<close>

text \<open>\<open>True\<close>: the window came back clean.  \<open>n\<close> is the number of batches left; an error abandons the sweep.\<close>

fun sweep_loop ::
  "SyncLogReconciliationWorkerConfig \<Rightarrow> AccessDb \<Rightarrow> OutboxEvent table \<Rightarrow> timestamp \<Rightarrow> timestamp \<Rightarrow> timestamp \<Rightarrow> nat \<Rightarrow> SyncDb \<times> Io \<Rightarrow>
    bool \<times> SyncDb \<times> Io" where
  "sweep_loop c ad events t since until 0 s = (False, s)"
| "sweep_loop c ad events t since until (Suc n) (db, io) =
    (let stragglers = listUnsequencedOutboxEvents events (sync_log db) since until (rc_batchSize c) SYNC_LOG_EXCLUDED_EVENT_TYPES
     in case rescue ad t stragglers (db, io) of
          (False, s) \<Rightarrow> (False, s)
        | (True, s) \<Rightarrow>
            if int (length stragglers) < rc_batchSize c then (True, s) else sweep_loop c ad events t since until n s)"

definition sweepOnce ::
  "SyncLogReconciliationWorkerConfig \<Rightarrow> AccessDb \<Rightarrow> OutboxEvent table \<Rightarrow> timestamp \<Rightarrow> timestamp list \<Rightarrow> SyncDb \<times> Io \<Rightarrow> SyncDb \<times> Io" where
  "sweepOnce c ad events dbNow xactStarts s =
    (case getSweptUntil (fst s) of
       None \<Rightarrow> s
     | Some sweptUntil \<Rightarrow>
         let cutoff = getFrozenCutoff dbNow xactStarts (rc_delayMs c)
         in if cutoff \<le> sweptUntil then s
            else case sweep_loop c ad events dbNow sweptUntil cutoff (nat (rc_maxBatchesPerRun c)) s of
                   (exhausted, db, io) \<Rightarrow> if exhausted then (advanceSweptUntil cutoff db, io) else (db, io))"

section \<open>What a rescue logs\<close>

text \<open>Events the log takes: routed to at least one client group, in a named workspace, of a logged type.\<close>

definition loggable :: "OutboxEvent \<Rightarrow> bool" where
  "loggable e \<longleftrightarrow> ev_type e \<notin> set SYNC_LOG_EXCLUDED_EVENT_TYPES \<and>
    (\<exists>gs. resolveDeliveryGroups e = Some (Some gs) \<and> gs \<noteq> []) \<and> (\<exists>ws. jget ''workspaceId'' (ev_payload e) = Some (JStr ws) \<and> ws \<noteq> [])"

definition logged_ids :: "SyncDb \<Rightarrow> int set" where
  "logged_ids db = sl_outboxEventId ` set (sync_log db)"

lemma append_logs:
  assumes "appendForWorkspace t ws entries db = Inr (db', assigned)"
  shows "logged_ids db \<subseteq> logged_ids db'" "ei_outboxEventId ` set entries \<subseteq> logged_ids db'"
    "logged_ids db' \<subseteq> logged_ids db \<union> ei_outboxEventId ` set entries" "sync_swept db' = sync_swept db"
proof -
  show "sync_swept db' = sync_swept db" using assms by (cases rule: append_cases) simp_all
  show "logged_ids db \<subseteq> logged_ids db'" using assms by (cases rule: append_cases) (auto simp: logged_ids_def)
  show "ei_outboxEventId ` set entries \<subseteq> logged_ids db'"
    using assms
  proof (cases rule: append_cases)
    case (rows rows existing)
    have "ei_outboxEventId e \<in> logged_ids db'" if "e \<in> set entries" for e
    proof (cases "e \<in> set (append_missing ws entries db)")
      case True
      then have "ei_outboxEventId e \<in> sl_outboxEventId ` set rows" unfolding rows(1) number_entries_event_set by blast
      then show ?thesis by (auto simp: logged_ids_def rows(3))
    next
      case False
      then show ?thesis using that unfolding logged_ids_def rows(3) by (force simp: append_missing_def)
    qed
    then show ?thesis by blast
  qed simp
  show "logged_ids db' \<subseteq> logged_ids db \<union> ei_outboxEventId ` set entries"
    using assms
  proof (cases rule: append_cases)
    case (rows rows existing)
    have "sl_outboxEventId ` set rows \<subseteq> ei_outboxEventId ` set entries"
      unfolding rows(1) number_entries_event_set by (auto simp: append_missing_def)
    then show ?thesis by (auto simp: logged_ids_def rows(3))
  qed simp
qed

lemma rescue_workspaces_logs:
  assumes "rescue_workspaces t m (db, io) = (ok, db', io')"
  shows "logged_ids db \<subseteq> logged_ids db'" "sync_swept db' = sync_swept db"
    "ok \<Longrightarrow> (ws, entries) \<in> set m \<Longrightarrow> (e, x) \<in> set entries \<Longrightarrow> ei_outboxEventId x \<in> logged_ids db'"
  using assms
proof (induction t m "(db, io)" arbitrary: db io rule: rescue_workspaces.induct)
  case (2 t w es rest db io)
  {
    case 1
    then show ?case using 2 append_logs by (fastforce split: sum.splits prod.splits)
  next
    case 2
    then show ?case using "2.hyps" append_logs(4) by (fastforce split: sum.splits prod.splits)
  next
    case 3
    then obtain db1 logged where a: "appendForWorkspace t w (map snd es) db = Inr (db1, logged)"
      and r: "rescue_workspaces t rest (db1, fold (emit_rescued logged) es io) = (ok, db', io')"
      by (auto split: sum.splits)
    show ?case
    proof (cases "(ws, entries) = (w, es)")
      case True
      then have "ei_outboxEventId x \<in> logged_ids db1" using append_logs(2) [OF a] 3(3) by force
      then show ?thesis using "2.hyps"(1) [OF a refl r] by blast
    next
      case False
      then show ?thesis using "2.hyps"(3) [OF a refl 3(1) _ 3(3) r] 3(2) by auto
    qed
  }
qed auto

definition in_map :: "rescue_map \<Rightarrow> string \<Rightarrow> OutboxEvent \<times> SyncLogEntryInput \<Rightarrow> bool" where
  "in_map m ws x \<longleftrightarrow> (\<exists>entries. map_of m ws = Some entries \<and> x \<in> set entries)"

lemma in_map_push: "in_map (push_entry ws x m) w y \<longleftrightarrow> (w = ws \<and> y = x) \<or> in_map m w y"
  by (auto simp: in_map_def push_entry_def update_conv' split: option.splits)

lemma by_workspace_in:
  assumes "by_workspace as m = Some m'"
  shows "in_map m w y \<Longrightarrow> in_map m' w y"
    and "a \<in> set as \<Longrightarrow> log_entry a = Some (Some (ws, entry)) \<Longrightarrow> in_map m' ws (au_event a, entry)"
  using assms
proof (induction as arbitrary: m w y)
  case (Cons b as)
  {
    case 1
    then obtain x where x: "log_entry b = Some x" by (cases "log_entry b") auto
    from 1 show ?case
      using Cons.IH(1) [of m w y] Cons.IH(1) [of "push_entry (fst (the x)) (au_event b, snd (the x)) m" w y] x
      by (cases x) (auto simp: in_map_push)
  next
    case 2
    then obtain x where x: "log_entry b = Some x" by (cases "log_entry b") auto
    show ?case
    proof (cases "a \<in> set as")
      case True
      then show ?thesis using Cons.IH(2) 2(2,3) x by (auto split: option.splits prod.splits)
    next
      case False
      then have "a = b" using 2(1) by simp
      then show ?thesis using Cons.IH(1) [of "push_entry ws (au_event b, entry) m" ws "(au_event b, entry)"] 2(2,3) by (auto simp: in_map_push)
    qed
  }
qed auto

lemma loggable_entry:
  assumes "audience_of e a" and "loggable e"
  shows "\<exists>ws entry. log_entry a = Some (Some (ws, entry)) \<and> ei_outboxEventId entry = ev_id e"
proof -
  obtain gs ws where "au_event a = e" "au_groups a = Some gs" "gs \<noteq> []"
    "jget ''workspaceId'' (ev_payload e) = Some (JStr ws)" "ws \<noteq> []"
    using assms by (auto simp: audience_of_def loggable_def)
  then show ?thesis by (simp add: log_entry_def)
qed

lemma rescue_logs:
  assumes "rescue ad t stragglers (db, io) = (ok, db', io')"
  shows "logged_ids db \<subseteq> logged_ids db'" "sync_swept db' = sync_swept db"
    "ok \<Longrightarrow> e \<in> set stragglers \<Longrightarrow> loggable e \<Longrightarrow> ev_id e \<in> logged_ids db'"
proof -
  show "logged_ids db \<subseteq> logged_ids db'" "sync_swept db' = sync_swept db"
    using assms rescue_workspaces_logs(1,2) by (auto simp: rescue_def split: if_splits option.splits)
  assume ok: ok and e: "e \<in> set stragglers" "loggable e"
  then obtain audiences m where m: "resolveAudiences ad stragglers = Some audiences" "by_workspace audiences [] = Some m"
    "rescue_workspaces t m (db, io) = (ok, db', io')"
    using assms by (auto simp: rescue_def bind_eq_Some_conv split: if_splits option.splits)
  obtain a where a: "a \<in> set audiences" "audience_of e a"
    using resolveAudiences_audience [OF m(1)] e(1) by (metis in_set_conv_nth list_all2_conv_all_nth)
  obtain ws entry where en: "log_entry a = Some (Some (ws, entry))" "ei_outboxEventId entry = ev_id e"
    using loggable_entry [OF a(2) e(2)] by blast
  have "in_map m ws (au_event a, entry)" using by_workspace_in(2) [OF m(2) a(1) en(1)] .
  then obtain entries where "(ws, entries) \<in> set m" "(au_event a, entry) \<in> set entries"
    by (auto simp: in_map_def dest: map_of_SomeD)
  then show "ev_id e \<in> logged_ids db'" using rescue_workspaces_logs(3) [OF m(3) ok] en(2) by metis
qed

text \<open>A short batch holds every unlogged event of the window.\<close>

lemma unsequenced_short:
  assumes "int (length (listUnsequencedOutboxEvents events rows since until limit excl)) < limit"
  shows "set (listUnsequencedOutboxEvents events rows since until limit excl) =
    {e \<in> set events. since \<le> ev_createdAt e \<and> ev_createdAt e < until \<and> ev_type e \<notin> set excl \<and> ev_id e \<notin> sl_outboxEventId ` set rows}"
proof -
  let ?c = "filter (\<lambda>o'. since \<le> ev_createdAt o' \<and> ev_createdAt o' < until \<and> ev_type o' \<notin> set excl \<and> ev_id o' \<notin> sl_outboxEventId ` set rows) events"
  have "length ?c \<le> nat limit" using assms by (simp add: listUnsequencedOutboxEvents_def length_order_limit)
  then show ?thesis by (auto simp: listUnsequencedOutboxEvents_def order_limit_all)
qed

text \<open>The clean window: every loggable event of it is logged, or was logged before.\<close>

definition window_clean :: "OutboxEvent table \<Rightarrow> int set \<Rightarrow> timestamp \<Rightarrow> timestamp \<Rightarrow> bool" where
  "window_clean events logged since until \<longleftrightarrow>
    (\<forall>e\<in>set events. since \<le> ev_createdAt e \<and> ev_createdAt e < until \<and> loggable e \<longrightarrow> ev_id e \<in> logged)"

lemma rescued_window_clean:
  assumes list: "stragglers = listUnsequencedOutboxEvents events rows since until limit SYNC_LOG_EXCLUDED_EVENT_TYPES"
    and short: "int (length stragglers) < limit"
    and rescue: "rescue ad t stragglers (db, io) = (True, db', io')"
  shows "window_clean events (sl_outboxEventId ` set rows \<union> logged_ids db') since until"
proof -
  have "ev_id e \<in> sl_outboxEventId ` set rows \<union> logged_ids db'"
    if e: "e \<in> set events" "since \<le> ev_createdAt e" "ev_createdAt e < until" "loggable e" for e
  proof (cases "ev_id e \<in> sl_outboxEventId ` set rows")
    case False
    then have "e \<in> set stragglers"
      using e unsequenced_short [OF short [unfolded list]] by (simp add: list loggable_def)
    then show ?thesis using rescue_logs(3) [OF rescue TrueI _ e(4)] by blast
  qed simp
  then show ?thesis by (simp add: window_clean_def)
qed

lemma sweep_loop_clean:
  assumes "sweep_loop c ad events t since until n (db, io) = (True, db', io')"
  shows "window_clean events (logged_ids db') since until"
  using assms
proof (induction n arbitrary: db io)
  case (Suc n)
  let ?st = "listUnsequencedOutboxEvents events (sync_log db) since until (rc_batchSize c) SYNC_LOG_EXCLUDED_EVENT_TYPES"
  obtain ok db1 io1 where r: "rescue ad t ?st (db, io) = (ok, db1, io1)" by (metis prod_cases3)
  show ?case
  proof (cases "ok \<and> int (length ?st) < rc_batchSize c")
    case True
    then have "db' = db1" using Suc.prems r by (simp add: Let_def)
    moreover have "window_clean events (sl_outboxEventId ` set (sync_log db) \<union> logged_ids db1) since until"
      using True r by (intro rescued_window_clean [OF refl]) simp_all
    moreover have "sl_outboxEventId ` set (sync_log db) \<subseteq> logged_ids db1" using rescue_logs(1) [OF r] by (simp add: logged_ids_def)
    ultimately show ?thesis by (simp add: Un_absorb1)
  next
    case False
    then show ?thesis using Suc.prems Suc.IH r by (cases ok) (auto simp: Let_def split: if_splits)
  qed
qed simp

lemma sweepOnce_clean:
  assumes "sweepOnce c ad events dbNow xactStarts (db, io) = (db', io')" and "sync_swept db = Some since"
    and "sync_swept db' \<noteq> sync_swept db"
  shows "sync_swept db' = Some (max since (getFrozenCutoff dbNow xactStarts (rc_delayMs c))) \<and>
    window_clean events (logged_ids db') since (getFrozenCutoff dbNow xactStarts (rc_delayMs c))"
proof -
  let ?cut = "getFrozenCutoff dbNow xactStarts (rc_delayMs c)"
  obtain ex db1 io1 where l: "sweep_loop c ad events dbNow since ?cut (nat (rc_maxBatchesPerRun c)) (db, io) = (ex, db1, io1)"
    by (metis prod_cases3)
  have swept: "sync_swept d2 = sync_swept d1" if "sweep_loop c ad events dbNow since ?cut n (d1, i1) = (b, d2, i2)" for n d1 i1 b d2 i2
    using that
  proof (induction n arbitrary: d1 i1)
    case (Suc n)
    let ?st = "listUnsequencedOutboxEvents events (sync_log d1) since ?cut (rc_batchSize c) SYNC_LOG_EXCLUDED_EVENT_TYPES"
    obtain ok d3 i3 where r: "rescue ad dbNow ?st (d1, i1) = (ok, d3, i3)" by (metis prod_cases3)
    then show ?case using Suc rescue_logs(2) [OF r] by (cases ok) (auto simp: Let_def split: if_splits)
  qed simp
  have "ex \<and> \<not> ?cut \<le> since \<and> db' = advanceSweptUntil ?cut db1"
    using assms l swept [OF l] by (auto simp: sweepOnce_def getSweptUntil_def Let_def split: if_splits)
  then show ?thesis
    using sweep_loop_clean [of c ad events dbNow since ?cut _ db io db1 io1] l swept [OF l] assms(2)
    by (auto simp: advanceSweptUntil_def window_clean_def logged_ids_def)
qed


section \<open>The sweep among concurrent transactions\<close>

text \<open>
  The statements of \<open>sweepOnce\<close> as separate steps, run by any number of backend instances, between
  transactions that insert outbox rows, the broadcast handler's appends, the retention of both tables and the
  passing of time.  An outbox row is stamped with the start of its transaction.  \<open>ss_ever\<close> remembers the events
  ever logged, because retention prunes the log.
\<close>

datatype sweep_local =
    Reading timestamp timestamp nat
  | Listed timestamp timestamp nat "OutboxEvent list"
  | Clean timestamp timestamp

record SweepSys =
  ss_now :: timestamp
  ss_running :: "timestamp list"
  ss_events :: "OutboxEvent table"
  ss_db :: SyncDb
  ss_io :: Io
  ss_ever :: "int set"
  ss_sweeps :: "sweep_local list"

definition drop_nth :: "nat \<Rightarrow> 'a list \<Rightarrow> 'a list" where
  "drop_nth i xs = take i xs @ drop (Suc i) xs"

inductive sweep_step :: "SyncLogReconciliationWorkerConfig \<Rightarrow> SweepSys \<Rightarrow> SweepSys \<Rightarrow> bool" for c where
  time_passes: "ss_now s \<le> now \<Longrightarrow> sweep_step c s (s\<lparr>ss_now := now\<rparr>)"
| txn_begin: "sweep_step c s (s\<lparr>ss_running := ss_now s # ss_running s\<rparr>)"
| txn_commit: "r \<in> set (ss_running s) \<Longrightarrow> (\<forall>e\<in>set evs. ev_createdAt e = r) \<Longrightarrow>
    sweep_step c s (s\<lparr>ss_running := remove1 r (ss_running s), ss_events := ss_events s @ evs\<rparr>)"
| txn_rollback: "sweep_step c s (s\<lparr>ss_running := remove1 r (ss_running s)\<rparr>)"
| dispatch: "appendForWorkspace t ws entries (ss_db s) = Inr (db, assigned) \<Longrightarrow>
    sweep_step c s (s\<lparr>ss_db := db, ss_ever := ss_ever s \<union> logged_ids db\<rparr>)"
| log_retention: "sweep_step c s (s\<lparr>ss_db := fst (pruneExpiredEntries cutoff minKeep limit (ss_db s))\<rparr>)"
| outbox_retention: "sweep_step c s (s\<lparr>ss_events := sql_delete p (ss_events s)\<rparr>)"
| sweep_begin: "getSweptUntil (ss_db s) = Some since \<Longrightarrow> set (ss_running s) \<subseteq> set xactStarts \<Longrightarrow>
    cutoff = getFrozenCutoff (ss_now s) xactStarts (rc_delayMs c) \<Longrightarrow> since < cutoff \<Longrightarrow>
    sweep_step c s (s\<lparr>ss_sweeps := ss_sweeps s @ [Reading since cutoff (nat (rc_maxBatchesPerRun c))]\<rparr>)"
| sweep_list: "i < length (ss_sweeps s) \<Longrightarrow> ss_sweeps s ! i = Reading since cutoff (Suc n) \<Longrightarrow>
    sweep_step c s (s\<lparr>ss_sweeps := (ss_sweeps s)[i := Listed since cutoff n
      (listUnsequencedOutboxEvents (ss_events s) (sync_log (ss_db s)) since cutoff (rc_batchSize c) SYNC_LOG_EXCLUDED_EVENT_TYPES)]\<rparr>)"
| sweep_rescue: "i < length (ss_sweeps s) \<Longrightarrow> ss_sweeps s ! i = Listed since cutoff n st \<Longrightarrow>
    rescue ad t st (ss_db s, ss_io s) = (True, db, io) \<Longrightarrow>
    sweep_step c s (s\<lparr>ss_db := db, ss_io := io, ss_ever := ss_ever s \<union> logged_ids db,
      ss_sweeps := (ss_sweeps s)[i := if int (length st) < rc_batchSize c then Clean since cutoff else Reading since cutoff n]\<rparr>)"
| sweep_fail: "i < length (ss_sweeps s) \<Longrightarrow> ss_sweeps s ! i = Listed since cutoff n st \<Longrightarrow>
    rescue ad t st (ss_db s, ss_io s) = (False, db, io) \<Longrightarrow>
    sweep_step c s (s\<lparr>ss_db := db, ss_io := io, ss_ever := ss_ever s \<union> logged_ids db, ss_sweeps := drop_nth i (ss_sweeps s)\<rparr>)"
| sweep_advance: "i < length (ss_sweeps s) \<Longrightarrow> ss_sweeps s ! i = Clean since cutoff \<Longrightarrow>
    sweep_step c s (s\<lparr>ss_db := advanceSweptUntil cutoff (ss_db s), ss_sweeps := drop_nth i (ss_sweeps s)\<rparr>)"
| sweep_out_of_batches: "i < length (ss_sweeps s) \<Longrightarrow> ss_sweeps s ! i = Reading since cutoff 0 \<Longrightarrow>
    sweep_step c s (s\<lparr>ss_sweeps := drop_nth i (ss_sweeps s)\<rparr>)"

text \<open>A window is frozen when no running transaction started before its end.\<close>

definition frozen :: "SweepSys \<Rightarrow> timestamp \<Rightarrow> bool" where
  "frozen s cutoff \<longleftrightarrow> cutoff \<le> ss_now s \<and> (\<forall>r\<in>set (ss_running s). cutoff \<le> r)"

fun sweep_bounds :: "sweep_local \<Rightarrow> timestamp \<times> timestamp" where
  "sweep_bounds (Reading since cutoff n) = (since, cutoff)"
| "sweep_bounds (Listed since cutoff n st) = (since, cutoff)"
| "sweep_bounds (Clean since cutoff) = (since, cutoff)"

fun local_clean :: "SyncLogReconciliationWorkerConfig \<Rightarrow> SweepSys \<Rightarrow> sweep_local \<Rightarrow> bool" where
  "local_clean c s (Reading since cutoff n) = True"
| "local_clean c s (Listed since cutoff n st) \<longleftrightarrow>
    (int (length st) < rc_batchSize c \<longrightarrow> window_clean (ss_events s) (ss_ever s \<union> ev_id ` {e \<in> set st. loggable e}) since cutoff)"
| "local_clean c s (Clean since cutoff) \<longleftrightarrow> window_clean (ss_events s) (ss_ever s) since cutoff"

definition local_ok :: "SyncLogReconciliationWorkerConfig \<Rightarrow> timestamp \<Rightarrow> timestamp \<Rightarrow> SweepSys \<Rightarrow> sweep_local \<Rightarrow> bool" where
  "local_ok c start swept s l \<longleftrightarrow>
    start \<le> fst (sweep_bounds l) \<and> fst (sweep_bounds l) \<le> swept \<and> fst (sweep_bounds l) < snd (sweep_bounds l) \<and>
    frozen s (snd (sweep_bounds l)) \<and> local_clean c s l"

definition sweep_inv :: "SyncLogReconciliationWorkerConfig \<Rightarrow> timestamp \<Rightarrow> SweepSys \<Rightarrow> bool" where
  "sweep_inv c start s \<longleftrightarrow> (\<exists>swept. sync_swept (ss_db s) = Some swept \<and> start \<le> swept \<and> swept \<le> ss_now s \<and>
    (\<forall>r\<in>set (ss_running s). swept \<le> r \<or> r < start) \<and>
    window_clean (ss_events s) (ss_ever s) start swept \<and> logged_ids (ss_db s) \<subseteq> ss_ever s \<and>
    (\<forall>l\<in>set (ss_sweeps s). local_ok c start swept s l))"

lemma window_clean_mono:
  "window_clean events ever since until \<Longrightarrow> set events' \<subseteq> set events \<Longrightarrow> ever \<subseteq> ever' \<Longrightarrow> window_clean events' ever' since until"
  by (auto simp: window_clean_def)

lemma window_clean_late:
  "window_clean events ever since until \<Longrightarrow> \<forall>e\<in>set evs. until \<le> ev_createdAt e \<or> ev_createdAt e < since \<Longrightarrow>
    window_clean (events @ evs) ever since until"
  by (auto simp: window_clean_def)

lemma window_clean_join:
  "window_clean events ever start swept \<Longrightarrow> window_clean events ever since cutoff \<Longrightarrow> since \<le> swept \<Longrightarrow>
    window_clean events ever start (max swept cutoff)"
proof -
  assume w: "window_clean events ever start swept" "window_clean events ever since cutoff" and le: "since \<le> swept"
  have "ev_id e \<in> ever" if "e \<in> set events" "start \<le> ev_createdAt e" "ev_createdAt e < max swept cutoff" "loggable e" for e
  proof (cases "ev_createdAt e < swept")
    case True
    then show ?thesis using w(1) that by (simp add: window_clean_def)
  next
    case False
    then show ?thesis using w(2) that le by (auto simp: window_clean_def)
  qed
  then show ?thesis by (simp add: window_clean_def)
qed

lemma set_drop_nth: "set (drop_nth i xs) \<subseteq> set xs"
  unfolding drop_nth_def using set_take_subset set_drop_subset by fastforce

text \<open>Steps that only add to what was logged, take events away, let time pass or end transactions keep every window clean.\<close>

lemma local_ok_mono:
  assumes "local_ok c start swept s l" and "swept \<le> swept'" and "set (ss_events s') \<subseteq> set (ss_events s)" and "ss_ever s \<subseteq> ss_ever s'"
    and "ss_now s \<le> ss_now s'" and "set (ss_running s') \<subseteq> set (ss_running s) \<union> {ss_now s}"
  shows "local_ok c start swept' s' l"
proof -
  have "local_clean c s' l"
  proof (cases l)
    case (Listed since cutoff n st)
    then show ?thesis using assms(1,3,4) by (auto simp: local_ok_def intro: window_clean_mono)
  next
    case (Clean since cutoff)
    then show ?thesis using assms(1,3,4) by (auto simp: local_ok_def intro: window_clean_mono)
  qed simp
  moreover have "frozen s' (snd (sweep_bounds l))"
    using assms(1,5,6) unfolding local_ok_def frozen_def by fastforce
  ultimately show ?thesis using assms(1,2) by (auto simp: local_ok_def)
qed


lemma sweep_inv_mono:
  assumes inv: "sweep_inv c start s" and swept: "sync_swept (ss_db s') = sync_swept (ss_db s)"
    and ev: "set (ss_events s') \<subseteq> set (ss_events s)" and ever: "ss_ever s \<subseteq> ss_ever s'" and now: "ss_now s \<le> ss_now s'"
    and run: "set (ss_running s') \<subseteq> set (ss_running s) \<union> {ss_now s}" and log: "logged_ids (ss_db s') \<subseteq> ss_ever s'"
    and loc: "\<forall>l\<in>set (ss_sweeps s'). l \<in> set (ss_sweeps s) \<or> (\<forall>w. sync_swept (ss_db s) = Some w \<longrightarrow> local_ok c start w s' l)"
  shows "sweep_inv c start s'"
proof -
  obtain w where w: "sync_swept (ss_db s) = Some w" "start \<le> w" "w \<le> ss_now s" "\<forall>r\<in>set (ss_running s). w \<le> r \<or> r < start"
    "window_clean (ss_events s) (ss_ever s) start w" "\<forall>l\<in>set (ss_sweeps s). local_ok c start w s l"
    using inv by (auto simp: sweep_inv_def)
  have "local_ok c start w s' l" if "l \<in> set (ss_sweeps s')" for l
    using that loc w(1,6) local_ok_mono [OF _ order_refl ev ever now run] by blast
  moreover have "\<forall>r\<in>set (ss_running s'). w \<le> r \<or> r < start" using run w(3,4) by auto
  ultimately show ?thesis
    using w now log swept window_clean_mono [OF w(5) ev ever] by (auto simp: sweep_inv_def)
qed

lemma sweep_inv_log: "sweep_inv c start s \<Longrightarrow> logged_ids (ss_db s) \<subseteq> ss_ever s"
  by (auto simp: sweep_inv_def)

lemma local_ok_of: "sweep_inv c start s \<Longrightarrow> i < length (ss_sweeps s) \<Longrightarrow> sync_swept (ss_db s) = Some w \<Longrightarrow> local_ok c start w s (ss_sweeps s ! i)"
  by (auto simp: sweep_inv_def)

lemma set_list_update_cases: "x \<in> set (xs[i := y]) \<Longrightarrow> x \<in> set xs \<or> x = y"
  using set_update_subset_insert by fastforce

lemma sweep_inv_commit:
  assumes inv: "sweep_inv c start s" and r: "r \<in> set (ss_running s)" "\<forall>e\<in>set evs. ev_createdAt e = r"
  shows "sweep_inv c start (s\<lparr>ss_running := remove1 r (ss_running s), ss_events := ss_events s @ evs\<rparr>)"
proof -
  let ?s = "s\<lparr>ss_running := remove1 r (ss_running s), ss_events := ss_events s @ evs\<rparr>"
  obtain w where w: "sync_swept (ss_db s) = Some w" "start \<le> w" "w \<le> ss_now s" "\<forall>r\<in>set (ss_running s). w \<le> r \<or> r < start"
    "window_clean (ss_events s) (ss_ever s) start w" "\<forall>l\<in>set (ss_sweeps s). local_ok c start w s l" "logged_ids (ss_db s) \<subseteq> ss_ever s"
    using inv by (auto simp: sweep_inv_def)
  have sub: "set (remove1 r (ss_running s)) \<subseteq> set (ss_running s)" by (rule set_remove1_subset)
  have "local_ok c start w ?s l" if "l \<in> set (ss_sweeps s)" for l
  proof -
    have l: "local_ok c start w s l" using w(6) that by blast
    then have "snd (sweep_bounds l) \<le> r" using r(1) by (simp add: local_ok_def frozen_def)
    then have late: "\<forall>e\<in>set evs. snd (sweep_bounds l) \<le> ev_createdAt e \<or> ev_createdAt e < fst (sweep_bounds l)" using r(2) by simp
    have "local_clean c ?s l"
    proof (cases l)
      case (Listed since cutoff n st)
      then show ?thesis using l late by (auto simp: local_ok_def intro: window_clean_late)
    next
      case (Clean since cutoff)
      then show ?thesis using l late by (auto simp: local_ok_def intro: window_clean_late)
    qed simp
    moreover have "frozen ?s (snd (sweep_bounds l))" using l sub by (auto simp: local_ok_def frozen_def)
    ultimately show ?thesis using l by (simp add: local_ok_def)
  qed
  moreover have "window_clean (ss_events s @ evs) (ss_ever s) start w"
    using w(4) r by (intro window_clean_late [OF w(5)]) auto
  ultimately show ?thesis using w sub by (auto simp: sweep_inv_def)
qed

lemma sweep_inv_advance:
  assumes inv: "sweep_inv c start s" and i: "i < length (ss_sweeps s)" "ss_sweeps s ! i = Clean since cutoff"
  shows "sweep_inv c start (s\<lparr>ss_db := advanceSweptUntil cutoff (ss_db s), ss_sweeps := drop_nth i (ss_sweeps s)\<rparr>)"
proof -
  let ?s = "s\<lparr>ss_db := advanceSweptUntil cutoff (ss_db s), ss_sweeps := drop_nth i (ss_sweeps s)\<rparr>"
  obtain w where w: "sync_swept (ss_db s) = Some w" "start \<le> w" "w \<le> ss_now s" "\<forall>r\<in>set (ss_running s). w \<le> r \<or> r < start"
    "window_clean (ss_events s) (ss_ever s) start w" "\<forall>l\<in>set (ss_sweeps s). local_ok c start w s l" "logged_ids (ss_db s) \<subseteq> ss_ever s"
    using inv by (auto simp: sweep_inv_def)
  have l: "start \<le> since" "since \<le> w" "since < cutoff" "frozen s cutoff" "window_clean (ss_events s) (ss_ever s) since cutoff"
    using local_ok_of [OF inv i(1) w(1)] i(2) by (simp_all add: local_ok_def)
  have "local_ok c start (max w cutoff) ?s x" if "x \<in> set (drop_nth i (ss_sweeps s))" for x
  proof -
    have "local_ok c start w s x" using w(6) that set_drop_nth [of i "ss_sweeps s"] by blast
    then show ?thesis by (rule local_ok_mono) auto
  qed
  moreover have "\<forall>r\<in>set (ss_running s). max w cutoff \<le> r \<or> r < start"
    using w(4) l(4) by (auto simp: frozen_def)
  ultimately show ?thesis
    using w l window_clean_join [OF w(5) l(5) l(2)]
    by (auto simp: sweep_inv_def advanceSweptUntil_def frozen_def logged_ids_def)
qed

lemma sweep_inv_step:
  assumes "sweep_step c s s'" and "0 \<le> rc_delayMs c" and "sweep_inv c start s"
  shows "sweep_inv c start s'"
  using assms
proof (induction rule: sweep_step.induct)
  case (time_passes s now)
  then show ?case by (intro sweep_inv_mono [OF time_passes(3)]) (use sweep_inv_log [OF time_passes(3)] in \<open>auto\<close>)
next
  case (txn_begin s)
  then show ?case by (intro sweep_inv_mono [OF txn_begin(2)]) (use sweep_inv_log [OF txn_begin(2)] in \<open>auto\<close>)
next
  case (txn_commit r s evs)
  then show ?case by (intro sweep_inv_commit) auto
next
  case (txn_rollback s r)
  then show ?case using set_remove1_subset [of r "ss_running s"] by (intro sweep_inv_mono [OF txn_rollback(2)]) (use sweep_inv_log [OF txn_rollback(2)] in \<open>auto\<close>)
next
  case (dispatch t ws entries s db assigned)
  then show ?case using append_logs [OF dispatch(1)] by (intro sweep_inv_mono [OF dispatch(3)]) (use sweep_inv_log [OF dispatch(3)] in \<open>auto\<close>)
next
  case (log_retention s cutoff minKeep limit)
  have "logged_ids (fst (pruneExpiredEntries cutoff minKeep limit (ss_db s))) \<subseteq> logged_ids (ss_db s)"
    by (auto simp: logged_ids_def pruneExpiredEntries_def Let_def)
  then show ?case using log_retention
    by (intro sweep_inv_mono [OF log_retention(2)]) (use sweep_inv_log [OF log_retention(2)] in \<open>auto simp: pruneExpiredEntries_def Let_def\<close>)
next
  case (outbox_retention s p)
  then show ?case by (intro sweep_inv_mono [OF outbox_retention(2)]) (use sweep_inv_log [OF outbox_retention(2)] in \<open>auto\<close>)
next
  case (sweep_begin s since xactStarts cutoff)
  have "frozen s cutoff" using sweep_begin(2-5)
    by (auto simp: frozen_def getFrozenCutoff_def min_le_iff_disj split: if_splits intro: Min_le)
  moreover have "start \<le> since" using sweep_begin(1,6) by (auto simp: sweep_inv_def getSweptUntil_def)
  ultimately show ?case using sweep_begin
    by (intro sweep_inv_mono [OF sweep_begin(6)]) (use sweep_inv_log [OF sweep_begin(6)] in \<open>auto simp: local_ok_def getSweptUntil_def frozen_def\<close>)
next
  case (sweep_list i s since cutoff n)
  let ?st = "listUnsequencedOutboxEvents (ss_events s) (sync_log (ss_db s)) since cutoff (rc_batchSize c) SYNC_LOG_EXCLUDED_EVENT_TYPES"
  let ?s = "s\<lparr>ss_sweeps := (ss_sweeps s)[i := Listed since cutoff n ?st]\<rparr>"
  have ok: "local_ok c start w ?s (Listed since cutoff n ?st)" if w: "sync_swept (ss_db s) = Some w" for w
  proof -
    have "local_ok c start w s (Reading since cutoff (Suc n))" using local_ok_of [OF sweep_list(4,1) w] sweep_list(2) by simp
    moreover have "window_clean (ss_events s) (ss_ever s \<union> ev_id ` {e \<in> set ?st. loggable e}) since cutoff"
      if short: "int (length ?st) < rc_batchSize c"
    proof -
      have "e \<in> set ?st" if "e \<in> set (ss_events s)" "since \<le> ev_createdAt e" "ev_createdAt e < cutoff" "loggable e" "ev_id e \<notin> ss_ever s" for e
        using that sweep_inv_log [OF sweep_list(4)] unsequenced_short [OF short] by (auto simp: loggable_def logged_ids_def)
      then show ?thesis by (auto simp: window_clean_def)
    qed
    ultimately show ?thesis by (simp add: local_ok_def frozen_def)
  qed
  then show ?case using sweep_list set_list_update_cases
    by (intro sweep_inv_mono [OF sweep_list(4)]) (use sweep_inv_log [OF sweep_list(4)] in \<open>auto dest: set_list_update_cases\<close>)
next
  case (sweep_rescue i s since cutoff n st ad t db io)
  let ?l = "if int (length st) < rc_batchSize c then Clean since cutoff else Reading since cutoff n"
  let ?s = "s\<lparr>ss_db := db, ss_io := io, ss_ever := ss_ever s \<union> logged_ids db, ss_sweeps := (ss_sweeps s)[i := ?l]\<rparr>"
  note logs = rescue_logs [OF sweep_rescue(3)]
  have ok: "local_ok c start w ?s ?l" if w: "sync_swept (ss_db s) = Some w" for w
  proof -
    have l: "local_ok c start w s (Listed since cutoff n st)" using local_ok_of [OF sweep_rescue(5,1) w] sweep_rescue(2) by simp
    have "ev_id ` {e \<in> set st. loggable e} \<subseteq> logged_ids db" using logs(3) by auto
    then have "window_clean (ss_events s) (ss_ever s \<union> logged_ids db) since cutoff" if "int (length st) < rc_batchSize c"
      using l that by (auto simp: local_ok_def intro: window_clean_mono)
    with l show ?thesis by (simp add: local_ok_def frozen_def)
  qed
  then show ?case using sweep_rescue(5) logs(1,2) set_list_update_cases
    by (intro sweep_inv_mono [OF sweep_rescue(5)]) (use sweep_inv_log [OF sweep_rescue(5)] in \<open>auto dest: set_list_update_cases\<close>)
next
  case (sweep_fail i s since cutoff n st ad t db io)
  then show ?case using rescue_logs(1,2) [OF sweep_fail(3)] set_drop_nth [of i "ss_sweeps s"]
    by (intro sweep_inv_mono [OF sweep_fail(5)]) (use sweep_inv_log [OF sweep_fail(5)] in \<open>auto\<close>)
next
  case (sweep_advance i s since cutoff)
  then show ?case by (intro sweep_inv_advance) auto
next
  case (sweep_out_of_batches i s since cutoff)
  then show ?case using set_drop_nth [of i "ss_sweeps s"] by (intro sweep_inv_mono [OF sweep_out_of_batches(4)]) (use sweep_inv_log [OF sweep_out_of_batches(4)] in \<open>auto\<close>)
qed


definition ex_straggler :: "int \<Rightarrow> timestamp \<Rightarrow> OutboxEvent" where
  "ex_straggler i t = \<lparr>ev_id = i, ev_type = ''message:created'',
     ev_payload = JObj [(''workspaceId'', JStr ''ws''), (''streamId'', JStr ''general'')], ev_createdAt = t\<rparr>"

definition ex_bot_event :: "int \<Rightarrow> timestamp \<Rightarrow> OutboxEvent" where
  "ex_bot_event i t = \<lparr>ev_id = i, ev_type = ''bot_invocation:claimed'', ev_payload = JObj [(''workspaceId'', JStr ''ws''), (''botId'', JStr ''b'')],
     ev_createdAt = t\<rparr>"

definition ex_config :: SyncLogReconciliationWorkerConfig where
  "ex_config = \<lparr>rc_delayMs = 10, rc_batchSize = 2, rc_maxBatchesPerRun = 3\<rparr>"

definition ex_sys :: SweepSys where
  "ex_sys = \<lparr>ss_now = 100, ss_running = [], ss_events = [ex_straggler 7 50], ss_db = empty_sync\<lparr>sync_swept := Some 20\<rparr>,
     ss_io = \<lparr>io_sockets = [], io_emitted = []\<rparr>, ss_ever = {}, ss_sweeps = []\<rparr>"

definition ex_rescued :: "bool \<times> SyncDb \<times> Io" where
  "ex_rescued = rescue ex_access 100 [ex_straggler 7 50] (ss_db ex_sys, ss_io ex_sys)"

definition ex_swept :: SweepSys where
  "ex_swept = ex_sys\<lparr>ss_db := advanceSweptUntil 90 (fst (snd ex_rescued)), ss_io := snd (snd ex_rescued),
     ss_ever := {} \<union> logged_ids (fst (snd ex_rescued))\<rparr>"

lemma ex_sweep_run: "(sweep_step ex_config)\<^sup>*\<^sup>* ex_sys ex_swept"
proof -
  let ?s1 = "ex_sys\<lparr>ss_sweeps := [Reading 20 90 3]\<rparr>"
  let ?s2 = "ex_sys\<lparr>ss_sweeps := [Listed 20 90 2 [ex_straggler 7 50]]\<rparr>"
  let ?s3 = "ex_sys\<lparr>ss_db := fst (snd ex_rescued), ss_io := snd (snd ex_rescued), ss_ever := {} \<union> logged_ids (fst (snd ex_rescued)),
      ss_sweeps := [Clean 20 90]\<rparr>"
  have "sweep_step ex_config ex_sys ?s1"
    using sweep_begin [of ex_sys 20 "[]" 90 ex_config]
    by (simp add: ex_sys_def ex_config_def getSweptUntil_def getFrozenCutoff_def)
  moreover have "listUnsequencedOutboxEvents [ex_straggler 7 50] [] 20 90 2 SYNC_LOG_EXCLUDED_EVENT_TYPES = [ex_straggler 7 50]" by code_simp
  then have "sweep_step ex_config ?s1 ?s2"
    using sweep_list [of 0 ?s1 20 90 2 ex_config] by (simp add: ex_sys_def ex_config_def empty_sync_def)
  moreover have "fst ex_rescued" by code_simp
  then have r: "rescue ex_access 100 [ex_straggler 7 50] (ss_db ?s2, ss_io ?s2) = (True, fst (snd ex_rescued), snd (snd ex_rescued))"
    by (simp add: ex_rescued_def prod_eq_iff)
  have "sweep_step ex_config ?s2 ?s3"
    using sweep_rescue [OF _ _ r, of 0 20 90 2 ex_config] by (simp add: ex_config_def ex_sys_def)
  moreover have "sweep_step ex_config ?s3 ex_swept"
    using sweep_advance [of 0 ?s3 20 90 ex_config] by (simp add: ex_swept_def drop_nth_def ex_sys_def)
  ultimately show ?thesis by (meson converse_rtranclp_into_rtranclp rtranclp.rtrancl_refl)
qed


section \<open>A batch of unroutable events stalls the sweep\<close>

text \<open>
  Bot-scoped events never get a log entry, so the anti-join keeps returning them.  When a full batch of them
  precedes a straggler, every batch of every sweep is the same: the straggler is not rescued and the floor does
  not move, although the comment says that a partially swept window is retried.
\<close>

lemma sweep_stalls:
  "sweepOnce ex_config ex_access [ex_bot_event 1 30, ex_bot_event 2 31, ex_straggler 7 50] 100 []
     (empty_sync\<lparr>sync_swept := Some 20\<rparr>, \<lparr>io_sockets = [], io_emitted = []\<rparr>) =
   (empty_sync\<lparr>sync_swept := Some 20\<rparr>, \<lparr>io_sockets = [], io_emitted = []\<rparr>)"
  by code_simp

end
