(* ===== verification/Room_Eviction.thy ===== *)
theory Room_Eviction
  imports Delivery_Rooms
begin

text \<open>
  \<^verbatim>\<open>apps/backend/src/lib/outbox/room-eviction.ts\<close>: after an event that takes read access away, the sockets that
  sit in the affected rooms are rechecked and leave the rooms their user can no longer read.  The reads it
  makes of streams (\<open>listSelfAndDescendantIds\<close>), shared docs and users are modelled on the access tables; the
  sessions of agents are a table of their own.  Errors are caught and logged: the moves made before stay.
\<close>

record SessionRow =
  as_workspaceId :: string
  as_id :: string
  as_streamId :: string

section \<open>Reads\<close>

definition session_stream :: "SessionRow table \<Rightarrow> string \<Rightarrow> string \<Rightarrow> string option" where
  "session_stream sessions ws i = map_option as_streamId (find (\<lambda>r. as_workspaceId r = ws \<and> as_id r = i) sessions)"

text \<open>
  The recursive query over \<open>parent_stream_id\<close>, one level at a time.  On rows with a cycle the query would not end;
  the model gives up (\<open>None\<close>) after as many levels as there are streams.
\<close>

definition child_ids :: "AccessDb \<Rightarrow> string \<Rightarrow> string list \<Rightarrow> string list" where
  "child_ids ad ws frontier =
    concat (map (\<lambda>t. map st_id (filter (\<lambda>s. st_workspaceId s = ws \<and> st_parentStreamId s = Some t) (ad_streams ad))) frontier)"

fun subtree_levels :: "nat \<Rightarrow> AccessDb \<Rightarrow> string \<Rightarrow> string list \<Rightarrow> string list option" where
  "subtree_levels 0 ad ws frontier = (if frontier = [] then Some [] else None)"
| "subtree_levels (Suc n) ad ws frontier =
    (if frontier = [] then Some [] else map_option (\<lambda>rest. frontier @ rest) (subtree_levels n ad ws (child_ids ad ws frontier)))"

definition listSelfAndDescendantIds :: "AccessDb \<Rightarrow> string \<Rightarrow> string \<Rightarrow> string list option" where
  "listSelfAndDescendantIds ad ws streamId =
    subtree_levels (length (ad_streams ad)) ad ws
      (map st_id (filter (\<lambda>s. st_workspaceId s = ws \<and> st_id s = streamId) (ad_streams ad)))"

definition listDocIdsByShareMessageIds :: "AccessDb \<Rightarrow> string \<Rightarrow> string list \<Rightarrow> string list" where
  "listDocIdsByShareMessageIds ad ws shareMessageIds =
    (if shareMessageIds = [] then []
     else js_dedup (map sd_docId (filter (\<lambda>d. sd_workspaceId d = ws \<and> sd_shareMessageId d \<in> set shareMessageIds) (ad_sharedDocs ad))))"

definition listDocIdsSharedInStreams :: "AccessDb \<Rightarrow> string \<Rightarrow> string list \<Rightarrow> string list" where
  "listDocIdsSharedInStreams ad ws streamIds =
    (if streamIds = [] then []
     else js_dedup (map sd_docId (filter (\<lambda>d. sd_workspaceId d = ws \<and>
       (\<exists>m\<in>set (ad_messages ad). mg_workspaceId m = ws \<and> mg_id m = sd_shareMessageId d \<and> mg_streamId m \<in> set streamIds)) (ad_sharedDocs ad))))"

section \<open>Sockets\<close>

text \<open>\<open>answered\<close>: every node of the cluster listed its sockets in time; otherwise this node's are used.\<close>

definition fetchSocketsIn :: "bool \<Rightarrow> string \<Rightarrow> Io \<Rightarrow> string list \<Rightarrow> Socket list" where
  "fetchSocketsIn answered node io rooms =
    filter (\<lambda>s. in_rooms ''/'' rooms s \<and> (answered \<or> sk_node s = node)) (io_sockets io)"

definition docReadersRoom :: "string \<Rightarrow> string \<Rightarrow> string" where
  "docReadersRoom ws docId = groupToRoom ws (docReadersGroup docId)"

definition moveSocket :: "string \<Rightarrow> string list \<Rightarrow> string list \<Rightarrow> Io \<Rightarrow> Io" where
  "moveSocket socketId join leave io =
    io\<lparr>io_sockets := map (\<lambda>s. if in_rooms ''/'' [socketId] s then sockets_leave leave (sockets_join join s) else s) (io_sockets io)\<rparr>"

datatype scope_rooms = All_rooms | Only_rooms "string list"

definition checked :: "string \<Rightarrow> scope_rooms \<Rightarrow> string \<Rightarrow> bool" where
  "checked ws rooms room \<longleftrightarrow>
    (case rooms of All_rooms \<Rightarrow> inWorkspace ws room | Only_rooms rs \<Rightarrow> room \<in> set rs \<or> idAfter ws ''agent_session'' room \<noteq> None)"

definition push_socket :: "Socket \<Rightarrow> (string \<times> Socket list) list \<Rightarrow> (string \<times> Socket list) list" where
  "push_socket s m = AList.update (sk_login s) (case_option [] id (map_of m (sk_login s)) @ [s]) m"

definition by_login :: "string option \<Rightarrow> Socket list \<Rightarrow> (string \<times> Socket list) list" where
  "by_login login sockets =
    fold push_socket (filter (\<lambda>s. case login of None \<Rightarrow> True | Some l \<Rightarrow> sk_login s = l) sockets) []"

text \<open>What a user may read, among the rooms held: the streams they may join, and what a grant or a session adds.\<close>

record RoomRights =
  rr_joinable :: "string list"
  rr_readable :: "string list"
  rr_sessions :: "(string \<times> string option) list"

definition held_ids :: "('r \<Rightarrow> string option) \<Rightarrow> 'r list \<Rightarrow> string list" where
  "held_ids parse held = concat (map (\<lambda>r. case parse r of None \<Rightarrow> [] | Some i \<Rightarrow> [i]) held)"

definition room_rights :: "AccessDb \<Rightarrow> SessionRow table \<Rightarrow> string \<Rightarrow> string \<Rightarrow> string list \<Rightarrow> string + RoomRights" where
  "room_rights ad sessions ws login held =
    (let streamIds = held_ids (idAfter ws ''stream'') held;
         sessionStreams = map (\<lambda>i. (i, session_stream sessions ws i)) (held_ids (idAfter ws ''agent_session'') held)
     in map_sum id (\<lambda>user. case user of
          None \<Rightarrow> \<lparr>rr_joinable = [], rr_readable = [], rr_sessions = sessionStreams\<rparr>
        | Some u \<Rightarrow>
            let joinable = listAccessibleStreamIds ad ws (u_id u) streamIds False
            in \<lparr>rr_joinable = joinable,
                rr_readable = listAccessibleStreamIds ad ws (u_id u)
                  (filter (\<lambda>i. i \<notin> set joinable) streamIds @ held_ids (idAfter ws ''doc-readers'') held @
                   held_ids snd sessionStreams) True,
                rr_sessions = sessionStreams\<rparr>)
        (findByWorkosUserIdInWorkspace (ad_permissions ad) (ad_users ad) ws login))"

definition room_moves :: "string \<Rightarrow> RoomRights \<Rightarrow> string \<Rightarrow> string list \<times> string list" where
  "room_moves ws rr room =
    (case idAfter ws ''stream'' room of
       Some sid \<Rightarrow>
         if sid \<notin> set (rr_joinable rr)
         then (if sid \<in> set (rr_readable rr) then [docReadersRoom ws sid] else [], [room]) else ([], [])
     | None \<Rightarrow>
         (case idAfter ws ''doc-readers'' room of
            Some docId \<Rightarrow> ([], if docId \<notin> set (rr_readable rr) then [room] else [])
          | None \<Rightarrow>
              (case idAfter ws ''agent_session'' room of
                 None \<Rightarrow> ([], [])
               | Some sessionId \<Rightarrow>
                   ([], case map_of (rr_sessions rr) sessionId of
                      Some (Some stream) \<Rightarrow>
                        if stream = [] \<or> (stream \<notin> set (rr_joinable rr) \<and> stream \<notin> set (rr_readable rr)) then [room] else []
                    | _ \<Rightarrow> [room]))))"

definition evict_socket :: "string \<Rightarrow> RoomRights \<Rightarrow> string list \<Rightarrow> Socket \<Rightarrow> Io \<Rightarrow> Io" where
  "evict_socket ws rr held s io =
    (let rooms = filter (\<lambda>r. r \<in> set held) (sk_rooms s)
     in moveSocket (sk_id s) (concat (map (fst \<circ> room_moves ws rr) rooms)) (concat (map (snd \<circ> room_moves ws rr) rooms)) io)"

fun evict_logins ::
  "AccessDb \<Rightarrow> SessionRow table \<Rightarrow> string \<Rightarrow> scope_rooms \<Rightarrow> (string \<times> Socket list) list \<Rightarrow> Io \<Rightarrow> bool \<times> Io" where
  "evict_logins ad sessions ws rooms [] io = (True, io)"
| "evict_logins ad sessions ws rooms ((login, sockets) # rest) io =
    (let held = js_dedup (concat (map (\<lambda>s. filter (checked ws rooms) (sk_rooms s)) sockets))
     in if held = [] then evict_logins ad sessions ws rooms rest io
        else case room_rights ad sessions ws login held of
          Inl _ \<Rightarrow> (False, io)
        | Inr rr \<Rightarrow> evict_logins ad sessions ws rooms rest (fold (evict_socket ws rr held) sockets io))"

definition evictUnreadableRooms ::
  "AccessDb \<Rightarrow> SessionRow table \<Rightarrow> bool \<Rightarrow> string \<Rightarrow> string \<Rightarrow> string list \<Rightarrow> scope_rooms \<Rightarrow> string option \<Rightarrow> Io \<Rightarrow> bool \<times> Io" where
  "evictUnreadableRooms ad sessions answered node ws from rooms login io =
    (if from = [] then (True, io)
     else evict_logins ad sessions ws rooms (by_login login (fetchSocketsIn answered node io from)) io)"

section \<open>Who to recheck\<close>

text \<open>\<open>(False, io)\<close> is an error that the caller logs.\<close>

record EvictEnv =
  ee_ad :: AccessDb
  ee_sessions :: "SessionRow table"
  ee_answered :: bool
  ee_node :: string

definition recheck :: "EvictEnv \<Rightarrow> string \<Rightarrow> string list \<Rightarrow> scope_rooms \<Rightarrow> string option \<Rightarrow> Io \<Rightarrow> bool \<times> Io" where
  "recheck env = evictUnreadableRooms (ee_ad env) (ee_sessions env) (ee_answered env) (ee_node env)"

definition evictGrantReaders :: "EvictEnv \<Rightarrow> string \<Rightarrow> string list \<Rightarrow> Io \<Rightarrow> bool \<times> Io" where
  "evictGrantReaders env ws messageIds io =
    (let from = map (docReadersRoom ws) (listDocIdsByShareMessageIds (ee_ad env) ws messageIds)
     in recheck env ws from (Only_rooms from) None io)"

definition subtreeRooms :: "AccessDb \<Rightarrow> string \<Rightarrow> string \<Rightarrow> string list option" where
  "subtreeRooms ad ws streamId =
    map_option (\<lambda>streamIds. map (\<lambda>i. groupToRoom ws (streamGroup i)) streamIds @
        map (docReadersRoom ws) (listDocIdsSharedInStreams ad ws streamIds))
      (listSelfAndDescendantIds ad ws streamId)"

definition leaveWorkspaceRooms :: "EvictEnv \<Rightarrow> string \<Rightarrow> string \<Rightarrow> Io \<Rightarrow> bool \<times> Io" where
  "leaveWorkspaceRooms env ws userId io =
    (True, fold (\<lambda>s. moveSocket (sk_id s) [] (filter (inWorkspace ws) (sk_rooms s)))
      (fetchSocketsIn (ee_answered env) (ee_node env) io [groupToRoom ws (userGroup userId)]) io)"

fun login_of :: "UserRow option \<Rightarrow> string option" where
  "login_of None = None"
| "login_of (Some u) = (case u_workosUserId u of None \<Rightarrow> None | Some w \<Rightarrow> if w = [] then None else Some w)"

definition evictDemotedUser :: "EvictEnv \<Rightarrow> string \<Rightarrow> string \<Rightarrow> Io \<Rightarrow> bool \<times> Io" where
  "evictDemotedUser env ws userId io =
    (case user_findById (ad_permissions (ee_ad env)) (ad_users (ee_ad env)) ws userId of
       Inl _ \<Rightarrow> (False, io)
     | Inr user \<Rightarrow>
         (case login_of user of
            None \<Rightarrow> (True, io)
          | Some login \<Rightarrow>
              if userId \<notin> set (findUserIdsWithoutBrowse (ee_ad env) ws [userId]) then (True, io)
              else recheck env ws [groupToRoom ws (userGroup userId)] All_rooms (Some login) io))"

definition evictRemovedMember :: "EvictEnv \<Rightarrow> string \<Rightarrow> string \<Rightarrow> string \<Rightarrow> Io \<Rightarrow> bool \<times> Io" where
  "evictRemovedMember env ws streamId memberId io =
    (case find (\<lambda>s. st_workspaceId s = ws \<and> st_id s = streamId) (ad_streams (ee_ad env)) of
       None \<Rightarrow> (True, io)
     | Some stream \<Rightarrow>
         if st_rootStreamId stream \<noteq> None \<and> st_rootStreamId stream \<noteq> Some [] then (True, io)
         else (case user_findById (ad_permissions (ee_ad env)) (ad_users (ee_ad env)) ws memberId of
           Inl _ \<Rightarrow> (False, io)
         | Inr user \<Rightarrow>
             (case login_of user of
                None \<Rightarrow> (True, io)
              | Some login \<Rightarrow>
                  (case subtreeRooms (ee_ad env) ws streamId of
                     None \<Rightarrow> (False, io)
                   | Some rooms \<Rightarrow> recheck env ws [groupToRoom ws (userGroup memberId)] (Only_rooms rooms) (Some login) io))))"

fun has_field :: "string \<Rightarrow> json \<Rightarrow> bool" where
  "has_field k (JObj fs) \<longleftrightarrow> k \<in> fst ` set fs"
| "has_field k _ = False"

definition evictNarrowed :: "EvictEnv \<Rightarrow> string \<Rightarrow> json \<Rightarrow> Io \<Rightarrow> bool \<times> Io" where
  "evictNarrowed env ws p io =
    (let from = (if has_field ''docIds'' p
         then map_option (map (\<lambda>i. docReadersRoom ws (js_string i))) (Option.bind (jget ''docIds'' p) js_elems)
         else Option.bind (jget ''streamId'' p) (\<lambda>i. subtreeRooms (ee_ad env) ws (js_string i)))
     in case from of None \<Rightarrow> (False, io) | Some rooms \<Rightarrow> recheck env ws rooms (Only_rooms rooms) None io)"

text \<open>\<open>None\<close>: reading \<open>workspaceId\<close> of a null payload raises before the \<open>try\<close>.\<close>

definition evictRevokedRoomsForEvent :: "EvictEnv \<Rightarrow> OutboxEvent \<Rightarrow> Io \<Rightarrow> Io option" where
  "evictRevokedRoomsForEvent env e io =
    map_option (\<lambda>w. let ws = js_string w; p = ev_payload e; field = (\<lambda>k. map_option js_string (jget k p)) in
      if ev_type e = ''workspace_user:removed''
      then (case field ''removedUserId'' of None \<Rightarrow> io | Some u \<Rightarrow> snd (leaveWorkspaceRooms env ws u io))
      else if ev_type e = ''workspace_user:updated''
      then (case Option.bind (jget ''user'' p) (jget ''id'') of None \<Rightarrow> io | Some u \<Rightarrow> snd (evictDemotedUser env ws (js_string u) io))
      else if ev_type e = ''stream:member_removed''
      then (case (field ''streamId'', field ''memberId'') of (Some s, Some m) \<Rightarrow> snd (evictRemovedMember env ws s m io) | _ \<Rightarrow> io)
      else if ev_type e = ''access:narrowed'' then snd (evictNarrowed env ws p io)
      else if ev_type e = ''message:deleted''
      then (case field ''messageId'' of None \<Rightarrow> io | Some m \<Rightarrow> snd (evictGrantReaders env ws [m] io))
      else io) (jget ''workspaceId'' (ev_payload e))"

section \<open>The walk down the tree ends\<close>

text \<open>
  Streams hang below their parents as a forest when some rank grows from parent to child (a parent exists before
  its children).  Then the walk ends within as many levels as there are streams.
\<close>

definition forest :: "AccessDb \<Rightarrow> (string \<Rightarrow> nat) \<Rightarrow> bool" where
  "forest ad rank \<longleftrightarrow> distinct (map st_id (ad_streams ad)) \<and>
    (\<forall>s\<in>set (ad_streams ad). case st_parentStreamId s of None \<Rightarrow> True | Some p \<Rightarrow> rank p < rank (st_id s))"

definition below :: "AccessDb \<Rightarrow> string \<Rightarrow> (string \<times> string) set" where
  "below ad ws = {(p, i). \<exists>s\<in>set (ad_streams ad). st_workspaceId s = ws \<and> st_parentStreamId s = Some p \<and> st_id s = i}"

lemma set_child_ids: "set (child_ids ad ws frontier) = below ad ws `` set frontier"
  by (auto simp: child_ids_def below_def Image_def)

lemma rtrancl_Image_step: "r\<^sup>* `` A = A \<union> r\<^sup>* `` (r `` A)"
proof -
  have "r\<^sup>* = Id \<union> r O r\<^sup>*" by (metis r_comp_rtrancl_eq rtrancl_unfold)
  then have "r\<^sup>* `` A = (Id \<union> r O r\<^sup>*) `` A" by (rule arg_cong)
  also have "\<dots> = A \<union> r\<^sup>* `` (r `` A)" by (simp only: Un_Image relcomp_Image Image_Id)
  finally show ?thesis .
qed

lemma subtree_levels_sound:
  "subtree_levels n ad ws frontier = Some ids \<Longrightarrow> set ids = (below ad ws)\<^sup>* `` set frontier"
proof (induction n arbitrary: frontier ids)
  case (Suc n)
  show ?case
  proof (cases "frontier = []")
    case False
    then obtain rest where r: "subtree_levels n ad ws (child_ids ad ws frontier) = Some rest" "ids = frontier @ rest"
      using Suc.prems by auto
    show ?thesis using Suc.IH [OF r(1)] rtrancl_Image_step [of "below ad ws" "set frontier"] by (simp add: r(2) set_child_ids)
  qed (use Suc.prems in simp)
qed (simp split: if_splits)

text \<open>A path of \<open>n\<close> parent links visits \<open>n + 1\<close> different ids, and all but the first are streams.\<close>

lemma frontier_path:
  assumes "forest ad rank" and "subtree_levels n ad ws frontier = None" and "set frontier \<subseteq> st_id ` set (ad_streams ad)"
  shows "\<exists>xs. length xs = Suc n \<and> sorted_wrt (\<lambda>a b. rank a < rank b) xs \<and> set xs \<subseteq> st_id ` set (ad_streams ad) \<and> hd xs \<in> set frontier"
  using assms(2,3)
proof (induction n arbitrary: frontier)
  case 0
  then obtain x where "x \<in> set frontier" by (cases frontier) auto
  then show ?case using 0 by (intro exI [of _ "[x]"]) auto
next
  case (Suc n)
  have sub: "set (child_ids ad ws frontier) \<subseteq> st_id ` set (ad_streams ad)" by (auto simp: child_ids_def)
  have none: "subtree_levels n ad ws (child_ids ad ws frontier) = None" using Suc.prems(1) by (simp split: if_splits)
  obtain xs where xs: "length xs = Suc n" "sorted_wrt (\<lambda>a b. rank a < rank b) xs" "set xs \<subseteq> st_id ` set (ad_streams ad)"
    "hd xs \<in> set (child_ids ad ws frontier)"
    using Suc.IH [OF none sub] by blast
  obtain p where p: "p \<in> set frontier" "(p, hd xs) \<in> below ad ws" using xs(4) by (auto simp: set_child_ids)
  have "rank p < rank (hd xs)" using p(2) assms(1) by (fastforce simp: below_def forest_def)
  then have "sorted_wrt (\<lambda>a b. rank a < rank b) (p # xs)" using xs(1,2) by (cases xs) (auto dest: less_trans)
  then show ?case using xs(1,3) p(1) Suc.prems(2) by (intro exI [of _ "p # xs"]) auto
qed

text \<open>
  C39. The recursive query for a stream and everything below it ends when the streams are a forest (some rank grows
  from every parent to its child): it returns after at most as many levels as there are streams, and what it
  returns is exactly the stream, if it is in the workspace, and all its descendants there.
\<close>

theorem descendants_query_ends:
  assumes "forest ad rank"
  shows "\<exists>ids. listSelfAndDescendantIds ad ws streamId = Some ids \<and>
    set ids = (below ad ws)\<^sup>* `` {i. i = streamId \<and> (\<exists>s\<in>set (ad_streams ad). st_workspaceId s = ws \<and> st_id s = i)}"
proof -
  let ?f = "map st_id (filter (\<lambda>s. st_workspaceId s = ws \<and> st_id s = streamId) (ad_streams ad))"
  have "subtree_levels (length (ad_streams ad)) ad ws ?f \<noteq> None"
  proof
    assume none: "subtree_levels (length (ad_streams ad)) ad ws ?f = None"
    obtain xs where xs: "length xs = Suc (length (ad_streams ad))" "sorted_wrt (\<lambda>a b. rank a < rank b) xs"
      "set xs \<subseteq> st_id ` set (ad_streams ad)"
      using frontier_path [OF assms none] by auto
    have "distinct xs" using xs(2) by (induction xs) auto
    then have "length xs = card (set xs)" by (simp add: distinct_card)
    also have "\<dots> \<le> card (st_id ` set (ad_streams ad))" using xs(3) by (intro card_mono) auto
    also have "\<dots> \<le> length (ad_streams ad)" by (metis card_length length_map set_map)
    finally show False using xs(1) by simp
  qed
  then obtain ids where ids: "listSelfAndDescendantIds ad ws streamId = Some ids" by (auto simp: listSelfAndDescendantIds_def)
  moreover have "set ?f = {i. i = streamId \<and> (\<exists>s\<in>set (ad_streams ad). st_workspaceId s = ws \<and> st_id s = i)}" by auto
  ultimately show ?thesis using subtree_levels_sound [of "length (ad_streams ad)" ad ws ?f ids]
    by (auto simp: listSelfAndDescendantIds_def)
qed

theorem descendants_query_ends_witness:
  "\<exists>ids. listSelfAndDescendantIds ex_access ''ws'' ''general'' = Some ids \<and> ''thread'' \<in> set ids \<and> ''dm'' \<notin> set ids"
proof -
  have f: "forest ex_access (\<lambda>i. if i = ''thread'' then 1 else 0)" by code_simp
  have "listSelfAndDescendantIds ex_access ''ws'' ''general'' = Some [''general'', ''thread'']" by code_simp
  moreover obtain ids where "listSelfAndDescendantIds ex_access ''ws'' ''general'' = Some ids"
    using descendants_query_ends [OF f, of "''ws''" "''general''"] by blast
  ultimately show ?thesis by (intro exI [of _ ids]) simp
qed

section \<open>What a recheck leaves behind\<close>

text \<open>Socket ids are unique, contain no colon, and the room named by a socket's id holds that socket alone.\<close>

definition io_wf :: "Io \<Rightarrow> bool" where
  "io_wf io \<longleftrightarrow> distinct (map sk_id (io_sockets io)) \<and>
    (\<forall>t\<in>set (io_sockets io). CHR '':'' \<notin> set (sk_id t) \<and> sk_id t \<in> set (sk_rooms t) \<and>
       (\<forall>u\<in>set (io_sockets io). sk_id u \<in> set (sk_rooms t) \<longrightarrow> u = t))"

abbreviation colon_rooms :: "string list \<Rightarrow> bool" where
  "colon_rooms rooms \<equiv> \<forall>r\<in>set rooms. CHR '':'' \<in> set r"

definition moved :: "string list \<Rightarrow> string list \<Rightarrow> Socket \<Rightarrow> Socket" where
  "moved join leave s = sockets_leave leave (sockets_join join s)"

lemma moved_simps [simp]:
  "sk_id (moved join leave s) = sk_id s" "sk_namespace (moved join leave s) = sk_namespace s"
  "sk_login (moved join leave s) = sk_login s" "sk_node (moved join leave s) = sk_node s"
  by (simp_all add: moved_def sockets_leave_def sockets_join_def)

lemma moved_rooms: "set (sk_rooms (moved join leave s)) = set (sk_rooms s) \<union> set join - set leave"
  by (simp only: moved_def set_sockets_leave set_sockets_join)

lemma moveSocket_one:
  assumes wf: "io_wf io" and s: "s \<in> set (io_sockets io)" "sk_namespace s = ''/''"
  shows "io_sockets (moveSocket (sk_id s) join leave io) = map (\<lambda>t. if t = s then moved join leave t else t) (io_sockets io)"
proof -
  have "in_rooms ''/'' [sk_id s] t \<longleftrightarrow> t = s" if "t \<in> set (io_sockets io)" for t
    using wf s that by (auto simp: io_wf_def in_rooms_def)
  then show ?thesis by (simp add: moveSocket_def moved_def)
qed

lemma io_wf_move:
  assumes wf: "io_wf io" and s: "s \<in> set (io_sockets io)" "sk_namespace s = ''/''" and c: "colon_rooms join" "colon_rooms leave"
  shows "io_wf (moveSocket (sk_id s) join leave io)"
proof -
  let ?f = "\<lambda>t. if t = s then moved join leave t else t"
  have ids: "sk_id (?f t) = sk_id t" for t by simp
  have nocolon: "CHR '':'' \<notin> set (sk_id t)" if "t \<in> set (io_sockets io)" for t using wf that by (simp add: io_wf_def)
  have rooms: "sk_id u \<in> set (sk_rooms (?f t)) \<longleftrightarrow> sk_id u \<in> set (sk_rooms t)" if "u \<in> set (io_sockets io)" for t u
    using nocolon [OF that] c by (auto simp: moved_rooms)
  have "map (sk_id \<circ> ?f) (io_sockets io) = map sk_id (io_sockets io)" by simp
  then show ?thesis
    using wf rooms unfolding io_wf_def moveSocket_one [OF wf s] map_map set_map by (simp only: ids ball_simps) auto
qed

definition evict_moves :: "string \<Rightarrow> RoomRights \<Rightarrow> string list \<Rightarrow> Socket \<Rightarrow> Socket" where
  "evict_moves ws rr held s =
    (let rooms = filter (\<lambda>r. r \<in> set held) (sk_rooms s)
     in moved (concat (map (fst \<circ> room_moves ws rr) rooms)) (concat (map (snd \<circ> room_moves ws rr) rooms)) s)"

lemma room_moves_colon: "colon_rooms (fst (room_moves ws rr room))" "colon_rooms (snd (room_moves ws rr room))"
proof -
  have "CHR '':'' \<in> set room" if "idAfter ws kind room = Some i" for kind i using that by (auto simp: idAfter_iff)
  then show "colon_rooms (fst (room_moves ws rr room))" "colon_rooms (snd (room_moves ws rr room))"
    by (auto simp: room_moves_def docReadersRoom_def split: option.splits)
qed

lemma evict_socket_one:
  assumes wf: "io_wf io" and s: "s \<in> set (io_sockets io)" "sk_namespace s = ''/''"
  shows "io_sockets (evict_socket ws rr held s io) = map (\<lambda>t. if t = s then evict_moves ws rr held s else t) (io_sockets io)"
    and "io_wf (evict_socket ws rr held s io)"
proof -
  show "io_sockets (evict_socket ws rr held s io) = map (\<lambda>t. if t = s then evict_moves ws rr held s else t) (io_sockets io)"
    unfolding evict_socket_def Let_def moveSocket_one [OF wf s] by (auto simp: evict_moves_def Let_def)
  show "io_wf (evict_socket ws rr held s io)"
    unfolding evict_socket_def Let_def using room_moves_colon by (intro io_wf_move [OF wf s]) auto
qed

lemma evict_fold:
  assumes "io_wf io" and "distinct xs" and "\<forall>s\<in>set xs. s \<in> set (io_sockets io) \<and> sk_namespace s = ''/''"
  shows "io_wf (fold (evict_socket ws rr held) xs io)"
    and "s \<in> set xs \<Longrightarrow> evict_moves ws rr held s \<in> set (io_sockets (fold (evict_socket ws rr held) xs io))"
    and "t \<in> set (io_sockets io) \<Longrightarrow> t \<notin> set xs \<Longrightarrow> t \<in> set (io_sockets (fold (evict_socket ws rr held) xs io))"
  using assms
proof (induction xs arbitrary: io t)
  case (Cons x xs)
  have step: "io_sockets (evict_socket ws rr held x io) = map (\<lambda>t. if t = x then evict_moves ws rr held x else t) (io_sockets io)" "io_wf (evict_socket ws rr held x io)"
    if "io_wf io" "\<forall>s\<in>set (x # xs). s \<in> set (io_sockets io) \<and> sk_namespace s = ''/''" for io
    using evict_socket_one [of io x] that by simp_all
  have rest: "\<forall>s\<in>set xs. s \<in> set (io_sockets (evict_socket ws rr held x io)) \<and> sk_namespace s = ''/''"
    if "io_wf io" "distinct (x # xs)" "\<forall>s\<in>set (x # xs). s \<in> set (io_sockets io) \<and> sk_namespace s = ''/''" for io
    using that step(1) [OF that(1,3)] by (auto simp: image_iff)
  have notin: "evict_moves ws rr held x \<notin> set xs" if "io_wf io" "distinct (x # xs)" "\<forall>s\<in>set (x # xs). s \<in> set (io_sockets io) \<and> sk_namespace s = ''/''" for io
  proof
    assume m: "evict_moves ws rr held x \<in> set xs"
    have "sk_id (evict_moves ws rr held x) = sk_id x" by (simp add: evict_moves_def Let_def)
    then have "evict_moves ws rr held x = x"
      using that(1,3) m by (metis (no_types, lifting) distinct_map inj_onD io_wf_def list.set_intros)
    with m that(2) show False by simp
  qed
  {
    case 1
    then show ?case using Cons.IH(1) [of "evict_socket ws rr held x io"] step(2) [OF 1(1,3)] rest [OF 1] by simp
  next
    case 2
    show ?case
    proof (cases "s \<in> set xs")
      case True
      then show ?thesis using Cons.IH(2) [of "evict_socket ws rr held x io"] step(2) [OF 2(2,4)] rest [OF 2(2-4)] 2(3) by simp
    next
      case False
      then have "s = x" using 2(1) by simp
      moreover have "evict_moves ws rr held x \<in> set (io_sockets (evict_socket ws rr held x io))" using step(1) [OF 2(2,4)] 2(4) by (auto simp: image_iff)
      ultimately show ?thesis using Cons.IH(3) [of "evict_moves ws rr held x" "evict_socket ws rr held x io"] step(2) [OF 2(2,4)] rest [OF 2(2-4)] notin [OF 2(2-4)] 2(3) by simp
    qed
  next
    case 3
    then have "t \<in> set (io_sockets (evict_socket ws rr held x io))" using step(1) [OF 3(3,5)] by (auto simp: image_iff)
    then show ?case using Cons.IH(3) [of t "evict_socket ws rr held x io"] step(2) [OF 3(3,5)] rest [OF 3(3-5)] 3(2,4) by simp
  }
qed auto


abbreviation held_of :: "string \<Rightarrow> scope_rooms \<Rightarrow> Socket list \<Rightarrow> string list" where
  "held_of ws rooms sockets \<equiv> js_dedup (concat (map (\<lambda>s. filter (checked ws rooms) (sk_rooms s)) sockets))"

definition groups_in :: "Io \<Rightarrow> (string \<times> Socket list) list \<Rightarrow> bool" where
  "groups_in io groups \<longleftrightarrow> distinct (concat (map snd groups)) \<and>
    (\<forall>s\<in>set (concat (map snd groups)). s \<in> set (io_sockets io) \<and> sk_namespace s = ''/'')"

lemma evict_logins_sockets:
  assumes "io_wf io" and "groups_in io groups" and "evict_logins ad sessions ws rooms groups io = (True, io')"
  shows "t \<in> set (io_sockets io) \<Longrightarrow> t \<notin> set (concat (map snd groups)) \<Longrightarrow> t \<in> set (io_sockets io')"
    and "(login, sockets) \<in> set groups \<Longrightarrow> s \<in> set sockets \<Longrightarrow>
      (held_of ws rooms sockets = [] \<and> s \<in> set (io_sockets io')) \<or>
      (\<exists>rr. room_rights ad sessions ws login (held_of ws rooms sockets) = Inr rr \<and>
         evict_moves ws rr (held_of ws rooms sockets) s \<in> set (io_sockets io'))"
  using assms
proof (induction groups arbitrary: io t)
  case (Cons g groups)
  obtain l xs where g: "g = (l, xs)" by (cases g)
  let ?held = "held_of ws rooms xs"
  have one: "\<exists>io1. io_wf io1 \<and> groups_in io1 groups \<and> evict_logins ad sessions ws rooms groups io1 = (True, io') \<and>
      (\<forall>t\<in>set (io_sockets io). t \<notin> set xs \<longrightarrow> t \<in> set (io_sockets io1)) \<and>
      (\<forall>s\<in>set xs. (?held = [] \<and> s \<in> set (io_sockets io1)) \<or>
         (\<exists>rr. room_rights ad sessions ws l ?held = Inr rr \<and> evict_moves ws rr ?held s \<in> set (io_sockets io1)))"
    if a: "io_wf io" "groups_in io (g # groups)" "evict_logins ad sessions ws rooms (g # groups) io = (True, io')" for io
  proof (cases "?held = []")
    case True
    then have "evict_logins ad sessions ws rooms groups io = (True, io')" using a(3) by (simp add: g)
    then show ?thesis using a True by (intro exI [of _ io]) (auto simp: groups_in_def g)
  next
    case False
    then obtain rr where rr: "room_rights ad sessions ws l ?held = Inr rr"
      "evict_logins ad sessions ws rooms groups (fold (evict_socket ws rr ?held) xs io) = (True, io')"
      using a(3) by (simp add: g Let_def split: sum.splits)
    have xs: "distinct xs" "\<forall>s\<in>set xs. s \<in> set (io_sockets io) \<and> sk_namespace s = ''/''"
      and rest: "set xs \<inter> set (concat (map snd groups)) = {}" "distinct (concat (map snd groups))"
        "\<forall>s\<in>set (concat (map snd groups)). s \<in> set (io_sockets io) \<and> sk_namespace s = ''/''"
      using a(2) by (auto simp: groups_in_def g)
    note ef = evict_fold [OF a(1) xs, where ws = ws and rr = rr and held = ?held]
    have "groups_in (fold (evict_socket ws rr ?held) xs io) groups"
      unfolding groups_in_def using rest ef(3) by blast
    then show ?thesis using rr ef by (intro exI [of _ "fold (evict_socket ws rr ?held) xs io"]) auto
  qed
  {
    case 1
    obtain io1 where io1: "io_wf io1" "groups_in io1 groups" "evict_logins ad sessions ws rooms groups io1 = (True, io')"
      "\<forall>t\<in>set (io_sockets io). t \<notin> set xs \<longrightarrow> t \<in> set (io_sockets io1)" using one [OF 1(3-5)] by blast
    then show ?case using Cons.IH(1) [OF _ _ io1(1-3), of t] 1(1,2) by (simp add: g)
  next
    case 2
    obtain io1 where io1: "io_wf io1" "groups_in io1 groups" "evict_logins ad sessions ws rooms groups io1 = (True, io')"
      "\<forall>s\<in>set xs. (?held = [] \<and> s \<in> set (io_sockets io1)) \<or>
         (\<exists>rr. room_rights ad sessions ws l ?held = Inr rr \<and> evict_moves ws rr ?held s \<in> set (io_sockets io1))" using one [OF 2(3-5)] by blast
    show ?case
    proof (cases "(login, sockets) \<in> set groups")
      case True
      then show ?thesis using Cons.IH(2) [OF _ 2(2) io1(1-3)] by simp
    next
      case False
      then have eq: "login = l" "sockets = xs" using 2(1) by (auto simp: g)
      have keep: "t \<in> set (io_sockets io')" if "t \<in> set (io_sockets io1)" "sk_id t = sk_id s" for t
      proof -
        have "s \<in> set (io_sockets io)" "s \<notin> set (concat (map snd groups))" using 2(2,4) eq by (auto simp: groups_in_def g)
        moreover have "set (concat (map snd groups)) \<subseteq> set (io_sockets io)" using 2(4) by (auto simp: groups_in_def)
        moreover have "inj_on sk_id (set (io_sockets io))" using 2(3) by (simp add: io_wf_def distinct_map)
        ultimately have "sk_id s \<notin> sk_id ` set (concat (map snd groups))" by (simp only: inj_on_image_mem_iff not_False_eq_True)
        then have "t \<notin> set (concat (map snd groups))" using that(2) by (metis imageI)
        then show ?thesis using Cons.IH(1) [OF that(1) _ io1(1-3)] by blast
      qed
      have "sk_id (evict_moves ws rr h s) = sk_id s" for rr h by (simp add: evict_moves_def Let_def)
      then show ?thesis using io1(4) 2(2) keep unfolding eq by metis
    qed
  }
qed auto

lemma listAccessible_iff:
  "i \<in> set (listAccessibleStreamIds ad ws u cands grants) \<Longrightarrow> streamAccess ad ws u i grants"
  by (auto simp: listAccessibleStreamIds_def split: if_splits)

lemma streamAccess_mono: "streamAccess ad ws u i False \<Longrightarrow> streamAccess ad ws u i True"
  by (auto simp: streamAccess_def)

text \<open>What the rights of a login say: the user exists and reads the stream by the canonical rule.\<close>

definition login_reads :: "AccessDb \<Rightarrow> string \<Rightarrow> string \<Rightarrow> string \<Rightarrow> bool \<Rightarrow> bool" where
  "login_reads ad ws login streamId grants \<longleftrightarrow>
    (\<exists>u. findByWorkosUserIdInWorkspace (ad_permissions ad) (ad_users ad) ws login = Inr (Some u) \<and> streamAccess ad ws (u_id u) streamId grants)"

lemma room_rights_read:
  assumes "room_rights ad sessions ws login held = Inr rr"
  shows "i \<in> set (rr_joinable rr) \<Longrightarrow> login_reads ad ws login i False"
    and "i \<in> set (rr_readable rr) \<Longrightarrow> login_reads ad ws login i True"
    and "map_of (rr_sessions rr) k = Some x \<Longrightarrow> x = session_stream sessions ws k"
proof -
  obtain user where u: "findByWorkosUserIdInWorkspace (ad_permissions ad) (ad_users ad) ws login = Inr user"
    using assms by (cases "findByWorkosUserIdInWorkspace (ad_permissions ad) (ad_users ad) ws login") (auto simp: room_rights_def Let_def)
  show "i \<in> set (rr_joinable rr) \<Longrightarrow> login_reads ad ws login i False" "i \<in> set (rr_readable rr) \<Longrightarrow> login_reads ad ws login i True"
    using assms u by (cases user; auto simp: room_rights_def Let_def login_reads_def dest: listAccessible_iff)+
  show "map_of (rr_sessions rr) k = Some x \<Longrightarrow> x = session_stream sessions ws k"
    using assms u by (cases user) (auto simp: room_rights_def Let_def dest!: map_of_SomeD)
qed

text \<open>The rooms a login may sit in.\<close>

definition room_allowed :: "AccessDb \<Rightarrow> SessionRow table \<Rightarrow> string \<Rightarrow> string \<Rightarrow> string \<Rightarrow> bool" where
  "room_allowed ad sessions ws login room \<longleftrightarrow>
    (\<forall>i. idAfter ws ''stream'' room = Some i \<longrightarrow> login_reads ad ws login i False) \<and>
    (\<forall>i. idAfter ws ''doc-readers'' room = Some i \<longrightarrow> login_reads ad ws login i True) \<and>
    (\<forall>i. idAfter ws ''agent_session'' room = Some i \<longrightarrow>
       (\<exists>s. session_stream sessions ws i = Some s \<and> (login_reads ad ws login s False \<or> login_reads ad ws login s True)))"

lemma kinds_differ:
  "idAfter ws ''stream'' r = Some i \<Longrightarrow> idAfter ws ''doc-readers'' r = None \<and> idAfter ws ''agent_session'' r = None"
  "idAfter ws ''doc-readers'' r = Some i \<Longrightarrow> idAfter ws ''agent_session'' r = None"
  "idAfter ws ''stream'' (docReadersRoom ws j) = None" "idAfter ws ''doc-readers'' (docReadersRoom ws j) = Some j"
  "idAfter ws ''agent_session'' (docReadersRoom ws j) = None"
  by (auto simp: idAfter_iff docReadersRoom_def simp flip: not_Some_eq)

lemma kept_room_allowed:
  assumes rr: "room_rights ad sessions ws login held = Inr rr" and kept: "room \<notin> set (snd (room_moves ws rr room))"
  shows "room_allowed ad sessions ws login room"
proof -
  note rd = room_rights_read [OF rr]
  consider (stream) i where "idAfter ws ''stream'' room = Some i" | (doc) i where "idAfter ws ''stream'' room = None" "idAfter ws ''doc-readers'' room = Some i"
    | (session) i where "idAfter ws ''stream'' room = None" "idAfter ws ''doc-readers'' room = None" "idAfter ws ''agent_session'' room = Some i"
    | (other) "idAfter ws ''stream'' room = None" "idAfter ws ''doc-readers'' room = None" "idAfter ws ''agent_session'' room = None" by fastforce
  then show ?thesis
  proof cases
    case stream
    then show ?thesis using kept rd(1) kinds_differ(1) [OF stream] by (auto simp: room_moves_def room_allowed_def split: if_splits)
  next
    case doc
    then show ?thesis using kept rd(2) kinds_differ(2) [OF doc(2)] by (auto simp: room_moves_def room_allowed_def split: if_splits)
  next
    case session
    then obtain s where "map_of (rr_sessions rr) i = Some (Some s)" "s \<in> set (rr_joinable rr) \<or> s \<in> set (rr_readable rr)"
      using kept by (auto simp: room_moves_def split: option.splits if_splits)
    moreover from this(1) have "session_stream sessions ws i = Some s" using rd(3) [of i "Some s"] by simp
    ultimately show ?thesis using session rd(1,2) by (auto simp: room_allowed_def)
  qed (simp add: room_allowed_def)
qed

lemma evicted_rooms_allowed:
  assumes rr: "room_rights ad sessions ws login held = Inr rr"
    and held: "\<forall>r\<in>set (sk_rooms s). checked ws rooms r \<longrightarrow> r \<in> set held"
    and room: "room \<in> set (sk_rooms (evict_moves ws rr held s))" "checked ws rooms room"
  shows "room_allowed ad sessions ws login room"
proof (cases "room \<in> set (sk_rooms s)")
  case True
  then have "room \<in> set held" using held room(2) by blast
  with True room(1) have "room \<notin> set (snd (room_moves ws rr room))" by (auto simp: evict_moves_def Let_def moved_rooms)
  then show ?thesis by (rule kept_room_allowed [OF rr])
next
  case False
  then obtain r where "room \<in> set (fst (room_moves ws rr r))" using room(1) by (auto simp: evict_moves_def Let_def moved_rooms)
  then obtain j where "room = docReadersRoom ws j" "j \<in> set (rr_readable rr)"
    by (auto simp: room_moves_def split: option.splits if_splits)
  then show ?thesis using room_rights_read(2) [OF rr] by (simp add: room_allowed_def kinds_differ)
qed

lemma evicted_keeps_other_rooms:
  assumes "room \<in> set (sk_rooms s)" and "room \<notin> set held"
  shows "room \<in> set (sk_rooms (evict_moves ws rr held s))"
proof -
  have "x = r" if "x \<in> set (snd (room_moves ws rr r))" for x r
    using that by (auto simp: room_moves_def split: option.splits if_splits)
  then show ?thesis using assms by (auto simp: evict_moves_def Let_def moved_rooms)
qed

lemma mset_push_socket:
  "distinct (map fst m) \<Longrightarrow> mset (concat (map snd (push_socket s m))) = add_mset s (mset (concat (map snd m)))"
  unfolding push_socket_def by (induction m) (auto simp: image_iff)

lemma distinct_push_socket: "distinct (map fst m) \<Longrightarrow> distinct (map fst (push_socket s m))"
  by (simp add: push_socket_def distinct_update)

lemma push_socket_mem:
  "x \<in> set (case_option [] id (map_of (push_socket s m) l)) \<longleftrightarrow> (l = sk_login s \<and> x = s) \<or> x \<in> set (case_option [] id (map_of m l))"
  by (auto simp: push_socket_def update_conv' split: option.splits)

lemma fold_push_socket:
  assumes "distinct (map fst m)"
  shows "distinct (map fst (fold push_socket xs m))"
    and "mset (concat (map snd (fold push_socket xs m))) = mset xs + mset (concat (map snd m))"
    and "x \<in> set (case_option [] id (map_of (fold push_socket xs m) l)) \<longleftrightarrow> (x \<in> set xs \<and> sk_login x = l) \<or> x \<in> set (case_option [] id (map_of m l))"
  using assms
proof (induction xs arbitrary: m)
  case (Cons a xs)
  {
    case 1
    then show ?case using Cons.IH(1) distinct_push_socket by simp
  next
    case 2
    then show ?case using Cons.IH(2) [OF distinct_push_socket [OF 2, of a]] by (simp add: mset_push_socket)
  next
    case 3
    show ?case
      unfolding fold_simps(2) Cons.IH(3) [OF distinct_push_socket [OF 3, of a]] push_socket_mem set_simps insert_iff by blast
  }
qed auto

text \<open>
  C38. After a recheck no socket it looked at sits in a room its user may not read.  If the sockets are well formed and
  the recheck of the rooms \<open>from\<close> ends without an error, then every socket of the default namespace that was in one
  of them (on a node that answered, with the login asked for, if any) is still connected, and each of its rooms
  that was to be checked is allowed: a stream room only if the login's user reads the stream without document
  grants, a doc-readers room only if they read the doc, an agent-session room only if they read the session's
  stream; the rooms that were not to be checked it keeps.
\<close>

theorem recheck_leaves_only_readable_rooms:
  assumes wf: "io_wf io" and fin: "evictUnreadableRooms ad sessions answered node ws from rooms login io = (True, io')"
    and s: "s \<in> set (io_sockets io)" "in_rooms ''/'' from s" "answered \<or> sk_node s = node" "login = None \<or> login = Some (sk_login s)"
  shows "\<exists>s'\<in>set (io_sockets io'). sk_id s' = sk_id s \<and>
    (\<forall>room\<in>set (sk_rooms s'). checked ws rooms room \<longrightarrow> room_allowed ad sessions ws (sk_login s) room) \<and>
    (\<forall>room\<in>set (sk_rooms s). \<not> checked ws rooms room \<longrightarrow> room \<in> set (sk_rooms s'))"
proof -
  let ?f = "filter (\<lambda>s. case login of None \<Rightarrow> True | Some l \<Rightarrow> sk_login s = l) (fetchSocketsIn answered node io from)"
  let ?g = "by_login login (fetchSocketsIn answered node io from)"
  note fp = fold_push_socket [of "[]", where xs = ?f]
  have "from \<noteq> []" using s(2) by (auto simp: in_rooms_def)
  then have ev: "evict_logins ad sessions ws rooms ?g io = (True, io')" using fin by (simp add: evictUnreadableRooms_def)
  have ms: "mset (concat (map snd ?g)) = mset ?f" using fp(2) by (simp add: by_login_def)
  have "distinct (io_sockets io)" using wf by (simp add: io_wf_def distinct_map)
  then have "distinct (concat (map snd ?g))" using ms by (metis (no_types, lifting) distinct_filter fetchSocketsIn_def mset_eq_imp_distinct_iff)
  moreover have "set (concat (map snd ?g)) = set ?f" using ms by (metis set_mset_mset)
  ultimately have gr: "groups_in io ?g" unfolding groups_in_def by (auto simp: fetchSocketsIn_def in_rooms_def)
  have sf: "s \<in> set ?f" using s by (auto simp: fetchSocketsIn_def)
  then have "s \<in> set (case_option [] id (map_of ?g (sk_login s)))" using fp(3) [of s "sk_login s"] by (simp add: by_login_def)
  then obtain xs where xs: "(sk_login s, xs) \<in> set ?g" "s \<in> set xs" by (cases "map_of ?g (sk_login s)") (auto dest: map_of_SomeD)
  have held: "\<forall>r\<in>set (sk_rooms s). checked ws rooms r \<longrightarrow> r \<in> set (held_of ws rooms xs)" using xs(2) by auto
  from evict_logins_sockets(2) [OF wf gr ev xs] show ?thesis
  proof
    assume "held_of ws rooms xs = [] \<and> s \<in> set (io_sockets io')"
    then show ?thesis using held by (intro bexI [of _ s]) auto
  next
    assume "\<exists>rr. room_rights ad sessions ws (sk_login s) (held_of ws rooms xs) = Inr rr \<and>
         evict_moves ws rr (held_of ws rooms xs) s \<in> set (io_sockets io')"
    then obtain rr where rr: "room_rights ad sessions ws (sk_login s) (held_of ws rooms xs) = Inr rr"
      "evict_moves ws rr (held_of ws rooms xs) s \<in> set (io_sockets io')" by blast
    have "sk_id (evict_moves ws rr (held_of ws rooms xs) s) = sk_id s" by (simp add: evict_moves_def Let_def)
    moreover have "room \<in> set (sk_rooms (evict_moves ws rr (held_of ws rooms xs) s))" if "room \<in> set (sk_rooms s)" "\<not> checked ws rooms room" for room
      using that by (intro evicted_keeps_other_rooms) auto
    ultimately show ?thesis using evicted_rooms_allowed [OF rr(1) held] rr(2) by blast
  qed
qed

definition ex_socket :: "string \<Rightarrow> string \<Rightarrow> string list \<Rightarrow> Socket" where
  "ex_socket i login rooms = \<lparr>sk_id = i, sk_node = ''n1'', sk_namespace = ''/'', sk_login = login, sk_rooms = i # rooms\<rparr>"

definition ex_rooms_access :: AccessDb where
  "ex_rooms_access = ex_access\<lparr>ad_users := [ex_user ''ann'' ''member'', (ex_user ''gus'' ''guest'')\<lparr>u_workosUserId := Some ''login_gus''\<rparr>]\<rparr>"

definition ex_io :: Io where
  "ex_io = \<lparr>io_sockets = [ex_socket ''k1'' ''login_gus'' [''ws:ws'', ''ws:ws:user:gus'', ''ws:ws:stream:general'']], io_emitted = []\<rparr>"

theorem recheck_leaves_only_readable_rooms_witness:
  "\<exists>io'. evictUnreadableRooms ex_rooms_access [] True ''n1'' ''ws'' [''ws:ws:user:gus''] All_rooms (Some ''login_gus'') ex_io = (True, io') \<and>
    (\<exists>s'\<in>set (io_sockets io'). sk_id s' = ''k1'' \<and>
      list_all (room_allowed ex_rooms_access [] ''ws'' ''login_gus'') (filter (checked ''ws'' All_rooms) (sk_rooms s'))) \<and>
    map sk_rooms (io_sockets io') = [[''k1'', ''ws:ws'', ''ws:ws:user:gus'']]"
proof -
  let ?r = "evictUnreadableRooms ex_rooms_access [] True ''n1'' ''ws'' [''ws:ws:user:gus''] All_rooms (Some ''login_gus'') ex_io"
  have r: "?r = (True, snd ?r)" "map sk_rooms (io_sockets (snd ?r)) = [[''k1'', ''ws:ws'', ''ws:ws:user:gus'']]"
    "io_wf ex_io" "checked ''ws'' All_rooms ''ws:ws:stream:general''"
    "in_rooms ''/'' [''ws:ws:user:gus''] (ex_socket ''k1'' ''login_gus'' [''ws:ws'', ''ws:ws:user:gus'', ''ws:ws:stream:general''])"
    by code_simp+
  show ?thesis
    using recheck_leaves_only_readable_rooms [OF r(3,1) _ r(5)] r by (intro exI [of _ "snd ?r"]) (auto simp: ex_io_def ex_socket_def list_all_iff)
qed

end
