(* ===== verification/Broadcast.thy ===== *)
theory Broadcast
  imports Sync_Reconciliation Room_Eviction Cursor_Lock
begin

text \<open>
  \<^verbatim>\<open>apps/backend/src/lib/outbox/broadcast-handler.ts\<close>: the handler that sequences client-routed outbox events into
  the sync log and then emits them to their rooms, run by a \<open>CursorLock\<close>.  Its world is the sync log and the
  Socket.IO server; the tables it reads are the environment of a batch.  \<open>invalidatePointersForEvent\<close> of the
  messaging feature, which emits cache hints for shared messages, is a parameter.  \<open>None\<close> and error strings are
  exceptions.  Metrics are left out.
\<close>

record BroadcastEnv =
  be_evict :: EvictEnv
  be_now :: timestamp
  be_invalidate :: "OutboxEvent \<Rightarrow> Io \<Rightarrow> Io option"

record BroadcastState =
  bs_sync :: SyncDb
  bs_io :: Io

record RoutedEvent =
  re_groups :: "string list option"
  re_syncId :: "int option"

section \<open>Sequencing\<close>

text \<open>Excluded types are routed but never logged.\<close>

definition sequence_entry :: "EventAudience \<Rightarrow> (string \<times> SyncLogEntryInput) option option" where
  "sequence_entry a = (if ev_type (au_event a) \<in> set SYNC_LOG_EXCLUDED_EVENT_TYPES then Some None else log_entry a)"

fun sequence_collect ::
  "EventAudience list \<Rightarrow> (int \<times> RoutedEvent) list \<times> (string \<times> SyncLogEntryInput list) list \<Rightarrow>
    ((int \<times> RoutedEvent) list \<times> (string \<times> SyncLogEntryInput list) list) option" where
  "sequence_collect [] acc = Some acc"
| "sequence_collect (a # as) (routed, byWorkspace) =
    Option.bind (sequence_entry a) (\<lambda>x.
      sequence_collect as
        (AList.update (ev_id (au_event a)) \<lparr>re_groups = au_groups a, re_syncId = None\<rparr> routed,
         case x of None \<Rightarrow> byWorkspace
         | Some (ws, entry) \<Rightarrow> AList.update ws (case_option [] id (map_of byWorkspace ws) @ [entry]) byWorkspace))"

definition set_logged :: "int \<times> LoggedEntry \<Rightarrow> (int \<times> RoutedEvent) list \<Rightarrow> (int \<times> RoutedEvent) list" where
  "set_logged x routed =
    (case map_of routed (fst x) of
       None \<Rightarrow> routed
     | Some entry \<Rightarrow> AList.update (fst x) (entry\<lparr>re_syncId := Some (le_syncId (snd x)), re_groups := Some (le_groups (snd x))\<rparr>) routed)"

fun sequence_append ::
  "timestamp \<Rightarrow> (string \<times> SyncLogEntryInput list) list \<Rightarrow> SyncDb \<Rightarrow> (int \<times> RoutedEvent) list \<Rightarrow> SyncDb \<times> (string + (int \<times> RoutedEvent) list)" where
  "sequence_append t [] db routed = (db, Inr routed)"
| "sequence_append t ((ws, entries) # rest) db routed =
    (case appendForWorkspace t ws entries db of
       Inl err \<Rightarrow> (db, Inl err)
     | Inr (db', logged) \<Rightarrow> sequence_append t rest db' (fold set_logged logged routed))"

definition sequenceEvents :: "BroadcastEnv \<Rightarrow> OutboxEvent list \<Rightarrow> SyncDb \<Rightarrow> SyncDb \<times> (string + (int \<times> RoutedEvent) list)" where
  "sequenceEvents env events db =
    (case Option.bind (resolveAudiences (ee_ad (be_evict env)) events) (\<lambda>audiences. sequence_collect audiences ([], [])) of
       None \<Rightarrow> (db, Inl ''TypeError'')
     | Some (routed, byWorkspace) \<Rightarrow> sequence_append (be_now env) byWorkspace db routed)"

section \<open>Schemas of the bot control events\<close>

type_synonym schema = "json \<Rightarrow> json option"

fun z_string :: "nat \<Rightarrow> schema" where
  "z_string n (JStr s) = (if n \<le> length s then Some (JStr s) else None)"
| "z_string n _ = None"

fun z_int :: "int \<Rightarrow> schema" where
  "z_int n (JNum i) = (if n \<le> i then Some (JNum i) else None)"
| "z_int n _ = None"

fun z_enum :: "string list \<Rightarrow> schema" where
  "z_enum vs (JStr s) = (if s \<in> set vs then Some (JStr s) else None)"
| "z_enum vs _ = None"

fun z_nullable :: "schema \<Rightarrow> schema" where
  "z_nullable sch JNull = Some JNull"
| "z_nullable sch v = sch v"

fun z_max :: "nat \<Rightarrow> schema \<Rightarrow> schema" where
  "z_max n sch (JStr s) = (if length s \<le> n then sch (JStr s) else None)"
| "z_max n sch v = sch v"

text \<open>\<open>z.object\<close> keeps the named fields only.\<close>

fun z_object :: "(string \<times> schema) list \<Rightarrow> schema" where
  "z_object shape (JObj fs) =
    map_option JObj (those (map (\<lambda>(k, sch). map_option (Pair k) (sch (case map_of fs k of None \<Rightarrow> JUndefined | Some v \<Rightarrow> v))) shape))"
| "z_object shape _ = None"

definition BOT_INVOCATION_CANCELLATION_REASONS :: "string list" where
  "BOT_INVOCATION_CANCELLATION_REASONS =
    [''routing_changed'', ''source_deleted'', ''input_restart'', ''adapter_restart_required'', ''key_grant_lost'', ''input_stale'']"

definition DECISION_REQUEST_STATUSES :: "string list" where
  "DECISION_REQUEST_STATUSES = [''open'', ''resolved'', ''cancelled'', ''expired'']"

definition control_fields :: "(string \<times> schema) list" where
  "control_fields =
    [(''workspaceId'', z_string 1), (''botId'', z_string 1), (''invocationId'', z_string 1), (''sourceRevision'', z_int 0),
     (''targetInstanceId'', z_nullable (z_string 0)), (''targetRuntimeSessionId'', z_nullable (z_string 0))]"

definition botInvocationControlPayloadSchema :: schema where
  "botInvocationControlPayloadSchema = z_object control_fields"

definition botInvocationCancelledPayloadSchema :: schema where
  "botInvocationCancelledPayloadSchema = z_object (control_fields @ [(''reason'', z_enum BOT_INVOCATION_CANCELLATION_REASONS)])"

definition e2eEnvelopeV2Schema :: schema where
  "e2eEnvelopeV2Schema = z_object [(''v'', z_int 1), (''keyGeneration'', z_int 0), (''iv'', z_max 64 (z_string 1)), (''aad'', z_max 4096 (z_string 1))]"

definition botDecisionPayloadSchema :: schema where
  "botDecisionPayloadSchema = z_object
    [(''workspaceId'', z_string 1), (''botId'', z_string 1), (''streamId'', z_string 1), (''runtimeSessionId'', z_string 1),
     (''decisionId'', z_string 1), (''status'', z_enum DECISION_REQUEST_STATUSES), (''optionId'', z_nullable (z_string 0)),
     (''note'', z_nullable (z_string 0)), (''noteCiphertext'', z_nullable (z_string 0)), (''noteEnvelope'', z_nullable e2eEnvelopeV2Schema),
     (''decidedBy'', z_nullable (z_string 0)), (''version'', z_int 1)]"

section \<open>Bot events\<close>

definition bot_ns :: string where "bot_ns = ''/bot''"

definition bot_room :: "json \<Rightarrow> json \<Rightarrow> string" where
  "bot_room ws botId = ''bot:'' @ js_string ws @ '':bot:'' @ js_string botId"

abbreviation field :: "string \<Rightarrow> json \<Rightarrow> json" where
  "field \<equiv> opt_get"

definition available_rooms :: "json \<Rightarrow> json \<Rightarrow> string list" where
  "available_rooms ws p = (let room = bot_room ws (field ''botId'' p) in
    if truthy (field ''targetRuntimeSessionId'' p)
    then [room @ '':session:'' @ js_string (field ''targetRuntimeSessionId'' p), room @ '':supervisor'']
    else if truthy (field ''targetInstanceId'' p) then [room @ '':instance:'' @ js_string (field ''targetInstanceId'' p)]
    else [room])"

definition control_room :: "json \<Rightarrow> json \<Rightarrow> string" where
  "control_room ws p = (let room = bot_room ws (field ''botId'' p) in
    if truthy (field ''targetRuntimeSessionId'' p) then room @ '':session:'' @ js_string (field ''targetRuntimeSessionId'' p)
    else if truthy (field ''targetInstanceId'' p) then room @ '':instance:'' @ js_string (field ''targetInstanceId'' p)
    else room)"

definition resync_room :: "json \<Rightarrow> json \<Rightarrow> string" where
  "resync_room ws p =
    (if truthy (field ''instanceId'' p) \<and> truthy (field ''botId'' p)
     then bot_room ws (field ''botId'' p) @ '':instance:'' @ js_string (field ''instanceId'' p)
     else if truthy (field ''botId'' p) then bot_room ws (field ''botId'' p)
     else ''bot:'' @ js_string ws)"

definition session_rooms :: "json \<Rightarrow> json \<Rightarrow> string list" where
  "session_rooms ws p = (let room = bot_room ws (field ''botId'' p) in
    [room @ '':session:'' @ js_string (field ''runtimeSessionId'' p), room @ '':instance:'' @ js_string (field ''instanceId'' p)])"

definition emit_parsed :: "schema \<Rightarrow> string \<Rightarrow> (json \<Rightarrow> string) \<Rightarrow> json \<Rightarrow> Io \<Rightarrow> Io" where
  "emit_parsed sch eventName room p io =
    (case sch p of None \<Rightarrow> io | Some payload \<Rightarrow> io_emit bot_ns [room payload] eventName payload io)"

definition dispatchBotEvent :: "OutboxEvent \<Rightarrow> Io \<Rightarrow> Io option" where
  "dispatchBotEvent e io = (let p = ev_payload e; ty = ev_type e in
    Option.bind (jget ''workspaceId'' p) (\<lambda>ws.
      if ty = ''bot_invocation:available'' then Some (io_emit bot_ns (available_rooms ws p) ty p io)
      else if ty = ''bot_invocation:input_updated'' then Some (emit_parsed botInvocationControlPayloadSchema ty (control_room ws) p io)
      else if ty = ''bot_invocation:cancelled'' then Some (emit_parsed botInvocationCancelledPayloadSchema ty (control_room ws) p io)
      else if ty \<in> {''bot_decision:resolved'', ''bot_decision:cancelled''} then
        Some (emit_parsed botDecisionPayloadSchema (if ty = ''bot_decision:resolved'' then ''decision:resolved'' else ''decision:cancelled'')
          (\<lambda>d. bot_room ws (field ''botId'' d) @ '':session:'' @ js_string (field ''runtimeSessionId'' d)) p io)
      else if ty \<in> {''bot_invocation:claimed'', ''bot:e2e_grant'', ''bot:e2e_revoke''} then
        Some (io_emit bot_ns [bot_room ws (field ''botId'' p)] ty p io)
      else if ty = ''bot:active_actor_changed'' then
        map_option (\<lambda>ids. fold (\<lambda>botId. io_emit bot_ns [bot_room ws botId] ty p) ids io) (js_iter (field ''affectedBotIds'' p))
      else if ty = ''bot:resync'' then Some (io_emit bot_ns [resync_room ws p] ty p io)
      else if ty = ''bot:session_archived'' then Some (io_emit bot_ns (session_rooms ws p) ty p io)
      else if ty = ''bot:session_restored'' then
        Some (io_emit bot_ns (session_rooms ws p @ [bot_room ws (field ''botId'' p) @ '':supervisor'']) ty p io)
      else Some io))"

section \<open>Broadcasting\<close>

definition CALLS_NAMESPACE :: string where "CALLS_NAMESPACE = ''/calls''"

definition callRoom :: "string \<Rightarrow> string" where "callRoom callId = ''call:'' @ callId"

definition delegation_available :: "json \<Rightarrow> (string \<times> json) list \<Rightarrow> Io \<Rightarrow> Io" where
  "delegation_available p shape =
    io_emit bot_ns [''bot:'' @ js_string (field ''workspaceId'' p)] ''delegation:available''
      (JObj ([(''workspaceId'', field ''workspaceId'' p), (''streamId'', field ''streamId'' p)] @ shape))"

text \<open>The nudges that follow the emit of a delegation or an approved access request.\<close>

definition broadcast_nudges :: "string \<Rightarrow> json \<Rightarrow> Io \<Rightarrow> Io option" where
  "broadcast_nudges ty p io =
    (if ty \<in> {''stream:delegation_created'', ''stream:delegation_status_changed'', ''stream:bot_access_status_changed''} then
       Option.bind (Option.bind (jget ''event'' p) (jget ''payload'')) (\<lambda>c.
         Option.bind (jget ''delegationId'' c) (\<lambda>delegationId.
           if ty = ''stream:delegation_created'' then
             Some (delegation_available p [(''delegationId'', delegationId), (''title'', field ''title'' c)] io)
           else if ty = ''stream:delegation_status_changed'' then
             Some (if js_is (field ''status'' c) ''open'' \<and> truthy delegationId
               then delegation_available p [(''delegationId'', delegationId)] io else io)
           else Some (if js_is (field ''status'' c) ''approved'' \<and> truthy delegationId
               then delegation_available p [(''delegationId'', delegationId), (''title'', field ''delegationTitle'' c)] io else io)))
     else Some io)"

definition broadcastEvent :: "OutboxEvent \<Rightarrow> RoutedEvent option \<Rightarrow> Io \<Rightarrow> Io option" where
  "broadcastEvent e routedEvent io =
    Option.bind (case routedEvent of None \<Rightarrow> resolveDeliveryGroups e | Some r \<Rightarrow> Some (re_groups r)) (\<lambda>groups.
      case groups of
        None \<Rightarrow> dispatchBotEvent e io
      | Some gs \<Rightarrow>
          Option.bind (emitToGroups (ev_type e) (ev_payload e) gs (Option.bind routedEvent re_syncId) io) (\<lambda>io1.
            Option.bind
              (if ev_type e = ''call:transport_transfer_changed''
               then map_option (\<lambda>callId. io_emit CALLS_NAMESPACE [callRoom (js_string callId)] (ev_type e) (ev_payload e) io1) (jget ''callId'' (ev_payload e))
               else Some io1)
              (broadcast_nudges (ev_type e) (ev_payload e))))"

text \<open>The role is read again, not taken from the payload.\<close>

definition syncRoleRooms :: "AccessDb \<Rightarrow> OutboxEvent \<Rightarrow> Io \<Rightarrow> Io option" where
  "syncRoleRooms ad e io =
    (let p = ev_payload e in
     if ev_type e = ''workspace_user:updated'' then
       Option.bind (jget ''workspaceId'' p) (\<lambda>ws. Option.bind (Option.bind (jget ''user'' p) (jget ''id'')) (\<lambda>u.
         case user_findById (ad_permissions ad) (ad_users ad) (js_string ws) (js_string u) of
           Inl _ \<Rightarrow> None
         | Inr current \<Rightarrow>
             (case syncPermissionRooms (js_string ws) (js_string u) (map_option u_role current) io of Inl _ \<Rightarrow> None | Inr io' \<Rightarrow> Some io')))
     else if ev_type e = ''workspace_user:removed'' then
       Option.bind (jget ''workspaceId'' p) (\<lambda>ws. Option.bind (jget ''removedUserId'' p) (\<lambda>u.
         case syncPermissionRooms (js_string ws) (js_string u) None io of Inl _ \<Rightarrow> None | Inr io' \<Rightarrow> Some io'))
     else Some io)"

text \<open>One event of the batch: what the emit and the hints did stays when a later part raises.\<close>

definition broadcast_one :: "BroadcastEnv \<Rightarrow> (int \<times> RoutedEvent) list \<Rightarrow> OutboxEvent \<Rightarrow> Io \<Rightarrow> bool \<times> Io" where
  "broadcast_one env routed e io =
    (case syncRoleRooms (ee_ad (be_evict env)) e io of
       None \<Rightarrow> (False, io)
     | Some io1 \<Rightarrow>
         (case broadcastEvent e (map_of routed (ev_id e)) io1 of
            None \<Rightarrow> (False, io1)
          | Some io2 \<Rightarrow>
              (case be_invalidate env e io2 of
                 None \<Rightarrow> (False, io2)
               | Some io3 \<Rightarrow>
                   (case evictRevokedRoomsForEvent (be_evict env) e io3 of None \<Rightarrow> (False, io3) | Some io4 \<Rightarrow> (True, io4)))))"

fun broadcast_all :: "BroadcastEnv \<Rightarrow> (int \<times> RoutedEvent) list \<Rightarrow> OutboxEvent list \<Rightarrow> int list \<Rightarrow> Io \<Rightarrow> Io \<times> int list \<times> bool" where
  "broadcast_all env routed [] seen io = (io, seen, True)"
| "broadcast_all env routed (e # es) seen io =
    (case broadcast_one env routed e io of
       (True, io') \<Rightarrow> broadcast_all env routed es (seen @ [ev_id e]) io'
     | (False, io') \<Rightarrow> (io', seen, False))"

definition broadcast_processor :: "BroadcastEnv \<Rightarrow> int \<Rightarrow> BroadcastState processor" where
  "broadcast_processor env batchSize db x cursor processedIds =
    (let events = fetchAfterId db cursor batchSize processedIds
     in if events = [] then (db, x, Res_no_events)
        else case sequenceEvents env events (bs_sync x) of
          (sync, Inl err) \<Rightarrow> (db, x\<lparr>bs_sync := sync\<rparr>, Res_error err None)
        | (sync, Inr routed) \<Rightarrow>
            (case broadcast_all env routed events [] (bs_io x) of
               (io, seen, True) \<Rightarrow> (db, \<lparr>bs_sync = sync, bs_io = io\<rparr>, Res_processed seen)
             | (io, seen, False) \<Rightarrow>
                 (db, \<lparr>bs_sync = sync, bs_io = io\<rparr>, Res_error ''broadcast failed'' (if seen \<noteq> [] then Some seen else None))))"

definition broadcast_lock :: CursorLockConfig where
  "broadcast_lock = mkCursorLock ''broadcast'' 10000 5 1000 100 None None"

definition broadcast_processEvents ::
  "nat \<Rightarrow> RunEnv \<Rightarrow> BroadcastEnv \<Rightarrow> BroadcastState World \<Rightarrow> (bool \<times> BroadcastState World) option" where
  "broadcast_processEvents fuel env benv w = run fuel broadcast_lock env (broadcast_processor benv (cl_batchSize broadcast_lock)) w"

section \<open>Sequenced events carry their log entry\<close>

definition routed_ok :: "SyncDb \<Rightarrow> (int \<times> RoutedEvent) list \<Rightarrow> bool" where
  "routed_ok db routed \<longleftrightarrow> (\<forall>i r n. map_of routed i = Some r \<and> re_syncId r = Some n \<longrightarrow>
    (\<exists>l\<in>set (sync_log db). sl_outboxEventId l = i \<and> sl_syncId l = n \<and> re_groups r = Some (sl_groups l)))"

lemma append_distinct_keys:
  assumes "appendForWorkspace t ws entries db = Inr (db', assigned)"
  shows "distinct (map fst assigned)"
proof -
  have d: "distinct (map fst m) \<Longrightarrow> distinct (map fst (fold assign_row rs m))" for rs and m :: "(int \<times> LoggedEntry) list"
    by (induction rs arbitrary: m) (simp_all add: assign_row_def distinct_update)
  from assms show ?thesis
  proof (cases rule: append_cases)
    case (rows rows existing)
    show ?thesis unfolding rows(9) by (intro d) simp
  qed simp
qed

lemma fold_set_logged:
  "map_of (fold set_logged xs routed) i = None \<longleftrightarrow> map_of routed i = None"
  "map_of (fold set_logged xs routed) i = Some r \<Longrightarrow> map_of routed i = Some r \<or>
    (\<exists>v. (i, v) \<in> set xs \<and> re_syncId r = Some (le_syncId v) \<and> re_groups r = Some (le_groups v))"
  "map_of routed i \<noteq> None \<Longrightarrow> i \<in> fst ` set xs \<Longrightarrow> \<exists>r. map_of (fold set_logged xs routed) i = Some r \<and> re_syncId r \<noteq> None"
proof (induction xs arbitrary: routed r)
  case (Cons x xs)
  have one: "map_of (set_logged x routed) i = (case map_of routed i of None \<Rightarrow> None
      | Some e \<Rightarrow> Some (if i = fst x then e\<lparr>re_syncId := Some (le_syncId (snd x)), re_groups := Some (le_groups (snd x))\<rparr> else e))" for routed
    by (auto simp: set_logged_def update_conv' split: option.splits)
  {
    case 1
    then show ?case using Cons.IH(1) [of "set_logged x routed"] by (simp add: one split: option.splits)
  next
    case 2
    then have "map_of (set_logged x routed) i = Some r \<or>
      (\<exists>v. (i, v) \<in> set xs \<and> re_syncId r = Some (le_syncId v) \<and> re_groups r = Some (le_groups v))"
      using Cons.IH(2) [of "set_logged x routed" r] by simp
    then show ?case
    proof
      assume m: "map_of (set_logged x routed) i = Some r"
      show ?thesis
      proof (cases "i = fst x")
        case True
        then have "re_syncId r = Some (le_syncId (snd x)) \<and> re_groups r = Some (le_groups (snd x))"
          using m one [of routed] by (auto split: option.splits)
        moreover have "(i, snd x) \<in> set (x # xs)" using True by simp
        ultimately show ?thesis by blast
      next
        case False
        then show ?thesis using m one [of routed] by (auto split: option.splits)
      qed
    qed auto
  next
    case 3
    have keep: "\<exists>r. map_of (fold set_logged xs m) i = Some r \<and> re_syncId r \<noteq> None" if prev: "\<exists>r. map_of m i = Some r \<and> re_syncId r \<noteq> None" for m
    proof -
      obtain r where "map_of (fold set_logged xs m) i = Some r" using prev Cons.IH(1) [of m] by fastforce
      then show ?thesis using Cons.IH(2) [of m r] prev by auto
    qed
    show ?case
    proof (cases "i \<in> fst ` set xs")
      case True
      then show ?thesis using Cons.IH(3) [of "set_logged x routed"] 3(1) one [of routed] by (auto split: option.splits)
    next
      case False
      then have "i = fst x" using 3(2) by auto
      then have "\<exists>r. map_of (set_logged x routed) i = Some r \<and> re_syncId r \<noteq> None" using 3(1) one [of routed] by (auto split: option.splits)
      then show ?thesis using keep by simp
    qed
  }
qed auto

lemma append_keys:
  assumes a: "appendForWorkspace t w entries db = Inr (db1, logged)"
  shows "ei_outboxEventId ` set entries \<subseteq> fst ` set logged"
  using a
proof (cases rule: append_cases)
  case (rows rows existing)
  have "ei_outboxEventId e \<in> sl_outboxEventId ` set existing \<union> ei_outboxEventId ` set (append_missing w entries db)" if en: "e \<in> set entries" for e
  proof (cases "e \<in> set (append_missing w entries db)")
    case False
    then obtain l where "l \<in> set (sync_log db)" "sl_workspaceId l = w" "sl_outboxEventId l = ei_outboxEventId e"
      using en by (auto simp: append_missing_def)
    then have "l \<in> set existing" using en by (auto simp: rows(2))
    then show ?thesis using \<open>sl_outboxEventId l = ei_outboxEventId e\<close> by (metis UnI1 imageI)
  qed simp
  moreover have "obj_keys logged = sl_outboxEventId ` set existing \<union> ei_outboxEventId ` set (append_missing w entries db)"
    unfolding rows(9) obj_keys_assign rows(1) number_entries_event_set by simp
  ultimately show ?thesis unfolding obj_keys_def by blast
qed simp

lemma sequence_step_ok:
  assumes a: "appendForWorkspace t w entries db = Inr (db1, logged)" and wf: "sync_wf db" and ok: "routed_ok db routed"
  shows "routed_ok db1 (fold set_logged logged routed)"
  unfolding routed_ok_def
proof (intro allI impI)
  fix i rr n assume h: "map_of (fold set_logged logged routed) i = Some rr \<and> re_syncId rr = Some n"
  have sub: "set (sync_log db) \<subseteq> set (sync_log db1)" using a by (cases rule: append_cases) auto
  from h consider "map_of routed i = Some rr" | v where "(i, v) \<in> set logged" "re_syncId rr = Some (le_syncId v)" "re_groups rr = Some (le_groups v)"
    using fold_set_logged(2) [of logged routed i rr] by blast
  then show "\<exists>l\<in>set (sync_log db1). sl_outboxEventId l = i \<and> sl_syncId l = n \<and> re_groups rr = Some (sl_groups l)"
  proof cases
    case 1
    then show ?thesis using ok h sub unfolding routed_ok_def by blast
  next
    case 2
    then have "map_of logged i = Some v" using append_distinct_keys [OF a] by (simp add: map_of_eq_Some_iff)
    then obtain l where "l \<in> set (sync_log db1)" "sl_outboxEventId l = i" "v = \<lparr>le_syncId = sl_syncId l, le_groups = sl_groups l\<rparr>"
      using append_assigns [OF wf a] by auto
    then show ?thesis using 2 h by auto
  qed
qed

abbreviation sequenced :: "(int \<times> RoutedEvent) list \<Rightarrow> int \<Rightarrow> bool" where
  "sequenced routed i \<equiv> \<exists>r. map_of routed i = Some r \<and> re_syncId r \<noteq> None"

lemma sequenced_keep: "sequenced routed i \<Longrightarrow> sequenced (fold set_logged xs routed) i"
proof -
  assume s: "sequenced routed i"
  then obtain r where "map_of (fold set_logged xs routed) i = Some r" using fold_set_logged(1) [of xs routed i] by fastforce
  then show ?thesis using fold_set_logged(2) [of xs routed i r] s by auto
qed

lemma sequence_append_ok:
  assumes "sequence_append t ms db routed = (db', Inr routed')" and "sync_wf db" and "routed_ok db routed"
  shows "sync_wf db' \<and> routed_ok db' routed' \<and> (\<forall>i. sequenced routed i \<longrightarrow> sequenced routed' i) \<and>
    (\<forall>(ws, es)\<in>set ms. \<forall>x\<in>set es. map_of routed (ei_outboxEventId x) \<noteq> None \<longrightarrow> sequenced routed' (ei_outboxEventId x)) \<and>
    (\<forall>i. map_of routed i = None \<longleftrightarrow> map_of routed' i = None)"
  using assms
proof (induction ms arbitrary: db routed)
  case (Cons m ms)
  obtain w entries where m: "m = (w, entries)" by (cases m)
  obtain db1 logged where a: "appendForWorkspace t w entries db = Inr (db1, logged)"
    and r: "sequence_append t ms db1 (fold set_logged logged routed) = (db', Inr routed')"
    using Cons.prems(1) by (auto simp: m split: sum.splits)
  note ih = Cons.IH [OF r sync_wf_append [OF Cons.prems(2) a] sequence_step_ok [OF a Cons.prems(2,3)]]
  have now: "sequenced (fold set_logged logged routed) (ei_outboxEventId x)" if "x \<in> set entries" "map_of routed (ei_outboxEventId x) \<noteq> None" for x
    using that append_keys [OF a] by (intro fold_set_logged(3)) auto
  show ?case
  proof (intro conjI allI impI ballI)
    show "sync_wf db'" "routed_ok db' routed'" using ih by blast+
    show "map_of routed i = None \<longleftrightarrow> map_of routed' i = None" for i using ih fold_set_logged(1) [of logged routed i] by simp
    show "sequenced routed' i" if "sequenced routed i" for i using ih sequenced_keep [OF that] by blast
    fix y assume y: "y \<in> set (m # ms)"
    show "case y of (ws, es) \<Rightarrow> \<forall>x\<in>set es. map_of routed (ei_outboxEventId x) \<noteq> None \<longrightarrow> sequenced routed' (ei_outboxEventId x)"
    proof (cases "y = m")
      case True
      then show ?thesis using now ih by (auto simp: m)
    next
      case False
      then have "y \<in> set ms" using y by simp
      then show ?thesis using ih fold_set_logged(1) [of logged routed] by fastforce
    qed
  qed
qed simp

lemma sequence_collect_ok:
  assumes "sequence_collect as (routed, byWs) = Some (routed', byWs')"
  shows "(\<forall>i. map_of routed i \<noteq> None \<longrightarrow> map_of routed' i \<noteq> None) \<and> (\<forall>a\<in>set as. map_of routed' (ev_id (au_event a)) \<noteq> None) \<and>
    ((\<forall>i r. map_of routed i = Some r \<longrightarrow> re_syncId r = None) \<longrightarrow> (\<forall>i r. map_of routed' i = Some r \<longrightarrow> re_syncId r = None)) \<and>
    (\<forall>ws es. map_of byWs ws = Some es \<longrightarrow> (\<exists>es'. map_of byWs' ws = Some es' \<and> set es \<subseteq> set es')) \<and>
    (\<forall>a\<in>set as. \<forall>ws x. sequence_entry a = Some (Some (ws, x)) \<longrightarrow> (\<exists>es. map_of byWs' ws = Some es \<and> x \<in> set es))"
  using assms
proof (induction as arbitrary: routed byWs)
  case (Cons a as)
  obtain y where y: "sequence_entry a = Some y" using Cons.prems by (cases "sequence_entry a") auto
  let ?r = "AList.update (ev_id (au_event a)) \<lparr>re_groups = au_groups a, re_syncId = None\<rparr> routed"
  let ?b = "case y of None \<Rightarrow> byWs | Some (ws, entry) \<Rightarrow> AList.update ws (case_option [] id (map_of byWs ws) @ [entry]) byWs"
  have ih: "sequence_collect as (?r, ?b) = Some (routed', byWs')" using Cons.prems y by simp
  note ih = Cons.IH [OF ih]
  have b: "\<exists>es'. map_of ?b ws = Some es' \<and> set es \<subseteq> set es'" if "map_of byWs ws = Some es" for ws es
    using that by (auto simp: update_conv' split: option.splits)
  have b2: "\<exists>es. map_of ?b ws = Some es \<and> x \<in> set es" if "y = Some (ws, x)" for ws x
    using that by (simp add: update_conv')
  show ?case
  proof (intro conjI allI impI ballI)
    show "map_of routed' i \<noteq> None" if "map_of routed i \<noteq> None" for i using ih that by (simp add: update_conv')
    show "map_of routed' (ev_id (au_event x)) \<noteq> None" if "x \<in> set (a # as)" for x using ih that by (auto simp: update_conv')
    show "re_syncId r = None" if "\<forall>i r. map_of routed i = Some r \<longrightarrow> re_syncId r = None" "map_of routed' i = Some r" for i r
    proof -
      have "(\<forall>i r. map_of ?r i = Some r \<longrightarrow> re_syncId r = None) \<longrightarrow> (\<forall>i r. map_of routed' i = Some r \<longrightarrow> re_syncId r = None)"
        using ih by blast
      moreover have "\<forall>i r. map_of ?r i = Some r \<longrightarrow> re_syncId r = None" using that(1) by (simp add: update_conv')
      ultimately show ?thesis using that(2) by blast
    qed
    show "\<exists>es'. map_of byWs' ws = Some es' \<and> set es \<subseteq> set es'" if h: "map_of byWs ws = Some es" for ws es
      using ih b [OF h] by (meson order_trans)
    show "\<exists>es. map_of byWs' ws = Some es \<and> x \<in> set es" if h: "c \<in> set (a # as)" "sequence_entry c = Some (Some (ws, x))" for c ws x
    proof (cases "c \<in> set as")
      case True
      then show ?thesis using ih h(2) by blast
    next
      case False
      then have "y = Some (ws, x)" using h y by simp
      then obtain es where "map_of ?b ws = Some es" "x \<in> set es" using b2 by blast
      moreover have "\<forall>ws es. map_of ?b ws = Some es \<longrightarrow> (\<exists>es'. map_of byWs' ws = Some es' \<and> set es \<subseteq> set es')" using ih by blast
      ultimately show ?thesis by blast
    qed
  qed
qed auto

lemma sequenceEvents_ok:
  assumes seq: "sequenceEvents env events db = (db', Inr routed)" and wf: "sync_wf db"
  shows "sync_wf db'" "routed_ok db' routed"
    and "e \<in> set events \<Longrightarrow> loggable e \<Longrightarrow> \<exists>l\<in>set (sync_log db'). sl_outboxEventId l = ev_id e \<and>
      map_of routed (ev_id e) = Some \<lparr>re_groups = Some (sl_groups l), re_syncId = Some (sl_syncId l)\<rparr>"
proof -
  obtain audiences routed0 byWs where c: "resolveAudiences (ee_ad (be_evict env)) events = Some audiences"
    "sequence_collect audiences ([], []) = Some (routed0, byWs)" "sequence_append (be_now env) byWs db routed0 = (db', Inr routed)"
    using seq by (auto simp: sequenceEvents_def bind_eq_Some_conv split: option.splits)
  note sc = sequence_collect_ok [OF c(2)]
  have "routed_ok db routed0" using sc by (fastforce simp: routed_ok_def)
  note ap = sequence_append_ok [OF c(3) wf this]
  show "sync_wf db'" "routed_ok db' routed" using ap by blast+
  assume e: "e \<in> set events" "loggable e"
  obtain a where a: "a \<in> set audiences" "audience_of e a"
    using resolveAudiences_audience [OF c(1)] e(1) by (metis in_set_conv_nth list_all2_conv_all_nth)
  obtain ws x where x: "log_entry a = Some (Some (ws, x))" "ei_outboxEventId x = ev_id e" using loggable_entry [OF a(2) e(2)] by blast
  have ae: "au_event a = e" using a(2) by (simp add: audience_of_def)
  then have "sequence_entry a = Some (Some (ws, x))" using x(1) e(2) by (simp add: sequence_entry_def loggable_def)
  then obtain es where "map_of byWs ws = Some es" "x \<in> set es" using sc a(1) by blast
  then have "(ws, es) \<in> set byWs" "x \<in> set es" by (simp_all add: map_of_SomeD)
  moreover have "map_of routed0 (ei_outboxEventId x) \<noteq> None" using sc a(1) x(2) ae by auto
  ultimately have "sequenced routed (ev_id e)" using ap x(2) by fastforce
  then obtain r n where r: "map_of routed (ev_id e) = Some r" "re_syncId r = Some n" by auto
  then obtain l where "l \<in> set (sync_log db')" "sl_outboxEventId l = ev_id e" "sl_syncId l = n" "re_groups r = Some (sl_groups l)"
    using \<open>routed_ok db' routed\<close> unfolding routed_ok_def by blast
  then show "\<exists>l\<in>set (sync_log db'). sl_outboxEventId l = ev_id e \<and>
      map_of routed (ev_id e) = Some \<lparr>re_groups = Some (sl_groups l), re_syncId = Some (sl_syncId l)\<rparr>"
    using r by (intro bexI [of _ l]) auto
qed

section \<open>Emits are only added\<close>

definition emits_more :: "Io \<Rightarrow> Io \<Rightarrow> bool" where
  "emits_more io io' \<longleftrightarrow> (\<exists>ms. io_emitted io' = io_emitted io @ ms)"

named_theorems emits_intro \<open>operations that only add to the emitted messages\<close>

lemma emits_more_refl [emits_intro]: "emits_more io io"
  by (simp add: emits_more_def)

lemma emits_more_trans: "emits_more a b \<Longrightarrow> emits_more b c \<Longrightarrow> emits_more a c"
  by (auto simp: emits_more_def)

lemma emits_more_emit [emits_intro]: "emits_more io (io_emit ns rooms ev p io)"
  by (simp add: emits_more_def io_emit_def)

lemma emits_more_fold:
  "(\<And>x io. emits_more io (f x io)) \<Longrightarrow> emits_more io (fold f xs io)"
  by (induction xs arbitrary: io) (auto intro: emits_more_refl emits_more_trans)

lemma emits_more_mem: "emits_more io io' \<Longrightarrow> m \<in> set (drop k (io_emitted io)) \<Longrightarrow> k \<le> length (io_emitted io) \<Longrightarrow> m \<in> set (drop k (io_emitted io'))"
  by (auto simp: emits_more_def)

lemma emits_more_length: "emits_more io io' \<Longrightarrow> length (io_emitted io) \<le> length (io_emitted io')"
  by (auto simp: emits_more_def)

lemma same_emits: "io_emitted io' = io_emitted io \<Longrightarrow> emits_more io io'"
  by (simp add: emits_more_def)

text \<open>Evictions and role moves emit nothing.\<close>

lemma moveSocket_emitted [simp]: "io_emitted (moveSocket i join leave io) = io_emitted io"
  by (simp add: moveSocket_def)

lemma fold_emitted: "(\<And>x io. io_emitted (f x io) = io_emitted io) \<Longrightarrow> io_emitted (fold f xs io) = io_emitted io"
  by (induction xs arbitrary: io) simp_all

lemma evict_logins_emitted [simp]: "io_emitted (snd (evict_logins ad sessions ws rooms groups io)) = io_emitted io"
proof (induction groups arbitrary: io)
  case (Cons g groups)
  obtain l xs where g: "g = (l, xs)" by (cases g)
  have f: "io_emitted (fold (evict_socket ws rr held) xs io) = io_emitted io" for rr held
    by (rule fold_emitted) (simp add: evict_socket_def Let_def)
  show ?case by (simp add: g Let_def Cons.IH f split: sum.split)
qed simp

lemma recheck_emitted [simp]: "io_emitted (snd (recheck env ws from rooms login io)) = io_emitted io"
  by (simp add: recheck_def evictUnreadableRooms_def)

lemma leave_emitted [simp]: "io_emitted (snd (leaveWorkspaceRooms env ws u io)) = io_emitted io"
  unfolding leaveWorkspaceRooms_def snd_conv by (rule fold_emitted) simp

lemma evict_parts_emitted [simp]:
  "io_emitted (snd (evictGrantReaders env ws ms io)) = io_emitted io"
  "io_emitted (snd (evictDemotedUser env ws u io)) = io_emitted io"
  "io_emitted (snd (evictRemovedMember env ws s m io)) = io_emitted io"
  "io_emitted (snd (evictNarrowed env ws p io)) = io_emitted io"
  subgoal by (simp add: evictGrantReaders_def Let_def)
  subgoal by (simp add: evictDemotedUser_def split: sum.split option.split)
  subgoal by (simp add: evictRemovedMember_def split: sum.split option.split)
  subgoal by (simp only: evictNarrowed_def Let_def split: option.split) simp
  done

lemma evict_emitted: "evictRevokedRoomsForEvent env e io = Some io' \<Longrightarrow> io_emitted io' = io_emitted io"
  unfolding evictRevokedRoomsForEvent_def map_option_eq_Some Let_def
  by (elim exE conjE, hypsubst) (simp split: option.split)

lemma permission_rooms_emitted: "syncPermissionRooms ws u role io = Inr io1 \<Longrightarrow> io_emitted io1 = io_emitted io"
  by (cases "permissionRoomsFor ws role") (auto simp: syncPermissionRooms_def)

lemma sync_emitted:
  assumes "syncRoleRooms ad e io = Some io'"
  shows "io_emitted io' = io_emitted io"
proof -
  consider "ev_type e = ''workspace_user:updated''" | "ev_type e = ''workspace_user:removed''"
    | "ev_type e \<noteq> ''workspace_user:updated''" "ev_type e \<noteq> ''workspace_user:removed''" by blast
  then show ?thesis
  proof cases
    case 1
    then obtain ws u where h: "(case user_findById (ad_permissions ad) (ad_users ad) ws u of Inl _ \<Rightarrow> None
        | Inr current \<Rightarrow> (case syncPermissionRooms ws u (map_option u_role current) io of Inl _ \<Rightarrow> None | Inr io' \<Rightarrow> Some io')) = Some io'"
      using assms unfolding syncRoleRooms_def Let_def if_P [OF 1] bind_eq_Some_conv by blast
    then obtain role where "syncPermissionRooms ws u role io = Inr io'"
      by (clarsimp split: sum.split_asm)
    then show ?thesis by (blast intro: permission_rooms_emitted)
  next
    case 2
    then obtain ws u where "(case syncPermissionRooms ws u None io of Inl _ \<Rightarrow> None | Inr io' \<Rightarrow> Some io') = Some io'"
      using assms by (simp add: syncRoleRooms_def Let_def bind_eq_Some_conv) blast
    then have "syncPermissionRooms ws u None io = Inr io'" by (simp split: sum.splits)
    then show ?thesis by (rule permission_rooms_emitted)
  next
    case 3
    then show ?thesis using assms by (simp add: syncRoleRooms_def Let_def)
  qed
qed

lemma emits_more_nudges:
  assumes "broadcast_nudges ty p io = Some io'"
  shows "emits_more io io'"
proof (cases "ty \<in> {''stream:delegation_created'', ''stream:delegation_status_changed'', ''stream:bot_access_status_changed''}")
  case True
  obtain c d where "(if ty = ''stream:delegation_created'' then Some (delegation_available p [(''delegationId'', d), (''title'', field ''title'' c)] io)
           else if ty = ''stream:delegation_status_changed'' then
             Some (if js_is (field ''status'' c) ''open'' \<and> truthy d then delegation_available p [(''delegationId'', d)] io else io)
           else Some (if js_is (field ''status'' c) ''approved'' \<and> truthy d
               then delegation_available p [(''delegationId'', d), (''title'', field ''delegationTitle'' c)] io else io)) = Some io'"
    using assms unfolding broadcast_nudges_def if_P [OF True] bind_eq_Some_conv by blast
  then show ?thesis unfolding delegation_available_def
    by (simp only: option.inject split: if_split_asm) (use emits_intro in blast)+
next
  case False
  then show ?thesis using assms by (simp add: broadcast_nudges_def emits_more_refl)
qed

lemma emits_more_groups: "emitToGroups ty p gs n io = Some io' \<Longrightarrow> emits_more io io'"
  by (auto simp: emitToGroups_def emits_intro split: if_splits)

lemma emits_more_bot: "dispatchBotEvent e io = Some io' \<Longrightarrow> emits_more io io'"
proof -
  have "emits_more io (emit_parsed sch n room p io)" for sch n room p by (simp add: emit_parsed_def emits_intro split: option.split)
  moreover have "emits_more io (fold (\<lambda>b. io_emit bot_ns [bot_room ws b] ty p) ids io)" for ws ids ty p
    by (rule emits_more_fold) (rule emits_more_emit)
  ultimately show "dispatchBotEvent e io = Some io' \<Longrightarrow> emits_more io io'"
    by (auto simp: dispatchBotEvent_def Let_def bind_eq_Some_conv emits_intro split: if_splits)
qed

lemma broadcastEvent_emits:
  assumes "broadcastEvent e r io = Some io'"
  shows "emits_more io io'"
    and "r = Some re \<Longrightarrow> re_groups re = Some gs \<Longrightarrow> \<exists>io1. emitToGroups (ev_type e) (ev_payload e) gs (re_syncId re) io = Some io1 \<and> emits_more io1 io'"
proof -
  have part: "\<exists>io1. emitToGroups (ev_type e) (ev_payload e) gs (Option.bind r re_syncId) io = Some io1 \<and> emits_more io1 io'"
    if route: "(case r of None \<Rightarrow> resolveDeliveryGroups e | Some x \<Rightarrow> Some (re_groups x)) = Some (Some gs)" for gs
  proof -
    obtain io1 io2 where i: "emitToGroups (ev_type e) (ev_payload e) gs (Option.bind r re_syncId) io = Some io1"
      "(if ev_type e = ''call:transport_transfer_changed''
        then map_option (\<lambda>callId. io_emit CALLS_NAMESPACE [callRoom (js_string callId)] (ev_type e) (ev_payload e) io1) (jget ''callId'' (ev_payload e))
        else Some io1) = Some io2" "broadcast_nudges (ev_type e) (ev_payload e) io2 = Some io'"
      using assms unfolding broadcastEvent_def route Option.bind.simps option.case unfolding bind_eq_Some_conv by blast
    then have "emits_more io1 io2" by (auto simp: emits_intro split: if_splits)
    then show ?thesis using i emits_more_nudges emits_more_trans by blast
  qed
  show "r = Some re \<Longrightarrow> re_groups re = Some gs \<Longrightarrow> \<exists>io1. emitToGroups (ev_type e) (ev_payload e) gs (re_syncId re) io = Some io1 \<and> emits_more io1 io'"
    using part [of gs] by simp
  obtain g where g: "(case r of None \<Rightarrow> resolveDeliveryGroups e | Some x \<Rightarrow> Some (re_groups x)) = Some g"
    using assms by (auto simp: broadcastEvent_def bind_eq_Some_conv)
  show "emits_more io io'"
  proof (cases g)
    case None
    then have "dispatchBotEvent e io = Some io'" using assms g by (simp add: broadcastEvent_def)
    then show ?thesis by (rule emits_more_bot)
  next
    case (Some gs)
    then show ?thesis using part [of gs] g emits_more_groups emits_more_trans by blast
  qed
qed

text \<open>The pointer hints of the messaging feature are emitted like everything else.\<close>

definition only_emits :: "BroadcastEnv \<Rightarrow> bool" where
  "only_emits env \<longleftrightarrow> (\<forall>e io io'. be_invalidate env e io = Some io' \<longrightarrow> emits_more io io')"

lemma broadcast_one_emits:
  assumes "only_emits env" and "broadcast_one env routed e io = (ok, io')"
  shows "emits_more io io'"
    and "ok \<Longrightarrow> map_of routed (ev_id e) = Some \<lparr>re_groups = Some gs, re_syncId = n\<rparr> \<Longrightarrow>
      \<exists>io1 io2. emits_more io io1 \<and> emitToGroups (ev_type e) (ev_payload e) gs n io1 = Some io2 \<and> emits_more io2 io'"
proof -
  have inv: "be_invalidate env e a = Some b \<Longrightarrow> emits_more a b" for a b using assms(1) by (simp add: only_emits_def)
  show "emits_more io io'"
  proof (cases "syncRoleRooms (ee_ad (be_evict env)) e io")
    case (Some io1)
    note s = same_emits [OF sync_emitted [OF Some]]
    show ?thesis
    proof (cases "broadcastEvent e (map_of routed (ev_id e)) io1")
      case None
      then show ?thesis using assms(2) s Some by (simp add: broadcast_one_def)
    next
      case b: (Some io2)
      note s = emits_more_trans [OF s broadcastEvent_emits(1) [OF b]]
      show ?thesis
      proof (cases "be_invalidate env e io2")
        case None
        then show ?thesis using assms(2) s Some b by (simp add: broadcast_one_def)
      next
        case i: (Some io3)
        note s = emits_more_trans [OF s inv [OF i]]
        show ?thesis
        proof (cases "evictRevokedRoomsForEvent (be_evict env) e io3")
          case None
          then show ?thesis using assms(2) s Some b i by (simp add: broadcast_one_def)
        next
          case v: (Some io4)
          then show ?thesis using assms(2) emits_more_trans [OF s same_emits [OF evict_emitted [OF v]]] Some b i by (simp add: broadcast_one_def)
        qed
      qed
    qed
  qed (use assms(2) in \<open>simp add: broadcast_one_def emits_more_refl\<close>)
  assume ok: ok and m: "map_of routed (ev_id e) = Some \<lparr>re_groups = Some gs, re_syncId = n\<rparr>"
  then obtain io1 io2 io3 where i: "syncRoleRooms (ee_ad (be_evict env)) e io = Some io1"
    "broadcastEvent e (Some \<lparr>re_groups = Some gs, re_syncId = n\<rparr>) io1 = Some io2" "be_invalidate env e io2 = Some io3"
    "evictRevokedRoomsForEvent (be_evict env) e io3 = Some io'"
    using assms(2) by (auto simp: broadcast_one_def split: option.splits)
  obtain io4 where "emitToGroups (ev_type e) (ev_payload e) gs n io1 = Some io4" "emits_more io4 io2"
    using broadcastEvent_emits(2) [OF i(2) refl, of gs] by auto
  then show "\<exists>io1 io2. emits_more io io1 \<and> emitToGroups (ev_type e) (ev_payload e) gs n io1 = Some io2 \<and> emits_more io2 io'"
    using sync_emitted [OF i(1), THEN same_emits] inv [OF i(3)] evict_emitted [OF i(4), THEN same_emits] emits_more_trans by blast
qed

section \<open>What is emitted was logged\<close>

fun result_ids :: "ProcessResult \<Rightarrow> int list" where
  "result_ids (Res_processed seen) = seen"
| "result_ids (Res_error _ (Some seen)) = seen"
| "result_ids _ = []"

definition emits_row :: "OutboxEvent \<Rightarrow> SyncLogRow \<Rightarrow> Emit \<Rightarrow> bool" where
  "emits_row e l m \<longleftrightarrow> em_namespace m = ''/'' \<and> em_event m = ev_type e \<and>
    (\<exists>ws. jget ''workspaceId'' (ev_payload e) = Some (JStr ws) \<and> em_rooms m = map (groupToRoom ws) (sl_groups l)) \<and>
    em_payload m = spread_with ''syncId'' (JStr (int_digits (sl_syncId l))) (ev_payload e)"

lemma emitToGroups_row:
  assumes "emitToGroups (ev_type e) (ev_payload e) (sl_groups l) (Some (sl_syncId l)) io = Some io'"
    and "loggable e" "1 \<le> sl_syncId l" "sl_groups l \<noteq> []"
  obtains m where "io_emitted io' = io_emitted io @ [m]" "emits_row e l m"
  using assms by (auto simp: emitToGroups_def emits_row_def loggable_def io_emit_def)

lemma broadcast_one_row:
  assumes oe: "only_emits env" and one: "broadcast_one env routed e io = (True, io')" and lg: "loggable e"
    and m: "map_of routed (ev_id e) = Some \<lparr>re_groups = Some (sl_groups l), re_syncId = Some (sl_syncId l)\<rparr>"
    and pos: "1 \<le> sl_syncId l" and ne: "sl_groups l \<noteq> []"
  shows "\<exists>ms m. io_emitted io' = io_emitted io @ ms \<and> m \<in> set ms \<and> emits_row e l m"
proof -
  obtain io1 io2 where i: "emits_more io io1" "emitToGroups (ev_type e) (ev_payload e) (sl_groups l) (Some (sl_syncId l)) io1 = Some io2"
    "emits_more io2 io'"
    using broadcast_one_emits(2) [OF oe one _ m] by blast
  obtain m where "io_emitted io2 = io_emitted io1 @ [m]" "emits_row e l m" using emitToGroups_row [OF i(2) lg pos ne] by blast
  then show ?thesis using i(1,3) by (fastforce simp: emits_more_def)
qed

lemma broadcast_all_rows:
  assumes oe: "only_emits env" and all: "broadcast_all env routed es seen io = (io', seen', ok)"
    and rows: "\<And>e. e \<in> set es \<Longrightarrow> loggable e \<Longrightarrow> \<exists>l\<in>set logged. sl_outboxEventId l = ev_id e \<and> 1 \<le> sl_syncId l \<and>
      map_of routed (ev_id e) = Some \<lparr>re_groups = Some (sl_groups l), re_syncId = Some (sl_syncId l)\<rparr>"
  shows "\<exists>k ms. io_emitted io' = io_emitted io @ ms \<and> seen' = seen @ map ev_id (take k es) \<and> (ok \<longrightarrow> take k es = es) \<and>
    (\<forall>e\<in>set (take k es). loggable e \<longrightarrow> (\<exists>l\<in>set logged. sl_outboxEventId l = ev_id e \<and> (sl_groups l = [] \<or> (\<exists>m\<in>set ms. emits_row e l m))))"
  using all rows
proof (induction es arbitrary: seen io)
  case (Cons e es)
  obtain b io1 where one: "broadcast_one env routed e io = (b, io1)" by force
  obtain ms1 where ms1: "io_emitted io1 = io_emitted io @ ms1" using broadcast_one_emits(1) [OF oe one] by (auto simp: emits_more_def)
  show ?case
  proof (cases b)
    case False
    then show ?thesis using Cons.prems(1) one ms1 by (intro exI [of _ 0] exI [of _ ms1]) auto
  next
    case True
    then have r: "broadcast_all env routed es (seen @ [ev_id e]) io1 = (io', seen', ok)" using Cons.prems(1) one by simp
    obtain k ms where ih: "io_emitted io' = io_emitted io1 @ ms" "seen' = (seen @ [ev_id e]) @ map ev_id (take k es)" "ok \<longrightarrow> take k es = es"
      "\<forall>e\<in>set (take k es). loggable e \<longrightarrow> (\<exists>l\<in>set logged. sl_outboxEventId l = ev_id e \<and> (sl_groups l = [] \<or> (\<exists>m\<in>set ms. emits_row e l m)))"
      using Cons.IH [OF r Cons.prems(2)] list.set_intros(2) [of _ es e] by blast
    have head: "\<exists>l\<in>set logged. sl_outboxEventId l = ev_id e \<and> (sl_groups l = [] \<or> (\<exists>m\<in>set (ms1 @ ms). emits_row e l m))" if lg: "loggable e"
    proof -
      obtain l where l: "l \<in> set logged" "sl_outboxEventId l = ev_id e" "1 \<le> sl_syncId l"
        "map_of routed (ev_id e) = Some \<lparr>re_groups = Some (sl_groups l), re_syncId = Some (sl_syncId l)\<rparr>"
        using Cons.prems(2) [OF _ lg] by auto
      show ?thesis
      proof (cases "sl_groups l = []")
        case False
        then obtain m where "m \<in> set ms1" "emits_row e l m"
          using broadcast_one_row [OF oe _ lg l(4,3)] one True ms1 by fastforce
        then show ?thesis using l by auto
      qed (use l in blast)
    qed
    show ?thesis
      using head ih ms1 by (intro exI [of _ "Suc k"] exI [of _ "ms1 @ ms"]) (fastforce simp: Ball_def)
  qed
qed auto

text \<open>
  C28.  The broadcast handler writes the log before it emits, and emits what it logged.  When a batch emitted or
  finished anything, every loggable event of it has its row in the sync log; and each loggable event that the
  batch reports as processed was emitted to the rooms of the row's groups, carrying the row's sync id.
\<close>

theorem broadcast_emits_what_is_logged:
  assumes "sync_wf (bs_sync x)" and "only_emits env"
    and "broadcast_processor env n db x cursor ids = (db', x', result)"
    and "events = fetchAfterId db cursor n ids"
  shows "\<exists>k ms. io_emitted (bs_io x') = io_emitted (bs_io x) @ ms \<and> result_ids result = map ev_id (take k events) \<and>
    (ms \<noteq> [] \<or> result_ids result \<noteq> [] \<longrightarrow> (\<forall>e\<in>set events. loggable e \<longrightarrow> ev_id e \<in> logged_ids (bs_sync x'))) \<and>
    (\<forall>e\<in>set (take k events). loggable e \<longrightarrow> (\<exists>l\<in>set (sync_log (bs_sync x')). sl_outboxEventId l = ev_id e \<and>
       (sl_groups l = [] \<or> (\<exists>m\<in>set ms. emits_row e l m))))"
proof (cases "events = []")
  case True
  then show ?thesis using assms(3,4) by (auto simp: broadcast_processor_def intro!: exI [of _ 0])
next
  case ne: False
  obtain sync r where s: "sequenceEvents env events (bs_sync x) = (sync, r)" by force
  show ?thesis
  proof (cases r)
    case (Inl err)
    then show ?thesis using assms(3,4) ne s by (auto simp: broadcast_processor_def Let_def intro!: exI [of _ 0])
  next
    case (Inr routed)
    note seq = sequenceEvents_ok [OF s [unfolded Inr] assms(1)]
    obtain io seen ok where b: "broadcast_all env routed events [] (bs_io x) = (io, seen, ok)" by (metis prod_cases3)
    have x': "x' = \<lparr>bs_sync = sync, bs_io = io\<rparr>" "result_ids result = seen"
      using assms(3,4) ne s Inr b by (auto simp: broadcast_processor_def Let_def split: bool.splits if_splits)
    have pos: "l \<in> set (sync_log sync) \<Longrightarrow> 1 \<le> sl_syncId l" for l using seq(1) by (simp add: sync_wf_def)
    obtain k ms where "io_emitted io = io_emitted (bs_io x) @ ms" "seen = [] @ map ev_id (take k events)"
      "\<forall>e\<in>set (take k events). loggable e \<longrightarrow> (\<exists>l\<in>set (sync_log sync). sl_outboxEventId l = ev_id e \<and> (sl_groups l = [] \<or> (\<exists>m\<in>set ms. emits_row e l m)))"
      using broadcast_all_rows [OF assms(2) b, of "sync_log sync"] seq(3) pos by (metis (no_types, lifting))
    moreover have "\<forall>e\<in>set events. loggable e \<longrightarrow> ev_id e \<in> logged_ids sync" using seq(3) by (force simp: logged_ids_def)
    ultimately show ?thesis unfolding x' by (intro exI [of _ k] exI [of _ ms]) simp
  qed
qed

definition ex_broadcast_env :: BroadcastEnv where
  "ex_broadcast_env = \<lparr>be_evict = \<lparr>ee_ad = ex_access, ee_sessions = [], ee_answered = True, ee_node = ''n1''\<rparr>, be_now = 100,
     be_invalidate = (\<lambda>e io. Some io)\<rparr>"

definition ex_outbox :: OutboxDb where
  "ex_outbox = (ex_db [] (ex_row 0 []))\<lparr>outbox := [ex_straggler 7 50]\<rparr>"

definition ex_broadcast :: "OutboxDb \<times> BroadcastState \<times> ProcessResult" where
  "ex_broadcast = broadcast_processor ex_broadcast_env 100 ex_outbox \<lparr>bs_sync = empty_sync, bs_io = \<lparr>io_sockets = [], io_emitted = []\<rparr>\<rparr> 0 []"

theorem broadcast_emits_what_is_logged_witness:
  "snd (snd ex_broadcast) = Res_processed [7] \<and>
   (\<exists>l\<in>set (sync_log (bs_sync (fst (snd ex_broadcast)))). sl_outboxEventId l = 7 \<and>
     (\<exists>m\<in>set (io_emitted (bs_io (fst (snd ex_broadcast)))). em_rooms m = [''ws:ws:stream:general''] \<and> emits_row (ex_straggler 7 50) l m))"
proof -
  let ?x = "\<lparr>bs_sync = empty_sync, bs_io = \<lparr>io_sockets = [], io_emitted = []\<rparr>\<rparr>"
  let ?x' = "fst (snd ex_broadcast)"
  have res: "snd (snd ex_broadcast) = Res_processed [7]" by code_simp
  have rooms: "map sl_groups (sync_log (bs_sync ?x')) = [[''stream:general'']]" by code_simp
  have emitted: "map em_rooms (io_emitted (bs_io ?x')) = [[''ws:ws:stream:general'']]" by code_simp
  have ev: "fetchAfterId ex_outbox 0 100 [] = [ex_straggler 7 50]" by code_simp
  have gr: "resolveDeliveryGroups (ex_straggler 7 50) = Some (Some [''stream:general''])" by code_simp
  have lg: "loggable (ex_straggler 7 50)"
    unfolding loggable_def gr by (simp add: ex_straggler_def SYNC_LOG_EXCLUDED_EVENT_TYPES_def)
  have oe: "only_emits ex_broadcast_env" by (simp add: only_emits_def ex_broadcast_env_def emits_more_refl)
  have p: "broadcast_processor ex_broadcast_env 100 ex_outbox ?x 0 [] = (fst ex_broadcast, ?x', snd (snd ex_broadcast))"
    by (simp add: ex_broadcast_def)
  have wf: "sync_wf (bs_sync ?x)" by (simp add: sync_wf_empty)
  obtain k ms where k: "io_emitted (bs_io ?x') = [] @ ms" "result_ids (snd (snd ex_broadcast)) = map ev_id (take k [ex_straggler 7 50])"
    "\<forall>e\<in>set (take k [ex_straggler 7 50]). loggable e \<longrightarrow> (\<exists>l\<in>set (sync_log (bs_sync ?x')). sl_outboxEventId l = ev_id e \<and>
       (sl_groups l = [] \<or> (\<exists>m\<in>set ms. emits_row e l m)))"
    using broadcast_emits_what_is_logged [OF wf oe p ev [symmetric]] by auto
  have id: "ev_id (ex_straggler 7 50) = 7" by (simp add: ex_straggler_def)
  from k have "ex_straggler 7 50 \<in> set (take k [ex_straggler 7 50])" using res by (cases k) auto
  then obtain l where l: "l \<in> set (sync_log (bs_sync ?x'))" "sl_outboxEventId l = 7" "sl_groups l = [] \<or> (\<exists>m\<in>set ms. emits_row (ex_straggler 7 50) l m)"
    using k(3) lg id by fastforce
  then have "sl_groups l = [''stream:general'']" using rooms by (auto simp: map_eq_Cons_conv)
  moreover have "m \<in> set ms \<Longrightarrow> em_rooms m = [''ws:ws:stream:general'']" for m using emitted k(1) by (auto simp: map_eq_Cons_conv)
  ultimately show ?thesis using l k(1) res by auto
qed

end
