(* ===== verification/Stream_Events.thy ===== *)
theory Stream_Events
  imports Threa_Prelude Json
begin

text \<open>
  \<^verbatim>\<open>apps/backend/src/features/streams/event-repository.ts\<close>: the event log of each stream and the two counters that number
  it.  Every event takes the next \<open>sequence\<close> of its stream; the events every member sees as rows of the timeline
  also take the next \<open>broadcastSequence\<close>.  The statements of this repository are the only ones that write the two
  tables.  A statement that would break a unique index raises, which undoes the caller's transaction.
\<close>

section \<open>Event types\<close>

definition COMMAND_EVENT_TYPES :: "string list" where
  "COMMAND_EVENT_TYPES = [''command_dispatched'', ''command_progress'', ''command_completed'', ''command_failed'']"

definition AUTHOR_SCOPED_EVENT_TYPES :: "string list" where
  "AUTHOR_SCOPED_EVENT_TYPES = COMMAND_EVENT_TYPES @ [''aside:anchored'']"

definition TIMELINE_BROADCAST_EVENT_TYPES :: "string list" where
  "TIMELINE_BROADCAST_EVENT_TYPES =
    [''message_created'', ''stream_archived'', ''stream_unarchived'', ''member_joined'', ''member_added'', ''member_left'',
     ''description_set'', ''agent_session:started'', ''agent_session:completed'', ''agent_session:failed'',
     ''agent_session:interrupted'', ''agent_session:deleted'', ''messages:moved'', ''memos:captured'',
     ''agent:follow_up_scheduled'', ''brief_updated'', ''delegation:created'', ''subagent:created'', ''bot_access:requested'',
     ''decision:requested'', ''call_started'', ''doc:created'', ''doc:activity'', ''doc:moved'']"

definition isTimelineBroadcastEventType :: "string \<Rightarrow> bool" where
  "isTimelineBroadcastEventType eventType \<longleftrightarrow> eventType \<in> set TIMELINE_BROADCAST_EVENT_TYPES"

definition AGENT_SESSION_EVENT_TYPES :: "string list" where
  "AGENT_SESSION_EVENT_TYPES =
    [''agent_session:started'', ''agent_session:completed'', ''agent_session:failed'', ''agent_session:interrupted'', ''agent_session:deleted'']"

section \<open>Tables\<close>

record StreamEventRow =
  sv_id :: string
  sv_workspaceId :: string
  sv_streamId :: string
  sv_sequence :: int
  sv_broadcastSequence :: "int option"
  sv_eventType :: string
  sv_payload :: json
  sv_actorId :: "string option"
  sv_actorType :: "string option"
  sv_createdAt :: timestamp

record StreamEvent =
  sw_id :: string
  sw_streamId :: string
  sw_sequence :: int
  sw_broadcastSequence :: "int option"
  sw_eventType :: string
  sw_payload :: json
  sw_actorId :: "string option"
  sw_actorType :: "string option"
  sw_createdAt :: timestamp

definition mapRowToEvent :: "StreamEventRow \<Rightarrow> StreamEvent" where
  "mapRowToEvent r = \<lparr>sw_id = sv_id r, sw_streamId = sv_streamId r, sw_sequence = sv_sequence r,
     sw_broadcastSequence = sv_broadcastSequence r, sw_eventType = sv_eventType r, sw_payload = sv_payload r,
     sw_actorId = sv_actorId r, sw_actorType = sv_actorType r, sw_createdAt = sv_createdAt r\<rparr>"

record SequenceRow =
  sq_workspaceId :: string
  sq_streamId :: string
  sq_nextSequence :: int
  sq_nextBroadcastSequence :: int

record EventDb =
  stream_events :: "StreamEventRow table"
  stream_sequences :: "SequenceRow table"

definition of_stream :: "string \<Rightarrow> string \<Rightarrow> StreamEventRow \<Rightarrow> bool" where
  "of_stream ws st r \<longleftrightarrow> sv_workspaceId r = ws \<and> sv_streamId r = st"

definition counter_of :: "string \<Rightarrow> string \<Rightarrow> SequenceRow \<Rightarrow> bool" where
  "counter_of ws st q \<longleftrightarrow> sq_workspaceId q = ws \<and> sq_streamId q = st"

text \<open>The primary key and the two unique indexes, the second of which ignores nulls.\<close>

definition events_unique :: "StreamEventRow table \<Rightarrow> bool" where
  "events_unique rows \<longleftrightarrow>
    distinct (map (\<lambda>r. (sv_workspaceId r, sv_id r)) rows) \<and>
    distinct (map (\<lambda>r. (sv_workspaceId r, sv_streamId r, sv_sequence r)) rows) \<and>
    distinct (map (\<lambda>r. (sv_workspaceId r, sv_streamId r, the (sv_broadcastSequence r))) (filter (\<lambda>r. sv_broadcastSequence r \<noteq> None) rows))"

datatype event_error = Mixed_streams | Unique_violation

section \<open>Numbering\<close>

definition allocateSequences :: "EventDb \<Rightarrow> string \<Rightarrow> string \<Rightarrow> int \<Rightarrow> int \<Rightarrow> EventDb \<times> int \<times> int" where
  "allocateSequences db ws st n nb =
    (case find (counter_of ws st) (stream_sequences db) of
       None \<Rightarrow>
         (db\<lparr>stream_sequences := stream_sequences db @
            [\<lparr>sq_workspaceId = ws, sq_streamId = st, sq_nextSequence = n + 1, sq_nextBroadcastSequence = nb + 1\<rparr>]\<rparr>,
          n + 1 - n, nb + 1 - nb)
     | Some q \<Rightarrow>
         (db\<lparr>stream_sequences := sql_update (counter_of ws st) (\<lambda>q. q\<lparr>sq_nextSequence := sq_nextSequence q + n,
              sq_nextBroadcastSequence := sq_nextBroadcastSequence q + nb\<rparr>) (stream_sequences db)\<rparr>,
          sq_nextSequence q + n - n, sq_nextBroadcastSequence q + nb - nb))"

definition getNextSequencePairs :: "EventDb \<Rightarrow> string \<Rightarrow> string \<Rightarrow> int \<Rightarrow> EventDb \<times> (int \<times> int) list" where
  "getNextSequencePairs db ws st n =
    (if n \<le> 0 then (db, [])
     else case allocateSequences db ws st n n of
       (db', firstSequence, firstBroadcastSequence) \<Rightarrow>
         (db', map (\<lambda>i. (firstSequence + int i, firstBroadcastSequence + int i)) [0..<nat n]))"

record InsertEventParams =
  ie_id :: string
  ie_workspaceId :: string
  ie_streamId :: string
  ie_eventType :: string
  ie_payload :: json
  ie_actorId :: "string option"
  ie_actorType :: "string option"
  ie_createdAt :: "timestamp option"

definition add_events :: "StreamEventRow list \<Rightarrow> EventDb \<Rightarrow> event_error + (EventDb \<times> StreamEvent list)" where
  "add_events rows db =
    (if events_unique (stream_events db @ rows)
     then Inr (db\<lparr>stream_events := stream_events db @ rows\<rparr>, map mapRowToEvent rows) else Inl Unique_violation)"

definition event_insert :: "timestamp \<Rightarrow> InsertEventParams \<Rightarrow> EventDb \<Rightarrow> event_error + (EventDb \<times> StreamEvent)" where
  "event_insert now p db =
    (let isBroadcast = isTimelineBroadcastEventType (ie_eventType p);
         (db', firstSequence, firstBroadcastSequence) =
           allocateSequences db (ie_workspaceId p) (ie_streamId p) 1 (if isBroadcast then 1 else 0);
         row = \<lparr>sv_id = ie_id p, sv_workspaceId = ie_workspaceId p, sv_streamId = ie_streamId p, sv_sequence = firstSequence,
                sv_broadcastSequence = (if isBroadcast then Some firstBroadcastSequence else None), sv_eventType = ie_eventType p,
                sv_payload = ie_payload p, sv_actorId = ie_actorId p, sv_actorType = ie_actorType p,
                sv_createdAt = (case ie_createdAt p of Some t \<Rightarrow> t | None \<Rightarrow> now)\<rparr>
     in map_sum id (\<lambda>(db, es). (db, hd es)) (add_events [row] db'))"

text \<open>Broadcast slots are handed out in list order; \<open>dbNow\<close> is the default of \<open>created_at\<close>.\<close>

fun number_events :: "timestamp \<Rightarrow> int \<Rightarrow> int \<Rightarrow> InsertEventParams list \<Rightarrow> StreamEventRow list" where
  "number_events dbNow s b [] = []"
| "number_events dbNow s b (p # ps) =
    (let isBroadcast = isTimelineBroadcastEventType (ie_eventType p)
     in \<lparr>sv_id = ie_id p, sv_workspaceId = ie_workspaceId p, sv_streamId = ie_streamId p, sv_sequence = s,
         sv_broadcastSequence = (if isBroadcast then Some b else None), sv_eventType = ie_eventType p, sv_payload = ie_payload p,
         sv_actorId = ie_actorId p, sv_actorType = ie_actorType p, sv_createdAt = dbNow\<rparr> #
        number_events dbNow (s + 1) (if isBroadcast then b + 1 else b) ps)"

definition event_insertMany :: "timestamp \<Rightarrow> InsertEventParams list \<Rightarrow> EventDb \<Rightarrow> event_error + (EventDb \<times> StreamEvent list)" where
  "event_insertMany dbNow ps db =
    (case ps of
       [] \<Rightarrow> Inr (db, [])
     | p # _ \<Rightarrow>
         if \<exists>q\<in>set ps. ie_streamId q \<noteq> ie_streamId p \<or> ie_workspaceId q \<noteq> ie_workspaceId p then Inl Mixed_streams
         else (case allocateSequences db (ie_workspaceId p) (ie_streamId p) (int (length ps))
                 (int (length (filter (\<lambda>p. isTimelineBroadcastEventType (ie_eventType p)) ps))) of
                 (db', firstSequence, firstBroadcastSequence) \<Rightarrow>
                   add_events (number_events dbNow firstSequence firstBroadcastSequence ps) db'))"

section \<open>Relocating events\<close>

record MoveEventSequenceUpdate =
  mu_key :: string  \<comment> \<open>\<open>messageId\<close>, or \<open>eventId\<close> for \<open>MoveEventIdSequenceUpdate\<close>\<close>
  mu_sequence :: int
  mu_broadcastSequence :: int

definition find_update :: "MoveEventSequenceUpdate list \<Rightarrow> string option \<Rightarrow> MoveEventSequenceUpdate option" where
  "find_update us key = find (\<lambda>u. Some (mu_key u) = key) us"

definition renumber :: "string \<Rightarrow> MoveEventSequenceUpdate \<Rightarrow> StreamEventRow \<Rightarrow> StreamEventRow" where
  "renumber dest u r = r\<lparr>sv_streamId := dest, sv_sequence := mu_sequence u, sv_broadcastSequence := Some (mu_broadcastSequence u)\<rparr>"

definition update_events ::
  "(StreamEventRow \<Rightarrow> bool) \<Rightarrow> (StreamEventRow \<Rightarrow> StreamEventRow) \<Rightarrow> EventDb \<Rightarrow> event_error + (EventDb \<times> StreamEvent list)" where
  "update_events p f db =
    (if events_unique (sql_update p f (stream_events db))
     then Inr (db\<lparr>stream_events := sql_update p f (stream_events db)\<rparr>, map (\<lambda>r. mapRowToEvent (f r)) (filter p (stream_events db)))
     else Inl Unique_violation)"

definition is_message :: "StreamEventRow \<Rightarrow> bool" where
  "is_message r \<longleftrightarrow> sv_eventType r = ''message_created''"

definition message_id_of :: "StreamEventRow \<Rightarrow> string option" where
  "message_id_of r = json_text ''messageId'' (sv_payload r)"

text \<open>\<open>movedFrom\<close>: the object stamped on each relocated message.\<close>

definition moveMessageCreatedEvents ::
  "string \<Rightarrow> string \<Rightarrow> string \<Rightarrow> MoveEventSequenceUpdate list \<Rightarrow> json \<Rightarrow> EventDb \<Rightarrow> event_error + (EventDb \<times> StreamEvent list)" where
  "moveMessageCreatedEvents ws source dest us movedFrom db =
    (if us = [] then Inr (db, [])
     else update_events (\<lambda>r. of_stream ws source r \<and> is_message r \<and> find_update us (message_id_of r) \<noteq> None)
            (\<lambda>r. (renumber dest (the (find_update us (message_id_of r))) r)\<lparr>sv_payload := put_field ''movedFrom'' movedFrom (sv_payload r)\<rparr>) db)"

definition moveEventsById ::
  "string \<Rightarrow> string \<Rightarrow> string \<Rightarrow> MoveEventSequenceUpdate list \<Rightarrow> EventDb \<Rightarrow> event_error + (EventDb \<times> StreamEvent list)" where
  "moveEventsById ws source dest us db =
    (if us = [] then Inr (db, [])
     else update_events (\<lambda>r. of_stream ws source r \<and> find_update us (Some (sv_id r)) \<noteq> None)
            (\<lambda>r. renumber dest (the (find_update us (Some (sv_id r)))) r) db)"


section \<open>Reading a stream\<close>

definition EVENTS_DEFAULT_LIMIT :: int where "EVENTS_DEFAULT_LIMIT = 50"

text \<open>\<open>event_type != ALL(author-scoped) OR actor_id = viewer\<close>; a null actor is nobody.\<close>

definition viewer_sees :: "string \<Rightarrow> StreamEventRow \<Rightarrow> bool" where
  "viewer_sees viewerId r \<longleftrightarrow> sv_eventType r \<notin> set AUTHOR_SCOPED_EVENT_TYPES \<or> sv_actorId r = Some viewerId"

text \<open>The newest rows first, as \<open>ORDER BY sequence DESC LIMIT n\<close> gives them.\<close>

definition newest :: "int \<Rightarrow> StreamEventRow table \<Rightarrow> StreamEventRow list" where
  "newest n rows = order_limit (\<lambda>r. - sv_sequence r) n rows"

definition projection_patch_types :: "string list" where
  "projection_patch_types = [''message_edited'', ''message_deleted'', ''reaction_added'', ''reaction_removed'']"

definition getLatestSequence :: "EventDb \<Rightarrow> string \<Rightarrow> string \<Rightarrow> int option" where
  "getLatestSequence db ws st = (case newest 1 (filter (of_stream ws st) (stream_events db)) of [] \<Rightarrow> None | r # _ \<Rightarrow> Some (sv_sequence r))"

record PreviewWindow =
  pw_events :: "StreamEvent list"
  pw_hasOlderEvents :: bool
  pw_latestSequence :: "int option"

definition preview_window :: "EventDb \<Rightarrow> string \<Rightarrow> string \<Rightarrow> string \<Rightarrow> PreviewWindow" where
  "preview_window db ws viewerId st =
    (let rows = newest (EVENTS_DEFAULT_LIMIT + 1)
           (filter (\<lambda>r. of_stream ws st r \<and> viewer_sees viewerId r \<and> sv_eventType r \<notin> set projection_patch_types) (stream_events db))
     in \<lparr>pw_events = rev (map mapRowToEvent (take (nat EVENTS_DEFAULT_LIMIT) rows)),
         pw_hasOlderEvents = (length rows > nat EVENTS_DEFAULT_LIMIT), pw_latestSequence = getLatestSequence db ws st\<rparr>)"

text \<open>The requested ids are distinct.\<close>

definition listPreviewWindows :: "EventDb \<Rightarrow> string \<Rightarrow> string list \<Rightarrow> string \<Rightarrow> (string \<times> PreviewWindow) list" where
  "listPreviewWindows db ws streamIds viewerId = map (\<lambda>st. (st, preview_window db ws viewerId st)) streamIds"

definition listHeadSequences :: "EventDb \<Rightarrow> string \<Rightarrow> string list \<Rightarrow> (string \<times> int) list" where
  "listHeadSequences db ws streamIds =
    map (\<lambda>q. (sq_streamId q, sq_nextSequence q - 1))
      (filter (\<lambda>q. sq_workspaceId q = ws \<and> sq_streamId q \<in> set streamIds) (stream_sequences db))"

record EventFilters =
  ef_types :: "string list option"
  ef_afterSequence :: "int option"
  ef_beforeSequence :: "int option"
  ef_limit :: "int option"
  ef_viewerId :: "string option"
  ef_actorId :: "string option"

definition no_filters :: EventFilters where
  "no_filters = \<lparr>ef_types = None, ef_afterSequence = None, ef_beforeSequence = None, ef_limit = None, ef_viewerId = None, ef_actorId = None\<rparr>"

text \<open>The empty list of types, the empty actor and the empty viewer filter nothing.\<close>

definition passes :: "EventFilters \<Rightarrow> StreamEventRow \<Rightarrow> bool" where
  "passes f r \<longleftrightarrow>
    (case ef_afterSequence f of None \<Rightarrow> True | Some a \<Rightarrow> a < sv_sequence r) \<and>
    (case ef_beforeSequence f of None \<Rightarrow> True | Some b \<Rightarrow> sv_sequence r < b) \<and>
    (case ef_types f of None \<Rightarrow> True | Some ts \<Rightarrow> ts = [] \<or> sv_eventType r \<in> set ts) \<and>
    (case ef_actorId f of None \<Rightarrow> True | Some a \<Rightarrow> a = [] \<or> sv_actorId r = Some a) \<and>
    (case ef_viewerId f of None \<Rightarrow> True | Some v \<Rightarrow> v = [] \<or> viewer_sees v r)"

definition event_list :: "EventDb \<Rightarrow> string \<Rightarrow> string \<Rightarrow> EventFilters \<Rightarrow> StreamEvent list" where
  "event_list db ws st f =
    (let rows = filter (\<lambda>r. of_stream ws st r \<and> passes f r) (stream_events db);
         limit = (case ef_limit f of None \<Rightarrow> EVENTS_DEFAULT_LIMIT | Some n \<Rightarrow> n)
     in map mapRowToEvent (if ef_afterSequence f \<noteq> None then order_limit sv_sequence limit rows else rev (newest limit rows)))"

record EventWindow =
  ew_events :: "StreamEvent list"
  ew_hasOlder :: bool
  ew_hasNewer :: bool

definition listAround :: "EventDb \<Rightarrow> string \<Rightarrow> string \<Rightarrow> int \<Rightarrow> int option \<Rightarrow> string option \<Rightarrow> EventWindow" where
  "listAround db ws st targetSequence limit viewerId =
    (let half = max (case limit of None \<Rightarrow> EVENTS_DEFAULT_LIMIT | Some n \<Rightarrow> n) 2 div 2;
         olderEvents = event_list db ws st (no_filters\<lparr>ef_beforeSequence := Some (targetSequence + 1), ef_limit := Some (half + 1), ef_viewerId := viewerId\<rparr>);
         newerEvents = event_list db ws st (no_filters\<lparr>ef_afterSequence := Some targetSequence, ef_limit := Some (half + 1), ef_viewerId := viewerId\<rparr>);
         hasOlder = int (length olderEvents) > half;
         hasNewer = int (length newerEvents) > half;
         trimmedOlder = (if hasOlder then drop 1 olderEvents else olderEvents);
         trimmedNewer = (if hasNewer then take (nat half) newerEvents else newerEvents);
         eventMap = fold (\<lambda>e. AList.update (sw_id e) e) (trimmedOlder @ trimmedNewer) []
     in \<lparr>ew_events = sort_key sw_sequence (map snd eventMap), ew_hasOlder = hasOlder, ew_hasNewer = hasNewer\<rparr>)"

text \<open>\<open>result.rows[0] ? mapRowToEvent(result.rows[0]) : null\<close>\<close>

definition first_event :: "StreamEventRow list \<Rightarrow> StreamEvent option" where
  "first_event rows = (case rows of [] \<Rightarrow> None | r # _ \<Rightarrow> Some (mapRowToEvent r))"

definition event_findById :: "EventDb \<Rightarrow> string \<Rightarrow> string \<Rightarrow> StreamEvent option" where
  "event_findById db ws i = first_event (filter (\<lambda>r. sv_workspaceId r = ws \<and> sv_id r = i) (stream_events db))"

definition findCommandTerminal :: "EventDb \<Rightarrow> string \<Rightarrow> string \<Rightarrow> string \<Rightarrow> StreamEvent option" where
  "findCommandTerminal db ws st commandId =
    first_event (filter (\<lambda>r. of_stream ws st r \<and> sv_eventType r \<in> {''command_completed'', ''command_failed''} \<and>
      json_text ''commandId'' (sv_payload r) = Some commandId) (stream_events db))"

definition jump_rows :: "EventDb \<Rightarrow> string \<Rightarrow> string \<Rightarrow> (timestamp \<Rightarrow> bool) \<Rightarrow> StreamEventRow list" where
  "jump_rows db ws st p =
    filter (\<lambda>r. of_stream ws st r \<and> sv_eventType r \<in> {''message_created'', ''companion_response''} \<and> p (sv_createdAt r)) (stream_events db)"

text \<open>Each branch orders by \<open>created_at\<close> and breaks ties by \<open>sequence\<close>: a stable sort by the second key first.\<close>

definition findDateJumpAnchor :: "EventDb \<Rightarrow> string \<Rightarrow> string \<Rightarrow> timestamp \<Rightarrow> StreamEvent option" where
  "findDateJumpAnchor db ws st date =
    first_event (
      order_limit sv_createdAt 1 (sort_key sv_sequence (jump_rows db ws st (\<lambda>t. date \<le> t))) @
      order_limit (\<lambda>r. - sv_createdAt r) 1 (sort_key (\<lambda>r. - sv_sequence r) (jump_rows db ws st (\<lambda>t. t < date))))"

definition message_rows :: "EventDb \<Rightarrow> string \<Rightarrow> string \<Rightarrow> StreamEventRow list" where
  "message_rows db ws st = filter (\<lambda>r. of_stream ws st r \<and> is_message r) (stream_events db)"

definition findByMessageId :: "EventDb \<Rightarrow> string \<Rightarrow> string \<Rightarrow> string \<Rightarrow> StreamEvent option" where
  "findByMessageId db ws st messageId = first_event (filter (\<lambda>r. message_id_of r = Some messageId) (message_rows db ws st))"

definition with_message_ids :: "string list \<Rightarrow> StreamEventRow list \<Rightarrow> StreamEventRow list" where
  "with_message_ids ids rows = filter (\<lambda>r. message_id_of r \<in> Some ` set ids) rows"

definition findEarliestMessageEvent :: "EventDb \<Rightarrow> string \<Rightarrow> string \<Rightarrow> string list \<Rightarrow> StreamEvent option" where
  "findEarliestMessageEvent db ws st messageIds =
    (if messageIds = [] then None else first_event (order_limit sv_sequence 1 (with_message_ids messageIds (message_rows db ws st))))"

definition findPreviousMessageEvent :: "EventDb \<Rightarrow> string \<Rightarrow> string \<Rightarrow> int \<Rightarrow> StreamEvent option" where
  "findPreviousMessageEvent db ws st s = first_event (newest 1 (filter (\<lambda>r. sv_sequence r < s) (message_rows db ws st)))"

definition findMessageCreatedByMessageIdsForUpdate :: "EventDb \<Rightarrow> string \<Rightarrow> string \<Rightarrow> string list \<Rightarrow> StreamEvent list" where
  "findMessageCreatedByMessageIdsForUpdate db ws st messageIds =
    (if messageIds = [] then [] else map mapRowToEvent (sort_key sv_sequence (with_message_ids messageIds (message_rows db ws st))))"

definition findAgentSessionEventsBySessionIdsForUpdate :: "EventDb \<Rightarrow> string \<Rightarrow> string \<Rightarrow> string list \<Rightarrow> StreamEvent list" where
  "findAgentSessionEventsBySessionIdsForUpdate db ws st sessionIds =
    (if sessionIds = [] then []
     else map mapRowToEvent (sort_key sv_sequence (filter (\<lambda>r. of_stream ws st r \<and> sv_eventType r \<in> set AGENT_SESSION_EVENT_TYPES \<and>
       json_text ''sessionId'' (sv_payload r) \<in> Some ` set sessionIds) (stream_events db))))"

definition getLatestUnseenUserMessage :: "EventDb \<Rightarrow> string \<Rightarrow> string \<Rightarrow> int \<Rightarrow> (string \<times> string \<times> int) option" where
  "getLatestUnseenUserMessage db ws st afterSequence =
    (case newest 1 (filter (\<lambda>r. sv_actorType r = Some ''user'' \<and> afterSequence < sv_sequence r \<and> message_id_of r \<noteq> None \<and>
             sv_actorId r \<noteq> None) (message_rows db ws st)) of
       [] \<Rightarrow> None
     | r # _ \<Rightarrow> Some (the (message_id_of r), the (sv_actorId r), sv_sequence r))"

definition getMessageSequence :: "EventDb \<Rightarrow> string \<Rightarrow> string \<Rightarrow> string \<Rightarrow> int option" where
  "getMessageSequence db ws st messageId = map_option sw_sequence (findByMessageId db ws st messageId)"

definition listMessageIdsBySession :: "EventDb \<Rightarrow> string \<Rightarrow> string \<Rightarrow> string \<Rightarrow> string list" where
  "listMessageIdsBySession db ws st sessionId =
    map (\<lambda>r. the (message_id_of r)) (sort_key sv_sequence
      (filter (\<lambda>r. json_text ''sessionId'' (sv_payload r) = Some sessionId \<and> message_id_of r \<noteq> None) (message_rows db ws st)))"


text \<open>\<open>AgentSessionRerunContext\<close>, read from the \<open>started\<close> event of a session.\<close>

record AgentSessionRerunContext =
  rc_cause :: string
  rc_editedMessageId :: string
  rc_editedMessageRevision :: "int option"
  rc_editedMessageBefore :: "string option"
  rc_editedMessageAfter :: "string option"

definition field_of :: "string \<Rightarrow> json \<Rightarrow> json" where
  "field_of k v = case_option JUndefined id (jget k v)"

definition string_or_null :: "json \<Rightarrow> string option" where
  "string_or_null v = (case v of JStr s \<Rightarrow> Some s | _ \<Rightarrow> None)"

text \<open>An array is an object too, but it has none of the fields.\<close>

definition parseAgentSessionRerunContext :: "json \<Rightarrow> AgentSessionRerunContext option" where
  "parseAgentSessionRerunContext v =
    (case (field_of ''cause'' v, field_of ''editedMessageId'' v) of
       (JStr c, JStr i) \<Rightarrow>
         if c = ''invoking_message_edited'' \<or> c = ''referenced_message_edited''
         then Some \<lparr>rc_cause = c, rc_editedMessageId = i,
                rc_editedMessageRevision = (case field_of ''editedMessageRevision'' v of JNum n \<Rightarrow> Some n | _ \<Rightarrow> None),
                rc_editedMessageBefore = string_or_null (field_of ''editedMessageBefore'' v),
                rc_editedMessageAfter = string_or_null (field_of ''editedMessageAfter'' v)\<rparr>
         else None
     | _ \<Rightarrow> None)"

definition listRerunContextBySessionIds :: "EventDb \<Rightarrow> string \<Rightarrow> string \<Rightarrow> string list \<Rightarrow> (string \<times> AgentSessionRerunContext) list" where
  "listRerunContextBySessionIds db ws st sessionIds =
    (if sessionIds = [] then []
     else fold (\<lambda>r m. case parseAgentSessionRerunContext (field_of ''rerunContext'' (sv_payload r)) of
                         None \<Rightarrow> m
                       | Some c \<Rightarrow> AList.update (the (json_text ''sessionId'' (sv_payload r))) c m)
            (filter (\<lambda>r. of_stream ws st r \<and> sv_eventType r = ''agent_session:started'' \<and>
               json_text ''sessionId'' (sv_payload r) \<in> Some ` set sessionIds) (stream_events db)) [])"

section \<open>Counting\<close>

text \<open>The table \<open>stream_member_message_reads\<close>, which the unread count subtracts.\<close>

record MessageReadRow =
  mr_workspaceId :: string
  mr_streamId :: string
  mr_memberId :: string
  mr_messageId :: string
  mr_eventId :: string
  mr_sequence :: int

definition overlay_row :: "string \<Rightarrow> string \<Rightarrow> string \<Rightarrow> MessageReadRow \<Rightarrow> bool" where
  "overlay_row ws st member r \<longleftrightarrow> mr_workspaceId r = ws \<and> mr_streamId r = st \<and> mr_memberId r = member"

definition countMessagesByStreamBatch :: "EventDb \<Rightarrow> string \<Rightarrow> string list \<Rightarrow> (string \<times> nat) list" where
  "countMessagesByStreamBatch db ws streamIds =
    (if streamIds = [] then []
     else map (\<lambda>st. (st, length (message_rows db ws st))) (filter (\<lambda>st. message_rows db ws st \<noteq> []) (js_dedup streamIds)))"

record Membership =
  mb_streamId :: string
  mb_memberId :: string
  mb_lastReadEventId :: "string option"

text \<open>\<open>COALESCE(sequence, 0)\<close> of an event looked up by id alone.\<close>

definition sequence_or_zero :: "EventDb \<Rightarrow> string \<Rightarrow> string option \<Rightarrow> int" where
  "sequence_or_zero db ws i =
    (case filter (\<lambda>r. sv_workspaceId r = ws \<and> Some (sv_id r) = i) (stream_events db) of [] \<Rightarrow> 0 | r # _ \<Rightarrow> sv_sequence r)"

definition unread_count :: "EventDb \<Rightarrow> MessageReadRow table \<Rightarrow> string \<Rightarrow> Membership \<Rightarrow> int" where
  "unread_count db reads ws m =
    max (int (sql_count (\<lambda>r. sequence_or_zero db ws (mb_lastReadEventId m) < sv_sequence r) (message_rows db ws (mb_streamId m)))
         - int (sql_count (overlay_row ws (mb_streamId m) (mb_memberId m)) reads)) 0"

definition countUnreadByStreamBatch :: "EventDb \<Rightarrow> MessageReadRow table \<Rightarrow> string \<Rightarrow> Membership list \<Rightarrow> (string \<times> int \<times> int) list" where
  "countUnreadByStreamBatch db reads ws ms =
    fold (\<lambda>m. AList.update (mb_streamId m) (unread_count db reads ws m, int (length (message_rows db ws (mb_streamId m))))) ms []"

definition countMessagesThrough :: "EventDb \<Rightarrow> string \<Rightarrow> string \<Rightarrow> int \<Rightarrow> int" where
  "countMessagesThrough db ws st s = int (sql_count (\<lambda>r. sv_sequence r \<le> s) (message_rows db ws st))"

definition countMessagesThroughBatch :: "EventDb \<Rightarrow> string \<Rightarrow> (string \<times> int) list \<Rightarrow> (string \<times> int) list" where
  "countMessagesThroughBatch db ws seqs =
    filter (\<lambda>(st, n). n \<noteq> 0) (map (\<lambda>(st, s). (st, countMessagesThrough db ws st s)) seqs)"

definition getMessageOrdinalForEvent :: "EventDb \<Rightarrow> string \<Rightarrow> string \<Rightarrow> string \<Rightarrow> (int \<times> int) option" where
  "getMessageOrdinalForEvent db ws st i =
    (case filter (\<lambda>r. of_stream ws st r \<and> sv_id r = i) (stream_events db) of
       [] \<Rightarrow> None
     | r # _ \<Rightarrow> Some (sv_sequence r, countMessagesThrough db ws st (sv_sequence r)))"

definition getSequencesByEventIds :: "EventDb \<Rightarrow> string \<Rightarrow> string list \<Rightarrow> (string \<times> int) list" where
  "getSequencesByEventIds db ws ids =
    (if ids = [] then [] else map (\<lambda>r. (sv_id r, sv_sequence r)) (filter (\<lambda>r. sv_workspaceId r = ws \<and> sv_id r \<in> set ids) (stream_events db)))"

definition getLatestEventIdByStreamBatch :: "EventDb \<Rightarrow> string \<Rightarrow> string list \<Rightarrow> (string \<times> string) list" where
  "getLatestEventIdByStreamBatch db ws streamIds =
    concat (map (\<lambda>st. map (\<lambda>r. (st, sv_id r)) (newest 1 (filter (of_stream ws st) (stream_events db)))) (js_dedup streamIds))"

end
