(* ===== verification/Read_State.thy ===== *)
theory Read_State
  imports Stream_Events
begin

text \<open>
  \<^verbatim>\<open>apps/backend/src/features/streams/read-state-repository.ts\<close> and \<^verbatim>\<open>effective-read-state.ts\<close>: each user's read watermark
  in each stream, with the hold that keeps a stream in the Inbox.  A row points at an event; the sequence of that event
  is looked up when it is compared.  Every statement takes the database as it stands: the row locks the callers take make
  each of their transactions one step.  The table of streams holds the streams that exist; of the messages only the
  time of deletion matters here.
\<close>

record StreamReadStateRow =
  rr_workspaceId :: string
  rr_streamId :: string
  rr_userId :: string
  rr_lastReadEventId :: "string option"
  rr_lastReadAt :: "timestamp option"
  rr_updatedAt :: timestamp
  rr_inboxHeld :: bool
  rr_inboxFloorEventId :: "string option"

record StreamReadState =
  rv_workspaceId :: string
  rv_streamId :: string
  rv_userId :: string
  rv_lastReadEventId :: "string option"
  rv_lastReadAt :: "timestamp option"
  rv_updatedAt :: timestamp
  rv_inboxHeld :: bool
  rv_inboxFloorEventId :: "string option"

definition mapRowToReadState :: "StreamReadStateRow \<Rightarrow> StreamReadState" where
  "mapRowToReadState r = \<lparr>rv_workspaceId = rr_workspaceId r, rv_streamId = rr_streamId r, rv_userId = rr_userId r,
     rv_lastReadEventId = rr_lastReadEventId r, rv_lastReadAt = rr_lastReadAt r, rv_updatedAt = rr_updatedAt r,
     rv_inboxHeld = rr_inboxHeld r, rv_inboxFloorEventId = rr_inboxFloorEventId r\<rparr>"

record MessageDeletionRow =
  md_workspaceId :: string
  md_id :: string
  md_deletedAt :: "timestamp option"

record ReadDb =
  rd_events :: EventDb
  rd_streams :: "(string \<times> string) list"  \<comment> \<open>workspace and id\<close>
  rd_messages :: "MessageDeletionRow table"
  rd_states :: "StreamReadStateRow table"
  rd_reads :: "MessageReadRow table"

definition state_of :: "string \<Rightarrow> string \<Rightarrow> string \<Rightarrow> StreamReadStateRow \<Rightarrow> bool" where
  "state_of ws st user r \<longleftrightarrow> rr_workspaceId r = ws \<and> rr_streamId r = st \<and> rr_userId r = user"

definition read_state_get :: "ReadDb \<Rightarrow> string \<Rightarrow> string \<Rightarrow> string \<Rightarrow> StreamReadState option" where
  "read_state_get db ws st user = map_option mapRowToReadState (find (state_of ws st user) (rd_states db))"

text \<open>\<open>m.deleted_at IS NULL\<close> after a left join with the message of the event: also true where there is no such message.\<close>

definition not_deleted :: "ReadDb \<Rightarrow> StreamEventRow \<Rightarrow> bool" where
  "not_deleted db r \<longleftrightarrow> (\<forall>m\<in>set (rd_messages db). md_workspaceId m = sv_workspaceId r \<longrightarrow> Some (md_id m) = message_id_of r \<longrightarrow> md_deletedAt m = None)"

text \<open>A row inserted with its default columns.\<close>

definition fresh_state :: "timestamp \<Rightarrow> string \<Rightarrow> string \<Rightarrow> string \<Rightarrow> string option \<Rightarrow> timestamp option \<Rightarrow> StreamReadStateRow" where
  "fresh_state now ws st user event readAt = \<lparr>rr_workspaceId = ws, rr_streamId = st, rr_userId = user, rr_lastReadEventId = event,
     rr_lastReadAt = readAt, rr_updatedAt = now, rr_inboxHeld = False, rr_inboxFloorEventId = None\<rparr>"

definition point_at :: "timestamp \<Rightarrow> string option \<Rightarrow> StreamReadStateRow \<Rightarrow> StreamReadStateRow" where
  "point_at now event r = r\<lparr>rr_lastReadEventId := event, rr_lastReadAt := Some now, rr_updatedAt := now\<rparr>"

text \<open>
  \<open>INSERT .. SELECT .. FROM streams .. ON CONFLICT DO UPDATE .. WHERE\<close>: nothing for a stream that does not exist, the
  row given where there is none yet, else the update of the row there is, when its guard holds.
\<close>

definition upsert_state ::
  "string \<Rightarrow> string \<Rightarrow> string \<Rightarrow> StreamReadStateRow \<Rightarrow> (StreamReadStateRow \<Rightarrow> bool) \<Rightarrow> (StreamReadStateRow \<Rightarrow> StreamReadStateRow) \<Rightarrow> ReadDb \<Rightarrow> ReadDb"
where
  "upsert_state ws st user new guard f db =
    (if (ws, st) \<notin> set (rd_streams db) then db
     else if find (state_of ws st user) (rd_states db) = None then db\<lparr>rd_states := rd_states db @ [new]\<rparr>
     else db\<lparr>rd_states := sql_update (\<lambda>r. state_of ws st user r \<and> guard r) f (rd_states db)\<rparr>)"

definition ensureForUpdate :: "timestamp \<Rightarrow> string \<Rightarrow> string \<Rightarrow> string \<Rightarrow> ReadDb \<Rightarrow> ReadDb \<times> StreamReadState option" where
  "ensureForUpdate now ws st user db =
    (let db' = upsert_state ws st user (fresh_state now ws st user None None) (\<lambda>r. False) id db in (db', read_state_get db' ws st user))"

text \<open>The guard of a monotonic advance: both events are looked up by id, and count as zero when there is none.\<close>

definition out_sequences :: "ReadDb \<Rightarrow> string \<Rightarrow> string \<Rightarrow> StreamReadStateRow \<Rightarrow> bool" where
  "out_sequences db ws event r \<longleftrightarrow> sequence_or_zero (rd_events db) ws (rr_lastReadEventId r) < sequence_or_zero (rd_events db) ws (Some event)"

text \<open>Whether an advance from the prior watermark crosses somebody else's message.\<close>

definition crosses_message :: "ReadDb \<Rightarrow> string \<Rightarrow> string \<Rightarrow> string \<Rightarrow> string \<Rightarrow> bool" where
  "crosses_message db ws st user event =
    (let prior = Option.bind (find (state_of ws st user) (rd_states db)) rr_lastReadEventId
     in \<exists>e\<in>set (message_rows (rd_events db) ws st). sv_actorId e \<noteq> Some user \<and> not_deleted db e \<and>
          sequence_or_zero (rd_events db) ws prior < sv_sequence e \<and>
          (\<exists>n\<in>set (stream_events (rd_events db)). sv_workspaceId n = ws \<and> sv_id n = event \<and> sv_sequence e \<le> sv_sequence n))"

definition read_state_advance :: "timestamp \<Rightarrow> string \<Rightarrow> string \<Rightarrow> string \<Rightarrow> string \<Rightarrow> bool \<Rightarrow> ReadDb \<Rightarrow> ReadDb \<times> StreamReadState option \<times> bool" where
  "read_state_advance now ws st user event holdInInbox db0 =
    (let db = (if holdInInbox then fst (ensureForUpdate now ws st user db0) else db0);
         hold = (holdInInbox \<and> crosses_message db ws st user event);
         existing = find (state_of ws st user) (rd_states db);
         db' = upsert_state ws st user ((fresh_state now ws st user (Some event) (Some now))\<lparr>rr_inboxHeld := hold\<rparr>) (out_sequences db ws event)
           (\<lambda>r. (point_at now (Some event) r)
              \<lparr>rr_inboxHeld := (hold \<or> rr_inboxHeld r),
               rr_inboxFloorEventId := (if rr_inboxHeld r then rr_inboxFloorEventId r else if hold then rr_lastReadEventId r else None)\<rparr>) db;
         written = ((ws, st) \<in> set (rd_streams db) \<and> (case existing of None \<Rightarrow> True | Some r \<Rightarrow> out_sequences db ws event r))
     in (db', read_state_get db' ws st user, written \<and> hold))"

definition read_state_set :: "timestamp \<Rightarrow> string \<Rightarrow> string \<Rightarrow> string \<Rightarrow> string option \<Rightarrow> ReadDb \<Rightarrow> ReadDb \<times> StreamReadState option" where
  "read_state_set now ws st user event db =
    (let db' = upsert_state ws st user (fresh_state now ws st user event (Some now)) (\<lambda>r. True) (point_at now event) db
     in (db', if (ws, st) \<in> set (rd_streams db) then read_state_get db' ws st user else None))"

definition getBatch :: "ReadDb \<Rightarrow> string \<Rightarrow> string \<Rightarrow> string list \<Rightarrow> StreamReadState list" where
  "getBatch db ws user streamIds = (if streamIds = [] then [] else
     map mapRowToReadState (filter (\<lambda>r. rr_workspaceId r = ws \<and> rr_userId r = user \<and> rr_streamId r \<in> set streamIds) (rd_states db)))"

text \<open>\<open>updates\<close> is a map, so each stream comes once and the rows are independent.\<close>

definition batchAdvance :: "timestamp \<Rightarrow> string \<Rightarrow> string \<Rightarrow> (string \<times> string) list \<Rightarrow> ReadDb \<Rightarrow> ReadDb \<times> StreamReadState list" where
  "batchAdvance now ws user updates db =
    (let db' = fold (\<lambda>(st, event). upsert_state ws st user (fresh_state now ws st user (Some event) (Some now))
                 (out_sequences db ws event) (point_at now (Some event))) updates db
     in (db', getBatch db' ws user (map fst updates)))"

definition ensureBatchForUpdate :: "timestamp \<Rightarrow> string \<Rightarrow> string \<Rightarrow> string list \<Rightarrow> ReadDb \<Rightarrow> ReadDb" where
  "ensureBatchForUpdate now ws user streamIds db =
    fold (\<lambda>st. upsert_state ws st user (fresh_state now ws st user None None) (\<lambda>r. False) id) streamIds db"

definition clearInboxHeld :: "timestamp \<Rightarrow> string \<Rightarrow> string \<Rightarrow> string list \<Rightarrow> ReadDb \<Rightarrow> ReadDb \<times> string list" where
  "clearInboxHeld now ws user streamIds db =
    (let p = (\<lambda>r. rr_workspaceId r = ws \<and> rr_userId r = user \<and> rr_streamId r \<in> set streamIds \<and> rr_inboxHeld r)
     in (db\<lparr>rd_states := sql_update p (\<lambda>r. r\<lparr>rr_inboxHeld := False, rr_inboxFloorEventId := None, rr_updatedAt := now\<rparr>) (rd_states db)\<rparr>,
         map rr_streamId (filter p (rd_states db))))"

definition listInboxHeldStreamIds :: "ReadDb \<Rightarrow> string \<Rightarrow> string \<Rightarrow> string list" where
  "listInboxHeldStreamIds db ws user =
    map rr_streamId (filter (\<lambda>r. rr_workspaceId r = ws \<and> rr_userId r = user \<and> rr_inboxHeld r) (rd_states db))"

text \<open>The floor of a stream is looked up among its own events; a stream with nothing above it is left out.\<close>

definition inbox_floor :: "ReadDb \<Rightarrow> string \<Rightarrow> string \<Rightarrow> string \<Rightarrow> int" where
  "inbox_floor db ws user st =
    (let event = Option.bind (find (state_of ws st user) (rd_states db)) (\<lambda>r. if rr_inboxHeld r then rr_inboxFloorEventId r else rr_lastReadEventId r)
     in case filter (\<lambda>e. of_stream ws st e \<and> Some (sv_id e) = event) (stream_events (rd_events db)) of [] \<Rightarrow> 0 | e # _ \<Rightarrow> sv_sequence e)"

definition listInboxArrivals :: "ReadDb \<Rightarrow> string \<Rightarrow> string \<Rightarrow> string list \<Rightarrow> (string \<times> timestamp) list" where
  "listInboxArrivals db ws user streamIds =
    fold (\<lambda>st. case order_limit sv_sequence 1 (filter (\<lambda>e. sv_actorId e \<noteq> Some user \<and> inbox_floor db ws user st < sv_sequence e \<and> not_deleted db e)
                     (message_rows (rd_events db) ws st)) of
                [] \<Rightarrow> id
              | e # _ \<Rightarrow> AList.update st (sv_createdAt e)) streamIds []"

text \<open>The users are distinct: the statement raises when a row would be updated twice.\<close>

definition setForUsers :: "timestamp \<Rightarrow> string \<Rightarrow> string \<Rightarrow> string list \<Rightarrow> string \<Rightarrow> ReadDb \<Rightarrow> ReadDb" where
  "setForUsers now ws st users event db =
    fold (\<lambda>user. upsert_state ws st user (fresh_state now ws st user (Some event) (Some now)) (\<lambda>r. True) (point_at now (Some event))) users db"

text \<open>A pointer to a moved event goes to the nearest event left below it; the ids of the moved events are distinct.\<close>

definition prior_event :: "ReadDb \<Rightarrow> string \<Rightarrow> string \<Rightarrow> int \<Rightarrow> string option" where
  "prior_event db ws st s =
    (case newest 1 (filter (\<lambda>e. of_stream ws st e \<and> sv_sequence e < s) (stream_events (rd_events db))) of [] \<Rightarrow> None | e # _ \<Rightarrow> Some (sv_id e))"

definition repointForMovedEvents :: "timestamp \<Rightarrow> string \<Rightarrow> string \<Rightarrow> (string \<times> int) list \<Rightarrow> ReadDb \<Rightarrow> ReadDb" where
  "repointForMovedEvents now ws source moved db =
    (let repoint = (\<lambda>pointer set_pointer. sql_update
           (\<lambda>r. rr_workspaceId r = ws \<and> rr_streamId r = source \<and> pointer r \<in> Some ` fst ` set moved)
           (\<lambda>r. (set_pointer (prior_event db ws source (the (map_of moved (the (pointer r)))) :: string option) r)\<lparr>rr_updatedAt := now\<rparr>))
     in db\<lparr>rd_states := repoint rr_inboxFloorEventId (\<lambda>e. rr_inboxFloorEventId_update (\<lambda>_. e))
          (repoint rr_lastReadEventId (\<lambda>e. rr_lastReadEventId_update (\<lambda>_. e)) (rd_states db))\<rparr>)"

definition listForUser :: "ReadDb \<Rightarrow> string \<Rightarrow> string \<Rightarrow> StreamReadState list" where
  "listForUser db ws user = map mapRowToReadState (filter (\<lambda>r. rr_workspaceId r = ws \<and> rr_userId r = user) (rd_states db))"

definition deleteForWorkspace :: "string \<Rightarrow> ReadDb \<Rightarrow> ReadDb" where
  "deleteForWorkspace ws db = db\<lparr>rd_states := sql_delete (\<lambda>r. rr_workspaceId r = ws) (rd_states db)\<rparr>"

definition deleteForUser :: "string \<Rightarrow> string \<Rightarrow> ReadDb \<Rightarrow> ReadDb" where
  "deleteForUser ws user db = db\<lparr>rd_states := sql_delete (\<lambda>r. rr_workspaceId r = ws \<and> rr_userId r = user) (rd_states db)\<rparr>"

section \<open>Effective read state\<close>

record EffectiveReadState =
  ef_streamId :: string
  ef_lastReadEventId :: "string option"
  ef_lastReadAt :: "timestamp option"

definition getEffectiveReadState :: "ReadDb \<Rightarrow> string \<Rightarrow> string \<Rightarrow> string list \<Rightarrow> (string \<times> EffectiveReadState) list" where
  "getEffectiveReadState db ws user streamIds =
    (let readStateByStream = fold (\<lambda>r. AList.update (rv_streamId r) r) (getBatch db ws user streamIds) []
     in fold (\<lambda>st. AList.update st \<lparr>ef_streamId = st,
            ef_lastReadEventId = Option.bind (map_of readStateByStream st) rv_lastReadEventId,
            ef_lastReadAt = Option.bind (map_of readStateByStream st) rv_lastReadAt\<rparr>) streamIds [])"

definition usersReadThroughEffective :: "ReadDb \<Rightarrow> string \<Rightarrow> string \<Rightarrow> string list \<Rightarrow> int \<Rightarrow> string list" where
  "usersReadThroughEffective db ws st users s =
    (if users = [] then []
     else map rr_userId (filter (\<lambda>r. rr_workspaceId r = ws \<and> rr_streamId r = st \<and> rr_userId r \<in> set users \<and>
       (\<exists>e\<in>set (stream_events (rd_events db)). Some (sv_id e) = rr_lastReadEventId r \<and> of_stream ws st e \<and> s \<le> sv_sequence e)) (rd_states db)))"

end
