(* ===== verification/Sparse_Read.thy ===== *)
theory Sparse_Read
  imports Read_State
begin

text \<open>
  The sparse read overlay: messages read one by one above a user's watermark.
  \<^verbatim>\<open>features/streams/sparse-read-repository.ts\<close> and \<^verbatim>\<open>sparse-read.ts\<close>, with the operations of \<^verbatim>\<open>streams/service.ts\<close>,
  \<^verbatim>\<open>inbox-release.ts\<close>, \<^verbatim>\<open>inbox-clear-mode.ts\<close> and the send and move paths of \<^verbatim>\<open>messaging/event-service.ts\<close> that write read
  state.  Each operation takes the read database, and returns it with its answer and the outbox events it inserts.
\<close>

section \<open>The overlay repository\<close>

definition same_read :: "MessageReadRow \<Rightarrow> MessageReadRow \<Rightarrow> bool" where
  "same_read r q \<longleftrightarrow> mr_workspaceId r = mr_workspaceId q \<and> mr_streamId r = mr_streamId q \<and> mr_memberId r = mr_memberId q \<and> mr_messageId r = mr_messageId q"

definition insert_read :: "MessageReadRow \<Rightarrow> MessageReadRow table \<Rightarrow> MessageReadRow table" where
  "insert_read r rows = (if \<exists>q\<in>set rows. same_read q r then rows else rows @ [r])"

definition insertReads :: "string \<Rightarrow> string \<Rightarrow> string \<Rightarrow> string list \<Rightarrow> ReadDb \<Rightarrow> ReadDb" where
  "insertReads ws st member messageIds db =
    db\<lparr>rd_reads := fold insert_read
      (concat (map (\<lambda>i. map (\<lambda>e. \<lparr>mr_workspaceId = ws, mr_streamId = st, mr_memberId = member, mr_messageId = i, mr_eventId = sv_id e, mr_sequence = sv_sequence e\<rparr>)
         (filter (\<lambda>e. message_id_of e = Some i) (message_rows (rd_events db) ws st))) messageIds)) (rd_reads db)\<rparr>"

definition delete_reads :: "(MessageReadRow \<Rightarrow> bool) \<Rightarrow> ReadDb \<Rightarrow> ReadDb" where
  "delete_reads p db = db\<lparr>rd_reads := sql_delete p (rd_reads db)\<rparr>"

definition deleteReads :: "string \<Rightarrow> string \<Rightarrow> string \<Rightarrow> string list \<Rightarrow> ReadDb \<Rightarrow> ReadDb" where
  "deleteReads ws st member messageIds = delete_reads (\<lambda>r. overlay_row ws st member r \<and> mr_messageId r \<in> set messageIds)"

definition listOverlayIds :: "ReadDb \<Rightarrow> string \<Rightarrow> string \<Rightarrow> string \<Rightarrow> string list" where
  "listOverlayIds db ws st member = map mr_messageId (sort_key mr_sequence (filter (overlay_row ws st member) (rd_reads db)))"

definition listOverlayIdsForMember :: "ReadDb \<Rightarrow> string \<Rightarrow> string \<Rightarrow> string list \<Rightarrow> (string \<times> string list) list" where
  "listOverlayIdsForMember db ws member streamIds =
    filter (\<lambda>(st, ids). ids \<noteq> []) (map (\<lambda>st. (st, listOverlayIds db ws st member)) (js_dedup streamIds))"

definition pruneAtOrBelow :: "string \<Rightarrow> string \<Rightarrow> string \<Rightarrow> int \<Rightarrow> ReadDb \<Rightarrow> ReadDb" where
  "pruneAtOrBelow ws st member s = delete_reads (\<lambda>r. overlay_row ws st member r \<and> mr_sequence r \<le> s)"

definition deleteAtOrAbove :: "string \<Rightarrow> string \<Rightarrow> string \<Rightarrow> int \<Rightarrow> ReadDb \<Rightarrow> ReadDb" where
  "deleteAtOrAbove ws st member s = delete_reads (\<lambda>r. overlay_row ws st member r \<and> s \<le> mr_sequence r)"

definition deleteAllForStreams :: "string \<Rightarrow> string \<Rightarrow> string list \<Rightarrow> ReadDb \<Rightarrow> ReadDb" where
  "deleteAllForStreams ws member streamIds = delete_reads (\<lambda>r. mr_workspaceId r = ws \<and> mr_memberId r = member \<and> mr_streamId r \<in> set streamIds)"

text \<open>\<open>CompactionTarget\<close> is the id and the sequence of an event.\<close>

definition covered :: "ReadDb \<Rightarrow> string \<Rightarrow> string \<Rightarrow> string \<Rightarrow> StreamEventRow \<Rightarrow> bool" where
  "covered db ws st member e \<longleftrightarrow>
    (\<exists>r\<in>set (rd_reads db). overlay_row ws st member r \<and> Some (mr_messageId r) = message_id_of e) \<or> \<not> not_deleted db e"

definition last_event :: "StreamEventRow list \<Rightarrow> (string \<times> int) option" where
  "last_event rows = (if rows = [] then None else Some (sv_id (last rows), sv_sequence (last rows)))"

text \<open>The running \<open>bool_and\<close> turns false at the first message not covered and stays false.\<close>

definition findCompactionTarget :: "ReadDb \<Rightarrow> string \<Rightarrow> string \<Rightarrow> string \<Rightarrow> int \<Rightarrow> (string \<times> int) option" where
  "findCompactionTarget db ws st member watermarkSeq =
    (let bound = map mr_sequence (filter (overlay_row ws st member) (rd_reads db));
         ordered = sort_key sv_sequence (filter (\<lambda>e. watermarkSeq < sv_sequence e \<and> (\<exists>b\<in>set bound. sv_sequence e \<le> b)) (message_rows (rd_events db) ws st))
     in last_event (takeWhile (covered db ws st member) ordered))"

definition findTrailingDeletedRunEnd :: "ReadDb \<Rightarrow> string \<Rightarrow> string \<Rightarrow> int \<Rightarrow> (string \<times> int) option" where
  "findTrailingDeletedRunEnd db ws st afterSeq =
    (let above = filter (\<lambda>e. afterSeq < sv_sequence e) (message_rows (rd_events db) ws st);
         first_alive = order_limit id 1 (map sv_sequence (filter (not_deleted db) above))
     in last_event (sort_key sv_sequence
          (filter (\<lambda>e. sv_sequence e < (case first_alive of [] \<Rightarrow> 9223372036854775807 | s # _ \<Rightarrow> s)) above)))"

definition countOverlay :: "ReadDb \<Rightarrow> string \<Rightarrow> string \<Rightarrow> string \<Rightarrow> nat" where
  "countOverlay db ws st member = sql_count (overlay_row ws st member) (rd_reads db)"

text \<open>The message's event is already in the destination; a clash with a row there breaks the primary key.\<close>

definition reads_unique :: "MessageReadRow table \<Rightarrow> bool" where
  "reads_unique rows \<longleftrightarrow> distinct (map (\<lambda>r. (mr_workspaceId r, mr_streamId r, mr_memberId r, mr_messageId r)) rows)"

definition rehomeReads :: "string \<Rightarrow> string \<Rightarrow> string \<Rightarrow> string list \<Rightarrow> ReadDb \<Rightarrow> event_error + ReadDb" where
  "rehomeReads ws source dest messageIds db =
    (let event = (\<lambda>r. find (\<lambda>e. message_id_of e = Some (mr_messageId r)) (message_rows (rd_events db) ws dest));
         rows = sql_update (\<lambda>r. mr_workspaceId r = ws \<and> mr_streamId r = source \<and> mr_messageId r \<in> set messageIds \<and> event r \<noteq> None)
           (\<lambda>r. r\<lparr>mr_streamId := dest, mr_eventId := sv_id (the (event r)), mr_sequence := sv_sequence (the (event r))\<rparr>) (rd_reads db)
     in if messageIds = [] then Inr db else if reads_unique rows then Inr (db\<lparr>rd_reads := rows\<rparr>) else Inl Unique_violation)"

section \<open>Reading and unreading single messages\<close>

record ReadStateSnapshot =
  ss_streamId :: string
  ss_readMessageIds :: "string list"
  ss_lastReadEventId :: "string option"
  ss_lastReadSequence :: int
  ss_lastReadOrdinal :: int
  ss_markedMessageIds :: "string list option"

record StreamReadFrontierSnapshot =
  fr_streamId :: string
  fr_lastReadEventId :: "string option"
  fr_lastReadSequence :: "int option"
  fr_lastReadOrdinal :: int
  fr_lastReadAt :: "timestamp option"

text \<open>The outbox events, each with the workspace and the reader: \<open>stream:read\<close>, \<open>:read_set\<close>, \<open>:read_messages\<close>, \<open>:read_all\<close>, \<open>:inbox_updated\<close>.\<close>

datatype read_event =
    Stream_read string string ReadStateSnapshot bool
  | Stream_read_set string string ReadStateSnapshot
  | Stream_read_messages string string ReadStateSnapshot
  | Stream_read_all string string "string list" "(string \<times> int) list" "StreamReadFrontierSnapshot list"
  | Stream_inbox_updated string string "string list" bool

text \<open>The override of the user's preference, as stored; the default is \<open>interaction\<close>.\<close>

definition resolveInboxClearMode :: "string option \<Rightarrow> string" where
  "resolveInboxClearMode override = (case override of None \<Rightarrow> ''interaction'' | Some mode \<Rightarrow> mode)"

definition resolveWatermarkSequence :: "ReadDb \<Rightarrow> string \<Rightarrow> string \<Rightarrow> string option \<Rightarrow> int" where
  "resolveWatermarkSequence db ws st event =
    (case event of None \<Rightarrow> 0 | Some i \<Rightarrow> if i = [] then 0 else (case getMessageOrdinalForEvent (rd_events db) ws st i of None \<Rightarrow> 0 | Some (s, n) \<Rightarrow> s))"

definition watermarkSeed :: "timestamp \<Rightarrow> string \<Rightarrow> string \<Rightarrow> string \<Rightarrow> ReadDb \<Rightarrow> ReadDb \<times> string option" where
  "watermarkSeed now ws st user db = map_prod id (\<lambda>s. Option.bind s rv_lastReadEventId) (ensureForUpdate now ws st user db)"

definition ordinalFor :: "ReadDb \<Rightarrow> string \<Rightarrow> string \<Rightarrow> int \<Rightarrow> int" where
  "ordinalFor db ws st s = (if s > 0 then countMessagesThrough (rd_events db) ws st s else 0)"

text \<open>The empty event id is falsy; no event has it.\<close>

definition applySparseRead ::
  "timestamp \<Rightarrow> string option \<Rightarrow> string \<Rightarrow> string \<Rightarrow> string \<Rightarrow> string list \<Rightarrow> ReadDb \<Rightarrow> ReadDb \<times> ReadStateSnapshot \<times> read_event list"
where
  "applySparseRead now clearMode ws st member messageIds db0 =
    (let db1 = insertReads ws st member messageIds db0;
         (db2, seedEventId) = watermarkSeed now ws st member db1;
         seedSeq = resolveWatermarkSequence db2 ws st seedEventId;
         db3 = (if seedSeq > 0 then pruneAtOrBelow ws st member seedSeq db2 else db2);
         (event1, seq1) = (case findCompactionTarget db3 ws st member seedSeq of None \<Rightarrow> (seedEventId, seedSeq) | Some (i, s) \<Rightarrow> (Some i, s));
         (watermarkEventId, watermarkSeq) = (case findTrailingDeletedRunEnd db3 ws st seq1 of None \<Rightarrow> (event1, seq1) | Some (i, s) \<Rightarrow> (Some i, s));
         (db4, held) = (if watermarkEventId = seedEventId then (db3, False)
           else case watermarkEventId of
             None \<Rightarrow> (pruneAtOrBelow ws st member watermarkSeq db3, False)
           | Some i \<Rightarrow>
               if i = [] then (pruneAtOrBelow ws st member watermarkSeq db3, False)
               else (case read_state_advance now ws st member i (resolveInboxClearMode clearMode \<noteq> ''read'') db3 of
                       (db, _, held) \<Rightarrow> (pruneAtOrBelow ws st member watermarkSeq db, held)));
         snapshot = \<lparr>ss_streamId = st, ss_readMessageIds = listOverlayIds db4 ws st member, ss_lastReadEventId = watermarkEventId,
            ss_lastReadSequence = watermarkSeq, ss_lastReadOrdinal = ordinalFor db4 ws st watermarkSeq, ss_markedMessageIds = Some messageIds\<rparr>
     in (db4, snapshot, (if held then [Stream_inbox_updated ws member [st] True] else []) @ [Stream_read_messages ws member snapshot]))"

definition applySparseUnread ::
  "timestamp \<Rightarrow> string \<Rightarrow> string \<Rightarrow> string \<Rightarrow> string list \<Rightarrow> ReadDb \<Rightarrow> ReadDb \<times> ReadStateSnapshot \<times> read_event list"
where
  "applySparseUnread now ws st member messageIds db0 =
    (let db1 = (if messageIds = [] then db0 else deleteReads ws st member messageIds db0);
         (db2, watermarkEventId) = watermarkSeed now ws st member db1;
         watermarkSeq = resolveWatermarkSequence db2 ws st watermarkEventId;
         answer = (\<lambda>db event s. \<lparr>ss_streamId = st, ss_readMessageIds = listOverlayIds db ws st member, ss_lastReadEventId = event,
            ss_lastReadSequence = s, ss_lastReadOrdinal = ordinalFor db ws st s, ss_markedMessageIds = None\<rparr>);
         unchanged = (db2, answer db2 watermarkEventId watermarkSeq, [Stream_read_messages ws member (answer db2 watermarkEventId watermarkSeq)])
     in case findEarliestMessageEvent (rd_events db2) ws st messageIds of
          None \<Rightarrow> unchanged
        | Some earliest \<Rightarrow>
            if watermarkSeq < sw_sequence earliest then unchanged
            else (let previous = findPreviousMessageEvent (rd_events db2) ws st (sw_sequence earliest);
                      event = map_option sw_id previous;
                      s = (case previous of None \<Rightarrow> 0 | Some e \<Rightarrow> sw_sequence e);
                      db3 = fst (read_state_set now ws st member event db2)
                  in (db3, answer db3 event s, [Stream_read_set ws member (answer db3 event s)])))"

section \<open>Reading a stream\<close>

text \<open>\<open>MarkAsReadResult\<close> without the membership, which is only read; \<open>None\<close> is the answer for an event the stream does not have.\<close>

definition markAsRead ::
  "timestamp \<Rightarrow> string option \<Rightarrow> string \<Rightarrow> string \<Rightarrow> string \<Rightarrow> string \<Rightarrow> ReadDb \<Rightarrow> ReadDb \<times> (ReadStateSnapshot \<times> bool option) option \<times> read_event list"
where
  "markAsRead now clearMode ws st member event db =
    (case getMessageOrdinalForEvent (rd_events db) ws st event of
       None \<Rightarrow> (db, None, [])
     | Some position \<Rightarrow>
       (let (db1, postWrite, held) = read_state_advance now ws st member event (resolveInboxClearMode clearMode \<noteq> ''read'') db;
            (readEventId, readSeq, readOrdinal) =
              (case Option.bind postWrite rv_lastReadEventId of
                 None \<Rightarrow> (event, position)
               | Some i \<Rightarrow>
                   if i = event \<or> i = [] then (event, position)
                   else (case getMessageOrdinalForEvent (rd_events db1) ws st i of None \<Rightarrow> (event, position) | Some p \<Rightarrow> (i, p)));
            db2 = pruneAtOrBelow ws st member readSeq db1;
            snapshot = \<lparr>ss_streamId = st, ss_readMessageIds = listOverlayIds db2 ws st member, ss_lastReadEventId = Some readEventId,
              ss_lastReadSequence = readSeq, ss_lastReadOrdinal = readOrdinal, ss_markedMessageIds = None\<rparr>
        in (db2, Some (snapshot, map_option rv_inboxHeld postWrite),
            [Stream_read ws member snapshot (case postWrite of None \<Rightarrow> False | Some s \<Rightarrow> rv_inboxHeld s)])))"

text \<open>\<open>None\<close>: \<open>MessageNotFoundError\<close>.\<close>

definition markUnread :: "timestamp \<Rightarrow> string \<Rightarrow> string \<Rightarrow> string \<Rightarrow> string \<Rightarrow> ReadDb \<Rightarrow> (ReadDb \<times> read_event list) option" where
  "markUnread now ws st member messageId db =
    (case findByMessageId (rd_events db) ws st messageId of
       None \<Rightarrow> None
     | Some messageEvent \<Rightarrow>
       (let previous = findPreviousMessageEvent (rd_events db) ws st (sw_sequence messageEvent);
            lastReadOrdinal = (case previous of None \<Rightarrow> 0 | Some p \<Rightarrow> countMessagesThrough (rd_events db) ws st (sw_sequence p));
            db1 = fst (read_state_set now ws st member (map_option sw_id previous) db);
            db2 = deleteAtOrAbove ws st member (sw_sequence messageEvent) db1;
            db3 = (case previous of None \<Rightarrow> db2 | Some p \<Rightarrow> pruneAtOrBelow ws st member (sw_sequence p) db2)
        in Some (db3, [Stream_read_set ws member
             \<lparr>ss_streamId = st, ss_readMessageIds = listOverlayIds db3 ws st member, ss_lastReadEventId = map_option sw_id previous,
              ss_lastReadSequence = (case previous of None \<Rightarrow> 0 | Some p \<Rightarrow> sw_sequence p), ss_lastReadOrdinal = lastReadOrdinal, ss_markedMessageIds = None\<rparr>])))"

definition updates_to_apply :: "ReadDb \<Rightarrow> string \<Rightarrow> string \<Rightarrow> string list \<Rightarrow> (string \<times> string) list" where
  "updates_to_apply db ws member streamIds =
    (let frontierByStream = map (\<lambda>s. (rv_streamId s, rv_lastReadEventId s)) (getBatch db ws member streamIds)
     in filter (\<lambda>(st, latest). map_of frontierByStream st \<noteq> Some (Some latest)) (getLatestEventIdByStreamBatch (rd_events db) ws streamIds))"

definition advanceStreamsToLatest ::
  "timestamp \<Rightarrow> string \<Rightarrow> string \<Rightarrow> string list \<Rightarrow> ReadDb \<Rightarrow> ReadDb \<times> string list \<times> StreamReadFrontierSnapshot list \<times> read_event list"
where
  "advanceStreamsToLatest now ws member streamIds db =
    (let updatesToApply = updates_to_apply db ws member streamIds
     in if streamIds = [] \<or> updatesToApply = [] then (db, [], [], [])
        else let (db1, advancedStates) = batchAdvance now ws member updatesToApply db;
                 updatedStreamIds = map rv_streamId advancedStates
             in if updatedStreamIds = [] then (db1, [], [], [])
                else let db2 = deleteAllForStreams ws member updatedStreamIds db1;
                         watermarkEventIds = List.map_filter rv_lastReadEventId advancedStates;
                         sequencesByEventId = getSequencesByEventIds (rd_events db2) ws watermarkEventIds;
                         sequenceOf = (\<lambda>s. Option.bind (rv_lastReadEventId s) (map_of sequencesByEventId));
                         sequenceByStream = List.map_filter (\<lambda>s. map_option (Pair (rv_streamId s)) (sequenceOf s)) advancedStates;
                         messageCounts = countMessagesThroughBatch (rd_events db2) ws sequenceByStream;
                         countOf = (\<lambda>st. case map_of messageCounts st of None \<Rightarrow> 0 | Some n \<Rightarrow> n);
                         frontiers = map (\<lambda>s. \<lparr>fr_streamId = rv_streamId s, fr_lastReadEventId = rv_lastReadEventId s,
                            fr_lastReadSequence = sequenceOf s, fr_lastReadOrdinal = countOf (rv_streamId s), fr_lastReadAt = rv_lastReadAt s\<rparr>) advancedStates
                     in (db2, updatedStreamIds, frontiers,
                         [Stream_read_all ws member updatedStreamIds (map (\<lambda>st. (st, countOf st)) updatedStreamIds) frontiers]))"

definition releaseInboxHold :: "timestamp \<Rightarrow> string \<Rightarrow> string \<Rightarrow> string list \<Rightarrow> ReadDb \<Rightarrow> ReadDb \<times> string list \<times> read_event list" where
  "releaseInboxHold now ws user streamIds db =
    (let (db', released) = (if streamIds = [] then (db, []) else clearInboxHeld now ws user streamIds db)
     in (db', released, if released \<noteq> [] then [Stream_inbox_updated ws user released False] else []))"

text \<open>\<open>accessible\<close>: the ids of \<open>listAccessibleStreamIds\<close>.\<close>

definition clearInboxInTransaction ::
  "timestamp \<Rightarrow> string \<Rightarrow> string \<Rightarrow> string list \<Rightarrow> ReadDb \<Rightarrow> ReadDb \<times> string list \<times> StreamReadFrontierSnapshot list \<times> read_event list"
where
  "clearInboxInTransaction now ws user accessible db =
    (if accessible = [] then (db, [], [], [])
     else let (db1, _, frontiers, out1) = advanceStreamsToLatest now ws user accessible (ensureBatchForUpdate now ws user accessible db);
              (db2, cleared, out2) = releaseInboxHold now ws user accessible db1
          in (db2, cleared, frontiers, out1 @ out2))"

text \<open>\<open>memberships\<close> and \<open>streams\<close>: the streams the user is a member of, and those of the workspace.\<close>

definition markAllAsRead ::
  "timestamp \<Rightarrow> string \<Rightarrow> string \<Rightarrow> string list \<Rightarrow> string list \<Rightarrow> ReadDb \<Rightarrow> ReadDb \<times> string list \<times> StreamReadFrontierSnapshot list \<times> read_event list"
where
  "markAllAsRead now ws member memberships streams db =
    advanceStreamsToLatest now ws member (filter (\<lambda>st. st \<in> set streams) memberships) db"

definition getEffectiveUnreadSummary :: "ReadDb \<Rightarrow> string \<Rightarrow> string \<Rightarrow> string \<Rightarrow> int \<times> int" where
  "getEffectiveUnreadSummary db ws st user =
    (let effective = getEffectiveReadState db ws user [st];
         counts = countUnreadByStreamBatch (rd_events db) (rd_reads db) ws
           [\<lparr>mb_streamId = st, mb_memberId = user, mb_lastReadEventId = Option.bind (map_of effective st) ef_lastReadEventId\<rparr>]
     in case map_of counts st of None \<Rightarrow> (0, 0) | Some c \<Rightarrow> c)"

section \<open>Sending a message\<close>

text \<open>The author's own message is read when it is sent, and by the default mode the send releases the hold.\<close>

definition read_own_message :: "timestamp \<Rightarrow> string option \<Rightarrow> string \<Rightarrow> string \<Rightarrow> string \<Rightarrow> string \<Rightarrow> ReadDb \<Rightarrow> ReadDb \<times> read_event list" where
  "read_own_message now clearMode ws st author event db =
    (if resolveInboxClearMode clearMode = ''interaction''
     then (case read_state_advance now ws st author event False db of
             (db1, _, _) \<Rightarrow> (case releaseInboxHold now ws author [st] db1 of (db2, _, out) \<Rightarrow> (db2, out)))
     else (case read_state_advance now ws st author event (resolveInboxClearMode clearMode = ''manual'') db of
             (db1, _, held) \<Rightarrow> (db1, if held then [Stream_inbox_updated ws author [st] True] else [])))"

end
