(* ===== verification/Message_Move.thy ===== *)
theory Message_Move
  imports Stream_Events
begin

text \<open>
  The part of \<^verbatim>\<open>apps/backend/src/features/messaging/event-service.ts\<close> that moves messages into a thread, as far as it writes
  the event log: the events of the messages and of the agent sessions behind them get fresh numbers in the
  destination, a tombstone in the source declares the broadcast slots they vacate, and one in the destination
  records the move.  What the transaction checks before (lease, membership, the selected messages) and the
  projections it updates after are not part of this theory; the ids of the agent sessions, drawn from their own
  table, and the previews of the messages are arguments.
\<close>

datatype move_error = Move_source_events_missing | Move_raised event_error

record MoveRequest =
  mv_workspaceId :: string
  mv_sourceStreamId :: string
  mv_destinationStreamId :: string
  mv_messageIds :: "string list"  \<comment> \<open>\<open>uniqueMessageIds\<close>\<close>
  mv_agentSessionIds :: "string list"
  mv_actorId :: string
  mv_names :: "json \<times> json \<times> json \<times> json"  \<comment> \<open>slug and display name of the source, of the destination\<close>
  mv_previews :: "json list"
  mv_sourceTombstoneId :: string
  mv_destinationTombstoneId :: string
  mv_movedAt :: timestamp
  mv_movedAtIso :: string

text \<open>The two lists are sorted by sequence, which is unique in the stream, so the tie break by id never decides.\<close>

definition movable_events :: "EventDb \<Rightarrow> MoveRequest \<Rightarrow> (bool \<times> StreamEvent) list" where
  "movable_events db q =
    sort_key (\<lambda>(m, e). sw_sequence e)
      (map (Pair True) (findMessageCreatedByMessageIdsForUpdate db (mv_workspaceId q) (mv_sourceStreamId q) (mv_messageIds q)) @
       map (Pair False) (findAgentSessionEventsBySessionIdsForUpdate db (mv_workspaceId q) (mv_sourceStreamId q) (mv_agentSessionIds q)))"

definition updates_for :: "bool \<Rightarrow> ((bool \<times> StreamEvent) \<times> int \<times> int) list \<Rightarrow> MoveEventSequenceUpdate list" where
  "updates_for message entries =
    map (\<lambda>((m, e), s, b). \<lparr>mu_key = (if m then the (json_text ''messageId'' (sw_payload e)) else sw_id e), mu_sequence = s, mu_broadcastSequence = b\<rparr>)
      (filter (\<lambda>((m, e), s, b). m = message) entries)"

definition vacatedBroadcastSequences :: "(bool \<times> StreamEvent) list \<Rightarrow> string list" where
  "vacatedBroadcastSequences movable =
    map (\<lambda>(m, e). int_digits (the (sw_broadcastSequence e))) (filter (\<lambda>(m, e). sw_broadcastSequence e \<noteq> None) movable)"

definition moved_from :: "MoveRequest \<Rightarrow> json" where
  "moved_from q = JObj [(''sourceStreamId'', JStr (mv_sourceStreamId q)), (''sourceStreamSlug'', fst (mv_names q)),
     (''sourceStreamDisplayName'', fst (snd (mv_names q))), (''movedAt'', JStr (mv_movedAtIso q)), (''movedBy'', JStr (mv_actorId q)),
     (''movedByType'', JStr ''user''), (''moveTombstoneId'', JStr (mv_destinationTombstoneId q))]"

definition tombstone_fields :: "MoveRequest \<Rightarrow> (string \<times> json) list" where
  "tombstone_fields q = [(''sourceStreamId'', JStr (mv_sourceStreamId q)), (''sourceStreamSlug'', fst (mv_names q)),
     (''sourceStreamDisplayName'', fst (snd (mv_names q))), (''destinationStreamId'', JStr (mv_destinationStreamId q)),
     (''destinationStreamSlug'', fst (snd (snd (mv_names q)))), (''destinationStreamDisplayName'', snd (snd (snd (mv_names q)))),
     (''messages'', JArr (mv_previews q))]"

definition tombstone :: "MoveRequest \<Rightarrow> string \<Rightarrow> string \<Rightarrow> json \<Rightarrow> InsertEventParams" where
  "tombstone q i st payload = \<lparr>ie_id = i, ie_workspaceId = mv_workspaceId q, ie_streamId = st, ie_eventType = ''messages:moved'',
     ie_payload = payload, ie_actorId = Some (mv_actorId q), ie_actorType = Some ''user'', ie_createdAt = Some (mv_movedAt q)\<rparr>"

definition move_messages :: "MoveRequest \<Rightarrow> EventDb \<Rightarrow> move_error + EventDb" where
  "move_messages q db =
    (let ws = mv_workspaceId q; source = mv_sourceStreamId q; dest = mv_destinationStreamId q;
         movable = movable_events db q
     in if length (findMessageCreatedByMessageIdsForUpdate db ws source (mv_messageIds q)) \<noteq> length (mv_messageIds q)
        then Inl Move_source_events_missing
        else case getNextSequencePairs db ws dest (int (length movable)) of
          (db1, pairs) \<Rightarrow>
            case moveMessageCreatedEvents ws source dest (updates_for True (zip movable pairs)) (moved_from q) db1 of
              Inl e \<Rightarrow> Inl (Move_raised e)
            | Inr (db2, movedEvents) \<Rightarrow>
              (case moveEventsById ws source dest (updates_for False (zip movable pairs)) db2 of
                 Inl e \<Rightarrow> Inl (Move_raised e)
               | Inr (db3, movedAgentSessionEvents) \<Rightarrow>
                 (case event_insert (mv_movedAt q) (tombstone q (mv_sourceTombstoneId q) source
                         (JObj (tombstone_fields q @ [(''vacatedBroadcastSequences'', JArr (map JStr (vacatedBroadcastSequences movable)))]))) db3 of
                    Inl e \<Rightarrow> Inl (Move_raised e)
                  | Inr (db4, sourceTombstone) \<Rightarrow>
                    (case event_insert (mv_movedAt q) (tombstone q (mv_destinationTombstoneId q) dest (JObj (tombstone_fields q))) db4 of
                       Inl e \<Rightarrow> Inl (Move_raised e)
                     | Inr (db5, destinationTombstone) \<Rightarrow> Inr db5))))"

end
