(* ===== verification/Client_Cursor.thy ===== *)
theory Client_Cursor
  imports Threa_Prelude Slots
begin

text \<open>
  \<^verbatim>\<open>apps/frontend/src/sync/sync-log-cursor.ts\<close>: the client's position in the sync log of a workspace, held in memory by
  every tab and persisted in the IndexedDB table the tabs share.  A load and a persist are two steps each, since
  they await the database; the persist transaction itself is atomic.  \<open>None\<close> is a transaction that raised.
\<close>

section \<open>\<open>BigInt\<close> of a string\<close>

definition is_js_space :: "char \<Rightarrow> bool" where
  "is_js_space c \<longleftrightarrow> (of_char c :: nat) \<in> {9, 10, 11, 12, 13, 32, 160}"

definition js_trim :: "string \<Rightarrow> string" where
  "js_trim s = rev (dropWhile is_js_space (rev (dropWhile is_js_space s)))"

definition digit_value :: "char \<Rightarrow> nat option" where
  "digit_value c = (let n = of_char c :: nat in
     if 48 \<le> n \<and> n \<le> 57 then Some (n - 48) else if 97 \<le> n \<and> n \<le> 102 then Some (n - 87)
     else if 65 \<le> n \<and> n \<le> 70 then Some (n - 55) else None)"

fun radix_value :: "nat \<Rightarrow> nat \<Rightarrow> string \<Rightarrow> nat option" where
  "radix_value b acc [] = Some acc"
| "radix_value b acc (c # s) =
    (case digit_value c of None \<Rightarrow> None | Some d \<Rightarrow> if d < b then radix_value b (b * acc + d) s else None)"

definition signed_decimal :: "string \<Rightarrow> int option" where
  "signed_decimal s = (let (neg, ds) = (case s of c # r \<Rightarrow> if c = CHR ''-'' then (True, r) else if c = CHR ''+'' then (False, r) else (False, s) | [] \<Rightarrow> (False, []))
     in if ds \<noteq> [] \<and> list_all is_digit ds then Some ((if neg then -1 else 1) * int (digits_value ds)) else None)"

definition js_BigInt :: "string \<Rightarrow> int option" where
  "js_BigInt str = (let s = js_trim str; pre = take 2 s; ds = drop 2 s;
       radix = (if pre \<in> {''0x'', ''0X''} then 16 else if pre \<in> {''0o'', ''0O''} then 8 else if pre \<in> {''0b'', ''0B''} then 2 else 0)
     in if s = [] then Some 0
        else if radix \<noteq> 0 then (if ds = [] then None else map_option int (radix_value radix 0 ds))
        else signed_decimal s)"

lemma digit_not_space: "is_digit c \<Longrightarrow> \<not> is_js_space c"
  by (auto simp: is_digit_def is_js_space_def)

lemma dropWhile_id: "(s \<noteq> [] \<Longrightarrow> \<not> p (hd s)) \<Longrightarrow> dropWhile p s = s"
  by (cases s) auto

lemma js_trim_id: "s \<noteq> [] \<Longrightarrow> \<not> is_js_space (hd s) \<Longrightarrow> \<not> is_js_space (last s) \<Longrightarrow> js_trim s = s"
  by (simp add: js_trim_def dropWhile_id hd_rev)

lemma signed_decimal_digits: "signed_decimal (int_digits i) = Some i"
proof -
  have d: "list_all is_digit (nat_digits n)" for n using nat_digits_digits by (simp add: list_all_iff)
  have h: "nat_digits n = c # r \<Longrightarrow> c \<noteq> CHR ''-'' \<and> c \<noteq> CHR ''+''" for n c r
    using d [of n] by (auto simp: is_digit_def)
  show ?thesis
  proof (cases "i < 0")
    case False
    obtain c r where c: "nat_digits (nat i) = c # r" by (cases "nat_digits (nat i)") auto
    then have "signed_decimal (nat_digits (nat i)) = Some (int (digits_value (nat_digits (nat i))))"
      using h [OF c] d [of "nat i"] by (simp add: signed_decimal_def)
    then show ?thesis using False by (simp add: int_digits_def)
  qed (simp add: int_digits_def signed_decimal_def d)
qed

text \<open>What \<open>toString\<close> prints, \<open>BigInt\<close> reads back.\<close>

lemma js_BigInt_int_digits [simp]: "js_BigInt (int_digits i) = Some i"
proof -
  have d: "\<forall>c\<in>set (nat_digits n). is_digit c" for n by (rule nat_digits_digits)
  have chars: "c \<in> set (int_digits i) \<Longrightarrow> is_digit c \<or> c = CHR ''-''" for c using d by (auto simp: int_digits_def split: if_splits)
  have "\<not> is_js_space (CHR ''-'')" by (simp add: is_js_space_def)
  then have sp: "c \<in> set (int_digits i) \<Longrightarrow> \<not> is_js_space c" for c using chars digit_not_space by blast
  have ne: "int_digits i \<noteq> []" by (simp add: int_digits_def)
  then have t: "js_trim (int_digits i) = int_digits i" by (intro js_trim_id sp hd_in_set last_in_set)
  have "take 2 (int_digits i) \<noteq> [a, b]" if "\<not> is_digit b" "b \<noteq> CHR ''-''" for a b
    using that chars by (metis in_set_takeD list.set_intros(1) list.set_intros(2))
  then have "take 2 (int_digits i) \<notin> {''0x'', ''0X''}" "take 2 (int_digits i) \<notin> {''0o'', ''0O''}" "take 2 (int_digits i) \<notin> {''0b'', ''0B''}"
    by (simp_all add: is_digit_def)
  then show ?thesis using ne by (simp add: js_BigInt_def t Let_def signed_decimal_digits)
qed

section \<open>The cursor of a tab\<close>

record CursorRow =
  cr_cursor :: string
  cr_updatedAt :: timestamp

type_synonym cursor_table = "(string \<times> CursorRow) list"

record SyncLogCursor =
  ct_key :: string
  ct_value :: "int option"
  ct_loaded :: bool
  ct_loading :: "CursorRow option option"
  ct_persistTimer :: bool
  ct_disposed :: bool
  ct_inflight :: "int list"

definition syncLogCursorKey :: "string \<Rightarrow> string" where
  "syncLogCursorKey workspaceId = workspaceId @ '':sync-log''"

definition mkSyncLogCursor :: "string \<Rightarrow> SyncLogCursor" where
  "mkSyncLogCursor workspaceId = \<lparr>ct_key = syncLogCursorKey workspaceId, ct_value = None, ct_loaded = False, ct_loading = None,
     ct_persistTimer = False, ct_disposed = False, ct_inflight = []\<rparr>"

definition parseSyncId :: "string \<Rightarrow> int option" where
  "parseSyncId = js_BigInt"

definition load_begin :: "cursor_table \<Rightarrow> SyncLogCursor \<Rightarrow> SyncLogCursor" where
  "load_begin rows c = (if ct_loaded c then c else c\<lparr>ct_loaded := True, ct_loading := Some (map_of rows (ct_key c))\<rparr>)"

definition load_end :: "SyncLogCursor \<Rightarrow> SyncLogCursor" where
  "load_end c =
    (case ct_loading c of
       None \<Rightarrow> c
     | Some row \<Rightarrow>
         let c' = c\<lparr>ct_loading := None\<rparr>
         in (case row of
               None \<Rightarrow> c'
             | Some r \<Rightarrow>
                 (case parseSyncId (cr_cursor r) of
                    None \<Rightarrow> c'
                  | Some persisted \<Rightarrow>
                      if ct_value c = None \<or> persisted > the (ct_value c) then c'\<lparr>ct_value := Some persisted\<rparr> else c')))"

definition cursor_get :: "SyncLogCursor \<Rightarrow> string option" where
  "cursor_get c = map_option int_digits (ct_value c)"

definition advance :: "string \<Rightarrow> SyncLogCursor \<Rightarrow> SyncLogCursor" where
  "advance syncId c =
    (if ct_disposed c then c
     else (case parseSyncId syncId of
             None \<Rightarrow> c
           | Some candidate \<Rightarrow>
               if ct_value c \<noteq> None \<and> candidate \<le> the (ct_value c) then c
               else c\<lparr>ct_value := Some candidate, ct_persistTimer := True\<rparr>))"

definition persist_begin :: "SyncLogCursor \<Rightarrow> SyncLogCursor" where
  "persist_begin c =
    (if ct_disposed c then c
     else (case ct_value c of None \<Rightarrow> c | Some v \<Rightarrow> c\<lparr>ct_inflight := ct_inflight c @ [v]\<rparr>))"

definition on_persist_timer :: "SyncLogCursor \<Rightarrow> SyncLogCursor" where
  "on_persist_timer c = (if ct_persistTimer c then persist_begin (c\<lparr>ct_persistTimer := False\<rparr>) else c)"

definition cursor_flush :: "SyncLogCursor \<Rightarrow> SyncLogCursor" where
  "cursor_flush c = (if ct_disposed c then c else persist_begin (c\<lparr>ct_persistTimer := False\<rparr>))"

definition cursor_dispose :: "SyncLogCursor \<Rightarrow> SyncLogCursor" where
  "cursor_dispose c = c\<lparr>ct_disposed := True, ct_persistTimer := False\<rparr>"

definition persist_txn :: "timestamp \<Rightarrow> string \<Rightarrow> int \<Rightarrow> cursor_table \<Rightarrow> cursor_table option" where
  "persist_txn now key v rows =
    (let put = AList.update key \<lparr>cr_cursor = int_digits v, cr_updatedAt = now\<rparr> rows
     in case map_of rows key of
          None \<Rightarrow> Some put
        | Some existing \<Rightarrow> map_option (\<lambda>e. if e \<ge> v then rows else put) (js_BigInt (cr_cursor existing)))"

section \<open>Tabs that share the table\<close>

record CursorSys =
  cy_rows :: cursor_table
  cy_tabs :: "SyncLogCursor list"
  cy_advanced :: "(string \<times> int) set"  \<comment> \<open>every position a tab was advanced to, with its key\<close>

inductive cursor_step :: "CursorSys \<Rightarrow> CursorSys \<Rightarrow> bool" where
  cursor_open: "cursor_step s (s\<lparr>cy_tabs := cy_tabs s @ [mkSyncLogCursor ws]\<rparr>)"
| cursor_load: "i < length (cy_tabs s) \<Longrightarrow>
    cursor_step s (s\<lparr>cy_tabs := (cy_tabs s)[i := load_begin (cy_rows s) (cy_tabs s ! i)]\<rparr>)"
| cursor_loaded: "i < length (cy_tabs s) \<Longrightarrow> cursor_step s (s\<lparr>cy_tabs := (cy_tabs s)[i := load_end (cy_tabs s ! i)]\<rparr>)"
| cursor_advance: "i < length (cy_tabs s) \<Longrightarrow>
    cursor_step s (s\<lparr>cy_tabs := (cy_tabs s)[i := advance syncId (cy_tabs s ! i)],
      cy_advanced := cy_advanced s \<union> (case parseSyncId syncId of None \<Rightarrow> {} | Some n \<Rightarrow> {(ct_key (cy_tabs s ! i), n)})\<rparr>)"
| cursor_timer: "i < length (cy_tabs s) \<Longrightarrow> cursor_step s (s\<lparr>cy_tabs := (cy_tabs s)[i := on_persist_timer (cy_tabs s ! i)]\<rparr>)"
| cursor_flushes: "i < length (cy_tabs s) \<Longrightarrow> cursor_step s (s\<lparr>cy_tabs := (cy_tabs s)[i := cursor_flush (cy_tabs s ! i)]\<rparr>)"
| cursor_disposes: "i < length (cy_tabs s) \<Longrightarrow> cursor_step s (s\<lparr>cy_tabs := (cy_tabs s)[i := cursor_dispose (cy_tabs s ! i)]\<rparr>)"
| cursor_commit: "i < length (cy_tabs s) \<Longrightarrow> ct_inflight (cy_tabs s ! i) = vs @ v # vs' \<Longrightarrow>
    cursor_step s (s\<lparr>cy_rows := (case persist_txn now (ct_key (cy_tabs s ! i)) v (cy_rows s) of None \<Rightarrow> cy_rows s | Some rows \<Rightarrow> rows),
      cy_tabs := (cy_tabs s)[i := (cy_tabs s ! i)\<lparr>ct_inflight := vs @ vs'\<rparr>]\<rparr>)"

section \<open>The position never moves back\<close>

definition stored :: "cursor_table \<Rightarrow> string \<Rightarrow> int option" where
  "stored rows k = Option.bind (map_of rows k) (\<lambda>r. js_BigInt (cr_cursor r))"

definition rows_ok :: "cursor_table \<Rightarrow> bool" where
  "rows_ok rows \<longleftrightarrow> (\<forall>k r. map_of rows k = Some r \<longrightarrow> js_BigInt (cr_cursor r) \<noteq> None)"

lemma persist_txn_ok:
  assumes "rows_ok rows"
  obtains rows' where "persist_txn now k v rows = Some rows'" "rows_ok rows'"
    "stored rows' j = (if j = k then Some (case stored rows k of None \<Rightarrow> v | Some e \<Rightarrow> max e v) else stored rows j)"
proof (cases "map_of rows k")
  case None
  then show ?thesis using assms that
    by (auto simp: persist_txn_def Let_def rows_ok_def stored_def update_conv')
next
  case (Some r)
  then obtain e where e: "js_BigInt (cr_cursor r) = Some e" using assms by (auto simp: rows_ok_def)
  show ?thesis
    using that [of "if e \<ge> v then rows else AList.update k \<lparr>cr_cursor = int_digits v, cr_updatedAt = now\<rparr> rows"] assms Some e
    by (auto simp: persist_txn_def Let_def rows_ok_def stored_def update_conv')
qed

definition tab_known :: "(string \<times> int) set \<Rightarrow> SyncLogCursor \<Rightarrow> bool" where
  "tab_known known c \<longleftrightarrow> (\<forall>v. ct_value c = Some v \<longrightarrow> (ct_key c, v) \<in> known) \<and> (\<forall>v\<in>set (ct_inflight c). (ct_key c, v) \<in> known) \<and>
    (\<forall>r v. ct_loading c = Some (Some r) \<and> js_BigInt (cr_cursor r) = Some v \<longrightarrow> (ct_key c, v) \<in> known)"

definition cursor_inv :: "(string \<times> int) set \<Rightarrow> CursorSys \<Rightarrow> bool" where
  "cursor_inv origin s \<longleftrightarrow> rows_ok (cy_rows s) \<and> (\<forall>k v. stored (cy_rows s) k = Some v \<longrightarrow> (k, v) \<in> origin \<union> cy_advanced s) \<and>
    (\<forall>c\<in>set (cy_tabs s). tab_known (origin \<union> cy_advanced s) c)"

definition not_behind :: "SyncLogCursor \<Rightarrow> SyncLogCursor \<Rightarrow> bool" where
  "not_behind c c' \<longleftrightarrow> ct_key c' = ct_key c \<and> (\<forall>v. ct_value c = Some v \<longrightarrow> (\<exists>v'\<ge>v. ct_value c' = Some v'))"

lemma not_behind_refl [simp]: "not_behind c c"
  by (simp add: not_behind_def)

lemma tab_ops_not_behind:
  "not_behind c (load_begin rows c)" "not_behind c (load_end c)" "not_behind c (advance i c)" "not_behind c (on_persist_timer c)"
  "not_behind c (cursor_flush c)" "not_behind c (cursor_dispose c)" "not_behind c (c\<lparr>ct_inflight := vs\<rparr>)"
proof -
  have p: "not_behind c (persist_begin c)" for c by (simp add: persist_begin_def not_behind_def split: option.split)
  show "not_behind c (load_begin rows c)" by (simp add: load_begin_def not_behind_def)
  show "not_behind c (load_end c)" by (auto simp: load_end_def Let_def not_behind_def split: option.split)
  show "not_behind c (advance i c)" by (auto simp: advance_def not_behind_def split: option.split)
  show "not_behind c (on_persist_timer c)" using p [of "c\<lparr>ct_persistTimer := False\<rparr>"] by (simp add: on_persist_timer_def not_behind_def)
  show "not_behind c (cursor_flush c)" using p [of "c\<lparr>ct_persistTimer := False\<rparr>"] by (simp add: cursor_flush_def not_behind_def)
  show "not_behind c (cursor_dispose c)" by (simp add: cursor_dispose_def not_behind_def)
  show "not_behind c (c\<lparr>ct_inflight := vs\<rparr>)" by (simp add: not_behind_def)
qed

lemma tab_known_ops:
  assumes "tab_known known c"
  shows "tab_known known (load_end c)" "tab_known known (on_persist_timer c)" "tab_known known (cursor_flush c)" "tab_known known (cursor_dispose c)"
    and "parseSyncId i = Some n \<Longrightarrow> tab_known (known \<union> {(ct_key c, n)}) (advance i c)" "parseSyncId i = None \<Longrightarrow> tab_known known (advance i c)"
    and "(\<And>v. stored rows (ct_key c) = Some v \<Longrightarrow> (ct_key c, v) \<in> known) \<Longrightarrow> tab_known known (load_begin rows c)"
proof -
  have p: "tab_known known c \<Longrightarrow> tab_known known (persist_begin c)" for c by (auto simp: persist_begin_def tab_known_def split: option.split)
  have t: "tab_known known (c\<lparr>ct_persistTimer := False\<rparr>)" using assms by (auto simp: tab_known_def)
  show "tab_known known (load_end c)"
    using assms by (auto simp: load_end_def Let_def tab_known_def parseSyncId_def split: option.split)
  show "tab_known known (on_persist_timer c)" using p [OF t] assms by (simp add: on_persist_timer_def)
  show "tab_known known (cursor_flush c)" using p [OF t] assms by (simp add: cursor_flush_def)
  show "tab_known known (cursor_dispose c)" using assms by (auto simp: cursor_dispose_def tab_known_def)
  show "parseSyncId i = Some n \<Longrightarrow> tab_known (known \<union> {(ct_key c, n)}) (advance i c)" using assms by (auto simp: advance_def tab_known_def)
  show "parseSyncId i = None \<Longrightarrow> tab_known known (advance i c)" using assms by (simp add: advance_def)
  show "(\<And>v. stored rows (ct_key c) = Some v \<Longrightarrow> (ct_key c, v) \<in> known) \<Longrightarrow> tab_known known (load_begin rows c)"
    using assms by (auto simp: load_begin_def tab_known_def stored_def)
qed

lemma tab_known_mono: "tab_known known c \<Longrightarrow> known \<subseteq> known' \<Longrightarrow> tab_known known' c"
  by (auto simp: tab_known_def)

lemma cursor_inv_tab:
  assumes "cursor_inv origin s" and "tab_known (origin \<union> adv) c" and "cy_advanced s \<subseteq> adv"
  shows "cursor_inv origin (s\<lparr>cy_tabs := (cy_tabs s)[i := c], cy_advanced := adv\<rparr>)"
proof -
  have "tab_known (origin \<union> adv) d" if "d \<in> set ((cy_tabs s)[i := c])" for d
  proof -
    have "d = c \<or> d \<in> set (cy_tabs s)" using that set_update_subset_insert [of "cy_tabs s" i c] by auto
    then show ?thesis
      using assms tab_known_mono [of "origin \<union> cy_advanced s" d "origin \<union> adv"] by (auto simp: cursor_inv_def)
  qed
  then show ?thesis using assms by (auto simp: cursor_inv_def)
qed

lemma cursor_inv_op:
  assumes "cursor_inv origin s" and "i < length (cy_tabs s)"
    and "tab_known (origin \<union> cy_advanced s) (cy_tabs s ! i) \<Longrightarrow> tab_known (origin \<union> cy_advanced s) c"
  shows "cursor_inv origin (s\<lparr>cy_tabs := (cy_tabs s)[i := c]\<rparr>)"
proof -
  have "tab_known (origin \<union> cy_advanced s) c" using assms by (auto simp: cursor_inv_def)
  from cursor_inv_tab [OF assms(1) this subset_refl, of i] show ?thesis by simp
qed

lemma cursor_inv_step:
  assumes "cursor_step s s'" and inv: "cursor_inv origin s"
  shows "cursor_inv origin s'"
  using assms(1)
proof cases
  case (cursor_open ws)
  have "tab_known (origin \<union> cy_advanced s) (mkSyncLogCursor ws)" by (simp add: tab_known_def mkSyncLogCursor_def)
  then show ?thesis using inv cursor_open by (auto simp: cursor_inv_def)
next
  case (cursor_advance i syncId)
  then have known: "tab_known (origin \<union> cy_advanced s) (cy_tabs s ! i)" using inv by (auto simp: cursor_inv_def)
  show ?thesis
    unfolding cursor_advance(1)
    by (rule cursor_inv_tab [OF inv])
      (use tab_known_ops(5,6) [OF known, of syncId] in \<open>auto simp: Un_assoc split: option.split\<close>)
next
  case (cursor_commit i vs v vs' now)
  let ?c = "cy_tabs s ! i"
  have known: "tab_known (origin \<union> cy_advanced s) ?c" using inv cursor_commit(2) by (auto simp: cursor_inv_def)
  then have c: "tab_known (origin \<union> cy_advanced s) (?c\<lparr>ct_inflight := vs @ vs'\<rparr>)" and v: "(ct_key ?c, v) \<in> origin \<union> cy_advanced s"
    using cursor_commit(3) by (auto simp: tab_known_def)
  have ok: "rows_ok (cy_rows s)" using inv by (simp add: cursor_inv_def)
  obtain rows' where rows: "persist_txn now (ct_key ?c) v (cy_rows s) = Some rows'" "rows_ok rows'" using persist_txn_ok [OF ok] by metis
  have st: "stored rows' j = (if j = ct_key ?c then Some (case stored (cy_rows s) (ct_key ?c) of None \<Rightarrow> v | Some e \<Rightarrow> max e v) else stored (cy_rows s) j)" for j
    using persist_txn_ok [OF ok, of now "ct_key ?c" v j] rows(1) by (metis option.inject)
  have known_rows: "\<forall>k v. stored (cy_rows s) k = Some v \<longrightarrow> (k, v) \<in> origin \<union> cy_advanced s" using inv by (simp add: cursor_inv_def)
  have "(k, u) \<in> origin \<union> cy_advanced s" if "stored rows' k = Some u" for k u
    using that v known_rows unfolding st by (cases "stored (cy_rows s) (ct_key ?c)") (auto split: if_splits simp: max_def)
  then have "cursor_inv origin (s\<lparr>cy_rows := rows'\<rparr>)" using inv rows(2) by (simp add: cursor_inv_def)
  from cursor_inv_tab [OF this, of "cy_advanced s" "?c\<lparr>ct_inflight := vs @ vs'\<rparr>" i] c show ?thesis
    unfolding cursor_commit(1) rows(1) by simp
next
  case (cursor_load i)
  have "\<forall>k v. stored (cy_rows s) k = Some v \<longrightarrow> (k, v) \<in> origin \<union> cy_advanced s" using inv by (simp add: cursor_inv_def)
  then show ?thesis unfolding cursor_load(1) by (intro cursor_inv_op [OF inv cursor_load(2)] tab_known_ops(7)) auto
qed (simp_all add: cursor_inv_op [OF inv] tab_known_ops)

definition ahead :: "CursorSys \<Rightarrow> CursorSys \<Rightarrow> bool" where
  "ahead s s' \<longleftrightarrow> (\<forall>k v. stored (cy_rows s) k = Some v \<longrightarrow> (\<exists>v'\<ge>v. stored (cy_rows s') k = Some v')) \<and>
    length (cy_tabs s) \<le> length (cy_tabs s') \<and> (\<forall>i<length (cy_tabs s). not_behind (cy_tabs s ! i) (cy_tabs s' ! i))"

lemma not_behind_trans: "not_behind a b \<Longrightarrow> not_behind b c \<Longrightarrow> not_behind a c"
  unfolding not_behind_def by (metis order_trans)

lemma ahead_trans: "ahead a b \<Longrightarrow> ahead b c \<Longrightarrow> ahead a c"
  unfolding ahead_def by (meson not_behind_trans order_trans order_less_le_trans)

lemma ahead_tab: "not_behind (cy_tabs s ! i) c \<Longrightarrow> cy_rows s' = cy_rows s \<Longrightarrow> cy_tabs s' = (cy_tabs s)[i := c] \<Longrightarrow> ahead s s'"
proof -
  assume a: "not_behind (cy_tabs s ! i) c" "cy_rows s' = cy_rows s" "cy_tabs s' = (cy_tabs s)[i := c]"
  have "not_behind (cy_tabs s ! j) ((cy_tabs s)[i := c] ! j)" if "j < length (cy_tabs s)" for j
    using a(1) that by (cases "j = i") simp_all
  then show ?thesis using a(2,3) by (auto simp: ahead_def)
qed

lemma cursor_step_ahead:
  assumes "cursor_step s s'" and ok: "rows_ok (cy_rows s)"
  shows "ahead s s'"
  using assms(1)
proof cases
  case (cursor_commit i vs v vs' now)
  obtain rows' where r: "persist_txn now (ct_key (cy_tabs s ! i)) v (cy_rows s) = Some rows'" using persist_txn_ok [OF ok] by metis
  have "stored rows' j = (if j = ct_key (cy_tabs s ! i) then Some (case stored (cy_rows s) j of None \<Rightarrow> v | Some e \<Rightarrow> max e v) else stored (cy_rows s) j)" for j
    using persist_txn_ok [OF ok, of now "ct_key (cy_tabs s ! i)" v j] r by (metis option.inject)
  then show ?thesis unfolding cursor_commit(1) r ahead_def
    using cursor_commit(2) tab_ops_not_behind(7) by (auto simp: nth_list_update)
next
  case (cursor_open ws)
  then show ?thesis by (auto simp: ahead_def nth_append)
qed (auto intro!: ahead_tab simp: tab_ops_not_behind)

text \<open>
  C34.  However many tabs load, advance, persist and close in whatever order, a workspace's stored position and the
  position of every tab only grow, and none of them is ever a position that no tab was advanced to and that was
  not stored before the tabs opened.
\<close>

theorem sync_position_never_regresses:
  assumes "cursor_step\<^sup>*\<^sup>* s0 s" and "cursor_step\<^sup>*\<^sup>* s s'" and "cy_tabs s0 = []" and "rows_ok (cy_rows s0)"
  shows "ahead s s' \<and>
    (\<forall>k v. stored (cy_rows s') k = Some v \<longrightarrow> stored (cy_rows s0) k = Some v \<or> (k, v) \<in> cy_advanced s') \<and>
    (\<forall>c\<in>set (cy_tabs s'). \<forall>v. ct_value c = Some v \<longrightarrow> stored (cy_rows s0) (ct_key c) = Some v \<or> (ct_key c, v) \<in> cy_advanced s')"
proof -
  let ?o = "{(k, v). stored (cy_rows s0) k = Some v}"
  have "cursor_inv ?o s0" using assms(3,4) by (simp add: cursor_inv_def)
  with assms(1) have i: "cursor_inv ?o s" by (induction rule: rtranclp_induct) (auto intro: cursor_inv_step)
  from assms(2) have "ahead s s' \<and> cursor_inv ?o s'"
  proof (induction rule: rtranclp_induct)
    case (step y z)
    have "rows_ok (cy_rows y)" using step(3) by (simp add: cursor_inv_def)
    then show ?case using step(3) cursor_step_ahead [OF step(2)] cursor_inv_step [OF step(2)] ahead_trans by blast
  qed (simp add: i ahead_def)
  then show ?thesis by (auto simp: cursor_inv_def tab_known_def)
qed

text \<open>Once a flush has committed, the stored position is at least the one the tab held when it flushed.\<close>

lemma flush_is_durable:
  assumes "rows_ok rows" and "ct_value c = Some v" and "\<not> ct_disposed c"
  shows "last (ct_inflight (cursor_flush c)) = v \<and>
    (\<exists>rows' v'. persist_txn now (ct_key c) v rows = Some rows' \<and> stored rows' (ct_key c) = Some v' \<and> v \<le> v')"
proof -
  obtain rows' where "persist_txn now (ct_key c) v rows = Some rows'"
    "stored rows' (ct_key c) = Some (case stored rows (ct_key c) of None \<Rightarrow> v | Some e \<Rightarrow> max e v)"
    using persist_txn_ok [OF assms(1), of now "ct_key c" v "ct_key c"] by auto
  then show ?thesis using assms(2,3) by (auto simp: cursor_flush_def persist_begin_def split: option.split)
qed

definition ex_tabs :: CursorSys where
  "ex_tabs = \<lparr>cy_rows = [(''ws:sync-log'', \<lparr>cr_cursor = ''41'', cr_updatedAt = 0\<rparr>)], cy_tabs = [], cy_advanced = {}\<rparr>"

definition ex_tab :: SyncLogCursor where
  "ex_tab = mkSyncLogCursor ''ws''"

theorem sync_position_never_regresses_witness:
  "\<exists>s'. cursor_step\<^sup>*\<^sup>* ex_tabs s' \<and> stored (cy_rows s') ''ws:sync-log'' = Some 45 \<and>
    (stored (cy_rows ex_tabs) ''ws:sync-log'' = Some 45 \<or> (''ws:sync-log'', 45) \<in> cy_advanced s')"
proof -
  let ?s1 = "ex_tabs\<lparr>cy_tabs := cy_tabs ex_tabs @ [mkSyncLogCursor ''ws'']\<rparr>"
  let ?s2 = "?s1\<lparr>cy_tabs := (cy_tabs ?s1)[0 := advance ''45'' (cy_tabs ?s1 ! 0)],
      cy_advanced := cy_advanced ?s1 \<union> (case parseSyncId ''45'' of None \<Rightarrow> {} | Some n \<Rightarrow> {(ct_key (cy_tabs ?s1 ! 0), n)})\<rparr>"
  let ?s3 = "?s2\<lparr>cy_tabs := (cy_tabs ?s2)[0 := cursor_flush (cy_tabs ?s2 ! 0)]\<rparr>"
  let ?s4 = "?s3\<lparr>cy_rows := (case persist_txn 9 (ct_key (cy_tabs ?s3 ! 0)) 45 (cy_rows ?s3) of None \<Rightarrow> cy_rows ?s3 | Some rows \<Rightarrow> rows),
      cy_tabs := (cy_tabs ?s3)[0 := (cy_tabs ?s3 ! 0)\<lparr>ct_inflight := [] @ []\<rparr>]\<rparr>"
  have l: "0 < length (cy_tabs ?s1)" "0 < length (cy_tabs ?s2)" "0 < length (cy_tabs ?s3)" by simp_all
  have f: "ct_inflight (cy_tabs ?s3 ! 0) = [] @ 45 # []" by code_simp
  have st: "stored (cy_rows ?s4) ''ws:sync-log'' = Some 45" by code_simp
  have "cursor_step\<^sup>*\<^sup>* ex_tabs ?s4"
    using cursor_open [of ex_tabs "''ws''"] cursor_advance [OF l(1), of "''45''"] cursor_flushes [OF l(2)] cursor_commit [OF l(3) f, of 9]
    by (meson converse_rtranclp_into_rtranclp rtranclp.rtrancl_refl)
  moreover have "rows_ok (cy_rows ex_tabs)" "cy_tabs ex_tabs = []" 
  proof -
    have "js_BigInt ''41'' = Some 41" by code_simp
    then show "rows_ok (cy_rows ex_tabs)" by (simp add: rows_ok_def ex_tabs_def)
  qed (simp add: ex_tabs_def)
  ultimately show ?thesis
    using sync_position_never_regresses [of ex_tabs ex_tabs ?s4] st by blast
qed

end
