(* ===== verification/Contiguity.thy ===== *)
theory Contiguity
  imports Client_Cursor
begin

text \<open>
  \<^verbatim>\<open>apps/frontend/src/sync/contiguity.ts\<close>: how the client sees that rows are missing from a rendered timeline.  Slots are
  written by the server as decimal strings; \<open>Number\<close> is exact on them below two to the fifty-third, and the texts of
  fractions, which the server never writes, are outside the model.
\<close>

record ContiguityCheckEvent =
  cc_id :: string
  cc_sequence :: string
  cc_broadcastSequence :: "string option"
  cc_eventType :: string
  cc_payload :: json
  cc_status :: "string option"

record TimelineHole =
  th_afterEventId :: string
  th_afterSequence :: string
  th_missingCount :: nat

text \<open>\<open>Number(v)\<close>, with \<open>None\<close> for \<open>NaN\<close>.\<close>

fun js_Number :: "json \<Rightarrow> int option" where
  "js_Number JUndefined = None"
| "js_Number JNull = Some 0"
| "js_Number (JBool b) = Some (if b then 1 else 0)"
| "js_Number (JNum n) = Some n"
| "js_Number (JStr s) = js_BigInt s"
| "js_Number (JArr vs) = js_BigInt (js_string (JArr vs))"
| "js_Number (JObj _) = None"

definition declared_slots :: "ContiguityCheckEvent \<Rightarrow> int list" where
  "declared_slots event =
    (if cc_eventType event \<noteq> ''messages:moved'' then []
     else case jget ''vacatedBroadcastSequences'' (cc_payload event) of
       Some (JArr declared) \<Rightarrow> List.map_filter js_Number declared
     | _ \<Rightarrow> [])"

definition collectVacatedBroadcastSlots :: "ContiguityCheckEvent list \<Rightarrow> int set" where
  "collectVacatedBroadcastSlots events = set (concat (map declared_slots events))"

definition in_chain :: "ContiguityCheckEvent \<Rightarrow> bool" where
  "in_chain event \<longleftrightarrow> cc_status event \<notin> {Some ''pending'', Some ''failed''} \<and> cc_broadcastSequence event \<noteq> None"

text \<open>A slot that is no number ends the inner loop at once.\<close>

definition missing_slots :: "int set \<Rightarrow> ContiguityCheckEvent \<Rightarrow> ContiguityCheckEvent \<Rightarrow> nat" where
  "missing_slots vacated previous current =
    (case (js_BigInt (the (cc_broadcastSequence previous)), js_BigInt (the (cc_broadcastSequence current))) of
       (Some previousSlot, Some currentSlot) \<Rightarrow> length (filter (\<lambda>slot. slot \<notin> vacated) [previousSlot + 1..currentSlot - 1])
     | _ \<Rightarrow> 0)"

fun chain_holes :: "int set \<Rightarrow> ContiguityCheckEvent list \<Rightarrow> TimelineHole list" where
  "chain_holes vacated (previous # current # rest) =
    (let missingCount = missing_slots vacated previous current
     in (if missingCount > 0
         then [\<lparr>th_afterEventId = cc_id previous, th_afterSequence = cc_sequence previous, th_missingCount = missingCount\<rparr>] else []) @
        chain_holes vacated (current # rest))"
| "chain_holes vacated _ = []"

definition computeTimelineHoles :: "ContiguityCheckEvent list \<Rightarrow> TimelineHole list" where
  "computeTimelineHoles events = chain_holes (collectVacatedBroadcastSlots events) (filter in_chain events)"

fun join_with :: "string \<Rightarrow> string list \<Rightarrow> string" where
  "join_with sep [] = ''''"
| "join_with sep [s] = s"
| "join_with sep (s # ss) = s @ sep @ join_with sep ss"

definition holesSignature :: "TimelineHole list \<Rightarrow> string" where
  "holesSignature holes = join_with ''|'' (map (\<lambda>h. th_afterEventId h @ '':'' @ nat_digits (th_missingCount h)) holes)"

end
