(* ===== verification/Timeline_Chain.thy ===== *)
theory Timeline_Chain
  imports Message_Move Contiguity
begin

text \<open>
  The two counters of a stream, the move of messages between streams and the client's hole scan, together.  The first
  part shows that the broadcast chain of every stream stays dense but for the slots its tombstones declare, whatever
  events are inserted and moved; the second that the scan of \<^verbatim>\<open>contiguity.ts\<close> finds exactly the rows a client misses.
\<close>

section \<open>The counters\<close>

definition nextS :: "EventDb \<Rightarrow> string \<Rightarrow> string \<Rightarrow> int" where
  "nextS db ws st = case_option 1 sq_nextSequence (find (counter_of ws st) (stream_sequences db))"

definition nextB :: "EventDb \<Rightarrow> string \<Rightarrow> string \<Rightarrow> int" where
  "nextB db ws st = case_option 1 sq_nextBroadcastSequence (find (counter_of ws st) (stream_sequences db))"

lemma find_row_update:
  assumes "\<And>x. q (f x) \<longleftrightarrow> q x"
  shows "find q (sql_update p f xs) = map_option (\<lambda>x. if p x then f x else x) (find q xs)"
  using assms by (induction xs) auto

lemma counter_of_put [simp]:
  "counter_of ws st (q\<lparr>sq_nextSequence := a, sq_nextBroadcastSequence := b\<rparr>) \<longleftrightarrow> counter_of ws st q"
  by (simp add: counter_of_def)

lemma counter_same: "counter_of ws st q \<Longrightarrow> counter_of ws' st' q \<longleftrightarrow> ws' = ws \<and> st' = st"
  by (auto simp: counter_of_def)

lemma find_SomeD: "find p xs = Some x \<Longrightarrow> p x"
  by (auto simp: find_Some_iff)

lemma allocateSequences_spec:
  assumes "allocateSequences db ws st n nb = (db', s, b)"
  shows "s = nextS db ws st" "b = nextB db ws st" "stream_events db' = stream_events db"
    "nextS db' ws' st' = (if ws' = ws \<and> st' = st then nextS db ws st + n else nextS db ws' st')"
    "nextB db' ws' st' = (if ws' = ws \<and> st' = st then nextB db ws st + nb else nextB db ws' st')"
proof -
  let ?f = "\<lambda>q. q\<lparr>sq_nextSequence := sq_nextSequence q + n, sq_nextBroadcastSequence := sq_nextBroadcastSequence q + nb\<rparr>"
  note d = assms [unfolded allocateSequences_def]
  show "s = nextS db ws st" "b = nextB db ws st" "stream_events db' = stream_events db"
    using d by (auto simp: nextS_def nextB_def split: option.splits)
  have "nextS db' ws' st' = (if ws' = ws \<and> st' = st then nextS db ws st + n else nextS db ws' st') \<and>
    nextB db' ws' st' = (if ws' = ws \<and> st' = st then nextB db ws st + nb else nextB db ws' st')"
  proof (cases "find (counter_of ws st) (stream_sequences db)")
    case None
    then have e: "stream_sequences db' = stream_sequences db @
        [\<lparr>sq_workspaceId = ws, sq_streamId = st, sq_nextSequence = n + 1, sq_nextBroadcastSequence = nb + 1\<rparr>]"
      using d by auto
    show ?thesis
      using None by (auto simp: nextS_def nextB_def e find_append counter_of_def split: option.splits)
  next
    case (Some q)
    then have e: "stream_sequences db' = sql_update (counter_of ws st) ?f (stream_sequences db)" using d by auto
    have u: "find (counter_of w t) (stream_sequences db') = map_option (\<lambda>q. if counter_of ws st q then ?f q else q) (find (counter_of w t) (stream_sequences db))" for w t
      unfolding e by (rule find_row_update) (simp_all add: counter_of_def)
    have own: "find (counter_of ws st) (stream_sequences db') = Some (?f q)" using Some find_SomeD [OF Some] by (simp add: u)
    have other: "find (counter_of ws' st') (stream_sequences db') = find (counter_of ws' st') (stream_sequences db)" if "\<not> (ws' = ws \<and> st' = st)"
    proof (cases "find (counter_of ws' st') (stream_sequences db)")
      case (Some q')
      then show ?thesis using find_SomeD [OF Some] that by (auto simp: u counter_same [of ws' st' q'])
    qed (simp add: u)
    show ?thesis
      using own other Some by (auto simp: nextS_def nextB_def)
  qed
  then show "nextS db' ws' st' = (if ws' = ws \<and> st' = st then nextS db ws st + n else nextS db ws' st')" "nextB db' ws' st' = (if ws' = ws \<and> st' = st then nextB db ws st + nb else nextB db ws' st')"
    by blast+
qed

section \<open>The chain of one stream\<close>

definition cached_event :: "StreamEventRow \<Rightarrow> ContiguityCheckEvent" where
  "cached_event r = \<lparr>cc_id = sv_id r, cc_sequence = int_digits (sv_sequence r), cc_broadcastSequence = map_option int_digits (sv_broadcastSequence r),
     cc_eventType = sv_eventType r, cc_payload = sv_payload r, cc_status = None\<rparr>"

abbreviation declares :: "StreamEventRow \<Rightarrow> int set" where
  "declares r \<equiv> set (declared_slots (cached_event r))"

abbreviation slot_of :: "StreamEventRow \<Rightarrow> int option" where
  "slot_of \<equiv> sv_broadcastSequence"

definition numbered_row :: "int \<Rightarrow> int \<Rightarrow> StreamEventRow \<Rightarrow> bool" where
  "numbered_row nS nB r \<longleftrightarrow> 1 \<le> sv_sequence r \<and> sv_sequence r < nS \<and>
    (case slot_of r of None \<Rightarrow> \<not> isTimelineBroadcastEventType (sv_eventType r)
     | Some b \<Rightarrow> isTimelineBroadcastEventType (sv_eventType r) \<and> 1 \<le> b \<and> b < nB)"

definition same_order :: "StreamEventRow \<Rightarrow> StreamEventRow \<Rightarrow> bool" where
  "same_order r q \<longleftrightarrow> (\<forall>b c. sv_sequence r < sv_sequence q \<longrightarrow> slot_of r = Some b \<longrightarrow> slot_of q = Some c \<longrightarrow> b < c)"

text \<open>\<open>vacant\<close>: the slots vacated by a move whose tombstone is still to be written.\<close>

definition chain :: "int \<Rightarrow> int \<Rightarrow> int set \<Rightarrow> StreamEventRow set \<Rightarrow> bool" where
  "chain nS nB vacant rows \<longleftrightarrow>
    1 \<le> nS \<and> 1 \<le> nB \<and>
    (\<forall>r\<in>rows. numbered_row nS nB r) \<and>
    (\<forall>r\<in>rows. \<forall>q\<in>rows. same_order r q) \<and>
    (\<forall>s. 1 \<le> s \<longrightarrow> s < nB \<longrightarrow> s \<in> vacant \<or> (\<exists>r\<in>rows. slot_of r = Some s \<or> s \<in> declares r)) \<and>
    (\<forall>r\<in>rows. \<forall>s\<in>declares r. \<exists>b. slot_of r = Some b \<and> s < b) \<and>
    (\<forall>r\<in>rows. \<forall>q\<in>rows. \<forall>s\<in>declares r. slot_of q \<noteq> Some s) \<and>
    (\<forall>s\<in>vacant. s < nB \<and> (\<forall>q\<in>rows. slot_of q \<noteq> Some s))"

lemma chain_empty: "chain 1 1 {} {}"
  by (simp add: chain_def)

lemma chain_add:
  assumes c: "chain nS nB vacant rows" and s: "sv_sequence r = nS"
    and b: "slot_of r = (if isTimelineBroadcastEventType (sv_eventType r) then Some nB else None)"
    and d: "declares r \<subseteq> vacant" "declares r \<noteq> {} \<Longrightarrow> isTimelineBroadcastEventType (sv_eventType r)"
  shows "chain (nS + 1) (if isTimelineBroadcastEventType (sv_eventType r) then nB + 1 else nB) (vacant - declares r) (insert r rows)"
proof -
  let ?nB = "if isTimelineBroadcastEventType (sv_eventType r) then nB + 1 else nB"
  have num: "numbered_row nS nB q" if "q \<in> rows" for q using c that by (simp add: chain_def)
  have up: "numbered_row (nS + 1) ?nB q" if "q \<in> rows" for q
    using num [OF that] by (auto simp: numbered_row_def split: option.splits)
  have below: "slot_of q = Some x \<Longrightarrow> x < nB" "sv_sequence q < nS" if "q \<in> rows" for q x
    using num [OF that] by (auto simp: numbered_row_def split: option.splits)
  have base: "1 \<le> nS" "1 \<le> nB" using c by (auto simp: chain_def)
  have own: "numbered_row (nS + 1) ?nB r" using s b base by (simp add: numbered_row_def)
  have ord: "same_order p q" if "p \<in> insert r rows" "q \<in> insert r rows" for p q
  proof (cases "q = r")
    case True then show ?thesis using that below s b by (auto simp: same_order_def split: if_splits dest: below)
  next
    case q: False
    show ?thesis
    proof (cases "p = r")
      case True then show ?thesis using q that below(2) [of q] s by (auto simp: same_order_def)
    qed (use q that c in \<open>auto simp: chain_def\<close>)
  qed
  have vac: "x < nB" if "x \<in> vacant" for x using c that by (simp add: chain_def)
  have dens: "x \<in> vacant - declares r \<or> (\<exists>q\<in>insert r rows. slot_of q = Some x \<or> x \<in> declares q)" if "1 \<le> x" "x < ?nB" for x
  proof (cases "x < nB")
    case True
    then have "x \<in> vacant \<or> (\<exists>q\<in>rows. slot_of q = Some x \<or> x \<in> declares q)" using c that by (simp add: chain_def)
    then show ?thesis by blast
  next
    case False
    then have "slot_of r = Some x" using that b by (simp split: if_splits)
    then show ?thesis by blast
  qed
  have decl: "\<exists>y. slot_of q = Some y \<and> x < y" if "q \<in> insert r rows" "x \<in> declares q" for q x
  proof (cases "q = r")
    case True
    then have "declares r \<noteq> {}" using that by (metis empty_iff)
    then show ?thesis using True b d that vac by (simp add: subset_iff)
  next
    case False then show ?thesis using c that by (simp add: chain_def)
  qed
  have old: "slot_of q \<noteq> Some x" if "p \<in> rows" "q \<in> rows" "x \<in> declares p" for p q x using c that by (simp add: chain_def)
  have free: "slot_of q \<noteq> Some x" if "q \<in> insert r rows" "x \<in> vacant" for q x
  proof (cases "q = r")
    case True then show ?thesis using vac [OF that(2)] b by (auto split: if_splits)
  next
    case False then show ?thesis using c that by (simp add: chain_def)
  qed
  have occ: "slot_of q \<noteq> Some x" if pq: "p \<in> insert r rows" "q \<in> insert r rows" "x \<in> declares p" for p q x
  proof (cases "p = r")
    case True then show ?thesis using free [OF that(2), of x] that(3) d(1) by blast
  next
    case p: False
    then obtain y where y: "slot_of p = Some y" "x < y" using decl [OF pq(1,3)] by blast
    have "p \<in> rows" using p that(1) by blast
    then have "y < nB" using y(1) by (rule below(1))
    then show ?thesis using \<open>p \<in> rows\<close> that(2,3) y old [of p q x] b by (cases "q = r") (auto split: if_splits)
  qed
  show ?thesis unfolding chain_def
  proof (intro conjI)
    show "\<forall>q\<in>insert r rows. numbered_row (nS + 1) ?nB q" using own up by blast
    show "\<forall>x\<in>vacant - declares r. x < ?nB \<and> (\<forall>q\<in>insert r rows. slot_of q \<noteq> Some x)" using free vac by fastforce
    show "\<forall>x. 1 \<le> x \<longrightarrow> x < ?nB \<longrightarrow> x \<in> vacant - declares r \<or> (\<exists>q\<in>insert r rows. slot_of q = Some x \<or> x \<in> declares q)"
      using dens by blast
    show "\<forall>p\<in>insert r rows. \<forall>q\<in>insert r rows. same_order p q" using ord by blast
    show "\<forall>q\<in>insert r rows. \<forall>x\<in>declares q. \<exists>y. slot_of q = Some y \<and> x < y" using decl by blast
    show "\<forall>p\<in>insert r rows. \<forall>q\<in>insert r rows. \<forall>x\<in>declares p. slot_of q \<noteq> Some x" using occ by blast
    show "1 \<le> nS + 1" "1 \<le> ?nB" using base by simp_all
  qed
qed

lemma chain_remove:
  assumes "chain nS nB vacant rows" "\<forall>r\<in>rows - rest. declares r = {}" "rest \<subseteq> rows"
    "\<And>r q. r \<in> rows - rest \<Longrightarrow> q \<in> rest \<Longrightarrow> slot_of r \<noteq> None \<Longrightarrow> slot_of r \<noteq> slot_of q"
  shows "chain nS nB (vacant \<union> {s. \<exists>r\<in>rows - rest. slot_of r = Some s}) rest"
proof -
  let ?V = "vacant \<union> {s. \<exists>r\<in>rows - rest. slot_of r = Some s}"
  have dens: "s \<in> ?V \<or> (\<exists>r\<in>rest. slot_of r = Some s \<or> s \<in> declares r)" if s: "1 \<le> s" "s < nB" for s
  proof -
    consider "s \<in> vacant" | r where "r \<in> rows" "slot_of r = Some s \<or> s \<in> declares r" using assms(1) s by (auto simp: chain_def)
    then show ?thesis
    proof cases
      case 2
      then show ?thesis using assms(2) by (cases "r \<in> rest") auto
    qed blast
  qed
  have free: "s < nB \<and> (\<forall>q\<in>rest. slot_of q \<noteq> Some s)" if s: "s \<in> ?V" for s
  proof (cases "s \<in> vacant")
    case True
    then have "s < nB \<and> (\<forall>q\<in>rows. slot_of q \<noteq> Some s)" using assms(1) by (simp add: chain_def)
    then show ?thesis using assms(3) by blast
  next
    case False
    then obtain r where r: "r \<in> rows - rest" "slot_of r = Some s" using s by blast
    then have "numbered_row nS nB r" using assms(1) by (simp add: chain_def)
    then have "s < nB" using r by (simp add: numbered_row_def)
    moreover have "slot_of q \<noteq> Some s" if "q \<in> rest" for q using assms(4) [OF r(1) that] r(2) by auto
    ultimately show ?thesis by blast
  qed
  have all: "(\<forall>r\<in>rest. numbered_row nS nB r) \<and> (\<forall>r\<in>rest. \<forall>q\<in>rest. same_order r q) \<and>
      (\<forall>r\<in>rest. \<forall>s\<in>declares r. \<exists>b. slot_of r = Some b \<and> s < b) \<and>
      (\<forall>r\<in>rest. \<forall>q\<in>rest. \<forall>s\<in>declares r. slot_of q \<noteq> Some s)"
    using assms(1,3) unfolding chain_def by (meson subsetD)
  show ?thesis unfolding chain_def
  proof (intro conjI)
    show "\<forall>s. 1 \<le> s \<longrightarrow> s < nB \<longrightarrow> s \<in> ?V \<or> (\<exists>r\<in>rest. slot_of r = Some s \<or> s \<in> declares r)" using dens by blast
    show "\<forall>s\<in>?V. s < nB \<and> (\<forall>q\<in>rest. slot_of q \<noteq> Some s)" using free by blast
    show "1 \<le> nS" "1 \<le> nB" using assms(1) by (simp_all add: chain_def)
  qed (use all in blast)+
qed

text \<open>Rows that take the next numbers in list order and declare nothing.\<close>

fun numbered :: "int \<Rightarrow> int \<Rightarrow> StreamEventRow list \<Rightarrow> bool" where
  "numbered s b [] \<longleftrightarrow> True"
| "numbered s b (r # rs) \<longleftrightarrow>
    sv_sequence r = s \<and> slot_of r = (if isTimelineBroadcastEventType (sv_eventType r) then Some b else None) \<and> declares r = {} \<and>
    numbered (s + 1) (if isTimelineBroadcastEventType (sv_eventType r) then b + 1 else b) rs"

definition broadcasts :: "StreamEventRow list \<Rightarrow> int" where
  "broadcasts rs = int (length (filter (\<lambda>r. isTimelineBroadcastEventType (sv_eventType r)) rs))"

lemma chain_add_many:
  "chain nS nB vacant rows \<Longrightarrow> numbered nS nB rs \<Longrightarrow> chain (nS + int (length rs)) (nB + broadcasts rs) vacant (rows \<union> set rs)"
proof (induction rs arbitrary: nS nB rows)
  case (Cons r rs)
  let ?b = "isTimelineBroadcastEventType (sv_eventType r)"
  have "chain (nS + 1) (if ?b then nB + 1 else nB) (vacant - declares r) (insert r rows)"
    using Cons.prems by (intro chain_add) auto
  then have "chain (nS + 1) (if ?b then nB + 1 else nB) vacant (insert r rows)" using Cons.prems(2) by simp
  from Cons.IH [OF this] Cons.prems(2)
  have "chain (nS + 1 + int (length rs)) ((if ?b then nB + 1 else nB) + broadcasts rs) vacant (insert r rows \<union> set rs)" by simp
  moreover have "(if ?b then nB + 1 else nB) + broadcasts rs = nB + broadcasts (r # rs)" by (simp add: broadcasts_def)
  moreover have "insert r rows \<union> set rs = rows \<union> set (r # rs)" by simp
  ultimately show ?case by (simp add: algebra_simps)
qed (simp add: broadcasts_def)

section \<open>The chain of every stream\<close>

definition stream_rows :: "EventDb \<Rightarrow> string \<Rightarrow> string \<Rightarrow> StreamEventRow set" where
  "stream_rows db ws st = {r \<in> set (stream_events db). of_stream ws st r}"

definition chains_dense :: "EventDb \<Rightarrow> bool" where
  "chains_dense db \<longleftrightarrow> events_unique (stream_events db) \<and>
    (\<forall>ws st. chain (nextS db ws st) (nextB db ws st) {} (stream_rows db ws st))"

lemma chains_dense_empty: "chains_dense \<lparr>stream_events = [], stream_sequences = []\<rparr>"
  by (simp add: chains_dense_def events_unique_def nextS_def nextB_def stream_rows_def chain_empty)

lemma declares_only_tombstones: "sv_eventType r \<noteq> ''messages:moved'' \<Longrightarrow> declares r = {}"
  by (simp add: declared_slots_def cached_event_def)

lemma add_events_rows:
  "add_events rows db = Inr (db', es) \<Longrightarrow>
    stream_sequences db' = stream_sequences db \<and> events_unique (stream_events db') \<and> stream_events db' = stream_events db @ rows"
  by (auto simp: add_events_def split: if_splits)

lemma next_same_sequences:
  "stream_sequences db' = stream_sequences db \<Longrightarrow> nextS db' = nextS db \<and> nextB db' = nextB db"
  by (auto simp: nextS_def nextB_def fun_eq_iff)

text \<open>Any statement that takes numbers from a stream's counters and appends the rows that carry them.\<close>

lemma append_keeps_chains:
  assumes inv: "chains_dense db" and a: "allocateSequences db ws st (int (length rows)) (broadcasts rows) = (db1, s, b)"
    and n: "numbered s b rows" and st: "\<forall>r\<in>set rows. of_stream ws st r" and i: "add_events rows db1 = Inr (db', es)"
  shows "chains_dense db'"
proof -
  note al = allocateSequences_spec [OF a]
  note ad = add_events_rows [OF i] next_same_sequences [of db' db1]
  have rows: "stream_rows db' ws' st' = (if ws' = ws \<and> st' = st then stream_rows db ws st \<union> set rows else stream_rows db ws' st')" for ws' st'
    using ad al(3) st by (auto simp: stream_rows_def of_stream_def)
  have "chain (nextS db' ws' st') (nextB db' ws' st') {} (stream_rows db' ws' st')" for ws' st'
  proof (cases "ws' = ws \<and> st' = st")
    case True
    have "chain (nextS db ws st) (nextB db ws st) {} (stream_rows db ws st)" using inv by (simp add: chains_dense_def)
    from chain_add_many [OF this, of rows] n al(1,2) True ad show ?thesis by (simp add: rows al(4,5))
  next
    case False
    then have "nextS db' ws' st' = nextS db ws' st' \<and> nextB db' ws' st' = nextB db ws' st' \<and> stream_rows db' ws' st' = stream_rows db ws' st'"
      using ad by (auto simp: rows al(4,5))
    then show ?thesis using inv by (simp add: chains_dense_def)
  qed
  moreover have "events_unique (stream_events db')" using ad by blast
  ultimately show ?thesis by (simp add: chains_dense_def)
qed

text \<open>One event; a tombstone may declare slots that its stream has vacated.\<close>

definition chains :: "(string \<times> string \<Rightarrow> int set) \<Rightarrow> EventDb \<Rightarrow> bool" where
  "chains vacant db \<longleftrightarrow> events_unique (stream_events db) \<and>
    (\<forall>ws st. chain (nextS db ws st) (nextB db ws st) (vacant (ws, st)) (stream_rows db ws st))"

lemma chains_dense_chains: "chains_dense db \<longleftrightarrow> chains (\<lambda>_. {}) db"
  by (simp add: chains_def chains_dense_def)

definition payload_slots :: "string \<Rightarrow> json \<Rightarrow> int set" where
  "payload_slots t payload = set (declared_slots \<lparr>cc_id = [], cc_sequence = [], cc_broadcastSequence = None, cc_eventType = t, cc_payload = payload, cc_status = None\<rparr>)"

lemma declares_payload: "declares r = payload_slots (sv_eventType r) (sv_payload r)"
  by (simp add: payload_slots_def declared_slots_def cached_event_def)

lemma event_insert_chains:
  assumes inv: "chains vacant db" and i: "event_insert now p db = Inr (db', e)"
    and d: "payload_slots (ie_eventType p) (ie_payload p) \<subseteq> vacant (ie_workspaceId p, ie_streamId p)"
  shows "chains (vacant((ie_workspaceId p, ie_streamId p) :=
           vacant (ie_workspaceId p, ie_streamId p) - payload_slots (ie_eventType p) (ie_payload p))) db'"
proof -
  let ?b = "isTimelineBroadcastEventType (ie_eventType p)"
  let ?ws = "ie_workspaceId p" let ?st = "ie_streamId p"
  obtain db1 s b where a: "allocateSequences db ?ws ?st 1 (if ?b then 1 else 0) = (db1, s, b)"
    by (metis prod_cases3)
  define row where "row = \<lparr>sv_id = ie_id p, sv_workspaceId = ie_workspaceId p, sv_streamId = ie_streamId p, sv_sequence = s,
                sv_broadcastSequence = (if ?b then Some b else None), sv_eventType = ie_eventType p,
                sv_payload = ie_payload p, sv_actorId = ie_actorId p, sv_actorType = ie_actorType p,
                sv_createdAt = (case ie_createdAt p of Some t \<Rightarrow> t | None \<Rightarrow> now)\<rparr>"
  obtain es where es: "add_events [row] db1 = Inr (db', es)"
    using i a by (auto simp: event_insert_def row_def Let_def map_sum_def split: sum.splits)
  note al = allocateSequences_spec [OF a]
  have ad: "events_unique (stream_events db')" "stream_events db' = stream_events db @ [row]" "nextS db' = nextS db1" "nextB db' = nextB db1"
    using add_events_rows [OF es] next_same_sequences [of db' db1] al(3) by auto
  have rows: "stream_rows db' ws st = (if ws = ?ws \<and> st = ?st then insert row (stream_rows db ws st) else stream_rows db ws st)" for ws st
    by (auto simp: stream_rows_def of_stream_def ad(2) row_def)
  have decl: "declares row = payload_slots (ie_eventType p) (ie_payload p)" by (simp add: declares_payload row_def)
  have old: "chain (nextS db ws st) (nextB db ws st) (vacant (ws, st)) (stream_rows db ws st)" for ws st
    using inv by (simp add: chains_def)
  have tomb: "isTimelineBroadcastEventType (sv_eventType row)" if "declares row \<noteq> {}"
  proof -
    have "sv_eventType row = ''messages:moved''" using that declares_only_tombstones by blast
    then show ?thesis by (simp add: isTimelineBroadcastEventType_def TIMELINE_BROADCAST_EVENT_TYPES_def)
  qed
  have new: "chain (nextS db ?ws ?st + 1) (if ?b then nextB db ?ws ?st + 1 else nextB db ?ws ?st)
      (vacant (?ws, ?st) - declares row) (insert row (stream_rows db ?ws ?st))"
  proof -
    have f: "sv_sequence row = nextS db ?ws ?st" "sv_eventType row = ie_eventType p" "slot_of row = (if ?b then Some (nextB db ?ws ?st) else None)"
      using al(1,2) by (simp_all add: row_def)
    show ?thesis using chain_add [OF old f(1), unfolded f(2), OF f(3)] d tomb unfolding decl f(2) by blast
  qed
  have "chain (nextS db' ws st) (nextB db' ws st)
      ((vacant((?ws, ?st) := vacant (?ws, ?st) - declares row)) (ws, st)) (stream_rows db' ws st)" for ws st
  proof (cases "ws = ?ws \<and> st = ?st")
    case True
    have n: "nextS db' ?ws ?st = nextS db ?ws ?st + 1" "nextB db' ?ws ?st = (if ?b then nextB db ?ws ?st + 1 else nextB db ?ws ?st)"
      "stream_rows db' ?ws ?st = insert row (stream_rows db ?ws ?st)"
      by (simp_all add: rows ad(3,4) al(4,5))
    from True have w: "ws = ?ws" "st = ?st" by simp_all
    show ?thesis unfolding w n fun_upd_same by (rule new)
  next
    case False
    then have n: "nextS db' ws st = nextS db ws st" "nextB db' ws st = nextB db ws st" "stream_rows db' ws st = stream_rows db ws st"
      unfolding rows ad(3,4) al(4,5) by (simp_all only: if_False)
    from False have "(vacant((?ws, ?st) := vacant (?ws, ?st) - declares row)) (ws, st) = vacant (ws, st)" by (intro fun_upd_other) blast
    then show ?thesis unfolding n using old by (simp only:)
  qed
  then show ?thesis using ad(1) unfolding chains_def decl by blast
qed

lemma event_insert_keeps_chains:
  assumes "chains_dense db" "ie_eventType p \<noteq> ''messages:moved''" "event_insert now p db = Inr (db', e)"
  shows "chains_dense db'"
proof -
  have "payload_slots (ie_eventType p) (ie_payload p) = {}" using assms(2) by (simp add: payload_slots_def declared_slots_def)
  then show ?thesis using event_insert_chains [of "\<lambda>_. {}" db now p db' e] assms by (simp add: chains_dense_chains fun_upd_idem)
qed

lemma number_events_numbered:
  "\<forall>p\<in>set ps. ie_eventType p \<noteq> ''messages:moved'' \<Longrightarrow> numbered s b (number_events now s b ps)"
  by (induction ps arbitrary: s b) (auto simp: Let_def declares_only_tombstones)

lemma number_events_facts:
  "length (number_events now s b ps) = length ps"
  "broadcasts (number_events now s b ps) = int (length (filter (\<lambda>p. isTimelineBroadcastEventType (ie_eventType p)) ps))"
  "\<forall>p\<in>set ps. ie_workspaceId p = ws \<and> ie_streamId p = st \<Longrightarrow> \<forall>r\<in>set (number_events now s b ps). of_stream ws st r"
proof -
  show "length (number_events now s b ps) = length ps" by (induction ps arbitrary: s b) (auto simp: Let_def)
  show "broadcasts (number_events now s b ps) = int (length (filter (\<lambda>p. isTimelineBroadcastEventType (ie_eventType p)) ps))"
    by (induction ps arbitrary: s b) (auto simp: Let_def broadcasts_def)
  show "\<forall>p\<in>set ps. ie_workspaceId p = ws \<and> ie_streamId p = st \<Longrightarrow> \<forall>r\<in>set (number_events now s b ps). of_stream ws st r"
    by (induction ps arbitrary: s b) (auto simp: Let_def of_stream_def)
qed

lemma event_insertMany_keeps_chains:
  assumes inv: "chains_dense db" and p: "\<forall>p\<in>set ps. ie_eventType p \<noteq> ''messages:moved''" and i: "event_insertMany now ps db = Inr (db', es)"
  shows "chains_dense db'"
proof (cases ps)
  case Nil
  then show ?thesis using i inv by (simp add: event_insertMany_def)
next
  case (Cons q qs)
  let ?n = "int (length (filter (\<lambda>p. isTimelineBroadcastEventType (ie_eventType p)) ps))"
  have same: "\<forall>p\<in>set ps. ie_workspaceId p = ie_workspaceId q \<and> ie_streamId p = ie_streamId q"
    using i Cons by (auto simp: event_insertMany_def split: if_splits)
  obtain db1 s b where a: "allocateSequences db (ie_workspaceId q) (ie_streamId q) (int (length ps)) ?n = (db1, s, b)"
    by (metis prod_cases3)
  have e: "add_events (number_events now s b ps) db1 = Inr (db', es)"
    using i a Cons by (auto simp: event_insertMany_def split: if_splits)
  show ?thesis
    by (rule append_keeps_chains [OF inv _ number_events_numbered [OF p] number_events_facts(3) [OF same] e])
      (simp add: number_events_facts a)
qed


section \<open>Moving rows\<close>

lemma insort_key_map: "insort_key f (g x) (map g xs) = map g (insort_key (f \<circ> g) x xs)"
  by (induction xs) auto

lemma sort_key_map: "sort_key f (map g xs) = map g (sort_key (f \<circ> g) xs)"
  by (induction xs) (simp_all add: insort_key_map o_def)

definition movable_messages :: "EventDb \<Rightarrow> MoveRequest \<Rightarrow> StreamEventRow list" where
  "movable_messages db q = (if mv_messageIds q = [] then [] else
     sort_key sv_sequence (with_message_ids (mv_messageIds q) (message_rows db (mv_workspaceId q) (mv_sourceStreamId q))))"

definition movable_sessions :: "EventDb \<Rightarrow> MoveRequest \<Rightarrow> StreamEventRow list" where
  "movable_sessions db q = (if mv_agentSessionIds q = [] then [] else
     sort_key sv_sequence (filter (\<lambda>r. of_stream (mv_workspaceId q) (mv_sourceStreamId q) r \<and> sv_eventType r \<in> set AGENT_SESSION_EVENT_TYPES \<and>
       json_text ''sessionId'' (sv_payload r) \<in> Some ` set (mv_agentSessionIds q)) (stream_events db)))"

definition movable_rows :: "EventDb \<Rightarrow> MoveRequest \<Rightarrow> (bool \<times> StreamEventRow) list" where
  "movable_rows db q = sort_key (sv_sequence \<circ> snd) (map (Pair True) (movable_messages db q) @ map (Pair False) (movable_sessions db q))"

lemma movable_events_rows: "movable_events db q = map (map_prod id mapRowToEvent) (movable_rows db q)"
proof -
  have e: "map (Pair True) (findMessageCreatedByMessageIdsForUpdate db (mv_workspaceId q) (mv_sourceStreamId q) (mv_messageIds q)) @
       map (Pair False) (findAgentSessionEventsBySessionIdsForUpdate db (mv_workspaceId q) (mv_sourceStreamId q) (mv_agentSessionIds q)) =
     map (map_prod id mapRowToEvent) (map (Pair True) (movable_messages db q) @ map (Pair False) (movable_sessions db q))"
    by (simp add: findMessageCreatedByMessageIdsForUpdate_def findAgentSessionEventsBySessionIdsForUpdate_def
      movable_messages_def movable_sessions_def)
  have k: "(\<lambda>(m :: bool, e). sw_sequence e) \<circ> map_prod id mapRowToEvent = sv_sequence \<circ> snd" by (auto simp: fun_eq_iff mapRowToEvent_def)
  show ?thesis unfolding movable_events_def movable_rows_def e by (simp only: sort_key_map k)
qed

lemma set_movable_rows: "set (movable_rows db q) = Pair True ` set (movable_messages db q) \<union> Pair False ` set (movable_sessions db q)"
  by (auto simp: movable_rows_def)

lemma mset_movable_rows: "mset (movable_rows db q) = mset (map (Pair True) (movable_messages db q) @ map (Pair False) (movable_sessions db q))"
  by (simp add: movable_rows_def)

lemma movable_part:
  "mset (map snd (filter (\<lambda>x. fst x = True) (movable_rows db q))) = mset (movable_messages db q)"
  "mset (map snd (filter (\<lambda>x. fst x = False) (movable_rows db q))) = mset (movable_sessions db q)"
proof -
  have "mset (map snd (filter P (movable_rows db q))) =
      mset (map snd (filter P (map (Pair True) (movable_messages db q) @ map (Pair False) (movable_sessions db q))))" for P
    by (simp only: mset_map mset_filter mset_movable_rows)
  then show "mset (map snd (filter (\<lambda>x. fst x = True) (movable_rows db q))) = mset (movable_messages db q)"
    "mset (map snd (filter (\<lambda>x. fst x = False) (movable_rows db q))) = mset (movable_sessions db q)"
    by (simp_all add: filter_map o_def)
qed

lemma in_movable_messages:
  "r \<in> set (movable_messages db q) \<longleftrightarrow> r \<in> set (stream_events db) \<and> of_stream (mv_workspaceId q) (mv_sourceStreamId q) r \<and> is_message r \<and>
    message_id_of r \<in> Some ` set (mv_messageIds q)"
  by (auto simp: movable_messages_def with_message_ids_def message_rows_def)

lemma in_movable_sessions:
  "r \<in> set (movable_sessions db q) \<longleftrightarrow> r \<in> set (stream_events db) \<and> of_stream (mv_workspaceId q) (mv_sourceStreamId q) r \<and>
    sv_eventType r \<in> set AGENT_SESSION_EVENT_TYPES \<and> json_text ''sessionId'' (sv_payload r) \<in> Some ` set (mv_agentSessionIds q)"
  by (auto simp: movable_sessions_def)

lemma movable_broadcast:
  assumes "(m, r) \<in> set (movable_rows db q)"
  shows "isTimelineBroadcastEventType (sv_eventType r)" "sv_eventType r \<noteq> ''messages:moved''"
  using assms by (auto simp: set_movable_rows in_movable_messages in_movable_sessions is_message_def AGENT_SESSION_EVENT_TYPES_def
    isTimelineBroadcastEventType_def TIMELINE_BROADCAST_EVENT_TYPES_def)

lemma getNextSequencePairs_spec:
  assumes "getNextSequencePairs db ws st (int n) = (db', pairs)"
  shows "pairs = map (\<lambda>i. (nextS db ws st + int i, nextB db ws st + int i)) [0..<n]" "stream_events db' = stream_events db"
    "nextS db' ws' st' = (if ws' = ws \<and> st' = st then nextS db ws st + int n else nextS db ws' st')"
    "nextB db' ws' st' = (if ws' = ws \<and> st' = st then nextB db ws st + int n else nextB db ws' st')"
proof -
  obtain d s b where a: "allocateSequences db ws st (int n) (int n) = (d, s, b)" by (metis prod_cases3)
  note al = allocateSequences_spec [OF a]
  have e: "n \<noteq> 0 \<Longrightarrow> db' = d \<and> pairs = map (\<lambda>i. (s + int i, b + int i)) [0..<n]" "n = 0 \<Longrightarrow> db' = db \<and> pairs = []"
    using assms by (auto simp: getNextSequencePairs_def a split: if_splits)
  show "pairs = map (\<lambda>i. (nextS db ws st + int i, nextB db ws st + int i)) [0..<n]" "stream_events db' = stream_events db"
    "nextS db' ws' st' = (if ws' = ws \<and> st' = st then nextS db ws st + int n else nextS db ws' st')"
    "nextB db' ws' st' = (if ws' = ws \<and> st' = st then nextB db ws st + int n else nextB db ws' st')"
    using e al by (cases "n = 0"; simp)+
qed

lemma find_key: "x \<in> set xs \<Longrightarrow> distinct (map mu_key xs) \<Longrightarrow> find_update xs (Some (mu_key x)) = Some x"
  by (induction xs) (auto simp: find_update_def)

lemma find_update_None: "find_update us k = None \<longleftrightarrow> k \<notin> Some ` mu_key ` set us"
  by (auto simp: find_update_def find_None_iff)

text \<open>The row a moved event becomes.\<close>

definition relocated :: "MoveRequest \<Rightarrow> bool \<times> StreamEventRow \<Rightarrow> int \<times> int \<Rightarrow> StreamEventRow" where
  "relocated q x n = (let r = (snd x)\<lparr>sv_streamId := mv_destinationStreamId q, sv_sequence := fst n, sv_broadcastSequence := Some (snd n)\<rparr>
     in if fst x then r\<lparr>sv_payload := put_field ''movedFrom'' (moved_from q) (sv_payload r)\<rparr> else r)"

lemma relocated_simps [simp]:
  "sv_streamId (relocated q x n) = mv_destinationStreamId q" "sv_workspaceId (relocated q x n) = sv_workspaceId (snd x)"
  "sv_id (relocated q x n) = sv_id (snd x)" "sv_sequence (relocated q x n) = fst n" "sv_broadcastSequence (relocated q x n) = Some (snd n)"
  "sv_eventType (relocated q x n) = sv_eventType (snd x)"
  by (simp_all add: relocated_def Let_def)

lemma relocated_numbered:
  "\<forall>x\<in>set xs. isTimelineBroadcastEventType (sv_eventType (snd x)) \<and> sv_eventType (snd x) \<noteq> ''messages:moved'' \<Longrightarrow>
    numbered s b (map2 (relocated q) xs (map (\<lambda>i. (s + int i, b + int i)) [0..<length xs])) \<and>
    broadcasts (map2 (relocated q) xs (map (\<lambda>i. (s + int i, b + int i)) [0..<length xs])) = int (length xs)"
proof (induction xs arbitrary: s b)
  case (Cons x xs)
  have p: "map (\<lambda>i. (s + int i, b + int i)) [0..<length (x # xs)] =
      (s, b) # map (\<lambda>i. (s + 1 + int i, b + 1 + int i)) [0..<length xs]"
    by (simp add: upt_conv_Cons flip: map_Suc_upt del: upt_Suc)
  have d: "declares (relocated q x (s, b)) = {}" using Cons.prems by (simp add: declares_only_tombstones)
  show ?case unfolding p using Cons.IH [of "s + 1" "b + 1"] Cons.prems d by (simp add: broadcasts_def)
qed (simp add: broadcasts_def)

text \<open>What the two updates write, once the numbers are drawn.\<close>

lemma events_unique_rows:
  assumes "events_unique rows"
  shows "r \<in> set rows \<Longrightarrow> r' \<in> set rows \<Longrightarrow> sv_workspaceId r = sv_workspaceId r' \<Longrightarrow> sv_id r = sv_id r' \<Longrightarrow> r = r'"
    "r \<in> set rows \<Longrightarrow> r' \<in> set rows \<Longrightarrow> sv_workspaceId r = sv_workspaceId r' \<Longrightarrow> sv_streamId r = sv_streamId r' \<Longrightarrow>
      sv_sequence r = sv_sequence r' \<Longrightarrow> r = r'"
    "r \<in> set rows \<Longrightarrow> r' \<in> set rows \<Longrightarrow> sv_workspaceId r = sv_workspaceId r' \<Longrightarrow> sv_streamId r = sv_streamId r' \<Longrightarrow>
      slot_of r = Some s \<Longrightarrow> slot_of r' = Some s \<Longrightarrow> r = r'"
    "distinct rows"
proof -
  note u = assms [unfolded events_unique_def]
  show "r \<in> set rows \<Longrightarrow> r' \<in> set rows \<Longrightarrow> sv_workspaceId r = sv_workspaceId r' \<Longrightarrow> sv_id r = sv_id r' \<Longrightarrow> r = r'"
    using u by (auto simp: distinct_map inj_on_def)
  show "r \<in> set rows \<Longrightarrow> r' \<in> set rows \<Longrightarrow> sv_workspaceId r = sv_workspaceId r' \<Longrightarrow> sv_streamId r = sv_streamId r' \<Longrightarrow>
      sv_sequence r = sv_sequence r' \<Longrightarrow> r = r'"
    using u by (auto simp: distinct_map inj_on_def)
  have "inj_on (\<lambda>r. (sv_workspaceId r, sv_streamId r, the (slot_of r))) (set (filter (\<lambda>r. slot_of r \<noteq> None) rows))"
    using u by (simp add: distinct_map)
  from inj_onD [OF this, of r r'] show "r \<in> set rows \<Longrightarrow> r' \<in> set rows \<Longrightarrow> sv_workspaceId r = sv_workspaceId r' \<Longrightarrow>
      sv_streamId r = sv_streamId r' \<Longrightarrow> slot_of r = Some s \<Longrightarrow> slot_of r' = Some s \<Longrightarrow> r = r'"
    by simp
  show "distinct rows" using u by (auto simp: distinct_map)
qed

lemma distinct_movable:
  assumes "events_unique (stream_events db)"
  shows "distinct (movable_messages db q)" "distinct (map sv_id (movable_sessions db q))"
proof -
  have d: "distinct (stream_events db)" by (rule events_unique_rows(4) [OF assms])
  show "distinct (movable_messages db q)" using d by (simp add: movable_messages_def with_message_ids_def message_rows_def)
  have s: "distinct (movable_sessions db q)" using d by (simp add: movable_sessions_def)
  have "inj_on sv_id (set (movable_sessions db q))"
    by (rule inj_onI) (auto simp: in_movable_sessions of_stream_def intro: events_unique_rows(1) [OF assms])
  then show "distinct (map sv_id (movable_sessions db q))" using s by (simp add: distinct_map)
qed


definition move_key :: "bool \<times> StreamEventRow \<Rightarrow> string" where
  "move_key x = (if fst x then the (message_id_of (snd x)) else sv_id (snd x))"

definition move_update :: "(bool \<times> StreamEventRow) \<times> int \<times> int \<Rightarrow> MoveEventSequenceUpdate" where
  "move_update z = \<lparr>mu_key = move_key (fst z), mu_sequence = fst (snd z), mu_broadcastSequence = snd (snd z)\<rparr>"

lemma updates_for_rows:
  "updates_for m (zip (map (map_prod id mapRowToEvent) xs) ns) = map move_update (filter (\<lambda>z. fst (fst z) = m) (zip xs ns))"
proof -
  have "filter (\<lambda>((m', e), s, b). m' = m) (zip (map (map_prod id mapRowToEvent) xs) ns) =
      map (\<lambda>z. (map_prod id mapRowToEvent (fst z), snd z)) (filter (\<lambda>z. fst (fst z) = m) (zip xs ns))"
    by (induction xs ns rule: list_induct2') auto
  then show ?thesis
    by (simp add: updates_for_def move_update_def move_key_def case_prod_beta mapRowToEvent_def message_id_of_def)
qed

lemma map_fst_filter_zip: "length xs = length ns \<Longrightarrow> map fst (filter (\<lambda>z. P (fst z)) (zip xs ns)) = filter P xs"
  by (induction xs ns rule: list_induct2) auto

lemma update_keys:
  assumes "length xs = length ns"
  shows "map mu_key (map move_update (filter (\<lambda>z. fst (fst z) = m) (zip xs ns))) = map move_key (filter (\<lambda>x. fst x = m) xs)"
proof -
  have "map mu_key (map move_update (filter (\<lambda>z. fst (fst z) = m) (zip xs ns))) =
      map move_key (map fst (filter (\<lambda>z. fst (fst z) = m) (zip xs ns)))"
    by (simp add: move_update_def)
  then show ?thesis using map_fst_filter_zip [OF assms, of "\<lambda>x. fst x = m"] by simp
qed

lemma set_sql_update_parts: "set (sql_update p f rows) = {r \<in> set rows. \<not> p r} \<union> f ` {r \<in> set rows. p r}"
  by (auto simp: set_sql_update)

lemma update_events_rows:
  "update_events p f db = Inr (db', es) \<Longrightarrow> stream_events db' = sql_update p f (stream_events db) \<and>
    stream_sequences db' = stream_sequences db \<and> events_unique (stream_events db')"
  by (auto simp: update_events_def split: if_splits)

text \<open>One of the two updates: the rows with the keys listed become the rows the list numbers.\<close>

lemma image_of_zip:
  assumes "length xs = length ns" and img: "\<And>r n. ((m, r), n) \<in> set (zip xs ns) \<Longrightarrow> f r = relocated q (m, r) n"
    and sel: "\<And>r. r \<in> E \<Longrightarrow> p r \<longleftrightarrow> (m, r) \<in> set xs" and sub: "\<And>r. (m, r) \<in> set xs \<Longrightarrow> r \<in> E"
  shows "f ` {r \<in> E. p r} = (\<lambda>z. relocated q (fst z) (snd z)) ` {z \<in> set (zip xs ns). fst (fst z) = m}"
proof -
  have ex: "\<exists>n. ((m, r), n) \<in> set (zip xs ns)" if "(m, r) \<in> set xs" for r
    using that assms(1) by (metis in_set_impl_in_set_zip1)
  have mem: "(m, r) \<in> set xs" if "((m, r), n) \<in> set (zip xs ns)" for r n using that by (rule set_zip_leftD)
  show ?thesis
  proof (intro equalityI subsetI)
    fix y assume "y \<in> f ` {r \<in> E. p r}"
    then obtain r where r: "y = f r" "(m, r) \<in> set xs" using sel by blast
    then obtain n where n: "((m, r), n) \<in> set (zip xs ns)" using ex by blast
    then show "y \<in> (\<lambda>z. relocated q (fst z) (snd z)) ` {z \<in> set (zip xs ns). fst (fst z) = m}"
      using r(1) img by (intro image_eqI [where x = "((m, r), n)"]) simp_all
  next
    fix y assume "y \<in> (\<lambda>z. relocated q (fst z) (snd z)) ` {z \<in> set (zip xs ns). fst (fst z) = m}"
    then obtain r n where n: "((m, r), n) \<in> set (zip xs ns)" "y = relocated q (m, r) n" by auto
    then show "y \<in> f ` {r \<in> E. p r}" using img [OF n(1)] mem [OF n(1)] sel sub by (intro image_eqI [where x = r]) auto
  qed
qed

lemma message_step:
  assumes u: "events_unique (stream_events db)" and d: "stream_events db1 = stream_events db"
    and len: "length ns = length (movable_rows db q)"
    and up: "moveMessageCreatedEvents (mv_workspaceId q) (mv_sourceStreamId q) (mv_destinationStreamId q)
      (updates_for True (zip (movable_events db q) ns)) (moved_from q) db1 = Inr (db2, es)"
  shows "events_unique (stream_events db2)" "stream_sequences db2 = stream_sequences db1"
    "set (stream_events db2) = (set (stream_events db) - set (movable_messages db q)) \<union>
      (\<lambda>z. relocated q (fst z) (snd z)) ` {z \<in> set (zip (movable_rows db q) ns). fst (fst z) = True}"
proof -
  let ?xs = "movable_rows db q" and ?E = "set (stream_events db)" and ?ws = "mv_workspaceId q" and ?so = "mv_sourceStreamId q"
  define us where "us = map move_update (filter (\<lambda>z. fst (fst z) = True) (zip ?xs ns))"
  let ?p = "\<lambda>r. of_stream ?ws ?so r \<and> is_message r \<and> find_update us (message_id_of r) \<noteq> None"
  let ?f = "\<lambda>r. (renumber (mv_destinationStreamId q) (the (find_update us (message_id_of r))) r)\<lparr>sv_payload := put_field ''movedFrom'' (moved_from q) (sv_payload r)\<rparr>"
  have us: "updates_for True (zip (movable_events db q) ns) = us" by (simp add: movable_events_rows updates_for_rows us_def)
  have key: "map mu_key us = map move_key (filter (\<lambda>x. fst x = True) ?xs)" unfolding us_def by (rule update_keys) (simp add: len)
  have keys: "mset (map mu_key us) = mset (map (\<lambda>r. the (message_id_of r)) (movable_messages db q))"
  proof -
    have "map move_key (filter (\<lambda>x. fst x = True) ?xs) = map (\<lambda>r. the (message_id_of r)) (map snd (filter (\<lambda>x. fst x = True) ?xs))"
      by (auto simp: move_key_def)
    then show ?thesis unfolding key by (simp only: mset_map movable_part(1) flip: mset_map)
      (metis movable_part(1) mset_map)
  qed
  have inM: "(True, r) \<in> set ?xs \<longleftrightarrow> r \<in> set (movable_messages db q)" for r by (auto simp: set_movable_rows)
  have sel: "?p r \<longleftrightarrow> r \<in> set (movable_messages db q)" if r: "r \<in> ?E" for r
  proof -
    have "find_update us (message_id_of r) \<noteq> None \<longleftrightarrow> message_id_of r \<in> Some ` (\<lambda>r. the (message_id_of r)) ` set (movable_messages db q)"
      using mset_eq_setD [OF keys] by (simp add: find_update_None)
    moreover have "Some ` (\<lambda>r. the (message_id_of r)) ` set (movable_messages db q) = message_id_of ` set (movable_messages db q)"
      unfolding image_image by (rule image_cong) (auto simp: in_movable_messages)
    ultimately show ?thesis using r by (auto simp: in_movable_messages)
  qed
  consider "us = []" "db2 = db1" | "update_events ?p ?f db1 = Inr (db2, es)"
    using up by (cases "us = []") (simp_all add: us moveMessageCreatedEvents_def)
  then have ev: "stream_events db2 = sql_update ?p ?f (stream_events db) \<and> stream_sequences db2 = stream_sequences db1 \<and>
      events_unique (stream_events db2)"
  proof cases
    case 1
    then show ?thesis using u by (simp add: d sql_update_def find_update_def)
  next
    case 2
    show ?thesis by (rule update_events_rows [OF 2, unfolded d])
  qed
  then show u2: "events_unique (stream_events db2)" and "stream_sequences db2 = stream_sequences db1" by blast+
  have inj: "inj_on message_id_of (set (movable_messages db q))"
  proof (rule inj_onI)
    fix r r' assume r: "r \<in> set (movable_messages db q)" "r' \<in> set (movable_messages db q)" "message_id_of r = message_id_of r'"
    let ?k = "\<lambda>r. (sv_workspaceId r, sv_streamId r, sv_sequence r)"
    have E: "r \<in> ?E" "r' \<in> ?E" "sv_workspaceId r = sv_workspaceId r'" using r by (auto simp: in_movable_messages of_stream_def)
    have "distinct (map ?k (stream_events db2))" using u2 unfolding events_unique_def by blast
    then have "inj_on (\<lambda>r. ?k (if ?p r then ?f r else r)) ?E"
      by (simp add: conjunct1 [OF ev] sql_update_def distinct_map o_def)
    moreover have "?k (if ?p r then ?f r else r) = ?k (if ?p r' then ?f r' else r')"
      using sel [OF E(1)] sel [OF E(2)] r E(3) by (simp add: renumber_def)
    ultimately show "r = r'" using E by (auto dest: inj_onD)
  qed
  have "distinct (map (\<lambda>r. the (message_id_of r)) (movable_messages db q))"
  proof -
    have "inj_on (\<lambda>r. the (message_id_of r)) (set (movable_messages db q))"
      by (rule inj_onI) (rule inj_onD [OF inj], auto simp: in_movable_messages)
    then show ?thesis using distinct_movable(1) [OF u] by (simp add: distinct_map)
  qed
  then have dk: "distinct (map mu_key us)" using mset_eq_imp_distinct_iff [OF keys] by blast
  have img: "?f r = relocated q (True, r) n" if z: "((True, r), n) \<in> set (zip ?xs ns)" for r n
  proof -
    have "move_update ((True, r), n) \<in> set us" using z by (force simp: us_def)
    from find_key [OF this dk] have "find_update us (Some (the (message_id_of r))) = Some (move_update ((True, r), n))"
      by (simp add: move_update_def move_key_def)
    moreover have "message_id_of r \<noteq> None" using set_zip_leftD [OF z] by (auto simp: inM in_movable_messages)
    ultimately show ?thesis by (auto simp: relocated_def renumber_def move_update_def Let_def)
  qed
  have "?f ` {r \<in> ?E. ?p r} = (\<lambda>z. relocated q (fst z) (snd z)) ` {z \<in> set (zip ?xs ns). fst (fst z) = True}"
  proof (rule image_of_zip)
    show "?p r \<longleftrightarrow> (True, r) \<in> set ?xs" if "r \<in> ?E" for r unfolding inM by (rule sel [OF that])
    show "r \<in> ?E" if "(True, r) \<in> set ?xs" for r using that by (simp add: inM in_movable_messages)
  qed (use len img in simp_all)
  moreover have "{r \<in> ?E. \<not> ?p r} = ?E - set (movable_messages db q)" using sel by blast
  ultimately show "set (stream_events db2) = (set (stream_events db) - set (movable_messages db q)) \<union>
      (\<lambda>z. relocated q (fst z) (snd z)) ` {z \<in> set (zip ?xs ns). fst (fst z) = True}"
    by (simp only: conjunct1 [OF ev] set_sql_update_parts)
qed


lemma session_step:
  assumes u: "events_unique (stream_events db)" "events_unique (stream_events db2)"
    and ne: "mv_sourceStreamId q \<noteq> mv_destinationStreamId q" and len: "length ns = length (movable_rows db q)"
    and ev2: "set (stream_events db2) = (set (stream_events db) - set (movable_messages db q)) \<union> R" and R: "\<forall>r\<in>R. sv_streamId r = mv_destinationStreamId q"
    and up: "moveEventsById (mv_workspaceId q) (mv_sourceStreamId q) (mv_destinationStreamId q)
      (updates_for False (zip (movable_events db q) ns)) db2 = Inr (db3, es)"
  shows "events_unique (stream_events db3)" "stream_sequences db3 = stream_sequences db2"
    "set (stream_events db3) = (set (stream_events db2) - set (movable_sessions db q)) \<union>
      (\<lambda>z. relocated q (fst z) (snd z)) ` {z \<in> set (zip (movable_rows db q) ns). fst (fst z) = False}"
proof -
  let ?xs = "movable_rows db q" and ?E = "set (stream_events db2)" and ?ws = "mv_workspaceId q" and ?so = "mv_sourceStreamId q"
  define us where "us = map move_update (filter (\<lambda>z. fst (fst z) = False) (zip ?xs ns))"
  let ?p = "\<lambda>r. of_stream ?ws ?so r \<and> find_update us (Some (sv_id r)) \<noteq> None"
  let ?f = "\<lambda>r. renumber (mv_destinationStreamId q) (the (find_update us (Some (sv_id r)))) r"
  have us: "updates_for False (zip (movable_events db q) ns) = us" by (simp add: movable_events_rows updates_for_rows us_def)
  have keys: "mset (map mu_key us) = mset (map sv_id (movable_sessions db q))"
  proof -
    have "map mu_key us = map move_key (filter (\<lambda>x. fst x = False) ?xs)" unfolding us_def by (rule update_keys) (simp add: len)
    also have "\<dots> = map sv_id (map snd (filter (\<lambda>x. fst x = False) ?xs))" by (auto simp: move_key_def)
    finally show ?thesis by (metis movable_part(2) mset_map)
  qed
  have dk: "distinct (map mu_key us)" using mset_eq_imp_distinct_iff [OF keys] distinct_movable(2) [OF u(1)] by blast
  have inA: "(False, r) \<in> set ?xs \<longleftrightarrow> r \<in> set (movable_sessions db q)" for r by (auto simp: set_movable_rows)
  have sub: "r \<in> ?E" if "r \<in> set (movable_sessions db q)" for r
    using that ev2 by (auto simp: in_movable_sessions in_movable_messages is_message_def AGENT_SESSION_EVENT_TYPES_def)
  have sel: "?p r \<longleftrightarrow> r \<in> set (movable_sessions db q)" if r: "r \<in> ?E" for r
  proof -
    have k: "find_update us (Some (sv_id r)) \<noteq> None \<longleftrightarrow> sv_id r \<in> sv_id ` set (movable_sessions db q)"
      using mset_eq_setD [OF keys] by (auto simp: find_update_None)
    show ?thesis
    proof
      assume p: "?p r"
      then have "r \<in> set (stream_events db)" using r ev2 R ne by (auto simp: of_stream_def)
      moreover obtain r' where r': "r' \<in> set (movable_sessions db q)" "sv_id r = sv_id r'" using p k by blast
      ultimately have "r = r'" using p by (intro events_unique_rows(1) [OF u(1)]) (auto simp: in_movable_sessions of_stream_def)
      then show "r \<in> set (movable_sessions db q)" using r' by simp
    next
      assume "r \<in> set (movable_sessions db q)"
      then show "?p r" using k by (auto simp: in_movable_sessions)
    qed
  qed
  consider "us = []" "db3 = db2" | "update_events ?p ?f db2 = Inr (db3, es)"
    using up by (cases "us = []") (simp_all add: us moveEventsById_def)
  then have ev: "stream_events db3 = sql_update ?p ?f (stream_events db2) \<and> stream_sequences db3 = stream_sequences db2 \<and>
      events_unique (stream_events db3)"
  proof cases
    case 1
    then show ?thesis using u by (simp add: sql_update_def find_update_def)
  next
    case 2
    show ?thesis by (rule update_events_rows [OF 2])
  qed
  then show "events_unique (stream_events db3)" and "stream_sequences db3 = stream_sequences db2" by blast+
  have img: "?f r = relocated q (False, r) n" if z: "((False, r), n) \<in> set (zip ?xs ns)" for r n
  proof -
    have "move_update ((False, r), n) \<in> set us" using z by (force simp: us_def)
    from find_key [OF this dk] have "find_update us (Some (sv_id r)) = Some (move_update ((False, r), n))"
      by (simp add: move_update_def move_key_def)
    then show ?thesis by (simp add: relocated_def renumber_def move_update_def Let_def)
  qed
  have "?f ` {r \<in> ?E. ?p r} = (\<lambda>z. relocated q (fst z) (snd z)) ` {z \<in> set (zip ?xs ns). fst (fst z) = False}"
  proof (rule image_of_zip)
    show "?p r \<longleftrightarrow> (False, r) \<in> set ?xs" if "r \<in> ?E" for r unfolding inA by (rule sel [OF that])
    show "r \<in> ?E" if "(False, r) \<in> set ?xs" for r using that sub by (simp add: inA)
  qed (use len img in simp_all)
  moreover have "{r \<in> ?E. \<not> ?p r} = ?E - set (movable_sessions db q)" using sel by blast
  ultimately show "set (stream_events db3) = (set (stream_events db2) - set (movable_sessions db q)) \<union>
      (\<lambda>z. relocated q (fst z) (snd z)) ` {z \<in> set (zip ?xs ns). fst (fst z) = False}"
    by (simp only: conjunct1 [OF ev] set_sql_update_parts)
qed

text \<open>Both updates, and the events they leave.\<close>

lemma relocation:
  assumes u: "events_unique (stream_events db)" and ne: "mv_sourceStreamId q \<noteq> mv_destinationStreamId q"
    and d: "stream_events db1 = stream_events db" and len: "length ns = length (movable_rows db q)"
    and m: "moveMessageCreatedEvents (mv_workspaceId q) (mv_sourceStreamId q) (mv_destinationStreamId q)
      (updates_for True (zip (movable_events db q) ns)) (moved_from q) db1 = Inr (db2, es)"
    and a: "moveEventsById (mv_workspaceId q) (mv_sourceStreamId q) (mv_destinationStreamId q)
      (updates_for False (zip (movable_events db q) ns)) db2 = Inr (db3, es')"
  shows "events_unique (stream_events db3) \<and> stream_sequences db3 = stream_sequences db1 \<and>
    set (stream_events db3) = (set (stream_events db) - snd ` set (movable_rows db q)) \<union> set (map2 (relocated q) (movable_rows db q) ns)"
proof -
  let ?xs = "movable_rows db q" and ?M = "set (movable_messages db q)" and ?A = "set (movable_sessions db q)"
  define rel where "rel = (\<lambda>z. relocated q (fst z) (snd z))"
  note ms = message_step [OF u d len m, folded rel_def]
  have R: "\<forall>r\<in>rel ` {z \<in> set (zip ?xs ns). fst (fst z) = True}. sv_streamId r = mv_destinationStreamId q" by (auto simp: rel_def)
  note ss = session_step [OF u ms(1) ne len ms(3) R a, folded rel_def]
  have disj: "?A \<inter> rel ` {z \<in> set (zip ?xs ns). fst (fst z) = True} = {}"
    using ne by (auto simp: rel_def in_movable_sessions of_stream_def)
  have snds: "snd ` set ?xs = ?M \<union> ?A" by (force simp: set_movable_rows)
  have "set (map2 (relocated q) ?xs ns) = rel ` set (zip ?xs ns)" unfolding set_map rel_def by (rule image_cong) auto
  also have "\<dots> = rel ` {z \<in> set (zip ?xs ns). fst (fst z) = True} \<union> rel ` {z \<in> set (zip ?xs ns). fst (fst z) = False}" by blast
  finally show ?thesis using ms ss disj by (simp add: snds) blast
qed


lemma jarr_slots: "payload_slots ''messages:moved'' (JObj (tombstone_fields q @ [(''vacatedBroadcastSequences'', JArr (map JStr (map int_digits bs)))])) = set bs"
  by (simp add: payload_slots_def declared_slots_def tombstone_fields_def List.map_filter_def o_def)

lemma plain_slots: "payload_slots ''messages:moved'' (JObj (tombstone_fields q)) = {}"
  by (simp add: payload_slots_def declared_slots_def tombstone_fields_def)

definition vacated_slots :: "EventDb \<Rightarrow> MoveRequest \<Rightarrow> int list" where
  "vacated_slots db q = map (\<lambda>x. the (slot_of (snd x))) (filter (\<lambda>x. slot_of (snd x) \<noteq> None) (movable_rows db q))"

lemma vacated_rows: "vacatedBroadcastSequences (movable_events db q) = map int_digits (vacated_slots db q)"
  by (simp add: vacatedBroadcastSequences_def vacated_slots_def movable_events_rows filter_map o_def case_prod_beta mapRowToEvent_def)

lemma set_vacated: "set (vacated_slots db q) = {s. \<exists>r\<in>snd ` set (movable_rows db q). slot_of r = Some s}"
  by (force simp: vacated_slots_def)

lemma movable_of_source: "r \<in> snd ` set (movable_rows db q) \<Longrightarrow> r \<in> stream_rows db (mv_workspaceId q) (mv_sourceStreamId q)"
  by (auto simp: set_movable_rows in_movable_messages in_movable_sessions stream_rows_def)

lemma relocation_chains:
  assumes inv: "chains_dense db" and ne: "mv_sourceStreamId q \<noteq> mv_destinationStreamId q"
    and g: "getNextSequencePairs db (mv_workspaceId q) (mv_destinationStreamId q) (int (length (movable_rows db q))) = (db1, ns)"
    and e: "events_unique (stream_events db3)" "stream_sequences db3 = stream_sequences db1"
    and ev: "set (stream_events db3) = (set (stream_events db) - snd ` set (movable_rows db q)) \<union> set (map2 (relocated q) (movable_rows db q) ns)"
  shows "chains ((\<lambda>_. {})((mv_workspaceId q, mv_sourceStreamId q) := set (vacated_slots db q))) db3"
proof -
  let ?W = "mv_workspaceId q" and ?so = "mv_sourceStreamId q" and ?de = "mv_destinationStreamId q" and ?xs = "movable_rows db q"
  note gs = getNextSequencePairs_spec [OF g]
  have old: "chain (nextS db ws st) (nextB db ws st) {} (stream_rows db ws st)" for ws st using inv by (simp add: chains_dense_def)
  have u: "events_unique (stream_events db)" using inv by (simp add: chains_dense_def)
  have n: "nextS db3 ws st = nextS db1 ws st" "nextB db3 ws st = nextB db1 ws st" for ws st
    using next_same_sequences [OF e(2)] by simp_all
  have types: "\<forall>x\<in>set ?xs. isTimelineBroadcastEventType (sv_eventType (snd x)) \<and> sv_eventType (snd x) \<noteq> ''messages:moved''"
    using movable_broadcast by fastforce
  have new: "sv_workspaceId r = ?W \<and> sv_streamId r = ?de" if "r \<in> set (map2 (relocated q) ?xs ns)" for r
  proof -
    obtain x m where x: "(x, m) \<in> set (zip ?xs ns)" "r = relocated q x m" using \<open>r \<in> _\<close> by auto
    have "snd x \<in> stream_rows db ?W ?so" using set_zip_leftD [OF x(1)] by (intro movable_of_source) blast
    then show ?thesis using x(2) by (simp add: stream_rows_def of_stream_def)
  qed
  have gone: "snd ` set ?xs \<subseteq> stream_rows db ?W ?so" using movable_of_source by blast
  have rows: "stream_rows db3 ws st = (stream_rows db ws st - snd ` set ?xs) \<union> {r \<in> set (map2 (relocated q) ?xs ns). ws = ?W \<and> st = ?de}" for ws st
  proof -
    define N where "N = set (map2 (relocated q) ?xs ns)"
    have "of_stream ws st r \<longleftrightarrow> ws = ?W \<and> st = ?de" if "r \<in> N" for r using new [folded N_def, OF that] by (auto simp: of_stream_def)
    then show ?thesis unfolding stream_rows_def ev N_def [symmetric] by blast
  qed
  have "chain (nextS db3 ws st) (nextB db3 ws st) (((\<lambda>_. {})((?W, ?so) := set (vacated_slots db q))) (ws, st)) (stream_rows db3 ws st)" for ws st
  proof -
    consider (source) "ws = ?W" "st = ?so" | (dest) "ws = ?W" "st = ?de" | (other) "\<not> (ws = ?W \<and> (st = ?so \<or> st = ?de))" by blast
    then show ?thesis
    proof cases
      case source
      let ?rest = "stream_rows db ?W ?so - snd ` set ?xs"
      have taken: "stream_rows db ?W ?so - ?rest = snd ` set ?xs" using gone by blast
      have "chain (nextS db ?W ?so) (nextB db ?W ?so) ({} \<union> {s. \<exists>r\<in>(stream_rows db ?W ?so - ?rest). slot_of r = Some s}) ?rest"
      proof (rule chain_remove [OF old])
        show "\<forall>r\<in>(stream_rows db ?W ?so - ?rest). declares r = {}"
          unfolding taken by (rule ballI, rule declares_only_tombstones) (use types in auto)
        fix r p assume r: "r \<in> stream_rows db ?W ?so - ?rest" "p \<in> ?rest" "slot_of r \<noteq> None"
        show "slot_of r \<noteq> slot_of p"
        proof
          assume s: "slot_of r = slot_of p"
          have rp: "r \<in> stream_rows db ?W ?so" "p \<in> stream_rows db ?W ?so" using r by blast+
          have "r = p" using rp r(3) s by (intro events_unique_rows(3) [OF u, of r p "the (slot_of r)"]) (auto simp: stream_rows_def of_stream_def)
          then show False using r by blast
        qed
      qed blast
      moreover have "stream_rows db3 ?W ?so = ?rest" using ne by (simp add: rows)
      ultimately show ?thesis using ne by (simp add: source n gs(3,4) taken set_vacated)
    next
      case dest
      have keep: "stream_rows db ?W ?de - snd ` set ?xs = stream_rows db ?W ?de" using gone ne by (auto simp: stream_rows_def of_stream_def)
      have nb: "numbered (nextS db ?W ?de) (nextB db ?W ?de) (map2 (relocated q) ?xs ns) \<and> broadcasts (map2 (relocated q) ?xs ns) = int (length ?xs)"
        unfolding gs(1) by (rule relocated_numbered [OF types])
      have "length (map2 (relocated q) ?xs ns) = length ?xs" by (simp add: gs(1))
      then show ?thesis using chain_add_many [OF old conjunct1 [OF nb]] nb ne by (simp add: dest n gs(3,4) rows keep)
    next
      case other
      have "stream_rows db ws st - snd ` set ?xs = stream_rows db ws st" using gone other by (auto simp: stream_rows_def of_stream_def)
      then have "stream_rows db3 ws st = stream_rows db ws st" using other by (auto simp: rows)
      moreover have "nextS db3 ws st = nextS db ws st" "nextB db3 ws st = nextB db ws st" using other by (auto simp: n gs(3,4))
      moreover have "((\<lambda>_. {})((?W, ?so) := set (vacated_slots db q))) (ws, st) = {}" using other by auto
      ultimately show ?thesis using old [of ws st] by (simp only:)
    qed
  qed
  then show ?thesis using e(1) unfolding chains_def by blast
qed

lemma move_keeps_chains:
  assumes inv: "chains_dense db" and ne: "mv_sourceStreamId q \<noteq> mv_destinationStreamId q" and m: "move_messages q db = Inr db'"
  shows "chains_dense db'"
proof -
  let ?W = "mv_workspaceId q" and ?so = "mv_sourceStreamId q" and ?de = "mv_destinationStreamId q"
  let ?src = "tombstone q (mv_sourceTombstoneId q) ?so
     (JObj (tombstone_fields q @ [(''vacatedBroadcastSequences'', JArr (map JStr (vacatedBroadcastSequences (movable_events db q))))]))"
  let ?dst = "tombstone q (mv_destinationTombstoneId q) ?de (JObj (tombstone_fields q))"
  obtain db1 ns where g: "getNextSequencePairs db ?W ?de (int (length (movable_events db q))) = (db1, ns)" by fastforce
  obtain db2 es db3 es' db4 e4 e5 where steps:
    "moveMessageCreatedEvents ?W ?so ?de (updates_for True (zip (movable_events db q) ns)) (moved_from q) db1 = Inr (db2, es)"
    "moveEventsById ?W ?so ?de (updates_for False (zip (movable_events db q) ns)) db2 = Inr (db3, es')"
    "event_insert (mv_movedAt q) ?src db3 = Inr (db4, e4)" "event_insert (mv_movedAt q) ?dst db4 = Inr (db', e5)"
    using m g by (auto simp: move_messages_def Let_def split: if_splits sum.splits prod.splits)
  have len: "length (movable_events db q) = length (movable_rows db q)" by (simp add: movable_events_rows)
  note g' = g [unfolded len]
  note gs = getNextSequencePairs_spec [OF g']
  have u: "events_unique (stream_events db)" using inv by (simp add: chains_dense_def)
  have "length ns = length (movable_rows db q)" by (simp add: gs(1))
  note rel = relocation [OF u ne gs(2) this steps(1,2)]
  have c3: "chains ((\<lambda>_. {})((?W, ?so) := set (vacated_slots db q))) db3"
    using rel by (intro relocation_chains [OF inv ne g']) blast+
  have t: "ie_workspaceId ?src = ?W" "ie_streamId ?src = ?so" "ie_workspaceId ?dst = ?W" "ie_streamId ?dst = ?de"
    "payload_slots (ie_eventType ?src) (ie_payload ?src) = set (vacated_slots db q)" "payload_slots (ie_eventType ?dst) (ie_payload ?dst) = {}"
    using jarr_slots plain_slots by (simp_all add: tombstone_def vacated_rows)
  have "chains (\<lambda>_. {}) db4" using event_insert_chains [OF c3 steps(3)] by (simp add: t fun_upd_idem)
  from event_insert_chains [OF this steps(4)] show ?thesis by (simp add: t fun_upd_idem chains_dense_chains)
qed


section \<open>The event log as it is written\<close>

text \<open>Any caller may insert events of any type but tombstones, which only a move writes.\<close>

inductive event_step :: "EventDb \<Rightarrow> EventDb \<Rightarrow> bool" where
  one: "ie_eventType p \<noteq> ''messages:moved'' \<Longrightarrow> event_insert now p db = Inr (db', e) \<Longrightarrow> event_step db db'"
| many: "\<forall>p\<in>set ps. ie_eventType p \<noteq> ''messages:moved'' \<Longrightarrow> event_insertMany now ps db = Inr (db', es) \<Longrightarrow> event_step db db'"
| move: "mv_sourceStreamId q \<noteq> mv_destinationStreamId q \<Longrightarrow> move_messages q db = Inr db' \<Longrightarrow> event_step db db'"

definition no_events :: EventDb where "no_events = \<lparr>stream_events = [], stream_sequences = []\<rparr>"

lemma event_step_keeps_chains: "event_step db db' \<Longrightarrow> chains_dense db \<Longrightarrow> chains_dense db'"
  by (induction rule: event_step.induct) (blast intro: event_insert_keeps_chains event_insertMany_keeps_chains move_keeps_chains)+

lemma reachable_chains: "event_step\<^sup>*\<^sup>* no_events db \<Longrightarrow> chains_dense db"
  by (induction rule: rtranclp_induct) (auto simp: no_events_def chains_dense_empty intro: event_step_keeps_chains)

section \<open>The client's hole scan\<close>

definition timeline :: "EventDb \<Rightarrow> string \<Rightarrow> string \<Rightarrow> StreamEventRow list" where
  "timeline db ws st = sort_key sv_sequence (filter (of_stream ws st) (stream_events db))"

text \<open>What the scan should find, read off the whole timeline: the chain rows lost since the last one held.\<close>

fun missing_rows :: "(StreamEventRow \<Rightarrow> bool) \<Rightarrow> StreamEventRow option \<Rightarrow> nat \<Rightarrow> StreamEventRow list \<Rightarrow> TimelineHole list" where
  "missing_rows held previous n [] = []"
| "missing_rows held previous n (r # rs) =
    (if sv_broadcastSequence r = None then missing_rows held previous n rs
     else if held r
     then (case previous of
             Some p \<Rightarrow> if n > 0 then [\<lparr>th_afterEventId = sv_id p, th_afterSequence = int_digits (sv_sequence p), th_missingCount = n\<rparr>] else []
           | None \<Rightarrow> []) @ missing_rows held (Some r) 0 rs
     else missing_rows held previous (n + 1) rs)"

lemma missing_rows_chain: "missing_rows held p n rs = missing_rows held p n (filter (\<lambda>r. slot_of r \<noteq> None) rs)"
  by (induction rs arbitrary: p n) auto

definition slot :: "StreamEventRow \<Rightarrow> int" where "slot r = the (slot_of r)"

lemma missing_slots_between:
  assumes K: "\<And>s. slot p < s \<Longrightarrow> s < slot c \<Longrightarrow> s \<notin> V \<longleftrightarrow> s \<in> slot ` set (xs @ p # mid @ c # rest)"
    and sorted: "sorted_wrt (\<lambda>r q. slot r < slot q) (xs @ p # mid @ c # rest)" and some: "slot_of p \<noteq> None" "slot_of c \<noteq> None"
  shows "missing_slots V (cached_event p) (cached_event c) = length mid"
proof -
  have "missing_slots V (cached_event p) (cached_event c) = length (filter (\<lambda>s. s \<notin> V) [slot p + 1..slot c - 1])"
    using some by (auto simp: missing_slots_def cached_event_def slot_def)
  also have "\<dots> = card (set (filter (\<lambda>s. s \<notin> V) [slot p + 1..slot c - 1]))"
    by (rule distinct_card [symmetric]) simp
  also have "set (filter (\<lambda>s. s \<notin> V) [slot p + 1..slot c - 1]) = slot ` set mid"
  proof (intro equalityI subsetI)
    fix s assume "s \<in> set (filter (\<lambda>s. s \<notin> V) [slot p + 1..slot c - 1])"
    then have s: "slot p < s" "s < slot c" "s \<notin> V" by auto
    then obtain r where r: "r \<in> set (xs @ p # mid @ c # rest)" "s = slot r" using K by blast
    then show "s \<in> slot ` set mid" using s sorted by (auto simp: sorted_wrt_append)
  next
    fix s assume "s \<in> slot ` set mid"
    then have s: "slot p < s" "s < slot c" "s \<in> slot ` set (xs @ p # mid @ c # rest)" using sorted by (auto simp: sorted_wrt_append)
    then show "s \<in> set (filter (\<lambda>s. s \<notin> V) [slot p + 1..slot c - 1])" using K by auto
  qed
  also have "card (slot ` set mid) = length mid"
  proof -
    have "sorted_wrt (<) (map slot mid)" using sorted by (simp add: sorted_wrt_append sorted_wrt_map)
    then have "distinct (map slot mid)" by (simp add: strict_sorted_iff)
    then show ?thesis by (metis distinct_card length_map set_map)
  qed
  finally show ?thesis .
qed

lemma cached_event_simps:
  "cc_id (cached_event r) = sv_id r" "cc_sequence (cached_event r) = int_digits (sv_sequence r)"
  "cc_broadcastSequence (cached_event r) = map_option int_digits (slot_of r)" "cc_status (cached_event r) = None"
  by (simp_all add: cached_event_def)

lemma scan_from:
  assumes "\<And>p c s. p \<in> set C \<Longrightarrow> c \<in> set C \<Longrightarrow> held p \<Longrightarrow> slot p < s \<Longrightarrow> s < slot c \<Longrightarrow> s \<notin> V \<longleftrightarrow> s \<in> slot ` set C"
    and "sorted_wrt (\<lambda>r q. slot r < slot q) C" and "\<forall>r\<in>set C. slot_of r \<noteq> None"
    and "C = xs @ p # mid @ rest" "held p"
  shows "chain_holes V (map cached_event (p # filter held rest)) = missing_rows held (Some p) (length mid) rest"
  using assms(4,5)
proof (induction rest arbitrary: xs p mid)
  case (Cons c rest)
  show ?case
  proof (cases "held c")
    case True
    have m: "missing_slots V (cached_event p) (cached_event c) = length mid"
      by (rule missing_slots_between [of p c V xs mid rest])
        (use assms(1) [of p c] assms(2,3) Cons.prems in auto)
    have "chain_holes V (map cached_event (c # filter held rest)) = missing_rows held (Some c) (length ([] :: StreamEventRow list)) rest"
      by (rule Cons.IH [where xs = "xs @ p # mid" and p = c and mid = "[]"]) (use Cons.prems True in simp_all)
    moreover have "slot_of c \<noteq> None" using assms(3) Cons.prems(1) by simp
    ultimately show ?thesis using True m by (auto simp: Let_def cached_event_simps(1,2))
  next
    case False
    have "chain_holes V (map cached_event (p # filter held rest)) = missing_rows held (Some p) (length (mid @ [c])) rest"
      by (rule Cons.IH [where xs = xs and p = p and mid = "mid @ [c]"]) (use Cons.prems in simp_all)
    then show ?thesis using False assms(3) Cons.prems by auto
  qed
qed simp

lemma scan_all:
  assumes "\<And>p c s. p \<in> set C \<Longrightarrow> c \<in> set C \<Longrightarrow> held p \<Longrightarrow> slot p < s \<Longrightarrow> s < slot c \<Longrightarrow> s \<notin> V \<longleftrightarrow> s \<in> slot ` set C"
    and "sorted_wrt (\<lambda>r q. slot r < slot q) C" and "\<forall>r\<in>set C. slot_of r \<noteq> None" and "C = xs @ rest"
  shows "chain_holes V (map cached_event (filter held rest)) = missing_rows held None n rest"
  using assms(4)
proof (induction rest arbitrary: xs n)
  case (Cons c rest)
  show ?case
  proof (cases "held c")
    case True
    have "chain_holes V (map cached_event (c # filter held rest)) = missing_rows held (Some c) (length ([] :: StreamEventRow list)) rest"
      by (rule scan_from [OF assms(1-3), where xs = xs and p = c and mid = "[]"]) (use Cons.prems True in simp_all)
    then show ?thesis using True assms(3) Cons.prems by auto
  next
    case False
    have "chain_holes V (map cached_event (filter held rest)) = missing_rows held None (n + 1) rest"
      by (rule Cons.IH [where xs = "xs @ [c]"]) (use Cons.prems in simp)
    then show ?thesis using False assms(3) Cons.prems by auto
  qed
qed simp

text \<open>What the scan relies on, from the chain of the stream.\<close>

lemma timeline_set: "set (timeline db ws st) = stream_rows db ws st"
  by (auto simp: timeline_def stream_rows_def)

lemma timeline_slots_sorted:
  assumes "chains_dense db"
  shows "sorted_wrt (\<lambda>r q. slot r < slot q) (filter (\<lambda>r. slot_of r \<noteq> None) (timeline db ws st))"
proof -
  have u: "events_unique (stream_events db)" using assms by (simp add: chains_dense_def)
  have ord: "\<forall>r\<in>stream_rows db ws st. \<forall>q\<in>stream_rows db ws st. same_order r q" using assms by (simp add: chains_dense_def chain_def)
  have "inj_on sv_sequence (stream_rows db ws st)"
    by (rule inj_onI) (auto simp: stream_rows_def of_stream_def intro: events_unique_rows(2) [OF u])
  moreover have "distinct (timeline db ws st)" using events_unique_rows(4) [OF u] by (simp add: timeline_def)
  ultimately have "distinct (map sv_sequence (timeline db ws st))" by (simp add: distinct_map timeline_set)
  moreover have "sorted (map sv_sequence (timeline db ws st))" by (simp add: timeline_def)
  ultimately have "sorted_wrt (\<lambda>r q. sv_sequence r < sv_sequence q) (timeline db ws st)"
    by (simp add: strict_sorted_iff flip: sorted_wrt_map)
  then have "sorted_wrt (\<lambda>r q. sv_sequence r < sv_sequence q) (filter (\<lambda>r. slot_of r \<noteq> None) (timeline db ws st))" by (rule sorted_wrt_filter)
  then show ?thesis
  proof (rule sorted_wrt_mono_rel [rotated])
    fix r q assume rq: "r \<in> set (filter (\<lambda>r. slot_of r \<noteq> None) (timeline db ws st))" "q \<in> set (filter (\<lambda>r. slot_of r \<noteq> None) (timeline db ws st))"
      "sv_sequence r < sv_sequence q"
    then have "same_order r q" using ord by (simp add: timeline_set)
    then show "slot r < slot q" using rq by (auto simp: same_order_def slot_def)
  qed
qed

lemma chain_slot_known:
  assumes "chains_dense db" and V: "V = (\<Union>r\<in>{r \<in> stream_rows db ws st. held r}. declares r)"
    and tomb: "\<And>t p. t \<in> stream_rows db ws st \<Longrightarrow> sv_eventType t = ''messages:moved'' \<Longrightarrow> p \<in> stream_rows db ws st \<Longrightarrow> held p \<Longrightarrow>
      sv_sequence p < sv_sequence t \<Longrightarrow> held t"
    and p: "p \<in> stream_rows db ws st" "slot_of p \<noteq> None" "held p" and c: "c \<in> stream_rows db ws st" "slot_of c \<noteq> None"
    and s: "slot p < s" "s < slot c"
  shows "s \<notin> V \<longleftrightarrow> s \<in> slot ` {r \<in> stream_rows db ws st. slot_of r \<noteq> None}"
proof -
  let ?R = "stream_rows db ws st"
  have ch: "chain (nextS db ws st) (nextB db ws st) {} ?R" using assms(1) by (simp add: chains_dense_def)
  have "numbered_row (nextS db ws st) (nextB db ws st) p" "numbered_row (nextS db ws st) (nextB db ws st) c"
    using ch p c by (simp_all add: chain_def)
  then have "1 \<le> slot p" "slot c < nextB db ws st" using p(2) c(2) by (auto simp: numbered_row_def slot_def)
  then have "1 \<le> s" "s < nextB db ws st" using s by linarith+
  then have here: "\<exists>r\<in>?R. slot_of r = Some s \<or> s \<in> declares r" using ch by (simp add: chain_def)
  have excl: "slot_of r \<noteq> Some s" if "r \<in> ?R" "t \<in> ?R" "s \<in> declares t" for r t using ch that by (simp add: chain_def)
  have occ: "s \<in> slot ` {r \<in> ?R. slot_of r \<noteq> None} \<longleftrightarrow> (\<exists>r\<in>?R. slot_of r = Some s)" by (force simp: slot_def)
  show ?thesis unfolding occ
  proof
    assume "\<exists>r\<in>?R. slot_of r = Some s"
    then show "s \<notin> V" using excl by (auto simp: V)
  next
    assume n: "s \<notin> V"
    show "\<exists>r\<in>?R. slot_of r = Some s"
    proof (rule ccontr)
      assume "\<not> (\<exists>r\<in>?R. slot_of r = Some s)"
      then obtain t where t: "t \<in> ?R" "s \<in> declares t" using here by blast
      then obtain b where b: "slot_of t = Some b" "s < b" using ch unfolding chain_def by blast
      have "sv_sequence p < sv_sequence t"
      proof (rule ccontr)
        assume "\<not> sv_sequence p < sv_sequence t"
        moreover have "same_order t p" using ch t p by (simp add: chain_def)
        moreover have "sv_sequence t \<noteq> sv_sequence p"
        proof
          assume "sv_sequence t = sv_sequence p"
          moreover have "events_unique (stream_events db)" using assms(1) by (simp add: chains_dense_def)
          ultimately have "t = p" using t p by (intro events_unique_rows(2)) (auto simp: stream_rows_def of_stream_def)
          then show False using b s by (simp add: slot_def)
        qed
        ultimately show False using b s p(2) by (auto simp: same_order_def slot_def)
      qed
      moreover have "sv_eventType t = ''messages:moved''" using t(2) declares_only_tombstones [of t] by (metis empty_iff)
      ultimately have "held t" using tomb t p by blast
      then show False using n t by (auto simp: V)
    qed
  qed
qed

text \<open>
  C16. The scan for missing rows is exact.  Take the timeline of a stream as the server has written it, by any sequence
  of inserts and moves, and a client that holds some of its rows: at least every move tombstone above its oldest row.
  Then the holes it computes are, one for one, the runs of timeline rows it has lost between two rows it holds, with
  the number of rows in each: no move, and no event other members do not see, ever looks like a loss, and no loss goes
  unseen.
\<close>

theorem hole_scan_is_exact:
  assumes "event_step\<^sup>*\<^sup>* no_events db"
    and "\<forall>t\<in>set (timeline db ws st). \<forall>p\<in>set (timeline db ws st).
      sv_eventType t = ''messages:moved'' \<longrightarrow> held p \<longrightarrow> sv_sequence p < sv_sequence t \<longrightarrow> held t"
  shows "computeTimelineHoles (map cached_event (filter held (timeline db ws st))) = missing_rows held None 0 (timeline db ws st)"
proof -
  have inv: "chains_dense db" by (rule reachable_chains [OF assms(1)])
  define C where "C = filter (\<lambda>r. slot_of r \<noteq> None) (timeline db ws st)"
  define V where "V = (\<Union>r\<in>{r \<in> stream_rows db ws st. held r}. declares r)"
  have "collectVacatedBroadcastSlots (map cached_event (filter held (timeline db ws st))) = V"
    by (auto simp: collectVacatedBroadcastSlots_def V_def timeline_set [symmetric])
  moreover have "filter in_chain (map cached_event (filter held (timeline db ws st))) = map cached_event (filter held C)"
    by (auto simp: C_def filter_map o_def in_chain_def cached_event_simps intro!: arg_cong [where f = "map cached_event"] filter_cong)
  moreover have "chain_holes V (map cached_event (filter held C)) = missing_rows held None 0 C"
  proof (rule scan_all [where xs = "[]" and C = C])
    have S: "set C = {r \<in> stream_rows db ws st. slot_of r \<noteq> None}" by (auto simp: C_def timeline_set)
    show "s \<notin> V \<longleftrightarrow> s \<in> slot ` set C" if "p \<in> set C" "c \<in> set C" "held p" "slot p < s" "s < slot c" for p c s
      unfolding S using that S assms(2) by (intro chain_slot_known [OF inv V_def, of p c]) (auto simp: timeline_set)
    show "sorted_wrt (\<lambda>r q. slot r < slot q) C" unfolding C_def by (rule timeline_slots_sorted [OF inv])
  qed (auto simp: C_def)
  ultimately show ?thesis using missing_rows_chain [of held None 0 "timeline db ws st"] by (simp add: computeTimelineHoles_def C_def)
qed


text \<open>Three messages and an edit in a stream, the second message then moved into a thread, a fourth message after it.\<close>

definition example_message :: "string \<Rightarrow> string \<Rightarrow> InsertEventParams" where
  "example_message i m = \<lparr>ie_id = i, ie_workspaceId = ''ws'', ie_streamId = ''s'', ie_eventType = ''message_created'',
     ie_payload = JObj [(''messageId'', JStr m)], ie_actorId = Some ''u'', ie_actorType = Some ''user'', ie_createdAt = None\<rparr>"

definition example_move :: MoveRequest where
  "example_move = \<lparr>mv_workspaceId = ''ws'', mv_sourceStreamId = ''s'', mv_destinationStreamId = ''t'', mv_messageIds = [''m2''],
     mv_agentSessionIds = [], mv_actorId = ''u'', mv_names = (JNull, JNull, JNull, JNull), mv_previews = [],
     mv_sourceTombstoneId = ''e5'', mv_destinationTombstoneId = ''e6'', mv_movedAt = 9, mv_movedAtIso = ''2026''\<rparr>"

definition example_batch :: "InsertEventParams list" where
  "example_batch = [example_message ''e1'' ''m1'', example_message ''e2'' ''m2'', (example_message ''e3'' ''m2'')\<lparr>ie_eventType := ''message_edited''\<rparr>,
     example_message ''e4'' ''m3'']"

definition example_log_1 :: EventDb where
  "example_log_1 = (case event_insertMany 1 example_batch no_events of Inr (db, es) \<Rightarrow> db | Inl e \<Rightarrow> no_events)"

definition example_log_2 :: EventDb where
  "example_log_2 = (case move_messages example_move example_log_1 of Inr db \<Rightarrow> db | Inl e \<Rightarrow> no_events)"

definition example_log :: EventDb where
  "example_log = (case event_insert 9 (example_message ''e7'' ''m4'') example_log_2 of Inr (db, e) \<Rightarrow> db | Inl e \<Rightarrow> no_events)"

lemma example_log_reachable: "event_step\<^sup>*\<^sup>* no_events example_log"
proof -
  have "\<not> isl (event_insertMany 1 example_batch no_events)" "\<not> isl (move_messages example_move example_log_1)"
    "\<not> isl (event_insert 9 (example_message ''e7'' ''m4'') example_log_2)"
    by code_simp+
  note runs = this
  have "\<exists>es. event_insertMany 1 example_batch no_events = Inr (example_log_1, es)"
    "move_messages example_move example_log_1 = Inr example_log_2"
    "\<exists>e. event_insert 9 (example_message ''e7'' ''m4'') example_log_2 = Inr (example_log, e)"
    subgoal using runs(1) by (cases "event_insertMany 1 example_batch no_events") (auto simp: example_log_1_def)
    subgoal using runs(2) by (cases "move_messages example_move example_log_1") (auto simp: example_log_2_def)
    subgoal using runs(3) by (cases "event_insert 9 (example_message ''e7'' ''m4'') example_log_2") (auto simp: example_log_def)
    done
  then obtain es e where r: "event_insertMany 1 example_batch no_events = Inr (example_log_1, es)"
    "move_messages example_move example_log_1 = Inr example_log_2"
    "event_insert 9 (example_message ''e7'' ''m4'') example_log_2 = Inr (example_log, e)"
    by blast
  have "event_step no_events example_log_1"
    by (rule event_step.many [OF _ r(1)]) (simp add: example_batch_def example_message_def)
  moreover have "event_step example_log_1 example_log_2" by (rule event_step.move [OF _ r(2)]) (simp add: example_move_def)
  moreover have "event_step example_log_2 example_log" by (rule event_step.one [OF _ r(3)]) (simp add: example_message_def)
  ultimately show ?thesis by (meson rtranclp.rtrancl_into_rtrancl rtranclp.rtrancl_refl)
qed

theorem hole_scan_is_exact_witness:
  "event_step\<^sup>*\<^sup>* no_events example_log \<and>
   computeTimelineHoles (map cached_event (filter (\<lambda>r. sv_id r \<noteq> ''e4'') (timeline example_log ''ws'' ''s''))) =
     [\<lparr>th_afterEventId = ''e1'', th_afterSequence = ''1'', th_missingCount = 1\<rparr>]"
proof (rule conjI [OF example_log_reachable])
  have "\<forall>t\<in>set (timeline example_log ''ws'' ''s''). sv_eventType t = ''messages:moved'' \<longrightarrow> sv_id t \<noteq> ''e4''" by code_simp
  then have "computeTimelineHoles (map cached_event (filter (\<lambda>r. sv_id r \<noteq> ''e4'') (timeline example_log ''ws'' ''s''))) =
      missing_rows (\<lambda>r. sv_id r \<noteq> ''e4'') None 0 (timeline example_log ''ws'' ''s'')"
    by (intro hole_scan_is_exact [OF example_log_reachable]) blast
  also have "\<dots> = [\<lparr>th_afterEventId = ''e1'', th_afterSequence = ''1'', th_missingCount = 1\<rparr>]" by code_simp
  finally show "computeTimelineHoles (map cached_event (filter (\<lambda>r. sv_id r \<noteq> ''e4'') (timeline example_log ''ws'' ''s''))) =
     [\<lparr>th_afterEventId = ''e1'', th_afterSequence = ''1'', th_missingCount = 1\<rparr>]" .
qed

text \<open>
  C15. The broadcast chain of a stream is dense.  However events have been inserted and moved, every broadcast number the
  stream's counter has handed out is either carried by exactly one row of the stream, or declared vacated by the
  tombstone of a move, which itself has a larger number; never both.  And the rows of a stream are in the same order by
  broadcast number as by sequence.
\<close>

theorem broadcast_chain_is_dense:
  assumes "event_step\<^sup>*\<^sup>* no_events db"
  shows "(\<forall>s. 1 \<le> s \<and> s < nextB db ws st \<longrightarrow>
      (if \<exists>t\<in>set (timeline db ws st). s \<in> set (declared_slots (cached_event t))
       then (\<forall>r\<in>set (timeline db ws st). sv_broadcastSequence r \<noteq> Some s) \<and>
         (\<forall>t\<in>set (timeline db ws st). s \<in> set (declared_slots (cached_event t)) \<longrightarrow> (\<exists>b. sv_broadcastSequence t = Some b \<and> s < b))
       else \<exists>!r. r \<in> set (timeline db ws st) \<and> sv_broadcastSequence r = Some s)) \<and>
    (\<forall>r\<in>set (timeline db ws st). \<forall>q\<in>set (timeline db ws st). \<forall>b c. sv_broadcastSequence r = Some b \<longrightarrow> sv_broadcastSequence q = Some c \<longrightarrow>
      (b < c \<longleftrightarrow> sv_sequence r < sv_sequence q))"
proof -
  have inv: "chains_dense db" by (rule reachable_chains [OF assms])
  then have ch: "chain (nextS db ws st) (nextB db ws st) {} (stream_rows db ws st)" and u: "events_unique (stream_events db)"
    by (simp_all add: chains_dense_def)
  have same: "r = q" if "r \<in> stream_rows db ws st" "q \<in> stream_rows db ws st" "slot_of r = Some s" "slot_of q = Some s" for r q s
    using that by (intro events_unique_rows(3) [OF u]) (auto simp: stream_rows_def of_stream_def)
  have seq: "r = q" if "r \<in> stream_rows db ws st" "q \<in> stream_rows db ws st" "sv_sequence r = sv_sequence q" for r q
    using that by (intro events_unique_rows(2) [OF u]) (auto simp: stream_rows_def of_stream_def)
  have fwd: "b < c" if "r \<in> stream_rows db ws st" "q \<in> stream_rows db ws st" "slot_of r = Some b" "slot_of q = Some c"
    "sv_sequence r < sv_sequence q" for r q b c
    using ch that unfolding chain_def same_order_def by blast
  have "b < c \<longleftrightarrow> sv_sequence r < sv_sequence q" if rq: "r \<in> stream_rows db ws st" "q \<in> stream_rows db ws st" "slot_of r = Some b" "slot_of q = Some c" for r q b c
  proof (cases "sv_sequence r" "sv_sequence q" rule: linorder_cases)
    case equal
    then show ?thesis using seq [OF rq(1,2)] rq(3,4) by simp
  next
    case greater
    then show ?thesis using fwd [of q r c b] rq by simp
  qed (use fwd rq in blast)
  moreover have "if \<exists>t\<in>stream_rows db ws st. s \<in> declares t
       then (\<forall>r\<in>stream_rows db ws st. slot_of r \<noteq> Some s) \<and>
         (\<forall>t\<in>stream_rows db ws st. s \<in> declares t \<longrightarrow> (\<exists>b. slot_of t = Some b \<and> s < b))
       else \<exists>!r. r \<in> stream_rows db ws st \<and> slot_of r = Some s" if s: "1 \<le> s" "s < nextB db ws st" for s
  proof (cases "\<exists>t\<in>stream_rows db ws st. s \<in> declares t")
    case True
    then show ?thesis using ch unfolding chain_def by auto
  next
    case False
    then obtain r where "r \<in> stream_rows db ws st" "slot_of r = Some s" using ch s unfolding chain_def by auto
    then have "\<exists>!r. r \<in> stream_rows db ws st \<and> slot_of r = Some s" using same by blast
    then show ?thesis using False by simp
  qed
  ultimately show ?thesis unfolding timeline_set by blast
qed

theorem broadcast_chain_is_dense_witness:
  "event_step\<^sup>*\<^sup>* no_events example_log \<and> nextB example_log ''ws'' ''s'' = 6 \<and>
   (\<exists>!r. r \<in> set (timeline example_log ''ws'' ''s'') \<and> sv_broadcastSequence r = Some 3)"
proof -
  have n: "nextB example_log ''ws'' ''s'' = 6" by code_simp
  have "\<not> (\<exists>t\<in>set (timeline example_log ''ws'' ''s''). 3 \<in> set (declared_slots (cached_event t)))" by code_simp
  then show ?thesis using broadcast_chain_is_dense [OF example_log_reachable, of "''ws''" "''s''"] example_log_reachable n by simp
qed

end
