(* ===== verification/Read_Marks.thy ===== *)
theory Read_Marks
  imports Sparse_Read Timeline_Chain
begin

text \<open>
  What the watermark and the overlay promise together: the overlay of a user lies strictly above the watermark, so the
  unread count, which subtracts one from the other, counts the messages the user has not read; reading and unreading
  single messages change exactly those.  The send path does not keep the first promise.
\<close>

section \<open>The watermark\<close>

definition pointer :: "ReadDb \<Rightarrow> string \<Rightarrow> string \<Rightarrow> string \<Rightarrow> string option" where
  "pointer db ws st user = Option.bind (find (state_of ws st user) (rd_states db)) rr_lastReadEventId"

definition watermark :: "ReadDb \<Rightarrow> string \<Rightarrow> string \<Rightarrow> string \<Rightarrow> int" where
  "watermark db ws st user = sequence_or_zero (rd_events db) ws (pointer db ws st user)"

lemma upsert_other [simp]:
  "rd_events (upsert_state ws st user new g f db) = rd_events db" "rd_streams (upsert_state ws st user new g f db) = rd_streams db"
  "rd_messages (upsert_state ws st user new g f db) = rd_messages db" "rd_reads (upsert_state ws st user new g f db) = rd_reads db"
  by (simp_all add: upsert_state_def)

lemma state_of_same: "state_of ws st user r \<Longrightarrow> state_of ws' st' user' r \<longleftrightarrow> ws' = ws \<and> st' = st \<and> user' = user"
  by (auto simp: state_of_def)

lemma find_upsert:
  assumes "state_of ws st user new" "\<And>r. state_of ws st user r \<Longrightarrow> state_of ws st user (f r)"
  shows "find (state_of ws' st' user') (rd_states (upsert_state ws st user new g f db)) =
    (if ws' = ws \<and> st' = st \<and> user' = user \<and> (ws, st) \<in> set (rd_streams db)
     then Some (case find (state_of ws st user) (rd_states db) of None \<Rightarrow> new | Some r \<Rightarrow> if g r then f r else r)
     else find (state_of ws' st' user') (rd_states db))"
proof -
  have u: "find (state_of ws' st' user') (sql_update (\<lambda>r. state_of ws st user r \<and> g r) f rows) =
      (if ws' = ws \<and> st' = st \<and> user' = user then map_option (\<lambda>r. if g r then f r else r) (find (state_of ws st user) rows)
       else find (state_of ws' st' user') rows)" for rows
  proof (induction rows)
    case (Cons a rows)
    show ?case
    proof (cases "state_of ws st user a")
      case True
      have "state_of ws st user (f a)" by (rule assms(2) [OF True])
      then have k1: "state_of ws' st' user' (f a) \<longleftrightarrow> ws' = ws \<and> st' = st \<and> user' = user" by (rule state_of_same)
      have k2: "state_of ws' st' user' a \<longleftrightarrow> ws' = ws \<and> st' = st \<and> user' = user" by (rule state_of_same [OF True])
      show ?thesis
      proof (cases "ws' = ws \<and> st' = st \<and> user' = user")
        case same: True
        then show ?thesis using True k1 k2 by (cases "g a") simp_all
      next
        case other: False
        then have "\<not> state_of ws' st' user' (f a)" "\<not> state_of ws' st' user' a" using k1 k2 by blast+
        then show ?thesis using Cons.IH other by (cases "g a") (simp_all only: sql_update_Cons True simp_thms if_True if_False find.simps)
      qed
    next
      case False
      then show ?thesis using Cons.IH by auto
    qed
  qed simp
  have n: "state_of ws' st' user' new \<longleftrightarrow> ws' = ws \<and> st' = st \<and> user' = user" by (rule state_of_same [OF assms(1)])
  show ?thesis
  proof (cases "ws' = ws \<and> st' = st \<and> user' = user")
    case True
    have "find (state_of ws st user) (sql_update (\<lambda>r. state_of ws st user r \<and> g r) f rows) =
        map_option (\<lambda>r. if g r then f r else r) (find (state_of ws st user) rows)" for rows
      using u [of rows] True by simp
    then show ?thesis using True assms(1) by (auto simp: upsert_state_def find_append split: option.splits)
  next
    case False
    have u': "find (state_of ws' st' user') (sql_update (\<lambda>r. state_of ws st user r \<and> g r) f rows) = find (state_of ws' st' user') rows" for rows
      using u [of rows] unfolding if_not_P [OF False] .
    have "\<not> state_of ws' st' user' new" using n False by blast
    then have "find (state_of ws' st' user') (rd_states (upsert_state ws st user new g f db)) = find (state_of ws' st' user') (rd_states db)"
      by (simp add: upsert_state_def u' find_append split: option.splits)
    then show ?thesis using False by auto
  qed
qed

lemma state_of_new [simp]: "state_of ws st user (fresh_state now ws st user e t)"
  "state_of ws st user ((fresh_state now ws st user e t)\<lparr>rr_inboxHeld := h\<rparr>)" "state_of ws st user (point_at now e r) \<longleftrightarrow> state_of ws st user r"
  "state_of ws st user (r\<lparr>rr_inboxHeld := h, rr_inboxFloorEventId := i\<rparr>) \<longleftrightarrow> state_of ws st user r"
  by (simp_all add: state_of_def fresh_state_def point_at_def)

lemma pointer_fields [simp]:
  "rr_lastReadEventId (fresh_state now ws st user e t) = e" "rr_lastReadEventId (point_at now e r) = e"
  by (simp_all add: fresh_state_def point_at_def)

definition state_key :: "StreamReadStateRow \<Rightarrow> string \<times> string \<times> string" where
  "state_key r = (rr_workspaceId r, rr_streamId r, rr_userId r)"

lemma state_of_key: "state_of ws st user r \<longleftrightarrow> state_key r = (ws, st, user)"
  by (auto simp: state_of_def state_key_def)

lemma upsert_distinct:
  assumes "distinct (map state_key (rd_states db))" "state_of ws st user new" "\<And>r. state_of ws st user r \<Longrightarrow> state_of ws st user (f r)"
  shows "distinct (map state_key (rd_states (upsert_state ws st user new g f db)))"
proof -
  have "map state_key (sql_update (\<lambda>r. state_of ws st user r \<and> g r) f rows) = map state_key rows" for rows
    by (rule sql_update_key) (use assms(3) in \<open>auto simp: state_of_key\<close>)
  moreover have "state_key new \<notin> state_key ` set (rd_states db)" if "find (state_of ws st user) (rd_states db) = None"
    using that assms(2) by (auto simp: find_None_iff state_of_key)
  ultimately show ?thesis using assms(1) by (simp add: upsert_state_def)
qed

section \<open>The statements\<close>

lemma ensure_other [simp]:
  "rd_events (fst (ensureForUpdate now ws st user db)) = rd_events db" "rd_streams (fst (ensureForUpdate now ws st user db)) = rd_streams db"
  "rd_messages (fst (ensureForUpdate now ws st user db)) = rd_messages db" "rd_reads (fst (ensureForUpdate now ws st user db)) = rd_reads db"
  by (simp_all add: ensureForUpdate_def Let_def)

lemma ensure_pointer [simp]: "pointer (fst (ensureForUpdate now ws st user db)) ws' st' user' = pointer db ws' st' user'"
  by (auto simp: pointer_def ensureForUpdate_def Let_def find_upsert split: option.splits)

lemma ensure_seed: "watermarkSeed now ws st user db = (fst (ensureForUpdate now ws st user db), pointer db ws st user)"
proof -
  have "Option.bind (read_state_get (fst (ensureForUpdate now ws st user db)) ws st user) rv_lastReadEventId = pointer (fst (ensureForUpdate now ws st user db)) ws st user"
    by (simp add: read_state_get_def pointer_def mapRowToReadState_def split: option.splits bind_splits) 
  moreover have "snd (ensureForUpdate now ws st user db) = read_state_get (fst (ensureForUpdate now ws st user db)) ws st user"
    by (simp add: ensureForUpdate_def Let_def)
  ultimately show ?thesis by (simp add: watermarkSeed_def prod_eq_iff)
qed

lemma ensure_distinct: "distinct (map state_key (rd_states db)) \<Longrightarrow> distinct (map state_key (rd_states (fst (ensureForUpdate now ws st user db))))"
  by (simp add: ensureForUpdate_def Let_def upsert_distinct)

lemma advance_other [simp]:
  "rd_events (fst (read_state_advance now ws st user e h db)) = rd_events db" "rd_streams (fst (read_state_advance now ws st user e h db)) = rd_streams db"
  "rd_messages (fst (read_state_advance now ws st user e h db)) = rd_messages db" "rd_reads (fst (read_state_advance now ws st user e h db)) = rd_reads db"
  by (simp_all add: read_state_advance_def Let_def)

lemma advance_distinct: "distinct (map state_key (rd_states db)) \<Longrightarrow> distinct (map state_key (rd_states (fst (read_state_advance now ws st user e h db))))"
  by (simp add: read_state_advance_def Let_def upsert_distinct ensure_distinct)

lemma advance_pointer:
  assumes "0 < sequence_or_zero (rd_events db) ws (Some e)"
  shows "pointer (fst (read_state_advance now ws st user e h db)) ws' st' user' =
    (if ws' = ws \<and> st' = st \<and> user' = user \<and> (ws, st) \<in> set (rd_streams db) \<and> watermark db ws st user < sequence_or_zero (rd_events db) ws (Some e)
     then Some e else pointer db ws' st' user')"
proof -
  define db1 where "db1 = (if h then fst (ensureForUpdate now ws st user db) else db)"
  have p: "pointer db1 ws'' st'' user'' = pointer db ws'' st'' user''" for ws'' st'' user'' by (simp add: db1_def)
  have ev: "rd_events db1 = rd_events db" "rd_streams db1 = rd_streams db" by (simp_all add: db1_def)
  let ?new = "(fresh_state now ws st user (Some e) (Some now))\<lparr>rr_inboxHeld := h \<and> crosses_message db1 ws st user e\<rparr>"
  let ?f = "\<lambda>r. (point_at now (Some e) r)
              \<lparr>rr_inboxHeld := (h \<and> crosses_message db1 ws st user e \<or> rr_inboxHeld r),
               rr_inboxFloorEventId := (if rr_inboxHeld r then rr_inboxFloorEventId r else if h \<and> crosses_message db1 ws st user e then rr_lastReadEventId r else None)\<rparr>"
  have a: "fst (read_state_advance now ws st user e h db) = upsert_state ws st user ?new (out_sequences db1 ws e) ?f db1"
    unfolding db1_def read_state_advance_def Let_def by (simp only: fst_conv)
  have f: "find (state_of ws' st' user') (rd_states (fst (read_state_advance now ws st user e h db))) =
    (if ws' = ws \<and> st' = st \<and> user' = user \<and> (ws, st) \<in> set (rd_streams db)
     then Some (case find (state_of ws st user) (rd_states db1) of None \<Rightarrow> ?new | Some r \<Rightarrow> if out_sequences db1 ws e r then ?f r else r)
     else find (state_of ws' st' user') (rd_states db1))"
    unfolding a by (subst find_upsert) (simp_all add: ev)
  show ?thesis
  proof (cases "ws' = ws \<and> st' = st \<and> user' = user \<and> (ws, st) \<in> set (rd_streams db)")
    case True
    show ?thesis
    proof (cases "find (state_of ws st user) (rd_states db1)")
      case None
      then have "pointer db ws st user = None" using p [of ws st user] by (simp add: pointer_def)
      then have "watermark db ws st user = 0" by (simp add: watermark_def sequence_or_zero_def)
      then show ?thesis using True None f assms by (simp add: pointer_def)
    next
      case (Some r)
      then have r: "pointer db ws st user = rr_lastReadEventId r" using p [of ws st user] by (simp add: pointer_def)
      then have "out_sequences db1 ws e r \<longleftrightarrow> watermark db ws st user < sequence_or_zero (rd_events db) ws (Some e)"
        by (simp add: out_sequences_def watermark_def ev)
      then show ?thesis using True Some f r by (simp add: pointer_def)
    qed
  next
    case False
    then have "pointer (fst (read_state_advance now ws st user e h db)) ws' st' user' = pointer db1 ws' st' user'"
      unfolding pointer_def f by (simp only: if_False)
    then show ?thesis using False p by auto
  qed
qed

lemma read_state_set_other [simp]:
  "rd_events (fst (read_state_set now ws st user e db)) = rd_events db" "rd_streams (fst (read_state_set now ws st user e db)) = rd_streams db"
  "rd_messages (fst (read_state_set now ws st user e db)) = rd_messages db" "rd_reads (fst (read_state_set now ws st user e db)) = rd_reads db"
  by (simp_all add: read_state_set_def Let_def)

lemma read_state_set_pointer:
  "pointer (fst (read_state_set now ws st user e db)) ws' st' user' =
    (if ws' = ws \<and> st' = st \<and> user' = user \<and> (ws, st) \<in> set (rd_streams db) then e else pointer db ws' st' user')"
  by (auto simp: pointer_def read_state_set_def Let_def find_upsert split: option.splits)

lemma read_state_set_distinct:
  "distinct (map state_key (rd_states db)) \<Longrightarrow> distinct (map state_key (rd_states (fst (read_state_set now ws st user e db))))"
  by (simp add: read_state_set_def Let_def upsert_distinct)

section \<open>Well-formed read state\<close>

lemma filter_only:
  assumes "e \<in> set xs" "P e" "\<And>r. r \<in> set xs \<Longrightarrow> P r \<Longrightarrow> r = e"
  shows "\<exists>rest. filter P xs = e # rest"
proof (cases "filter P xs")
  case Nil
  then show ?thesis using assms(1,2) by (simp add: filter_empty_conv)
next
  case (Cons a rest)
  then have "a \<in> set (filter P xs)" by simp
  then have "a = e" using assms(3) by simp
  then show ?thesis using Cons by simp
qed

lemma length_filter_split: "length (filter P xs) = length (filter (\<lambda>x. P x \<and> Q x) xs) + length (filter (\<lambda>x. P x \<and> \<not> Q x) xs)"
  by (induction xs) auto

definition messages_unique :: "EventDb \<Rightarrow> bool" where
  "messages_unique ev \<longleftrightarrow> (\<forall>r\<in>set (stream_events ev). \<forall>q\<in>set (stream_events ev).
     sv_workspaceId r = sv_workspaceId q \<longrightarrow> is_message r \<longrightarrow> is_message q \<longrightarrow> message_id_of r \<noteq> None \<longrightarrow> message_id_of r = message_id_of q \<longrightarrow> r = q)"

definition log_ok :: "EventDb \<Rightarrow> bool" where
  "log_ok ev \<longleftrightarrow> chains_dense ev \<and> messages_unique ev \<and> (\<forall>e\<in>set (stream_events ev). sv_id e \<noteq> [])"

text \<open>An overlay row and the event it was resolved from.\<close>

definition read_of :: "MessageReadRow \<Rightarrow> StreamEventRow \<Rightarrow> bool" where
  "read_of r e \<longleftrightarrow> of_stream (mr_workspaceId r) (mr_streamId r) e \<and> is_message e \<and> message_id_of e = Some (mr_messageId r) \<and>
    sv_id e = mr_eventId r \<and> sv_sequence e = mr_sequence r"

definition pointers_ok :: "ReadDb \<Rightarrow> bool" where
  "pointers_ok db \<longleftrightarrow> (\<forall>ws st user i. pointer db ws st user = Some i \<longrightarrow> (\<exists>e\<in>set (stream_events (rd_events db)). of_stream ws st e \<and> sv_id e = i))"

definition overlay_ok :: "ReadDb \<Rightarrow> bool" where
  "overlay_ok db \<longleftrightarrow> reads_unique (rd_reads db) \<and> (\<forall>r\<in>set (rd_reads db). \<exists>e\<in>set (stream_events (rd_events db)). read_of r e)"

definition overlay_above :: "ReadDb \<Rightarrow> bool" where
  "overlay_above db \<longleftrightarrow> (\<forall>r\<in>set (rd_reads db). watermark db (mr_workspaceId r) (mr_streamId r) (mr_memberId r) < mr_sequence r)"

definition read_ok :: "ReadDb \<Rightarrow> bool" where
  "read_ok db \<longleftrightarrow> log_ok (rd_events db) \<and> distinct (map state_key (rd_states db)) \<and> pointers_ok db \<and> overlay_ok db \<and> overlay_above db"

text \<open>A message is read when it is at or below the watermark, or has a row in the overlay.\<close>

definition effectively_read :: "ReadDb \<Rightarrow> string \<Rightarrow> string \<Rightarrow> string \<Rightarrow> StreamEventRow \<Rightarrow> bool" where
  "effectively_read db ws st user e \<longleftrightarrow> sv_sequence e \<le> watermark db ws st user \<or>
    (\<exists>r\<in>set (rd_reads db). overlay_row ws st user r \<and> Some (mr_messageId r) = message_id_of e)"

lemma log_unique: "log_ok ev \<Longrightarrow> events_unique (stream_events ev)"
  by (simp add: log_ok_def chains_dense_def)

lemma log_positive:
  assumes "log_ok ev" "e \<in> set (stream_events ev)"
  shows "1 \<le> sv_sequence e"
proof -
  have "e \<in> stream_rows ev (sv_workspaceId e) (sv_streamId e)" using assms(2) by (simp add: stream_rows_def of_stream_def)
  then have "numbered_row (nextS ev (sv_workspaceId e) (sv_streamId e)) (nextB ev (sv_workspaceId e) (sv_streamId e)) e"
    using assms(1) by (simp add: log_ok_def chains_dense_def chain_def)
  then show ?thesis by (simp add: numbered_row_def)
qed

lemma sequence_of_event:
  assumes "events_unique (stream_events ev)" "e \<in> set (stream_events ev)"
  shows "sequence_or_zero ev (sv_workspaceId e) (Some (sv_id e)) = sv_sequence e"
proof -
  let ?l = "filter (\<lambda>r. sv_workspaceId r = sv_workspaceId e \<and> Some (sv_id r) = Some (sv_id e)) (stream_events ev)"
  have "\<exists>rest. ?l = e # rest"
    by (rule filter_only) (use assms(2) in \<open>auto intro: events_unique_rows(1) [OF assms(1)]\<close>)
  then show ?thesis by (auto simp: sequence_or_zero_def)
qed

lemma sequence_or_zero_nonneg:
  assumes "log_ok ev"
  shows "0 \<le> sequence_or_zero ev ws i"
proof (cases "filter (\<lambda>r. sv_workspaceId r = ws \<and> Some (sv_id r) = i) (stream_events ev)")
  case (Cons r rs)
  then have "r \<in> set (filter (\<lambda>r. sv_workspaceId r = ws \<and> Some (sv_id r) = i) (stream_events ev))" by simp
  then have "1 \<le> sv_sequence r" using log_positive [OF assms] by simp
  then show ?thesis using Cons by (simp add: sequence_or_zero_def)
qed (simp add: sequence_or_zero_def)

text \<open>The two ways of looking the watermark up agree.\<close>

lemma message_ordinal_event:
  assumes "events_unique (stream_events ev)" "e \<in> set (stream_events ev)" "of_stream ws st e"
  shows "getMessageOrdinalForEvent ev ws st (sv_id e) = Some (sv_sequence e, countMessagesThrough ev ws st (sv_sequence e))"
proof -
  let ?l = "filter (\<lambda>r. of_stream ws st r \<and> sv_id r = sv_id e) (stream_events ev)"
  have "\<exists>rest. ?l = e # rest"
    by (rule filter_only) (use assms(2,3) in \<open>auto simp: of_stream_def intro: events_unique_rows(1) [OF assms(1)]\<close>)
  then show ?thesis by (auto simp: getMessageOrdinalForEvent_def)
qed

lemma message_ordinal_Some:
  assumes "getMessageOrdinalForEvent ev ws st i = Some (s, n)"
  obtains e where "e \<in> set (stream_events ev)" "of_stream ws st e" "sv_id e = i" "sv_sequence e = s" "n = countMessagesThrough ev ws st s"
proof -
  obtain e rest where "filter (\<lambda>r. of_stream ws st r \<and> sv_id r = i) (stream_events ev) = e # rest" "s = sv_sequence e" "n = countMessagesThrough ev ws st s"
    using assms by (auto simp: getMessageOrdinalForEvent_def split: list.splits)
  note l = this
  have "e \<in> set (filter (\<lambda>r. of_stream ws st r \<and> sv_id r = i) (stream_events ev))" unfolding l(1) by simp
  then show ?thesis using l(2,3) by (intro that [of e]) auto
qed

lemma watermark_resolved:
  assumes "log_ok (rd_events db)" "pointers_ok db"
  shows "resolveWatermarkSequence db ws st (pointer db ws st user) = watermark db ws st user"
proof (cases "pointer db ws st user")
  case None
  then show ?thesis by (simp add: resolveWatermarkSequence_def watermark_def sequence_or_zero_def)
next
  case (Some i)
  then obtain e where e: "e \<in> set (stream_events (rd_events db))" "of_stream ws st e" "sv_id e = i"
    using assms(2) unfolding pointers_ok_def by blast
  have u: "events_unique (stream_events (rd_events db))" by (rule log_unique [OF assms(1)])
  have "i \<noteq> []" using assms(1) e by (auto simp: log_ok_def)
  moreover have "sequence_or_zero (rd_events db) ws (Some i) = sv_sequence e"
    using sequence_of_event [OF u e(1)] e by (simp add: of_stream_def)
  ultimately show ?thesis using Some message_ordinal_event [OF u e(1,2)] e(3) by (simp add: resolveWatermarkSequence_def watermark_def)
qed

section \<open>The unread count\<close>

lemma distinct_message_rows: "events_unique (stream_events ev) \<Longrightarrow> distinct (message_rows ev ws st)"
  using events_unique_rows(4) by (simp add: message_rows_def)

lemma set_message_rows: "set (message_rows ev ws st) = {e \<in> set (stream_events ev). of_stream ws st e \<and> is_message e}"
  by (auto simp: message_rows_def)

text \<open>The overlay of a user in a stream counts the messages above the watermark that are read.\<close>

lemma overlay_count:
  assumes "read_ok db"
  shows "sql_count (overlay_row ws st user) (rd_reads db) =
    length (filter (\<lambda>e. watermark db ws st user < sv_sequence e \<and> effectively_read db ws st user e) (message_rows (rd_events db) ws st))"
proof -
  let ?M = "message_rows (rd_events db) ws st"
  let ?R = "filter (overlay_row ws st user) (rd_reads db)"
  let ?X = "filter (\<lambda>e. watermark db ws st user < sv_sequence e \<and> effectively_read db ws st user e) ?M"
  have lok: "log_ok (rd_events db)" and ov: "overlay_ok db" and ab: "overlay_above db" using assms by (simp_all add: read_ok_def)
  have u: "events_unique (stream_events (rd_events db))" by (rule log_unique [OF lok])
  have mu: "messages_unique (rd_events db)" using lok by (simp add: log_ok_def)
  have "distinct (map (\<lambda>r. (mr_workspaceId r, mr_streamId r, mr_memberId r, mr_messageId r)) ?R)"
    using ov by (simp add: overlay_ok_def reads_unique_def distinct_key_filter)
  moreover have "map (\<lambda>r. (mr_workspaceId r, mr_streamId r, mr_memberId r, mr_messageId r)) ?R = map (\<lambda>r. (ws, st, user, mr_messageId r)) ?R"
    by (auto simp: overlay_row_def)
  ultimately have "distinct (map mr_messageId ?R)" by (auto simp: distinct_map inj_on_def)
  then have "length ?R = card (Some ` mr_messageId ` set ?R)" by (metis card_image distinct_card inj_Some length_map list.set_map)
  also have "Some ` mr_messageId ` set ?R = message_id_of ` set ?X"
  proof (intro equalityI subsetI)
    fix i assume "i \<in> Some ` mr_messageId ` set ?R"
    then obtain r where r: "r \<in> set (rd_reads db)" "overlay_row ws st user r" "i = Some (mr_messageId r)" by auto
    then obtain e where e: "e \<in> set (stream_events (rd_events db))" "read_of r e" using ov by (auto simp: overlay_ok_def)
    have k: "mr_workspaceId r = ws" "mr_streamId r = st" "mr_memberId r = user" using r(2) by (simp_all add: overlay_row_def)
    have "watermark db ws st user < sv_sequence e" using ab r(1) e(2) k by (auto simp: overlay_above_def read_of_def)
    moreover have "effectively_read db ws st user e" using r e(2) by (auto simp: effectively_read_def read_of_def)
    moreover have "e \<in> set ?M" using e k by (simp add: set_message_rows read_of_def)
    ultimately have "e \<in> set ?X" by simp
    then show "i \<in> message_id_of ` set ?X" using e(2) r(3) by (intro image_eqI [where x = e]) (auto simp: read_of_def)
  next
    fix i assume "i \<in> message_id_of ` set ?X"
    then obtain x r where x: "i = message_id_of x" "r \<in> set ?R" "Some (mr_messageId r) = message_id_of x" by (auto simp: effectively_read_def)
    then have "i = Some (mr_messageId r)" by simp
    then show "i \<in> Some ` mr_messageId ` set ?R" using x(2) by blast
  qed
  also have "card (message_id_of ` set ?X) = card (set ?X)"
  proof (rule card_image, rule inj_onI)
    fix e e' assume e: "e \<in> set ?X" "e' \<in> set ?X" "message_id_of e = message_id_of e'"
    then have "effectively_read db ws st user e" "\<not> sv_sequence e \<le> watermark db ws st user" by simp_all
    then have "\<exists>r :: MessageReadRow. Some (mr_messageId r) = message_id_of e" unfolding effectively_read_def by blast
    then have "message_id_of e \<noteq> None" by (metis option.distinct(1))
    moreover have "sv_workspaceId e = sv_workspaceId e'" "is_message e" "is_message e'" "e \<in> set (stream_events (rd_events db))"
      "e' \<in> set (stream_events (rd_events db))" using e by (auto simp: set_message_rows of_stream_def)
    ultimately show "e = e'" using mu e(3) unfolding messages_unique_def by blast
  qed
  also have "\<dots> = length ?X" by (rule distinct_card, rule distinct_filter, rule distinct_message_rows [OF u])
  finally show ?thesis by (simp add: sql_count_def)
qed

lemma unread_count_exact:
  assumes "read_ok db"
  shows "unread_count (rd_events db) (rd_reads db) ws \<lparr>mb_streamId = st, mb_memberId = user, mb_lastReadEventId = pointer db ws st user\<rparr> =
    int (length (filter (\<lambda>e. \<not> effectively_read db ws st user e) (message_rows (rd_events db) ws st)))"
proof -
  let ?M = "message_rows (rd_events db) ws st"
  have "length (filter (\<lambda>e. watermark db ws st user < sv_sequence e) ?M) =
      length (filter (\<lambda>e. watermark db ws st user < sv_sequence e \<and> effectively_read db ws st user e) ?M) +
      length (filter (\<lambda>e. watermark db ws st user < sv_sequence e \<and> \<not> effectively_read db ws st user e) ?M)"
    by (rule length_filter_split)
  moreover have "filter (\<lambda>e. watermark db ws st user < sv_sequence e \<and> \<not> effectively_read db ws st user e) ?M =
      filter (\<lambda>e. \<not> effectively_read db ws st user e) ?M"
    by (rule filter_cong) (auto simp: effectively_read_def)
  ultimately show ?thesis
    using overlay_count [OF assms, of ws st user] by (simp add: unread_count_def sql_count_def watermark_def [symmetric])
qed

section \<open>Every operation keeps the read state well formed\<close>

text \<open>How a change is shown to keep it: the log stays, rows of the overlay may go, and what is left is above the new watermarks.\<close>

lemma read_ok_change:
  assumes "read_ok db" "rd_events db' = rd_events db" "distinct (map state_key (rd_states db'))"
    and "\<And>ws st user i. pointer db' ws st user = Some i \<Longrightarrow> pointer db' ws st user \<noteq> pointer db ws st user \<Longrightarrow>
      \<exists>e\<in>set (stream_events (rd_events db)). of_stream ws st e \<and> sv_id e = i"
    and "reads_unique (rd_reads db')" "set (rd_reads db') \<subseteq> set (rd_reads db)"
    and "\<And>r. r \<in> set (rd_reads db') \<Longrightarrow> pointer db' (mr_workspaceId r) (mr_streamId r) (mr_memberId r) \<noteq> pointer db (mr_workspaceId r) (mr_streamId r) (mr_memberId r) \<Longrightarrow>
      watermark db' (mr_workspaceId r) (mr_streamId r) (mr_memberId r) < mr_sequence r"
  shows "read_ok db'"
proof -
  note old = assms(1) [unfolded read_ok_def]
  have "pointers_ok db'"
    unfolding pointers_ok_def assms(2) using assms(4) old by (metis pointers_ok_def)
  moreover have "overlay_ok db'" using old assms(2,5,6) by (auto simp: overlay_ok_def)
  moreover have "overlay_above db'"
    unfolding overlay_above_def
  proof
    fix r assume r: "r \<in> set (rd_reads db')"
    let ?k = "\<lambda>f. f (mr_workspaceId r) (mr_streamId r) (mr_memberId r)"
    show "watermark db' (mr_workspaceId r) (mr_streamId r) (mr_memberId r) < mr_sequence r"
    proof (cases "pointer db' (mr_workspaceId r) (mr_streamId r) (mr_memberId r) = pointer db (mr_workspaceId r) (mr_streamId r) (mr_memberId r)")
      case True
      then have "watermark db' (mr_workspaceId r) (mr_streamId r) (mr_memberId r) = watermark db (mr_workspaceId r) (mr_streamId r) (mr_memberId r)"
        by (simp add: watermark_def assms(2))
      then show ?thesis using old r assms(6) by (auto simp: overlay_above_def)
    qed (use assms(7) r in blast)
  qed
  ultimately show ?thesis using old assms(2,3) by (simp add: read_ok_def)
qed

lemma delete_reads_other [simp]:
  "rd_events (delete_reads p db) = rd_events db" "rd_streams (delete_reads p db) = rd_streams db" "rd_states (delete_reads p db) = rd_states db"
  "rd_messages (delete_reads p db) = rd_messages db" "set (rd_reads (delete_reads p db)) = {r \<in> set (rd_reads db). \<not> p r}"
  "pointer (delete_reads p db) ws st user = pointer db ws st user" "watermark (delete_reads p db) ws st user = watermark db ws st user"
  by (simp_all add: delete_reads_def pointer_def watermark_def)

lemma reads_unique_delete: "reads_unique (rd_reads db) \<Longrightarrow> reads_unique (rd_reads (delete_reads p db))"
  by (simp add: reads_unique_def delete_reads_def sql_delete_def distinct_key_filter)

lemma delete_reads_ok: "read_ok db \<Longrightarrow> read_ok (delete_reads p db)"
  by (rule read_ok_change) (auto simp: read_ok_def overlay_ok_def reads_unique_delete)

lemma ensure_ok: "read_ok db \<Longrightarrow> read_ok (fst (ensureForUpdate now ws st user db))"
  by (rule read_ok_change) (auto simp: read_ok_def overlay_ok_def ensure_distinct)

text \<open>Setting the pointer, with what is deleted beside it.\<close>

definition points_to :: "ReadDb \<Rightarrow> string \<Rightarrow> string \<Rightarrow> string option \<Rightarrow> int \<Rightarrow> bool" where
  "points_to db ws st event s \<longleftrightarrow> (case event of None \<Rightarrow> s = 0
     | Some i \<Rightarrow> \<exists>e\<in>set (stream_events (rd_events db)). of_stream ws st e \<and> sv_id e = i \<and> sv_sequence e = s)"

lemma points_to_sequence: "log_ok (rd_events db) \<Longrightarrow> points_to db ws st event s \<Longrightarrow> sequence_or_zero (rd_events db) ws event = s"
  using sequence_of_event [OF log_unique] by (fastforce simp: points_to_def of_stream_def sequence_or_zero_def split: option.splits)

lemma set_ok:
  assumes ok: "read_ok db" and p: "points_to db ws st event s"
    and a: "\<And>r. r \<in> set (rd_reads db) \<Longrightarrow> overlay_row ws st user r \<Longrightarrow> \<not> q r \<Longrightarrow> s < mr_sequence r"
  shows "read_ok (delete_reads q (fst (read_state_set now ws st user event db)))"
proof (rule read_ok_change [OF ok])
  let ?db = "delete_reads q (fst (read_state_set now ws st user event db))"
  have lok: "log_ok (rd_events db)" using ok by (simp add: read_ok_def)
  show "distinct (map state_key (rd_states ?db))" using ok by (simp add: read_ok_def read_state_set_distinct)
  show "reads_unique (rd_reads ?db)" using ok reads_unique_delete [of "fst (read_state_set now ws st user event db)" q] by (simp add: read_ok_def overlay_ok_def)
  show "\<exists>e\<in>set (stream_events (rd_events db)). of_stream ws' st' e \<and> sv_id e = i"
    if "pointer ?db ws' st' user' = Some i" "pointer ?db ws' st' user' \<noteq> pointer db ws' st' user'" for ws' st' user' i
    using that p by (auto simp: read_state_set_pointer points_to_def split: if_splits)
  show "watermark ?db (mr_workspaceId r) (mr_streamId r) (mr_memberId r) < mr_sequence r"
    if r: "r \<in> set (rd_reads ?db)" and n: "pointer ?db (mr_workspaceId r) (mr_streamId r) (mr_memberId r) \<noteq> pointer db (mr_workspaceId r) (mr_streamId r) (mr_memberId r)" for r
  proof -
    have k: "mr_workspaceId r = ws" "mr_streamId r = st" "mr_memberId r = user" "(ws, st) \<in> set (rd_streams db)"
      using n by (auto simp: read_state_set_pointer split: if_splits)
    then have "watermark ?db (mr_workspaceId r) (mr_streamId r) (mr_memberId r) = s"
      using points_to_sequence [OF lok p] by (simp add: watermark_def read_state_set_pointer)
    moreover have "overlay_row ws st user r" using k by (simp add: overlay_row_def)
    ultimately show ?thesis using a r by simp
  qed
qed auto

text \<open>Advancing it.\<close>

lemma advance_ok:
  assumes ok: "read_ok db" and p: "points_to db ws st (Some i) s"
    and a: "\<And>r. r \<in> set (rd_reads db) \<Longrightarrow> overlay_row ws st user r \<Longrightarrow> \<not> q r \<Longrightarrow> watermark db ws st user < s \<Longrightarrow>
      (ws, st) \<in> set (rd_streams db) \<Longrightarrow> s < mr_sequence r"
  shows "read_ok (delete_reads q (fst (read_state_advance now ws st user i h db)))"
proof (rule read_ok_change [OF ok])
  let ?db = "delete_reads q (fst (read_state_advance now ws st user i h db))"
  have lok: "log_ok (rd_events db)" using ok by (simp add: read_ok_def)
  have s: "sequence_or_zero (rd_events db) ws (Some i) = s" by (rule points_to_sequence [OF lok p])
  have "1 \<le> s" using p log_positive [OF lok] by (auto simp: points_to_def)
  then have "0 < s" by simp
  note ap = advance_pointer [of db ws i now st user h, unfolded s, OF this]
  show "distinct (map state_key (rd_states ?db))" using ok by (simp add: read_ok_def advance_distinct)
  show "reads_unique (rd_reads ?db)" using ok reads_unique_delete [of "fst (read_state_advance now ws st user i h db)" q] by (simp add: read_ok_def overlay_ok_def)
  show "\<exists>e\<in>set (stream_events (rd_events db)). of_stream ws' st' e \<and> sv_id e = j"
    if "pointer ?db ws' st' user' = Some j" "pointer ?db ws' st' user' \<noteq> pointer db ws' st' user'" for ws' st' user' j
    using that p by (auto simp: ap points_to_def split: if_splits)
  show "watermark ?db (mr_workspaceId r) (mr_streamId r) (mr_memberId r) < mr_sequence r"
    if r: "r \<in> set (rd_reads ?db)" and n: "pointer ?db (mr_workspaceId r) (mr_streamId r) (mr_memberId r) \<noteq> pointer db (mr_workspaceId r) (mr_streamId r) (mr_memberId r)" for r
  proof -
    have k: "mr_workspaceId r = ws" "mr_streamId r = st" "mr_memberId r = user" "(ws, st) \<in> set (rd_streams db)" "watermark db ws st user < s"
      using n by (auto simp: ap split: if_splits)
    then have "watermark ?db (mr_workspaceId r) (mr_streamId r) (mr_memberId r) = s"
      using s by (simp add: watermark_def ap)
    moreover have "overlay_row ws st user r" using k by (simp add: overlay_row_def)
    ultimately show ?thesis using a r k by simp
  qed
qed auto

lemma markAsRead_ok:
  assumes ok: "read_ok db" and m: "markAsRead now mode ws st user event db = (db', ans, out)"
  shows "read_ok db'"
proof (cases "getMessageOrdinalForEvent (rd_events db) ws st event")
  case None
  then show ?thesis using m ok by (simp add: markAsRead_def)
next
  case (Some position)
  let ?h = "resolveInboxClearMode mode \<noteq> ''read''"
  define db1 where "db1 = fst (read_state_advance now ws st user event ?h db)"
  obtain s0 n where "position = (s0, n)" by fastforce
  with Some obtain e where e: "e \<in> set (stream_events (rd_events db))" "of_stream ws st e" "sv_id e = event" "sv_sequence e = s0"
    using message_ordinal_Some by metis
  have p: "points_to db ws st (Some event) s0" using e by (auto simp: points_to_def)
  have ok1: "read_ok (delete_reads (\<lambda>r. overlay_row ws st user r) db1)" unfolding db1_def by (rule advance_ok [OF ok p]) simp
  obtain s where d: "db' = pruneAtOrBelow ws st user s db1" and s: "watermark db1 ws st user \<le> s"
  proof -
    have pt: "Option.bind (read_state_get db1 ws st user) rv_lastReadEventId = pointer db1 ws st user"
      by (simp add: read_state_get_def pointer_def mapRowToReadState_def split: option.splits bind_splits)
    have lok: "log_ok (rd_events db1)" "pointers_ok db1" using ok1 by (simp_all add: read_ok_def pointers_ok_def)
    have "\<exists>b. read_state_advance now ws st user event ?h db = (db1, read_state_get db1 ws st user, b)"
      by (simp add: db1_def read_state_advance_def Let_def)
    then obtain b where run: "read_state_advance now ws st user event ?h db = (db1, read_state_get db1 ws st user, b)" by blast
    show ?thesis
    proof (cases "pointer db1 ws st user")
      case None
      then have "db' = pruneAtOrBelow ws st user s0 db1" using m pt by (simp add: markAsRead_def Some run \<open>position = _\<close> Let_def)
      moreover have "watermark db1 ws st user \<le> s0" using None log_positive [OF _ e(1)] ok e(4) by (simp add: watermark_def sequence_or_zero_def read_ok_def)
      ultimately show ?thesis by (rule that)
    next
      case pi: (Some i)
      then obtain e' where e': "e' \<in> set (stream_events (rd_events db1))" "of_stream ws st e'" "sv_id e' = i" using lok(2) unfolding pointers_ok_def by blast
      have "i \<noteq> []" using e' lok(1) by (auto simp: log_ok_def)
      have w: "watermark db1 ws st user = sv_sequence e'"
        using sequence_of_event [OF log_unique [OF lok(1)] e'(1)] e' pi by (simp add: watermark_def of_stream_def)
      have o: "getMessageOrdinalForEvent (rd_events db1) ws st i = Some (sv_sequence e', countMessagesThrough (rd_events db1) ws st (sv_sequence e'))"
        using message_ordinal_event [OF log_unique [OF lok(1)] e'(1,2)] e'(3) by simp
      show ?thesis
      proof (cases "i = event")
        case True
        then have "db' = pruneAtOrBelow ws st user s0 db1" using m pt pi by (simp add: markAsRead_def Some run \<open>position = _\<close> Let_def)
        moreover have "e' = e" using True e e' by (intro events_unique_rows(1) [OF log_unique [OF lok(1)]]) (auto simp: db1_def of_stream_def)
        ultimately show ?thesis using that w e(4) by simp
      next
        case False
        then have "db' = pruneAtOrBelow ws st user (sv_sequence e') db1"
          using m pt pi o \<open>i \<noteq> []\<close> by (simp add: markAsRead_def Some run \<open>position = _\<close> Let_def)
        then show ?thesis using that w by simp
      qed
    qed
  qed
  have "read_ok (delete_reads (\<lambda>r. overlay_row ws st user r \<and> mr_sequence r \<le> s) db1)"
    unfolding db1_def
  proof (rule advance_ok [OF ok p])
    fix r assume r: "\<not> (overlay_row ws st user r \<and> mr_sequence r \<le> s)" "overlay_row ws st user r"
      "watermark db ws st user < s0" "(ws, st) \<in> set (rd_streams db)"
    have s1: "sequence_or_zero (rd_events db) ws (Some event) = s0" using points_to_sequence [OF _ p] ok by (simp add: read_ok_def)
    have "1 \<le> s0" using log_positive [OF _ e(1)] ok e(4) by (simp add: read_ok_def)
    then have "pointer db1 ws st user = Some event"
      unfolding db1_def using advance_pointer [of db ws event now st user ?h ws st user] s1 r by simp
    then have "watermark db1 ws st user = s0" using s1 by (simp add: watermark_def db1_def)
    then show "s0 < mr_sequence r" using s r by simp
  qed
  then show ?thesis by (simp add: d pruneAtOrBelow_def)
qed

lemma delete_twice: "delete_reads p (delete_reads q db) = delete_reads (\<lambda>r. q r \<or> p r) db"
  by (simp add: delete_reads_def sql_delete_def conj_commute)

lemma first_event_Some:
  assumes "first_event rows = Some p"
  obtains e where "e \<in> set rows" "p = mapRowToEvent e"
  using assms by (cases rows) (auto simp: first_event_def)

lemma mapRow_simps [simp]: "sw_id (mapRowToEvent e) = sv_id e" "sw_sequence (mapRowToEvent e) = sv_sequence e"
  by (simp_all add: mapRowToEvent_def)

lemma set_newest: "set (newest n rows) \<subseteq> set rows"
  unfolding newest_def by (rule set_order_limit)

lemma previous_points:
  "points_to db ws st (map_option sw_id (findPreviousMessageEvent (rd_events db) ws st s))
    (case findPreviousMessageEvent (rd_events db) ws st s of None \<Rightarrow> 0 | Some p \<Rightarrow> sw_sequence p)"
proof (cases "findPreviousMessageEvent (rd_events db) ws st s")
  case None
  then show ?thesis by (simp add: points_to_def)
next
  case (Some p)
  obtain e where "e \<in> set (newest 1 (filter (\<lambda>r. sv_sequence r < s) (message_rows (rd_events db) ws st)))" "p = mapRowToEvent e"
    by (rule first_event_Some [OF Some [unfolded findPreviousMessageEvent_def]])
  then have "e \<in> set (message_rows (rd_events db) ws st)" "p = mapRowToEvent e" using set_newest by fastforce+
  then show ?thesis using Some by (auto simp: points_to_def set_message_rows)
qed

lemma previous_below:
  assumes "findPreviousMessageEvent ev ws st s = Some p"
  shows "sw_sequence p < s"
proof -
  obtain e where "e \<in> set (newest 1 (filter (\<lambda>r. sv_sequence r < s) (message_rows ev ws st)))" "p = mapRowToEvent e"
    by (rule first_event_Some [OF assms [unfolded findPreviousMessageEvent_def]])
  then show ?thesis using set_newest by fastforce
qed

lemma overlay_positive:
  assumes "read_ok db" "r \<in> set (rd_reads db)"
  shows "0 < mr_sequence r"
proof -
  obtain e where "e \<in> set (stream_events (rd_events db))" "read_of r e" using assms by (auto simp: read_ok_def overlay_ok_def)
  then have "1 \<le> mr_sequence r" using log_positive [of "rd_events db" e] assms(1) by (simp add: read_ok_def read_of_def)
  then show ?thesis by simp
qed

lemma markUnread_ok:
  assumes ok: "read_ok db" and m: "markUnread now ws st user messageId db = Some (db', out)"
  shows "read_ok db'"
proof -
  obtain e where e: "findByMessageId (rd_events db) ws st messageId = Some e"
    using m by (auto simp: markUnread_def split: option.splits)
  let ?p = "findPreviousMessageEvent (rd_events db) ws st (sw_sequence e)"
  let ?s = "case ?p of None \<Rightarrow> 0 | Some p \<Rightarrow> sw_sequence p"
  let ?q = "\<lambda>r. (overlay_row ws st user r \<and> sw_sequence e \<le> mr_sequence r) \<or> (?p \<noteq> None \<and> overlay_row ws st user r \<and> mr_sequence r \<le> ?s)"
  have "db' = delete_reads ?q (fst (read_state_set now ws st user (map_option sw_id ?p) db))"
    using m e by (cases ?p) (simp_all add: markUnread_def Let_def deleteAtOrAbove_def pruneAtOrBelow_def delete_twice)
  moreover have "read_ok (delete_reads ?q (fst (read_state_set now ws st user (map_option sw_id ?p) db)))"
  proof (rule set_ok [OF ok previous_points])
    fix r assume r: "r \<in> set (rd_reads db)" "overlay_row ws st user r" "\<not> ?q r"
    show "?s < mr_sequence r"
    proof (cases ?p)
      case None
      then show ?thesis using overlay_positive [OF ok r(1)] by simp
    qed (use r in auto)
  qed
  ultimately show ?thesis by simp
qed

lemma delete_none: "delete_reads (\<lambda>r. False) db = db"
  by (simp add: delete_reads_def sql_delete_def)

lemma applySparseUnread_ok:
  assumes ok: "read_ok db" and m: "applySparseUnread now ws st user messageIds db = (db', snap, out)"
  shows "read_ok db'"
proof -
  define db1 where "db1 = (if messageIds = [] then db else deleteReads ws st user messageIds db)"
  define db2 where "db2 = fst (ensureForUpdate now ws st user db1)"
  have ok1: "read_ok db1" using ok by (simp add: db1_def deleteReads_def delete_reads_ok)
  have ok2: "read_ok db2" unfolding db2_def by (rule ensure_ok [OF ok1])
  have seed: "watermarkSeed now ws st user db1 = (db2, pointer db2 ws st user)" by (simp add: ensure_seed db2_def)
  have w: "resolveWatermarkSequence db2 ws st (pointer db2 ws st user) = watermark db2 ws st user"
    using ok2 by (intro watermark_resolved) (simp_all add: read_ok_def)
  consider "db' = db2" | earliest where "findEarliestMessageEvent (rd_events db2) ws st messageIds = Some earliest"
    "\<not> watermark db2 ws st user < sw_sequence earliest"
    "db' = fst (read_state_set now ws st user (map_option sw_id (findPreviousMessageEvent (rd_events db2) ws st (sw_sequence earliest))) db2)"
    using m by (auto simp: applySparseUnread_def Let_def db1_def [symmetric] seed w split: option.splits if_splits)
  then show ?thesis
  proof cases
    case 2
    let ?p = "findPreviousMessageEvent (rd_events db2) ws st (sw_sequence earliest)"
    have "read_ok (delete_reads (\<lambda>r. False) (fst (read_state_set now ws st user (map_option sw_id ?p) db2)))"
    proof (rule set_ok [OF ok2 previous_points])
      fix r assume r: "r \<in> set (rd_reads db2)" "overlay_row ws st user r"
      have "watermark db2 ws st user < mr_sequence r" using ok2 r by (auto simp: read_ok_def overlay_above_def overlay_row_def)
      then show "(case ?p of None \<Rightarrow> 0 | Some p \<Rightarrow> sw_sequence p) < mr_sequence r"
        using previous_below [of "rd_events db2" ws st "sw_sequence earliest"] 2(2) overlay_positive [OF ok2 r(1)] by (cases ?p) auto
    qed
    then show ?thesis using 2(3) by (simp add: delete_none)
  qed (use ok2 in simp)
qed

text \<open>What an unread asks for is unread after it, and nothing below it has changed.\<close>

section \<open>Adding to the overlay\<close>

lemma insert_read_set: "set (insert_read r rows) = (if \<exists>q\<in>set rows. same_read q r then set rows else insert r (set rows))"
  by (simp add: insert_read_def)

lemma fold_insert_read:
  "set rows \<subseteq> set (fold insert_read rs rows)" "set (fold insert_read rs rows) \<subseteq> set rows \<union> set rs"
  "r \<in> set rs \<Longrightarrow> \<exists>q\<in>set (fold insert_read rs rows). same_read q r"
proof -
  have sub: "set rows \<subseteq> set (fold insert_read rs rows)" for rows rs
  proof (induction rs arbitrary: rows)
    case (Cons a rs)
    have "set rows \<subseteq> set (insert_read a rows)" by (auto simp: insert_read_set)
    then show ?case using Cons.IH [of "insert_read a rows"] by (simp add: subset_trans)
  qed simp
  show "set rows \<subseteq> set (fold insert_read rs rows)" by (rule sub)
  show "set (fold insert_read rs rows) \<subseteq> set rows \<union> set rs"
    by (induction rs arbitrary: rows) (force simp: insert_read_set split: if_splits)+
  show "r \<in> set rs \<Longrightarrow> \<exists>q\<in>set (fold insert_read rs rows). same_read q r"
  proof (induction rs arbitrary: rows)
    case (Cons a rs)
    show ?case
    proof (cases "r = a")
      case True
      have "\<exists>q\<in>set (insert_read a rows). same_read q a" by (auto simp: insert_read_set same_read_def)
      then obtain q where q: "q \<in> set (insert_read a rows)" "same_read q a" by blast
      have "q \<in> set (fold insert_read rs (insert_read a rows))" by (rule subsetD [OF sub q(1)])
      then show ?thesis using True q(2) unfolding fold_simps by blast
    next
      case False
      then show ?thesis using Cons by simp
    qed
  qed simp
qed

lemma reads_unique_insert: "reads_unique rows \<Longrightarrow> reads_unique (insert_read r rows)"
  by (auto simp: reads_unique_def insert_read_def same_read_def)

lemma reads_unique_fold: "reads_unique rows \<Longrightarrow> reads_unique (fold insert_read rs rows)"
  by (induction rs arbitrary: rows) (simp_all add: reads_unique_insert)

definition new_reads :: "ReadDb \<Rightarrow> string \<Rightarrow> string \<Rightarrow> string \<Rightarrow> string list \<Rightarrow> MessageReadRow list" where
  "new_reads db ws st user messageIds = concat (map (\<lambda>i. map (\<lambda>e. \<lparr>mr_workspaceId = ws, mr_streamId = st, mr_memberId = user, mr_messageId = i,
     mr_eventId = sv_id e, mr_sequence = sv_sequence e\<rparr>) (filter (\<lambda>e. message_id_of e = Some i) (message_rows (rd_events db) ws st))) messageIds)"

lemma insertReads_new: "insertReads ws st user messageIds db = db\<lparr>rd_reads := fold insert_read (new_reads db ws st user messageIds) (rd_reads db)\<rparr>"
  by (simp add: insertReads_def new_reads_def)

lemma in_new_reads:
  "r \<in> set (new_reads db ws st user messageIds) \<longleftrightarrow> (\<exists>e\<in>set (message_rows (rd_events db) ws st). \<exists>i\<in>set messageIds. message_id_of e = Some i \<and>
     r = \<lparr>mr_workspaceId = ws, mr_streamId = st, mr_memberId = user, mr_messageId = i, mr_eventId = sv_id e, mr_sequence = sv_sequence e\<rparr>)"
  by (auto simp: new_reads_def)

lemma insertReads_other [simp]:
  "rd_events (insertReads ws st user ms db) = rd_events db" "rd_streams (insertReads ws st user ms db) = rd_streams db"
  "rd_states (insertReads ws st user ms db) = rd_states db" "rd_messages (insertReads ws st user ms db) = rd_messages db"
  "pointer (insertReads ws st user ms db) ws' st' user' = pointer db ws' st' user'"
  "watermark (insertReads ws st user ms db) ws' st' user' = watermark db ws' st' user'"
  by (simp_all add: insertReads_new pointer_def watermark_def)

lemma new_reads_of:
  assumes "r \<in> set (new_reads db ws st user ms)"
  shows "overlay_row ws st user r" "\<exists>e\<in>set (stream_events (rd_events db)). read_of r e"
  using assms by (auto simp: in_new_reads overlay_row_def read_of_def set_message_rows)

lemma insertReads_overlay:
  assumes "overlay_ok db"
  shows "overlay_ok (insertReads ws st user ms db)"
proof -
  have "\<exists>e\<in>set (stream_events (rd_events db)). read_of r e" if "r \<in> set (fold insert_read (new_reads db ws st user ms) (rd_reads db))" for r
    using that fold_insert_read(2) [of "new_reads db ws st user ms" "rd_reads db"] new_reads_of(2) assms by (auto simp: overlay_ok_def)
  then show ?thesis using assms by (simp add: overlay_ok_def insertReads_new reads_unique_fold)
qed

text \<open>Who has a message in the overlay after the insert.\<close>

definition in_overlay :: "ReadDb \<Rightarrow> string \<Rightarrow> string \<Rightarrow> string \<Rightarrow> StreamEventRow \<Rightarrow> bool" where
  "in_overlay db ws st user e \<longleftrightarrow> (\<exists>r\<in>set (rd_reads db). overlay_row ws st user r \<and> Some (mr_messageId r) = message_id_of e)"

lemma in_overlay_insert:
  assumes "e \<in> set (message_rows (rd_events db) ws st)"
  shows "in_overlay (insertReads ws st user ms db) ws st user e \<longleftrightarrow> in_overlay db ws st user e \<or> message_id_of e \<in> Some ` set ms"
proof
  let ?new = "new_reads db ws st user ms"
  assume "in_overlay (insertReads ws st user ms db) ws st user e"
  then obtain r where r: "r \<in> set (fold insert_read ?new (rd_reads db))" "overlay_row ws st user r" "Some (mr_messageId r) = message_id_of e"
    by (auto simp: in_overlay_def insertReads_new)
  then consider "r \<in> set (rd_reads db)" | "r \<in> set ?new" using fold_insert_read(2) [of ?new "rd_reads db"] by blast
  then show "in_overlay db ws st user e \<or> message_id_of e \<in> Some ` set ms"
  proof cases
    case 1
    then show ?thesis using r by (auto simp: in_overlay_def)
  next
    case 2
    then have "mr_messageId r \<in> set ms" by (auto simp: in_new_reads)
    then show ?thesis using r(3) by (metis imageI)
  qed
next
  let ?new = "new_reads db ws st user ms"
  assume "in_overlay db ws st user e \<or> message_id_of e \<in> Some ` set ms"
  then show "in_overlay (insertReads ws st user ms db) ws st user e"
  proof
    assume "in_overlay db ws st user e"
    then show ?thesis using fold_insert_read(1) [of "rd_reads db" ?new] by (auto simp: in_overlay_def insertReads_new)
  next
    assume "message_id_of e \<in> Some ` set ms"
    then obtain i where i: "i \<in> set ms" "message_id_of e = Some i" by auto
    let ?r = "\<lparr>mr_workspaceId = ws, mr_streamId = st, mr_memberId = user, mr_messageId = i, mr_eventId = sv_id e, mr_sequence = sv_sequence e\<rparr>"
    have "?r \<in> set ?new" using i assms by (auto simp: in_new_reads)
    then obtain r where "r \<in> set (fold insert_read ?new (rd_reads db))" "same_read r ?r" using fold_insert_read(3) by blast
    then show ?thesis using i by (auto simp: in_overlay_def insertReads_new same_read_def overlay_row_def intro!: bexI [of _ r])
  qed
qed

section \<open>Compaction\<close>

lemma last_event_Some:
  assumes "last_event rows = Some (i, s)"
  shows "rows \<noteq> []" "last rows \<in> set rows" "i = sv_id (last rows)" "s = sv_sequence (last rows)"
  using assms by (auto simp: last_event_def split: if_splits)

lemma takeWhile_covers:
  assumes "sorted (map f xs)" "distinct (map f xs)" "takeWhile P xs \<noteq> []" "x \<in> set xs" "f x \<le> f (last (takeWhile P xs))"
  shows "P x"
proof (rule ccontr)
  assume "\<not> P x"
  then have "x \<notin> set (takeWhile P xs)" by (auto dest: set_takeWhileD)
  then have x: "x \<in> set (dropWhile P xs)" using assms(4) by (metis takeWhile_dropWhile_id UnE set_append)
  have "sorted (map f (takeWhile P xs @ dropWhile P xs))" "distinct (map f (takeWhile P xs @ dropWhile P xs))" using assms(1,2) by simp_all
  then have "f (last (takeWhile P xs)) \<le> f x" "f (last (takeWhile P xs)) \<noteq> f x"
    using x last_in_set [OF assms(3)] by (auto simp: sorted_append simp del: takeWhile_dropWhile_id)
  then show False using assms(5) by simp
qed

lemma distinct_sort_key: "distinct (map f xs) \<Longrightarrow> distinct (map f (sort_key g xs))"
proof -
  have "mset (map f (sort_key g xs)) = mset (map f xs)" by simp
  from mset_eq_imp_distinct_iff [OF this] show "distinct (map f xs) \<Longrightarrow> distinct (map f (sort_key g xs))" by simp
qed

lemma sequences_distinct:
  assumes "log_ok ev"
  shows "distinct (map sv_sequence (filter P (message_rows ev ws st)))"
proof -
  have u: "events_unique (stream_events ev)" by (rule log_unique [OF assms])
  have "inj_on sv_sequence (set (filter P (message_rows ev ws st)))"
    by (rule inj_onI) (auto simp: set_message_rows of_stream_def intro: events_unique_rows(2) [OF u])
  then show ?thesis using distinct_message_rows [OF u] by (simp add: distinct_map)
qed

lemma covered_iff: "covered db ws st user e \<longleftrightarrow> in_overlay db ws st user e \<or> \<not> not_deleted db e"
  by (simp add: covered_def in_overlay_def)

text \<open>A run that ends at an event: every message between is read or deleted.\<close>

definition absorbable :: "ReadDb \<Rightarrow> string \<Rightarrow> string \<Rightarrow> string \<Rightarrow> int \<Rightarrow> int \<Rightarrow> bool" where
  "absorbable db ws st user a b \<longleftrightarrow>
    (\<forall>e\<in>set (message_rows (rd_events db) ws st). a < sv_sequence e \<longrightarrow> sv_sequence e \<le> b \<longrightarrow> in_overlay db ws st user e \<or> \<not> not_deleted db e)"

lemma compaction_target:
  assumes lok: "log_ok (rd_events db)" and t: "findCompactionTarget db ws st user w = Some (i, s)"
  shows "points_to db ws st (Some i) s" "w < s" "absorbable db ws st user w s"
proof -
  let ?P = "\<lambda>e. w < sv_sequence e \<and> (\<exists>b\<in>set (map mr_sequence (filter (overlay_row ws st user) (rd_reads db))). sv_sequence e \<le> b)"
  let ?o = "sort_key sv_sequence (filter ?P (message_rows (rd_events db) ws st))"
  have t': "last_event (takeWhile (covered db ws st user) ?o) = Some (i, s)" using t by (simp add: findCompactionTarget_def Let_def)
  note l = last_event_Some [OF t']
  have mem: "last (takeWhile (covered db ws st user) ?o) \<in> set ?o" using l(2) by (rule set_takeWhileD [THEN conjunct1])
  show "points_to db ws st (Some i) s" using mem l(3,4) by (auto simp: points_to_def set_message_rows)
  show "w < s" using mem l(4) by auto
  have d: "distinct (map sv_sequence ?o)" by (rule distinct_sort_key, rule sequences_distinct [OF lok])
  obtain b where b: "b \<in> set (map mr_sequence (filter (overlay_row ws st user) (rd_reads db)))" "s \<le> b" using mem l(4) by auto
  show "absorbable db ws st user w s"
    unfolding absorbable_def
  proof (intro ballI impI)
    fix e assume e: "e \<in> set (message_rows (rd_events db) ws st)" "w < sv_sequence e" "sv_sequence e \<le> s"
    then have "sv_sequence e \<le> b" using b by simp
    then have "e \<in> set ?o" using e b(1) by auto
    then have "covered db ws st user e"
      using takeWhile_covers [of sv_sequence ?o "covered db ws st user" e] d l(1,4) e(3) by simp
    then show "in_overlay db ws st user e \<or> \<not> not_deleted db e" by (simp add: covered_iff)
  qed
qed

lemma trailing_run:
  assumes t: "findTrailingDeletedRunEnd db ws st a = Some (i, s)"
  shows "points_to db ws st (Some i) s" "a < s" "absorbable db ws st user a s"
proof -
  let ?above = "filter (\<lambda>e. a < sv_sequence e) (message_rows (rd_events db) ws st)"
  let ?alive = "order_limit id 1 (map sv_sequence (filter (not_deleted db) ?above))"
  let ?stop = "case ?alive of [] \<Rightarrow> 9223372036854775807 | s # _ \<Rightarrow> s"
  let ?o = "sort_key sv_sequence (filter (\<lambda>e. sv_sequence e < ?stop) ?above)"
  have t': "last_event ?o = Some (i, s)" using t by (simp add: findTrailingDeletedRunEnd_def Let_def)
  note l = last_event_Some [OF t']
  have mem: "last ?o \<in> set (message_rows (rd_events db) ws st)" "a < s" "s < ?stop" using l(2,4) by auto
  show "points_to db ws st (Some i) s" using mem(1) l(3,4) by (auto simp: points_to_def set_message_rows)
  show "a < s" by (rule mem(2))
  show "absorbable db ws st user a s"
    unfolding absorbable_def
  proof (intro ballI impI disjI2 notI)
    fix e assume e: "e \<in> set (message_rows (rd_events db) ws st)" "a < sv_sequence e" "sv_sequence e \<le> s" "not_deleted db e"
    then have m: "sv_sequence e \<in> set (map sv_sequence (filter (not_deleted db) ?above))" by simp
    then have "map sv_sequence (filter (not_deleted db) ?above) \<noteq> []" by (metis empty_iff empty_set)
    then have "?alive \<noteq> []" by (subst order_limit_Nil_iff) simp_all
    then obtain s' rest where r: "?alive = s' # rest" by (cases ?alive) auto
    then have "s' \<le> sv_sequence e" using order_limit_first [OF _ m, of id] by simp
    then show False using mem(3) r e(3) by simp
  qed
qed

lemma pointer_points: "pointers_ok db \<Longrightarrow> log_ok (rd_events db) \<Longrightarrow> points_to db ws st (pointer db ws st user) (watermark db ws st user)"
proof (cases "pointer db ws st user")
  case (Some i)
  assume ok: "pointers_ok db" "log_ok (rd_events db)"
  then obtain e where e: "e \<in> set (stream_events (rd_events db))" "of_stream ws st e" "sv_id e = i"
    using Some unfolding pointers_ok_def by blast
  then have "watermark db ws st user = sv_sequence e"
    using sequence_of_event [OF log_unique [OF ok(2)] e(1)] Some by (simp add: watermark_def of_stream_def)
  then show ?thesis using e Some by (auto simp: points_to_def)
qed (simp add: points_to_def watermark_def sequence_or_zero_def)

definition sparse_target :: "ReadDb \<Rightarrow> string \<Rightarrow> string \<Rightarrow> string \<Rightarrow> string option \<times> int" where
  "sparse_target db ws st user =
    (let (event1, seq1) = (case findCompactionTarget db ws st user (watermark db ws st user) of
             None \<Rightarrow> (pointer db ws st user, watermark db ws st user) | Some (i, s) \<Rightarrow> (Some i, s))
     in case findTrailingDeletedRunEnd db ws st seq1 of None \<Rightarrow> (event1, seq1) | Some (i, s) \<Rightarrow> (Some i, s))"

lemma sparse_target:
  assumes ok: "read_ok db" and t: "sparse_target db ws st user = (event, s)"
  shows "points_to db ws st event s" "watermark db ws st user \<le> s" "absorbable db ws st user (watermark db ws st user) s"
    "event = pointer db ws st user \<longleftrightarrow> s = watermark db ws st user" "event \<noteq> Some []"
proof -
  let ?w = "watermark db ws st user"
  have lok: "log_ok (rd_events db)" and pok: "pointers_ok db" using ok by (simp_all add: read_ok_def)
  note pp = pointer_points [OF pok lok, of ws st user]
  obtain e1 s1 where one: "(case findCompactionTarget db ws st user ?w of None \<Rightarrow> (pointer db ws st user, ?w) | Some (i, s) \<Rightarrow> (Some i, s)) = (e1, s1)"
    by fastforce
  have a: "points_to db ws st e1 s1" "?w \<le> s1" "absorbable db ws st user ?w s1"
    using one pp compaction_target [OF lok, of ws st user ?w] by (auto simp: absorbable_def split: option.splits)
  have b: "points_to db ws st event s" "s1 \<le> s" "absorbable db ws st user s1 s"
  proof -
    have "points_to db ws st event s \<and> s1 \<le> s \<and> absorbable db ws st user s1 s"
    proof (cases "findTrailingDeletedRunEnd db ws st s1")
      case None
      then show ?thesis using t a(1) by (simp add: sparse_target_def one absorbable_def)
    next
      case (Some x)
      then have x: "findTrailingDeletedRunEnd db ws st s1 = Some (fst x, s)" "event = Some (fst x)" using t by (cases x; simp add: sparse_target_def one)+
      show ?thesis using trailing_run(1,2) [OF x(1)] trailing_run(3) [OF x(1), of user] x(2) by simp
    qed
    then show "points_to db ws st event s" "s1 \<le> s" "absorbable db ws st user s1 s" by blast+
  qed
  show p: "points_to db ws st event s" and w: "?w \<le> s" using a b by auto
  show "absorbable db ws st user ?w s" using a(3) b(3) unfolding absorbable_def by (meson not_le)
  show "event = pointer db ws st user \<longleftrightarrow> s = ?w"
  proof
    assume "event = pointer db ws st user"
    then show "s = ?w" using points_to_sequence [OF lok p] by (simp add: watermark_def)
  next
    assume s: "s = ?w"
    then have "s1 = ?w" "findTrailingDeletedRunEnd db ws st s1 = None" "event = e1"
      using a b t trailing_run(2) [of db ws st s1] by (auto simp: sparse_target_def one split: option.splits)
    moreover from this have "e1 = pointer db ws st user" using one compaction_target(2) [OF lok, of ws st user ?w] by (auto split: option.splits)
    ultimately show "event = pointer db ws st user" by simp
  qed
  show "event \<noteq> Some []" using p lok by (auto simp: points_to_def log_ok_def)
qed

text \<open>What a read of single messages does, step by step.\<close>

definition sparse_start :: "timestamp \<Rightarrow> string \<Rightarrow> string \<Rightarrow> string \<Rightarrow> string list \<Rightarrow> ReadDb \<Rightarrow> ReadDb" where
  "sparse_start now ws st user ms db =
    (let db2 = fst (ensureForUpdate now ws st user (insertReads ws st user ms db))
     in if watermark db2 ws st user > 0 then pruneAtOrBelow ws st user (watermark db2 ws st user) db2 else db2)"

lemma sparse_start_facts:
  assumes ok: "read_ok db"
  shows "read_ok (sparse_start now ws st user ms db)" "rd_events (sparse_start now ws st user ms db) = rd_events db"
    "rd_streams (sparse_start now ws st user ms db) = rd_streams db" "rd_messages (sparse_start now ws st user ms db) = rd_messages db"
    "pointer (sparse_start now ws st user ms db) ws' st' user' = pointer db ws' st' user'"
    "e \<in> set (message_rows (rd_events db) ws st) \<Longrightarrow> watermark db ws st user < sv_sequence e \<Longrightarrow>
      in_overlay (sparse_start now ws st user ms db) ws st user e \<longleftrightarrow> in_overlay db ws st user e \<or> message_id_of e \<in> Some ` set ms"
proof -
  define db1 where "db1 = insertReads ws st user ms db"
  define db2 where "db2 = fst (ensureForUpdate now ws st user db1)"
  let ?w = "watermark db ws st user"
  have w: "watermark db2 ws' st' user' = watermark db ws' st' user'" for ws' st' user' by (simp add: db2_def db1_def watermark_def)
  have st: "sparse_start now ws st user ms db = (if ?w > 0 then pruneAtOrBelow ws st user ?w db2 else db2)"
    by (simp add: sparse_start_def Let_def db2_def [symmetric] db1_def [symmetric] w)
  have lok: "log_ok (rd_events db)" using ok by (simp add: read_ok_def)
  have ev: "rd_events db2 = rd_events db" "rd_streams db2 = rd_streams db" "rd_messages db2 = rd_messages db" "rd_reads db2 = rd_reads db1"
    by (simp_all add: db2_def db1_def)
  show e1: "rd_events (sparse_start now ws st user ms db) = rd_events db" and "rd_streams (sparse_start now ws st user ms db) = rd_streams db"
    and "rd_messages (sparse_start now ws st user ms db) = rd_messages db" by (simp_all add: st ev pruneAtOrBelow_def)
  show p: "pointer (sparse_start now ws st user ms db) ws' st' user' = pointer db ws' st' user'" for ws' st' user'
    by (simp add: st pruneAtOrBelow_def db2_def db1_def)
  have ws: "watermark (sparse_start now ws st user ms db) ws' st' user' = watermark db ws' st' user'" for ws' st' user'
    by (simp add: watermark_def p e1)
  have ov1: "overlay_ok db1" unfolding db1_def using ok by (intro insertReads_overlay) (simp add: read_ok_def)
  have sub: "set (rd_reads (sparse_start now ws st user ms db)) \<subseteq> set (rd_reads db1)" by (auto simp: st pruneAtOrBelow_def ev)
  have "overlay_ok (sparse_start now ws st user ms db)"
  proof -
    have "reads_unique (rd_reads (sparse_start now ws st user ms db))"
      using ov1 by (simp add: st pruneAtOrBelow_def reads_unique_delete ev(4) overlay_ok_def)
    moreover have "\<forall>r\<in>set (rd_reads db1). \<exists>e\<in>set (stream_events (rd_events db)). read_of r e"
      using ov1 by (simp add: overlay_ok_def db1_def)
    ultimately show ?thesis using sub by (auto simp: overlay_ok_def e1)
  qed
  moreover have "overlay_above (sparse_start now ws st user ms db)"
    unfolding overlay_above_def ws
  proof
    fix r assume r: "r \<in> set (rd_reads (sparse_start now ws st user ms db))"
    then have "r \<in> set (rd_reads db) \<or> r \<in> set (new_reads db ws st user ms)"
      using sub fold_insert_read(2) [of "new_reads db ws st user ms" "rd_reads db"] by (auto simp: db1_def insertReads_new)
    then show "watermark db (mr_workspaceId r) (mr_streamId r) (mr_memberId r) < mr_sequence r"
    proof
      assume "r \<in> set (rd_reads db)"
      then show ?thesis using ok by (simp add: read_ok_def overlay_above_def)
    next
      assume n: "r \<in> set (new_reads db ws st user ms)"
      then have o: "overlay_row ws st user r" by (rule new_reads_of)
      then have k: "mr_workspaceId r = ws" "mr_streamId r = st" "mr_memberId r = user" by (simp_all add: overlay_row_def)
      show ?thesis
      proof (cases "?w > 0")
        case True
        then show ?thesis using r o k by (auto simp: st pruneAtOrBelow_def)
      next
        case False
        obtain e where "e \<in> set (stream_events (rd_events db))" "read_of r e" using new_reads_of(2) [OF n] by blast
        then have "1 \<le> mr_sequence r" using log_positive [OF lok, of e] by (simp add: read_of_def)
        then show ?thesis using False by (simp add: k)
      qed
    qed
  qed
  moreover have "distinct (map state_key (rd_states (sparse_start now ws st user ms db)))"
    using ok ensure_distinct [of db1 now ws st user] by (simp add: st pruneAtOrBelow_def db2_def db1_def read_ok_def)
  moreover have "pointers_ok (sparse_start now ws st user ms db)" using ok by (simp add: read_ok_def pointers_ok_def p e1)
  ultimately show "read_ok (sparse_start now ws st user ms db)" using lok by (simp add: read_ok_def e1)
  assume e: "e \<in> set (message_rows (rd_events db) ws st)" "?w < sv_sequence e"
  have "in_overlay (sparse_start now ws st user ms db) ws st user e \<longleftrightarrow> in_overlay db1 ws st user e"
  proof
    assume "in_overlay (sparse_start now ws st user ms db) ws st user e"
    then show "in_overlay db1 ws st user e" using sub by (auto simp: in_overlay_def)
  next
    assume "in_overlay db1 ws st user e"
    then obtain r where r: "r \<in> set (rd_reads db1)" "overlay_row ws st user r" "Some (mr_messageId r) = message_id_of e" by (auto simp: in_overlay_def)
    then obtain e' where e': "e' \<in> set (stream_events (rd_events db))" "read_of r e'" using ov1 by (auto simp: overlay_ok_def db1_def)
    have mu: "messages_unique (rd_events db)" using lok by (simp add: log_ok_def)
    have "message_id_of e' \<noteq> None" using e'(2) by (simp add: read_of_def)
    moreover have "message_id_of e' = message_id_of e" "is_message e'" "is_message e" "sv_workspaceId e' = sv_workspaceId e"
      "e \<in> set (stream_events (rd_events db))"
      using e(1) e'(2) r(2,3) by (simp_all add: set_message_rows read_of_def of_stream_def overlay_row_def)
    ultimately have "e' = e" using mu e'(1) unfolding messages_unique_def by blast
    then have "\<not> mr_sequence r \<le> ?w" using e(2) e'(2) by (simp add: read_of_def)
    then have "r \<in> set (rd_reads (sparse_start now ws st user ms db))" using r(1) by (auto simp: st pruneAtOrBelow_def ev(4))
    then show "in_overlay (sparse_start now ws st user ms db) ws st user e" using r(2,3) by (auto simp: in_overlay_def)
  qed
  then show "in_overlay (sparse_start now ws st user ms db) ws st user e \<longleftrightarrow> in_overlay db ws st user e \<or> message_id_of e \<in> Some ` set ms"
    using in_overlay_insert [OF e(1)] by (simp add: db1_def)
qed

lemma applySparseRead_shape:
  assumes ok: "read_ok db" and m: "applySparseRead now mode ws st user ms db = (db', snap, out)"
  obtains db3 event s where "db3 = sparse_start now ws st user ms db" "sparse_target db3 ws st user = (event, s)"
    "db' = (case event of None \<Rightarrow> db3 | Some i \<Rightarrow> if event = pointer db3 ws st user then db3
       else pruneAtOrBelow ws st user s (fst (read_state_advance now ws st user i (resolveInboxClearMode mode \<noteq> ''read'') db3)))"
    "ss_lastReadEventId snap = event" "ss_lastReadSequence snap = s" "ss_readMessageIds snap = listOverlayIds db' ws st user"
proof -
  define db1 where "db1 = insertReads ws st user ms db"
  define db2 where "db2 = fst (ensureForUpdate now ws st user db1)"
  define db3 where "db3 = sparse_start now ws st user ms db"
  obtain event s where t: "sparse_target db3 ws st user = (event, s)" by fastforce
  have p: "pointer db2 ws st user = pointer db ws st user" "pointer db3 ws st user = pointer db ws st user"
    using sparse_start_facts(5) [OF ok] by (simp_all add: db2_def db1_def db3_def)
  have seed: "watermarkSeed now ws st user db1 = (db2, pointer db ws st user)"
    by (simp add: ensure_seed db2_def db1_def)
  have w: "resolveWatermarkSequence db2 ws st (pointer db ws st user) = watermark db ws st user" "watermark db3 ws st user = watermark db ws st user"
  proof -
    have "resolveWatermarkSequence db2 ws st (pointer db ws st user) = resolveWatermarkSequence db ws st (pointer db ws st user)"
    proof -
      have "rd_events db2 = rd_events db" by (simp add: db2_def db1_def)
      then show ?thesis unfolding resolveWatermarkSequence_def by (simp only:)
    qed
    then show "resolveWatermarkSequence db2 ws st (pointer db ws st user) = watermark db ws st user"
      using ok watermark_resolved by (simp add: read_ok_def)
    show "watermark db3 ws st user = watermark db ws st user" using p sparse_start_facts(2) [OF ok] by (simp add: watermark_def db3_def)
  qed
  have d3: "(if watermark db ws st user > 0 then pruneAtOrBelow ws st user (watermark db ws st user) db2 else db2) = db3"
    by (simp add: db3_def sparse_start_def Let_def db2_def db1_def watermark_def)
  obtain e1 s1 where one: "(case findCompactionTarget db3 ws st user (watermark db ws st user) of
      None \<Rightarrow> (pointer db ws st user, watermark db ws st user) | Some (i, s) \<Rightarrow> (Some i, s)) = (e1, s1)"
    by fastforce
  have two: "(case findTrailingDeletedRunEnd db3 ws st s1 of None \<Rightarrow> (e1, s1) | Some (i, s) \<Rightarrow> (Some i, s)) = (event, s)"
    using t by (simp only: sparse_target_def Let_def p(2) w(2) one prod.case)
  define final where "final = (if event = pointer db ws st user then (db3, False)
           else case event of
             None \<Rightarrow> (pruneAtOrBelow ws st user s db3, False)
           | Some i \<Rightarrow>
               if i = [] then (pruneAtOrBelow ws st user s db3, False)
               else (case read_state_advance now ws st user i (resolveInboxClearMode mode \<noteq> ''read'') db3 of
                       (db, _, held) \<Rightarrow> (pruneAtOrBelow ws st user s db, held)))"
  have run0: "db' = fst final" "ss_lastReadEventId snap = event" "ss_lastReadSequence snap = s" "ss_readMessageIds snap = listOverlayIds (fst final) ws st user"
    using m [unfolded applySparseRead_def Let_def db1_def [symmetric] seed prod.case w(1) d3 one two final_def [symmetric]]
    by (auto simp: case_prod_beta)
  have run: "db' = (if event = pointer db3 ws st user then db3 else case event of None \<Rightarrow> pruneAtOrBelow ws st user s db3
     | Some i \<Rightarrow> if i = [] then pruneAtOrBelow ws st user s db3
         else pruneAtOrBelow ws st user s (fst (read_state_advance now ws st user i (resolveInboxClearMode mode \<noteq> ''read'') db3)))"
    unfolding run0(1) final_def p(2) by (simp add: case_prod_beta split: option.splits)
  have "read_ok db3" unfolding db3_def by (rule sparse_start_facts(1) [OF ok])
  note st = sparse_target [OF this t]
  have "event = None \<Longrightarrow> event = pointer db3 ws st user"
    using st(1,2,4) sequence_or_zero_nonneg [of "rd_events db3" ws "pointer db3 ws st user"] \<open>read_ok db3\<close>
    by (auto simp: points_to_def watermark_def read_ok_def)
  then have "db' = (case event of None \<Rightarrow> db3 | Some i \<Rightarrow> if event = pointer db3 ws st user then db3
       else pruneAtOrBelow ws st user s (fst (read_state_advance now ws st user i (resolveInboxClearMode mode \<noteq> ''read'') db3)))"
    using run st(5) by (auto split: option.splits)
  then show ?thesis by (rule that [OF db3_def t _ run0(2,3)]) (simp add: run0)
qed

lemma overlay_event:
  assumes ok: "read_ok db" and r: "r \<in> set (rd_reads db)" "overlay_row ws st user r" "Some (mr_messageId r) = message_id_of e"
    and e: "e \<in> set (message_rows (rd_events db) ws st)"
  shows "mr_sequence r = sv_sequence e"
proof -
  obtain e' where e': "e' \<in> set (stream_events (rd_events db))" "read_of r e'" using ok r(1) by (auto simp: read_ok_def overlay_ok_def)
  have mu: "messages_unique (rd_events db)" using ok by (simp add: read_ok_def log_ok_def)
  have "message_id_of e' \<noteq> None" using e'(2) by (simp add: read_of_def)
  moreover have "message_id_of e' = message_id_of e" "is_message e'" "is_message e" "sv_workspaceId e' = sv_workspaceId e"
    "e \<in> set (stream_events (rd_events db))"
    using e e'(2) r(2,3) by (simp_all add: set_message_rows read_of_def of_stream_def overlay_row_def)
  ultimately have "e' = e" using mu e'(1) unfolding messages_unique_def by blast
  then show ?thesis using e'(2) by (simp add: read_of_def)
qed

lemma applySparseRead_ok:
  assumes ok: "read_ok db" and m: "applySparseRead now mode ws st user ms db = (db', snap, out)"
  shows "read_ok db'"
proof -
  obtain db3 event s where h: "db3 = sparse_start now ws st user ms db" "sparse_target db3 ws st user = (event, s)"
    "db' = (case event of None \<Rightarrow> db3 | Some i \<Rightarrow> if event = pointer db3 ws st user then db3
       else pruneAtOrBelow ws st user s (fst (read_state_advance now ws st user i (resolveInboxClearMode mode \<noteq> ''read'') db3)))"
    by (rule applySparseRead_shape [OF ok m])
  have ok3: "read_ok db3" unfolding h(1) by (rule sparse_start_facts(1) [OF ok])
  note t = sparse_target [OF ok3 h(2)]
  show ?thesis
  proof (cases "event = None \<or> event = pointer db3 ws st user")
    case True
    then show ?thesis using ok3 h(3) by (auto split: option.splits)
  next
    case False
    then obtain i where i: "event = Some i" by auto
    have "read_ok (delete_reads (\<lambda>r. overlay_row ws st user r \<and> mr_sequence r \<le> s)
        (fst (read_state_advance now ws st user i (resolveInboxClearMode mode \<noteq> ''read'') db3)))"
      by (rule advance_ok [OF ok3 t(1) [unfolded i]]) auto
    then show ?thesis using False i h(3) by (simp add: pruneAtOrBelow_def)
  qed
qed

text \<open>The answer of a sparse read is the target, watermark and overlay that it leaves behind.\<close>

lemma applySparseRead_result:
  assumes ok: "read_ok db" and stream: "(ws, st) \<in> set (rd_streams db)"
    and m: "applySparseRead now mode ws st user messageIds db = (db', snap, out)"
    and db3: "db3 = sparse_start now ws st user messageIds db"
  shows "sparse_target db3 ws st user = (ss_lastReadEventId snap, ss_lastReadSequence snap)"
    "pointer db' ws st user = ss_lastReadEventId snap" "watermark db' ws st user = ss_lastReadSequence snap"
    "ss_readMessageIds snap = listOverlayIds db' ws st user" "rd_events db' = rd_events db"
    "r \<in> set (rd_reads db') \<longleftrightarrow> r \<in> set (rd_reads db3) \<and> \<not> (overlay_row ws st user r \<and> mr_sequence r \<le> ss_lastReadSequence snap)"
proof -
  obtain event s where h: "sparse_target db3 ws st user = (event, s)"
    "db' = (case event of None \<Rightarrow> db3 | Some i \<Rightarrow> if event = pointer db3 ws st user then db3
       else pruneAtOrBelow ws st user s (fst (read_state_advance now ws st user i (resolveInboxClearMode mode \<noteq> ''read'') db3)))"
    and snap: "ss_lastReadEventId snap = event" "ss_lastReadSequence snap = s" "ss_readMessageIds snap = listOverlayIds db' ws st user"
    unfolding db3 by (rule applySparseRead_shape [OF ok m]) blast
  note f = sparse_start_facts [OF ok, where now = now and ws = ws and st = st and user = user and ms = messageIds, folded db3]
  note t = sparse_target [OF f(1) h(1)]
  have final: "pointer db' ws st user = event \<and> watermark db' ws st user = s \<and> rd_events db' = rd_events db \<and>
      (\<forall>r. r \<in> set (rd_reads db') \<longleftrightarrow> r \<in> set (rd_reads db3) \<and> \<not> (overlay_row ws st user r \<and> mr_sequence r \<le> s))"
  proof (cases "event = None \<or> event = pointer db3 ws st user")
    case True
    have n: "event = pointer db3 ws st user"
    proof (cases "event = None")
      case none: True
      then have "s = 0" using t(1) by (simp add: points_to_def)
      then have "s = watermark db3 ws st user"
        using t(2) sequence_or_zero_nonneg [of "rd_events db3" ws "pointer db3 ws st user"] f(1) by (simp add: watermark_def read_ok_def)
      then show ?thesis using t(4) by simp
    next
      case False
      then show ?thesis using True by blast
    qed
    then have d: "db' = db3" using h(2) by (auto split: option.splits)
    have "\<not> mr_sequence r \<le> s" if "r \<in> set (rd_reads db3)" "overlay_row ws st user r" for r
      using that f(1) n t(4) by (auto simp: read_ok_def overlay_above_def overlay_row_def)
    then show ?thesis using n t(4) d f(2) by auto
  next
    case False
    then obtain i where i: "event = Some i" by auto
    let ?h = "resolveInboxClearMode mode \<noteq> ''read''"
    have d: "db' = pruneAtOrBelow ws st user s (fst (read_state_advance now ws st user i ?h db3))" using False i h(2) by simp
    have sq: "sequence_or_zero (rd_events db3) ws (Some i) = s" using points_to_sequence [OF _ t(1)] f(1) i by (simp add: read_ok_def)
    have "watermark db3 ws st user < s" using t(2,4) False by simp
    moreover have "0 \<le> watermark db3 ws st user" using sequence_or_zero_nonneg f(1) by (simp add: watermark_def read_ok_def)
    ultimately have "pointer (fst (read_state_advance now ws st user i ?h db3)) ws st user = Some i"
      using advance_pointer [of db3 ws i now st user ?h ws st user] sq stream f(3) by simp
    then show ?thesis using d i sq f(2) by (auto simp: pruneAtOrBelow_def watermark_def)
  qed
  then show "sparse_target db3 ws st user = (ss_lastReadEventId snap, ss_lastReadSequence snap)"
    "pointer db' ws st user = ss_lastReadEventId snap" "watermark db' ws st user = ss_lastReadSequence snap"
    "ss_readMessageIds snap = listOverlayIds db' ws st user" "rd_events db' = rd_events db"
    "r \<in> set (rd_reads db') \<longleftrightarrow> r \<in> set (rd_reads db3) \<and> \<not> (overlay_row ws st user r \<and> mr_sequence r \<le> ss_lastReadSequence snap)"
    using h(1) snap by simp_all
qed

text \<open>
  C18. Marking messages read reads those messages and no others.  Take a well-formed read state and an existing stream,
  and let a user mark some messages of it read.  Afterwards a message that has not been deleted counts as read, by the
  watermark or the overlay, exactly if it did before or is one of those marked: the compaction of the overlay into the
  watermark, and the absorption of runs of deleted messages, change nothing else.  The state is well formed again, and
  the answer gives the watermark and the overlay as they now stand.
\<close>

theorem sparse_read_reads_only_what_is_marked:
  assumes ok: "read_ok db" and stream: "(ws, st) \<in> set (rd_streams db)"
    and m: "applySparseRead now mode ws st user messageIds db = (db', snap, out)"
  shows "read_ok db' \<and> ss_lastReadEventId snap = pointer db' ws st user \<and> ss_lastReadSequence snap = watermark db' ws st user \<and>
    ss_readMessageIds snap = listOverlayIds db' ws st user \<and>
    (\<forall>e\<in>set (message_rows (rd_events db) ws st). not_deleted db e \<longrightarrow>
      (effectively_read db' ws st user e \<longleftrightarrow> effectively_read db ws st user e \<or> message_id_of e \<in> Some ` set messageIds))"
proof -
  define db3 where "db3 = sparse_start now ws st user messageIds db"
  note final = applySparseRead_result [OF ok stream m db3_def]
  note f = sparse_start_facts [OF ok, where now = now and ws = ws and st = st and user = user and ms = messageIds, folded db3_def]
  note t = sparse_target [OF f(1) final(1)]
  have w3: "watermark db3 ws st user = watermark db ws st user" by (simp add: watermark_def f(2,5))
  have "effectively_read db' ws st user e \<longleftrightarrow> effectively_read db ws st user e \<or> message_id_of e \<in> Some ` set messageIds"
    if e: "e \<in> set (message_rows (rd_events db) ws st)" "not_deleted db e" for e
  proof -
    have o: "in_overlay db' ws st user e \<longleftrightarrow> in_overlay db3 ws st user e \<and> ss_lastReadSequence snap < sv_sequence e"
      using final(6) overlay_event [OF f(1), of _ ws st user e] e(1) by (fastforce simp: in_overlay_def f(2))
    have nd: "not_deleted db3 e" using e(2) by (simp add: not_deleted_def f(4))
    show ?thesis
    proof (cases "sv_sequence e \<le> watermark db ws st user")
      case True
      then show ?thesis using t(2) final(3) w3 by (simp add: effectively_read_def)
    next
      case False
      then have "sv_sequence e \<le> ss_lastReadSequence snap \<longrightarrow> in_overlay db3 ws st user e" using t(3) e(1) nd by (auto simp: absorbable_def w3 f(2))
      then have "effectively_read db' ws st user e \<longleftrightarrow> in_overlay db3 ws st user e"
        using o final(3) by (auto simp: effectively_read_def in_overlay_def [symmetric])
      also have "\<dots> \<longleftrightarrow> in_overlay db ws st user e \<or> message_id_of e \<in> Some ` set messageIds" using f(6) e(1) False by simp
      finally show ?thesis using False by (auto simp: effectively_read_def in_overlay_def [symmetric])
    qed
  qed
  then show ?thesis using applySparseRead_ok [OF ok m] final(2-4) by simp
qed

lemma earliest_message:
  assumes "findEarliestMessageEvent ev ws st ids = Some e"
  shows "\<exists>r\<in>set (message_rows ev ws st). message_id_of r \<in> Some ` set ids \<and> sv_sequence r = sw_sequence e"
    "r \<in> set (message_rows ev ws st) \<Longrightarrow> message_id_of r \<in> Some ` set ids \<Longrightarrow> sw_sequence e \<le> sv_sequence r"
proof -
  let ?l = "with_message_ids ids (message_rows ev ws st)"
  have f: "first_event (order_limit sv_sequence 1 ?l) = Some e" using assms by (simp add: findEarliestMessageEvent_def split: if_splits)
  obtain a rest where a: "order_limit sv_sequence 1 ?l = a # rest" "e = mapRowToEvent a"
    using f by (cases "order_limit sv_sequence 1 ?l") (auto simp: first_event_def)
  have "a \<in> set ?l" using a(1) set_order_limit [of sv_sequence 1 ?l] by auto
  then show "\<exists>r\<in>set (message_rows ev ws st). message_id_of r \<in> Some ` set ids \<and> sv_sequence r = sw_sequence e"
    using a(2) by (auto simp: with_message_ids_def)
  assume r: "r \<in> set (message_rows ev ws st)" "message_id_of r \<in> Some ` set ids"
  have "sv_sequence a \<le> sv_sequence r" by (rule order_limit_first [OF a(1)]) (use r in \<open>simp add: with_message_ids_def\<close>)
  then show "sw_sequence e \<le> sv_sequence r" using a(2) by simp
qed

lemma earliest_none:
  assumes "findEarliestMessageEvent ev ws st ids = None" "r \<in> set (message_rows ev ws st)"
  shows "message_id_of r \<notin> Some ` set ids"
proof
  assume n: "message_id_of r \<in> Some ` set ids"
  then have "with_message_ids ids (message_rows ev ws st) \<noteq> []" using assms(2) by (auto simp: with_message_ids_def filter_empty_conv)
  moreover have "ids \<noteq> []" using n by auto
  ultimately have "order_limit sv_sequence 1 (with_message_ids ids (message_rows ev ws st)) = []"
    using assms(1) by (auto simp: findEarliestMessageEvent_def first_event_def split: list.splits)
  then show False using \<open>with_message_ids ids (message_rows ev ws st) \<noteq> []\<close> by (simp add: order_limit_Nil_iff)
qed

lemma previous_greatest:
  assumes "r \<in> set (message_rows ev ws st)" "sv_sequence r < s"
  shows "\<exists>p. findPreviousMessageEvent ev ws st s = Some p \<and> sv_sequence r \<le> sw_sequence p"
proof -
  let ?l = "filter (\<lambda>r. sv_sequence r < s) (message_rows ev ws st)"
  let ?k = "\<lambda>r. - sv_sequence r"
  have r: "r \<in> set ?l" using assms by simp
  then have "?l \<noteq> []" by (metis empty_iff empty_set)
  then have "order_limit ?k 1 ?l \<noteq> []" by (subst order_limit_Nil_iff) simp_all
  then obtain a rest where a: "order_limit ?k 1 ?l = a # rest" by (cases "order_limit ?k 1 ?l") auto
  have "?k a \<le> ?k r" by (rule order_limit_first [OF a r])
  then have "sv_sequence r \<le> sv_sequence a" by simp
  then show ?thesis using a by (simp add: findPreviousMessageEvent_def newest_def first_event_def)
qed

text \<open>Where a sparse unread leaves the watermark, and what it removes from the overlay.\<close>

lemma applySparseUnread_result:
  assumes ok: "read_ok db" and stream: "(ws, st) \<in> set (rd_streams db)"
    and m: "applySparseUnread now ws st user messageIds db = (db', snap, out)" and e: "e \<in> set (message_rows (rd_events db) ws st)"
  shows "in_overlay db' ws st user e \<longleftrightarrow> in_overlay db ws st user e \<and> message_id_of e \<notin> Some ` set messageIds"
    "watermark db' ws st user \<le> watermark db ws st user"
    "message_id_of e \<in> Some ` set messageIds \<Longrightarrow> watermark db' ws st user < sv_sequence e"
    "\<forall>a\<in>set (message_rows (rd_events db) ws st). message_id_of a \<in> Some ` set messageIds \<longrightarrow> sv_sequence e < sv_sequence a \<Longrightarrow>
      sv_sequence e \<le> watermark db ws st user \<Longrightarrow> sv_sequence e \<le> watermark db' ws st user"
proof -
  let ?marked = "message_id_of e \<in> Some ` set messageIds"
  let ?before = "\<forall>a\<in>set (message_rows (rd_events db) ws st). message_id_of a \<in> Some ` set messageIds \<longrightarrow> sv_sequence e < sv_sequence a"
  define db1 where "db1 = (if messageIds = [] then db else deleteReads ws st user messageIds db)"
  define db2 where "db2 = fst (ensureForUpdate now ws st user db1)"
  have ok2: "read_ok db2" unfolding db2_def db1_def using ok by (simp add: deleteReads_def delete_reads_ok ensure_ok)
  have f: "rd_events db2 = rd_events db" "rd_streams db2 = rd_streams db" "watermark db2 ws st user = watermark db ws st user"
    by (simp_all add: db2_def db1_def deleteReads_def watermark_def)
  have o2: "in_overlay db2 ws st user e \<longleftrightarrow> in_overlay db ws st user e \<and> message_id_of e \<notin> Some ` set messageIds"
  proof -
    have "set (rd_reads db2) = {r \<in> set (rd_reads db). \<not> (overlay_row ws st user r \<and> mr_messageId r \<in> set messageIds)}"
      by (simp add: db2_def db1_def deleteReads_def)
    then show ?thesis by (force simp: in_overlay_def)
  qed
  have seed: "watermarkSeed now ws st user db1 = (db2, pointer db2 ws st user)" by (simp add: ensure_seed db2_def)
  have w: "resolveWatermarkSequence db2 ws st (pointer db2 ws st user) = watermark db ws st user"
    using ok2 f(3) watermark_resolved by (simp add: read_ok_def)
  consider (kept) "db' = db2" "\<And>earliest. findEarliestMessageEvent (rd_events db) ws st messageIds = Some earliest \<Longrightarrow> watermark db ws st user < sw_sequence earliest"
    | (regress) earliest where "findEarliestMessageEvent (rd_events db) ws st messageIds = Some earliest" "sw_sequence earliest \<le> watermark db ws st user"
      "db' = fst (read_state_set now ws st user (map_option sw_id (findPreviousMessageEvent (rd_events db) ws st (sw_sequence earliest))) db2)"
    using m by (auto simp: applySparseUnread_def Let_def db1_def [symmetric] seed w f(1) split: option.splits if_splits)
  then have "(in_overlay db' ws st user e \<longleftrightarrow> in_overlay db ws st user e \<and> \<not> ?marked) \<and> watermark db' ws st user \<le> watermark db ws st user \<and>
      (?marked \<longrightarrow> watermark db' ws st user < sv_sequence e) \<and>
      (?before \<longrightarrow> sv_sequence e \<le> watermark db ws st user \<longrightarrow> sv_sequence e \<le> watermark db' ws st user)"
  proof cases
    case kept
    have "watermark db ws st user < sv_sequence e" if ?marked
    proof (cases "findEarliestMessageEvent (rd_events db) ws st messageIds")
      case None
      then show ?thesis using earliest_none [OF None e] that by blast
    next
      case (Some a)
      then show ?thesis using kept(2) [OF Some] earliest_message(2) [OF Some e that] by simp
    qed
    then show ?thesis using kept(1) o2 f(3) by simp
  next
    case regress
    let ?p = "findPreviousMessageEvent (rd_events db) ws st (sw_sequence earliest)"
    let ?s = "case ?p of None \<Rightarrow> 0 | Some p \<Rightarrow> sw_sequence p"
    have pt: "points_to db2 ws st (map_option sw_id ?p) ?s" using previous_points [of db2 ws st "sw_sequence earliest"] by (simp add: f(1))
    have w': "watermark db' ws st user = ?s" "rd_reads db' = rd_reads db2"
      using points_to_sequence [OF _ pt] ok2 stream regress(3) by (simp_all add: watermark_def read_state_set_pointer f(1,2) read_ok_def)
    have o': "in_overlay db' ws st user e \<longleftrightarrow> in_overlay db2 ws st user e" by (simp add: in_overlay_def w'(2))
    have "1 \<le> sv_sequence a" if "a \<in> set (message_rows (rd_events db) ws st)" for a
      using that ok log_positive [of "rd_events db" a] by (simp add: set_message_rows read_ok_def)
    then have pos: "0 < sw_sequence earliest" using earliest_message(1) [OF regress(1)] by force
    have lt: "?s < sw_sequence earliest" using previous_below [of "rd_events db" ws st "sw_sequence earliest"] pos by (auto split: option.splits)
    have "?s < sv_sequence e" if ?marked using earliest_message(2) [OF regress(1) e that] lt by simp
    moreover have "sv_sequence e \<le> ?s" if ?before
    proof -
      have le: "sv_sequence e < sw_sequence earliest" using earliest_message(1) [OF regress(1)] that by auto
      obtain p where "?p = Some p" "sv_sequence e \<le> sw_sequence p" using previous_greatest [OF e le] by blast
      then show ?thesis by simp
    qed
    ultimately show ?thesis using o' o2 w'(1) lt regress(2) by simp
  qed
  then show "in_overlay db' ws st user e \<longleftrightarrow> in_overlay db ws st user e \<and> \<not> ?marked"
    "watermark db' ws st user \<le> watermark db ws st user"
    "?marked \<Longrightarrow> watermark db' ws st user < sv_sequence e"
    "?before \<Longrightarrow> sv_sequence e \<le> watermark db ws st user \<Longrightarrow> sv_sequence e \<le> watermark db' ws st user"
    by blast+
qed

text \<open>
  C19. Marking messages unread unreads them.  In a well-formed state of an existing stream, after a user marks messages
  of it unread, each of them counts as unread; no message becomes read; and the messages that come before all of those
  marked count as they did.  (What comes after the first of them may become unread with it, when the watermark was
  there.)
\<close>

theorem sparse_unread_unreads_what_is_marked:
  assumes ok: "read_ok db" and stream: "(ws, st) \<in> set (rd_streams db)"
    and m: "applySparseUnread now ws st user messageIds db = (db', snap, out)" and e: "e \<in> set (message_rows (rd_events db) ws st)"
  shows "read_ok db' \<and> (message_id_of e \<in> Some ` set messageIds \<longrightarrow> \<not> effectively_read db' ws st user e) \<and>
    (effectively_read db' ws st user e \<longrightarrow> effectively_read db ws st user e) \<and>
    ((\<forall>a\<in>set (message_rows (rd_events db) ws st). message_id_of a \<in> Some ` set messageIds \<longrightarrow> sv_sequence e < sv_sequence a) \<longrightarrow>
      (effectively_read db' ws st user e \<longleftrightarrow> effectively_read db ws st user e))"
proof -
  note res = applySparseUnread_result [OF ok stream m e]
  have eff: "effectively_read d ws st user e \<longleftrightarrow> sv_sequence e \<le> watermark d ws st user \<or> in_overlay d ws st user e" for d
    by (auto simp: effectively_read_def in_overlay_def)
  have unread: "\<not> effectively_read db' ws st user e" if "message_id_of e \<in> Some ` set messageIds"
    using res(1) res(3) [OF that] that by (simp add: eff)
  have less: "effectively_read db ws st user e" if "effectively_read db' ws st user e" using that res(1,2) by (auto simp: eff)
  have same: "effectively_read db' ws st user e \<longleftrightarrow> effectively_read db ws st user e"
    if before: "\<forall>a\<in>set (message_rows (rd_events db) ws st). message_id_of a \<in> Some ` set messageIds \<longrightarrow> sv_sequence e < sv_sequence a"
  proof -
    have "message_id_of e \<notin> Some ` set messageIds" using before e by blast
    then show ?thesis using less res(1) res(4) [OF before] by (auto simp: eff)
  qed
  show ?thesis using unread less same applySparseUnread_ok [OF ok m] by blast
qed

section \<open>Reading whole streams\<close>

lemma upsert_pointer:
  assumes "state_of ws st user new" "rr_lastReadEventId new = e" "\<And>r. state_of ws st user r \<Longrightarrow> state_of ws st user (f r)" "\<And>r. rr_lastReadEventId (f r) = e"
  shows "pointer (upsert_state ws st user new g f db) ws' st' user' = pointer db ws' st' user' \<or>
    ws' = ws \<and> st' = st \<and> user' = user \<and> pointer (upsert_state ws st user new g f db) ws' st' user' = e"
proof -
  have "pointer (upsert_state ws st user new g f db) ws' st' user' =
    (if ws' = ws \<and> st' = st \<and> user' = user \<and> (ws, st) \<in> set (rd_streams db)
     then (case find (state_of ws st user) (rd_states db) of None \<Rightarrow> e | Some r \<Rightarrow> if g r then e else rr_lastReadEventId r)
     else pointer db ws' st' user')"
    unfolding pointer_def by (subst find_upsert [OF assms(1,3)]) (simp_all add: assms(2,4) split: option.splits)
  then show ?thesis by (auto simp: pointer_def split: option.splits if_splits)
qed

definition advance_all :: "timestamp \<Rightarrow> string \<Rightarrow> string \<Rightarrow> ReadDb \<Rightarrow> (string \<times> string) list \<Rightarrow> ReadDb \<Rightarrow> ReadDb" where
  "advance_all now ws user db0 updates = fold (\<lambda>(st, event). upsert_state ws st user (fresh_state now ws st user (Some event) (Some now))
                 (out_sequences db0 ws event) (point_at now (Some event))) updates"

lemma advance_all_facts:
  "rd_events (advance_all now ws user db0 us db) = rd_events db \<and> rd_reads (advance_all now ws user db0 us db) = rd_reads db \<and>
  (distinct (map state_key (rd_states db)) \<longrightarrow> distinct (map state_key (rd_states (advance_all now ws user db0 us db)))) \<and>
  (pointer (advance_all now ws user db0 us db) ws' st' user' = pointer db ws' st' user' \<or>
    ws' = ws \<and> user' = user \<and> (\<exists>event. (st', event) \<in> set us \<and> pointer (advance_all now ws user db0 us db) ws' st' user' = Some event))"
proof (induction us arbitrary: db)
  case (Cons u us)
  obtain st event where u: "u = (st, event)" by fastforce
  let ?db1 = "upsert_state ws st user (fresh_state now ws st user (Some event) (Some now)) (out_sequences db0 ws event) (point_at now (Some event)) db"
  have a: "advance_all now ws user db0 (u # us) db = advance_all now ws user db0 us ?db1" by (simp add: advance_all_def u)
  have p: "pointer ?db1 ws' st' user' = pointer db ws' st' user' \<or> ws' = ws \<and> st' = st \<and> user' = user \<and> pointer ?db1 ws' st' user' = Some event"
    by (rule upsert_pointer) simp_all
  have d: "distinct (map state_key (rd_states db)) \<longrightarrow> distinct (map state_key (rd_states ?db1))" by (simp add: upsert_distinct)
  show ?case unfolding a using Cons.IH [of ?db1] p d by (auto simp: u)
qed (simp add: advance_all_def)

lemmas advance_all = advance_all_facts [THEN conjunct1] advance_all_facts [THEN conjunct2, THEN conjunct1]
  advance_all_facts [THEN conjunct2, THEN conjunct2, THEN conjunct1, rule_format] advance_all_facts [THEN conjunct2, THEN conjunct2, THEN conjunct2]

lemma latest_event:
  assumes "(st, i) \<in> set (getLatestEventIdByStreamBatch ev ws streamIds)"
  shows "\<exists>e\<in>set (stream_events ev). of_stream ws st e \<and> sv_id e = i"
proof -
  obtain e where "e \<in> set (newest 1 (filter (of_stream ws st) (stream_events ev)))" "sv_id e = i"
    using assms by (auto simp: getLatestEventIdByStreamBatch_def)
  moreover from this have "e \<in> set (filter (of_stream ws st) (stream_events ev))" using set_newest by blast
  ultimately show ?thesis by auto
qed

lemma pointer_row: "pointer db ws st user = Some i \<Longrightarrow> \<exists>r\<in>set (rd_states db). state_of ws st user r"
  by (auto simp: pointer_def find_Some_iff split: option.splits bind_splits)

lemma advanceStreamsToLatest_ok:
  assumes ok: "read_ok db" and m: "advanceStreamsToLatest now ws user streamIds db = (db', ids, frontiers, out)"
  shows "read_ok db'"
proof -
  let ?us = "updates_to_apply db ws user streamIds"
  define db1 where "db1 = advance_all now ws user db ?us db"
  let ?ids = "map rv_streamId (getBatch db1 ws user (map fst ?us))"
  have b: "batchAdvance now ws user ?us db = (db1, getBatch db1 ws user (map fst ?us))"
    by (simp add: batchAdvance_def Let_def db1_def advance_all_def)
  have "db' = db \<or> db' = db1 \<and> ?ids = [] \<or> db' = deleteAllForStreams ws user ?ids db1"
    using m by (auto simp: advanceStreamsToLatest_def Let_def b split: if_splits prod.splits)
  then have cases: "db' = db \<or> db' = deleteAllForStreams ws user ?ids db1"
    by (auto simp: deleteAllForStreams_def delete_reads_def sql_delete_def)
  have d: "deleteAllForStreams ws user ?ids db1 = delete_reads (\<lambda>r. mr_workspaceId r = ws \<and> mr_memberId r = user \<and> mr_streamId r \<in> set ?ids) db1"
    by (simp add: deleteAllForStreams_def)
  have "read_ok (deleteAllForStreams ws user ?ids db1)"
    unfolding d
  proof (rule read_ok_change [OF ok])
    let ?d = "delete_reads (\<lambda>r. mr_workspaceId r = ws \<and> mr_memberId r = user \<and> mr_streamId r \<in> set ?ids) db1"
    have real: "\<exists>e\<in>set (stream_events (rd_events db)). of_stream ws st e \<and> sv_id e = i" if "(st, i) \<in> set ?us" for st i
      using that latest_event by (auto simp: updates_to_apply_def Let_def)
    show "rd_events ?d = rd_events db" by (simp add: db1_def advance_all)
    show "distinct (map state_key (rd_states ?d))" using ok by (simp add: db1_def advance_all read_ok_def)
    show "\<exists>e\<in>set (stream_events (rd_events db)). of_stream ws' st' e \<and> sv_id e = i"
      if "pointer ?d ws' st' user' = Some i" "pointer ?d ws' st' user' \<noteq> pointer db ws' st' user'" for ws' st' user' i
      using that advance_all(4) [of now ws user db ?us db ws' st' user'] real by (auto simp: db1_def)
    show "reads_unique (rd_reads ?d)" using ok by (intro reads_unique_delete) (simp add: db1_def advance_all read_ok_def overlay_ok_def)
    show "set (rd_reads ?d) \<subseteq> set (rd_reads db)" by (auto simp: db1_def advance_all)
    fix r assume r: "r \<in> set (rd_reads ?d)" "pointer ?d (mr_workspaceId r) (mr_streamId r) (mr_memberId r) \<noteq> pointer db (mr_workspaceId r) (mr_streamId r) (mr_memberId r)"
    then obtain event where e: "mr_workspaceId r = ws" "mr_memberId r = user" "(mr_streamId r, event) \<in> set ?us" "pointer db1 ws (mr_streamId r) user = Some event"
      using advance_all(4) [of now ws user db ?us db "mr_workspaceId r" "mr_streamId r" "mr_memberId r"] by (auto simp: db1_def)
    then obtain s where s: "s \<in> set (rd_states db1)" "state_of ws (mr_streamId r) user s" using pointer_row by blast
    have "mr_streamId r \<in> fst ` set ?us" using e(3) by force
    then have "mr_streamId r \<in> set ?ids"
      using s by (force simp: getBatch_def mapRowToReadState_def state_of_def intro!: image_eqI [where x = s])
    then show "watermark ?d (mr_workspaceId r) (mr_streamId r) (mr_memberId r) < mr_sequence r" using r(1) e by simp
  qed
  then show ?thesis using cases ok by auto
qed

lemma ensureBatch:
  "rd_events (ensureBatchForUpdate now ws user ids db) = rd_events db \<and> rd_reads (ensureBatchForUpdate now ws user ids db) = rd_reads db \<and>
  (distinct (map state_key (rd_states db)) \<longrightarrow> distinct (map state_key (rd_states (ensureBatchForUpdate now ws user ids db)))) \<and>
  pointer (ensureBatchForUpdate now ws user ids db) ws' st' user' = pointer db ws' st' user'"
proof (induction ids arbitrary: db)
  case (Cons st ids)
  have a: "ensureBatchForUpdate now ws user (st # ids) db = ensureBatchForUpdate now ws user ids (fst (ensureForUpdate now ws st user db))"
    by (simp add: ensureBatchForUpdate_def ensureForUpdate_def Let_def)
  show ?case unfolding a using Cons.IH [of "fst (ensureForUpdate now ws st user db)"] by (simp add: ensure_distinct)
qed (simp add: ensureBatchForUpdate_def)

lemma ensureBatch_ok: "read_ok db \<Longrightarrow> read_ok (ensureBatchForUpdate now ws user ids db)"
  by (rule read_ok_change) (auto simp: ensureBatch read_ok_def overlay_ok_def)

lemma clear_held:
  "rd_events (fst (clearInboxHeld now ws user ids db)) = rd_events db" "rd_reads (fst (clearInboxHeld now ws user ids db)) = rd_reads db"
  "map state_key (rd_states (fst (clearInboxHeld now ws user ids db))) = map state_key (rd_states db)"
  "pointer (fst (clearInboxHeld now ws user ids db)) ws' st' user' = pointer db ws' st' user'"
proof -
  let ?p = "\<lambda>r. rr_workspaceId r = ws \<and> rr_userId r = user \<and> rr_streamId r \<in> set ids \<and> rr_inboxHeld r"
  let ?f = "\<lambda>r. r\<lparr>rr_inboxHeld := False, rr_inboxFloorEventId := None, rr_updatedAt := now\<rparr>"
  show "rd_events (fst (clearInboxHeld now ws user ids db)) = rd_events db" "rd_reads (fst (clearInboxHeld now ws user ids db)) = rd_reads db"
    by (simp_all add: clearInboxHeld_def Let_def)
  show "map state_key (rd_states (fst (clearInboxHeld now ws user ids db))) = map state_key (rd_states db)"
    by (simp add: clearInboxHeld_def Let_def sql_update_key state_key_def)
  have f: "find (state_of ws' st' user') (sql_update ?p ?f (rd_states db)) = map_option (\<lambda>r. if ?p r then ?f r else r) (find (state_of ws' st' user') (rd_states db))"
    by (rule find_row_update) (simp add: state_of_def)
  show "pointer (fst (clearInboxHeld now ws user ids db)) ws' st' user' = pointer db ws' st' user'"
    by (simp add: clearInboxHeld_def Let_def pointer_def f split: option.splits bind_splits)
qed

lemma release_ok:
  assumes "read_ok db" "releaseInboxHold now ws user ids db = (db', cleared, out)"
  shows "read_ok db'"
proof -
  have "db' = db \<or> db' = fst (clearInboxHeld now ws user ids db)" using assms(2) by (auto simp: releaseInboxHold_def Let_def split: if_splits prod.splits)
  moreover have "read_ok (fst (clearInboxHeld now ws user ids db))"
    using assms(1) by (intro read_ok_change [OF assms(1)]) (auto simp: clear_held read_ok_def overlay_ok_def)
  ultimately show ?thesis using assms(1) by auto
qed

lemma clearInbox_ok:
  assumes ok: "read_ok db" and m: "clearInboxInTransaction now ws user accessible db = (db', cleared, frontiers, out)"
  shows "read_ok db'"
proof (cases "accessible = []")
  case True
  then show ?thesis using ok m by (simp add: clearInboxInTransaction_def)
next
  case False
  obtain db1 ids fs out1 where a: "advanceStreamsToLatest now ws user accessible (ensureBatchForUpdate now ws user accessible db) = (db1, ids, fs, out1)"
    by (metis prod_cases4)
  obtain db2 cl out2 where r: "releaseInboxHold now ws user accessible db1 = (db2, cl, out2)" by (metis prod_cases3)
  have "db' = db2" using m False by (simp add: clearInboxInTransaction_def a r)
  then show ?thesis using release_ok [OF advanceStreamsToLatest_ok [OF ensureBatch_ok [OF ok] a] r] by simp
qed

end
