(* ===== verification/Unread_Counts.thy ===== *)
theory Unread_Counts
  imports Read_Marks
begin

text \<open>
  Read state over the whole life of the log: events are added, messages are moved with their read state, and every
  operation of a reader is a step.  In every state reached this way the unread count served is the number of messages
  not read, with the one exception at the end: a send that passes over messages its author has read one by one.
\<close>

section \<open>The log under the read state\<close>

lemma same_sequence:
  assumes "events_unique (stream_events ev)" "events_unique (stream_events ev')" "e \<in> set (stream_events ev)" "e' \<in> set (stream_events ev')"
    "sv_workspaceId e' = sv_workspaceId e" "sv_id e' = sv_id e" "sv_sequence e' = sv_sequence e"
  shows "sequence_or_zero ev' (sv_workspaceId e) (Some (sv_id e)) = sequence_or_zero ev (sv_workspaceId e) (Some (sv_id e))"
  using sequence_of_event [OF assms(1,3)] sequence_of_event [OF assms(2,4)] assms(5-7) by simp

lemma log_grows_ok:
  assumes ok: "read_ok db" and lok: "log_ok ev'" and sub: "set (stream_events (rd_events db)) \<subseteq> set (stream_events ev')"
  shows "read_ok (db\<lparr>rd_events := ev'\<rparr>)"
proof -
  let ?db = "db\<lparr>rd_events := ev'\<rparr>"
  have p: "pointer ?db ws st user = pointer db ws st user" for ws st user by (simp add: pointer_def)
  have w: "watermark ?db ws st user = watermark db ws st user" for ws st user
  proof (cases "pointer db ws st user")
    case (Some i)
    then obtain e where e: "e \<in> set (stream_events (rd_events db))" "of_stream ws st e" "sv_id e = i"
      using ok unfolding read_ok_def pointers_ok_def by blast
    have "log_ok (rd_events db)" using ok by (simp add: read_ok_def)
    then have "sequence_or_zero ev' (sv_workspaceId e) (Some (sv_id e)) = sequence_or_zero (rd_events db) (sv_workspaceId e) (Some (sv_id e))"
      using same_sequence [OF log_unique log_unique [OF lok], of "rd_events db" e e] e(1) sub by blast
    then show ?thesis using Some e by (simp add: watermark_def p of_stream_def)
  qed (simp add: watermark_def p sequence_or_zero_def)
  show ?thesis
    unfolding read_ok_def
  proof (intro conjI)
    show "pointers_ok ?db" using ok sub by (fastforce simp: read_ok_def pointers_ok_def p)
    show "overlay_ok ?db" using ok sub by (fastforce simp: read_ok_def overlay_ok_def)
    show "overlay_above ?db" using ok by (simp add: read_ok_def overlay_above_def w)
  qed (use ok lok in \<open>simp_all add: read_ok_def\<close>)
qed

section \<open>Moving messages\<close>

text \<open>The log after a move: what stayed, what was renumbered into the destination, and the two tombstones.\<close>

lemma move_rows:
  assumes ok: "log_ok ev" and ne: "mv_sourceStreamId q \<noteq> mv_destinationStreamId q" and m: "move_messages q ev = Inr ev'"
  obtains ns t1 t2 where "length ns = length (movable_rows ev q)"
    "\<forall>n\<in>set ns. nextS ev (mv_workspaceId q) (mv_destinationStreamId q) \<le> fst n"
    "set (stream_events ev') = (set (stream_events ev) - snd ` set (movable_rows ev q)) \<union> set (map2 (relocated q) (movable_rows ev q) ns) \<union> {t1, t2}"
    "sv_id t1 = mv_sourceTombstoneId q" "sv_id t2 = mv_destinationTombstoneId q" "sv_eventType t1 = ''messages:moved''" "sv_eventType t2 = ''messages:moved''"
proof -
  let ?W = "mv_workspaceId q" and ?so = "mv_sourceStreamId q" and ?de = "mv_destinationStreamId q"
  obtain db1 ns where g: "getNextSequencePairs ev ?W ?de (int (length (movable_events ev q))) = (db1, ns)" by fastforce
  let ?src = "tombstone q (mv_sourceTombstoneId q) ?so
     (JObj (tombstone_fields q @ [(''vacatedBroadcastSequences'', JArr (map JStr (vacatedBroadcastSequences (movable_events ev q))))]))"
  let ?dst = "tombstone q (mv_destinationTombstoneId q) ?de (JObj (tombstone_fields q))"
  obtain db2 es db3 es' db4 e4 e5 where steps:
    "moveMessageCreatedEvents ?W ?so ?de (updates_for True (zip (movable_events ev q) ns)) (moved_from q) db1 = Inr (db2, es)"
    "moveEventsById ?W ?so ?de (updates_for False (zip (movable_events ev q) ns)) db2 = Inr (db3, es')"
    "event_insert (mv_movedAt q) ?src db3 = Inr (db4, e4)" "event_insert (mv_movedAt q) ?dst db4 = Inr (ev', e5)"
    using m g by (auto simp: move_messages_def Let_def split: if_splits sum.splits prod.splits)
  have len: "length (movable_events ev q) = length (movable_rows ev q)" by (simp add: movable_events_rows)
  note gs = getNextSequencePairs_spec [OF g [unfolded len]]
  have l: "length ns = length (movable_rows ev q)" by (simp add: gs(1))
  note rel = relocation [OF log_unique [OF ok] ne gs(2) l steps(1,2)]
  have ins: "\<exists>t. set (stream_events d') = insert t (set (stream_events d)) \<and> sv_id t = ie_id p \<and> sv_eventType t = ie_eventType p"
    if "event_insert now p d = Inr (d', e)" for now p d d' e
  proof -
    obtain d1 s b where a: "allocateSequences d (ie_workspaceId p) (ie_streamId p) 1 (if isTimelineBroadcastEventType (ie_eventType p) then 1 else 0) = (d1, s, b)"
      by (metis prod_cases3)
    then show ?thesis using that add_events_rows allocateSequences_spec(3) [OF a]
      by (fastforce simp: event_insert_def Let_def map_sum_def split: sum.splits)
  qed
  obtain t1 where t1: "set (stream_events db4) = insert t1 (set (stream_events db3))" "sv_id t1 = mv_sourceTombstoneId q" "sv_eventType t1 = ''messages:moved''"
    using ins [OF steps(3)] by (auto simp: tombstone_def)
  obtain t2 where t2: "set (stream_events ev') = insert t2 (set (stream_events db4))" "sv_id t2 = mv_destinationTombstoneId q" "sv_eventType t2 = ''messages:moved''"
    using ins [OF steps(4)] by (auto simp: tombstone_def)
  have "\<forall>n\<in>set ns. nextS ev ?W ?de \<le> fst n" by (auto simp: gs(1))
  moreover have "set (stream_events ev') = (set (stream_events ev) - snd ` set (movable_rows ev q)) \<union> set (map2 (relocated q) (movable_rows ev q) ns) \<union> {t1, t2}"
    using rel t1(1) t2(1) by auto
  ultimately show ?thesis by (intro that [of ns t1 t2]) (use l t1 t2 in simp_all)
qed

lemma json_text_put: "k \<noteq> k' \<Longrightarrow> json_text k (put_field k' v j) = json_text k j"
  by (cases j) (simp_all add: update_conv)

lemma relocated_message: "message_id_of (relocated q x n) = message_id_of (snd x)" "is_message (relocated q x n) = is_message (snd x)"
  by (simp_all add: message_id_of_def is_message_def relocated_def Let_def json_text_put)

lemma zip_unique: "distinct xs \<Longrightarrow> (x, n) \<in> set (zip xs ns) \<Longrightarrow> (x, n') \<in> set (zip xs ns) \<Longrightarrow> n = n'"
  by (auto simp: in_set_zip nth_eq_iff_index_eq)

lemma distinct_movable_rows:
  assumes "events_unique (stream_events ev)"
  shows "distinct (movable_rows ev q)"
proof -
  have "distinct (movable_sessions ev q)" using distinct_movable(2) [OF assms] by (simp add: distinct_map)
  then have "distinct (map (Pair True) (movable_messages ev q) @ map (Pair False) (movable_sessions ev q))"
    using distinct_movable(1) [OF assms] by (auto simp: distinct_map inj_on_def)
  then show ?thesis using mset_eq_imp_distinct_iff [OF mset_movable_rows] by blast
qed

lemma movable_is_message: "x \<in> set (movable_rows ev q) \<Longrightarrow> is_message (snd x) \<longleftrightarrow> fst x"
  by (auto simp: set_movable_rows in_movable_messages in_movable_sessions is_message_def AGENT_SESSION_EVENT_TYPES_def)

lemma move_log_ok:
  assumes ok: "log_ok ev" and ne: "mv_sourceStreamId q \<noteq> mv_destinationStreamId q" and m: "move_messages q ev = Inr ev'"
    and ids: "mv_sourceTombstoneId q \<noteq> []" "mv_destinationTombstoneId q \<noteq> []"
  shows "log_ok ev'"
proof -
  let ?xs = "movable_rows ev q"
  obtain ns t1 t2 where mv: "length ns = length ?xs"
    "set (stream_events ev') = (set (stream_events ev) - snd ` set ?xs) \<union> set (map2 (relocated q) ?xs ns) \<union> {t1, t2}"
    "sv_id t1 = mv_sourceTombstoneId q" "sv_id t2 = mv_destinationTombstoneId q" "sv_eventType t1 = ''messages:moved''" "sv_eventType t2 = ''messages:moved''"
    by (rule move_rows [OF ok ne m])
  have X: "snd x \<in> set (stream_events ev)" if "x \<in> set ?xs" for x
    using that by (auto simp: set_movable_rows in_movable_messages in_movable_sessions)
  have u: "events_unique (stream_events ev)" by (rule log_unique [OF ok])
  have mu: "messages_unique ev" using ok by (simp add: log_ok_def)
  have src: "r \<in> set (stream_events ev) - snd ` set ?xs \<or> (\<exists>x n. (x, n) \<in> set (zip ?xs ns) \<and> r = relocated q x n)" if "r \<in> set (stream_events ev')" "is_message r" for r
  proof -
    have "r \<noteq> t1" "r \<noteq> t2" using that(2) mv(5,6) by (auto simp: is_message_def)
    then have "r \<in> set (stream_events ev) - snd ` set ?xs \<or> r \<in> set (map2 (relocated q) ?xs ns)" using that(1) mv(2) by blast
    moreover have "\<exists>x n. (x, n) \<in> set (zip ?xs ns) \<and> r = relocated q x n" if "r \<in> set (map2 (relocated q) ?xs ns)" using that by auto
    ultimately show ?thesis by blast
  qed
  have "messages_unique ev'"
    unfolding messages_unique_def
  proof (intro ballI impI)
    fix r p assume rp: "r \<in> set (stream_events ev')" "p \<in> set (stream_events ev')" "sv_workspaceId r = sv_workspaceId p" "is_message r" "is_message p"
      "message_id_of r \<noteq> None" "message_id_of r = message_id_of p"
    have same: "a = b" if "a \<in> set (stream_events ev)" "b \<in> set (stream_events ev)" "sv_workspaceId a = sv_workspaceId b" "is_message a" "is_message b"
      "message_id_of a \<noteq> None" "message_id_of a = message_id_of b" for a b using mu that unfolding messages_unique_def by blast
    have kept: False if k: "a \<in> set (stream_events ev) - snd ` set ?xs" "(x, n) \<in> set (zip ?xs ns)" "sv_workspaceId a = sv_workspaceId (snd x)" "is_message a"
      "is_message (snd x)" "message_id_of a \<noteq> None" "message_id_of a = message_id_of (snd x)" for a x n
    proof -
      have "x \<in> set ?xs" using k(2) by (rule set_zip_leftD)
      then have "a = snd x" using same k X by blast
      then show False using k(1) \<open>x \<in> set ?xs\<close> by blast
    qed
    consider "r \<in> set (stream_events ev) - snd ` set ?xs" "p \<in> set (stream_events ev) - snd ` set ?xs"
      | x n where "r \<in> set (stream_events ev) - snd ` set ?xs" "(x, n) \<in> set (zip ?xs ns)" "p = relocated q x n"
      | x n where "p \<in> set (stream_events ev) - snd ` set ?xs" "(x, n) \<in> set (zip ?xs ns)" "r = relocated q x n"
      | x n y k where "(x, n) \<in> set (zip ?xs ns)" "r = relocated q x n" "(y, k) \<in> set (zip ?xs ns)" "p = relocated q y k"
      using src [OF rp(1,4)] src [OF rp(2,5)] by blast
    then show "r = p"
    proof cases
      case 1 then show ?thesis using same rp by blast
    next
      case 2
      have False by (rule kept [OF 2(1,2)]) (use rp 2(3) in \<open>auto simp: relocated_message\<close>)
      then show ?thesis by simp
    next
      case 3
      have False by (rule kept [OF 3(1,2)]) (use rp 3(3) in \<open>auto simp: relocated_message\<close>)
      then show ?thesis by simp
    next
      case 4
      have in_xs: "x \<in> set ?xs" "y \<in> set ?xs" using 4 by (auto dest: set_zip_leftD)
      have sxy: "snd x = snd y" using rp 4 by (intro same) (simp_all add: relocated_message X in_xs)
      have "is_message (snd x) \<longleftrightarrow> fst x" "is_message (snd y) \<longleftrightarrow> fst y" using in_xs movable_is_message by blast+
      then have xy: "x = y" using sxy by (simp add: prod_eq_iff)
      have "n = k" by (rule zip_unique [OF distinct_movable_rows [OF u] 4(1)]) (use 4(3) xy in simp)
      then show ?thesis using 4(2,4) xy by simp
    qed
  qed
  moreover have "\<forall>e\<in>set (stream_events ev'). sv_id e \<noteq> []"
  proof
    fix e assume "e \<in> set (stream_events ev')"
    then consider "e \<in> set (stream_events ev)" | x n where "(x, n) \<in> set (zip ?xs ns)" "e = relocated q x n" | "e = t1" | "e = t2"
      using mv(2) by auto
    then show "sv_id e \<noteq> []"
    proof cases
      case 2
      then show ?thesis using ok X set_zip_leftD [OF 2(1)] by (simp add: log_ok_def)
    qed (use ok ids mv(3,4) in \<open>simp_all add: log_ok_def\<close>)
  qed
  moreover have "chains_dense ev'" using move_keeps_chains [OF _ ne m] ok by (simp add: log_ok_def)
  ultimately show ?thesis by (simp add: log_ok_def)
qed

text \<open>The pointers after a move: those at moved events go back to what is left before them.\<close>

definition moved_events :: "EventDb \<Rightarrow> MoveRequest \<Rightarrow> (string \<times> int) list" where
  "moved_events ev q = map (\<lambda>(m, e). (sw_id e, sw_sequence e)) (movable_events ev q)"

lemma moved_events_rows: "moved_events ev q = map (\<lambda>x. (sv_id (snd x), sv_sequence (snd x))) (movable_rows ev q)"
  by (simp add: moved_events_def movable_events_rows case_prod_beta)

lemma repoint_facts:
  "rd_events (repointForMovedEvents now ws source moved db) = rd_events db" "rd_reads (repointForMovedEvents now ws source moved db) = rd_reads db"
  "map state_key (rd_states (repointForMovedEvents now ws source moved db)) = map state_key (rd_states db)"
  "pointer (repointForMovedEvents now ws source moved db) ws' st' user' =
    (if ws' = ws \<and> st' = source \<and> pointer db ws' st' user' \<in> Some ` fst ` set moved
     then prior_event db ws source (the (map_of moved (the (pointer db ws' st' user')))) else pointer db ws' st' user')"
proof -
  let ?p = "\<lambda>pt :: StreamReadStateRow \<Rightarrow> string option. \<lambda>r. rr_workspaceId r = ws \<and> rr_streamId r = source \<and> pt r \<in> Some ` fst ` set moved"
  let ?e = "\<lambda>x. prior_event db ws source (the (map_of moved (the x)))"
  let ?f1 = "\<lambda>r. r\<lparr>rr_lastReadEventId := ?e (rr_lastReadEventId r), rr_updatedAt := now\<rparr>"
  let ?f2 = "\<lambda>r. r\<lparr>rr_inboxFloorEventId := ?e (rr_inboxFloorEventId r), rr_updatedAt := now\<rparr>"
  have d: "rd_states (repointForMovedEvents now ws source moved db) =
      sql_update (?p rr_inboxFloorEventId) ?f2 (sql_update (?p rr_lastReadEventId) ?f1 (rd_states db))"
    by (simp add: repointForMovedEvents_def Let_def)
  show "rd_events (repointForMovedEvents now ws source moved db) = rd_events db" "rd_reads (repointForMovedEvents now ws source moved db) = rd_reads db"
    by (simp_all add: repointForMovedEvents_def Let_def)
  show "map state_key (rd_states (repointForMovedEvents now ws source moved db)) = map state_key (rd_states db)"
    unfolding d by (simp add: sql_update_key state_key_def)
  have f: "find (state_of ws' st' user') (rd_states (repointForMovedEvents now ws source moved db)) =
    map_option (\<lambda>r. if ?p rr_inboxFloorEventId r then ?f2 r else r) (map_option (\<lambda>r. if ?p rr_lastReadEventId r then ?f1 r else r)
      (find (state_of ws' st' user') (rd_states db)))"
    unfolding d by (subst find_row_update, simp add: state_of_def, subst find_row_update, simp add: state_of_def, simp)
  show "pointer (repointForMovedEvents now ws source moved db) ws' st' user' =
    (if ws' = ws \<and> st' = source \<and> pointer db ws' st' user' \<in> Some ` fst ` set moved
     then ?e (pointer db ws' st' user') else pointer db ws' st' user')"
  proof (cases "find (state_of ws' st' user') (rd_states db)")
    case None
    then show ?thesis by (auto simp: pointer_def f)
  next
    case (Some r)
    then have k: "rr_workspaceId r = ws'" "rr_streamId r = st'" using find_SomeD [OF Some] by (simp_all add: state_of_def)
    have o: "pointer db ws' st' user' = rr_lastReadEventId r" using Some by (simp add: pointer_def)
    have n: "pointer (repointForMovedEvents now ws source moved db) ws' st' user' = rr_lastReadEventId (if ?p rr_lastReadEventId r then ?f1 r else r)"
      unfolding pointer_def f Some by simp
    show ?thesis by (simp only: n o) (simp add: k)
  qed
qed

lemma prior_event_Some:
  assumes "prior_event db ws st s = Some i"
  shows "\<exists>e\<in>set (stream_events (rd_events db)). of_stream ws st e \<and> sv_id e = i \<and> sv_sequence e < s"
proof -
  let ?l = "filter (\<lambda>e. of_stream ws st e \<and> sv_sequence e < s) (stream_events (rd_events db))"
  obtain e rest where "newest 1 ?l = e # rest" "i = sv_id e" using assms by (auto simp: prior_event_def split: list.splits)
  moreover from this have "e \<in> set ?l" using set_newest [of 1 ?l] by auto
  ultimately show ?thesis by auto
qed

lemma stream_below_next:
  assumes "log_ok ev" "e \<in> set (stream_events ev)" "of_stream ws st e"
  shows "sv_sequence e < nextS ev ws st"
proof -
  have "e \<in> stream_rows ev ws st" using assms(2,3) by (simp add: stream_rows_def)
  then have "numbered_row (nextS ev ws st) (nextB ev ws st) e" using assms(1) by (simp add: log_ok_def chains_dense_def chain_def)
  then show ?thesis by (simp add: numbered_row_def)
qed

lemma next_positive: "log_ok ev \<Longrightarrow> 1 \<le> nextS ev ws st"
  by (simp add: log_ok_def chains_dense_def chain_def)

text \<open>The move, the rehoming of the overlay and the repointing of the watermarks, as one transaction runs them.\<close>

definition move_with_reads :: "timestamp \<Rightarrow> MoveRequest \<Rightarrow> ReadDb \<Rightarrow> move_error + ReadDb" where
  "move_with_reads now q db =
    (case move_messages q (rd_events db) of
       Inl e \<Rightarrow> Inl e
     | Inr ev \<Rightarrow>
       (case rehomeReads (mv_workspaceId q) (mv_sourceStreamId q) (mv_destinationStreamId q) (mv_messageIds q) (db\<lparr>rd_events := ev\<rparr>) of
          Inl e \<Rightarrow> Inl (Move_raised e)
        | Inr db1 \<Rightarrow> Inr (repointForMovedEvents now (mv_workspaceId q) (mv_sourceStreamId q) (moved_events (rd_events db) q) db1)))"

lemma move_pointers:
  assumes ok: "read_ok db" and lok': "log_ok ev'" and d: "rd_events db1 = ev'" "rd_states db1 = rd_states db"
    and kept: "set (stream_events (rd_events db)) - snd ` set (movable_rows (rd_events db) q) \<subseteq> set (stream_events ev')"
    and db': "db' = repointForMovedEvents now (mv_workspaceId q) (mv_sourceStreamId q) (moved_events (rd_events db) q) db1"
  shows "pointers_ok db'" "watermark db' ws st user \<le> watermark db ws st user"
proof -
  let ?W = "mv_workspaceId q" and ?so = "mv_sourceStreamId q" and ?ev = "rd_events db" and ?mv = "moved_events (rd_events db) q"
  have lok: "log_ok ?ev" using ok by (simp add: read_ok_def)
  note u = log_unique [OF lok]
  have p1: "pointer db1 ws st user = pointer db ws st user" for ws st user by (simp add: pointer_def d(2))
  note rp = repoint_facts(4) [of now ?W ?so ?mv db1, folded db', unfolded p1]
  have e': "rd_events db' = ev'" by (simp add: db' repoint_facts d)
  have main: "(\<forall>i. pointer db' ws st user = Some i \<longrightarrow> (\<exists>e\<in>set (stream_events ev'). of_stream ws st e \<and> sv_id e = i)) \<and>
      watermark db' ws st user \<le> watermark db ws st user" for ws st user
  proof (cases "pointer db ws st user")
    case None
    then have "pointer db' ws st user = None" by (auto simp: rp)
    then show ?thesis using None by (simp add: watermark_def sequence_or_zero_def)
  next
    case (Some i)
    then obtain e where e: "e \<in> set (stream_events ?ev)" "of_stream ws st e" "sv_id e = i"
      using ok unfolding read_ok_def pointers_ok_def by blast
    have w: "watermark db ws st user = sv_sequence e" using sequence_of_event [OF u e(1)] e Some by (simp add: watermark_def of_stream_def)
    show ?thesis
    proof (cases "ws = ?W \<and> st = ?so \<and> Some i \<in> Some ` fst ` set ?mv")
      case True
      then have p: "pointer db' ws st user = prior_event db1 ?W ?so (the (map_of ?mv i))" using Some by (simp add: rp)
      have "i \<in> fst ` set ?mv" using True by auto
      then obtain s where s: "map_of ?mv i = Some s" by (metis map_of_eq_None_iff not_Some_eq)
      then have "(i, s) \<in> set ?mv" by (rule map_of_SomeD)
      then obtain x where x: "x \<in> set (movable_rows ?ev q)" "i = sv_id (snd x)" "s = sv_sequence (snd x)" by (auto simp: moved_events_rows)
      have "snd x \<in> stream_rows ?ev ?W ?so" using x(1) by (intro movable_of_source) blast
      then have "snd x = e" using e x(2) True by (intro events_unique_rows(1) [OF u]) (auto simp: stream_rows_def of_stream_def)
      then have sw: "s = watermark db ws st user" using x(3) w by simp
      show ?thesis
      proof (cases "prior_event db1 ?W ?so s")
        case None
        then have "watermark db' ws st user = 0" using p s by (simp add: watermark_def sequence_or_zero_def)
        then show ?thesis using None p s sequence_or_zero_nonneg [OF lok] by (simp add: watermark_def)
      next
        case (Some j)
        then obtain a where a: "a \<in> set (stream_events ev')" "of_stream ?W ?so a" "sv_id a = j" "sv_sequence a < s"
          using prior_event_Some d(1) by blast
        then have "watermark db' ws st user = sv_sequence a"
          using sequence_of_event [OF log_unique [OF lok'] a(1)] Some p s True by (simp add: watermark_def e' of_stream_def)
        then show ?thesis using Some p s a sw True by auto
      qed
    next
      case False
      then have p: "pointer db' ws st user = Some i" using Some by (auto simp: rp)
      have "e \<notin> snd ` set (movable_rows ?ev q)"
      proof
        assume "e \<in> snd ` set (movable_rows ?ev q)"
        then obtain x where x: "x \<in> set (movable_rows ?ev q)" "e = snd x" by blast
        then have "snd x \<in> stream_rows ?ev ?W ?so" by (intro movable_of_source) blast
        then have "ws = ?W" "st = ?so" using e(2) x(2) by (auto simp: stream_rows_def of_stream_def)
        moreover have "i \<in> fst ` set ?mv" using x e(3) by (force simp: moved_events_rows)
        ultimately show False using False by blast
      qed
      then have in': "e \<in> set (stream_events ev')" using kept e(1) by blast
      then have "watermark db' ws st user = sv_sequence e"
        using sequence_of_event [OF log_unique [OF lok'] in'] p e by (simp add: watermark_def e' of_stream_def)
      then show ?thesis using p in' e w by auto
    qed
  qed
  show "pointers_ok db'" using main by (simp add: pointers_ok_def e')
  show "watermark db' ws st user \<le> watermark db ws st user" using main by blast
qed

lemma move_with_reads_ok:
  assumes ok: "read_ok db" and ne: "mv_sourceStreamId q \<noteq> mv_destinationStreamId q"
    and ids: "mv_sourceTombstoneId q \<noteq> []" "mv_destinationTombstoneId q \<noteq> []" and m: "move_with_reads now q db = Inr db'"
  shows "read_ok db'"
proof -
  let ?W = "mv_workspaceId q" and ?so = "mv_sourceStreamId q" and ?de = "mv_destinationStreamId q" and ?ev = "rd_events db" and ?xs = "movable_rows (rd_events db) q"
  obtain ev' db1 where m1: "move_messages q ?ev = Inr ev'" and m2: "rehomeReads ?W ?so ?de (mv_messageIds q) (db\<lparr>rd_events := ev'\<rparr>) = Inr db1"
    and m3: "db' = repointForMovedEvents now ?W ?so (moved_events ?ev q) db1"
    using m by (auto simp: move_with_reads_def split: sum.splits)
  have lok: "log_ok ?ev" using ok by (simp add: read_ok_def)
  have lok': "log_ok ev'" by (rule move_log_ok [OF lok ne m1 ids])
  obtain ns t1 t2 where mv: "length ns = length ?xs" "\<forall>n\<in>set ns. nextS ?ev ?W ?de \<le> fst n"
    "set (stream_events ev') = (set (stream_events ?ev) - snd ` set ?xs) \<union> set (map2 (relocated q) ?xs ns) \<union> {t1, t2}"
    by (rule move_rows [OF lok ne m1])
  let ?event = "\<lambda>r. find (\<lambda>e. message_id_of e = Some (mr_messageId r)) (message_rows ev' ?W ?de)"
  let ?p = "\<lambda>r. mr_workspaceId r = ?W \<and> mr_streamId r = ?so \<and> mr_messageId r \<in> set (mv_messageIds q) \<and> ?event r \<noteq> None"
  let ?f = "\<lambda>r. r\<lparr>mr_streamId := ?de, mr_eventId := sv_id (the (?event r)), mr_sequence := sv_sequence (the (?event r))\<rparr>"
  have d: "rd_events db1 = ev'" "rd_states db1 = rd_states db" "rd_reads db1 = sql_update ?p ?f (rd_reads db)" "reads_unique (rd_reads db1)"
  proof -
    have un: "reads_unique (rd_reads db)" using ok by (simp add: read_ok_def overlay_ok_def)
    show "rd_events db1 = ev'" "rd_states db1 = rd_states db" using m2 by (auto simp: rehomeReads_def Let_def split: if_splits)
    show "rd_reads db1 = sql_update ?p ?f (rd_reads db)"
    proof (cases "mv_messageIds q = []")
      case True
      then show ?thesis using m2 by (auto simp: rehomeReads_def sql_update_none)
    next
      case False
      then show ?thesis using m2 by (auto simp: rehomeReads_def Let_def split: if_splits)
    qed
    show "reads_unique (rd_reads db1)" using m2 un by (auto simp: rehomeReads_def Let_def split: if_splits)
  qed
  note ptr = move_pointers [OF ok lok' d(1,2) _ m3]
  have sub: "set (stream_events ?ev) - snd ` set ?xs \<subseteq> set (stream_events ev')" using mv(3) by blast
  have dest_wm: "watermark db ?W ?de user < nextS ?ev ?W ?de" for user
  proof (cases "pointer db ?W ?de user")
    case None
    then show ?thesis using next_positive [OF lok, of ?W ?de] by (simp add: watermark_def sequence_or_zero_def)
  next
    case (Some i)
    have pt: "points_to db ?W ?de (Some i) (watermark db ?W ?de user)" using ok pointer_points [of db ?W ?de user] Some by (simp add: read_ok_def)
    then obtain e where e: "e \<in> set (stream_events ?ev)" "of_stream ?W ?de e" "sv_sequence e = watermark db ?W ?de user" by (auto simp: points_to_def)
    show ?thesis using stream_below_next [OF lok e(1,2)] e(3) by simp
  qed
  have rows: "(\<exists>e\<in>set (stream_events ev'). read_of r' e) \<and> watermark db' (mr_workspaceId r') (mr_streamId r') (mr_memberId r') < mr_sequence r'"
    if r': "r' \<in> set (rd_reads db1)" for r'
  proof -
    obtain r where r: "r \<in> set (rd_reads db)" "r' = (if ?p r then ?f r else r)" using r' by (auto simp: d(3) set_sql_update)
    obtain e where e: "e \<in> set (stream_events ?ev)" "read_of r e" using ok r(1) by (auto simp: read_ok_def overlay_ok_def)
    have above: "watermark db (mr_workspaceId r) (mr_streamId r) (mr_memberId r) < mr_sequence r" using ok r(1) by (simp add: read_ok_def overlay_above_def)
    show ?thesis
    proof (cases "e \<in> snd ` set ?xs")
      case True
      then obtain x where x: "x \<in> set ?xs" "e = snd x" by blast
      have "fst x" using movable_is_message [OF x(1)] e(2) x(2) by (simp add: read_of_def)
      then have "e \<in> set (movable_messages ?ev q)" using x by (auto simp: set_movable_rows)
      then have k: "mr_workspaceId r = ?W" "mr_streamId r = ?so" "mr_messageId r \<in> set (mv_messageIds q)"
        using e(2) by (auto simp: in_movable_messages read_of_def of_stream_def)
      obtain n where n: "(x, n) \<in> set (zip ?xs ns)" using x(1) mv(1) by (metis in_set_impl_in_set_zip1)
      let ?e' = "relocated q x n"
      have e': "?e' \<in> set (stream_events ev')" using mv(3) n by force
      have "sv_workspaceId e = ?W" using e(2) k(1) by (simp add: read_of_def of_stream_def)
      then have e'm: "?e' \<in> set (message_rows ev' ?W ?de)" "message_id_of ?e' = Some (mr_messageId r)" "is_message ?e'"
        using e' e(2) x(2) by (simp_all add: set_message_rows of_stream_def relocated_message read_of_def)
      then have "?event r \<noteq> None" unfolding find_None_iff by blast
      then obtain a where a: "?event r = Some a" by blast
      then have "a \<in> set (message_rows ev' ?W ?de)" "message_id_of a = Some (mr_messageId r)"
        by (auto simp: find_Some_iff)
      note am = this
      have mu: "messages_unique ev'" using lok' by (simp add: log_ok_def)
      have "a = ?e'"
        by (rule mu [unfolded messages_unique_def, rule_format]) (use am e'm in \<open>simp_all add: set_message_rows of_stream_def\<close>)
      then have r2: "r' = r\<lparr>mr_streamId := ?de, mr_eventId := sv_id e, mr_sequence := fst n\<rparr>" using r(2) k a x(2) by simp
      have "read_of r' ?e'" using e'm k x(2) by (simp add: r2 read_of_def set_message_rows)
      moreover have "nextS ?ev ?W ?de \<le> fst n" using mv(2) n by (auto dest: set_zip_rightD)
      then have "watermark db' ?W ?de (mr_memberId r) < fst n" using ptr(2) [OF sub, of ?W ?de "mr_memberId r"] dest_wm [of "mr_memberId r"] by linarith
      ultimately show ?thesis using e' k by (auto simp: r2)
    next
      case False
      have np: "\<not> ?p r"
      proof
        assume p: "?p r"
        then have "e \<in> set (movable_messages ?ev q)" using e by (auto simp: in_movable_messages read_of_def of_stream_def)
        then have "(True, e) \<in> set ?xs" by (simp add: set_movable_rows)
        then show False using False by force
      qed
      have r2: "r' = r" using r(2) unfolding if_not_P [OF np] .
      have "e \<in> set (stream_events ev')" using sub e(1) False by blast
      moreover have "watermark db' (mr_workspaceId r) (mr_streamId r) (mr_memberId r) < mr_sequence r"
        using ptr(2) [OF sub, of "mr_workspaceId r" "mr_streamId r" "mr_memberId r"] above by linarith
      ultimately show ?thesis using e(2) r2 by auto
    qed
  qed
  have f: "rd_events db' = ev'" "rd_reads db' = rd_reads db1" "map state_key (rd_states db') = map state_key (rd_states db)"
    by (simp_all add: m3 repoint_facts d)
  show ?thesis
    unfolding read_ok_def
  proof (intro conjI)
    show "log_ok (rd_events db')" using lok' f by simp
    show "distinct (map state_key (rd_states db'))" using ok by (simp only: f read_ok_def)
    show "pointers_ok db'" by (rule ptr(1) [OF sub])
    show "overlay_ok db'" using rows d(4) by (simp add: overlay_ok_def f)
    show "overlay_above db'" using rows by (simp add: overlay_above_def f)
  qed
qed

section \<open>Everything that happens to the read state\<close>

text \<open>
  Message ids are fresh, so that no insert makes a message occur twice.  A send is two steps: its event, and the
  author's read of it, here only when the author has nothing in the overlay that it would pass over.
\<close>

inductive read_step :: "ReadDb \<Rightarrow> ReadDb \<Rightarrow> bool" where
  event: "event_insert now p (rd_events db) = Inr (ev', e) \<Longrightarrow> ie_eventType p \<noteq> ''messages:moved'' \<Longrightarrow> ie_id p \<noteq> [] \<Longrightarrow> messages_unique ev' \<Longrightarrow>
    read_step db (db\<lparr>rd_events := ev'\<rparr>)"
| events: "event_insertMany now ps (rd_events db) = Inr (ev', es) \<Longrightarrow> \<forall>p\<in>set ps. ie_eventType p \<noteq> ''messages:moved'' \<and> ie_id p \<noteq> [] \<Longrightarrow>
    messages_unique ev' \<Longrightarrow> read_step db (db\<lparr>rd_events := ev'\<rparr>)"
| stream: "read_step db (db\<lparr>rd_streams := rd_streams db @ [new]\<rparr>)"
| deletion: "read_step db (db\<lparr>rd_messages := messages\<rparr>)"
| move: "move_with_reads now q db = Inr db' \<Longrightarrow> mv_sourceStreamId q \<noteq> mv_destinationStreamId q \<Longrightarrow> mv_sourceTombstoneId q \<noteq> [] \<Longrightarrow>
    mv_destinationTombstoneId q \<noteq> [] \<Longrightarrow> read_step db db'"
| read: "markAsRead now mode ws st user event db = (db', ans, out) \<Longrightarrow> read_step db db'"
| unread: "markUnread now ws st user messageId db = Some (db', out) \<Longrightarrow> read_step db db'"
| read_some: "applySparseRead now mode ws st user ms db = (db', snap, out) \<Longrightarrow> read_step db db'"
| unread_some: "applySparseUnread now ws st user ms db = (db', snap, out) \<Longrightarrow> read_step db db'"
| read_all: "markAllAsRead now ws user memberships streams db = (db', ids, frontiers, out) \<Longrightarrow> read_step db db'"
| clear: "clearInboxInTransaction now ws user accessible db = (db', cleared, frontiers, out) \<Longrightarrow> read_step db db'"
| own: "points_to db ws st (Some event) s \<Longrightarrow> \<forall>r\<in>set (rd_reads db). overlay_row ws st user r \<longrightarrow> s < mr_sequence r \<Longrightarrow>
    read_own_message now mode ws st user event db = (db', out) \<Longrightarrow> read_step db db'"

definition no_reads :: ReadDb where
  "no_reads = \<lparr>rd_events = no_events, rd_streams = [], rd_messages = [], rd_states = [], rd_reads = []\<rparr>"

lemma event_insert_ids:
  assumes "event_insert now p d = Inr (d', e)"
  shows "set (stream_events d) \<subseteq> set (stream_events d')" "\<forall>r\<in>set (stream_events d') - set (stream_events d). sv_id r = ie_id p"
proof -
  obtain d1 s b where a: "allocateSequences d (ie_workspaceId p) (ie_streamId p) 1 (if isTimelineBroadcastEventType (ie_eventType p) then 1 else 0) = (d1, s, b)"
    by (metis prod_cases3)
  have "\<exists>row. stream_events d' = stream_events d @ [row] \<and> sv_id row = ie_id p"
    using assms a add_events_rows allocateSequences_spec(3) [OF a] by (fastforce simp: event_insert_def Let_def map_sum_def split: sum.splits)
  then show "set (stream_events d) \<subseteq> set (stream_events d')" "\<forall>r\<in>set (stream_events d') - set (stream_events d). sv_id r = ie_id p" by auto
qed

lemma number_events_ids: "r \<in> set (number_events now s b ps) \<Longrightarrow> \<exists>p\<in>set ps. sv_id r = ie_id p"
  by (induction ps arbitrary: s b) (auto simp: Let_def)

lemma event_insertMany_ids:
  assumes "event_insertMany now ps d = Inr (d', es)"
  shows "set (stream_events d) \<subseteq> set (stream_events d')" "\<forall>r\<in>set (stream_events d') - set (stream_events d). \<exists>p\<in>set ps. sv_id r = ie_id p"
proof -
  have "d' = d \<or> (\<exists>s b. stream_events d' = stream_events d @ number_events now s b ps)"
  proof (cases ps)
    case Nil
    then show ?thesis using assms by (simp add: event_insertMany_def)
  next
    case (Cons q qs)
    let ?n = "int (length (filter (\<lambda>p. isTimelineBroadcastEventType (ie_eventType p)) ps))"
    obtain d1 s b where a: "allocateSequences d (ie_workspaceId q) (ie_streamId q) (int (length ps)) ?n = (d1, s, b)" by (metis prod_cases3)
    have "add_events (number_events now s b ps) d1 = Inr (d', es)" using assms a Cons by (auto simp: event_insertMany_def split: if_splits)
    then show ?thesis using add_events_rows allocateSequences_spec(3) [OF a] by metis
  qed
  then show "set (stream_events d) \<subseteq> set (stream_events d')" "\<forall>r\<in>set (stream_events d') - set (stream_events d). \<exists>p\<in>set ps. sv_id r = ie_id p"
    by (auto dest: number_events_ids)
qed

lemma log_grows:
  assumes "read_ok db" "chains_dense ev'" "messages_unique ev'" "set (stream_events (rd_events db)) \<subseteq> set (stream_events ev')"
    "\<forall>r\<in>set (stream_events ev') - set (stream_events (rd_events db)). sv_id r \<noteq> []"
  shows "read_ok (db\<lparr>rd_events := ev'\<rparr>)"
proof (rule log_grows_ok [OF assms(1) _ assms(4)])
  show "log_ok ev'" using assms unfolding log_ok_def read_ok_def by blast
qed

lemma read_own_message_ok:
  assumes ok: "read_ok db" and p: "points_to db ws st (Some event) s" and o: "\<forall>r\<in>set (rd_reads db). overlay_row ws st user r \<longrightarrow> s < mr_sequence r"
    and m: "read_own_message now mode ws st user event db = (db', out)"
  shows "read_ok db'"
proof -
  have a: "read_ok (fst (read_state_advance now ws st user event h db))" for h
    using advance_ok [OF ok p, of user "\<lambda>r. False" now h] o by (simp add: delete_none)
  show ?thesis
  proof (cases "resolveInboxClearMode mode = ''interaction''")
    case True
    let ?d = "fst (read_state_advance now ws st user event False db)"
    obtain d2 c out' where r: "releaseInboxHold now ws user [st] ?d = (d2, c, out')" by (metis prod_cases3)
    then have "db' = d2" using m True by (simp add: read_own_message_def case_prod_beta)
    then show ?thesis using release_ok [OF a r] by simp
  next
    case False
    then show ?thesis using m a by (auto simp: read_own_message_def case_prod_beta)
  qed
qed

lemma read_step_ok: "read_step db db' \<Longrightarrow> read_ok db \<Longrightarrow> read_ok db'"
proof (induction rule: read_step.induct)
  case (event now p db ev' e)
  then have "chains_dense ev'" by (intro event_insert_keeps_chains [OF _ event(2) event(1)]) (simp add: read_ok_def log_ok_def)
  then show ?case using event event_insert_ids [OF event(1)] by (intro log_grows) auto
next
  case (events now ps db ev' es)
  then have "chains_dense ev'" by (intro event_insertMany_keeps_chains [OF _ _ events(1)]) (auto simp: read_ok_def log_ok_def)
  then show ?case using events event_insertMany_ids [OF events(1)] by (intro log_grows) (blast | metis)+
next
  case (stream db new)
  then show ?case by (simp add: read_ok_def pointers_ok_def overlay_ok_def overlay_above_def pointer_def watermark_def)
next
  case (deletion db messages)
  then show ?case by (simp add: read_ok_def pointers_ok_def overlay_ok_def overlay_above_def pointer_def watermark_def)
next
  case (read_all now ws user memberships streams db db' ids frontiers out)
  then show ?case using advanceStreamsToLatest_ok by (simp add: markAllAsRead_def)
qed (blast intro: move_with_reads_ok markAsRead_ok markUnread_ok applySparseRead_ok applySparseUnread_ok clearInbox_ok read_own_message_ok)+

lemma reachable_read_ok: "read_step\<^sup>*\<^sup>* no_reads db \<Longrightarrow> read_ok db"
proof (induction rule: rtranclp_induct)
  case base
  show ?case using chains_dense_empty
    by (simp add: no_reads_def read_ok_def log_ok_def no_events_def messages_unique_def pointers_ok_def pointer_def overlay_ok_def reads_unique_def overlay_above_def)
qed (rule read_step_ok)

lemma effective_pointer:
  assumes "distinct (map state_key (rd_states db))"
  shows "map_option ef_lastReadEventId (map_of (getEffectiveReadState db ws user [st]) st) = Some (pointer db ws st user)"
proof -
  let ?p = "\<lambda>r. rr_workspaceId r = ws \<and> rr_userId r = user \<and> rr_streamId r \<in> set [st]"
  have f: "filter ?p rows = (case find (state_of ws st user) rows of None \<Rightarrow> [] | Some r \<Rightarrow> [r])" if "distinct (map state_key rows)" for rows
    using that
  proof (induction rows)
    case (Cons r rows)
    have "filter ?p rows = []" if "state_of ws st user r"
      using that Cons.prems by (auto simp: filter_empty_conv state_of_def state_key_def image_iff)
    then show ?case using Cons by (auto simp: state_of_def)
  qed simp
  have "getBatch db ws user [st] = (case find (state_of ws st user) (rd_states db) of None \<Rightarrow> [] | Some r \<Rightarrow> [mapRowToReadState r])"
    unfolding getBatch_def f [OF assms] by (simp split: option.splits)
  then show ?thesis
    by (auto simp: getEffectiveReadState_def pointer_def mapRowToReadState_def state_of_def dest: find_SomeD split: option.splits)
qed


text \<open>Three messages of somebody else, of which the user reads the second on its own.\<close>

definition example_post :: "string \<Rightarrow> string \<Rightarrow> string \<Rightarrow> ReadDb \<Rightarrow> ReadDb" where
  "example_post author i m db = (case event_insert 1 ((example_message i m)\<lparr>ie_actorId := Some author\<rparr>) (rd_events db) of
     Inr (ev, e) \<Rightarrow> db\<lparr>rd_events := ev\<rparr> | Inl e \<Rightarrow> no_reads)"

definition example_posts :: ReadDb where
  "example_posts = example_post ''v'' ''e3'' ''m3'' (example_post ''v'' ''e2'' ''m2'' (example_post ''v'' ''e1'' ''m1'' (no_reads\<lparr>rd_streams := [(''ws'', ''s'')]\<rparr>)))"

definition example_reads :: ReadDb where
  "example_reads = fst (applySparseRead 2 None ''ws'' ''s'' ''u'' [''m2''] example_posts)"

text \<open>The user answers, which marks their own message read; then another message arrives.\<close>

definition example_sent :: ReadDb where
  "example_sent = example_post ''v'' ''e5'' ''m5'' (fst (read_own_message 3 None ''ws'' ''s'' ''u'' ''e4'' (example_post ''u'' ''e4'' ''m4'' example_reads)))"

lemma example_post_step:
  assumes "\<not> isl (event_insert 1 ((example_message i m)\<lparr>ie_actorId := Some author\<rparr>) (rd_events db))" "i \<noteq> []"
    "messages_unique (rd_events (example_post author i m db))"
  shows "read_step db (example_post author i m db)"
proof -
  obtain ev e where r: "event_insert 1 ((example_message i m)\<lparr>ie_actorId := Some author\<rparr>) (rd_events db) = Inr (ev, e)"
    using assms(1) by (cases "event_insert 1 ((example_message i m)\<lparr>ie_actorId := Some author\<rparr>) (rd_events db)") auto
  have d: "example_post author i m db = db\<lparr>rd_events := ev\<rparr>" unfolding example_post_def r by simp
  have "messages_unique ev" using assms(3) unfolding d by simp
  then show ?thesis
    unfolding d by (intro read_step.event [OF r]) (use assms(2) in \<open>simp_all add: example_message_def\<close>)
qed

lemma example_posts_reachable: "read_step\<^sup>*\<^sup>* no_reads example_posts"
proof -
  let ?d0 = "no_reads\<lparr>rd_streams := [(''ws'', ''s'')]\<rparr>"
  have s0: "read_step no_reads ?d0" using read_step.stream [of no_reads "(''ws'', ''s'')"] by (simp add: no_reads_def)
  have s1: "read_step ?d0 (example_post ''v'' ''e1'' ''m1'' ?d0)"
    by (rule example_post_step) (code_simp, code_simp, unfold messages_unique_def, code_simp)
  have s2: "read_step (example_post ''v'' ''e1'' ''m1'' ?d0) (example_post ''v'' ''e2'' ''m2'' (example_post ''v'' ''e1'' ''m1'' ?d0))"
    by (rule example_post_step) (code_simp, code_simp, unfold messages_unique_def, code_simp)
  have s3: "read_step (example_post ''v'' ''e2'' ''m2'' (example_post ''v'' ''e1'' ''m1'' ?d0)) example_posts"
    unfolding example_posts_def by (rule example_post_step) (code_simp, code_simp, unfold messages_unique_def, code_simp)
  show ?thesis using s0 s1 s2 s3 by (meson rtranclp.rtrancl_into_rtrancl rtranclp.rtrancl_refl)
qed

lemma example_reads_reachable: "read_step\<^sup>*\<^sup>* no_reads example_reads"
proof -
  obtain db snap out where r: "applySparseRead 2 None ''ws'' ''s'' ''u'' [''m2''] example_posts = (db, snap, out)" by (metis prod_cases3)
  then have "read_step example_posts example_reads" using read_step.read_some [OF r] by (simp add: example_reads_def)
  then show ?thesis using example_posts_reachable by (meson rtranclp.rtrancl_into_rtrancl)
qed


lemma sparse_read_reads_only_what_is_marked_witness:
  "read_ok example_posts \<and>
   map sv_id (filter (effectively_read example_reads ''ws'' ''s'' ''u'') (message_rows (rd_events example_posts) ''ws'' ''s'')) = [''e2'']"
proof -
  have ok: "read_ok example_posts" by (rule reachable_read_ok [OF example_posts_reachable])
  obtain db snap out where r: "applySparseRead 2 None ''ws'' ''s'' ''u'' [''m2''] example_posts = (db, snap, out)" by (metis prod_cases3)
  have "(''ws'', ''s'') \<in> set (rd_streams example_posts)" by code_simp
  note t = sparse_read_reads_only_what_is_marked [OF ok this r]
  have d: "db = example_reads" using r by (simp add: example_reads_def)
  have "\<forall>e\<in>set (message_rows (rd_events example_posts) ''ws'' ''s''). not_deleted example_posts e \<and>
      (effectively_read example_posts ''ws'' ''s'' ''u'' e \<or> message_id_of e \<in> Some ` set [''m2''] \<longleftrightarrow> sv_id e = ''e2'')"
    unfolding not_deleted_def by code_simp
  then have "\<forall>e\<in>set (message_rows (rd_events example_posts) ''ws'' ''s''). effectively_read example_reads ''ws'' ''s'' ''u'' e \<longleftrightarrow> sv_id e = ''e2''"
    using t d by blast
  then have "filter (effectively_read example_reads ''ws'' ''s'' ''u'') (message_rows (rd_events example_posts) ''ws'' ''s'') =
      filter (\<lambda>e. sv_id e = ''e2'') (message_rows (rd_events example_posts) ''ws'' ''s'')"
    by (intro filter_cong) simp_all
  moreover have "map sv_id (filter (\<lambda>e. sv_id e = ''e2'') (message_rows (rd_events example_posts) ''ws'' ''s'')) = [''e2'']" by code_simp
  ultimately show ?thesis using ok by simp
qed

lemma sparse_unread_unreads_what_is_marked_witness:
  "read_ok example_reads \<and>
   filter (\<lambda>e. sv_id e = ''e2'' \<and> effectively_read (fst (applySparseUnread 3 ''ws'' ''s'' ''u'' [''m2''] example_reads)) ''ws'' ''s'' ''u'' e)
     (message_rows (rd_events example_reads) ''ws'' ''s'') = []"
proof -
  have ok: "read_ok example_reads" by (rule reachable_read_ok [OF example_reads_reachable])
  obtain db snap out where r: "applySparseUnread 3 ''ws'' ''s'' ''u'' [''m2''] example_reads = (db, snap, out)" by (metis prod_cases3)
  have st: "(''ws'', ''s'') \<in> set (rd_streams example_reads)" by code_simp
  have "\<forall>e\<in>set (message_rows (rd_events example_reads) ''ws'' ''s''). sv_id e = ''e2'' \<longrightarrow> message_id_of e \<in> Some ` set [''m2'']" by code_simp
  then have "\<forall>e\<in>set (message_rows (rd_events example_reads) ''ws'' ''s''). sv_id e = ''e2'' \<longrightarrow> \<not> effectively_read db ''ws'' ''s'' ''u'' e"
    using sparse_unread_unreads_what_is_marked [OF ok st r] by fastforce
  then show ?thesis using ok r by (simp add: filter_empty_conv)
qed

text \<open>
  A send can hide an unread message.  The user has read the second of three messages on its own and answers.  The
  send puts the watermark at the answer but leaves the overlay as it is, so that a row of it is now below the watermark,
  and the next message to arrive is not counted: the count served is zero while that message is unread.
\<close>

theorem own_send_hides_an_unread_message:
  "read_step\<^sup>*\<^sup>* no_reads (example_post ''u'' ''e4'' ''m4'' example_reads) \<and>
   \<not> overlay_above (fst (read_own_message 3 None ''ws'' ''s'' ''u'' ''e4'' (example_post ''u'' ''e4'' ''m4'' example_reads))) \<and>
   getEffectiveUnreadSummary example_sent ''ws'' ''s'' ''u'' = (0, 5) \<and>
   map sv_id (filter (\<lambda>e. \<not> effectively_read example_sent ''ws'' ''s'' ''u'' e) (message_rows (rd_events example_sent) ''ws'' ''s'')) = [''e5'']"
proof (intro conjI)
  have "read_step example_reads (example_post ''u'' ''e4'' ''m4'' example_reads)"
    by (rule example_post_step) (code_simp, code_simp, unfold messages_unique_def, code_simp)
  then show "read_step\<^sup>*\<^sup>* no_reads (example_post ''u'' ''e4'' ''m4'' example_reads)"
    using example_reads_reachable by (meson rtranclp.rtrancl_into_rtrancl)
  show "\<not> overlay_above (fst (read_own_message 3 None ''ws'' ''s'' ''u'' ''e4'' (example_post ''u'' ''e4'' ''m4'' example_reads)))"
    unfolding overlay_above_def by code_simp
  show "getEffectiveUnreadSummary example_sent ''ws'' ''s'' ''u'' = (0, 5)" by code_simp
  show "map sv_id (filter (\<lambda>e. \<not> effectively_read example_sent ''ws'' ''s'' ''u'' e) (message_rows (rd_events example_sent) ''ws'' ''s'')) = [''e5'']"
    by code_simp
qed

end
