(* ===== verification/Operation_Queue.thy ===== *)
theory Operation_Queue
  imports Threa_Prelude Json
begin

text \<open>
  \<^verbatim>\<open>apps/frontend/src/sync/operation-queue.ts\<close>: what a device does while it is offline is kept as rows of
  \<open>pendingOperations\<close> and replayed against the server when it is online again.  A drain reads the rows anew before each
  attempt; the answer of the server to each attempt, and what other code adds to the table meanwhile, are inputs.  One
  drain runs at a time, by the web lock.  The local tables the replay corrects, and what it asks of the server, are
  recorded as effects and calls.
\<close>

record PendingOperation =
  po_id :: string
  po_workspaceId :: string
  po_type :: string
  po_payload :: json
  po_createdAt :: int
  po_retryCount :: int
  po_retryAfter :: "int option"
  po_startedAt :: "int option"
  po_blockedOnPrivacy :: bool

definition getRetryDelay :: "int \<Rightarrow> int" where
  "getRetryDelay retryCount =
    (if retryCount \<le> 3 then 0 else if retryCount \<le> 6 then 5000 else if retryCount \<le> 10 then 30000 else 120000)"

text \<open>\<^verbatim>\<open>operation-stamp.ts\<close>, with the random part of the id as an argument; the last stamp is kept by the tab.\<close>

definition newOperationStamp :: "int \<Rightarrow> string \<Rightarrow> int \<Rightarrow> (string \<times> int) \<times> int" where
  "newOperationStamp now rnd lastCreatedAt =
    (let createdAt = max now (lastCreatedAt + 1) in ((''op_'' @ int_digits createdAt @ ''_'' @ rnd, createdAt), createdAt))"

definition new_operation :: "string \<times> int \<Rightarrow> string \<Rightarrow> string \<Rightarrow> json \<Rightarrow> PendingOperation" where
  "new_operation stamp ws t payload = \<lparr>po_id = fst stamp, po_workspaceId = ws, po_type = t, po_payload = payload, po_createdAt = snd stamp,
     po_retryCount = 0, po_retryAfter = None, po_startedAt = None, po_blockedOnPrivacy = False\<rparr>"

definition enqueueOperation :: "string \<times> int \<Rightarrow> string \<Rightarrow> string \<Rightarrow> json \<Rightarrow> PendingOperation table \<Rightarrow> PendingOperation table" where
  "enqueueOperation stamp ws t payload ops = ops @ [new_operation stamp ws t payload]"

definition op_field :: "string \<Rightarrow> json \<Rightarrow> json" where
  "op_field k payload = case_option JUndefined id (jget k payload)"

definition op_text :: "string \<Rightarrow> json \<Rightarrow> string" where
  "op_text k payload = (case op_field k payload of JStr s \<Rightarrow> s | _ \<Rightarrow> [])"

text \<open>\<open>merge\<close>: \<open>Y.mergeUpdates\<close> on two updates in base64.\<close>

definition waits_for_doc :: "string \<Rightarrow> string \<Rightarrow> PendingOperation \<Rightarrow> bool" where
  "waits_for_doc ws docId op \<longleftrightarrow> po_workspaceId op = ws \<and> po_type op = ''doc_update'' \<and> op_field ''docId'' (po_payload op) = JStr docId \<and> po_startedAt op = None"

definition doc_payload :: "string \<Rightarrow> string \<Rightarrow> json" where
  "doc_payload docId upd = JObj [(''docId'', JStr docId), (''update'', JStr upd)]"

definition enqueueDocUpdate ::
  "(string \<Rightarrow> string \<Rightarrow> string) \<Rightarrow> string \<times> int \<Rightarrow> string \<Rightarrow> string \<Rightarrow> string \<Rightarrow> PendingOperation table \<Rightarrow> PendingOperation table"
where
  "enqueueDocUpdate merge stamp ws docId upd ops =
    (case find (waits_for_doc ws docId) ops of
       Some w \<Rightarrow> sql_update (\<lambda>op. po_id op = po_id w) (\<lambda>op. op\<lparr>po_payload := doc_payload docId (merge (op_text ''update'' (po_payload w)) upd)\<rparr>) ops
     | None \<Rightarrow> ops @ [new_operation stamp ws ''doc_update'' (doc_payload docId upd)])"

section \<open>Errors\<close>

datatype op_error = ApiError int string | Other_error  \<comment> \<open>status and code\<close>

definition isAccountMismatchError :: "op_error \<Rightarrow> bool" where
  "isAccountMismatchError e \<longleftrightarrow> e = ApiError 409 ''ACCOUNT_MISMATCH''"

definition isPermanentApiError :: "op_error \<Rightarrow> bool" where
  "isPermanentApiError e \<longleftrightarrow>
    (case e of ApiError status code \<Rightarrow> 400 \<le> status \<and> status < 500 \<and> status \<noteq> 408 \<and> status \<noteq> 429 \<and> \<not> isAccountMismatchError e | Other_error \<Rightarrow> False)"

definition error_status :: "op_error \<Rightarrow> int option" where
  "error_status e = (case e of ApiError status _ \<Rightarrow> Some status | Other_error \<Rightarrow> None)"

definition isPrivacyConfirmationError :: "op_error \<Rightarrow> bool" where
  "isPrivacyConfirmationError e \<longleftrightarrow> e = ApiError 409 ''SHARE_PRIVACY_CONFIRMATION_REQUIRED''"

section \<open>What an operation asks of the server\<close>

datatype service_call =
    Message_update string json json
  | Message_delete string json
  | Reaction_add string json json
  | Reaction_remove string json json
  | Scheduled_create string json
  | Scheduled_delete string json
  | Scheduled_sendNow string json
  | Commands_dispatch string "(string \<times> json) list"
  | Doc_deliver string json json
  | Draft_upsert string json json "string list"
  | Draft_resolve string json json "string list"
  | Draft_delete string json "string list"

datatype execution = Calls service_call | Local_only | Throws

datatype local_effect =
    Replace_scheduled string  \<comment> \<open>the placeholder\<close>
  | Persist_scheduled string
  | Remove_scheduled string
  | Replace_optimistic string string
  | Mark_command_failed string string
  | Delete_doc_state string string

definition string_list :: "json \<Rightarrow> string list" where
  "string_list v = (case v of JArr vs \<Rightarrow> List.map_filter (\<lambda>x. case x of JStr s \<Rightarrow> Some s | _ \<Rightarrow> None) vs | _ \<Rightarrow> [])"

text \<open>\<open>scheduled\<close> and \<open>drafts\<close>: whether the two optional services are there.\<close>

definition executeOperation :: "bool \<Rightarrow> bool \<Rightarrow> PendingOperation \<Rightarrow> execution" where
  "executeOperation scheduled drafts op =
    (let ws = po_workspaceId op; t = po_type op; f = (\<lambda>k. op_field k (po_payload op))
     in if t = ''edit_message''
        then Calls (Message_update ws (f ''messageId'') (JObj ((''contentJson'', f ''contentJson'') #
          (if f ''confirmedPrivacyWarning'' = JBool True then [(''confirmedPrivacyWarning'', JBool True)] else []))))
        else if t = ''delete_message'' then Calls (Message_delete ws (f ''messageId''))
        else if t = ''add_reaction'' then Calls (Reaction_add ws (f ''messageId'') (f ''emoji''))
        else if t = ''remove_reaction'' then Calls (Reaction_remove ws (f ''messageId'') (f ''emoji''))
        else if t = ''schedule_message'' then (if scheduled then Calls (Scheduled_create ws (f ''input'')) else Throws)
        else if t = ''cancel_scheduled_message'' then (if scheduled then Calls (Scheduled_delete ws (f ''id'')) else Throws)
        else if t = ''send_scheduled_now'' then (if scheduled then Calls (Scheduled_sendNow ws (f ''id'')) else Throws)
        else if t = ''update_scheduled_message'' then Throws
        else if t = ''dispatch_command''
        then Calls (Commands_dispatch ws ([(''streamId'', f ''streamId''), (''command'', f ''command''), (''clientCommandId'', f ''optimisticEventId'')] @
          (if truthy (f ''conversationId'') then [(''conversationId'', f ''conversationId'')] else [])))
        else if t = ''doc_update'' then Calls (Doc_deliver ws (f ''docId'') (f ''update''))
        else if t = ''upsert_draft'' then (if drafts then Calls (Draft_upsert ws (f ''draftId'') (f ''writeId'') (string_list (f ''priorWriteIds''))) else Local_only)
        else if t = ''resolve_draft'' then (if drafts then Calls (Draft_resolve ws (f ''draftId'') (f ''expectedVersion'') (string_list (f ''supersededWriteIds''))) else Local_only)
        else if t = ''delete_draft'' then (if drafts then Calls (Draft_delete ws (f ''draftId'') (string_list (f ''supersededWriteIds''))) else Local_only)
        else Local_only)"

text \<open>The answer to the call, and what \<open>executeOperation\<close> makes of it: a refused command is marked failed here and does not raise.\<close>

definition execution_error :: "PendingOperation \<Rightarrow> execution \<Rightarrow> op_error option \<Rightarrow> op_error option" where
  "execution_error op x answer =
    (case x of Throws \<Rightarrow> Some Other_error
     | Local_only \<Rightarrow> None
     | Calls c \<Rightarrow> (case answer of None \<Rightarrow> None | Some e \<Rightarrow> if po_type op = ''dispatch_command'' \<and> isPermanentApiError e then None else Some e))"

definition execution_effects :: "PendingOperation \<Rightarrow> execution \<Rightarrow> op_error option \<Rightarrow> local_effect list" where
  "execution_effects op x answer =
    (let id_of = (\<lambda>k. op_text k (po_payload op))
     in case (x, answer) of
          (Calls c, None) \<Rightarrow>
            if po_type op = ''schedule_message'' then [Replace_scheduled (id_of ''placeholderId'')]
            else if po_type op = ''send_scheduled_now'' then [Persist_scheduled (id_of ''id'')]
            else if po_type op = ''dispatch_command'' then [Replace_optimistic (po_workspaceId op) (id_of ''optimisticEventId'')]
            else []
        | (Calls c, Some e) \<Rightarrow>
            if po_type op = ''dispatch_command'' \<and> isPermanentApiError e then [Mark_command_failed (po_workspaceId op) (id_of ''optimisticEventId'')] else []
        | _ \<Rightarrow> [])"

definition reconcileRejectedOperation :: "PendingOperation \<Rightarrow> local_effect list" where
  "reconcileRejectedOperation op =
    (if po_type op = ''schedule_message'' then [Remove_scheduled (op_text ''placeholderId'' (po_payload op))]
     else if po_type op \<in> {''send_scheduled_now'', ''cancel_scheduled_message''} then [Remove_scheduled (op_text ''id'' (po_payload op))]
     else if po_type op = ''doc_update'' then [Delete_doc_state (po_workspaceId op) (op_text ''docId'' (po_payload op))]
     else [])"

section \<open>The drain\<close>

record Drain =
  dr_ops :: "PendingOperation table"
  dr_skipped :: "string list"
  dr_asked :: "string list"  \<comment> \<open>operations the user is asked about\<close>
  dr_attempts :: "(PendingOperation \<times> execution \<times> op_error option) list"
  dr_effects :: "local_effect list"

text \<open>
  Where two rows were created at the same time the index of the database breaks the tie by id; stamps of one tab differ.
\<close>

definition may_run :: "int \<Rightarrow> string list \<Rightarrow> PendingOperation \<Rightarrow> bool" where
  "may_run now skipped op \<longleftrightarrow> po_id op \<notin> set skipped \<and> \<not> po_blockedOnPrivacy op \<and> (case po_retryAfter op of None \<Rightarrow> 0 | Some t \<Rightarrow> t) \<le> now"

definition next_operation :: "int \<Rightarrow> Drain \<Rightarrow> PendingOperation option" where
  "next_operation now d = find (may_run now (dr_skipped d)) (sort_key po_createdAt (dr_ops d))"

definition claim :: "int \<Rightarrow> PendingOperation \<Rightarrow> Drain \<Rightarrow> Drain" where
  "claim clock op d = d\<lparr>dr_ops := sql_update (\<lambda>o'. po_id o' = po_id op) (\<lambda>o'. o'\<lparr>po_startedAt := Some clock\<rparr>) (dr_ops d)\<rparr>"

definition absorb :: "json option \<Rightarrow> PendingOperation \<Rightarrow> Drain \<Rightarrow> Drain" where
  "absorb merged op d =
    (case merged of
       Some p \<Rightarrow> d\<lparr>dr_ops := sql_update (\<lambda>o'. po_id o' = po_id op \<and> po_type o' = ''doc_update'' \<and> po_startedAt o' = None) (\<lambda>o'. o'\<lparr>po_payload := p\<rparr>) (dr_ops d)\<rparr>
     | None \<Rightarrow> d)"

definition delete_op :: "string \<Rightarrow> Drain \<Rightarrow> Drain" where
  "delete_op i d = d\<lparr>dr_ops := sql_delete (\<lambda>o'. po_id o' = i) (dr_ops d)\<rparr>"

definition settle_attempt :: "int \<Rightarrow> PendingOperation \<Rightarrow> op_error option \<Rightarrow> Drain \<Rightarrow> Drain" where
  "settle_attempt clock op result d =
    (case result of
       None \<Rightarrow> delete_op (po_id op) d
     | Some e \<Rightarrow>
         if po_type op = ''schedule_message'' \<and> isPrivacyConfirmationError e
         then d\<lparr>dr_ops := sql_update (\<lambda>o'. po_id o' = po_id op) (\<lambda>o'. o'\<lparr>po_blockedOnPrivacy := True\<rparr>) (dr_ops d),
                dr_asked := dr_asked d @ [po_id op], dr_skipped := po_id op # dr_skipped d\<rparr>
         else if isPermanentApiError e \<and> \<not> (po_type op = ''doc_update'' \<and> error_status e = Some 401)
         then delete_op (po_id op) (d\<lparr>dr_effects := dr_effects d @ reconcileRejectedOperation op\<rparr>)
         else d\<lparr>dr_ops := sql_update (\<lambda>o'. po_id o' = po_id op) (\<lambda>o'. o'\<lparr>po_retryCount := po_retryCount op + 1,
                  po_retryAfter := Some (clock + getRetryDelay (po_retryCount op + 1))\<rparr>) (dr_ops d),
                dr_skipped := po_id op # dr_skipped d\<rparr>)"

text \<open>
  One round of the loop.  \<open>rn_arrive\<close>: the rows other code added before this round; \<open>rn_absorbed\<close>: the payload a waiting doc
  row was merged into between the read and the claim; \<open>rn_gone\<close>: the row was deleted between the read and the claim; \<open>rn_stop\<close>: the device is offline or the account retired before the round, and
  \<open>rn_retired\<close>: the account was retired while the operation was on its way.
\<close>

text \<open>The two answers to \<open>askBlockedSchedule\<close>.\<close>

definition confirm_schedule :: "PendingOperation \<Rightarrow> PendingOperation table \<Rightarrow> PendingOperation table" where
  "confirm_schedule op ops = sql_update (\<lambda>o'. po_id o' = po_id op)
     (\<lambda>o'. o'\<lparr>po_payload := put_field ''input'' (put_field ''confirmedPrivacyWarning'' (JBool True) (op_field ''input'' (po_payload op))) (po_payload op),
              po_blockedOnPrivacy := False\<rparr>) ops"

definition cancel_schedule :: "PendingOperation \<Rightarrow> PendingOperation table \<Rightarrow> PendingOperation table \<times> local_effect list" where
  "cancel_schedule op ops = (sql_delete (\<lambda>o'. po_id o' = po_id op) ops, reconcileRejectedOperation op)"

record Round =
  rn_arrive :: "PendingOperation list"
  rn_absorbed :: "json option"
  rn_gone :: bool
  rn_stop :: bool
  rn_retired :: bool
  rn_clock :: int
  rn_answer :: "op_error option"

definition attempt :: "bool \<Rightarrow> bool \<Rightarrow> PendingOperation \<Rightarrow> Round \<Rightarrow> Drain \<Rightarrow> Drain" where
  "attempt scheduled drafts op r d =
    (let current = (if po_type op = ''doc_update'' then (case find (\<lambda>o'. po_id o' = po_id op) (dr_ops d) of Some o' \<Rightarrow> o' | None \<Rightarrow> op) else op);
         x = executeOperation scheduled drafts current;
         d' = d\<lparr>dr_attempts := dr_attempts d @ [(current, x, execution_error current x (rn_answer r))],
                dr_effects := dr_effects d @ execution_effects current x (rn_answer r)\<rparr>
     in if po_type op = ''dispatch_command'' \<and> rn_answer r = None then delete_op (po_id op) d' else d')"

definition attempted :: "bool \<Rightarrow> bool \<Rightarrow> PendingOperation \<Rightarrow> Round \<Rightarrow> Drain \<Rightarrow> Drain" where
  "attempted scheduled drafts op r d = attempt scheduled drafts op r (claim (rn_clock r) op (absorb (rn_absorbed r) op d))"

definition last_error :: "Drain \<Rightarrow> op_error option" where
  "last_error d = snd (snd (last (dr_attempts d)))"

definition round_step :: "bool \<Rightarrow> bool \<Rightarrow> PendingOperation \<Rightarrow> Round \<Rightarrow> Drain \<Rightarrow> Drain" where
  "round_step scheduled drafts op r d =
    (if rn_gone r then delete_op (po_id op) d
     else let d1 = attempted scheduled drafts op r d in settle_attempt (rn_clock r) op (last_error d1) d1)"

fun drain_rounds :: "bool \<Rightarrow> bool \<Rightarrow> int \<Rightarrow> Round list \<Rightarrow> Drain \<Rightarrow> Drain \<times> bool" where
  "drain_rounds scheduled drafts now [] d = (d, False)"
| "drain_rounds scheduled drafts now (r # rs) d =
    (let d0 = d\<lparr>dr_ops := dr_ops d @ rn_arrive r\<rparr>
     in if rn_stop r then (d0, True)
        else case next_operation now d0 of
          None \<Rightarrow> (d0, True)
        | Some op \<Rightarrow>
            if rn_retired r \<and> \<not> rn_gone r then (attempted scheduled drafts op r d0, True)
            else drain_rounds scheduled drafts now rs (round_step scheduled drafts op r d0))"

definition start_drain :: "PendingOperation table \<Rightarrow> Drain" where
  "start_drain ops = \<lparr>dr_ops = ops, dr_skipped = [], dr_asked = map po_id (filter po_blockedOnPrivacy ops), dr_attempts = [], dr_effects = []\<rparr>"

text \<open>\<open>processOperationQueue\<close>: a drain with the rounds it is given, and when to run again; \<open>None\<close> for the infinite time of an empty minimum does not occur.\<close>

definition next_run :: "bool \<Rightarrow> int \<Rightarrow> PendingOperation table \<Rightarrow> int option" where
  "next_run online clock ops =
    (let remaining = filter (\<lambda>op. \<not> po_blockedOnPrivacy op) ops
     in if \<not> online \<or> remaining = [] then None
        else Some (Min (set (map (\<lambda>op. case po_retryAfter op of None \<Rightarrow> clock | Some t \<Rightarrow> t) remaining))))"

definition processOperationQueue ::
  "bool \<Rightarrow> bool \<Rightarrow> int \<Rightarrow> Round list \<Rightarrow> bool \<Rightarrow> int \<Rightarrow> PendingOperation table \<Rightarrow> Drain \<times> bool \<times> int option"
where
  "processOperationQueue scheduled drafts now rounds online clock ops =
    (case drain_rounds scheduled drafts now rounds (start_drain ops) of (d, over) \<Rightarrow> (d, over, next_run online clock (dr_ops d)))"

section \<open>What a drain does\<close>

definition others :: "string \<Rightarrow> PendingOperation list \<Rightarrow> PendingOperation list" where
  "others i ops = filter (\<lambda>op. po_id op \<noteq> i) ops"

definition waiting :: "Drain \<Rightarrow> PendingOperation list" where
  "waiting d = filter (\<lambda>op. po_id op \<notin> set (dr_skipped d)) (dr_ops d)"

text \<open>
  An attempt after which an operation is gone for good: it was delivered, or the server refused it with a status that no
  repetition changes.  A wrong account, a request time-out, a rate limit and a doc edit without a session are not such, and
  a schedule that has to be confirmed waits for the user.
\<close>

definition settled :: "PendingOperation \<Rightarrow> op_error option \<Rightarrow> bool" where
  "settled op result \<longleftrightarrow>
    (case result of
       None \<Rightarrow> True
     | Some (ApiError status code) \<Rightarrow>
         status \<in> {400..499} - {408, 429} \<and> (status, code) \<noteq> (409, ''ACCOUNT_MISMATCH'') \<and>
         \<not> (po_type op = ''schedule_message'' \<and> (status, code) = (409, ''SHARE_PRIVACY_CONFIRMATION_REQUIRED'')) \<and>
         \<not> (po_type op = ''doc_update'' \<and> status = 401)
     | Some Other_error \<Rightarrow> False)"

lemma settled_alt:
  "settled op result \<longleftrightarrow>
    (case result of None \<Rightarrow> True
     | Some e \<Rightarrow> isPermanentApiError e \<and> \<not> (po_type op = ''schedule_message'' \<and> isPrivacyConfirmationError e)
                \<and> \<not> (po_type op = ''doc_update'' \<and> error_status e = Some 401))"
  by (cases result; cases "the result")
    (auto simp: settled_def isPermanentApiError_def isAccountMismatchError_def isPrivacyConfirmationError_def error_status_def)

lemma others_simps [simp]:
  "others i [] = []" "others i (x # xs) = (if po_id x \<noteq> i then x # others i xs else others i xs)" "others i (xs @ ys) = others i xs @ others i ys"
  by (simp_all add: others_def)

lemma set_others [simp]: "set (others i ops) = {op \<in> set ops. po_id op \<noteq> i}"
  by (simp add: others_def)

lemma others_sql_update: "(\<And>o'. p o' \<Longrightarrow> po_id o' = i \<and> po_id (f o') = i) \<Longrightarrow> others i (sql_update p f ops) = others i ops"
  by (induction ops) auto

lemma others_sql_delete [simp]: "others i (sql_delete (\<lambda>o'. po_id o' = i) ops) = others i ops"
  by (simp add: others_def sql_delete_def)

lemma sql_update_ids: "(\<And>o'. p o' \<Longrightarrow> po_id (f o') = po_id o') \<Longrightarrow> map po_id (sql_update p f ops) = map po_id ops"
  by (rule sql_update_key)

lemma filter_others: "(\<And>o'. P o' \<Longrightarrow> po_id o' \<noteq> i) \<Longrightarrow> filter P ops = filter P (others i ops)"
  by (induction ops) auto

lemma filter_others_comm: "filter P (others i ops) = others i (filter P ops)"
  by (simp add: others_def conj_commute)

lemma absorb_simps [simp]:
  "others (po_id op) (dr_ops (absorb m op d)) = others (po_id op) (dr_ops d)"
  "map po_id (dr_ops (absorb m op d)) = map po_id (dr_ops d)"
  "dr_skipped (absorb m op d) = dr_skipped d" "dr_attempts (absorb m op d) = dr_attempts d"
  by (auto simp: absorb_def sql_update_ids intro: others_sql_update split: option.splits)

lemma claim_simps [simp]:
  "others (po_id op) (dr_ops (claim c op d)) = others (po_id op) (dr_ops d)"
  "map po_id (dr_ops (claim c op d)) = map po_id (dr_ops d)"
  "dr_skipped (claim c op d) = dr_skipped d" "dr_attempts (claim c op d) = dr_attempts d"
  by (auto simp: claim_def sql_update_ids intro: others_sql_update)

lemma delete_op_simps [simp]:
  "others i (dr_ops (delete_op i d)) = others i (dr_ops d)" "i \<notin> po_id ` set (dr_ops (delete_op i d))"
  "dr_skipped (delete_op i d) = dr_skipped d" "dr_attempts (delete_op i d) = dr_attempts d"
  by (auto simp: delete_op_def)

lemma attempt_row:
  obtains c where "po_id c = po_id op" "c = op \<or> c \<in> set (dr_ops d)"
    "dr_attempts (attempt sc dr op r d) = dr_attempts d @ [(c, executeOperation sc dr c, execution_error c (executeOperation sc dr c) (rn_answer r))]"
proof -
  define c where "c = (if po_type op = ''doc_update'' then (case find (\<lambda>o'. po_id o' = po_id op) (dr_ops d) of Some o' \<Rightarrow> o' | None \<Rightarrow> op) else op)"
  have "po_id c = po_id op \<and> (c = op \<or> c \<in> set (dr_ops d))"
    by (auto simp: c_def find_Some_iff split: option.splits)
  moreover have "dr_attempts (attempt sc dr op r d) = dr_attempts d @ [(c, executeOperation sc dr c, execution_error c (executeOperation sc dr c) (rn_answer r))]"
    by (simp add: attempt_def Let_def c_def [symmetric])
  ultimately show thesis using that by blast
qed

lemma attempt_simps [simp]:
  "others (po_id op) (dr_ops (attempt sc dr op r d)) = others (po_id op) (dr_ops d)"
  "dr_skipped (attempt sc dr op r d) = dr_skipped d"
  by (simp_all add: attempt_def Let_def)

lemma attempt_deletes:
  assumes "po_id ` set (dr_ops (attempt sc dr op r d)) \<noteq> po_id ` set (dr_ops d)"
  shows "po_type op = ''dispatch_command'' \<and> rn_answer r = None"
  using assms by (auto simp: attempt_def Let_def split: if_splits)

lemma settle_attempt_simps:
  "others (po_id op) (dr_ops (settle_attempt c op res d)) = others (po_id op) (dr_ops d)"
  "dr_attempts (settle_attempt c op res d) = dr_attempts d"
  "set (dr_skipped (settle_attempt c op res d)) \<subseteq> insert (po_id op) (set (dr_skipped d))"
  "set (dr_skipped d) \<subseteq> set (dr_skipped (settle_attempt c op res d))"
  "po_id op \<in> set (dr_skipped (settle_attempt c op res d)) \<or> po_id op \<notin> po_id ` set (dr_ops (settle_attempt c op res d))"
  "\<not> settled op res \<Longrightarrow> map po_id (dr_ops (settle_attempt c op res d)) = map po_id (dr_ops d)"
proof -
  let ?d = "settle_attempt c op res d"
  have "others (po_id op) (dr_ops ?d) = others (po_id op) (dr_ops d) \<and> dr_attempts ?d = dr_attempts d
      \<and> set (dr_skipped ?d) \<subseteq> insert (po_id op) (set (dr_skipped d)) \<and> set (dr_skipped d) \<subseteq> set (dr_skipped ?d)
      \<and> (po_id op \<in> set (dr_skipped ?d) \<or> po_id op \<notin> po_id ` set (dr_ops ?d))
      \<and> (\<not> settled op res \<longrightarrow> map po_id (dr_ops ?d) = map po_id (dr_ops d))"
  proof (cases res)
    case None
    have "dr_ops ?d = sql_delete (\<lambda>o'. po_id o' = po_id op) (dr_ops d)" "dr_skipped ?d = dr_skipped d" "dr_attempts ?d = dr_attempts d"
      by (simp_all add: settle_attempt_def None delete_op_def)
    then show ?thesis using None by (auto simp: settled_alt)
  next
    case (Some e)
    let ?ask = "po_type op = ''schedule_message'' \<and> isPrivacyConfirmationError e"
    let ?dead = "isPermanentApiError e \<and> \<not> (po_type op = ''doc_update'' \<and> error_status e = Some 401)"
    consider (ask) ?ask | (dead) "\<not> ?ask" ?dead | (retry) "\<not> ?ask" "\<not> ?dead" by blast
    then show ?thesis
    proof cases
      case ask
      have "dr_ops ?d = sql_update (\<lambda>o'. po_id o' = po_id op) (\<lambda>o'. o'\<lparr>po_blockedOnPrivacy := True\<rparr>) (dr_ops d)"
        "dr_skipped ?d = po_id op # dr_skipped d" "dr_attempts ?d = dr_attempts d"
        unfolding settle_attempt_def Some option.case if_P [OF ask] by simp_all
      then show ?thesis by (simp add: others_sql_update sql_update_ids) blast
    next
      case dead
      have "dr_ops ?d = sql_delete (\<lambda>o'. po_id o' = po_id op) (dr_ops d)" "dr_skipped ?d = dr_skipped d" "dr_attempts ?d = dr_attempts d"
        unfolding settle_attempt_def Some option.case if_not_P [OF dead(1)] if_P [OF dead(2)] delete_op_def by simp_all
      moreover have "settled op res" using dead by (simp add: settled_alt Some)
      ultimately show ?thesis by auto
    next
      case retry
      have "dr_ops ?d = sql_update (\<lambda>o'. po_id o' = po_id op) (\<lambda>o'. o'\<lparr>po_retryCount := po_retryCount op + 1,
                  po_retryAfter := Some (c + getRetryDelay (po_retryCount op + 1))\<rparr>) (dr_ops d)"
        "dr_skipped ?d = po_id op # dr_skipped d" "dr_attempts ?d = dr_attempts d"
        unfolding settle_attempt_def Some option.case if_not_P [OF retry(1)] if_not_P [OF retry(2)] by simp_all
      then show ?thesis by (simp add: others_sql_update sql_update_ids) blast
    qed
  qed
  then show "others (po_id op) (dr_ops ?d) = others (po_id op) (dr_ops d)" "dr_attempts ?d = dr_attempts d"
    "set (dr_skipped ?d) \<subseteq> insert (po_id op) (set (dr_skipped d))" "set (dr_skipped d) \<subseteq> set (dr_skipped ?d)"
    "po_id op \<in> set (dr_skipped ?d) \<or> po_id op \<notin> po_id ` set (dr_ops ?d)"
    "\<not> settled op res \<Longrightarrow> map po_id (dr_ops ?d) = map po_id (dr_ops d)" by blast+
qed

lemma claimed_rows:
  assumes "c \<in> set (dr_ops (claim k op (absorb m op d)))"
  shows "\<exists>o0\<in>set (dr_ops d). po_id o0 = po_id c \<and> po_createdAt o0 = po_createdAt c \<and> po_type o0 = po_type c"
  using assms by (force simp: claim_def absorb_def set_sql_update split: option.splits if_splits)

lemma attempted_row:
  assumes "op \<in> set (dr_ops d)"
  obtains c o0 where "po_id c = po_id op" "o0 \<in> set (dr_ops d)" "po_id o0 = po_id op" "po_createdAt o0 = po_createdAt c" "po_type o0 = po_type c"
    "dr_attempts (attempted sc dr op r d) = dr_attempts d @ [(c, executeOperation sc dr c, execution_error c (executeOperation sc dr c) (rn_answer r))]"
proof -
  obtain c where c: "po_id c = po_id op" "c = op \<or> c \<in> set (dr_ops (claim (rn_clock r) op (absorb (rn_absorbed r) op d)))"
    "dr_attempts (attempted sc dr op r d) = dr_attempts d @ [(c, executeOperation sc dr c, execution_error c (executeOperation sc dr c) (rn_answer r))]"
    using attempt_row [of op "claim (rn_clock r) op (absorb (rn_absorbed r) op d)" sc dr r] by (auto simp: attempted_def)
  then show thesis using that [OF c(1)] assms claimed_rows by metis
qed

lemma attempted_simps [simp]:
  "others (po_id op) (dr_ops (attempted sc dr op r d)) = others (po_id op) (dr_ops d)"
  "dr_skipped (attempted sc dr op r d) = dr_skipped d"
  by (simp_all add: attempted_def)

lemma round_step_simps:
  "others (po_id op) (dr_ops (round_step sc dr op r d)) = others (po_id op) (dr_ops d)"
  "set (dr_skipped (round_step sc dr op r d)) \<subseteq> insert (po_id op) (set (dr_skipped d))"
  "set (dr_skipped d) \<subseteq> set (dr_skipped (round_step sc dr op r d))"
  "po_id op \<in> set (dr_skipped (round_step sc dr op r d)) \<or> po_id op \<notin> po_id ` set (dr_ops (round_step sc dr op r d))"
  "dr_attempts (round_step sc dr op r d) = (if rn_gone r then dr_attempts d else dr_attempts (attempted sc dr op r d))"
  using settle_attempt_simps(1-5) [where op = op and c = "rn_clock r" and res = "last_error (attempted sc dr op r d)" and d = "attempted sc dr op r d"]
  by (auto simp: round_step_def Let_def)

lemma waiting_round_step: "waiting (round_step sc dr op r d) = others (po_id op) (waiting d)"
proof -
  let ?d = "round_step sc dr op r d" and ?i = "po_id op"
  have "waiting ?d = filter (\<lambda>o'. po_id o' \<noteq> ?i \<and> po_id o' \<notin> set (dr_skipped ?d)) (dr_ops ?d)"
    unfolding waiting_def by (rule filter_cong [OF refl]) (use round_step_simps(4) [of op sc dr r d] in \<open>force simp: image_iff\<close>)
  also have "\<dots> = filter (\<lambda>o'. po_id o' \<notin> set (dr_skipped ?d)) (others ?i (dr_ops ?d))" by (simp add: others_def conj_commute)
  also have "\<dots> = filter (\<lambda>o'. po_id o' \<notin> set (dr_skipped d)) (others ?i (dr_ops d))"
    unfolding round_step_simps(1) by (rule filter_cong) (use round_step_simps(2,3) [where sc = sc and dr = dr and op = op and r = r and d = d] in \<open>auto\<close>)
  finally show ?thesis by (simp add: waiting_def filter_others_comm)
qed

lemma next_operation_Some:
  assumes "next_operation now d = Some op"
  shows "op \<in> set (waiting d)" "op \<in> set (dr_ops d)" "may_run now (dr_skipped d) op"
    "\<And>o'. o' \<in> set (dr_ops d) \<Longrightarrow> may_run now (dr_skipped d) o' \<Longrightarrow> po_createdAt op \<le> po_createdAt o'"
proof -
  from assms obtain n where n: "n < length (dr_ops d)" "may_run now (dr_skipped d) (sort_key po_createdAt (dr_ops d) ! n)"
    "op = sort_key po_createdAt (dr_ops d) ! n" "\<And>j. j < n \<Longrightarrow> \<not> may_run now (dr_skipped d) (sort_key po_createdAt (dr_ops d) ! j)"
    unfolding next_operation_def find_Some_iff by auto
  show op: "op \<in> set (dr_ops d)" using n(1,3) nth_mem [of n "sort_key po_createdAt (dr_ops d)"] by simp
  show m: "may_run now (dr_skipped d) op" using n by simp
  from op m show "op \<in> set (waiting d)" by (simp add: waiting_def may_run_def)
  fix o' assume o': "o' \<in> set (dr_ops d)" "may_run now (dr_skipped d) o'"
  from o'(1) have "o' \<in> set (sort_key po_createdAt (dr_ops d))" by simp
  from this [unfolded in_set_conv_nth] obtain j where j: "j < length (dr_ops d)" "o' = sort_key po_createdAt (dr_ops d) ! j" by auto
  with n(4) o'(2) have "n \<le> j" using not_le by blast
  with sorted_nth_mono [OF sorted_sort_key [of po_createdAt "dr_ops d"], of n j] j n(1,3)
  show "po_createdAt op \<le> po_createdAt o'" by simp
qed

subsection \<open>It ends\<close>

lemma drain_rounds_ends:
  "length (waiting d) + length (concat (map rn_arrive rounds)) < length rounds \<Longrightarrow>
   (case drain_rounds sc dr now rounds d of (d', over) \<Rightarrow> over \<and> ((\<forall>r\<in>set rounds. \<not> rn_stop r \<and> \<not> rn_retired r) \<longrightarrow> next_operation now d' = None))"
proof (induction sc dr now rounds d rule: drain_rounds.induct)
  case (2 sc dr now r rs d)
  let ?d0 = "d\<lparr>dr_ops := dr_ops d @ rn_arrive r\<rparr>"
  show ?case
  proof (cases "rn_stop r")
    case False
    show ?thesis
    proof (cases "next_operation now ?d0")
      case (Some op)
      show ?thesis
      proof (cases "rn_retired r \<and> \<not> rn_gone r")
        case go: False
        have "length (waiting ?d0) \<le> length (waiting d) + length (rn_arrive r)" by (simp add: waiting_def)
        moreover have "length (others (po_id op) (waiting ?d0)) < length (waiting ?d0)"
          unfolding others_def by (rule length_filter_less [of op]) (use next_operation_Some(1) [OF Some] in simp_all)
        ultimately have "length (waiting (round_step sc dr op r ?d0)) + length (concat (map rn_arrive rs)) < length rs"
          unfolding waiting_round_step using 2(2) by simp
        from 2(1) [OF refl False Some go this] show ?thesis
          unfolding drain_rounds.simps Let_def if_not_P [OF False] Some option.case if_not_P [OF go] by auto
      qed (simp add: False Some)
    qed (simp add: False)
  qed simp
qed simp

subsection \<open>The order of the attempts\<close>

definition due :: "int \<Rightarrow> PendingOperation \<Rightarrow> bool" where
  "due now op \<longleftrightarrow> may_run now [] op"

definition arrivals :: "Round list \<Rightarrow> PendingOperation list" where
  "arrivals rounds = concat (map rn_arrive rounds)"

text \<open>Ids are not used twice, and what is enqueued during the drain is stamped no earlier than what is there.\<close>

definition in_step :: "Drain \<Rightarrow> PendingOperation list \<Rightarrow> bool" where
  "in_step d arr \<longleftrightarrow>
     distinct (map po_id (waiting d @ arr)) \<and> po_id ` set arr \<inter> set (dr_skipped d) = {} \<and>
     sorted (map po_createdAt arr) \<and> (\<forall>o'\<in>set (waiting d). \<forall>a\<in>set arr. po_createdAt o' \<le> po_createdAt a)"

lemma arrivals_simps [simp]: "arrivals [] = []" "arrivals (r # rs) = rn_arrive r @ arrivals rs"
  by (simp_all add: arrivals_def)

lemma due_may_run: "may_run now skipped op \<longleftrightarrow> due now op \<and> po_id op \<notin> set skipped"
  by (auto simp: due_def may_run_def)

lemma in_step_arrive:
  assumes "in_step d (as @ arr)"
  shows "waiting (d\<lparr>dr_ops := dr_ops d @ as\<rparr>) = waiting d @ as" "in_step (d\<lparr>dr_ops := dr_ops d @ as\<rparr>) arr"
proof -
  have "filter (\<lambda>op. po_id op \<notin> set (dr_skipped d)) as = as" using assms by (auto simp: in_step_def filter_id_conv)
  then show w: "waiting (d\<lparr>dr_ops := dr_ops d @ as\<rparr>) = waiting d @ as" by (simp add: waiting_def)
  show "in_step (d\<lparr>dr_ops := dr_ops d @ as\<rparr>) arr" unfolding in_step_def w using assms by (auto simp: in_step_def sorted_append)
qed

lemma in_step_round:
  assumes "in_step d arr" "op \<in> set (waiting d)"
  shows "in_step (round_step sc dr op r d) arr"
proof -
  have "distinct (map po_id (others (po_id op) (waiting d) @ arr))" using assms(1) by (auto simp: in_step_def others_def distinct_key_filter)
  moreover have "po_id op \<notin> po_id ` set arr" using assms by (auto simp: in_step_def)
  moreover have "po_id ` set arr \<inter> set (dr_skipped (round_step sc dr op r d)) = {}"
  proof -
    have new_skip: "A \<inter> S' = {}" if "A \<inter> S = {}" "i \<notin> A" "S' \<subseteq> insert i S" for A S S' :: "string set" and i using that by blast
    show ?thesis by (rule new_skip [OF _ \<open>po_id op \<notin> po_id ` set arr\<close> round_step_simps(2)]) (use assms(1) in \<open>simp add: in_step_def\<close>)
  qed
  moreover have "sorted (map po_createdAt arr)" "\<forall>o'\<in>set (others (po_id op) (waiting d)). \<forall>a\<in>set arr. po_createdAt o' \<le> po_createdAt a"
    using assms(1) by (simp_all add: in_step_def)
  ultimately show ?thesis unfolding in_step_def waiting_round_step by blast
qed

lemma waiting_op_unique:
  assumes "in_step d arr" "op \<in> set (waiting d)" "o' \<in> set (dr_ops d)" "po_id o' = po_id op"
  shows "o' = op"
proof -
  have "o' \<in> set (waiting d)" using assms(2-4) by (simp add: waiting_def)
  with assms show ?thesis by (auto simp: in_step_def distinct_map dest: inj_onD)
qed

definition attempt_of :: "PendingOperation list \<Rightarrow> int \<Rightarrow> PendingOperation \<times> execution \<times> op_error option \<Rightarrow> bool" where
  "attempt_of ops now t \<longleftrightarrow> (\<exists>o'\<in>set ops. due now o' \<and> po_id o' = po_id (fst t) \<and> po_createdAt o' = po_createdAt (fst t) \<and> po_type o' = po_type (fst t))"

lemma attempted_row_of:
  assumes "in_step d arr" "next_operation now d = Some op"
  obtains t where "dr_attempts (attempted sc dr op r d) = dr_attempts d @ [t]" "po_id (fst t) = po_id op" "po_createdAt (fst t) = po_createdAt op"
    "po_type (fst t) = po_type op" "snd (snd t) = execution_error (fst t) (executeOperation sc dr (fst t)) (rn_answer r)"
proof -
  note nx = next_operation_Some [OF assms(2)]
  obtain c o0 where c: "po_id c = po_id op" "o0 \<in> set (dr_ops d)" "po_id o0 = po_id op" "po_createdAt o0 = po_createdAt c" "po_type o0 = po_type c"
    "dr_attempts (attempted sc dr op r d) = dr_attempts d @ [(c, executeOperation sc dr c, execution_error c (executeOperation sc dr c) (rn_answer r))]"
    using attempted_row [OF nx(2), of sc dr r] by metis
  have "o0 = op" by (rule waiting_op_unique [OF assms(1) nx(1) c(2,3)])
  with c show thesis by (intro that [OF c(6)]) simp_all
qed

lemma drain_rounds_order:
  "in_step d (arrivals rounds) \<Longrightarrow>
   \<exists>new. dr_attempts (fst (drain_rounds sc dr now rounds d)) = dr_attempts d @ new \<and> distinct (map (po_id \<circ> fst) new)
     \<and> sorted (map (po_createdAt \<circ> fst) new) \<and> (\<forall>t\<in>set new. attempt_of (waiting d @ arrivals rounds) now t)"
proof (induction sc dr now rounds d rule: drain_rounds.induct)
  case (2 sc dr now r rs d)
  let ?d0 = "d\<lparr>dr_ops := dr_ops d @ rn_arrive r\<rparr>"
  note step0 = in_step_arrive [OF 2(2) [unfolded arrivals_simps]]
  show ?case
  proof (cases "rn_stop r")
    case False
    show ?thesis
    proof (cases "next_operation now ?d0")
      case (Some op)
      note nx = next_operation_Some [OF Some]
      obtain t where t: "dr_attempts (attempted sc dr op r ?d0) = dr_attempts ?d0 @ [t]" "po_id (fst t) = po_id op" "po_createdAt (fst t) = po_createdAt op"
        "po_type (fst t) = po_type op" using attempted_row_of [OF step0(2) Some] by metis
      have "attempt_of (waiting ?d0) now t" using nx(1,3) t(2-4) by (auto simp: attempt_of_def due_may_run intro!: bexI [of _ op])
      then have t_of: "attempt_of (waiting d @ arrivals (r # rs)) now t" using step0(1) by (auto simp: attempt_of_def)
      show ?thesis
      proof (cases "rn_retired r \<and> \<not> rn_gone r")
        case True
        then show ?thesis using t(1) t_of by (intro exI [of _ "[t]"]) (simp add: False Some)
      next
        case go: False
        let ?d1 = "round_step sc dr op r ?d0"
        obtain new where new: "dr_attempts (fst (drain_rounds sc dr now rs ?d1)) = dr_attempts ?d1 @ new" "distinct (map (po_id \<circ> fst) new)"
          "sorted (map (po_createdAt \<circ> fst) new)" "\<forall>t\<in>set new. attempt_of (waiting ?d1 @ arrivals rs) now t"
          using 2(1) [OF refl False Some go in_step_round [OF step0(2) nx(1)]] by blast
        have eq: "drain_rounds sc dr now (r # rs) d = drain_rounds sc dr now rs ?d1" by (simp add: False Some go del: not_not)
        have of_new: "attempt_of (waiting d @ arrivals (r # rs)) now s \<and> po_id (fst s) \<noteq> po_id op \<and> po_createdAt op \<le> po_createdAt (fst s)" if s: "s \<in> set new" for s
        proof -
          from new(4) s obtain o' where o': "o' \<in> set (waiting ?d1) \<or> o' \<in> set (arrivals rs)" "due now o'" "po_id o' = po_id (fst s)"
            "po_createdAt o' = po_createdAt (fst s)" "po_type o' = po_type (fst s)" by (auto simp: attempt_of_def)
          from o'(1) show ?thesis
          proof
            assume w: "o' \<in> set (waiting ?d1)"
            then have w0: "o' \<in> set (waiting ?d0)" "po_id o' \<noteq> po_id op" by (simp_all add: waiting_round_step)
            with nx(4) [of o'] o'(2) have "po_createdAt op \<le> po_createdAt o'" by (auto simp: waiting_def due_may_run)
            then show ?thesis using w0 o'(2-5) step0(1) by (auto simp: attempt_of_def)
          next
            assume a: "o' \<in> set (arrivals rs)"
            with step0(2) nx(1) have "po_id o' \<noteq> po_id op" "po_createdAt op \<le> po_createdAt o'" by (auto simp: in_step_def)
            then show ?thesis using a o'(2-5) by (auto simp: attempt_of_def)
          qed
        qed
        show ?thesis
        proof (cases "rn_gone r")
          case True
          then show ?thesis using new(1-3) of_new unfolding eq by (intro exI [of _ new]) (simp add: round_step_simps o_def)
        next
          case kept: False
          have "po_id op \<notin> (po_id \<circ> fst) ` set new" using of_new unfolding image_iff comp_def by metis
          then have "distinct (map (po_id \<circ> fst) (t # new))" using new(2) t(2) by simp
          moreover have "sorted (map (po_createdAt \<circ> fst) (t # new))" using new(3) t(3) of_new by simp
          moreover have "dr_attempts (fst (drain_rounds sc dr now rs ?d1)) = dr_attempts d @ t # new" using new(1) t(1) kept by (simp add: round_step_simps)
          moreover have "\<forall>s\<in>set (t # new). attempt_of (waiting d @ arrivals (r # rs)) now s" using t_of of_new by simp
          ultimately show ?thesis unfolding eq by blast
        qed
      qed
    qed (simp add: False)
  qed simp
qed simp

subsection \<open>What becomes of an operation\<close>

lemma settled_cong: "po_type a = po_type b \<Longrightarrow> settled a r = settled b r"
  by (cases r) (simp_all add: settled_alt)

lemma attempted_deletes:
  assumes "j \<in> po_id ` set (dr_ops d)" "j \<notin> po_id ` set (dr_ops (attempted sc dr op r d))"
  shows "po_type op = ''dispatch_command'' \<and> rn_answer r = None"
proof -
  let ?d = "claim (rn_clock r) op (absorb (rn_absorbed r) op d)"
  have "po_id ` set (dr_ops ?d) = po_id ` set (dr_ops d)" by (metis absorb_simps(2) claim_simps(2) list.set_map)
  with assms show ?thesis using attempt_deletes [of sc dr op r ?d] unfolding attempted_def by metis
qed

lemma dispatch_succeeds: "po_type c = ''dispatch_command'' \<Longrightarrow> execution_error c (executeOperation sc dr c) None = None"
  by (simp add: executeOperation_def Let_def execution_error_def)

lemma others_keep: "others i xs = others i ys \<Longrightarrow> j \<noteq> i \<Longrightarrow> j \<in> po_id ` set xs \<longleftrightarrow> j \<in> po_id ` set ys"
proof -
  assume eq: "others i xs = others i ys" and j: "j \<noteq> i"
  from arg_cong [OF eq, of set] have "{op \<in> set xs. po_id op \<noteq> i} = {op \<in> set ys. po_id op \<noteq> i}" by simp
  then have "po_id ` set xs - {i} = po_id ` set ys - {i}" by blast
  with j show ?thesis by blast
qed

lemma attempted_drops:
  assumes "in_step d arr" "next_operation now d = Some op" "j \<in> po_id ` set (dr_ops d)" "j \<notin> po_id ` set (dr_ops (attempted sc dr op r d))"
  shows "\<exists>t. dr_attempts (attempted sc dr op r d) = dr_attempts d @ [t] \<and> po_id (fst t) = j \<and> snd (snd t) = None"
proof -
  obtain t where t: "dr_attempts (attempted sc dr op r d) = dr_attempts d @ [t]" "po_id (fst t) = po_id op"
    "po_type (fst t) = po_type op" "snd (snd t) = execution_error (fst t) (executeOperation sc dr (fst t)) (rn_answer r)"
    using attempted_row_of [OF assms(1,2)] by metis
  have "j = po_id op" using others_keep [OF attempted_simps(1) [of op sc dr r d], of j] assms(3,4) by blast
  with t attempted_deletes [OF assms(3,4)] show ?thesis by (auto simp: dispatch_succeeds)
qed

lemma round_step_drops:
  assumes "in_step d arr" "next_operation now d = Some op" "\<not> rn_gone r"
    "j \<in> po_id ` set (dr_ops d)" "j \<notin> po_id ` set (dr_ops (round_step sc dr op r d))"
  shows "\<exists>t. dr_attempts (round_step sc dr op r d) = dr_attempts d @ [t] \<and> po_id (fst t) = j \<and> settled (fst t) (snd (snd t))"
proof (cases "j \<in> po_id ` set (dr_ops (attempted sc dr op r d))")
  case False
  from attempted_drops [OF assms(1,2,4) this] obtain t where
    "dr_attempts (attempted sc dr op r d) = dr_attempts d @ [t]" "po_id (fst t) = j" "snd (snd t) = None" by blast
  with assms(3) show ?thesis by (intro exI [of _ t]) (simp add: round_step_simps settled_alt)
next
  case True
  obtain t where t: "dr_attempts (attempted sc dr op r d) = dr_attempts d @ [t]" "po_id (fst t) = po_id op" "po_type (fst t) = po_type op"
    using attempted_row_of [OF assms(1,2)] by metis
  have "j = po_id op" using others_keep [OF round_step_simps(1) [of op sc dr r d], of j] assms(4,5) by blast
  moreover have "settled op (last_error (attempted sc dr op r d))"
  proof (rule ccontr)
    assume "\<not> ?thesis"
    from settle_attempt_simps(6) [OF this, of "rn_clock r" "attempted sc dr op r d"] True assms(5) show False
      unfolding round_step_def Let_def if_not_P [OF assms(3)] by (metis list.set_map)
  qed
  ultimately show ?thesis using t assms(3) settled_cong [of "fst t" op] by (auto simp: round_step_simps last_error_def)
qed

lemma drain_rounds_drops:
  "in_step d (arrivals rounds) \<Longrightarrow> \<forall>r\<in>set rounds. \<not> rn_gone r \<Longrightarrow> j \<in> po_id ` set (dr_ops d) \<Longrightarrow>
   j \<notin> po_id ` set (dr_ops (fst (drain_rounds sc dr now rounds d))) \<Longrightarrow>
   \<exists>t\<in>set (dr_attempts (fst (drain_rounds sc dr now rounds d))). po_id (fst t) = j \<and> settled (fst t) (snd (snd t))"
proof (induction sc dr now rounds d rule: drain_rounds.induct)
  case (2 sc dr now r rs d)
  let ?d0 = "d\<lparr>dr_ops := dr_ops d @ rn_arrive r\<rparr>"
  note step0 = in_step_arrive(2) [OF 2(2) [unfolded arrivals_simps]]
  have kept: "\<not> rn_gone r" and here: "j \<in> po_id ` set (dr_ops ?d0)" using 2(3,4) by auto
  show ?case
  proof (cases "rn_stop r")
    case False
    show ?thesis
    proof (cases "next_operation now ?d0")
      case (Some op)
      show ?thesis
      proof (cases "rn_retired r \<and> \<not> rn_gone r")
        case True
        then have eq: "drain_rounds sc dr now (r # rs) d = (attempted sc dr op r ?d0, True)" by (simp add: False Some)
        from attempted_drops [OF step0 Some here] 2(5) show ?thesis unfolding eq fst_conv by (force simp: settled_alt)
      next
        case go: False
        let ?d1 = "round_step sc dr op r ?d0"
        have eq: "drain_rounds sc dr now (r # rs) d = drain_rounds sc dr now rs ?d1" by (simp add: False Some go del: not_not)
        note step1 = in_step_round [OF step0 next_operation_Some(1) [OF Some], of sc dr r]
        show ?thesis
        proof (cases "j \<in> po_id ` set (dr_ops ?d1)")
          case True
          from 2(1) [OF refl False Some go step1 _ True] 2(3,5) show ?thesis unfolding eq by simp
        next
          case gone: False
          from round_step_drops [OF step0 Some kept here gone] obtain t where
            t: "dr_attempts ?d1 = dr_attempts ?d0 @ [t]" "po_id (fst t) = j" "settled (fst t) (snd (snd t))" by blast
          from drain_rounds_order [OF step1] obtain new where "dr_attempts (fst (drain_rounds sc dr now rs ?d1)) = dr_attempts ?d1 @ new" by blast
          with t show ?thesis unfolding eq by auto
        qed
      qed
    qed (use 2(5) here in \<open>simp add: False\<close>)
  qed (use 2(5) here in simp)
qed simp

section \<open>The queue\<close>

lemma next_run_at_most:
  assumes "o' \<in> set ops" "\<not> po_blockedOnPrivacy o'" "online"
  shows "\<exists>t. next_run online clock ops = Some t \<and> t \<le> (case po_retryAfter o' of None \<Rightarrow> clock | Some u \<Rightarrow> u)"
proof -
  let ?times = "set (map (\<lambda>op. case po_retryAfter op of None \<Rightarrow> clock | Some t \<Rightarrow> t) (filter (\<lambda>op. \<not> po_blockedOnPrivacy op) ops))"
  have "filter (\<lambda>op. \<not> po_blockedOnPrivacy op) ops \<noteq> []" using assms by (auto simp: filter_empty_conv)
  then have "next_run online clock ops = Some (Min ?times)" using assms(3) by (simp add: next_run_def Let_def)
  moreover have "Min ?times \<le> (case po_retryAfter o' of None \<Rightarrow> clock | Some u \<Rightarrow> u)"
    by (rule Min_le) (use assms in auto)
  ultimately show ?thesis by blast
qed

lemma in_step_start:
  assumes "distinct (map po_id (ops @ arrivals rounds))" "sorted (map po_createdAt (arrivals rounds))"
    "\<forall>o'\<in>set ops. \<forall>a\<in>set (arrivals rounds). po_createdAt o' \<le> po_createdAt a"
  shows "in_step (start_drain ops) (arrivals rounds)" "waiting (start_drain ops) = ops" "dr_ops (start_drain ops) = ops"
    "dr_attempts (start_drain ops) = []"
  using assms by (simp_all add: in_step_def waiting_def start_drain_def)

text \<open>
  C20. A drain of the queue attempts an operation at most once and the operations in the order in which they were enqueued,
  whatever the server answers and whatever is enqueued meanwhile.  It needs no more rounds than there are operations, and when
  nothing interrupts it, what is left is not due, was tried, or waits for the user.
\<close>

theorem drain_replays_once_in_order:
  assumes "processOperationQueue scheduled drafts now rounds online clock ops = (d, over, next)"
    and "distinct (map po_id (ops @ arrivals rounds))" and "sorted (map po_createdAt (arrivals rounds))"
    and "\<forall>o'\<in>set ops. \<forall>a\<in>set (arrivals rounds). po_createdAt o' \<le> po_createdAt a"
  shows "distinct (map (po_id \<circ> fst) (dr_attempts d)) \<and> sorted (map (po_createdAt \<circ> fst) (dr_attempts d))
    \<and> (\<forall>t\<in>set (dr_attempts d). \<exists>o'\<in>set (ops @ arrivals rounds). due now o' \<and> po_id o' = po_id (fst t) \<and> po_type o' = po_type (fst t))
    \<and> (length ops + length (arrivals rounds) < length rounds \<longrightarrow>
        over \<and> ((\<forall>r\<in>set rounds. \<not> rn_stop r \<and> \<not> rn_retired r) \<longrightarrow> next_operation now d = None))"
proof -
  note start = in_step_start [OF assms(2-4)]
  have run: "drain_rounds scheduled drafts now rounds (start_drain ops) = (d, over)"
    using assms(1) by (simp add: processOperationQueue_def split: prod.splits)
  have order: "distinct (map (po_id \<circ> fst) (dr_attempts d)) \<and> sorted (map (po_createdAt \<circ> fst) (dr_attempts d))
      \<and> (\<forall>t\<in>set (dr_attempts d). attempt_of (ops @ arrivals rounds) now t)"
    using drain_rounds_order [OF start(1), where sc = scheduled and dr = drafts and now = now] by (simp add: run start(2,4) del: set_append)
  have ends: "over \<and> ((\<forall>r\<in>set rounds. \<not> rn_stop r \<and> \<not> rn_retired r) \<longrightarrow> next_operation now d = None)"
    if "length ops + length (arrivals rounds) < length rounds"
    using drain_rounds_ends [where d = "start_drain ops" and rounds = rounds and sc = scheduled and dr = drafts and now = now] that by (simp add: run start(2) arrivals_def)
  show ?thesis using order ends unfolding attempt_of_def by blast
qed


section \<open>An example\<close>

definition edit_of :: "string \<Rightarrow> int \<Rightarrow> string \<Rightarrow> PendingOperation" where
  "edit_of i stamp text' = new_operation (i, stamp) ''w'' ''edit_message'' (JObj [(''messageId'', JStr ''m1''), (''contentJson'', JStr text')])"

definition answered :: "op_error option \<Rightarrow> Round" where
  "answered e = \<lparr>rn_arrive = [], rn_absorbed = None, rn_gone = False, rn_stop = False, rn_retired = False, rn_clock = 100, rn_answer = e\<rparr>"

definition sent :: "Drain \<Rightarrow> execution list" where
  "sent d = map (fst \<circ> snd) (filter (\<lambda>t. snd (snd t) = None) (dr_attempts d))"

definition ex_first_drain :: "Drain \<times> bool \<times> int option" where
  "ex_first_drain = processOperationQueue True True 100 (map answered [Some (ApiError 503 ''''), None, None]) True 100
     [edit_of ''op_1'' 1 ''old'', edit_of ''op_2'' 2 ''new'']"

text \<open>
  Two edits of one message are waiting; the server is briefly unavailable for the first.  The drain goes on with the second
  and delivers it, and the next one delivers the first: the message ends with the text of the older edit.
\<close>

theorem retried_edit_overwrites_later_edit:
  "(case ex_first_drain of (d, over, next) \<Rightarrow>
      over \<and> next = Some 100 \<and>
      sent d @ sent (fst (processOperationQueue True True 100 (map answered [None, None]) True 100 (dr_ops d))) =
        map (\<lambda>text'. Calls (Message_update ''w'' (JStr ''m1'') (JObj [(''contentJson'', JStr text')]))) [''new'', ''old''])"
  by code_simp

definition ex_ops :: "PendingOperation list" where
  "ex_ops = [edit_of ''op_1'' 1 ''old'', edit_of ''op_2'' 2 ''new'']"

definition ex_rounds :: "Round list" where
  "ex_rounds = (answered (Some (ApiError 503 ''''))) # (answered None)\<lparr>rn_arrive := [edit_of ''op_3'' 3 ''newer'']\<rparr> #
     map answered [Some (ApiError 404 ''''), None, None]"

lemma ex_drain_in_step:
  "distinct (map po_id (ex_ops @ arrivals ex_rounds))" "sorted (map po_createdAt (arrivals ex_rounds))"
  "\<forall>o'\<in>set ex_ops. \<forall>a\<in>set (arrivals ex_rounds). po_createdAt o' \<le> po_createdAt a" "\<forall>r\<in>set ex_rounds. \<not> rn_gone r"
  "length ex_ops + length (arrivals ex_rounds) < length ex_rounds" "\<forall>r\<in>set ex_rounds. \<not> rn_stop r \<and> \<not> rn_retired r"
  by code_simp+

definition ex_drain :: "Drain \<times> bool \<times> int option" where
  "ex_drain = processOperationQueue True True 100 ex_rounds True 100 ex_ops"

lemma ex_drain_parts: "processOperationQueue True True 100 ex_rounds True 100 ex_ops = (fst ex_drain, fst (snd ex_drain), snd (snd ex_drain))"
  by (simp add: ex_drain_def)

lemma ex_drain_attempts:
  "map (\<lambda>t. (po_id (fst t), snd (snd t))) (dr_attempts (fst ex_drain)) = [(''op_1'', Some (ApiError 503 '''')), (''op_2'', None), (''op_3'', Some (ApiError 404 ''''))]"
  "map po_id (dr_ops (fst ex_drain)) = [''op_1'']"
  by code_simp+

theorem drain_replays_once_in_order_witness:
  "map (po_id \<circ> fst) (dr_attempts (fst ex_drain)) = [''op_1'', ''op_2'', ''op_3''] \<and> sorted (map (po_createdAt \<circ> fst) (dr_attempts (fst ex_drain)))
    \<and> fst (snd ex_drain) \<and> next_operation 100 (fst ex_drain) = None"
proof -
  have "map (po_id \<circ> fst) (dr_attempts (fst ex_drain)) = [''op_1'', ''op_2'', ''op_3'']"
    using arg_cong [OF ex_drain_attempts(1), of "map fst"] by (simp add: comp_def)
  then show ?thesis using drain_replays_once_in_order [OF ex_drain_parts ex_drain_in_step(1-3)] ex_drain_in_step(5,6) by blast
qed


end
