(* ===== verification/Drafts.thy ===== *)
theory Drafts
  imports Threa_Prelude Json "HOL-Library.List_Lexorder" "HOL-Library.Char_ord"
begin

text \<open>
  Composer drafts that roam over the author's devices: \<^verbatim>\<open>apps/backend/src/features/drafts\<close>
  (\<^verbatim>\<open>repository.ts\<close>, \<^verbatim>\<open>service.ts\<close>, \<^verbatim>\<open>view.ts\<close>).  A write of a draft that another device changed is split into a draft of
  its own instead of overwriting it, and a draft that was sent or discarded stays as a tombstone that remembers
  which writes it covers.  Each operation is one transaction that locks the row, so it is one function here; ids drawn
  for a split and the clock are arguments.
\<close>

section \<open>Rows\<close>

text \<open>The composer payload, the part of a row that a write replaces as a whole.\<close>

record DraftContent =
  dc_contentJson :: "json option"
  dc_contentMarkdown :: "string option"
  dc_attachmentIds :: "string list"
  dc_command :: "json option"
  dc_contextRefs :: "json option"
  dc_ciphertext :: "string option"
  dc_envelope :: "json option"
  dc_e2eVersion :: "int option"

text \<open>\<open>mapRow\<close> only renames the columns, so \<open>Draft\<close> is this record too.\<close>

record DraftRow =
  dw_id :: string
  dw_workspaceId :: string
  dw_userId :: string
  dw_scope :: string
  dw_rootStreamId :: "string option"
  dw_content :: DraftContent
  dw_version :: int
  dw_lastClientWriteId :: "string option"
  dw_supersededWriteIds :: "string list option"
  dw_clientUpdatedAt :: timestamp
  dw_stashedAt :: "timestamp option"
  dw_createdAt :: timestamp
  dw_updatedAt :: timestamp
  dw_deletedAt :: "timestamp option"

record DraftView =
  dv_id :: string
  dv_workspaceId :: string
  dv_userId :: string
  dv_scope :: string
  dv_rootStreamId :: "string option"
  dv_content :: DraftContent
  dv_version :: int
  dv_clientUpdatedAt :: timestamp
  dv_stashedAt :: "timestamp option"
  dv_lastClientWriteId :: "string option"
  dv_createdAt :: timestamp
  dv_updatedAt :: timestamp

definition toDraftView :: "DraftRow \<Rightarrow> DraftView" where
  "toDraftView r = \<lparr>dv_id = dw_id r, dv_workspaceId = dw_workspaceId r, dv_userId = dw_userId r, dv_scope = dw_scope r,
     dv_rootStreamId = dw_rootStreamId r, dv_content = dw_content r, dv_version = dw_version r, dv_clientUpdatedAt = dw_clientUpdatedAt r,
     dv_stashedAt = dw_stashedAt r, dv_lastClientWriteId = dw_lastClientWriteId r, dv_createdAt = dw_createdAt r, dv_updatedAt = dw_updatedAt r\<rparr>"

definition draftStreamUniquenessKey :: "string \<Rightarrow> string \<Rightarrow> string" where
  "draftStreamUniquenessKey userId draftId = ''draft:'' @ userId @ '':'' @ draftId"

section \<open>The repository\<close>

definition owned :: "string \<Rightarrow> string \<Rightarrow> string \<Rightarrow> DraftRow \<Rightarrow> bool" where
  "owned ws user i r \<longleftrightarrow> dw_id r = i \<and> dw_workspaceId r = ws \<and> dw_userId r = user"

definition insertIfAbsent :: "DraftRow \<Rightarrow> DraftRow table \<Rightarrow> DraftRow table \<times> DraftRow option" where
  "insertIfAbsent new db = (if dw_id new \<in> dw_id ` set db then (db, None) else (db @ [new], Some new))"

definition findByIdForUpdate :: "DraftRow table \<Rightarrow> string \<Rightarrow> string \<Rightarrow> string \<Rightarrow> DraftRow option" where
  "findByIdForUpdate db ws user i = find (owned ws user i) db"

text \<open>An \<open>UPDATE\<close> of the row of one id that returns it.\<close>

definition update_returning :: "(DraftRow \<Rightarrow> bool) \<Rightarrow> (DraftRow \<Rightarrow> DraftRow) \<Rightarrow> DraftRow table \<Rightarrow> DraftRow table \<times> DraftRow option" where
  "update_returning p f db = (sql_update p f db, map_option f (find p db))"

record UpsertDraftParams =
  up_workspaceId :: string
  up_userId :: string
  up_id :: string
  up_scope :: string
  up_rootStreamId :: "string option"
  up_expectedVersion :: int
  up_writeId :: string
  up_priorWriteIds :: "string list"
  up_clientUpdatedAt :: timestamp
  up_stashedAt :: "timestamp option option"  \<comment> \<open>\<open>None\<close>: absent on the wire\<close>
  up_content :: DraftContent

definition ownWriteIds :: "UpsertDraftParams \<Rightarrow> string list" where
  "ownWriteIds p = up_writeId p # up_priorWriteIds p"

text \<open>The row last written by one of the given writes; \<open>= ANY\<close> of null is not true.\<close>

definition written_by :: "string list \<Rightarrow> DraftRow \<Rightarrow> bool" where
  "written_by ids r \<longleftrightarrow> ids \<noteq> [] \<and> (case dw_lastClientWriteId r of None \<Rightarrow> False | Some w \<Rightarrow> w \<in> set ids)"

definition apply_write :: "timestamp \<Rightarrow> UpsertDraftParams \<Rightarrow> DraftRow \<Rightarrow> DraftRow" where
  "apply_write now p r = r\<lparr>dw_scope := up_scope p, dw_rootStreamId := up_rootStreamId p, dw_content := up_content p,
     dw_lastClientWriteId := Some (up_writeId p), dw_clientUpdatedAt := up_clientUpdatedAt p,
     dw_stashedAt := (case up_stashedAt p of None \<Rightarrow> dw_stashedAt r | Some s \<Rightarrow> s), dw_updatedAt := now, dw_version := dw_version r + 1\<rparr>"

definition casUpdate :: "timestamp \<Rightarrow> UpsertDraftParams \<Rightarrow> DraftRow table \<Rightarrow> DraftRow table \<times> DraftRow option" where
  "casUpdate now p = update_returning
     (\<lambda>r. owned (up_workspaceId p) (up_userId p) (up_id p) r \<and> dw_deletedAt r = None \<and>
          (dw_version r = up_expectedVersion p \<or> written_by (ownWriteIds p) r))
     (apply_write now p)"

definition bury :: "timestamp \<Rightarrow> string list \<Rightarrow> DraftRow \<Rightarrow> DraftRow" where
  "bury now supersededWriteIds r = r\<lparr>dw_deletedAt := Some now, dw_updatedAt := now,
     dw_supersededWriteIds := Some supersededWriteIds, dw_version := dw_version r + 1\<rparr>"

definition softDeleteCas :: "timestamp \<Rightarrow> string \<Rightarrow> string \<Rightarrow> string \<Rightarrow> int \<Rightarrow> string list \<Rightarrow> DraftRow table \<Rightarrow> DraftRow table \<times> DraftRow option" where
  "softDeleteCas now ws user i expectedVersion supersededWriteIds = update_returning
     (\<lambda>r. owned ws user i r \<and> dw_deletedAt r = None \<and> (dw_version r = expectedVersion \<or> written_by supersededWriteIds r))
     (bury now supersededWriteIds)"

definition superseded :: "DraftRow \<Rightarrow> string list" where
  "superseded r = (case dw_supersededWriteIds r of None \<Rightarrow> [] | Some ids \<Rightarrow> ids)"

definition merged_ids :: "DraftRow \<Rightarrow> string list \<Rightarrow> string list" where
  "merged_ids r ids = take 128 (js_dedup (superseded r @ ids))"

definition mergeTombstoneSupersededWriteIds :: "string \<Rightarrow> string \<Rightarrow> string \<Rightarrow> string list \<Rightarrow> DraftRow table \<Rightarrow> DraftRow table" where
  "mergeTombstoneSupersededWriteIds ws user i ids db =
    (if ids = [] then db
     else case find (\<lambda>r. owned ws user i r \<and> dw_deletedAt r \<noteq> None) db of
       None \<Rightarrow> db
     | Some row \<Rightarrow>
         if length (merged_ids row ids) = length (superseded row) then db
         else sql_update (\<lambda>r. owned ws user i r \<and> dw_deletedAt r \<noteq> None) (\<lambda>r. r\<lparr>dw_supersededWriteIds := Some (merged_ids row ids)\<rparr>) db)"

definition no_content :: DraftContent where
  "no_content = \<lparr>dc_contentJson = None, dc_contentMarkdown = None, dc_attachmentIds = [], dc_command = None, dc_contextRefs = None,
     dc_ciphertext = None, dc_envelope = None, dc_e2eVersion = None\<rparr>"

text \<open>The marker that is planted when the id has not been seen: a tombstone with an empty scope.\<close>

definition negative_tombstone :: "timestamp \<Rightarrow> string \<Rightarrow> string \<Rightarrow> string \<Rightarrow> string list \<Rightarrow> DraftRow" where
  "negative_tombstone now ws user i supersededWriteIds = \<lparr>dw_id = i, dw_workspaceId = ws, dw_userId = user, dw_scope = [], dw_rootStreamId = None,
     dw_content = no_content, dw_version = 1, dw_lastClientWriteId = None, dw_supersededWriteIds = Some supersededWriteIds, dw_clientUpdatedAt = now,
     dw_stashedAt = None, dw_createdAt = now, dw_updatedAt = now, dw_deletedAt = Some now\<rparr>"

definition softDelete :: "timestamp \<Rightarrow> string \<Rightarrow> string \<Rightarrow> string \<Rightarrow> string list \<Rightarrow> DraftRow table \<Rightarrow> DraftRow table \<times> DraftRow option" where
  "softDelete now ws user i supersededWriteIds db =
    (if i \<in> dw_id ` set db
     then update_returning (\<lambda>r. owned ws user i r \<and> dw_deletedAt r = None) (bury now supersededWriteIds) db
     else (db @ [negative_tombstone now ws user i supersededWriteIds], Some (negative_tombstone now ws user i supersededWriteIds)))"

definition rescopeByScope :: "timestamp \<Rightarrow> string \<Rightarrow> string \<Rightarrow> string \<Rightarrow> string option \<Rightarrow> DraftRow table \<Rightarrow> DraftRow table \<times> DraftRow list" where
  "rescopeByScope now ws fromScope toScope rootStreamId db =
    (let p = (\<lambda>r. dw_workspaceId r = ws \<and> dw_scope r = fromScope \<and> dw_deletedAt r = None);
         f = (\<lambda>r. r\<lparr>dw_scope := toScope, dw_rootStreamId := rootStreamId, dw_updatedAt := now, dw_version := dw_version r + 1\<rparr>)
     in (sql_update p f db, map f (filter p db)))"

definition newest_drafts :: "int \<Rightarrow> DraftRow table \<Rightarrow> DraftRow list" where
  "newest_drafts limit rows = order_limit (\<lambda>r. - dw_clientUpdatedAt r) limit (rev (sort_key dw_id rows))"

definition listByScopePrefix :: "DraftRow table \<Rightarrow> string \<Rightarrow> string \<Rightarrow> string \<Rightarrow> int \<Rightarrow> DraftRow list" where
  "listByScopePrefix db ws user scopePrefix limit = newest_drafts limit
     (filter (\<lambda>r. dw_workspaceId r = ws \<and> dw_userId r = user \<and> take (length scopePrefix) (dw_scope r) = scopePrefix \<and> dw_deletedAt r = None) db)"

definition MAX_DRAFTS_PER_USER :: int where "MAX_DRAFTS_PER_USER = 500"

definition listByUser :: "DraftRow table \<Rightarrow> string \<Rightarrow> string \<Rightarrow> DraftRow list" where
  "listByUser db ws user = newest_drafts MAX_DRAFTS_PER_USER
     (filter (\<lambda>r. dw_workspaceId r = ws \<and> dw_userId r = user \<and> dw_deletedAt r = None) db)"

section \<open>The service\<close>

datatype draft_event = Draft_upserted string string DraftView | Draft_deleted string string string

datatype draft_error = Split_id_collision

record UpsertDraftResult =
  ur_draft :: DraftView
  ur_split :: bool
  ur_originalId :: "string option"
  ur_keptDraft :: "DraftView option"

definition draft_row :: "timestamp \<Rightarrow> string \<Rightarrow> UpsertDraftParams \<Rightarrow> DraftRow" where
  "draft_row now i p = \<lparr>dw_id = i, dw_workspaceId = up_workspaceId p, dw_userId = up_userId p, dw_scope = up_scope p, dw_rootStreamId = up_rootStreamId p,
     dw_content = up_content p, dw_version = 1, dw_lastClientWriteId = Some (up_writeId p), dw_supersededWriteIds = None,
     dw_clientUpdatedAt = up_clientUpdatedAt p, dw_stashedAt = (case up_stashedAt p of None \<Rightarrow> None | Some s \<Rightarrow> s), dw_createdAt = now, dw_updatedAt = now,
     dw_deletedAt = None\<rparr>"

definition publishUpsert :: "DraftView \<Rightarrow> draft_event" where
  "publishUpsert v = Draft_upserted (dv_workspaceId v) (dv_userId v) v"

definition finishUpsert :: "DraftRow \<Rightarrow> bool \<Rightarrow> UpsertDraftResult \<times> draft_event list" where
  "finishUpsert row split =
    (\<lparr>ur_draft = toDraftView row, ur_split = split, ur_originalId = None, ur_keptDraft = None\<rparr>, [publishUpsert (toDraftView row)])"

text \<open>The row is returned as it is, and nothing is written.\<close>

definition unchanged :: "DraftRow \<Rightarrow> UpsertDraftResult" where
  "unchanged r = \<lparr>ur_draft = toDraftView r, ur_split = False, ur_originalId = None, ur_keptDraft = None\<rparr>"

definition split_draft ::
  "timestamp \<Rightarrow> string \<Rightarrow> UpsertDraftParams \<Rightarrow> DraftRow option \<Rightarrow> DraftRow table \<Rightarrow> draft_error + (DraftRow table \<times> UpsertDraftResult \<times> draft_event list)"
where
  "split_draft now fresh p existing db =
    (case insertIfAbsent (draft_row now fresh p) db of
       (_, None) \<Rightarrow> Inl Split_id_collision
     | (db', Some newRow) \<Rightarrow>
        (let (result, out) = finishUpsert newRow True;
             keptDraft = (case existing of None \<Rightarrow> None | Some e \<Rightarrow> if dw_deletedAt e = None then Some (toDraftView e) else None)
         in Inr (db', result\<lparr>ur_originalId := Some (up_id p), ur_keptDraft := keptDraft\<rparr>, out)))"

definition draft_upsert ::
  "timestamp \<Rightarrow> string \<Rightarrow> UpsertDraftParams \<Rightarrow> DraftRow table \<Rightarrow> draft_error + (DraftRow table \<times> UpsertDraftResult \<times> draft_event list)"
where
  "draft_upsert now fresh p db =
    (case insertIfAbsent (draft_row now (up_id p) p) db of
       (db', Some inserted) \<Rightarrow> Inr (db', finishUpsert inserted False)
     | (_, None) \<Rightarrow>
        (case findByIdForUpdate db (up_workspaceId p) (up_userId p) (up_id p) of
           None \<Rightarrow> split_draft now fresh p None db
         | Some existing \<Rightarrow>
             if dw_deletedAt existing \<noteq> None
             then (if dw_lastClientWriteId existing = Some (up_writeId p) \<or> (\<exists>i\<in>set (ownWriteIds p). i \<in> set (superseded existing))
                   then Inr (db, unchanged existing, [])
                   else split_draft now fresh p (Some existing) db)
             else if dw_lastClientWriteId existing = Some (up_writeId p) then Inr (db, unchanged existing, [])
             else (case casUpdate now p db of
                     (db', Some updated) \<Rightarrow> Inr (db', finishUpsert updated False)
                   | (_, None) \<Rightarrow> split_draft now fresh p (Some existing) db)))"

definition draft_resolve ::
  "timestamp \<Rightarrow> string \<Rightarrow> string \<Rightarrow> string \<Rightarrow> int \<Rightarrow> string list \<Rightarrow> DraftRow table \<Rightarrow> DraftRow table \<times> bool \<times> draft_event list"
where
  "draft_resolve now ws user i expectedVersion supersededWriteIds db =
    (case softDeleteCas now ws user i expectedVersion supersededWriteIds db of
       (_, None) \<Rightarrow> (mergeTombstoneSupersededWriteIds ws user i supersededWriteIds db, False, [])
     | (db', Some _) \<Rightarrow> (db', True, [Draft_deleted ws user i]))"

definition draft_delete :: "timestamp \<Rightarrow> string \<Rightarrow> string \<Rightarrow> string \<Rightarrow> string list \<Rightarrow> DraftRow table \<Rightarrow> DraftRow table \<times> draft_event list" where
  "draft_delete now ws user i supersededWriteIds db =
    (case softDelete now ws user i supersededWriteIds db of
       (db', Some _) \<Rightarrow> (db', [Draft_deleted ws user i])
     | (_, None) \<Rightarrow> (mergeTombstoneSupersededWriteIds ws user i supersededWriteIds db, []))"

definition draft_list :: "DraftRow table \<Rightarrow> string \<Rightarrow> string \<Rightarrow> DraftView list" where
  "draft_list db ws user = map toDraftView (listByUser db ws user)"

section \<open>What an operation does to the table\<close>

definition ids_unique :: "DraftRow table \<Rightarrow> bool" where
  "ids_unique db \<longleftrightarrow> distinct (map dw_id db)"

definition same_key :: "DraftRow \<Rightarrow> DraftRow \<Rightarrow> bool" where
  "same_key r r' \<longleftrightarrow> dw_id r' = dw_id r \<and> dw_workspaceId r' = dw_workspaceId r \<and> dw_userId r' = dw_userId r"

lemma same_key_refl [simp]: "same_key r r"
  by (simp add: same_key_def)

lemma owned_key: "same_key r r' \<Longrightarrow> owned ws user i r' \<longleftrightarrow> owned ws user i r"
  by (auto simp: same_key_def owned_def)

lemma row_keys [simp]:
  "same_key r (apply_write now p r)" "same_key r (bury now ids r)"
  "dw_id (draft_row now i p) = i" "dw_id (negative_tombstone now ws user i ids) = i"
  by (simp_all add: same_key_def apply_write_def bury_def draft_row_def negative_tombstone_def)

lemma owned_unique: "ids_unique db \<Longrightarrow> r \<in> set db \<Longrightarrow> q \<in> set db \<Longrightarrow> dw_id r = dw_id q \<Longrightarrow> r = q"
  by (auto simp: ids_unique_def distinct_map dest: inj_onD)

lemma find_unique: "ids_unique db \<Longrightarrow> r \<in> set db \<Longrightarrow> P r \<Longrightarrow> (\<And>q. P q \<Longrightarrow> dw_id q = dw_id r) \<Longrightarrow> find P db = Some r"
proof (induction db)
  case (Cons a db)
  show ?case
  proof (cases "P a")
    case True
    from Cons.prems(4) [OF True] have "a = r" by (intro owned_unique [OF Cons.prems(1)]) (use Cons.prems(2) in simp_all)
    with True show ?thesis by simp
  next
    case False
    then have "find P db = Some r"
      by (intro Cons.IH Cons.prems(3,4)) (use Cons.prems(1-3) in \<open>auto simp: ids_unique_def\<close>)
    with False show ?thesis by simp
  qed
qed simp

definition cas_ok :: "UpsertDraftParams \<Rightarrow> DraftRow \<Rightarrow> bool" where
  "cas_ok p r \<longleftrightarrow> owned (up_workspaceId p) (up_userId p) (up_id p) r \<and> dw_deletedAt r = None \<and>
     (dw_version r = up_expectedVersion p \<or> written_by (ownWriteIds p) r)"

definition proven_stale :: "UpsertDraftParams \<Rightarrow> DraftRow \<Rightarrow> bool" where
  "proven_stale p r \<longleftrightarrow> owned (up_workspaceId p) (up_userId p) (up_id p) r \<and> dw_deletedAt r \<noteq> None \<and>
     (dw_lastClientWriteId r = Some (up_writeId p) \<or> (\<exists>i\<in>set (ownWriteIds p). i \<in> set (superseded r)))"

lemma split_draft_result:
  assumes "split_draft now fresh p e db = Inr (db', res, out)"
  shows "fresh \<notin> dw_id ` set db" "db' = db @ [draft_row now fresh p]" "ur_draft res = toDraftView (draft_row now fresh p)" "ur_split res"
    "out = [publishUpsert (toDraftView (draft_row now fresh p))]"
  using assms by (auto simp: split_draft_def insertIfAbsent_def finishUpsert_def Let_def split: if_splits)

lemma draft_upsert_cases:
  assumes "draft_upsert now fresh p db = Inr (db', res, out)"
  obtains
    (insert) "up_id p \<notin> dw_id ` set db" "db' = db @ [draft_row now (up_id p) p]" "res = unchanged (draft_row now (up_id p) p)"
      "out = [publishUpsert (toDraftView (draft_row now (up_id p) p))]"
  | (stale) r where "r \<in> set db" "proven_stale p r" "db' = db" "res = unchanged r" "out = []"
  | (retry) r where "r \<in> set db" "owned (up_workspaceId p) (up_userId p) (up_id p) r" "dw_deletedAt r = None"
      "dw_lastClientWriteId r = Some (up_writeId p)" "db' = db" "res = unchanged r" "out = []"
  | (cas) r where "r \<in> set db" "cas_ok p r" "db' = sql_update (cas_ok p) (apply_write now p) db" "res = unchanged (apply_write now p r)"
      "out = [publishUpsert (toDraftView (apply_write now p r))]"
  | (split) "fresh \<notin> dw_id ` set db" "db' = db @ [draft_row now fresh p]" "ur_draft res = toDraftView (draft_row now fresh p)" "ur_split res"
      "out = [publishUpsert (toDraftView (draft_row now fresh p))]"
      "find (owned (up_workspaceId p) (up_userId p) (up_id p)) db = None \<or>
        (\<exists>r\<in>set db. owned (up_workspaceId p) (up_userId p) (up_id p) r \<and> \<not> proven_stale p r \<and> (dw_deletedAt r = None \<longrightarrow> find (cas_ok p) db = None))"
proof (cases "up_id p \<in> dw_id ` set db")
  case False
  then have "insertIfAbsent (draft_row now (up_id p) p) db = (db @ [draft_row now (up_id p) p], Some (draft_row now (up_id p) p))"
    by (auto simp: insertIfAbsent_def)
  with assms False show thesis by (intro insert) (simp_all add: draft_upsert_def finishUpsert_def unchanged_def)
next
  case True
  let ?find = "findByIdForUpdate db (up_workspaceId p) (up_userId p) (up_id p)"
  from True have "insertIfAbsent (draft_row now (up_id p) p) db = (db, None)" by (auto simp: insertIfAbsent_def)
  note up = assms [unfolded draft_upsert_def this prod.case option.case]
  show thesis
  proof (cases ?find)
    case None
    from up have "split_draft now fresh p None db = Inr (db', res, out)" by (simp add: None)
    from split_draft_result [OF this] None show thesis by (intro split) (simp_all add: findByIdForUpdate_def)
  next
    case (Some r)
    then have r: "r \<in> set db" "owned (up_workspaceId p) (up_userId p) (up_id p) r" by (auto simp: findByIdForUpdate_def find_Some_iff)
    show thesis
    proof (cases "dw_deletedAt r")
      case dead: (Some t)
      have proof_iff: "(dw_lastClientWriteId r = Some (up_writeId p) \<or> (\<exists>i\<in>set (ownWriteIds p). i \<in> set (superseded r))) = proven_stale p r"
        using r dead by (simp add: proven_stale_def)
      show thesis
      proof (cases "proven_stale p r")
        case True
        with up show thesis by (intro stale [OF r(1) True]) (simp_all add: Some dead proof_iff)
      next
        case False
        with up have "split_draft now fresh p (Some r) db = Inr (db', res, out)" by (simp add: Some dead proof_iff)
        from split_draft_result [OF this] r dead False show thesis by (intro split) auto
      qed
    next
      case live: None
      show thesis
      proof (cases "dw_lastClientWriteId r = Some (up_writeId p)")
        case True
        with up show thesis by (intro retry [OF r live True]) (simp_all add: Some live)
      next
        case False
        have cas_eq: "casUpdate now p db = (sql_update (cas_ok p) (apply_write now p) db, map_option (apply_write now p) (find (cas_ok p) db))"
          by (simp add: casUpdate_def update_returning_def cas_ok_def [abs_def])
        show thesis
        proof (cases "find (cas_ok p) db")
          case (Some q)
          then have "q \<in> set db" "cas_ok p q" by (auto simp: find_Some_iff)
          then show thesis using up False by (intro cas [of q]) (simp_all add: \<open>?find = Some r\<close> live cas_eq Some finishUpsert_def unchanged_def)
        next
          case None
          with up False have "split_draft now fresh p (Some r) db = Inr (db', res, out)" by (simp add: Some live cas_eq)
          moreover have "\<not> proven_stale p r" using live by (simp add: proven_stale_def)
          ultimately show thesis using split_draft_result [of now fresh p "Some r" db db' res out] r None by (intro split) auto
        qed
      qed
    qed
  qed
qed

section \<open>Sequences of operations\<close>

datatype draft_op =
    Push timestamp string UpsertDraftParams
  | Resolve timestamp string string string int "string list"
  | Discard timestamp string string string "string list"
  | Rescope timestamp string string string "string option"

text \<open>A push that raises is rolled back.\<close>

fun draft_step :: "draft_op \<Rightarrow> DraftRow table \<Rightarrow> DraftRow table" where
  "draft_step (Push now fresh p) db = (case draft_upsert now fresh p db of Inl _ \<Rightarrow> db | Inr (db', _) \<Rightarrow> db')"
| "draft_step (Resolve now ws user i v ids) db = fst (draft_resolve now ws user i v ids db)"
| "draft_step (Discard now ws user i ids) db = fst (draft_delete now ws user i ids db)"
| "draft_step (Rescope now ws from_scope to_scope root_stream) db = fst (rescopeByScope now ws from_scope to_scope root_stream db)"

definition draft_run :: "draft_op list \<Rightarrow> DraftRow table \<Rightarrow> DraftRow table" where
  "draft_run ops db = fold draft_step ops db"

text \<open>
  An operation acknowledges a live row when it shows that its author has seen it: it names the version of the row, or the row was
  written last by one of the author's own writes, or it is an explicit discard.
\<close>

fun acknowledges :: "draft_op \<Rightarrow> DraftRow \<Rightarrow> bool" where
  "acknowledges (Push now fresh p) r \<longleftrightarrow> owned (up_workspaceId p) (up_userId p) (up_id p) r \<and>
     (dw_version r = up_expectedVersion p \<or> written_by (ownWriteIds p) r)"
| "acknowledges (Resolve now ws user i v ids) r \<longleftrightarrow> owned ws user i r \<and> (dw_version r = v \<or> written_by ids r)"
| "acknowledges (Discard now ws user i ids) r \<longleftrightarrow> owned ws user i r"
| "acknowledges (Rescope now ws from_scope to_scope root_stream) r \<longleftrightarrow> False"

text \<open>The same write is in the row, alive; its scope and version may differ.\<close>

definition same_write :: "DraftRow \<Rightarrow> DraftRow \<Rightarrow> bool" where
  "same_write r r' \<longleftrightarrow> same_key r r' \<and> dw_deletedAt r = None \<and> dw_deletedAt r' = None \<and> dw_content r' = dw_content r \<and>
     dw_lastClientWriteId r' = dw_lastClientWriteId r \<and> dw_clientUpdatedAt r' = dw_clientUpdatedAt r \<and> dw_stashedAt r' = dw_stashedAt r"

text \<open>A tombstone stays one, and forgets none of the writes it covers.\<close>

definition still_buried :: "DraftRow \<Rightarrow> DraftRow \<Rightarrow> bool" where
  "still_buried r r' \<longleftrightarrow> same_key r r' \<and> dw_deletedAt r \<noteq> None \<and> dw_deletedAt r' = dw_deletedAt r \<and>
     dw_lastClientWriteId r' = dw_lastClientWriteId r \<and> set (superseded r) \<subseteq> set (superseded r')"

definition row_change :: "draft_op \<Rightarrow> DraftRow \<Rightarrow> DraftRow \<Rightarrow> bool" where
  "row_change op r r' \<longleftrightarrow> same_key r r' \<and>
     (r' = r \<or> dw_deletedAt r = None \<and> acknowledges op r \<or> same_write r r' \<or> still_buried r r')"

text \<open>The request schemas let at most 64 write ids through; a tombstone keeps at most 128.\<close>

fun op_ok :: "draft_op \<Rightarrow> bool" where
  "op_ok (Resolve now ws user i v ids) \<longleftrightarrow> length ids \<le> 64"
| "op_ok (Discard now ws user i ids) \<longleftrightarrow> length ids \<le> 64"
| "op_ok _ \<longleftrightarrow> True"

definition table_ok :: "DraftRow table \<Rightarrow> bool" where
  "table_ok db \<longleftrightarrow> ids_unique db \<and> (\<forall>r\<in>set db. length (superseded r) \<le> 128)"

definition table_change :: "draft_op \<Rightarrow> DraftRow table \<Rightarrow> DraftRow table \<Rightarrow> bool" where
  "table_change op db db' \<longleftrightarrow> table_ok db' \<and> (\<forall>r\<in>set db. \<exists>r'\<in>set db'. row_change op r r')"

lemma row_change_refl [simp]: "row_change op r r"
  by (simp add: row_change_def)

lemma table_change_refl: "table_ok db \<Longrightarrow> table_change op db db"
  unfolding table_change_def using row_change_refl by blast

lemma table_change_append:
  assumes "table_ok db" "dw_id r \<notin> dw_id ` set db" "length (superseded r) \<le> 128"
  shows "table_change op db (db @ [r])"
proof -
  have "table_ok (db @ [r])" using assms by (auto simp: table_ok_def ids_unique_def)
  then show ?thesis unfolding table_change_def using row_change_refl by (metis UnCI set_append)
qed

lemma table_change_update:
  assumes "table_ok db" "\<And>r. same_key r (f r)" "\<And>r. r \<in> set db \<Longrightarrow> p r \<Longrightarrow> row_change op r (f r) \<and> length (superseded (f r)) \<le> 128"
  shows "table_change op db (sql_update p f db)"
proof -
  have "map dw_id (sql_update p f db) = map dw_id db" by (rule sql_update_key) (use assms(2) in \<open>auto simp: same_key_def\<close>)
  moreover have "\<forall>r\<in>set (sql_update p f db). length (superseded r) \<le> 128"
    using assms(1,3) by (auto simp: set_sql_update table_ok_def)
  moreover have "\<exists>r'\<in>set (sql_update p f db). row_change op r r'" if "r \<in> set db" for r
  proof (rule bexI)
    show "row_change op r (if p r then f r else r)" using assms(3) [OF that] by simp
    show "(if p r then f r else r) \<in> set (sql_update p f db)" unfolding set_sql_update using that by (rule imageI)
  qed
  ultimately show ?thesis using assms(1) by (simp add: table_change_def table_ok_def ids_unique_def)
qed

lemma superseded_simps [simp]:
  "superseded (draft_row now i p) = []" "superseded (apply_write now p r) = superseded r" "superseded (bury now ids r) = ids"
  "superseded (negative_tombstone now ws user i ids) = ids"
  by (simp_all add: superseded_def draft_row_def apply_write_def bury_def negative_tombstone_def)

lemma js_dedup_append: "js_dedup (xs @ ys) = js_dedup xs @ filter (\<lambda>y. y \<notin> set xs) (js_dedup ys)"
  by (induction xs) (auto simp: conj_commute)

lemma length_js_dedup: "length (js_dedup xs) \<le> length xs"
  by (metis card_length distinct_card distinct_js_dedup set_js_dedup)

lemma merged_keeps:
  assumes "length (superseded r) \<le> 128"
  shows "set (superseded r) \<subseteq> set (merged_ids r ids)"
proof -
  have "length (js_dedup (superseded r)) \<le> 128" using assms length_js_dedup [of "superseded r"] by simp
  then show ?thesis by (auto simp: merged_ids_def js_dedup_append)
qed

lemma merge_change:
  assumes "table_ok db"
  shows "table_change op db (mergeTombstoneSupersededWriteIds ws user i ids db)"
proof -
  have change: "row_change op r (r\<lparr>dw_supersededWriteIds := Some (merged_ids row ids)\<rparr>) \<and>
      length (superseded (r\<lparr>dw_supersededWriteIds := Some (merged_ids row ids)\<rparr>)) \<le> 128"
    if r: "r \<in> set db" "owned ws user i r \<and> dw_deletedAt r \<noteq> None" and row: "find (\<lambda>r. owned ws user i r \<and> dw_deletedAt r \<noteq> None) db = Some row" for r row
  proof -
    have "row \<in> set db" "dw_id row = i" using row by (auto simp: find_Some_iff owned_def)
    then have "row = r" using r owned_unique [of db row r] assms by (auto simp: table_ok_def owned_def)
    moreover have "set (superseded r) \<subseteq> set (merged_ids r ids)" using assms r(1) by (intro merged_keeps) (simp add: table_ok_def)
    moreover have "length (merged_ids r ids) \<le> 128" by (simp add: merged_ids_def)
    ultimately show ?thesis using r(2) by (auto simp: row_change_def still_buried_def same_key_def superseded_def)
  qed
  show ?thesis
  proof (cases "find (\<lambda>r. owned ws user i r \<and> dw_deletedAt r \<noteq> None) db")
    case None
    then show ?thesis using table_change_refl [OF assms] by (simp add: mergeTombstoneSupersededWriteIds_def)
  next
    case (Some row)
    have "table_change op db (sql_update (\<lambda>r. owned ws user i r \<and> dw_deletedAt r \<noteq> None) (\<lambda>r. r\<lparr>dw_supersededWriteIds := Some (merged_ids row ids)\<rparr>) db)"
      by (rule table_change_update [OF assms]) (use change [OF _ _ Some] in \<open>auto simp: same_key_def\<close>)
    then show ?thesis using table_change_refl [OF assms] unfolding mergeTombstoneSupersededWriteIds_def Some option.case by simp
  qed
qed

lemma bury_change:
  assumes "table_ok db" "length ids \<le> 64" "\<And>r. p r \<Longrightarrow> dw_deletedAt r = None \<and> acknowledges op r"
  shows "table_change op db (sql_update p (bury now ids) db)"
  by (rule table_change_update [OF assms(1)]) (use assms(2,3) in \<open>auto simp: row_change_def\<close>)

lemma draft_step_change:
  assumes "table_ok db" "op_ok op"
  shows "table_change op db (draft_step op db)"
proof (cases op)
  case (Push now fresh p)
  show ?thesis
  proof (cases "draft_upsert now fresh p db")
    case (Inl e)
    then show ?thesis using assms(1) Push by (simp add: table_change_refl)
  next
    case (Inr t)
    obtain db' res out where t: "draft_upsert now fresh p db = Inr (db', res, out)" using Inr by (cases t) auto
    have "table_change op db db'"
      using t
    proof (cases rule: draft_upsert_cases)
      case (cas r)
      have "row_change op q (apply_write now p q)" if "cas_ok p q" for q
        using that Push by (auto simp: row_change_def cas_ok_def)
      then show ?thesis unfolding cas(3) using assms(1) by (intro table_change_update) (auto simp: table_ok_def)
    qed (use assms(1) in \<open>auto intro: table_change_refl table_change_append\<close>)
    then show ?thesis using Push t by simp
  qed
next
  case (Resolve now ws user i v ids)
  have "table_change op db (sql_update (\<lambda>r. owned ws user i r \<and> dw_deletedAt r = None \<and> (dw_version r = v \<or> written_by ids r)) (bury now ids) db)"
    by (rule bury_change [OF assms(1)]) (use assms(2) Resolve in auto)
  then show ?thesis using merge_change [OF assms(1)] Resolve by (auto simp: draft_resolve_def softDeleteCas_def update_returning_def split: option.splits)
next
  case (Discard now ws user i ids)
  have "table_change op db (sql_update (\<lambda>r. owned ws user i r \<and> dw_deletedAt r = None) (bury now ids) db)"
    by (rule bury_change [OF assms(1)]) (use assms(2) Discard in auto)
  moreover have "i \<notin> dw_id ` set db \<Longrightarrow> table_change op db (db @ [negative_tombstone now ws user i ids])"
    by (rule table_change_append [OF assms(1)]) (use assms(2) Discard in auto)
  ultimately show ?thesis using merge_change [OF assms(1)] Discard
    by (auto simp: draft_delete_def softDelete_def update_returning_def split: option.splits if_splits)
next
  case (Rescope now ws from_scope to_scope root_stream)
  then show ?thesis unfolding Rescope draft_step.simps rescopeByScope_def Let_def fst_conv
    by (intro table_change_update [OF assms(1)])
      (use assms(1) in \<open>auto simp: table_ok_def row_change_def same_write_def same_key_def superseded_def\<close>)
qed

lemma draft_run_ok: "table_ok db \<Longrightarrow> \<forall>op\<in>set ops. op_ok op \<Longrightarrow> table_ok (draft_run ops db)"
  by (induction ops arbitrary: db) (use draft_step_change in \<open>auto simp: draft_run_def table_change_def\<close>)

section \<open>No write is lost\<close>

lemma same_write_refl: "dw_deletedAt r = None \<Longrightarrow> same_write r r"
  by (simp add: same_write_def)

lemma same_write_trans: "same_write a b \<Longrightarrow> same_write b c \<Longrightarrow> same_write a c"
  by (simp add: same_write_def same_key_def)

lemma live_row_step:
  assumes "table_ok db" "op_ok op" "r \<in> set db" "dw_deletedAt r = None"
  shows "(\<exists>r'\<in>set (draft_step op db). same_write r r') \<or> acknowledges op r"
proof -
  obtain r' where "r' \<in> set (draft_step op db)" "row_change op r r'"
    using draft_step_change [OF assms(1,2)] assms(3) by (auto simp: table_change_def)
  then show ?thesis using assms(4) same_write_refl [OF assms(4)] by (auto simp: row_change_def still_buried_def)
qed

lemma kept_or_acknowledged:
  "table_ok db \<Longrightarrow> \<forall>op\<in>set ops. op_ok op \<Longrightarrow> r \<in> set db \<Longrightarrow> dw_deletedAt r = None \<Longrightarrow>
   (\<exists>r'\<in>set (draft_run ops db). same_write r r') \<or>
   (\<exists>pre op post r'. ops = pre @ op # post \<and> r' \<in> set (draft_run pre db) \<and> same_write r r' \<and> acknowledges op r')"
proof (induction ops arbitrary: db r)
  case Nil
  then show ?case using same_write_refl by (auto simp: draft_run_def)
next
  case (Cons op ops)
  have op: "op_ok op" and rest: "\<forall>op\<in>set ops. op_ok op" using Cons.prems(2) by simp_all
  have run: "draft_run (op # os) db = draft_run os (draft_step op db)" for os by (simp add: draft_run_def)
  from live_row_step [OF Cons.prems(1) op Cons.prems(3,4)] show ?case
  proof
    assume "acknowledges op r"
    then have "op # ops = [] @ op # ops \<and> r \<in> set (draft_run [] db) \<and> same_write r r \<and> acknowledges op r"
      using Cons.prems(3) same_write_refl [OF Cons.prems(4)] by (simp add: draft_run_def)
    then show ?thesis by blast
  next
    assume "\<exists>r'\<in>set (draft_step op db). same_write r r'"
    then obtain q where q: "q \<in> set (draft_step op db)" "same_write r q" by blast
    have ok: "table_ok (draft_step op db)" using draft_step_change [OF Cons.prems(1) op] by (simp add: table_change_def)
    have live: "dw_deletedAt q = None" using q(2) by (simp add: same_write_def)
    from Cons.IH [OF ok rest q(1) live] show ?thesis
    proof
      assume "\<exists>r'\<in>set (draft_run ops (draft_step op db)). same_write q r'"
      then show ?thesis using same_write_trans [OF q(2)] unfolding run by blast
    next
      assume "\<exists>pre op' post r'. ops = pre @ op' # post \<and> r' \<in> set (draft_run pre (draft_step op db)) \<and> same_write q r' \<and> acknowledges op' r'"
      then obtain pre op' post r' where "ops = pre @ op' # post" "r' \<in> set (draft_run pre (draft_step op db))" "same_write q r'" "acknowledges op' r'" by blast
      then have "op # ops = (op # pre) @ op' # post \<and> r' \<in> set (draft_run (op # pre) db) \<and> same_write r r' \<and> acknowledges op' r'"
        using same_write_trans [OF q(2)] unfolding run by simp
      then show ?thesis by blast
    qed
  qed
qed

lemma push_outcome:
  assumes "draft_upsert now fresh p db = Inr (db', res, out)"
  shows "(\<exists>r\<in>set db. proven_stale p r \<and> db' = db \<and> out = []) \<or>
    (\<exists>r\<in>set db'. dw_deletedAt r = None \<and> dw_lastClientWriteId r = Some (up_writeId p) \<and>
       (dw_content r = up_content p \<or> db' = db) \<and> ur_draft res = toDraftView r)"
  using assms
proof (cases rule: draft_upsert_cases)
  case (cas r)
  then have "apply_write now p r \<in> set db'" "dw_deletedAt (apply_write now p r) = None"
    by (auto simp: set_sql_update cas_ok_def apply_write_def intro!: image_eqI [of _ _ r])
  with cas(4) show ?thesis by (intro disjI2 bexI [of _ "apply_write now p r"]) (simp_all add: apply_write_def unchanged_def)
qed (auto simp: unchanged_def draft_row_def)


section \<open>Retries and tombstones\<close>

lemma settled_push:
  assumes "table_ok db" "r \<in> set db" "owned (up_workspaceId p) (up_userId p) (up_id p) r"
    and "dw_deletedAt r = None \<and> dw_lastClientWriteId r = Some (up_writeId p) \<or> proven_stale p r"
  shows "draft_upsert now fresh p db = Inr (db, unchanged r, [])"
proof -
  have i: "up_id p \<in> dw_id ` set db" using assms(2,3) by (intro image_eqI [of _ _ r]) (simp_all add: owned_def)
  have "find (owned (up_workspaceId p) (up_userId p) (up_id p)) db = Some r"
    by (rule find_unique) (use assms(1-3) in \<open>auto simp: table_ok_def owned_def\<close>)
  then show ?thesis using i assms(4) unfolding draft_upsert_def findByIdForUpdate_def insertIfAbsent_def
    by (auto simp: proven_stale_def)
qed

text \<open>
  C24. A push may be repeated.  Unless it was split, the second time gives the answer of the first, changes nothing and
  publishes nothing.
\<close>

theorem push_retry_is_harmless:
  assumes "table_ok db" and "draft_upsert now fresh p db = Inr (db', res, out)" and "\<not> ur_split res"
  shows "draft_upsert now' fresh' p db' = Inr (db', res, [])"
proof -
  have ok: "table_ok db'" using draft_step_change [of db "Push now fresh p"] assms(1,2) by (simp add: table_change_def)
  show ?thesis using assms(2)
  proof (cases rule: draft_upsert_cases)
    case insert
    show ?thesis unfolding insert(3) by (rule settled_push [OF ok]) (simp_all add: insert(2) owned_def draft_row_def)
  next
    case (stale r)
    then show ?thesis using settled_push [OF ok, of r p] by (simp add: proven_stale_def)
  next
    case (retry r)
    then show ?thesis using settled_push [OF ok, of r p] by simp
  next
    case (cas r)
    show ?thesis unfolding cas(4)
    proof (rule settled_push [OF ok])
      show "apply_write now p r \<in> set db'" using cas(1,2) unfolding cas(3) set_sql_update by (auto intro!: image_eqI [of _ _ r])
    qed (use cas(2) in \<open>simp_all add: cas_ok_def owned_def apply_write_def\<close>)
  next
    case split
    with assms(3) show ?thesis by simp
  qed
qed

lemma buried_step:
  assumes "table_ok db" "op_ok op" "r \<in> set db" "dw_deletedAt r \<noteq> None"
  shows "\<exists>r'\<in>set (draft_step op db). still_buried r r'"
proof -
  obtain r' where "r' \<in> set (draft_step op db)" "row_change op r r'"
    using draft_step_change [OF assms(1,2)] assms(3) by (auto simp: table_change_def)
  then show ?thesis using assms(4) by (auto simp: row_change_def same_write_def still_buried_def)
qed

lemma buried_stays:
  "table_ok db \<Longrightarrow> \<forall>op\<in>set ops. op_ok op \<Longrightarrow> r \<in> set db \<Longrightarrow> dw_deletedAt r \<noteq> None \<Longrightarrow> \<exists>r'\<in>set (draft_run ops db). still_buried r r'"
proof (induction ops arbitrary: db r)
  case Nil
  then show ?case by (intro bexI [of _ r]) (simp_all add: draft_run_def still_buried_def)
next
  case (Cons op ops)
  have op: "op_ok op" using Cons.prems(2) by simp
  obtain q where q: "q \<in> set (draft_step op db)" "still_buried r q" using buried_step [OF Cons.prems(1) op Cons.prems(3,4)] by blast
  have "table_ok (draft_step op db)" using draft_step_change [OF Cons.prems(1) op] by (simp add: table_change_def)
  then obtain r' where "r' \<in> set (draft_run ops (draft_step op db))" "still_buried q r'"
    using Cons.IH [of "draft_step op db" q] Cons.prems(2) q by (auto simp: still_buried_def)
  with q(2) show ?case by (auto simp: draft_run_def still_buried_def same_key_def)
qed

text \<open>A resolve that succeeded, or a discard: the row was live, absent, or a tombstone with room for the writes.\<close>

definition retires :: "draft_op \<Rightarrow> string \<Rightarrow> string \<Rightarrow> string \<Rightarrow> string list \<Rightarrow> DraftRow table \<Rightarrow> bool" where
  "retires op ws user i ids db \<longleftrightarrow>
    (\<exists>t v. op = Resolve t ws user i v ids \<and> fst (snd (draft_resolve t ws user i v ids db))) \<or>
    (\<exists>t. op = Discard t ws user i ids \<and>
       (\<forall>r\<in>set db. dw_id r = i \<longrightarrow> owned ws user i r \<and>
          (dw_deletedAt r = None \<or> distinct (superseded r) \<and> length (superseded r) + length ids \<le> 128)))"

lemma merged_all:
  assumes "distinct (superseded r)" "length (superseded r) + length ids \<le> 128"
  shows "set (merged_ids r ids) = set (superseded r) \<union> set ids"
    and "length (merged_ids r ids) = length (superseded r) \<Longrightarrow> set ids \<subseteq> set (superseded r)"
proof -
  have "length (js_dedup (superseded r @ ids)) \<le> 128" using length_js_dedup [of "superseded r @ ids"] assms(2) by simp
  then have m: "merged_ids r ids = js_dedup (superseded r @ ids)" by (simp add: merged_ids_def)
  then show "set (merged_ids r ids) = set (superseded r) \<union> set ids" by simp
  assume "length (merged_ids r ids) = length (superseded r)"
  then have "card (set (superseded r) \<union> set ids) = card (set (superseded r))"
    using m distinct_card [OF assms(1)] distinct_card [OF distinct_js_dedup [of "superseded r @ ids"]] by simp
  then show "set ids \<subseteq> set (superseded r)" by (metis List.finite_set Un_upper2 card_subset_eq finite_UnI sup_ge1)
qed

lemma merge_covers:
  assumes "table_ok db" "r \<in> set db" "owned ws user i r" "dw_deletedAt r \<noteq> None"
    and room: "distinct (superseded r)" "length (superseded r) + length ids \<le> 128"
  shows "\<exists>q\<in>set (mergeTombstoneSupersededWriteIds ws user i ids db). owned ws user i q \<and> dw_deletedAt q \<noteq> None \<and> set ids \<subseteq> set (superseded q)"
proof -
  have "find (\<lambda>r. owned ws user i r \<and> dw_deletedAt r \<noteq> None) db = Some r"
    by (rule find_unique) (use assms(1-4) in \<open>auto simp: table_ok_def owned_def\<close>)
  note merge = mergeTombstoneSupersededWriteIds_def [of ws user i ids db, unfolded this option.case]
  show ?thesis
  proof (cases "ids = [] \<or> length (merged_ids r ids) = length (superseded r)")
    case True
    then show ?thesis using merge assms(2-4) merged_all(2) [OF room] by (intro bexI [of _ r]) auto
  next
    case False
    then have "mergeTombstoneSupersededWriteIds ws user i ids db =
        sql_update (\<lambda>r. owned ws user i r \<and> dw_deletedAt r \<noteq> None) (\<lambda>q. q\<lparr>dw_supersededWriteIds := Some (merged_ids r ids)\<rparr>) db"
      using merge by simp
    then show ?thesis using assms(2-4) merged_all(1) [OF room]
      by (intro bexI [of _ "r\<lparr>dw_supersededWriteIds := Some (merged_ids r ids)\<rparr>"])
        (auto simp: set_sql_update owned_def superseded_def intro!: image_eqI [of _ _ r])
  qed
qed

lemma retired_row:
  assumes "table_ok db" "retires op ws user i ids db"
  shows "\<exists>r\<in>set (draft_step op db). owned ws user i r \<and> dw_deletedAt r \<noteq> None \<and> set ids \<subseteq> set (superseded r)"
proof -
  have buried: "\<exists>q\<in>set (sql_update P (bury t ids) db). owned ws user i q \<and> dw_deletedAt q \<noteq> None \<and> set ids \<subseteq> set (superseded q)"
    if "r \<in> set db" "P r" "owned ws user i r" for r P t
    using that by (intro bexI [of _ "bury t ids r"]) (auto simp: set_sql_update owned_def bury_def superseded_def)
  from assms(2) consider (resolve) t v where "op = Resolve t ws user i v ids" "fst (snd (draft_resolve t ws user i v ids db))"
    | (discard) t where "op = Discard t ws user i ids"
        "\<forall>r\<in>set db. dw_id r = i \<longrightarrow> owned ws user i r \<and> (dw_deletedAt r = None \<or> distinct (superseded r) \<and> length (superseded r) + length ids \<le> 128)"
    unfolding retires_def by blast
  then show ?thesis
  proof cases
    case resolve
    let ?p = "\<lambda>r. owned ws user i r \<and> dw_deletedAt r = None \<and> (dw_version r = v \<or> written_by ids r)"
    from resolve(2) obtain r where r: "find ?p db = Some r"
      by (cases "find ?p db") (auto simp: draft_resolve_def softDeleteCas_def update_returning_def)
    then have "draft_step op db = sql_update ?p (bury t ids) db"
      by (simp add: resolve(1) draft_resolve_def softDeleteCas_def update_returning_def)
    moreover have "r \<in> set db" "?p r" using r by (auto simp: find_Some_iff)
    ultimately show ?thesis using buried [of r ?p t] by metis
  next
    case discard
    show ?thesis
    proof (cases "i \<in> dw_id ` set db")
      case False
      then have "draft_step op db = db @ [negative_tombstone t ws user i ids]" by (simp add: discard(1) draft_delete_def softDelete_def)
      then show ?thesis by (intro bexI [of _ "negative_tombstone t ws user i ids"]) (auto simp: negative_tombstone_def owned_def superseded_def)
    next
      case True
      then obtain r where r: "r \<in> set db" "dw_id r = i" by blast
      then have own: "owned ws user i r" using discard(2) by blast
      let ?p = "\<lambda>r. owned ws user i r \<and> dw_deletedAt r = None"
      show ?thesis
      proof (cases "dw_deletedAt r")
        case None
        have "find ?p db = Some r" by (rule find_unique) (use assms(1) r own None in \<open>auto simp: table_ok_def owned_def\<close>)
        then have "draft_step op db = sql_update ?p (bury t ids) db" using True by (simp add: discard(1) draft_delete_def softDelete_def update_returning_def)
        then show ?thesis using buried [of r ?p t] r(1) own None by metis
      next
        case (Some d)
        have room: "distinct (superseded r)" "length (superseded r) + length ids \<le> 128" using discard(2) [rule_format, OF r] Some by simp_all
        have "\<not> ?p q" if "q \<in> set db" for q 
        proof
          assume p: "?p q"
          then have "q = r" using assms(1) r that by (intro owned_unique [of db]) (simp_all add: table_ok_def owned_def)
          with p Some show False by simp
        qed
        then have "find ?p db = None" by (simp add: find_None_iff)
        then have step: "draft_step op db = mergeTombstoneSupersededWriteIds ws user i ids db"
          using True by (simp add: discard(1) draft_delete_def softDelete_def update_returning_def)
        show ?thesis unfolding step by (rule merge_covers [OF assms(1) r(1) own _ room]) (simp add: Some)
      qed
    qed
  qed
qed


section \<open>Examples\<close>

definition ex_text :: "string \<Rightarrow> DraftContent" where
  "ex_text s = no_content\<lparr>dc_contentMarkdown := Some s\<rparr>"

definition ex_push :: "string \<Rightarrow> string list \<Rightarrow> int \<Rightarrow> string \<Rightarrow> UpsertDraftParams" where
  "ex_push w priors version s = \<lparr>up_workspaceId = ''ws'', up_userId = ''u'', up_id = ''draft_1'', up_scope = ''thread:m1'', up_rootStreamId = None,
     up_expectedVersion = version, up_writeId = w, up_priorWriteIds = priors, up_clientUpdatedAt = 5, up_stashedAt = None, up_content = ex_text s\<rparr>"

definition ex_drafts :: "DraftRow table" where
  "ex_drafts = draft_step (Push 1 ''draft_9'' (ex_push ''w1'' [] 0 ''one'')) []"

definition ex_rescope :: draft_op where
  "ex_rescope = Rescope 3 ''ws'' ''thread:m1'' ''stream:s1'' (Some ''s1'')"

lemma ex_drafts_ok: "table_ok ex_drafts" "table_ok []" "\<forall>op\<in>set [ex_rescope]. op_ok op" "op_ok (Resolve 2 ''ws'' ''u'' ''draft_1'' 1 [''w2''])"
  by (code_simp, simp add: table_ok_def ids_unique_def, code_simp, code_simp)

definition ex_split :: "DraftRow table" where
  "ex_split = draft_step (Push 2 ''draft_2'' (ex_push ''w2'' [] 0 ''two'')) ex_drafts"


lemma push_retry_is_harmless_witness:
  "\<exists>res. draft_upsert 7 ''draft_8'' (ex_push ''w1'' [] 0 ''one'') ex_drafts = Inr (ex_drafts, res, []) \<and> \<not> ur_split res"
proof -
  let ?u = "draft_upsert 1 ''draft_9'' (ex_push ''w1'' [] 0 ''one'') []"
  have s: "\<not> isl ?u" "\<not> ur_split (fst (snd (projr ?u)))" by code_simp+
  then obtain db' res out where u: "?u = Inr (db', res, out)" by (cases ?u) auto
  then have "db' = ex_drafts" "\<not> ur_split res" using s(2) by (simp_all add: ex_drafts_def)
  with push_retry_is_harmless [OF ex_drafts_ok(2) u] show ?thesis by blast
qed


text \<open>
  Three behaviours that the comments exclude.  The first push of a draft onto the tombstone that an earlier discard planted is
  split into a live draft when the discard named no writes.  A push whose earlier write is the last one on the row goes
  through after the row was given a new scope, and sets the old scope again.  And a tombstone whose stored list has a
  duplicate can forget a write that is merged into it.
\<close>

lemma first_push_on_tombstone_splits:
  "let db = draft_step (Discard 1 ''ws'' ''u'' ''draft_1'' []) [];
       u = draft_upsert 2 ''draft_2'' (ex_push ''w1'' [] 0 ''one'') db
   in \<not> isl u \<and> ur_split (fst (snd (projr u))) \<and> map (\<lambda>r. (dw_id r, dw_deletedAt r)) (fst (projr u)) = [(''draft_1'', Some 1), (''draft_2'', None)]"
  by code_simp

lemma late_push_undoes_rescope:
  "map dw_scope (draft_run [ex_rescope] ex_drafts) = [''stream:s1''] \<and>
   map dw_scope (draft_run [ex_rescope, Push 4 ''draft_2'' (ex_push ''w2'' [''w1''] 1 ''two'')] ex_drafts) = [''thread:m1'']"
  by code_simp

lemma tombstone_forgets_merged_write:
  "let db = [negative_tombstone 1 ''ws'' ''u'' ''draft_1'' [''a'', ''a'']]
   in mergeTombstoneSupersededWriteIds ''ws'' ''u'' ''draft_1'' [''b''] db = db"
  by code_simp

end
