(* ===== verification/Unread_Counters.thy ===== *)
theory Unread_Counters
  imports Threa_Prelude Json "HOL-Library.List_Lexorder" "HOL-Library.Char_ord"
begin

text \<open>
  \<^verbatim>\<open>apps/frontend/src/sync/unread-counters.ts\<close>: the pure state of the unread counters on the client, which
  socket events, catch-up entries and bootstraps fold into.  A \<open>Record\<close> is an association list and an absent
  field \<open>None\<close>; \<open>a?.[k]\<close> and the spread of an absent record read it as empty.  Shortcuts that return the same
  object when nothing changes return an equal value here.  Ordinals are integers.
\<close>

type_synonym 'a obj = "(string \<times> 'a) list"

definition orec :: "'a list option \<Rightarrow> 'a list" where
  "orec r = (case r of None \<Rightarrow> [] | Some xs \<Rightarrow> xs)"

lemma orec_simps [simp]: "orec None = []" "orec (Some xs) = xs"
  by (simp_all add: orec_def)

definition count_of :: "string \<Rightarrow> int obj \<Rightarrow> int" where
  "count_of k r = (case map_of r k of None \<Rightarrow> 0 | Some n \<Rightarrow> n)"

record Activity =
  a_id :: string
  a_workspaceId :: string
  a_userId :: string
  a_activityType :: string
  a_streamId :: "string option"
  a_messageId :: "string option"
  a_actorId :: string
  a_actorType :: string
  a_context :: json
  a_readAt :: "string option"
  a_createdAt :: string
  a_isSelf :: bool
  a_emoji :: "string option"

record UnreadCounterState =
  us_unreadCounts :: "int obj"
  us_unreadActivities :: "Activity list"
  us_activityCounts :: "int obj"
  us_mentionCounts :: "int obj"
  us_unreadActivityCount :: int
  us_latestOrdinals :: "int obj option"
  us_readMessageIds :: "string list obj option"
  us_inboxHeldStreamIds :: "string list option"
  us_inboxArrivedAt :: "string obj option"

definition MENTION_ACTIVITY_TYPES :: "string list" where
  "MENTION_ACTIVITY_TYPES = [''mention'', ''doc_mention'']"

definition isMentionActivityType :: "string \<Rightarrow> bool" where
  "isMentionActivityType t \<longleftrightarrow> t \<in> set MENTION_ACTIVITY_TYPES"

section \<open>The read overlay\<close>

abbreviation overlay_of :: "UnreadCounterState \<Rightarrow> string \<Rightarrow> string list option" where
  "overlay_of state streamId \<equiv> map_of (orec (us_readMessageIds state)) streamId"

definition overlaySize :: "UnreadCounterState \<Rightarrow> string \<Rightarrow> int" where
  "overlaySize state streamId = (case overlay_of state streamId of None \<Rightarrow> 0 | Some ids \<Rightarrow> int (length ids))"

definition setOverlay :: "UnreadCounterState \<Rightarrow> string \<Rightarrow> string list \<Rightarrow> UnreadCounterState" where
  "setOverlay state streamId ids =
    (let current = overlay_of state streamId
     in if ids = [] then
          (if current = None then state
           else state\<lparr>us_readMessageIds := Some (AList.delete streamId (orec (us_readMessageIds state)))\<rparr>)
        else if current = Some ids then state
        else state\<lparr>us_readMessageIds := Some (AList.update streamId ids (orec (us_readMessageIds state)))\<rparr>)"

section \<open>Activity rows\<close>

definition bump :: "string \<Rightarrow> int obj \<Rightarrow> int obj" where
  "bump k r = AList.update k (count_of k r + 1) r"

definition count_row :: "Activity \<Rightarrow> int obj \<times> int obj \<Rightarrow> int obj \<times> int obj" where
  "count_row row acc =
    (case a_streamId row of
       None \<Rightarrow> acc
     | Some s \<Rightarrow>
         if s = [] then acc
         else (bump s (fst acc), if isMentionActivityType (a_activityType row) then bump s (snd acc) else snd acc))"

definition deriveActivityCounts :: "Activity list \<Rightarrow> int obj \<times> int obj \<times> int" where
  "deriveActivityCounts rows = (let (activityCounts, mentionCounts) = fold count_row rows ([], [])
     in (activityCounts, mentionCounts, int (length rows)))"

definition withActivities :: "UnreadCounterState \<Rightarrow> Activity list \<Rightarrow> UnreadCounterState" where
  "withActivities state rows = (let (a, m, n) = deriveActivityCounts rows
     in state\<lparr>us_unreadActivities := rows, us_activityCounts := a, us_mentionCounts := m, us_unreadActivityCount := n\<rparr>)"

definition upsertActivity :: "UnreadCounterState \<Rightarrow> Activity \<Rightarrow> UnreadCounterState" where
  "upsertActivity state activity =
    (if a_isSelf activity then state
     else withActivities state (filter (\<lambda>a. a_id a \<noteq> a_id activity) (us_unreadActivities state) @ [activity]))"

definition dropActivitiesForStream :: "UnreadCounterState \<Rightarrow> string \<Rightarrow> UnreadCounterState" where
  "dropActivitiesForStream state streamId =
    (if \<not> list_ex (\<lambda>a. a_streamId a = Some streamId) (us_unreadActivities state) then state
     else withActivities state (filter (\<lambda>a. a_streamId a \<noteq> Some streamId) (us_unreadActivities state)))"

definition dropActivitiesById :: "UnreadCounterState \<Rightarrow> string list \<Rightarrow> UnreadCounterState" where
  "dropActivitiesById state activityIds =
    (if activityIds = [] then state
     else if \<not> list_ex (\<lambda>a. a_id a \<in> set activityIds) (us_unreadActivities state) then state
     else withActivities state (filter (\<lambda>a. a_id a \<notin> set activityIds) (us_unreadActivities state)))"

definition drop_rows :: "(Activity \<Rightarrow> bool) \<Rightarrow> UnreadCounterState \<Rightarrow> UnreadCounterState" where
  "drop_rows p state =
    (let rows = filter (\<lambda>a. \<not> p a) (us_unreadActivities state)
     in if length rows = length (us_unreadActivities state) then state else withActivities state rows)"

definition dropReactionActivity :: "UnreadCounterState \<Rightarrow> string \<Rightarrow> string \<Rightarrow> string \<Rightarrow> UnreadCounterState" where
  "dropReactionActivity state messageId actorId emoji =
    drop_rows (\<lambda>a. a_activityType a = ''reaction'' \<and> a_messageId a = Some messageId \<and> a_actorId a = actorId \<and>
      a_emoji a = Some emoji) state"

definition rehomeActivities :: "UnreadCounterState \<Rightarrow> string \<Rightarrow> string \<Rightarrow> string list \<Rightarrow> UnreadCounterState" where
  "rehomeActivities state fromStreamId toStreamId messageIds =
    (let shouldRehome = (\<lambda>a. a_streamId a = Some fromStreamId \<and>
           (case a_messageId a of None \<Rightarrow> False | Some i \<Rightarrow> i \<in> set messageIds))
     in if \<not> list_ex shouldRehome (us_unreadActivities state) then state
        else withActivities state (map (\<lambda>a. if shouldRehome a then a\<lparr>a_streamId := Some toStreamId\<rparr> else a) (us_unreadActivities state)))"

definition clearActivities :: "UnreadCounterState \<Rightarrow> UnreadCounterState" where
  "clearActivities state = (if us_unreadActivities state = [] then state else withActivities state [])"

section \<open>Inbox membership\<close>

definition held_in :: "UnreadCounterState \<Rightarrow> string \<Rightarrow> bool" where
  "held_in state streamId \<longleftrightarrow> streamId \<in> set (orec (us_inboxHeldStreamIds state))"

definition dropArrivalIfSettled :: "UnreadCounterState \<Rightarrow> string \<Rightarrow> UnreadCounterState" where
  "dropArrivalIfSettled state streamId =
    (if map_of (orec (us_inboxArrivedAt state)) streamId = None then state
     else if count_of streamId (us_unreadCounts state) > 0 \<or> held_in state streamId then state
     else state\<lparr>us_inboxArrivedAt := Some (AList.delete streamId (orec (us_inboxArrivedAt state)))\<rparr>)"

text \<open>The loop over the set: the set so far and whether it changed.\<close>

definition toggle_held :: "bool \<Rightarrow> string \<Rightarrow> string list \<times> bool \<Rightarrow> string list \<times> bool" where
  "toggle_held held streamId acc =
    (if held then (if streamId \<notin> set (fst acc) then (fst acc @ [streamId], True) else acc)
     else (if streamId \<in> set (fst acc) then (filter (\<lambda>s. s \<noteq> streamId) (fst acc), True) else acc))"

definition applyInboxHeld :: "UnreadCounterState \<Rightarrow> string list \<Rightarrow> bool \<Rightarrow> UnreadCounterState" where
  "applyInboxHeld state streamIds held =
    (if streamIds = [] then state
     else
       let (next, changed) = fold (toggle_held held) streamIds (js_dedup (orec (us_inboxHeldStreamIds state)), False)
       in if \<not> changed then state
          else
            let result = state\<lparr>us_inboxHeldStreamIds := Some next\<rparr>
            in if held then result else fold (\<lambda>s r. dropArrivalIfSettled r s) streamIds result)"

section \<open>Ordinals\<close>

abbreviation latest_of :: "UnreadCounterState \<Rightarrow> string \<Rightarrow> int option" where
  "latest_of state streamId \<equiv> map_of (orec (us_latestOrdinals state)) streamId"

abbreviation unread_of :: "UnreadCounterState \<Rightarrow> string \<Rightarrow> int" where
  "unread_of state streamId \<equiv> count_of streamId (us_unreadCounts state)"

definition set_ordinal :: "string \<Rightarrow> int \<Rightarrow> int \<Rightarrow> UnreadCounterState \<Rightarrow> UnreadCounterState" where
  "set_ordinal streamId latest unread state =
    state\<lparr>us_latestOrdinals := Some (AList.update streamId latest (orec (us_latestOrdinals state))),
          us_unreadCounts := AList.update streamId unread (us_unreadCounts state)\<rparr>"

definition applyStreamActivityOrdinal ::
  "UnreadCounterState \<Rightarrow> string \<Rightarrow> int \<Rightarrow> bool \<Rightarrow> string option \<Rightarrow> UnreadCounterState" where
  "applyStreamActivityOrdinal state streamId messageOrdinal isOwnMessage createdAt =
    (let ov = overlaySize state streamId;
         (latest, read) =
           (case latest_of state streamId of
              None \<Rightarrow> (messageOrdinal,
                if isOwnMessage then messageOrdinal else max 0 (messageOrdinal - unread_of state streamId - 1 - ov))
            | Some prevLatest \<Rightarrow>
                let prevRead = max 0 (prevLatest - unread_of state streamId - ov)
                in (max prevLatest messageOrdinal, if isOwnMessage then max prevRead messageOrdinal else prevRead));
         wasInInbox = (unread_of state streamId > 0 \<or> held_in state streamId);
         inboxArrivedAt =
           (case createdAt of
              Some t \<Rightarrow>
                if \<not> isOwnMessage \<and> (\<not> wasInInbox \<or> map_of (orec (us_inboxArrivedAt state)) streamId = None)
                then Some (AList.update streamId t (orec (us_inboxArrivedAt state))) else us_inboxArrivedAt state
            | None \<Rightarrow> us_inboxArrivedAt state)
     in (set_ordinal streamId latest (max 0 (latest - read - ov)) state)\<lparr>us_inboxArrivedAt := inboxArrivedAt\<rparr>)"

definition applyStreamReadOrdinal ::
  "UnreadCounterState \<Rightarrow> string \<Rightarrow> int \<Rightarrow> string list option \<Rightarrow> bool option \<Rightarrow> UnreadCounterState" where
  "applyStreamReadOrdinal state streamId lastReadOrdinal readMessageIds inboxHeld =
    (let prevOv = overlaySize state streamId;
         latest = max (case latest_of state streamId of None \<Rightarrow> 0 | Some l \<Rightarrow> l) lastReadOrdinal;
         prevRead = (case latest_of state streamId of
             None \<Rightarrow> lastReadOrdinal
           | Some prevLatest \<Rightarrow> max 0 (prevLatest - unread_of state streamId - prevOv));
         read = max prevRead lastReadOrdinal;
         withOverlay = (case readMessageIds of None \<Rightarrow> state | Some ids \<Rightarrow> setOverlay state streamId ids);
         ov = overlaySize withOverlay streamId;
         next = (if lastReadOrdinal \<ge> prevRead then dropActivitiesForStream withOverlay streamId else withOverlay);
         held = (case inboxHeld of None \<Rightarrow> next | Some h \<Rightarrow> applyInboxHeld next [streamId] h)
     in dropArrivalIfSettled (set_ordinal streamId latest (max 0 (latest - read - ov)) held) streamId)"

definition applyStreamReadSet :: "UnreadCounterState \<Rightarrow> string \<Rightarrow> int \<Rightarrow> string list option \<Rightarrow> UnreadCounterState" where
  "applyStreamReadSet state streamId lastReadOrdinal readMessageIds =
    (let withOverlay = (case readMessageIds of None \<Rightarrow> state | Some ids \<Rightarrow> setOverlay state streamId ids);
         ov = overlaySize withOverlay streamId;
         latest = max (case latest_of withOverlay streamId of None \<Rightarrow> 0 | Some l \<Rightarrow> l) lastReadOrdinal
     in set_ordinal streamId latest (max 0 (latest - lastReadOrdinal - ov)) withOverlay)"

definition applyStreamsReadAllOrdinals :: "UnreadCounterState \<Rightarrow> (string \<times> int) list \<Rightarrow> UnreadCounterState" where
  "applyStreamsReadAllOrdinals state reads =
    fold (\<lambda>(streamId, lastReadOrdinal) s. applyStreamReadOrdinal s streamId lastReadOrdinal (Some []) None) reads state"

definition applyStreamReadMessages :: "UnreadCounterState \<Rightarrow> string \<Rightarrow> string list \<Rightarrow> int \<Rightarrow> UnreadCounterState" where
  "applyStreamReadMessages state streamId readMessageIds lastReadOrdinal =
    (let prevOv = overlaySize state streamId;
         latest = max (case latest_of state streamId of None \<Rightarrow> 0 | Some l \<Rightarrow> l) lastReadOrdinal;
         prevRead = (case latest_of state streamId of
             None \<Rightarrow> lastReadOrdinal
           | Some prevLatest \<Rightarrow> max 0 (prevLatest - unread_of state streamId - prevOv));
         read = max prevRead lastReadOrdinal
     in set_ordinal streamId latest (max 0 (latest - read - int (length readMessageIds))) (setOverlay state streamId readMessageIds))"

definition applyMovedSourceOrdinal :: "UnreadCounterState \<Rightarrow> string \<Rightarrow> int \<Rightarrow> string list \<Rightarrow> UnreadCounterState" where
  "applyMovedSourceOrdinal state streamId sourceMessageOrdinal movedMessageIds =
    (let ovBefore = overlaySize state streamId;
         base = (case latest_of state streamId of None \<Rightarrow> sourceMessageOrdinal | Some l \<Rightarrow> l);
         read = max 0 (base - unread_of state streamId - ovBefore);
         remaining = filter (\<lambda>i. i \<notin> set movedMessageIds) (case overlay_of state streamId of None \<Rightarrow> [] | Some ids \<Rightarrow> ids);
         next = setOverlay state streamId remaining;
         ovAfter = overlaySize next streamId
     in set_ordinal streamId sourceMessageOrdinal (max 0 (sourceMessageOrdinal - read - ovAfter)) next)"

definition dropMessageActivities :: "UnreadCounterState \<Rightarrow> string \<Rightarrow> UnreadCounterState" where
  "dropMessageActivities state messageId = drop_rows (\<lambda>a. a_messageId a = Some messageId) state"

definition reconcileActivities :: "UnreadCounterState \<Rightarrow> Activity list \<Rightarrow> UnreadCounterState" where
  "reconcileActivities state serverRows = withActivities state (filter (\<lambda>a. \<not> a_isSelf a) serverRows)"

section \<open>Bootstraps\<close>

text \<open>The counter slice of a workspace bootstrap; the other fields ride along in the record extension.\<close>

record WorkspaceBootstrap =
  wb_unreadCounts :: "int obj"
  wb_unreadActivities :: "Activity list option"
  wb_activityCounts :: "int obj"
  wb_mentionCounts :: "int obj"
  wb_unreadActivityCount :: int
  wb_messageCounts :: "int obj option"
  wb_readMessageIds :: "string list obj option"
  wb_inboxHeldStreamIds :: "string list option"
  wb_inboxArrivedAt :: "string obj option"
  wb_mutedStreamIds :: "string list"

definition bootstrapActivityCacheFields :: "'b WorkspaceBootstrap_scheme \<Rightarrow> Activity list \<times> int obj \<times> int obj \<times> int" where
  "bootstrapActivityCacheFields bootstrap = (let rows = orec (wb_unreadActivities bootstrap) in (rows, deriveActivityCounts rows))"

definition toCounterState :: "'b WorkspaceBootstrap_scheme \<Rightarrow> UnreadCounterState" where
  "toCounterState bootstrap = (let rows = orec (wb_unreadActivities bootstrap); (a, m, n) = deriveActivityCounts rows in
    \<lparr>us_unreadCounts = wb_unreadCounts bootstrap, us_unreadActivities = rows, us_activityCounts = a, us_mentionCounts = m,
     us_unreadActivityCount = n, us_latestOrdinals = wb_messageCounts bootstrap, us_readMessageIds = wb_readMessageIds bootstrap,
     us_inboxHeldStreamIds = wb_inboxHeldStreamIds bootstrap, us_inboxArrivedAt = wb_inboxArrivedAt bootstrap\<rparr>)"

definition withCounterState :: "'b WorkspaceBootstrap_scheme \<Rightarrow> UnreadCounterState \<Rightarrow> 'b WorkspaceBootstrap_scheme" where
  "withCounterState bootstrap state = bootstrap\<lparr>wb_unreadCounts := us_unreadCounts state,
     wb_unreadActivities := Some (us_unreadActivities state), wb_mentionCounts := us_mentionCounts state,
     wb_activityCounts := us_activityCounts state, wb_unreadActivityCount := us_unreadActivityCount state,
     wb_messageCounts := us_latestOrdinals state, wb_readMessageIds := us_readMessageIds state,
     wb_inboxHeldStreamIds := us_inboxHeldStreamIds state, wb_inboxArrivedAt := us_inboxArrivedAt state\<rparr>"

section \<open>Which streams changed\<close>

definition diff_counts :: "int obj \<Rightarrow> int obj \<Rightarrow> string list" where
  "diff_counts a b = filter (\<lambda>i. count_of i a \<noteq> count_of i b) (js_dedup (map fst a @ map fst b))"

definition diff_overlays :: "string list obj \<Rightarrow> string list obj \<Rightarrow> string list" where
  "diff_overlays a b = filter (\<lambda>i. orec (map_of a i) \<noteq> orec (map_of b i)) (js_dedup (map fst a @ map fst b))"

definition sig_row :: "Activity \<Rightarrow> string list obj \<Rightarrow> string list obj" where
  "sig_row row m = (case a_streamId row of None \<Rightarrow> m | Some s \<Rightarrow> AList.update s (orec (map_of m s) @ [a_id row]) m)"

fun join_space :: "string list \<Rightarrow> string" where
  "join_space [] = []"
| "join_space [s] = s"
| "join_space (s # ss) = s @ '' '' @ join_space ss"

definition sig :: "Activity list \<Rightarrow> string obj" where
  "sig rows = map (\<lambda>(i, ids). (i, join_space (sort ids))) (fold sig_row rows [])"

definition diff_maps :: "'a obj \<Rightarrow> 'a obj \<Rightarrow> string list" where
  "diff_maps a b = filter (\<lambda>i. map_of a i \<noteq> map_of b i) (js_dedup (map fst a @ map fst b))"

definition diff_held :: "string list \<Rightarrow> string list \<Rightarrow> string list" where
  "diff_held a b = filter (\<lambda>i. (i \<in> set a) \<noteq> (i \<in> set b)) (js_dedup (a @ b))"

definition diffCounterStreams :: "UnreadCounterState \<Rightarrow> UnreadCounterState \<Rightarrow> string list" where
  "diffCounterStreams prev next = js_dedup
    (diff_counts (us_unreadCounts prev) (us_unreadCounts next) @
     diff_counts (orec (us_latestOrdinals prev)) (orec (us_latestOrdinals next)) @
     diff_overlays (orec (us_readMessageIds prev)) (orec (us_readMessageIds next)) @
     diff_maps (sig (us_unreadActivities prev)) (sig (us_unreadActivities next)) @
     diff_held (orec (us_inboxHeldStreamIds prev)) (orec (us_inboxHeldStreamIds next)) @
     diff_maps (orec (us_inboxArrivedAt prev)) (orec (us_inboxArrivedAt next)))"

section \<open>Merging a bootstrap\<close>

definition pruneCounterTouches :: "int obj option \<Rightarrow> int option \<Rightarrow> int obj" where
  "pruneCounterTouches touches since =
    (case (touches, since) of
       (Some ts, Some t) \<Rightarrow> filter (\<lambda>(streamId, touchedAt). touchedAt \<ge> t) ts
     | _ \<Rightarrow> [])"

record LocalCounterCache =
  lc_unreadCounts :: "int obj"
  lc_unreadActivities :: "Activity list option"
  lc_latestOrdinals :: "int obj option"
  lc_readMessageIds :: "string list obj option"
  lc_inboxHeldStreamIds :: "string list option"
  lc_inboxArrivedAt :: "string obj option"
  lc_mutedStreamIds :: "string list"
  lc_counterTouchedAt :: "int obj option"
  lc_mutedTouchedAt :: "int obj option"

record MergedFields =
  mf_unreadCounts :: "int obj"
  mf_unreadActivities :: "Activity list"
  mf_activityCounts :: "int obj"
  mf_mentionCounts :: "int obj"
  mf_unreadActivityCount :: int
  mf_latestOrdinals :: "int obj"
  mf_readMessageIds :: "string list obj"
  mf_inboxHeldStreamIds :: "string list"
  mf_inboxArrivedAt :: "string obj"
  mf_mutedStreamIds :: "string list"
  mf_counterTouchedAt :: "int obj"
  mf_mutedTouchedAt :: "int obj"

definition take_local :: "'a obj \<Rightarrow> string \<Rightarrow> 'a obj \<Rightarrow> 'a obj" where
  "take_local local streamId merged =
    (case map_of local streamId of None \<Rightarrow> AList.delete streamId merged | Some v \<Rightarrow> AList.update streamId v merged)"

definition take_member :: "string list \<Rightarrow> string \<Rightarrow> string list \<Rightarrow> string list" where
  "take_member local streamId merged =
    (if streamId \<in> set local then (if streamId \<in> set merged then merged else merged @ [streamId])
     else filter (\<lambda>s. s \<noteq> streamId) merged)"

definition server_fields :: "'b WorkspaceBootstrap_scheme \<Rightarrow> int obj \<Rightarrow> int obj \<Rightarrow> MergedFields" where
  "server_fields bootstrap counterTouchedAt mutedTouchedAt = (let (rows, a, m, n) = bootstrapActivityCacheFields bootstrap in
     \<lparr>mf_unreadCounts = wb_unreadCounts bootstrap, mf_unreadActivities = rows, mf_activityCounts = a,
      mf_mentionCounts = m, mf_unreadActivityCount = n, mf_latestOrdinals = orec (wb_messageCounts bootstrap),
      mf_readMessageIds = orec (wb_readMessageIds bootstrap), mf_inboxHeldStreamIds = orec (wb_inboxHeldStreamIds bootstrap),
      mf_inboxArrivedAt = orec (wb_inboxArrivedAt bootstrap), mf_mutedStreamIds = wb_mutedStreamIds bootstrap,
      mf_counterTouchedAt = counterTouchedAt, mf_mutedTouchedAt = mutedTouchedAt\<rparr>)"

definition merged_rows :: "Activity list \<Rightarrow> Activity list \<Rightarrow> string list \<Rightarrow> Activity list" where
  "merged_rows server local touched =
    filter (\<lambda>a. \<not> a_isSelf a \<and> \<not> (\<exists>s\<in>set touched. a_streamId a = Some s)) server @
    filter (\<lambda>a. \<exists>s\<in>set touched. a_streamId a = Some s) local"

definition local_fields :: "'b WorkspaceBootstrap_scheme \<Rightarrow> LocalCounterCache \<Rightarrow> int obj \<Rightarrow> int obj \<Rightarrow> MergedFields" where
  "local_fields bootstrap l counterTouchedAt mutedTouchedAt =
    (let touched = map fst counterTouchedAt;
         muteTouched = map fst mutedTouchedAt;
         rows = merged_rows (orec (wb_unreadActivities bootstrap)) (orec (lc_unreadActivities l)) touched;
         (a, m, n) = deriveActivityCounts rows
     in \<lparr>mf_unreadCounts = fold (\<lambda>s. AList.update s (count_of s (lc_unreadCounts l))) touched (wb_unreadCounts bootstrap),
         mf_unreadActivities = rows, mf_activityCounts = a, mf_mentionCounts = m, mf_unreadActivityCount = n,
         mf_latestOrdinals = fold (take_local (orec (lc_latestOrdinals l))) touched (orec (wb_messageCounts bootstrap)),
         mf_readMessageIds = fold (take_local (orec (lc_readMessageIds l))) touched (orec (wb_readMessageIds bootstrap)),
         mf_inboxHeldStreamIds = fold (take_member (orec (lc_inboxHeldStreamIds l))) touched (js_dedup (orec (wb_inboxHeldStreamIds bootstrap))),
         mf_inboxArrivedAt = fold (take_local (orec (lc_inboxArrivedAt l))) touched (orec (wb_inboxArrivedAt bootstrap)),
         mf_mutedStreamIds = fold (take_member (lc_mutedStreamIds l)) muteTouched (js_dedup (wb_mutedStreamIds bootstrap)),
         mf_counterTouchedAt = counterTouchedAt, mf_mutedTouchedAt = mutedTouchedAt\<rparr>)"

definition mergeBootstrapUnreadFields ::
  "'b WorkspaceBootstrap_scheme \<Rightarrow> LocalCounterCache option \<Rightarrow> int option \<Rightarrow> MergedFields" where
  "mergeBootstrapUnreadFields bootstrap local fetchStartedAt =
    (let counterTouchedAt = pruneCounterTouches (Option.bind local lc_counterTouchedAt) fetchStartedAt;
         mutedTouchedAt = pruneCounterTouches (Option.bind local lc_mutedTouchedAt) fetchStartedAt
     in case local of
          None \<Rightarrow> server_fields bootstrap counterTouchedAt mutedTouchedAt
        | Some l \<Rightarrow>
            if counterTouchedAt = [] \<and> mutedTouchedAt = [] then server_fields bootstrap counterTouchedAt mutedTouchedAt
            else local_fields bootstrap l counterTouchedAt mutedTouchedAt)"

section \<open>Counts are a projection of the held rows\<close>

definition rows_of :: "string \<Rightarrow> Activity list \<Rightarrow> Activity list" where
  "rows_of s rows = filter (\<lambda>a. a_streamId a = Some s) rows"

lemma count_of_update: "count_of k (AList.update j v r) = (if k = j then v else count_of k r)"
  by (simp add: count_of_def update_conv')

lemma fold_count_row:
  assumes "s \<noteq> []"
  shows "count_of s (fst (fold count_row rows acc)) = count_of s (fst acc) + int (length (rows_of s rows))"
    and "count_of s (snd (fold count_row rows acc)) =
      count_of s (snd acc) + int (length (filter (\<lambda>a. isMentionActivityType (a_activityType a)) (rows_of s rows)))"
proof (induction rows arbitrary: acc)
  case (Cons a rows)
  have row: "rows_of s (a # rows) = (if a_streamId a = Some s then a # rows_of s rows else rows_of s rows)" by (simp add: rows_of_def)
  have one: "count_of s (fst (count_row a acc)) = count_of s (fst acc) + (if a_streamId a = Some s then 1 else 0)"
    "count_of s (snd (count_row a acc)) =
      count_of s (snd acc) + (if a_streamId a = Some s \<and> isMentionActivityType (a_activityType a) then 1 else 0)" for acc
    using assms by (auto simp: count_row_def bump_def count_of_update split: option.split)
  { case 1 show ?case by (simp add: Cons.IH(1) [of "count_row a acc"] one row)
  next case 2 show ?case by (simp add: Cons.IH(2) [of "count_row a acc"] one row) }
qed (simp_all add: rows_of_def)

definition counts_derived :: "UnreadCounterState \<Rightarrow> bool" where
  "counts_derived st \<longleftrightarrow> (us_activityCounts st, us_mentionCounts st, us_unreadActivityCount st) = deriveActivityCounts (us_unreadActivities st)"

lemma derived_counts:
  assumes "counts_derived st" and "s \<noteq> []"
  shows "count_of s (us_activityCounts st) = int (length (rows_of s (us_unreadActivities st)))"
    and "count_of s (us_mentionCounts st) = int (length (filter (\<lambda>a. isMentionActivityType (a_activityType a)) (rows_of s (us_unreadActivities st))))"
    and "us_unreadActivityCount st = int (length (us_unreadActivities st))"
  using assms fold_count_row [OF assms(2), of "us_unreadActivities st" "([], [])"]
  by (auto simp: counts_derived_def deriveActivityCounts_def count_of_def split: prod.splits)

named_theorems counter_simps \<open>what an applier leaves of a counter state\<close>

lemma withActivities_fields [counter_simps]:
  "us_unreadActivities (withActivities st rows) = rows" "us_unreadCounts (withActivities st rows) = us_unreadCounts st"
  "us_latestOrdinals (withActivities st rows) = us_latestOrdinals st" "us_readMessageIds (withActivities st rows) = us_readMessageIds st"
  "us_inboxHeldStreamIds (withActivities st rows) = us_inboxHeldStreamIds st" "us_inboxArrivedAt (withActivities st rows) = us_inboxArrivedAt st"
  by (simp_all add: withActivities_def Let_def split: prod.split)

lemma withActivities_derived [counter_simps]: "counts_derived (withActivities st rows)"
  by (simp add: counts_derived_def withActivities_def Let_def split: prod.split)

definition same_counts :: "UnreadCounterState \<Rightarrow> UnreadCounterState \<Rightarrow> bool" where
  "same_counts st st' \<longleftrightarrow> us_unreadActivities st' = us_unreadActivities st \<and> us_activityCounts st' = us_activityCounts st \<and>
    us_mentionCounts st' = us_mentionCounts st \<and> us_unreadActivityCount st' = us_unreadActivityCount st"

lemma same_counts_refl [simp]: "same_counts st st"
  by (simp add: same_counts_def)

lemma same_counts_trans: "same_counts a b \<Longrightarrow> same_counts b c \<Longrightarrow> same_counts a c"
  by (simp add: same_counts_def)

lemma same_counts_setOverlay: "same_counts st (setOverlay st s ids)"
  by (simp add: same_counts_def setOverlay_def Let_def)

lemma same_counts_set_ordinal: "same_counts st (set_ordinal s l u st)"
  by (simp add: same_counts_def set_ordinal_def)

lemma same_counts_arrival: "same_counts st (dropArrivalIfSettled st s)"
  by (simp add: same_counts_def dropArrivalIfSettled_def)

lemma fold_arrival:
  "same_counts st (fold (\<lambda>s r. dropArrivalIfSettled r s) ss st)"
  "us_unreadCounts (fold (\<lambda>s r. dropArrivalIfSettled r s) ss st) = us_unreadCounts st"
  "us_latestOrdinals (fold (\<lambda>s r. dropArrivalIfSettled r s) ss st) = us_latestOrdinals st"
  "us_readMessageIds (fold (\<lambda>s r. dropArrivalIfSettled r s) ss st) = us_readMessageIds st"
proof (induction ss arbitrary: st)
  case (Cons s ss)
  { case 1 show ?case using Cons(1) same_counts_arrival same_counts_trans by fastforce
  next case 2 show ?case by (simp add: Cons(2)) (simp add: dropArrivalIfSettled_def)
  next case 3 show ?case by (simp add: Cons(3)) (simp add: dropArrivalIfSettled_def)
  next case 4 show ?case by (simp add: Cons(4)) (simp add: dropArrivalIfSettled_def) }
qed simp_all

lemma same_counts_held: "same_counts st (applyInboxHeld st ss h)"
proof -
  have "same_counts st (st\<lparr>us_inboxHeldStreamIds := x\<rparr>)" for x by (simp add: same_counts_def)
  moreover have "same_counts st (fold (\<lambda>s r. dropArrivalIfSettled r s) ss (st\<lparr>us_inboxHeldStreamIds := x\<rparr>))" for x
    using calculation fold_arrival(1) same_counts_trans by blast
  ultimately show ?thesis by (simp add: applyInboxHeld_def Let_def split: prod.split)
qed

lemma held_fields [counter_simps]:
  "us_unreadCounts (applyInboxHeld st ss h) = us_unreadCounts st" "us_latestOrdinals (applyInboxHeld st ss h) = us_latestOrdinals st"
  "us_readMessageIds (applyInboxHeld st ss h) = us_readMessageIds st"
  by (simp_all add: applyInboxHeld_def Let_def fold_arrival split: prod.split)

lemma arrival_fields [counter_simps]:
  "us_unreadCounts (dropArrivalIfSettled st s) = us_unreadCounts st" "us_latestOrdinals (dropArrivalIfSettled st s) = us_latestOrdinals st"
  "us_readMessageIds (dropArrivalIfSettled st s) = us_readMessageIds st"
  by (simp_all add: dropArrivalIfSettled_def)

lemma overlay_fields [counter_simps]:
  "us_unreadCounts (setOverlay st s ids) = us_unreadCounts st" "us_latestOrdinals (setOverlay st s ids) = us_latestOrdinals st"
  "orec (map_of (orec (us_readMessageIds (setOverlay st s ids))) x) = (if x = s then ids else orec (overlay_of st x))"
  by (auto simp: setOverlay_def Let_def update_conv' delete_conv')

lemma overlaySize_setOverlay [counter_simps]: "overlaySize (setOverlay st s ids) x = (if x = s then int (length ids) else overlaySize st x)"
  using overlay_fields(3) [of st s ids x] by (auto simp: overlaySize_def split: option.splits)

lemma dropped_fields [counter_simps]:
  "us_unreadCounts (dropActivitiesForStream st s) = us_unreadCounts st" "us_latestOrdinals (dropActivitiesForStream st s) = us_latestOrdinals st"
  "us_readMessageIds (dropActivitiesForStream st s) = us_readMessageIds st"
  by (simp_all add: dropActivitiesForStream_def counter_simps)

lemma set_ordinal_fields [counter_simps]:
  "unread_of (set_ordinal s l u st) x = (if x = s then u else unread_of st x)"
  "latest_of (set_ordinal s l u st) x = (if x = s then Some l else latest_of st x)"
  "us_readMessageIds (set_ordinal s l u st) = us_readMessageIds st"
  by (simp_all add: set_ordinal_def count_of_update update_conv')

section \<open>Every applier keeps the counters consistent\<close>

inductive counter_step :: "UnreadCounterState \<Rightarrow> UnreadCounterState \<Rightarrow> bool" where
  "counter_step st (upsertActivity st a)"
| "counter_step st (dropActivitiesForStream st s)"
| "counter_step st (dropActivitiesById st ids)"
| "counter_step st (dropReactionActivity st msg actor emoji)"
| "counter_step st (rehomeActivities st s s' ids)"
| "counter_step st (clearActivities st)"
| "counter_step st (applyInboxHeld st ss h)"
| "counter_step st (applyStreamActivityOrdinal st s n own t)"
| "counter_step st (applyStreamReadOrdinal st s n ids h)"
| "counter_step st (applyStreamReadSet st s n ids)"
| "counter_step st (applyStreamsReadAllOrdinals st reads)"
| "counter_step st (applyStreamReadMessages st s readIds n)"
| "counter_step st (applyMovedSourceOrdinal st s n moved)"
| "counter_step st (dropMessageActivities st msg)"
| "distinct (map a_id rows) \<Longrightarrow> counter_step st (reconcileActivities st rows)"

definition counters_ok :: "UnreadCounterState \<Rightarrow> bool" where
  "counters_ok st \<longleftrightarrow> counts_derived st \<and> (\<forall>x. 0 \<le> unread_of st x) \<and> distinct (map a_id (us_unreadActivities st))"

lemma counters_ok_rows:
  "counters_ok st \<Longrightarrow> distinct (map a_id rows) \<Longrightarrow> counters_ok (withActivities st rows)"
  by (simp add: counters_ok_def counter_simps)

lemma counters_ok_same:
  "counters_ok st \<Longrightarrow> same_counts st st' \<Longrightarrow> \<forall>x. 0 \<le> unread_of st' x \<Longrightarrow> counters_ok st'"
  by (simp add: counters_ok_def same_counts_def counts_derived_def)

lemma counters_ok_set_ordinal: "counters_ok st \<Longrightarrow> 0 \<le> u \<Longrightarrow> counters_ok (set_ordinal s l u st)"
  by (rule counters_ok_same [of st]) (simp_all add: same_counts_set_ordinal counter_simps counters_ok_def)

lemma counters_ok_overlay: "counters_ok st \<Longrightarrow> counters_ok (setOverlay st s ids)"
  by (rule counters_ok_same [of st]) (simp_all add: same_counts_setOverlay counter_simps counters_ok_def)

lemma counters_ok_arrival: "counters_ok st \<Longrightarrow> counters_ok (dropArrivalIfSettled st s)"
  by (rule counters_ok_same [of st]) (simp_all add: same_counts_arrival counter_simps counters_ok_def)

lemma counters_ok_held: "counters_ok st \<Longrightarrow> counters_ok (applyInboxHeld st ss h)"
  by (rule counters_ok_same [of st]) (simp_all add: same_counts_held counter_simps counters_ok_def)

lemma counters_ok_filter: "counters_ok st \<Longrightarrow> counters_ok (withActivities st (filter p (us_unreadActivities st)))"
  by (rule counters_ok_rows) (simp_all add: counters_ok_def distinct_key_filter)

lemma counters_ok_drop: "counters_ok st \<Longrightarrow> counters_ok (dropActivitiesForStream st s)"
  by (simp add: dropActivitiesForStream_def counters_ok_filter)

lemma counters_ok_read: "counters_ok st \<Longrightarrow> counters_ok (applyStreamReadOrdinal st s n ids h)"
  unfolding applyStreamReadOrdinal_def Let_def
  by (intro counters_ok_arrival counters_ok_set_ordinal)
    (auto simp: counters_ok_held counters_ok_drop counters_ok_overlay split: option.split)

lemma activity_shape:
  "\<exists>l u x. applyStreamActivityOrdinal st s n own t = (set_ordinal s l u st)\<lparr>us_inboxArrivedAt := x\<rparr> \<and> 0 \<le> u"
  unfolding applyStreamActivityOrdinal_def Let_def case_prod_beta by (intro exI conjI, rule refl) simp

lemma counters_ok_step: "counter_step st st' \<Longrightarrow> counters_ok st \<Longrightarrow> counters_ok st'"
proof (induction rule: counter_step.induct)
  case (1 st a)
  then have "distinct (map a_id (filter (\<lambda>b. a_id b \<noteq> a_id a) (us_unreadActivities st) @ [a]))"
    by (auto simp: counters_ok_def distinct_key_filter)
  then show ?case using 1 by (simp add: upsertActivity_def counters_ok_rows)
next
  case (5 st s s' ids)
  let ?p = "\<lambda>a. a_streamId a = Some s \<and> (case a_messageId a of None \<Rightarrow> False | Some i \<Rightarrow> i \<in> set ids)"
  let ?f = "\<lambda>a. if ?p a then a\<lparr>a_streamId := Some s'\<rparr> else a"
  have "map a_id (map ?f (us_unreadActivities st)) = map a_id (us_unreadActivities st)" by simp
  then have "distinct (map a_id (map ?f (us_unreadActivities st)))" using 5 unfolding counters_ok_def by metis
  then show ?case using 5 counters_ok_rows [of st "map ?f (us_unreadActivities st)"] unfolding rehomeActivities_def Let_def by (simp only: split: if_split) simp
next
  case (8 st s n own t)
  have "counters_ok (st'\<lparr>us_inboxArrivedAt := x\<rparr>)" if "counters_ok st'" for st' x
    using that by (intro counters_ok_same [OF that]) (simp_all add: same_counts_def counters_ok_def)
  then show ?case using 8 activity_shape [of st s n own t] counters_ok_set_ordinal by metis
next
  case (11 st reads)
  then show ?case unfolding applyStreamsReadAllOrdinals_def
    by (induction reads arbitrary: st) (auto simp: counters_ok_read)
next
  case (15 rows st)
  then show ?case by (simp add: reconcileActivities_def counters_ok_rows distinct_key_filter)
qed (auto simp: counters_ok_read counters_ok_held counters_ok_drop dropActivitiesById_def dropReactionActivity_def drop_rows_def
    dropMessageActivities_def clearActivities_def applyStreamReadSet_def applyStreamReadMessages_def applyMovedSourceOrdinal_def Let_def
    intro!: counters_ok_filter counters_ok_set_ordinal counters_ok_overlay counters_ok_rows split: option.split)

text \<open>
   Whatever events a client folds into its counters, in whatever order, the badges are a projection of the
  unread rows it holds: per stream the number of its rows and of its mentions, in total the number of rows, each
  row held once.  So no badge counts a row the feed cannot show, and no unread count is negative.
\<close>

theorem badges_match_held_rows:
  assumes "counter_step\<^sup>*\<^sup>* (toCounterState b) st" and "distinct (map a_id (orec (wb_unreadActivities b)))"
    and "\<forall>x. 0 \<le> count_of x (wb_unreadCounts b)" and "s \<noteq> []"
  shows "count_of s (us_activityCounts st) = int (length (rows_of s (us_unreadActivities st))) \<and>
    count_of s (us_mentionCounts st) =
      int (length (filter (\<lambda>a. isMentionActivityType (a_activityType a)) (rows_of s (us_unreadActivities st)))) \<and>
    us_unreadActivityCount st = int (length (us_unreadActivities st)) \<and>
    distinct (map a_id (us_unreadActivities st)) \<and> 0 \<le> unread_of st s"
proof -
  have "counters_ok (toCounterState b)"
    using assms(2,3) by (simp add: counters_ok_def counts_derived_def toCounterState_def Let_def split: prod.split)
  with assms(1) have "counters_ok st"
    by (induction rule: rtranclp_induct) (auto intro: counters_ok_step)
  then show ?thesis using derived_counts [OF _ assms(4)] by (simp add: counters_ok_def)
qed

section \<open>Duplicated and reordered events converge\<close>

datatype counter_event =
    Ev_activity string int bool "string option"  \<comment> \<open>stream, ordinal, own message, creation time\<close>
  | Ev_read string int "string list option" "bool option"  \<comment> \<open>stream, read ordinal, overlay snapshot, inbox hold\<close>

fun apply_event :: "counter_event \<Rightarrow> UnreadCounterState \<Rightarrow> UnreadCounterState" where
  "apply_event (Ev_activity s n own t) st = applyStreamActivityOrdinal st s n own t"
| "apply_event (Ev_read s n ids h) st = applyStreamReadOrdinal st s n ids h"

fun plain :: "counter_event \<Rightarrow> bool" where
  "plain (Ev_read s n ids h) \<longleftrightarrow> ids \<in> {None, Some []}"
| "plain _ = True"

text \<open>The abstract counters of a stream: the highest ordinal heard of, and the highest one read.\<close>

fun ordinals :: "string \<Rightarrow> counter_event \<Rightarrow> int set" where
  "ordinals x (Ev_activity s n own t) = (if s = x then {n} else {})"
| "ordinals x (Ev_read s n ids h) = (if s = x then {n} else {})"

fun read_ordinals :: "string \<Rightarrow> counter_event \<Rightarrow> int set" where
  "read_ordinals x (Ev_activity s n own t) = (if s = x \<and> own then {n} else {})"
| "read_ordinals x (Ev_read s n ids h) = (if s = x then {n} else {})"

definition baseline :: "UnreadCounterState \<Rightarrow> string \<Rightarrow> int \<Rightarrow> int \<Rightarrow> bool" where
  "baseline st x latest read \<longleftrightarrow> overlaySize st x = 0 \<and> latest_of st x = Some latest \<and> unread_of st x = latest - read \<and> 0 \<le> read \<and> read \<le> latest"

lemma overlaySize_keeps [counter_simps]:
  "overlaySize (set_ordinal s l u st) x = overlaySize st x" "overlaySize (dropArrivalIfSettled st s) x = overlaySize st x"
  "overlaySize (applyInboxHeld st ss h) x = overlaySize st x" "overlaySize (dropActivitiesForStream st s) x = overlaySize st x"
  by (simp_all add: overlaySize_def counter_simps)

lemma activity_other: "s \<noteq> x \<Longrightarrow> baseline (applyStreamActivityOrdinal st s n own t) x l r = baseline st x l r"
  using activity_shape [of st s n own t] by (auto simp: baseline_def overlaySize_def counter_simps)

lemma apply_activity_fields:
  assumes b: "baseline st x latest read"
  shows "baseline (applyStreamActivityOrdinal st s n own t) x (Max (insert latest (ordinals x (Ev_activity s n own t))))
    (Max (insert read (read_ordinals x (Ev_activity s n own t))))"
proof (cases "s = x")
  case True
  have r: "latest_of st x = Some latest" "unread_of st x = latest - read" "overlaySize st x = 0" "max 0 read = read"
    using b by (simp_all add: baseline_def)
  have "applyStreamActivityOrdinal st x n own t =
    (set_ordinal x (max latest n) (max 0 (max latest n - (if own then max read n else read))) st)
      \<lparr>us_inboxArrivedAt := us_inboxArrivedAt (applyStreamActivityOrdinal st x n own t)\<rparr>"
    by (simp add: applyStreamActivityOrdinal_def Let_def r)
  then obtain y where y: "applyStreamActivityOrdinal st x n own t =
    (set_ordinal x (max latest n) (max 0 (max latest n - (if own then max read n else read))) st)\<lparr>us_inboxArrivedAt := y\<rparr>" by metis
  have "overlaySize ((set_ordinal x l u st)\<lparr>us_inboxArrivedAt := y\<rparr>) x = 0" for l u
    using r(3) by (simp add: overlaySize_def counter_simps)
  then show ?thesis unfolding True baseline_def y using b by (auto simp: counter_simps baseline_def)
qed (use b in \<open>simp add: activity_other\<close>)

lemma read_fields [counter_simps]:
  "s \<noteq> x \<Longrightarrow> latest_of (applyStreamReadOrdinal st s n ids h) x = latest_of st x"
  "s \<noteq> x \<Longrightarrow> unread_of (applyStreamReadOrdinal st s n ids h) x = unread_of st x"
  "overlaySize (applyStreamReadOrdinal st s n ids h) x = (case ids of None \<Rightarrow> overlaySize st x | Some i \<Rightarrow> overlaySize (setOverlay st s i) x)"
  by (simp_all add: applyStreamReadOrdinal_def Let_def counter_simps split: option.split)

lemma apply_read_fields:
  assumes b: "baseline st x latest read" and ids: "ids \<in> {None, Some []}"
  shows "baseline (applyStreamReadOrdinal st s n ids h) x (Max (insert latest (ordinals x (Ev_read s n ids h))))
    (Max (insert read (read_ordinals x (Ev_read s n ids h))))"
proof -
  have ov: "overlaySize (applyStreamReadOrdinal st s n ids h) x = 0"
    using b ids by (auto simp: counter_simps baseline_def)
  show ?thesis
  proof (cases "s = x")
    case True
    have r: "latest_of st x = Some latest" "unread_of st x = latest - read" "overlaySize st x = 0" "max 0 read = read"
      using b by (simp_all add: baseline_def)
    have "latest_of (applyStreamReadOrdinal st x n ids h) x = Some (max latest n)"
      "unread_of (applyStreamReadOrdinal st x n ids h) x = max 0 (max latest n - max read n)"
      using ids r(3) by (auto simp: applyStreamReadOrdinal_def Let_def counter_simps r split: option.split)
    then show ?thesis using ov b unfolding True by (auto simp: baseline_def)
  qed (use b ov in \<open>simp add: baseline_def counter_simps\<close>)
qed

lemma apply_event_baseline:
  "baseline st x latest read \<Longrightarrow> plain e \<Longrightarrow>
    baseline (apply_event e st) x (Max (insert latest (ordinals x e))) (Max (insert read (read_ordinals x e)))"
  by (cases e) (simp_all only: apply_event.simps plain.simps apply_activity_fields apply_read_fields)

lemma finite_ordinals [simp]: "finite (ordinals x e)" "finite (read_ordinals x e)"
  by (cases e; simp)+

lemma Max_insert_Max: "finite A \<Longrightarrow> finite B \<Longrightarrow> Max (insert (Max (insert l A)) B) = Max (insert (l::int) (A \<union> B))"
proof -
  assume f: "finite A" "finite B"
  show ?thesis
  proof (cases "B = {}")
    case False
    then have "Max (insert (Max (insert l A)) B) = max (Max (insert l A)) (Max B)" using f by (intro Max_insert) auto
    also have "\<dots> = Max (insert l A \<union> B)" using f False by (intro Max_Un [symmetric]) auto
    finally show ?thesis by simp
  qed simp
qed

lemma fold_events_baseline:
  assumes "baseline st x latest read" and "list_all plain es"
  shows "baseline (fold apply_event es st) x (Max (insert latest (\<Union>e\<in>set es. ordinals x e)))
    (Max (insert read (\<Union>e\<in>set es. read_ordinals x e)))"
  using assms
proof (induction es arbitrary: st latest read)
  case (Cons e es)
  have "baseline (apply_event e st) x (Max (insert latest (ordinals x e))) (Max (insert read (read_ordinals x e)))"
    using Cons.prems by (intro apply_event_baseline) auto
  from Cons.IH [OF this] show ?case using Cons.prems(2) by (simp add: Max_insert_Max)
qed (simp add: baseline_def)


section \<open>A bootstrap merges stream by stream\<close>

definition touched_since :: "int \<Rightarrow> int obj option \<Rightarrow> string \<Rightarrow> bool" where
  "touched_since since touches s \<longleftrightarrow> (\<exists>t\<ge>since. (s, t) \<in> set (orec touches))"

lemma pruned_keys: "s \<in> fst ` set (pruneCounterTouches touches (Some since)) \<longleftrightarrow> touched_since since touches s"
  by (cases touches) (force simp: pruneCounterTouches_def touched_since_def)+

lemma fold_take_local: "map_of (fold (take_local loc) ts merged) s = (if s \<in> set ts then map_of loc s else map_of merged s)"
  by (induction ts arbitrary: merged) (auto simp: take_local_def update_conv' delete_conv' split: option.split)

lemma fold_take_member: "s \<in> set (fold (take_member loc) ts merged) \<longleftrightarrow> (if s \<in> set ts then s \<in> set loc else s \<in> set merged)"
  by (induction ts arbitrary: merged) (auto simp: take_member_def)

lemma fold_take_count:
  "map_of (fold (\<lambda>s. AList.update s (count_of s loc)) ts merged) s = (if s \<in> set ts then Some (count_of s loc) else map_of merged s)"
  by (induction ts arbitrary: merged) (auto simp: update_conv')

lemma count_of_fold_take:
  "count_of s (fold (\<lambda>s. AList.update s (count_of s loc)) ts merged) = (if s \<in> set ts then count_of s loc else count_of s merged)"
  using fold_take_count [of loc ts merged s] by (simp add: count_of_def [of s "fold _ _ _"] count_of_def [of s merged])

lemma rows_of_append [simp]: "rows_of s (xs @ ys) = rows_of s xs @ rows_of s ys"
  by (simp add: rows_of_def)

lemma rows_of_filter_touched:
  "rows_of s (filter (\<lambda>a. \<exists>s\<in>set ts. a_streamId a = Some s) rows) = (if s \<in> set ts then rows_of s rows else [])"
  "rows_of s (filter (\<lambda>a. \<not> a_isSelf a \<and> \<not> (\<exists>s\<in>set ts. a_streamId a = Some s)) rows) =
    (if s \<in> set ts then [] else filter (\<lambda>a. \<not> a_isSelf a) (rows_of s rows))"
  by (induction rows) (auto simp: rows_of_def)

lemma rows_of_merged:
  "list_all (\<lambda>a. \<not> a_isSelf a) server \<Longrightarrow> rows_of s (merged_rows server loc ts) = (if s \<in> set ts then rows_of s loc else rows_of s server)"
proof -
  assume "list_all (\<lambda>a. \<not> a_isSelf a) server"
  then have "filter (\<lambda>a. \<not> a_isSelf a) (rows_of s server) = rows_of s server" by (auto simp: rows_of_def list_all_iff intro: filter_cong)
  then show ?thesis unfolding merged_rows_def rows_of_append rows_of_filter_touched by simp
qed

definition stream_view :: "int obj \<Rightarrow> int obj \<Rightarrow> string list obj \<Rightarrow> string list \<Rightarrow> string obj \<Rightarrow> Activity list \<Rightarrow> string \<Rightarrow>
    int \<times> int option \<times> string list option \<times> bool \<times> string option \<times> Activity list" where
  "stream_view unread latest overlay held arrived rows s =
    (count_of s unread, map_of latest s, map_of overlay s, s \<in> set held, map_of arrived s, rows_of s rows)"

definition merged_view :: "MergedFields \<Rightarrow> string \<Rightarrow> int \<times> int option \<times> string list option \<times> bool \<times> string option \<times> Activity list" where
  "merged_view f = stream_view (mf_unreadCounts f) (mf_latestOrdinals f) (mf_readMessageIds f) (mf_inboxHeldStreamIds f)
     (mf_inboxArrivedAt f) (mf_unreadActivities f)"

definition server_view :: "'b WorkspaceBootstrap_scheme \<Rightarrow> string \<Rightarrow> int \<times> int option \<times> string list option \<times> bool \<times> string option \<times> Activity list" where
  "server_view b = stream_view (wb_unreadCounts b) (orec (wb_messageCounts b)) (orec (wb_readMessageIds b)) (orec (wb_inboxHeldStreamIds b))
     (orec (wb_inboxArrivedAt b)) (orec (wb_unreadActivities b))"

definition local_view :: "LocalCounterCache \<Rightarrow> string \<Rightarrow> int \<times> int option \<times> string list option \<times> bool \<times> string option \<times> Activity list" where
  "local_view l = stream_view (lc_unreadCounts l) (orec (lc_latestOrdinals l)) (orec (lc_readMessageIds l)) (orec (lc_inboxHeldStreamIds l))
     (orec (lc_inboxArrivedAt l)) (orec (lc_unreadActivities l))"

lemma server_fields_view:
  "merged_view (server_fields b ct mt) s = server_view b s" "mf_mutedStreamIds (server_fields b ct mt) = wb_mutedStreamIds b"
  "(mf_activityCounts (server_fields b ct mt), mf_mentionCounts (server_fields b ct mt), mf_unreadActivityCount (server_fields b ct mt)) =
    deriveActivityCounts (mf_unreadActivities (server_fields b ct mt))"
  by (simp_all add: server_fields_def Let_def bootstrapActivityCacheFields_def merged_view_def server_view_def split: prod.split)

lemma local_fields_view:
  assumes "list_all (\<lambda>a. \<not> a_isSelf a) (orec (wb_unreadActivities b))"
  shows "merged_view (local_fields b l ct mt) s = (if s \<in> fst ` set ct then local_view l s else server_view b s) \<and>
    (s \<in> set (mf_mutedStreamIds (local_fields b l ct mt)) \<longleftrightarrow>
      (if s \<in> fst ` set mt then s \<in> set (lc_mutedStreamIds l) else s \<in> set (wb_mutedStreamIds b))) \<and>
    (mf_activityCounts (local_fields b l ct mt), mf_mentionCounts (local_fields b l ct mt), mf_unreadActivityCount (local_fields b l ct mt)) =
      deriveActivityCounts (mf_unreadActivities (local_fields b l ct mt))"
proof -
  have fields: "mf_unreadCounts (local_fields b l ct mt) = fold (\<lambda>s. AList.update s (count_of s (lc_unreadCounts l))) (map fst ct) (wb_unreadCounts b)"
    "mf_latestOrdinals (local_fields b l ct mt) = fold (take_local (orec (lc_latestOrdinals l))) (map fst ct) (orec (wb_messageCounts b))"
    "mf_readMessageIds (local_fields b l ct mt) = fold (take_local (orec (lc_readMessageIds l))) (map fst ct) (orec (wb_readMessageIds b))"
    "mf_inboxHeldStreamIds (local_fields b l ct mt) =
      fold (take_member (orec (lc_inboxHeldStreamIds l))) (map fst ct) (js_dedup (orec (wb_inboxHeldStreamIds b)))"
    "mf_inboxArrivedAt (local_fields b l ct mt) = fold (take_local (orec (lc_inboxArrivedAt l))) (map fst ct) (orec (wb_inboxArrivedAt b))"
    "mf_mutedStreamIds (local_fields b l ct mt) = fold (take_member (lc_mutedStreamIds l)) (map fst mt) (js_dedup (wb_mutedStreamIds b))"
    "mf_unreadActivities (local_fields b l ct mt) = merged_rows (orec (wb_unreadActivities b)) (orec (lc_unreadActivities l)) (map fst ct)"
    by (simp_all add: local_fields_def Let_def split: prod.split)
  have "merged_view (local_fields b l ct mt) s = (if s \<in> fst ` set ct then local_view l s else server_view b s)"
    unfolding merged_view_def local_view_def server_view_def stream_view_def fields rows_of_merged [OF assms] fold_take_local fold_take_member
      count_of_fold_take
    by simp
  moreover have "s \<in> set (mf_mutedStreamIds (local_fields b l ct mt)) \<longleftrightarrow>
      (if s \<in> fst ` set mt then s \<in> set (lc_mutedStreamIds l) else s \<in> set (wb_mutedStreamIds b))"
    unfolding fields fold_take_member by simp
  moreover have "(mf_activityCounts (local_fields b l ct mt), mf_mentionCounts (local_fields b l ct mt), mf_unreadActivityCount (local_fields b l ct mt)) =
      deriveActivityCounts (mf_unreadActivities (local_fields b l ct mt))"
    by (simp add: local_fields_def Let_def split: prod.split)
  ultimately show ?thesis by blast
qed

text \<open>
   Merging a bootstrap into the local cache is a choice per stream: a stream whose counters were written
  locally since the fetch began keeps its local unread count, ordinal, overlay, inbox membership, arrival and
  activity rows together, every other stream takes all of them from the server; mute membership is chosen the
  same way by its own touch stamps, and the activity counts are those of the merged rows.
\<close>

theorem bootstrap_merges_per_stream:
  assumes "f = mergeBootstrapUnreadFields b (Some l) (Some t0)" and "list_all (\<lambda>a. \<not> a_isSelf a) (orec (wb_unreadActivities b))"
  shows "merged_view f s = (if touched_since t0 (lc_counterTouchedAt l) s then local_view l s else server_view b s) \<and>
    (s \<in> set (mf_mutedStreamIds f) \<longleftrightarrow>
      (if touched_since t0 (lc_mutedTouchedAt l) s then s \<in> set (lc_mutedStreamIds l) else s \<in> set (wb_mutedStreamIds b))) \<and>
    (mf_activityCounts f, mf_mentionCounts f, mf_unreadActivityCount f) = deriveActivityCounts (mf_unreadActivities f)"
proof -
  let ?ct = "pruneCounterTouches (lc_counterTouchedAt l) (Some t0)"
  let ?mt = "pruneCounterTouches (lc_mutedTouchedAt l) (Some t0)"
  show ?thesis
  proof (cases "?ct = [] \<and> ?mt = []")
    case True
    then have "f = server_fields b ?ct ?mt" by (simp add: assms(1) mergeBootstrapUnreadFields_def Let_def)
    moreover have "\<not> touched_since t0 (lc_counterTouchedAt l) s" "\<not> touched_since t0 (lc_mutedTouchedAt l) s"
      using True unfolding pruned_keys [symmetric] by simp_all
    ultimately show ?thesis using server_fields_view [of b ?ct ?mt] by simp
  next
    case False
    then have "f = local_fields b l ?ct ?mt"
      unfolding assms(1) mergeBootstrapUnreadFields_def Let_def Option.bind.simps option.case by (simp only: if_False)
    then show ?thesis using local_fields_view [OF assms(2), of l ?ct ?mt s] unfolding pruned_keys by blast
  qed
qed

section \<open>Round trips, change detection, and where the counters drift\<close>

lemma toCounterState_withCounterState: "counts_derived st \<Longrightarrow> toCounterState (withCounterState b st) = st"
  by (auto simp: toCounterState_def withCounterState_def counts_derived_def Let_def split: prod.split)

lemma diff_counts_iff: "i \<notin> set (diff_counts a b) \<longleftrightarrow> count_of i a = count_of i b"
proof -
  have "count_of i a = count_of i b" if "i \<notin> fst ` set a" "i \<notin> fst ` set b"
    using that by (simp add: count_of_def map_of_eq_None_iff [symmetric])
  then show ?thesis by (auto simp: diff_counts_def)
qed

lemma diff_maps_iff: "i \<notin> set (diff_maps a b) \<longleftrightarrow> map_of a i = map_of b i"
proof -
  have "map_of a i = map_of b i" if "i \<notin> fst ` set a" "i \<notin> fst ` set b"
    using that by (simp add: map_of_eq_None_iff [symmetric])
  then show ?thesis by (auto simp: diff_maps_def)
qed

lemma diff_overlays_iff: "i \<notin> set (diff_overlays a b) \<longleftrightarrow> orec (map_of a i) = orec (map_of b i)"
proof -
  have "map_of a i = map_of b i" if "i \<notin> fst ` set a" "i \<notin> fst ` set b"
    using that by (simp add: map_of_eq_None_iff [symmetric])
  then show ?thesis by (auto simp: diff_overlays_def)
qed

text \<open>A stream is reported as changed exactly when one of its counters, its rows' signature or its inbox state changed.\<close>

lemma diffCounterStreams_iff:
  "i \<notin> set (diffCounterStreams st st') \<longleftrightarrow>
    unread_of st i = unread_of st' i \<and> count_of i (orec (us_latestOrdinals st)) = count_of i (orec (us_latestOrdinals st')) \<and>
    orec (overlay_of st i) = orec (overlay_of st' i) \<and>
    map_of (sig (us_unreadActivities st)) i = map_of (sig (us_unreadActivities st')) i \<and>
    held_in st i = held_in st' i \<and> map_of (orec (us_inboxArrivedAt st)) i = map_of (orec (us_inboxArrivedAt st')) i"
proof -
  have "i \<notin> set (diff_held (orec (us_inboxHeldStreamIds st)) (orec (us_inboxHeldStreamIds st'))) \<longleftrightarrow> held_in st i = held_in st' i"
    by (auto simp: diff_held_def held_in_def)
  then show ?thesis unfolding diffCounterStreams_def set_js_dedup set_append Un_iff de_Morgan_disj diff_counts_iff diff_maps_iff diff_overlays_iff by blast
qed

definition ex_activity :: "string \<Rightarrow> string \<Rightarrow> string \<Rightarrow> Activity" where
  "ex_activity i ty s = \<lparr>a_id = i, a_workspaceId = ''ws'', a_userId = ''ann'', a_activityType = ty, a_streamId = Some s, a_messageId = Some ''m'',
     a_actorId = ''bob'', a_actorType = ''user'', a_context = JObj [], a_readAt = None, a_createdAt = ''t'', a_isSelf = False, a_emoji = None\<rparr>"

definition ex_bootstrap :: WorkspaceBootstrap where
  "ex_bootstrap = \<lparr>wb_unreadCounts = [(''general'', 2)], wb_unreadActivities = Some [ex_activity ''a1'' ''mention'' ''general''], wb_activityCounts = [],
     wb_mentionCounts = [], wb_unreadActivityCount = 0, wb_messageCounts = Some [(''general'', 7)], wb_readMessageIds = None,
     wb_inboxHeldStreamIds = None, wb_inboxArrivedAt = None, wb_mutedStreamIds = []\<rparr>"

definition ex_counters :: UnreadCounterState where "ex_counters = toCounterState ex_bootstrap"

theorem badges_match_held_rows_witness:
  "let st = upsertActivity (upsertActivity ex_counters (ex_activity ''a2'' ''message'' ''general'')) (ex_activity ''a1'' ''mention'' ''general'')
   in count_of ''general'' (us_activityCounts st) = 2 \<and> count_of ''general'' (us_mentionCounts st) = 1 \<and> us_unreadActivityCount st = 2"
proof -
  let ?st = "upsertActivity (upsertActivity ex_counters (ex_activity ''a2'' ''message'' ''general'')) (ex_activity ''a1'' ''mention'' ''general'')"
  have r: "counter_step\<^sup>*\<^sup>* (toCounterState ex_bootstrap) ?st"
    unfolding ex_counters_def by (meson converse_rtranclp_into_rtranclp counter_step.intros(1) rtranclp.rtrancl_refl)
  have "\<forall>x. 0 \<le> count_of x (wb_unreadCounts ex_bootstrap)" "distinct (map a_id (orec (wb_unreadActivities ex_bootstrap)))"
    by (simp_all add: ex_bootstrap_def count_of_def)
  note h = badges_match_held_rows [OF r this(2,1), of "''general''"]
  have "length (us_unreadActivities ?st) = 2" "length (rows_of ''general'' (us_unreadActivities ?st)) = 2"
    "length (filter (\<lambda>a. isMentionActivityType (a_activityType a)) (rows_of ''general'' (us_unreadActivities ?st))) = 1" by code_simp+
  then show ?thesis using h by (simp add: Let_def)
qed


definition ex_local :: LocalCounterCache where
  "ex_local = \<lparr>lc_unreadCounts = [(''general'', 0), (''dm'', 1)], lc_unreadActivities = None, lc_latestOrdinals = Some [(''general'', 7)],
     lc_readMessageIds = None, lc_inboxHeldStreamIds = None, lc_inboxArrivedAt = None, lc_mutedStreamIds = [],
     lc_counterTouchedAt = Some [(''general'', 50), (''dm'', 30)], lc_mutedTouchedAt = None\<rparr>"

theorem bootstrap_merges_per_stream_witness:
  "merged_view (mergeBootstrapUnreadFields ex_bootstrap (Some ex_local) (Some 40)) ''general'' = (0, Some 7, None, False, None, [])"
proof -
  have "touched_since 40 (lc_counterTouchedAt ex_local) ''general''" by (simp add: touched_since_def ex_local_def)
  moreover have "list_all (\<lambda>a. \<not> a_isSelf a) (orec (wb_unreadActivities ex_bootstrap))" by code_simp
  moreover have "local_view ex_local ''general'' = (0, Some 7, None, False, None, [])" by code_simp
  ultimately show ?thesis using bootstrap_merges_per_stream [OF refl, of ex_bootstrap ex_local 40 "''general''"] by simp
qed

text \<open>
  With a read overlay the merge is not a max-merge: a read event that carries no overlay snapshot and a later
  message give another count than the same two events the other way round.
\<close>

lemma overlay_breaks_convergence:
  "let st = set_ordinal ''general'' 7 2 (setOverlay ex_counters ''general'' [''m1'', ''m2'']);
       read = Ev_read ''general'' 7 None None; message = Ev_activity ''general'' 8 False None
   in unread_of (fold apply_event [read, message] st) ''general'' = 1 \<and> unread_of (fold apply_event [message, read] st) ''general'' = 0"
  by code_simp

text \<open>
  Not every applier that settles a stream drops its arrival: a conversation read can take the unread count to zero
  and leave the recorded arrival behind.
\<close>

lemma stale_arrival_kept:
  "let st = applyStreamReadMessages (ex_counters\<lparr>us_inboxArrivedAt := Some [(''general'', ''t'')]\<rparr>) ''general'' [] 7
   in unread_of st ''general'' = 0 \<and> \<not> held_in st ''general'' \<and> map_of (orec (us_inboxArrivedAt st)) ''general'' = Some ''t''"
  by code_simp

end
