(* ===== verification/Event_Gate.thy ===== *)
theory Event_Gate
  imports Client_Cursor Sync_Sanitize
begin

text \<open>
  \<^verbatim>\<open>apps/frontend/src/sync/socket-event-gate.ts\<close>: the gate that live socket events and catch-up entries pass on
  their way to the client's handlers.  Handlers are named by numbers; which of them reject is an argument of the
  step that settles a dispatch.  A dispatch starts in one step and settles in another, because the gate awaits it
  in between; the splice of \<open>resume\<close> is cut into one step per loop turn, which allows more interleavings than
  the event loop does.  One \<open>resume\<close> is in flight at a time, as the engine's single-flight catch-up ensures.
\<close>

record BufferedEvent =
  bf_eventType :: string
  bf_payload :: json
  bf_syncId :: int

definition DEFAULT_BUFFER_LIMIT :: nat where "DEFAULT_BUFFER_LIMIT = 2000"

record SocketEventGate =
  ga_workspaceId :: string
  ga_bufferLimit :: nat
  ga_handlers :: "(string \<times> nat list) list"
  ga_forwarders :: "string list"
  ga_socket :: "nat option"
  ga_paused :: bool
  ga_pauseEpoch :: nat
  ga_buffer :: "BufferedEvent list"
  ga_overflowWarned :: bool
  ga_disposed :: bool

definition mkSocketEventGate :: "string \<Rightarrow> nat option \<Rightarrow> SocketEventGate" where
  "mkSocketEventGate workspaceId bufferLimit =
    \<lparr>ga_workspaceId = workspaceId, ga_bufferLimit = (case bufferLimit of None \<Rightarrow> DEFAULT_BUFFER_LIMIT | Some n \<Rightarrow> n),
     ga_handlers = [], ga_forwarders = [], ga_socket = None, ga_paused = False, ga_pauseEpoch = 0, ga_buffer = [],
     ga_overflowWarned = False, ga_disposed = False\<rparr>"

text \<open>The forwarders registered on sockets: which event types of which socket reach the gate.\<close>

type_synonym listeners = "(nat \<times> string) list"

section \<open>Registration\<close>

definition gate_detach :: "SocketEventGate \<times> listeners \<Rightarrow> SocketEventGate \<times> listeners" where
  "gate_detach = (\<lambda>(g, ls).
    case ga_socket g of
      None \<Rightarrow> (g, ls)
    | Some k \<Rightarrow> (g\<lparr>ga_socket := None\<rparr>, filter (\<lambda>(k', ty). \<not> (k' = k \<and> ty \<in> set (ga_forwarders g))) ls))"

definition gate_attach :: "nat \<Rightarrow> SocketEventGate \<times> listeners \<Rightarrow> SocketEventGate \<times> listeners" where
  "gate_attach k s =
    (if ga_disposed (fst s) \<or> ga_socket (fst s) = Some k then s
     else let (g, ls) = gate_detach s in (g\<lparr>ga_socket := Some k\<rparr>, ls @ map (Pair k) (ga_forwarders g)))"

definition gate_on :: "string \<Rightarrow> nat \<Rightarrow> SocketEventGate \<times> listeners \<Rightarrow> SocketEventGate \<times> listeners" where
  "gate_on event listener = (\<lambda>(g, ls).
    if ga_disposed g then (g, ls)
    else
      let hs = (case map_of (ga_handlers g) event of None \<Rightarrow> [] | Some hs \<Rightarrow> hs);
          g1 = g\<lparr>ga_handlers := AList.update event (if listener \<in> set hs then hs else hs @ [listener]) (ga_handlers g)\<rparr>
      in if event \<in> set (ga_forwarders g) then (g1, ls)
         else (g1\<lparr>ga_forwarders := ga_forwarders g @ [event]\<rparr>, case ga_socket g of None \<Rightarrow> ls | Some k \<Rightarrow> ls @ [(k, event)]))"

definition gate_off :: "string \<Rightarrow> nat \<Rightarrow> SocketEventGate \<times> listeners \<Rightarrow> SocketEventGate \<times> listeners" where
  "gate_off event listener = (\<lambda>(g, ls).
    case map_of (ga_handlers g) event of
      None \<Rightarrow> (g, ls)
    | Some hs \<Rightarrow>
        let hs' = filter (\<lambda>h. h \<noteq> listener) hs
        in if hs' \<noteq> [] then (g\<lparr>ga_handlers := AList.update event hs' (ga_handlers g)\<rparr>, ls)
           else
             let g1 = g\<lparr>ga_handlers := AList.delete event (ga_handlers g)\<rparr>
             in if event \<in> set (ga_forwarders g)
                then (g1\<lparr>ga_forwarders := filter (\<lambda>ty. ty \<noteq> event) (ga_forwarders g)\<rparr>,
                  case ga_socket g of None \<Rightarrow> ls | Some k \<Rightarrow> filter (\<lambda>l. l \<noteq> (k, event)) ls)
                else (g1, ls))"

definition gate_dispose :: "SocketEventGate \<times> listeners \<Rightarrow> SocketEventGate \<times> listeners" where
  "gate_dispose = (\<lambda>(g, ls).
    let (g1, ls1) = gate_detach (g\<lparr>ga_disposed := True\<rparr>, ls)
    in (g1\<lparr>ga_buffer := [], ga_handlers := [], ga_forwarders := []\<rparr>, ls1))"

definition hasBuffered :: "SocketEventGate \<Rightarrow> bool" where
  "hasBuffered g \<longleftrightarrow> ga_buffer g \<noteq> []"

definition gate_pause :: "SocketEventGate \<Rightarrow> SocketEventGate" where
  "gate_pause g = (if ga_disposed g then g else g\<lparr>ga_paused := True, ga_pauseEpoch := ga_pauseEpoch g + 1\<rparr>)"

definition parseBufferSyncId :: "string \<Rightarrow> int option" where
  "parseBufferSyncId = js_BigInt"

section \<open>Delivery\<close>

text \<open>The handlers a dispatch runs; it rejects when one of them does.\<close>

definition handlers_for :: "SocketEventGate \<Rightarrow> string \<Rightarrow> nat list" where
  "handlers_for g eventType = (case map_of (ga_handlers g) eventType of None \<Rightarrow> [] | Some hs \<Rightarrow> hs)"

definition dispatch_ok :: "(nat \<Rightarrow> bool) \<Rightarrow> nat list \<Rightarrow> bool" where
  "dispatch_ok fails hs \<longleftrightarrow> (\<forall>h\<in>set hs. \<not> fails h)"

text \<open>An event of this workspace that carries a sync id; the id may still not parse.\<close>

definition sync_id_of :: "SocketEventGate \<Rightarrow> json \<Rightarrow> string option" where
  "sync_id_of g payload =
    (if truthy payload \<and> opt_get ''workspaceId'' payload = JStr (ga_workspaceId g) then as_string (opt_get ''syncId'' payload) else None)"

datatype incoming =
    In_ignored
  | In_buffered SocketEventGate BufferedEvent
  | In_overflow SocketEventGate
  | In_live "nat list" "string option"  \<comment> \<open>the handlers started, the id to report once they landed\<close>

definition handleIncoming :: "string \<Rightarrow> json \<Rightarrow> SocketEventGate \<Rightarrow> incoming" where
  "handleIncoming eventType payload g =
    (if ga_disposed g then In_ignored
     else
       case (if ga_paused g then Option.bind (sync_id_of g payload) parseBufferSyncId else None) of
         Some syncId \<Rightarrow>
           let e = \<lparr>bf_eventType = eventType, bf_payload = payload, bf_syncId = syncId\<rparr>
           in if length (ga_buffer g) < ga_bufferLimit g then In_buffered (g\<lparr>ga_buffer := ga_buffer g @ [e]\<rparr>) e
              else In_overflow (g\<lparr>ga_buffer := [], ga_overflowWarned := True\<rparr>)
       | None \<Rightarrow> In_live (handlers_for g eventType) (sync_id_of g payload))"

definition retainForRecovery :: "BufferedEvent list \<Rightarrow> SocketEventGate \<Rightarrow> SocketEventGate" where
  "retainForRecovery events g = g\<lparr>ga_buffer := take (ga_bufferLimit g) (events @ ga_buffer g)\<rparr>"

text \<open>One turn of the loops of \<open>resume\<close>: its epoch, filter and the rest of the batch it is draining.\<close>

type_synonym splice_filter = "string \<Rightarrow> int \<Rightarrow> json \<Rightarrow> bool"

datatype splice =
    Sp_idle
  | Sp_draining nat splice_filter "BufferedEvent list"
  | Sp_awaiting nat splice_filter BufferedEvent "nat list" "BufferedEvent list"

datatype turn =
    Turn_stop SocketEventGate
  | Turn_batch SocketEventGate "BufferedEvent list"
  | Turn_skip BufferedEvent "BufferedEvent list"
  | Turn_dispatch BufferedEvent "nat list" "BufferedEvent list"

fun resume_turn :: "nat \<Rightarrow> splice_filter \<Rightarrow> BufferedEvent list \<Rightarrow> SocketEventGate \<Rightarrow> turn" where
  "resume_turn epoch applyIf [] g =
    (if ga_buffer g \<noteq> [] then
       (if ga_disposed g then Turn_stop g else Turn_batch (g\<lparr>ga_buffer := []\<rparr>) (sort_key bf_syncId (ga_buffer g)))
     else if ga_pauseEpoch g \<noteq> epoch then Turn_stop g
     else Turn_stop (g\<lparr>ga_paused := False, ga_overflowWarned := False\<rparr>))"
| "resume_turn epoch applyIf (e # rest) g =
    (if ga_disposed g then Turn_stop g
     else if ga_pauseEpoch g \<noteq> epoch then Turn_stop (g\<lparr>ga_buffer := (e # rest) @ ga_buffer g\<rparr>)
     else if \<not> applyIf (bf_eventType e) (bf_syncId e) (bf_payload e) then Turn_skip e rest
     else Turn_dispatch e (handlers_for g (bf_eventType e)) rest)"

section \<open>The gate among its callers\<close>

text \<open>
  The ghost fields record what the gate did: the events it took into the buffer, those the splice handed over or
  skipped, the dispatches that landed, the ids reported by \<open>onApplied\<close> and the recoveries it asked for.
\<close>

record GateSys =
  gy_gate :: SocketEventGate
  gy_listeners :: listeners
  gy_splice :: splice
  gy_live :: "(string \<times> json \<times> nat list \<times> string option) list"
  gy_received :: "BufferedEvent list"
  gy_spliced :: "BufferedEvent list"
  gy_skipped :: "BufferedEvent list"
  gy_landed :: "(string \<times> json) list"
  gy_applied :: "string list"
  gy_recoveries :: nat

abbreviation set_reg :: "GateSys \<Rightarrow> SocketEventGate \<times> listeners \<Rightarrow> GateSys" where
  "set_reg s r \<equiv> s\<lparr>gy_gate := fst r, gy_listeners := snd r\<rparr>"

inductive gate_step :: "GateSys \<Rightarrow> GateSys \<Rightarrow> bool" where
  gate_attaches: "gate_step s (set_reg s (gate_attach k (gy_gate s, gy_listeners s)))"
| gate_detaches: "gate_step s (set_reg s (gate_detach (gy_gate s, gy_listeners s)))"
| gate_ons: "gate_step s (set_reg s (gate_on ev h (gy_gate s, gy_listeners s)))"
| gate_offs: "gate_step s (set_reg s (gate_off ev h (gy_gate s, gy_listeners s)))"
| gate_disposes: "gate_step s (set_reg s (gate_dispose (gy_gate s, gy_listeners s)))"
| gate_pauses: "gate_step s (s\<lparr>gy_gate := gate_pause (gy_gate s)\<rparr>)"
| gate_buffers: "handleIncoming ev p (gy_gate s) = In_buffered g e \<Longrightarrow>
    gate_step s (s\<lparr>gy_gate := g, gy_received := gy_received s @ [e]\<rparr>)"
| gate_overflows: "handleIncoming ev p (gy_gate s) = In_overflow g \<Longrightarrow>
    gate_step s (s\<lparr>gy_gate := g, gy_recoveries := gy_recoveries s + 1\<rparr>)"
| gate_delivers: "handleIncoming ev p (gy_gate s) = In_live hs report \<Longrightarrow>
    gate_step s (s\<lparr>gy_live := gy_live s @ [(ev, p, hs, report)]\<rparr>)"
| gate_landed: "gy_live s = xs @ (ev, p, hs, report) # ys \<Longrightarrow> dispatch_ok fails hs \<Longrightarrow>
    gate_step s (s\<lparr>gy_live := xs @ ys, gy_landed := gy_landed s @ [(ev, p)],
      gy_applied := gy_applied s @ (case report of None \<Rightarrow> [] | Some i \<Rightarrow> [i])\<rparr>)"
| gate_rejected: "gy_live s = xs @ (ev, p, hs, report) # ys \<Longrightarrow> \<not> dispatch_ok fails hs \<Longrightarrow> gate_step s (s\<lparr>gy_live := xs @ ys\<rparr>)"
| splice_starts: "gy_splice s = Sp_idle \<Longrightarrow> gate_step s (s\<lparr>gy_splice := Sp_draining (ga_pauseEpoch (gy_gate s)) applyIf []\<rparr>)"
| splice_stops: "gy_splice s = Sp_draining n f batch \<Longrightarrow> resume_turn n f batch (gy_gate s) = Turn_stop g \<Longrightarrow>
    gate_step s (s\<lparr>gy_gate := g, gy_splice := Sp_idle\<rparr>)"
| splice_batches: "gy_splice s = Sp_draining n f [] \<Longrightarrow> resume_turn n f [] (gy_gate s) = Turn_batch g batch \<Longrightarrow>
    gate_step s (s\<lparr>gy_gate := g, gy_splice := Sp_draining n f batch\<rparr>)"
| splice_skips: "gy_splice s = Sp_draining n f batch \<Longrightarrow> resume_turn n f batch (gy_gate s) = Turn_skip e rest \<Longrightarrow>
    gate_step s (s\<lparr>gy_splice := Sp_draining n f rest, gy_skipped := gy_skipped s @ [e]\<rparr>)"
| splice_dispatches: "gy_splice s = Sp_draining n f batch \<Longrightarrow> resume_turn n f batch (gy_gate s) = Turn_dispatch e hs rest \<Longrightarrow>
    gate_step s (s\<lparr>gy_splice := Sp_awaiting n f e hs rest\<rparr>)"
| splice_landed: "gy_splice s = Sp_awaiting n f e hs rest \<Longrightarrow> dispatch_ok fails hs \<Longrightarrow>
    gate_step s (s\<lparr>gy_splice := Sp_draining n f rest, gy_spliced := gy_spliced s @ [e],
      gy_landed := gy_landed s @ [(bf_eventType e, bf_payload e)], gy_applied := gy_applied s @ [int_digits (bf_syncId e)]\<rparr>)"
| splice_rejected: "gy_splice s = Sp_awaiting n f e hs rest \<Longrightarrow> \<not> dispatch_ok fails hs \<Longrightarrow>
    gate_step s (s\<lparr>gy_gate := retainForRecovery (e # rest) (gy_gate s), gy_splice := Sp_idle, gy_recoveries := gy_recoveries s + 1\<rparr>)"

fun held_by_splice :: "splice \<Rightarrow> BufferedEvent list" where
  "held_by_splice Sp_idle = []"
| "held_by_splice (Sp_draining n f batch) = batch"
| "held_by_splice (Sp_awaiting n f e hs rest) = e # rest"

text \<open>Nothing is lost while the gate is in charge.\<close>

definition gate_complete :: "GateSys \<Rightarrow> bool" where
  "gate_complete s \<longleftrightarrow> gy_recoveries s > 0 \<or> ga_disposed (gy_gate s) \<or>
    mset (gy_received s) = mset (gy_spliced s) + mset (gy_skipped s) + mset (held_by_splice (gy_splice s)) + mset (ga_buffer (gy_gate s))"

lemma gate_reg_keeps:
  "ga_buffer (fst (gate_attach k r)) = ga_buffer (fst r)" "ga_disposed (fst (gate_attach k r)) = ga_disposed (fst r)"
  "ga_buffer (fst (gate_detach r)) = ga_buffer (fst r)" "ga_disposed (fst (gate_detach r)) = ga_disposed (fst r)"
  "ga_buffer (fst (gate_on ev h r)) = ga_buffer (fst r)" "ga_disposed (fst (gate_on ev h r)) = ga_disposed (fst r)"
  "ga_buffer (fst (gate_off ev h r)) = ga_buffer (fst r)" "ga_disposed (fst (gate_off ev h r)) = ga_disposed (fst r)"
  "ga_disposed (fst (gate_dispose r))"
  by (simp_all add: gate_attach_def gate_detach_def gate_on_def gate_off_def gate_dispose_def Let_def split: prod.split option.split)

lemma gate_complete_step:
  assumes "gate_step s s'" and "gate_complete s"
  shows "gate_complete s'"
  using assms
proof cases
  case (gate_pauses)
  then show ?thesis using assms(2) by (auto simp: gate_complete_def gate_pause_def)
next
  case (gate_buffers ev p g e)
  then have "g = (gy_gate s)\<lparr>ga_buffer := ga_buffer (gy_gate s) @ [e]\<rparr>"
    by (auto simp: handleIncoming_def Let_def split: if_splits option.splits)
  then show ?thesis using assms(2) gate_buffers by (auto simp: gate_complete_def)
next
  case (splice_stops n f batch g)
  then show ?thesis using assms(2) by (cases batch) (auto simp: gate_complete_def split: if_splits)
next
  case (splice_batches n f g batch)
  then show ?thesis using assms(2) by (auto simp: gate_complete_def split: if_splits)
next
  case (splice_skips n f batch e rest)
  then show ?thesis using assms(2) by (cases batch) (auto simp: gate_complete_def split: if_splits)
next
  case (splice_dispatches n f batch e hs rest)
  then show ?thesis using assms(2) by (cases batch) (auto simp: gate_complete_def split: if_splits)
qed (auto simp: gate_complete_def gate_reg_keeps retainForRecovery_def)

text \<open>What is reported as applied has landed in every handler, and the batch is spliced in order.\<close>

definition carries :: "SocketEventGate \<Rightarrow> json \<Rightarrow> string \<Rightarrow> bool" where
  "carries g p i \<longleftrightarrow> (\<exists>raw. sync_id_of g p = Some raw \<and> js_BigInt raw = js_BigInt i)"

definition event_ok :: "SocketEventGate \<Rightarrow> BufferedEvent \<Rightarrow> bool" where
  "event_ok g e \<longleftrightarrow> carries g (bf_payload e) (int_digits (bf_syncId e))"

definition gate_honest :: "GateSys \<Rightarrow> bool" where
  "gate_honest s \<longleftrightarrow>
    (\<forall>i\<in>set (gy_applied s). \<exists>(ty, p)\<in>set (gy_landed s). carries (gy_gate s) p i) \<and>
    (\<forall>(ty, p, hs, report)\<in>set (gy_live s). \<forall>i. report = Some i \<longrightarrow> carries (gy_gate s) p i) \<and>
    (\<forall>e\<in>set (ga_buffer (gy_gate s)) \<union> set (held_by_splice (gy_splice s)). event_ok (gy_gate s) e) \<and>
    sorted (map bf_syncId (held_by_splice (gy_splice s)))"

lemma sync_id_of_cong: "ga_workspaceId g' = ga_workspaceId g \<Longrightarrow> sync_id_of g' p = sync_id_of g p"
  by (simp add: sync_id_of_def)

lemma carries_cong: "ga_workspaceId g' = ga_workspaceId g \<Longrightarrow> carries g' = carries g"
  using sync_id_of_cong [of g' g] by (auto simp: carries_def fun_eq_iff)

lemma honest_gate:
  assumes "gate_honest s" and "ga_workspaceId g = ga_workspaceId (gy_gate s)" and "set (ga_buffer g) \<subseteq> set (ga_buffer (gy_gate s))"
  shows "gate_honest (s\<lparr>gy_gate := g\<rparr>)" "gate_honest (s\<lparr>gy_gate := g, gy_listeners := ls\<rparr>)"
    "gate_honest (s\<lparr>gy_gate := g, gy_recoveries := n\<rparr>)" "gate_honest (s\<lparr>gy_gate := g, gy_splice := Sp_idle\<rparr>)"
  using assms carries_cong [OF assms(2)] by (auto simp: gate_honest_def event_ok_def)

lemma reg_workspace:
  "ga_workspaceId (fst (gate_attach k r)) = ga_workspaceId (fst r)" "ga_workspaceId (fst (gate_detach r)) = ga_workspaceId (fst r)"
  "ga_workspaceId (fst (gate_on ev h r)) = ga_workspaceId (fst r)" "ga_workspaceId (fst (gate_off ev h r)) = ga_workspaceId (fst r)"
  "ga_workspaceId (fst (gate_dispose r)) = ga_workspaceId (fst r)" "ga_buffer (fst (gate_dispose r)) = []"
  by (simp_all add: gate_attach_def gate_detach_def gate_on_def gate_off_def gate_dispose_def Let_def split: prod.split option.split)

lemma gate_honest_step:
  assumes "gate_step s s'" and h: "gate_honest s"
  shows "gate_honest s'"
  using assms(1)
proof cases
  case gate_pauses
  then show ?thesis using honest_gate(1) [OF h, of "gate_pause (gy_gate s)"] by (simp add: gate_pause_def split: if_splits)
next
  case (gate_buffers ev p g e)
  then have g: "g = (gy_gate s)\<lparr>ga_buffer := ga_buffer (gy_gate s) @ [e]\<rparr>" "event_ok (gy_gate s) e"
    by (auto simp: handleIncoming_def Let_def event_ok_def carries_def parseBufferSyncId_def bind_eq_Some_conv split: if_splits option.splits)
  have "carries g = carries (gy_gate s)" by (rule carries_cong) (simp add: g)
  then show ?thesis using h g gate_buffers(1) by (auto simp: gate_honest_def event_ok_def)
next
  case (gate_overflows ev p g)
  then have "g = (gy_gate s)\<lparr>ga_buffer := [], ga_overflowWarned := True\<rparr>"
    by (auto simp: handleIncoming_def Let_def split: if_splits option.splits)
  then show ?thesis using honest_gate(3) [OF h, of g] gate_overflows(1) by simp
next
  case (gate_delivers ev p hs report)
  then have "report = Some i \<Longrightarrow> carries (gy_gate s) p i" for i
    by (auto simp: handleIncoming_def Let_def carries_def split: if_splits option.splits)
  then show ?thesis using h gate_delivers(1) by (auto simp: gate_honest_def)
next
  case (gate_landed xs ev p hs report ys fails)
  then have "report = Some i \<Longrightarrow> carries (gy_gate s) p i" for i using h by (auto simp: gate_honest_def)
  then show ?thesis using h gate_landed(1,2) by (auto simp: gate_honest_def split: option.splits)
next
  case (splice_stops n f batch g)
  have g: "ga_workspaceId g = ga_workspaceId (gy_gate s)" "set (ga_buffer g) \<subseteq> set batch \<union> set (ga_buffer (gy_gate s))"
    using splice_stops(3) by (cases batch; auto split: if_splits)+
  then show ?thesis using h carries_cong [OF g(1)] splice_stops(1,2) by (auto simp: gate_honest_def event_ok_def)
next
  case (splice_batches n f g batch)
  then have g: "g = (gy_gate s)\<lparr>ga_buffer := []\<rparr>" "batch = sort_key bf_syncId (ga_buffer (gy_gate s))" by (auto split: if_splits)
  have "carries g = carries (gy_gate s)" by (rule carries_cong) (simp add: g)
  then show ?thesis using h g splice_batches(1) by (auto simp: gate_honest_def event_ok_def)
next
  case (splice_skips n f batch e rest)
  then show ?thesis using h by (cases batch) (auto simp: gate_honest_def split: if_splits)
next
  case (splice_dispatches n f batch e hs rest)
  then show ?thesis using h by (cases batch) (auto simp: gate_honest_def split: if_splits)
next
  case (splice_landed n f e hs rest fails)
  then show ?thesis using h by (auto simp: gate_honest_def event_ok_def)
next
  case (splice_rejected n f e hs rest fails)
  have "carries (retainForRecovery (e # rest) (gy_gate s)) = carries (gy_gate s)" by (rule carries_cong) (simp add: retainForRecovery_def)
  moreover have "set (ga_buffer (retainForRecovery (e # rest) (gy_gate s))) \<subseteq> insert e (set rest) \<union> set (ga_buffer (gy_gate s))"
    using set_take_subset unfolding retainForRecovery_def by fastforce
  ultimately show ?thesis using h splice_rejected(1,2) by (auto simp: gate_honest_def event_ok_def)
next
  case gate_rejected
  then show ?thesis using h by (auto simp: gate_honest_def)
next
  case splice_starts
  then show ?thesis using h by (auto simp: gate_honest_def)
qed (simp_all add: honest_gate(2) [OF h] reg_workspace gate_reg_keeps)

text \<open>The gate listens on its current socket to the event types that have a handler, and to nothing else.\<close>

definition gate_listening :: "SocketEventGate \<times> listeners \<Rightarrow> bool" where
  "gate_listening r \<longleftrightarrow>
    set (ga_forwarders (fst r)) = obj_keys (ga_handlers (fst r)) \<and>
    (\<forall>ty hs. map_of (ga_handlers (fst r)) ty = Some hs \<longrightarrow> hs \<noteq> []) \<and>
    set (snd r) = {(k, ty). ga_socket (fst r) = Some k \<and> ty \<in> set (ga_forwarders (fst r))}"

lemma listening_detach: "gate_listening r \<Longrightarrow> gate_listening (gate_detach r)"
  by (auto simp: gate_listening_def gate_detach_def split: option.split prod.split)

lemma listening_attach: "gate_listening r \<Longrightarrow> gate_listening (gate_attach k r)"
proof -
  assume r: "gate_listening r"
  have none: "ga_socket (fst (gate_detach r)) = None" by (auto simp: gate_detach_def split: option.split prod.split)
  show ?thesis using r listening_detach [OF r] none
    by (auto simp: gate_attach_def gate_listening_def Let_def split: prod.split)
qed

lemma listening_on: "gate_listening r \<Longrightarrow> gate_listening (gate_on ev h r)"
  by (cases r) (auto simp: gate_listening_def gate_on_def Let_def update_conv' split: option.split if_splits)

lemma listening_off: "gate_listening r \<Longrightarrow> gate_listening (gate_off ev h r)"
proof (cases r)
  case (Pair g ls)
  assume r: "gate_listening r"
  show ?thesis
  proof (cases "map_of (ga_handlers g) ev")
    case None
    then show ?thesis using r Pair by (simp add: gate_off_def)
  next
    case (Some hs)
    then have ev: "ev \<in> set (ga_forwarders g)" using r Pair by (force simp: gate_listening_def obj_keys_iff dest: map_of_SomeD)
    have ls: "set ls = {(k, ty). ga_socket g = Some k \<and> ty \<in> set (ga_forwarders g)}"
      "set (ga_forwarders g) = obj_keys (ga_handlers g)" "\<forall>ty hs. map_of (ga_handlers g) ty = Some hs \<longrightarrow> hs \<noteq> []"
      using r Pair by (simp_all add: gate_listening_def)
    show ?thesis
    proof (cases "filter (\<lambda>x. x \<noteq> h) hs = []")
      case True
      have "gate_off ev h r = (g\<lparr>ga_handlers := AList.delete ev (ga_handlers g), ga_forwarders := filter (\<lambda>ty. ty \<noteq> ev) (ga_forwarders g)\<rparr>,
          case ga_socket g of None \<Rightarrow> ls | Some k \<Rightarrow> filter (\<lambda>l. l \<noteq> (k, ev)) ls)"
        using Some True ev Pair by (simp add: gate_off_def Let_def)
      then show ?thesis using ls by (auto simp: gate_listening_def delete_conv' split: option.split)
    next
      case False
      have "gate_off ev h r = (g\<lparr>ga_handlers := AList.update ev (filter (\<lambda>x. x \<noteq> h) hs) (ga_handlers g)\<rparr>, ls)"
        using Some False Pair by (simp add: gate_off_def Let_def)
      then show ?thesis using ls ev False by (auto simp: gate_listening_def update_conv')
    qed
  qed
qed

lemma listening_dispose: "gate_listening r \<Longrightarrow> gate_listening (gate_dispose r)"
  by (auto simp: gate_listening_def gate_dispose_def gate_detach_def Let_def split: option.split prod.split)

lemma listening_cong:
  "gate_listening (g, ls) \<Longrightarrow> ga_handlers g' = ga_handlers g \<Longrightarrow> ga_forwarders g' = ga_forwarders g \<Longrightarrow> ga_socket g' = ga_socket g \<Longrightarrow>
    gate_listening (g', ls)"
  by (simp add: gate_listening_def)

lemma gate_listening_step:
  assumes "gate_step s s'" and h: "gate_listening (gy_gate s, gy_listeners s)"
  shows "gate_listening (gy_gate s', gy_listeners s')"
  using assms(1)
proof cases
  case gate_pauses
  then show ?thesis using listening_cong [OF h] by (simp add: gate_pause_def)
next
  case (gate_buffers ev p g e)
  have "ga_handlers g = ga_handlers (gy_gate s) \<and> ga_forwarders g = ga_forwarders (gy_gate s) \<and> ga_socket g = ga_socket (gy_gate s)"
    using gate_buffers(2) by (auto simp: handleIncoming_def Let_def split: if_splits option.splits)
  then show ?thesis using listening_cong [OF h] gate_buffers(1) by simp
next
  case (gate_overflows ev p g)
  have "ga_handlers g = ga_handlers (gy_gate s) \<and> ga_forwarders g = ga_forwarders (gy_gate s) \<and> ga_socket g = ga_socket (gy_gate s)"
    using gate_overflows(2) by (auto simp: handleIncoming_def Let_def split: if_splits option.splits)
  then show ?thesis using listening_cong [OF h] gate_overflows(1) by simp
next
  case (splice_stops n f batch g)
  have "ga_handlers g = ga_handlers (gy_gate s) \<and> ga_forwarders g = ga_forwarders (gy_gate s) \<and> ga_socket g = ga_socket (gy_gate s)"
    using splice_stops(3) by (cases batch) (auto split: if_splits)
  then show ?thesis using listening_cong [OF h] splice_stops(1) by simp
next
  case (splice_batches n f g batch)
  have "ga_handlers g = ga_handlers (gy_gate s) \<and> ga_forwarders g = ga_forwarders (gy_gate s) \<and> ga_socket g = ga_socket (gy_gate s)"
    using splice_batches(3) by (auto split: if_splits)
  then show ?thesis using listening_cong [OF h] splice_batches(1) by simp
next
  case (splice_rejected n f e hs rest fails)
  then show ?thesis using listening_cong [OF h] by (simp add: retainForRecovery_def)
qed (use h in \<open>simp_all add: listening_attach listening_detach listening_on listening_off listening_dispose\<close>)

definition gate_start :: "string \<Rightarrow> nat option \<Rightarrow> GateSys" where
  "gate_start ws limit = \<lparr>gy_gate = mkSocketEventGate ws limit, gy_listeners = [], gy_splice = Sp_idle, gy_live = [], gy_received = [],
     gy_spliced = [], gy_skipped = [], gy_landed = [], gy_applied = [], gy_recoveries = 0\<rparr>"

text \<open>
  C33.  The gate loses nothing and reports nothing early.  Until it is disposed or asks for a recovery, every event
  it held back while paused is, exactly once, handed to the handlers by a splice, rejected by the splice's
  filter, about to be spliced in ascending order, or still buffered.  An id is reported as applied only after an
  event with that id landed in all its handlers.  And the gate listens on its current socket to exactly the
  event types that have a handler.
\<close>

theorem gate_splices_every_event:
  assumes "gate_step\<^sup>*\<^sup>* (gate_start ws limit) s"
  shows "(gy_recoveries s = 0 \<and> \<not> ga_disposed (gy_gate s) \<longrightarrow>
      mset (gy_received s) = mset (gy_spliced s) + mset (gy_skipped s) + mset (held_by_splice (gy_splice s)) + mset (ga_buffer (gy_gate s))) \<and>
    sorted (map bf_syncId (held_by_splice (gy_splice s))) \<and>
    (\<forall>i\<in>set (gy_applied s). \<exists>(ty, p)\<in>set (gy_landed s). carries (gy_gate s) p i) \<and>
    set (gy_listeners s) = {(k, ty). ga_socket (gy_gate s) = Some k \<and> handlers_for (gy_gate s) ty \<noteq> []}"
proof -
  have "gate_complete s \<and> gate_honest s \<and> gate_listening (gy_gate s, gy_listeners s)"
    using assms
  proof (induction rule: rtranclp_induct)
    case base
    show ?case by (simp add: gate_start_def gate_complete_def gate_honest_def gate_listening_def mkSocketEventGate_def)
  next
    case (step y z)
    then show ?case using gate_complete_step gate_honest_step gate_listening_step by blast
  qed
  moreover from this have "ty \<in> set (ga_forwarders (gy_gate s)) \<longleftrightarrow> handlers_for (gy_gate s) ty \<noteq> []" for ty
    by (auto simp: gate_listening_def handlers_for_def map_of_None_keys [symmetric] split: option.splits)
  ultimately show ?thesis by (auto simp: gate_complete_def gate_honest_def gate_listening_def)
qed

text \<open>While it is paused, the gate starts no handler for an event of the workspace whose id parses.\<close>

lemma paused_gate_holds_back:
  assumes "ga_paused g" and "sync_id_of g p = Some raw" and "js_BigInt raw = Some n"
  shows "handleIncoming ev p g \<noteq> In_live hs report"
  using assms by (auto simp: handleIncoming_def Let_def parseBufferSyncId_def)

definition ex_live :: "string \<Rightarrow> json" where
  "ex_live i = JObj [(''workspaceId'', JStr ''ws''), (''syncId'', JStr i)]"

definition ex_gate :: GateSys where
  "ex_gate = (gate_start ''ws'' None)\<lparr>gy_gate := gate_pause (mkSocketEventGate ''ws'' None)\<rparr>"

definition ex_buffered :: "string \<Rightarrow> int \<Rightarrow> BufferedEvent" where
  "ex_buffered i n = \<lparr>bf_eventType = ''message:created'', bf_payload = ex_live i, bf_syncId = n\<rparr>"

theorem gate_splices_every_event_witness:
  "\<exists>s. gate_step\<^sup>*\<^sup>* (gate_start ''ws'' None) s \<and> held_by_splice (gy_splice s) = [ex_buffered ''8'' 8, ex_buffered ''9'' 9] \<and>
    mset (gy_received s) = {#ex_buffered ''9'' 9, ex_buffered ''8'' 8#}"
proof -
  let ?g0 = "gate_pause (mkSocketEventGate ''ws'' None)"
  let ?g1 = "?g0\<lparr>ga_buffer := [ex_buffered ''9'' 9]\<rparr>"
  let ?g2 = "?g0\<lparr>ga_buffer := [ex_buffered ''9'' 9, ex_buffered ''8'' 8]\<rparr>"
  let ?s1 = "ex_gate\<lparr>gy_gate := ?g1, gy_received := [ex_buffered ''9'' 9]\<rparr>"
  let ?s2 = "ex_gate\<lparr>gy_gate := ?g2, gy_received := [ex_buffered ''9'' 9, ex_buffered ''8'' 8]\<rparr>"
  let ?s3 = "?s2\<lparr>gy_splice := Sp_draining 1 (\<lambda>_ _ _. True) []\<rparr>"
  let ?s4 = "?s3\<lparr>gy_gate := ?g0, gy_splice := Sp_draining 1 (\<lambda>_ _ _. True) [ex_buffered ''8'' 8, ex_buffered ''9'' 9]\<rparr>"
  have i: "handleIncoming ''message:created'' (ex_live ''9'') ?g0 = In_buffered ?g1 (ex_buffered ''9'' 9)"
    "handleIncoming ''message:created'' (ex_live ''8'') ?g1 = In_buffered ?g2 (ex_buffered ''8'' 8)" by code_simp+
  have g: "gy_gate ex_gate = ?g0" "gy_received ex_gate = []" "gy_gate ?s2 = ?g2" "gy_splice ?s2 = Sp_idle" "ga_pauseEpoch ?g2 = 1"
    by (simp_all add: ex_gate_def gate_start_def gate_pause_def mkSocketEventGate_def)
  have t: "resume_turn 1 (\<lambda>_ _ _. True) [] ?g2 = Turn_batch ?g0 [ex_buffered ''8'' 8, ex_buffered ''9'' 9]" 
    by (simp add: ex_buffered_def gate_pause_def mkSocketEventGate_def)
  have "gate_step (gate_start ''ws'' None) ex_gate"
    using gate_pauses [of "gate_start ''ws'' None"] by (simp add: ex_gate_def gate_start_def)
  moreover have "gate_step ex_gate ?s1" using gate_buffers [of _ _ ex_gate] i(1) g by fastforce
  moreover have "gate_step ?s1 ?s2" using gate_buffers [of "''message:created''" "ex_live ''8''" ?s1] i(2) by simp
  moreover have "gate_step ?s2 ?s3" using splice_starts [of ?s2 "\<lambda>_ _ _. True"] g(4,5) by simp
  moreover have "gate_step ?s3 ?s4" using splice_batches [of ?s3 1 "\<lambda>_ _ _. True"] t by simp
  ultimately have r: "gate_step\<^sup>*\<^sup>* (gate_start ''ws'' None) ?s4"
    by (meson converse_rtranclp_into_rtranclp rtranclp.rtrancl_refl)
  then have "mset (gy_received ?s4) = {#ex_buffered ''8'' 8, ex_buffered ''9'' 9#}"
    using gate_splices_every_event [OF r] by (simp add: ex_gate_def gate_start_def gate_pause_def mkSocketEventGate_def add_mset_commute)
  then show ?thesis using r by (intro exI [of _ ?s4]) (simp add: add_mset_commute)
qed

end
