(* ===== verification/Client_Catch_Up.thy ===== *)
theory Client_Catch_Up
  imports Event_Gate Sync_Service
begin

text \<open>
  \<^verbatim>\<open>apps/frontend/src/sync/sync-engine.ts\<close>: the catch-up run of the client, which pages the sync log from the cursor,
  hands each entry to the handlers, falls back to a full snapshot, and reopens the gate.  What the run awaits is
  an environment indexed by the number of awaits so far: the responses, whether a dispatch landed, whether a
  snapshot landed, whether the account and the cycle are still current, whether the engine was destroyed and
  whether the gate asked for a recovery meanwhile.  Sync ids are integers; the wire carries their digits, which
  \<open>BigInt\<close> reads back.  The coalescing of counter writes, the render windows and the logging are left out, and
  so are events the gate lets through while the run is under way (those without a sync id).
\<close>

definition MAX_CATCHUP_PAGES :: nat where "MAX_CATCHUP_PAGES = 20"

definition CATCHUP_PAGE_LIMIT :: int where "CATCHUP_PAGE_LIMIT = 500"

definition CATCHUP_COLLAPSE_THRESHOLD :: nat where "CATCHUP_COLLAPSE_THRESHOLD = 200"

datatype BootstrapOutcome = Bootstrap_done | Bootstrap_cancelled | Bootstrap_error

record CatchUpEnv =
  ce_fetch :: "nat \<Rightarrow> int \<Rightarrow> int \<Rightarrow> CatchUpResult option"  \<comment> \<open>\<open>None\<close>: the request failed\<close>
  ce_lands :: "nat \<Rightarrow> bool"
  ce_bootstrap :: "nat \<Rightarrow> BootstrapOutcome"
  ce_accountCurrent :: "nat \<Rightarrow> bool"
  ce_cycleCurrent :: "nat \<Rightarrow> bool"
  ce_destroyed :: "nat \<Rightarrow> bool"
  ce_recovery :: "nat \<Rightarrow> bool"

record SyncEngine =
  en_cursor :: SyncLogCursor
  en_lastSeenHead :: "int option"
  en_failedEntrySyncId :: "int option"
  en_snapshotRecoveryRequired :: bool
  en_backoffRequired :: bool
  en_recoveryAttempts :: nat
  en_coldSnapshotSettled :: bool
  en_handed :: "SyncLogEntry list"  \<comment> \<open>entries whose handlers all landed\<close>
  en_snapshots :: "int list"  \<comment> \<open>heads read before the snapshots that landed\<close>

text \<open>How the body of the run ended, with the position applied through.\<close>

datatype run_end = Ended "int option" | Threw "int option"

fun through_of :: "run_end \<Rightarrow> int option" where
  "through_of (Ended p) = p"
| "through_of (Threw p) = p"

definition noteSeenHead :: "int \<Rightarrow> SyncEngine \<Rightarrow> SyncEngine" where
  "noteSeenHead head e =
    (case en_lastSeenHead e of
       None \<Rightarrow> e\<lparr>en_lastSeenHead := Some head\<rparr>
     | Some v \<Rightarrow> if head > v then e\<lparr>en_lastSeenHead := Some head\<rparr> else e)"

text \<open>A destroyed engine has disposed its cursor, which then ignores advances.\<close>

definition store_advance :: "CatchUpEnv \<Rightarrow> nat \<Rightarrow> int \<Rightarrow> SyncEngine \<Rightarrow> SyncEngine" where
  "store_advance env t n e = (if ce_destroyed env t then e else e\<lparr>en_cursor := advance (int_digits n) (en_cursor e)\<rparr>)"

definition healGapWithSnapshot :: "CatchUpEnv \<Rightarrow> nat \<Rightarrow> int \<Rightarrow> int option \<Rightarrow> SyncEngine \<Rightarrow> run_end \<times> SyncEngine" where
  "healGapWithSnapshot env t head appliedThrough e =
    (let e1 = e\<lparr>en_snapshotRecoveryRequired := True\<rparr>
     in if \<not> ce_accountCurrent env t \<or> ce_bootstrap env t = Bootstrap_cancelled then (Ended None, e1)
        else if ce_bootstrap env t = Bootstrap_error then (Threw appliedThrough, e1)
        else if \<not> ce_cycleCurrent env t then (Ended None, e1)
        else (Ended (Some head),
          (noteSeenHead head (store_advance env t head e1))\<lparr>en_snapshotRecoveryRequired := False, en_backoffRequired := False,
             en_recoveryAttempts := 0, en_snapshots := en_snapshots e @ [head]\<rparr>))"

text \<open>\<open>Inl\<close>: the run ended inside the page.  \<open>Inr\<close>: the page was applied.\<close>

fun apply_entries :: "CatchUpEnv \<Rightarrow> nat \<Rightarrow> int \<Rightarrow> int option \<Rightarrow> SyncLogEntry list \<Rightarrow> SyncEngine \<Rightarrow> (run_end \<times> SyncEngine) + (int option \<times> SyncEngine)" where
  "apply_entries env t head through [] e = Inr (through, e)"
| "apply_entries env t head through (x # xs) e =
    (if ce_destroyed env t then Inl (Ended through, e)
     else if ce_lands env t then
       apply_entries env (t + 1) head (Some (se_syncId x)) xs
         ((store_advance env (t + 1) (se_syncId x) e)\<lparr>en_failedEntrySyncId := None, en_handed := en_handed e @ [x]\<rparr>)
     else if en_failedEntrySyncId e \<noteq> Some (se_syncId x) then
       Inl (Threw through, e\<lparr>en_failedEntrySyncId := Some (se_syncId x)\<rparr>)
     else Inl (healGapWithSnapshot env (t + 1) head through e))"

definition recovery_wanted :: "CatchUpEnv \<Rightarrow> nat \<Rightarrow> SyncEngine \<Rightarrow> SyncEngine" where
  "recovery_wanted env t e = e\<lparr>en_snapshotRecoveryRequired := en_snapshotRecoveryRequired e \<or> ce_recovery env t\<rparr>"

text \<open>The page loop: pages left, awaits so far, whether this is the first page, cursor and position.\<close>

fun catchUp_pages :: "nat \<Rightarrow> CatchUpEnv \<Rightarrow> nat \<Rightarrow> bool \<Rightarrow> int \<Rightarrow> int option \<Rightarrow> SyncEngine \<Rightarrow> run_end \<times> SyncEngine" where
  "catchUp_pages 0 env t first cursor through e = (Ended through, e)"
| "catchUp_pages (Suc n) env t first cursor through e0 =
    (case ce_fetch env t cursor CATCHUP_PAGE_LIMIT of
       None \<Rightarrow> (Threw through, e0)
     | Some r \<Rightarrow>
         let e = recovery_wanted env t e0
         in if \<not> ce_accountCurrent env t then (Ended through, e)
            else if en_snapshotRecoveryRequired e \<and> ce_cycleCurrent env t then healGapWithSnapshot env (t + 1) (cu_head r) through e
            else if cu_requiresBootstrap r then healGapWithSnapshot env (t + 1) (cu_head r) through e
            else if cu_entries r = [] then (Ended through, noteSeenHead (cu_head r) e)
            else if first \<and> length (cu_entries r) \<ge> CATCHUP_COLLAPSE_THRESHOLD then healGapWithSnapshot env (t + 1) (cu_head r) through e
            else
              (case apply_entries env (t + 1) (cu_head r) through (cu_entries r) e of
                 Inl stopped \<Rightarrow> stopped
               | Inr (through', e') \<Rightarrow>
                   if int (length (cu_entries r)) < CATCHUP_PAGE_LIMIT then (Ended through', e')
                   else catchUp_pages n env (t + 1 + length (cu_entries r)) False (se_syncId (last (cu_entries r))) through' e'))"

definition initializeActiveCursor :: "cursor_table \<Rightarrow> CatchUpEnv \<Rightarrow> nat \<Rightarrow> SyncEngine \<Rightarrow> SyncEngine" where
  "initializeActiveCursor rows env t e0 =
    (let e = e0\<lparr>en_cursor := load_end (load_begin rows (en_cursor e0))\<rparr>
     in if ct_value (en_cursor e) \<noteq> None \<or> ce_destroyed env t \<or> \<not> en_coldSnapshotSettled e then e
     else (case ce_fetch env t 0 1 of
             None \<Rightarrow> e
           | Some r \<Rightarrow> if ce_destroyed env (t + 1) then e else noteSeenHead (cu_head r) (store_advance env (t + 1) (cu_head r) e)))"

definition catchUp_body :: "cursor_table \<Rightarrow> CatchUpEnv \<Rightarrow> SyncEngine \<Rightarrow> run_end \<times> SyncEngine" where
  "catchUp_body rows env e0 =
    (let e = recovery_wanted env 0 (e0\<lparr>en_cursor := load_end (load_begin rows (en_cursor e0))\<rparr>)
     in case ct_value (en_cursor e) of
          None \<Rightarrow>
            if en_snapshotRecoveryRequired e \<and> ce_cycleCurrent env 0 then
              (if \<not> en_coldSnapshotSettled e then (Ended None, e\<lparr>en_backoffRequired := True\<rparr>)
               else (case ce_fetch env 1 0 1 of
                       None \<Rightarrow> (Threw None, e)
                     | Some r \<Rightarrow>
                         if \<not> ce_accountCurrent env 1 then (Ended None, e)
                         else healGapWithSnapshot env 2 (cu_head r) None e))
            else (Ended None, initializeActiveCursor rows env 1 e)
        | Some cursorBefore \<Rightarrow> catchUp_pages MAX_CATCHUP_PAGES env 1 True cursorBefore (Some cursorBefore) e)"

text \<open>\<open>finally\<close>: \<open>Some p\<close> reopens the gate, splicing what is above \<open>p\<close> (everything when no position is known).\<close>

definition performActiveCatchUp :: "cursor_table \<Rightarrow> CatchUpEnv \<Rightarrow> nat \<Rightarrow> SyncEngine \<Rightarrow> run_end \<times> SyncEngine \<times> int option option" where
  "performActiveCatchUp rows env tEnd e0 =
    (let (stop, e1) = catchUp_body rows env e0;
         e = recovery_wanted env tEnd e1
     in (stop, e,
         if \<not> en_snapshotRecoveryRequired e \<and> \<not> ce_destroyed env tEnd \<and> ce_cycleCurrent env tEnd then Some (through_of stop) else None))"

definition splice_above :: "int option \<Rightarrow> splice_filter" where
  "splice_above through eventType syncId payload \<longleftrightarrow> (case through of None \<Rightarrow> True | Some p \<Rightarrow> syncId > p)"

section \<open>A log served in pages\<close>

abbreviation ids_up :: "SyncLogEntry list \<Rightarrow> bool" where
  "ids_up es \<equiv> sorted_wrt (<) (map se_syncId es)"

text \<open>
  What the client relies on: a page lists, in order, entries that are servable at the time of the fetch and lie
  after the cursor; while sync ids are unique, it leaves out none of them up to its last entry; and unless the response asks for a
  bootstrap, the cursor is not below the floor under which entries have been pruned.
\<close>

locale paged_log =
  fixes fetch :: "nat \<Rightarrow> int \<Rightarrow> int \<Rightarrow> CatchUpResult option"
    and servable :: "nat \<Rightarrow> SyncLogEntry set"
    and pruned_to :: "nat \<Rightarrow> int"
    and keyed :: "nat \<Rightarrow> bool"
  assumes page_up: "keyed t \<Longrightarrow> fetch t after limit = Some r \<Longrightarrow> ids_up (cu_entries r)"
    and page_served: "fetch t after limit = Some r \<Longrightarrow> x \<in> set (cu_entries r) \<Longrightarrow> x \<in> servable t \<and> after < se_syncId x"
    and page_dense: "keyed t \<Longrightarrow> fetch t after limit = Some r \<Longrightarrow> x \<in> set (cu_entries r) \<Longrightarrow> y \<in> servable t \<Longrightarrow> after < se_syncId y \<Longrightarrow>
      se_syncId y \<le> se_syncId x \<Longrightarrow> y \<in> set (cu_entries r)"
    and page_above_floor: "fetch t after limit = Some r \<Longrightarrow> \<not> cu_requiresBootstrap r \<Longrightarrow> pruned_to t \<le> after"

text \<open>A stretch of the log handed over at one time, and a chain of stretches without a gap between them.\<close>

definition stretch :: "SyncLogEntry set \<Rightarrow> int \<Rightarrow> int \<Rightarrow> SyncLogEntry list \<Rightarrow> bool" where
  "stretch srv a b hs \<longleftrightarrow> ids_up hs \<and> (\<forall>y\<in>srv. a < se_syncId y \<and> se_syncId y \<le> b \<longrightarrow> y \<in> set hs) \<and>
    (\<forall>y\<in>set hs. y \<in> srv \<and> a < se_syncId y \<and> se_syncId y \<le> b) \<and> a < b"

fun chain :: "(nat \<Rightarrow> SyncLogEntry set) \<Rightarrow> (nat \<Rightarrow> int) \<Rightarrow> int \<Rightarrow> (nat \<times> int) list \<Rightarrow> SyncLogEntry list \<Rightarrow> bool" where
  "chain srv lowest a [] hs \<longleftrightarrow> hs = []"
| "chain srv lowest a ((t, b) # ps) hs \<longleftrightarrow> lowest t \<le> a \<and> (\<exists>h h'. hs = h @ h' \<and> stretch (srv t) a b h \<and> chain srv lowest b ps h')"

definition chain_end :: "int \<Rightarrow> (nat \<times> int) list \<Rightarrow> int" where
  "chain_end a ps = (if ps = [] then a else snd (last ps))"

lemma chain_end_Cons [simp]: "chain_end a ((t, b) # ps) = chain_end b ps"
  by (simp add: chain_end_def)

lemma heal_keeps: "healGapWithSnapshot env t head p e = (stop, e') \<Longrightarrow>
    en_handed e' = en_handed e \<and> (en_snapshots e' = en_snapshots e \<and> (through_of stop = p \<or> en_snapshotRecoveryRequired e') \<or>
      en_snapshots e' = en_snapshots e @ [head] \<and> stop = Ended (Some head))"
  by (auto simp: healGapWithSnapshot_def Let_def noteSeenHead_def store_advance_def split: if_splits option.splits)

lemma apply_entries_keeps:
  "apply_entries env t head p xs e = Inr (p', e') \<Longrightarrow> en_handed e' = en_handed e @ xs \<and> en_snapshots e' = en_snapshots e \<and>
    p' = (if xs = [] then p else Some (se_syncId (last xs)))"
  "apply_entries env t head p xs e = Inl (stop, e') \<Longrightarrow> \<exists>hs ys. xs = hs @ ys \<and> en_handed e' = en_handed e @ hs \<and>
    (en_snapshots e' = en_snapshots e \<and> (through_of stop = (if hs = [] then p else Some (se_syncId (last hs))) \<or> en_snapshotRecoveryRequired e') \<or>
     en_snapshots e' = en_snapshots e @ [head] \<and> stop = Ended (Some head))"
proof (induction xs arbitrary: t p e)
  case (Cons x xs)
  {
    case 1
    then show ?case using Cons.IH(1) by (fastforce simp: store_advance_def split: if_splits)
  next
    case 2
    note run = 2
    let ?e = "(store_advance env (t + 1) (se_syncId x) e)\<lparr>en_failedEntrySyncId := None, en_handed := en_handed e @ [x]\<rparr>"
    consider "ce_destroyed env t" | "\<not> ce_destroyed env t" "ce_lands env t" | "\<not> ce_destroyed env t" "\<not> ce_lands env t" by blast
    then show ?case
    proof cases
      case 1
      then show ?thesis using run by (intro exI [of _ "[]"] exI [of _ "x # xs"]) auto
    next
      case 2
      then have "apply_entries env (t + 1) head (Some (se_syncId x)) xs ?e = Inl (stop, e')" using run by simp
      from Cons.IH(2) [OF this] obtain hs ys where h: "xs = hs @ ys" "en_handed e' = (en_handed e @ [x]) @ hs"
        "en_snapshots e' = en_snapshots ?e \<and> (through_of stop = (if hs = [] then Some (se_syncId x) else Some (se_syncId (last hs))) \<or> en_snapshotRecoveryRequired e') \<or>
         en_snapshots e' = en_snapshots ?e @ [head] \<and> stop = Ended (Some head)" by auto
      moreover have "en_snapshots ?e = en_snapshots e" by (simp add: store_advance_def)
      ultimately show ?thesis by (intro exI [of _ "x # hs"] exI [of _ ys]) auto
    next
      case 3
      show ?thesis
      proof (cases "en_failedEntrySyncId e = Some (se_syncId x)")
        case True
        then have "healGapWithSnapshot env (t + 1) head p e = (stop, e')" using 3 run by simp
        from heal_keeps [OF this] show ?thesis by (intro exI [of _ "[]"] exI [of _ "x # xs"]) auto
      next
        case False
        then show ?thesis using 3 run by (intro exI [of _ "[]"] exI [of _ "x # xs"]) auto
      qed
    qed
  }
qed auto

lemma page_guards:
  "(if \<not> a then x else if b then y else if c then y else if d then z else if f then y else w) = q \<Longrightarrow>
    \<not> a \<or> y = q \<or> d \<and> q = z \<or> a \<and> \<not> c \<and> \<not> d \<and> w = q"
  by (auto split: if_splits)

context paged_log
begin

lemma prefix_stretch:
  assumes k: "keyed t" and f: "fetch t a n = Some r" and e: "cu_entries r = hs @ ys" and ne: "hs \<noteq> []"
  shows "stretch (servable t) a (se_syncId (last hs)) hs"
proof -
  have up: "ids_up (hs @ ys)" using page_up [OF k f] e by simp
  have l: "last hs \<in> set (cu_entries r)" using e ne by simp
  have below: "se_syncId y \<le> se_syncId (last hs)" if "y \<in> set hs" for y
  proof -
    have "ids_up (butlast hs @ [last hs])" using up ne by (simp add: sorted_wrt_append)
    moreover have "y \<in> set (butlast hs) \<or> y = last hs" using that ne by (metis append_butlast_last_id in_set_conv_decomp rotate1.simps(2) set_ConsD set_rotate1)
    ultimately show ?thesis by (auto simp: sorted_wrt_append)
  qed
  have "y \<in> set hs" if y: "y \<in> servable t" "a < se_syncId y" "se_syncId y \<le> se_syncId (last hs)" for y
  proof -
    have "y \<in> set (cu_entries r)" using page_dense [OF k f l y] .
    moreover have "y \<notin> set ys"
    proof
      assume "y \<in> set ys"
      then have "se_syncId (last hs) < se_syncId y" using up last_in_set [OF ne] by (auto simp: sorted_wrt_append)
      then show False using y(3) by simp
    qed
    ultimately show ?thesis using e by auto
  qed
  moreover have served: "y \<in> servable t \<and> a < se_syncId y \<and> se_syncId y \<le> se_syncId (last hs)" if "y \<in> set hs" for y
    using page_served [OF f, of y] below [OF that] that by (simp add: e)
  moreover have "a < se_syncId (last hs)" using served [of "last hs"] ne by simp
  moreover have "ids_up hs" using up by (simp add: sorted_wrt_append)
  ultimately show ?thesis unfolding stretch_def by blast
qed

lemma pages_chain:
  assumes "catchUp_pages n env t first c (Some c) e = (stop, e')" and "ce_fetch env = fetch" and "\<And>t. keyed t"
  shows "\<exists>ps hs. en_handed e' = en_handed e @ hs \<and> chain servable pruned_to c ps hs \<and>
    (en_snapshots e' = en_snapshots e \<and> (through_of stop = Some (chain_end c ps) \<or> en_snapshotRecoveryRequired e') \<or>
     (\<exists>head. en_snapshots e' = en_snapshots e @ [head] \<and> stop = Ended (Some head)))"
  using assms
proof (induction n arbitrary: t first c e)
  case 0
  then show ?case by (intro exI [of _ "[]"]) (auto simp: chain_end_def)
next
  case (Suc n)
  have stay: ?case if "en_handed e' = en_handed e" "en_snapshots e' = en_snapshots e \<and> (through_of stop = Some c \<or> en_snapshotRecoveryRequired e') \<or>
      (\<exists>head. en_snapshots e' = en_snapshots e @ [head] \<and> stop = Ended (Some head))"
    using that by (intro exI [of _ "[]"]) (auto simp: chain_end_def)
  let ?e = "recovery_wanted env t e"
  have keep: "en_handed ?e = en_handed e" "en_snapshots ?e = en_snapshots e" by (simp_all add: recovery_wanted_def)
  show ?case
  proof (cases "fetch t c CATCHUP_PAGE_LIMIT")
    case None
    then show ?thesis using Suc.prems by (intro stay) auto
  next
    case (Some r)
    have healed: ?thesis if "healGapWithSnapshot env (t + 1) (cu_head r) (Some c) ?e = (stop, e')"
      using heal_keeps [OF that] keep by (intro stay) auto
    let ?applied = "apply_entries env (t + 1) (cu_head r) (Some c) (cu_entries r) ?e"
    consider (left) "\<not> ce_accountCurrent env t" | (heal) "healGapWithSnapshot env (t + 1) (cu_head r) (Some c) ?e = (stop, e')"
      | (empty) "cu_entries r = []" "stop = Ended (Some c)" "e' = noteSeenHead (cu_head r) ?e"
      | (replay) "ce_accountCurrent env t" "\<not> cu_requiresBootstrap r" "cu_entries r \<noteq> []"
          "(case ?applied of Inl stopped \<Rightarrow> stopped
             | Inr (p', e') \<Rightarrow> if int (length (cu_entries r)) < CATCHUP_PAGE_LIMIT then (Ended p', e')
                 else catchUp_pages n env (t + 1 + length (cu_entries r)) False (se_syncId (last (cu_entries r))) p' e') = (stop, e')"
      using page_guards [OF Suc.prems(1) [unfolded catchUp_pages.simps Suc.prems(2) Some option.case Let_def]] by auto
    then show ?thesis
    proof cases
      case left
      then show ?thesis using Suc.prems Some keep by (intro stay) auto
    next
      case heal
      then show ?thesis by (rule healed)
    next
      case empty
      then show ?thesis using keep by (intro stay) (auto simp: noteSeenHead_def split: option.split)
    next
      case replay
      note flo = page_above_floor [OF Some replay(2)]
      show ?thesis
      proof (cases ?applied)
        case (Inl stopped)
        then obtain hs ys where h: "cu_entries r = hs @ ys" "en_handed e' = en_handed e @ hs"
          "en_snapshots e' = en_snapshots e \<and> (through_of stop = (if hs = [] then Some c else Some (se_syncId (last hs))) \<or> en_snapshotRecoveryRequired e') \<or>
           en_snapshots e' = en_snapshots e @ [cu_head r] \<and> stop = Ended (Some (cu_head r))"
          using apply_entries_keeps(2) [of env "t + 1" "cu_head r" "Some c" "cu_entries r" ?e stop e'] replay(4) keep by auto
        show ?thesis
        proof (cases "hs = []")
          case False
          then have "chain servable pruned_to c [(t, se_syncId (last hs))] hs" using prefix_stretch [OF Suc.prems(3) Some h(1)] flo by simp
          then show ?thesis using h False by (intro exI [of _ "[(t, se_syncId (last hs))]"] exI [of _ hs]) (auto simp: chain_end_def)
        qed (use h in \<open>intro stay, auto\<close>)
      next
        case (Inr pe)
        obtain p1 e1 where pe: "pe = (p1, e1)" by (cases pe)
        let ?b = "se_syncId (last (cu_entries r))"
        have k: "en_handed e1 = en_handed e @ cu_entries r" "en_snapshots e1 = en_snapshots e" "p1 = Some ?b"
          using apply_entries_keeps(1) [of env "t + 1" "cu_head r" "Some c" "cu_entries r" ?e p1 e1] Inr pe keep replay(3) by auto
        have st: "stretch (servable t) c ?b (cu_entries r)" by (rule prefix_stretch [OF Suc.prems(3) Some _ replay(3), of "[]"]) simp
        show ?thesis
        proof (cases "int (length (cu_entries r)) < CATCHUP_PAGE_LIMIT")
          case True
          then have "stop = Ended (Some ?b)" "e' = e1" using replay(4) Inr pe k(3) by auto
          then show ?thesis using k st flo
            by (intro exI [of _ "[(t, ?b)]"] exI [of _ "cu_entries r"]) (auto simp: chain_end_def)
        next
          case False
          then have "catchUp_pages n env (t + 1 + length (cu_entries r)) False ?b (Some ?b) e1 = (stop, e')"
            using replay(4) Inr pe k(3) by simp
          from Suc.IH [OF this Suc.prems(2,3)] obtain ps hs where ih: "en_handed e' = en_handed e1 @ hs" "chain servable pruned_to ?b ps hs"
            "en_snapshots e' = en_snapshots e1 \<and> (through_of stop = Some (chain_end ?b ps) \<or> en_snapshotRecoveryRequired e') \<or>
             (\<exists>head. en_snapshots e' = en_snapshots e1 @ [head] \<and> stop = Ended (Some head))" by blast
          then have "chain servable pruned_to c ((t, ?b) # ps) (cu_entries r @ hs)" using st flo by auto
          then show ?thesis using ih k by (intro exI [of _ "(t, ?b) # ps"] exI [of _ "cu_entries r @ hs"]) simp
        qed
      qed
    qed
  qed
qed

end


section \<open>The server's pages\<close>

definition servable :: "AccessDb \<Rightarrow> SyncLogRow list \<Rightarrow> rehydrated \<Rightarrow> summaries \<Rightarrow> string \<Rightarrow> string \<Rightarrow> string list \<Rightarrow> SyncLogEntry set" where
  "servable ad rows rh sm ws userId pg =
    {e. \<exists>l\<in>set rows. sl_workspaceId l = ws \<and> entry_admitted ad rows ws userId pg l \<and> sanitize_entry rh sm (mapRowToEntry l) = Some (Some e)}"

definition server_fetch ::
  "(nat \<Rightarrow> bool) \<Rightarrow> (nat \<Rightarrow> AccessDb) \<Rightarrow> (nat \<Rightarrow> SyncDb) \<Rightarrow> (nat \<Rightarrow> SyncDb) \<Rightarrow> (nat \<Rightarrow> rehydrated) \<Rightarrow> (nat \<Rightarrow> summaries) \<Rightarrow> string \<Rightarrow> string \<Rightarrow>
    (nat \<Rightarrow> string list) \<Rightarrow> nat \<Rightarrow> int \<Rightarrow> int \<Rightarrow> CatchUpResult option" where
  "server_fetch up ad d1 d2 rh sm ws userId pg t after limit =
    (if up t then catchUp (ad t) (d1 t) (d2 t) (rh t) (sm t) ws userId (pg t) after limit else None)"

lemma sanitize_entry_id: "sanitize_entry rh sm e = Some (Some e') \<Longrightarrow> se_syncId e' = se_syncId e"
  by (auto simp: sanitize_entry_def bind_eq_Some_conv split: if_splits)

lemma sanitized_set:
  "sanitizeSyncEntries rh sm es = Some es' \<Longrightarrow> set es' = {e'. \<exists>e\<in>set es. sanitize_entry rh sm e = Some (Some e')}"
proof -
  assume "sanitizeSyncEntries rh sm es = Some es'"
  then obtain xs where x: "those (map (sanitize_entry rh sm) es) = Some xs" "es' = map the (filter (\<lambda>x. x \<noteq> None) xs)"
    by (auto simp: sanitizeSyncEntries_def)
  from those_SomeD [OF x(1)] have "sanitize_entry rh sm ` set es = Some ` set xs" by (metis list.set_map)
  then have "Some (Some e') \<in> sanitize_entry rh sm ` set es \<longleftrightarrow> Some e' \<in> set xs" for e' by auto
  then show ?thesis by (force simp: x(2) image_iff)
qed

lemma sanitized_ids:
  assumes "sanitizeSyncEntries rh sm es = Some es'" and "ids_up es"
  shows "ids_up es'"
proof -
  obtain xs where x: "those (map (sanitize_entry rh sm) es) = Some xs" "es' = map the (filter (\<lambda>x. x \<noteq> None) xs)"
    using assms(1) by (auto simp: sanitizeSyncEntries_def)
  from those_SomeD [OF x(1)] have "map (sanitize_entry rh sm) es = map Some xs" .
  with assms(2) show ?thesis unfolding x(2)
  proof (induction es arbitrary: xs)
    case (Cons e es)
    then obtain y ys where y: "xs = y # ys" "sanitize_entry rh sm e = Some y" "map (sanitize_entry rh sm) es = map Some ys" by (cases xs) auto
    have later: "se_syncId e < se_syncId z" if "Some z \<in> set ys" for z
    proof -
      have "Some (Some z) \<in> set (map (sanitize_entry rh sm) es)" unfolding y(3) using that by simp
      then obtain e0 where "e0 \<in> set es" "sanitize_entry rh sm e0 = Some (Some z)" by auto
      then show ?thesis using Cons.prems(1) sanitize_entry_id by fastforce
    qed
    have up: "ids_up (map the (filter (\<lambda>x. x \<noteq> None) ys))" using Cons.IH [OF _ y(3)] Cons.prems(1) by simp
    show ?case
    proof (cases y)
      case None
      then show ?thesis using up by (simp add: y(1))
    next
      case (Some e')
      then have "se_syncId e' = se_syncId e" using sanitize_entry_id y(2) by blast
      then have "\<forall>z\<in>set (filter (\<lambda>x. x \<noteq> None) ys). se_syncId e' < se_syncId (the z)" using later by auto
      then show ?thesis using up by (simp add: y(1) Some)
    qed
  qed simp
qed

interpretation server: paged_log
  "server_fetch up ad d1 d2 rh sm ws userId pg"
  "\<lambda>t. servable (ad t) (sync_log (d1 t)) (rh t) (sm t) ws userId (pg t)"
  "\<lambda>t. retained_from (d2 t) ws"
  "\<lambda>t. sync_log_unique (sync_log (d1 t))"
  for up ad d1 d2 rh sm ws userId pg
proof
  fix t after limit r assume "server_fetch up ad d1 d2 rh sm ws userId pg t after limit = Some r"
  then have f: "catchUp (ad t) (d1 t) (d2 t) (rh t) (sm t) ws userId (pg t) after limit = Some r" by (simp add: server_fetch_def split: if_splits)
  let ?ok = "\<lambda>l. sl_workspaceId l = ws \<and> after < sl_syncId l \<and> entry_admitted (ad t) (sync_log (d1 t)) ws userId (pg t) l"
  let ?rows = "filter ?ok (sync_log (d1 t))"
  let ?page = "order_limit sl_syncId limit ?rows"
  show "\<not> cu_requiresBootstrap r \<Longrightarrow> retained_from (d2 t) ws \<le> after"
    using f by (auto simp: catchUp_def Let_def getHeadAndRetainedFrom_def split: if_splits)
  have page: "cu_entries r = [] \<or> sanitizeSyncEntries (rh t) (sm t) (map mapRowToEntry ?page) = Some (cu_entries r)"
    using f by (auto simp: catchUp_def listEntriesForUser_def Let_def getHeadAndRetainedFrom_def split: if_splits)
  have row: "\<exists>l\<in>set ?page. sanitize_entry (rh t) (sm t) (mapRowToEntry l) = Some (Some x) \<and> se_syncId x = sl_syncId l"
    if "x \<in> set (cu_entries r)" for x
    using page that sanitized_set sanitize_entry_id by (fastforce simp: mapRowToEntry_def)
  show "x \<in> servable (ad t) (sync_log (d1 t)) (rh t) (sm t) ws userId (pg t) \<and> after < se_syncId x" if x: "x \<in> set (cu_entries r)" for x
  proof -
    obtain l where l: "l \<in> set ?page" "sanitize_entry (rh t) (sm t) (mapRowToEntry l) = Some (Some x)" "se_syncId x = sl_syncId l" using row [OF x] by blast
    have "l \<in> set ?rows" by (rule set_order_limitD [OF l(1)])
    then show ?thesis using l(2,3) by (auto simp: servable_def)
  qed
  assume key: "sync_log_unique (sync_log (d1 t))"
  have same: "l = l'" if "l \<in> set ?rows" "l' \<in> set ?rows" "sl_syncId l = sl_syncId l'" for l l'
    using key that by (auto simp: sync_log_unique_def distinct_map inj_on_def)
  show "ids_up (cu_entries r)"
  proof (cases "cu_entries r = []")
    case False
    have d: "distinct (map sl_syncId ?page)"
    proof (rule distinct_order_limit)
      have "distinct ?rows" using key by (simp add: sync_log_unique_def distinct_map)
      then show "distinct (map sl_syncId ?rows)" unfolding distinct_map using same by (auto intro: inj_onI)
    qed
    then have "sorted_wrt (<) (map sl_syncId ?page)" using sorted_order_limit strict_sorted_iff by blast
    then have "ids_up (map mapRowToEntry ?page)" by (simp add: comp_def mapRowToEntry_def)
    then show ?thesis using False page sanitized_ids by blast
  qed simp
  fix x y assume x: "x \<in> set (cu_entries r)" and y: "y \<in> servable (ad t) (sync_log (d1 t)) (rh t) (sm t) ws userId (pg t)"
    "after < se_syncId y" "se_syncId y \<le> se_syncId x"
  obtain l where l: "l \<in> set ?page" "se_syncId x = sl_syncId l" using row [OF x] by blast
  obtain l' where l': "l' \<in> set ?rows" "sanitize_entry (rh t) (sm t) (mapRowToEntry l') = Some (Some y)" "se_syncId y = sl_syncId l'"
    using y(1,2) sanitize_entry_id by (force simp: servable_def mapRowToEntry_def)
  have "l' \<in> set ?page"
  proof (rule ccontr)
    assume n: "l' \<notin> set ?page"
    then have "sl_syncId l \<le> sl_syncId l'" using l(1) l'(1) by (rule order_limit_le_rest [rotated 2])
    then have "l = l'" using y(3) l(2) l'(1,3) set_order_limitD [OF l(1)] by (intro same) simp_all
    then show False using n l(1) by simp
  qed
  then show "y \<in> set (cu_entries r)" using page l'(2) x sanitized_set by fastforce
qed


section \<open>The run leaves no gap\<close>

lemma servable_unpruned:
  assumes inv: "sync_inv (db, h)" and flo: "retained_from db ws \<le> a" and a: "a < se_syncId x"
  shows "x \<in> servable ad (sync_log db) rh sm ws u pg \<longleftrightarrow> x \<in> servable ad h rh sm ws u pg"
proof -
  have i: "sync_wf db" "set (sync_log db) \<subseteq> set h"
    "\<forall>l\<in>set h. l \<in> set (sync_log db) \<or> sl_syncId l \<le> retained_from db (sl_workspaceId l)"
    "log_key ` set h = {(ws, n). 1 \<le> n \<and> n < next_sequence db ws}"
    using inv by (auto simp: sync_inv_def)
  have pos: "0 \<le> sl_syncId l" if "l \<in> set h" for l
    using imageI [OF that, of log_key] unfolding i(4) by simp
  have f0: "0 \<le> retained_from db ws" using i(1) by (simp add: sync_wf_def)
  have adm: "entry_admitted ad (sync_log db) ws u pg l \<longleftrightarrow> entry_admitted ad h ws u pg l" if "a < sl_syncId l" for l
    using i(2,3) that flo f0 pos by (intro entry_admitted_pruned [where f = "retained_from db ws"]) auto
  have above: "a < sl_syncId l" if "sanitize_entry rh sm (mapRowToEntry l) = Some (Some x)" for l
    using sanitize_entry_id [OF that] a by (simp add: mapRowToEntry_def)
  have "l \<in> set (sync_log db)" if "l \<in> set h" "sl_workspaceId l = ws" "a < sl_syncId l" for l
    using i(3) that flo by fastforce
  then show ?thesis unfolding servable_def mem_Collect_eq using adm above i(2) by blast
qed

lemma stretch_cong: "(\<And>x. a < se_syncId x \<Longrightarrow> x \<in> srv \<longleftrightarrow> x \<in> srv') \<Longrightarrow> stretch srv a b hs \<Longrightarrow> stretch srv' a b hs"
  unfolding stretch_def by blast

lemma chain_cong:
  "(\<And>t a x. lowest t \<le> a \<Longrightarrow> a < se_syncId x \<Longrightarrow> x \<in> srv t \<longleftrightarrow> x \<in> srv' t) \<Longrightarrow> chain srv lowest a ps hs \<Longrightarrow> chain srv' lowest a ps hs"
  by (induction ps arbitrary: a hs) (auto, metis stretch_cong)

text \<open>The stored position is the one the run started from, the id of an entry whose handlers landed, or the head of a landed snapshot.\<close>

definition cursor_backed :: "int \<Rightarrow> SyncEngine \<Rightarrow> bool" where
  "cursor_backed c e \<longleftrightarrow> (\<forall>v. ct_value (en_cursor e) = Some v \<longrightarrow> v = c \<or> v \<in> se_syncId ` set (en_handed e) \<union> set (en_snapshots e))"

lemma advance_value: "ct_value (advance (int_digits n) c) = Some v \<Longrightarrow> v = n \<or> ct_value c = Some v"
  by (auto simp: advance_def parseSyncId_def split: if_splits)

lemma heal_backed: "healGapWithSnapshot env t head p e = (stop, e') \<Longrightarrow> cursor_backed c e \<Longrightarrow> cursor_backed c e'"
  by (auto simp: healGapWithSnapshot_def Let_def noteSeenHead_def store_advance_def cursor_backed_def dest!: advance_value split: if_splits option.splits)

lemma handed_backed:
  assumes "cursor_backed c e"
  shows "cursor_backed c ((store_advance env t (se_syncId x) e)\<lparr>en_failedEntrySyncId := None, en_handed := en_handed e @ [x]\<rparr>)"
  using assms by (auto simp: store_advance_def cursor_backed_def dest!: advance_value)

lemma apply_backed:
  "cursor_backed c e \<Longrightarrow> (case apply_entries env t head p xs e of Inl (stop, e') \<Rightarrow> cursor_backed c e' | Inr (p', e') \<Rightarrow> cursor_backed c e')"
proof (induction xs arbitrary: t p e)
  case (Cons x xs)
  consider "ce_destroyed env t" | "\<not> ce_destroyed env t" "ce_lands env t" | "\<not> ce_destroyed env t" "\<not> ce_lands env t" by blast
  then show ?case
  proof cases
    case 2
    then show ?thesis using Cons.IH [OF handed_backed [OF Cons.prems]] by simp
  next
    case 3
    then show ?thesis
      using Cons.prems heal_backed [of env "t + 1" head p e _ _ c]
      by (cases "healGapWithSnapshot env (t + 1) head p e") (auto simp: cursor_backed_def)
  qed (use Cons.prems in simp)
qed simp

lemma pages_backed:
  "cursor_backed c e \<Longrightarrow> catchUp_pages n env t first cur p e = (stop, e') \<Longrightarrow> cursor_backed c e'"
proof (induction n arbitrary: t first cur p e)
  case (Suc n)
  show ?case
  proof (cases "ce_fetch env t cur CATCHUP_PAGE_LIMIT")
    case None
    then show ?thesis using Suc.prems by auto
  next
    case (Some r)
    let ?e = "recovery_wanted env t e"
    let ?applied = "apply_entries env (t + 1) (cu_head r) p (cu_entries r) ?e"
    have b: "cursor_backed c ?e" using Suc.prems(1) by (simp add: cursor_backed_def recovery_wanted_def)
    show ?thesis
    proof (cases "\<not> ce_accountCurrent env t")
      case True
      then show ?thesis using Suc.prems(2) Some b by (auto simp: Let_def)
    next
      case False
      then have g: "healGapWithSnapshot env (t + 1) (cu_head r) p ?e = (stop, e') \<or> (stop, e') = (Ended p, noteSeenHead (cu_head r) ?e) \<or>
        (case ?applied of Inl stopped \<Rightarrow> stopped
           | Inr (p', e') \<Rightarrow> if int (length (cu_entries r)) < CATCHUP_PAGE_LIMIT then (Ended p', e')
               else catchUp_pages n env (t + 1 + length (cu_entries r)) False (se_syncId (last (cu_entries r))) p' e') = (stop, e')"
        using page_guards [OF Suc.prems(2) [unfolded catchUp_pages.simps Some option.case Let_def]] by blast
      from g show ?thesis
      proof (elim disjE)
        assume "(stop, e') = (Ended p, noteSeenHead (cu_head r) ?e)"
        then show ?thesis using b by (auto simp: noteSeenHead_def cursor_backed_def split: option.splits)
      next
        assume "(case ?applied of Inl stopped \<Rightarrow> stopped
           | Inr (p', e') \<Rightarrow> if int (length (cu_entries r)) < CATCHUP_PAGE_LIMIT then (Ended p', e')
               else catchUp_pages n env (t + 1 + length (cu_entries r)) False (se_syncId (last (cu_entries r))) p' e') = (stop, e')"
        then show ?thesis using apply_backed [OF b, of env "t + 1" "cu_head r" p "cu_entries r"] Suc.IH
          by (auto split: sum.splits if_splits)
      qed (rule heal_backed [OF _ b])
    qed
  qed
qed simp


text \<open>
  C31. Between the position a catch-up run starts from and the position it reopens the gate at, nothing is lost.
  Whatever appends, prunes and sweeps commit between its requests, whichever requests, dispatches and snapshots
  fail, and however access changes meanwhile: when the run reopens the gate, it does so either at the head read
  before a snapshot that landed, or at the end of a chain of stretches of the log that was never pruned, each of
  which starts where the one before it ended, was not below the pruning floor, and handed over, in order, exactly
  the entries the user could be served at that time.  The stored position is the one the run started from, the
  id of an entry whose handlers landed, or the head of the snapshot.
\<close>

theorem client_catch_up_leaves_no_gap:
  assumes hist: "\<forall>t. sync_reachable (d1 t, h t) \<and> (\<exists>h2. sync_step\<^sup>*\<^sup>* (d1 t, h t) (d2 t, h2))"
    and "ce_fetch env = server_fetch up ad d1 d2 rh sm ws userId pg"
    and "ct_value (load_end (load_begin rows (en_cursor e0))) = Some c" and "en_handed e0 = []" and "en_snapshots e0 = []"
    and "performActiveCatchUp rows env tEnd e0 = (stop, e, Some p)"
  shows "cursor_backed c e \<and>
    (\<exists>ps. chain (\<lambda>t. servable (ad t) (h t) (rh t) (sm t) ws userId (pg t)) (\<lambda>t. retained_from (d2 t) ws) c ps (en_handed e) \<and>
      (en_snapshots e = [] \<and> p = Some (chain_end c ps) \<or> (\<exists>head. en_snapshots e = [head] \<and> p = Some head)))"
proof -
  let ?e = "recovery_wanted env 0 (e0\<lparr>en_cursor := load_end (load_begin rows (en_cursor e0))\<rparr>)"
  have start: "en_handed ?e = []" "en_snapshots ?e = []" "cursor_backed c ?e"
    using assms(3-5) by (simp_all add: recovery_wanted_def cursor_backed_def)
  obtain e1 where run: "catchUp_pages MAX_CATCHUP_PAGES env 1 True c (Some c) ?e = (stop, e1)"
    and e: "e = recovery_wanted env tEnd e1" "\<not> en_snapshotRecoveryRequired e" "p = through_of stop"
  proof -
    have "ct_value (en_cursor ?e) = Some c" using assms(3) by (simp add: recovery_wanted_def)
    then have "catchUp_body rows env e0 = catchUp_pages MAX_CATCHUP_PAGES env 1 True c (Some c) ?e" by (simp add: catchUp_body_def Let_def)
    then show thesis using assms(6) that by (auto simp: performActiveCatchUp_def Let_def split: prod.splits if_splits)
  qed
  have inv: "sync_inv (d1 t, h t)" for t using hist sync_reachable_inv by blast
  then have key: "sync_log_unique (sync_log (d1 t))" for t by (simp add: sync_inv_def sync_wf_def)
  have low: "retained_from (d1 t) ws \<le> retained_from (d2 t) ws" for t
    using hist inv [of t] sync_inv_later(2) [of "(d1 t, h t)" _ ws] by (metis fst_conv)
  from server.pages_chain [OF run assms(2) key] start obtain ps where
    ps: "chain (\<lambda>t. servable (ad t) (sync_log (d1 t)) (rh t) (sm t) ws userId (pg t)) (\<lambda>t. retained_from (d2 t) ws) c ps (en_handed e1)"
    "en_snapshots e1 = [] \<and> (through_of stop = Some (chain_end c ps) \<or> en_snapshotRecoveryRequired e1) \<or>
       (\<exists>head. en_snapshots e1 = [head] \<and> stop = Ended (Some head))" by auto
  have "chain (\<lambda>t. servable (ad t) (h t) (rh t) (sm t) ws userId (pg t)) (\<lambda>t. retained_from (d2 t) ws) c ps (en_handed e1)"
    using servable_unpruned [OF inv order_trans [OF low]] by (intro chain_cong [OF _ ps(1)]) blast
  moreover have "cursor_backed c e1" by (rule pages_backed [OF start(3) run])
  ultimately show ?thesis using ps(2) e by (auto simp: recovery_wanted_def cursor_backed_def)
qed

definition ex_engine :: SyncEngine where
  "ex_engine = \<lparr>en_cursor = mkSyncLogCursor ''ws'', en_lastSeenHead = None, en_failedEntrySyncId = None, en_snapshotRecoveryRequired = False,
     en_backoffRequired = False, en_recoveryAttempts = 0, en_coldSnapshotSettled = True, en_handed = [], en_snapshots = []\<rparr>"

definition ex_env :: CatchUpEnv where
  "ex_env = \<lparr>ce_fetch = server_fetch (\<lambda>_. True) (\<lambda>_. ex_access) (\<lambda>_. ex_logged) (\<lambda>_. ex_logged) (\<lambda>_ _. None) (\<lambda>_ _ _. None) ''ws'' ''bob'' (\<lambda>_. []),
     ce_lands = (\<lambda>_. True), ce_bootstrap = (\<lambda>_. Bootstrap_done), ce_accountCurrent = (\<lambda>_. True), ce_cycleCurrent = (\<lambda>_. True),
     ce_destroyed = (\<lambda>_. False), ce_recovery = (\<lambda>_. False)\<rparr>"

theorem client_catch_up_leaves_no_gap_witness:
  "\<exists>stop e. performActiveCatchUp [(''ws:sync-log'', \<lparr>cr_cursor = ''0'', cr_updatedAt = 1\<rparr>)] ex_env 9 ex_engine = (stop, e, Some (Some 2)) \<and>
    cursor_backed 0 e \<and>
    (\<exists>ps. chain (\<lambda>t. servable ex_access (sync_log ex_logged) (\<lambda>_. None) (\<lambda>_ _. None) ''ws'' ''bob'' []) (\<lambda>t. retained_from ex_logged ''ws'') 0 ps (en_handed e) \<and>
      chain_end 0 ps = 2)"
proof -
  let ?run = "performActiveCatchUp [(''ws:sync-log'', \<lparr>cr_cursor = ''0'', cr_updatedAt = 1\<rparr>)] ex_env 9 ex_engine"
  have r: "(case ?run of (stop, e, p) \<Rightarrow> (p, en_snapshots e)) = (Some (Some 2), [])" by code_simp
  obtain stop e p where run: "?run = (stop, e, p)" by (metis prod_cases3)
  with r have p: "p = Some (Some 2)" "en_snapshots e = []" by simp_all
  have hist: "\<forall>t. sync_reachable (ex_logged, sync_log ex_logged) \<and> (\<exists>h2. sync_step\<^sup>*\<^sup>* (ex_logged, sync_log ex_logged) (ex_logged, h2))"
    using ex_history(1) by blast
  have c: "ct_value (load_end (load_begin [(''ws:sync-log'', \<lparr>cr_cursor = ''0'', cr_updatedAt = 1\<rparr>)] (en_cursor ex_engine))) = Some 0"
    "en_handed ex_engine = []" "en_snapshots ex_engine = []" by code_simp+
  have f: "ce_fetch ex_env = server_fetch (\<lambda>_. True) (\<lambda>_. ex_access) (\<lambda>_. ex_logged) (\<lambda>_. ex_logged) (\<lambda>_ _. None) (\<lambda>_ _ _. None) ''ws'' ''bob'' (\<lambda>_. [])"
    by (simp add: ex_env_def)
  from client_catch_up_leaves_no_gap [OF hist f c run [unfolded p(1)]] run p show ?thesis by auto
qed

end
