(* ===== verification/Catch_Up_Schedule.thy ===== *)
theory Catch_Up_Schedule
  imports Threa_Prelude
begin

text \<open>
  \<^verbatim>\<open>apps/frontend/src/sync/sync-engine.ts\<close>: when catch-up runs.  Connects, connectivity resumes, pulls, heartbeats
  and the gate's recovery requests pause the gate and open a cycle; runs are single-flight, a run of an older
  cycle is followed by one queued run, and a run that leaves a required snapshot behind rearms a bounded timer.
  The engine has a sync service, so it has a gate.  What a run does is \<open>Client_Catch_Up\<close>; here it is a phase, and
  bootstraps are windows that a trigger opens and closes.  \<open>sd_accountCurrent\<close> says whether the account
  generation is still the engine's, \<open>sd_awaitingConnect\<close> that the socket was lost and has not connected again.
\<close>

text \<open>A run replays, then splices the buffer (from the pause epoch it saw), then settles; the flag says whether it threw.\<close>

datatype run_phase = Replaying | Splicing nat bool | Settling bool

datatype sync_trigger = Connect | Resume | Pull

record trigger_window =
  tw_trigger :: sync_trigger
  tw_generation :: nat
  tw_connectionGeneration :: nat

text \<open>A queued run waits for the run it was chained to (\<open>False\<close>), or is about to start (\<open>True\<close>).\<close>

record SyncSchedule =
  sd_isDestroyed :: bool
  sd_accountCurrent :: bool
  sd_awaitingConnect :: bool
  sd_connectionGeneration :: nat
  sd_recoveryGeneration :: nat
  sd_paused :: bool
  sd_pauseEpoch :: nat
  sd_catchUpCycle :: nat
  sd_activeCatchUp :: "(nat \<times> run_phase) option"
  sd_queuedCatchUp :: "bool option"
  sd_snapshotRecoveryTimer :: "(nat \<times> int) option"
  sd_snapshotRecoveryAttempts :: nat
  sd_snapshotRecoveryRequired :: bool
  sd_snapshotRecoveryBackoffRequired :: bool
  sd_cursor :: "int option"
  sd_lastSeenHead :: "int option"
  sd_pendingHeartbeatHead :: "int option"
  sd_heartbeatGraceTimer :: bool
  sd_windows :: "trigger_window list"

definition mkSchedule :: SyncSchedule where
  "mkSchedule = \<lparr>sd_isDestroyed = False, sd_accountCurrent = True, sd_awaitingConnect = False, sd_connectionGeneration = 0,
     sd_recoveryGeneration = 0, sd_paused = False, sd_pauseEpoch = 0, sd_catchUpCycle = 0, sd_activeCatchUp = None,
     sd_queuedCatchUp = None, sd_snapshotRecoveryTimer = None, sd_snapshotRecoveryAttempts = 0,
     sd_snapshotRecoveryRequired = False, sd_snapshotRecoveryBackoffRequired = False, sd_cursor = None, sd_lastSeenHead = None,
     sd_pendingHeartbeatHead = None, sd_heartbeatGraceTimer = False, sd_windows = []\<rparr>"

definition cleanupHeartbeatTracking :: "SyncSchedule \<Rightarrow> SyncSchedule" where
  "cleanupHeartbeatTracking s = s\<lparr>sd_heartbeatGraceTimer := False, sd_pendingHeartbeatHead := None\<rparr>"

definition engine_destroy :: "SyncSchedule \<Rightarrow> SyncSchedule" where
  "engine_destroy s =
    (cleanupHeartbeatTracking s)\<lparr>sd_connectionGeneration := sd_connectionGeneration s + 1, sd_isDestroyed := True,
       sd_recoveryGeneration := sd_recoveryGeneration s + 1, sd_snapshotRecoveryTimer := None, sd_snapshotRecoveryRequired := False,
       sd_snapshotRecoveryBackoffRequired := False, sd_cursor := None\<rparr>"

text \<open>\<open>isAccountCurrent\<close> destroys the engine when the account has changed: the state it leaves, in which not being destroyed is its answer.\<close>

definition isAccountCurrent :: "SyncSchedule \<Rightarrow> SyncSchedule" where
  "isAccountCurrent s = (if sd_isDestroyed s \<or> sd_accountCurrent s then s else engine_destroy s)"

definition beginCatchUpCycle :: "SyncSchedule \<Rightarrow> SyncSchedule" where
  "beginCatchUpCycle s =
    (if sd_isDestroyed s then s else s\<lparr>sd_paused := True, sd_pauseEpoch := sd_pauseEpoch s + 1\<rparr>)\<lparr>sd_catchUpCycle := sd_catchUpCycle s + 1\<rparr>"

definition recovery_delay :: "nat \<Rightarrow> int" where
  "recovery_delay attempts = min 5000 (250 * 2 ^ attempts)"

definition scheduleSnapshotRecovery :: "nat \<Rightarrow> int option \<Rightarrow> SyncSchedule \<Rightarrow> SyncSchedule" where
  "scheduleSnapshotRecovery cycle delay s0 =
    (let s = isAccountCurrent s0
     in if sd_isDestroyed s \<or> cycle \<noteq> sd_catchUpCycle s \<or> \<not> sd_snapshotRecoveryRequired s then s
        else (case sd_snapshotRecoveryTimer s of
                Some (c, d) \<Rightarrow>
                  if c = cycle then s
                  else s\<lparr>sd_snapshotRecoveryTimer := Some (cycle, case delay of Some d \<Rightarrow> d | None \<Rightarrow> recovery_delay (sd_snapshotRecoveryAttempts s)),
                         sd_snapshotRecoveryAttempts := (if delay = None then sd_snapshotRecoveryAttempts s + 1 else sd_snapshotRecoveryAttempts s)\<rparr>
              | None \<Rightarrow>
                  s\<lparr>sd_snapshotRecoveryTimer := Some (cycle, case delay of Some d \<Rightarrow> d | None \<Rightarrow> recovery_delay (sd_snapshotRecoveryAttempts s)),
                    sd_snapshotRecoveryAttempts := (if delay = None then sd_snapshotRecoveryAttempts s + 1 else sd_snapshotRecoveryAttempts s)\<rparr>))"

definition runCatchUp :: "SyncSchedule \<Rightarrow> SyncSchedule" where
  "runCatchUp s =
    (if sd_isDestroyed s then s
     else (case sd_activeCatchUp s of
             Some (c, ph) \<Rightarrow>
               if c = sd_catchUpCycle s then s
               else if sd_queuedCatchUp s = None then s\<lparr>sd_queuedCatchUp := Some False\<rparr> else s
           | None \<Rightarrow> s\<lparr>sd_activeCatchUp := Some (sd_catchUpCycle s, Replaying)\<rparr>))"

definition run_queued :: "SyncSchedule \<Rightarrow> SyncSchedule" where
  "run_queued s = (if sd_queuedCatchUp s = Some True then runCatchUp (s\<lparr>sd_queuedCatchUp := None\<rparr>) else s)"

definition on_recovery_timer :: "SyncSchedule \<Rightarrow> SyncSchedule" where
  "on_recovery_timer s0 =
    (case sd_snapshotRecoveryTimer s0 of
       None \<Rightarrow> s0
     | Some (cycle, d) \<Rightarrow>
         let s = isAccountCurrent (s0\<lparr>sd_snapshotRecoveryTimer := None\<rparr>)
         in if sd_isDestroyed s \<or> cycle \<noteq> sd_catchUpCycle s \<or> \<not> sd_snapshotRecoveryRequired s then s
            else runCatchUp (s\<lparr>sd_snapshotRecoveryBackoffRequired := False\<rparr>))"

definition onRecoveryRequired :: "SyncSchedule \<Rightarrow> SyncSchedule" where
  "onRecoveryRequired s0 =
    (let s = isAccountCurrent s0
     in if sd_isDestroyed s then s
        else let s' = beginCatchUpCycle (s\<lparr>sd_snapshotRecoveryRequired := True, sd_snapshotRecoveryBackoffRequired := False\<rparr>)
             in scheduleSnapshotRecovery (sd_catchUpCycle s') (Some 0) s')"

section \<open>Inside a run\<close>

text \<open>\<open>healGapWithSnapshot\<close> before and after its await (\<open>landed\<close>: the snapshot was applied).\<close>

definition heal_begin :: "SyncSchedule \<Rightarrow> SyncSchedule" where
  "heal_begin s = (case sd_activeCatchUp s of Some (c, Replaying) \<Rightarrow> s\<lparr>sd_snapshotRecoveryRequired := True\<rparr> | _ \<Rightarrow> s)"

definition heal_end :: "bool \<Rightarrow> SyncSchedule \<Rightarrow> SyncSchedule" where
  "heal_end landed s0 =
    (case sd_activeCatchUp s0 of
       Some (c, Replaying) \<Rightarrow>
         let s = isAccountCurrent s0
         in if sd_isDestroyed s \<or> \<not> landed \<or> c \<noteq> sd_catchUpCycle s then s
            else s\<lparr>sd_snapshotRecoveryRequired := False, sd_snapshotRecoveryBackoffRequired := False, sd_snapshotRecoveryAttempts := 0\<rparr>
     | _ \<Rightarrow> s0)"

definition await_cold_snapshot :: "SyncSchedule \<Rightarrow> SyncSchedule" where
  "await_cold_snapshot s =
    (case sd_activeCatchUp s of
       Some (c, Replaying) \<Rightarrow>
         if sd_cursor s = None \<and> sd_snapshotRecoveryRequired s \<and> c = sd_catchUpCycle s then s\<lparr>sd_snapshotRecoveryBackoffRequired := True\<rparr> else s
     | _ \<Rightarrow> s)"

text \<open>The \<open>finally\<close> of the run, the end of its splice, and what \<open>runCatchUp\<close> attached to it.\<close>

definition run_finally :: "bool \<Rightarrow> SyncSchedule \<Rightarrow> SyncSchedule" where
  "run_finally threw s0 =
    (case sd_activeCatchUp s0 of
       Some (c, Replaying) \<Rightarrow>
         let s = isAccountCurrent s0
         in s\<lparr>sd_activeCatchUp := Some (c,
              if \<not> sd_snapshotRecoveryRequired s \<and> \<not> sd_isDestroyed s \<and> sd_catchUpCycle s = c then Splicing (sd_pauseEpoch s) threw else Settling threw)\<rparr>
     | _ \<Rightarrow> s0)"

definition splice_end :: "SyncSchedule \<Rightarrow> SyncSchedule" where
  "splice_end s =
    (case sd_activeCatchUp s of
       Some (c, Splicing epoch threw) \<Rightarrow>
         (if sd_isDestroyed s \<or> sd_pauseEpoch s \<noteq> epoch then s else s\<lparr>sd_paused := False\<rparr>)\<lparr>sd_activeCatchUp := Some (c, Settling threw)\<rparr>
     | _ \<Rightarrow> s)"

definition run_settle :: "SyncSchedule \<Rightarrow> SyncSchedule" where
  "run_settle s0 =
    (case sd_activeCatchUp s0 of
       Some (c, Settling threw) \<Rightarrow>
         let s1 = (if threw \<and> \<not> sd_isDestroyed s0 \<and> sd_snapshotRecoveryRequired s0 \<and> c = sd_catchUpCycle s0
                   then s0\<lparr>sd_snapshotRecoveryBackoffRequired := True\<rparr> else s0);
             s2 = s1\<lparr>sd_activeCatchUp := None, sd_queuedCatchUp := map_option (\<lambda>_. True) (sd_queuedCatchUp s1)\<rparr>
         in if \<not> sd_snapshotRecoveryRequired s2 then s2
            else let s3 = isAccountCurrent s2
                 in if sd_isDestroyed s3 \<or> c \<noteq> sd_catchUpCycle s3 then s3
                    else scheduleSnapshotRecovery c (if sd_snapshotRecoveryBackoffRequired s3 then None else Some 0) s3
     | _ \<Rightarrow> s0)"

text \<open>The cursor and the last seen head as a run or a live event moves them.\<close>

definition position_moves :: "int option \<Rightarrow> int option \<Rightarrow> SyncSchedule \<Rightarrow> SyncSchedule" where
  "position_moves cursor head s =
    (if sd_isDestroyed s then s else s\<lparr>sd_cursor := sql_greatest (sd_cursor s) cursor, sd_lastSeenHead := sql_greatest (sd_lastSeenHead s) head\<rparr>)"

section \<open>Triggers\<close>

definition heartbeatPosition :: "SyncSchedule \<Rightarrow> int option" where
  "heartbeatPosition s =
    map_option (\<lambda>c. case sd_lastSeenHead s of None \<Rightarrow> c | Some h \<Rightarrow> if h > c then h else c) (sd_cursor s)"

text \<open>\<open>head\<close>: the head of a well-formed payload for this workspace.\<close>

definition handleHeartbeat :: "int \<Rightarrow> SyncSchedule \<Rightarrow> SyncSchedule" where
  "handleHeartbeat head s =
    (if sd_isDestroyed s then s
     else (case heartbeatPosition s of
             None \<Rightarrow> s
           | Some position \<Rightarrow>
               if head \<le> position then s
               else s\<lparr>sd_pendingHeartbeatHead := sql_greatest (sd_pendingHeartbeatHead s) (Some head), sd_heartbeatGraceTimer := True\<rparr>))"

definition on_grace_timer :: "SyncSchedule \<Rightarrow> SyncSchedule" where
  "on_grace_timer s0 =
    (if \<not> sd_heartbeatGraceTimer s0 then s0
     else let s = s0\<lparr>sd_heartbeatGraceTimer := False, sd_pendingHeartbeatHead := None\<rparr>
          in case sd_pendingHeartbeatHead s0 of
               None \<Rightarrow> s
             | Some pending \<Rightarrow>
                 if sd_isDestroyed s then s
                 else (case heartbeatPosition s of
                         Some current \<Rightarrow> if pending \<le> current then s else runCatchUp (beginCatchUpCycle s)
                       | None \<Rightarrow> runCatchUp (beginCatchUpCycle s)))"

definition open_window :: "sync_trigger \<Rightarrow> SyncSchedule \<Rightarrow> SyncSchedule" where
  "open_window tr s =
    (let s1 = beginCatchUpCycle (s\<lparr>sd_recoveryGeneration := sd_recoveryGeneration s + 1\<rparr>)
     in s1\<lparr>sd_windows := \<lparr>tw_trigger = tr, tw_generation = sd_recoveryGeneration s1, tw_connectionGeneration = sd_connectionGeneration s1\<rparr> # sd_windows s1\<rparr>)"

definition onConnect :: "SyncSchedule \<Rightarrow> SyncSchedule" where
  "onConnect s =
    (if sd_isDestroyed s then s
     else cleanupHeartbeatTracking (open_window Connect (s\<lparr>sd_connectionGeneration := sd_connectionGeneration s + 1, sd_awaitingConnect := False\<rparr>)))"

definition refreshAfterConnectivityResume :: "SyncSchedule \<Rightarrow> SyncSchedule" where
  "refreshAfterConnectivityResume s = (if sd_isDestroyed s then s else open_window Resume s)"

definition refreshAfterPull :: "SyncSchedule \<Rightarrow> SyncSchedule" where
  "refreshAfterPull s = (if sd_isDestroyed s then s else open_window Pull s)"

definition onDisconnect :: "SyncSchedule \<Rightarrow> SyncSchedule" where
  "onDisconnect s =
    s\<lparr>sd_connectionGeneration := sd_connectionGeneration s + 1, sd_recoveryGeneration := sd_recoveryGeneration s + 1, sd_awaitingConnect := True\<rparr>"

text \<open>
  The bootstrap of the \<open>i\<close>th window is over.  A connect runs catch-up in its \<open>finally\<close>, whatever the account; a
  resume may adopt the new generation and bootstrap again.
\<close>

definition window_end :: "nat \<Rightarrow> bool \<Rightarrow> bool \<Rightarrow> SyncSchedule \<Rightarrow> SyncSchedule" where
  "window_end i socketConnected onLine s0 =
    (if length (sd_windows s0) \<le> i then s0
     else let w = sd_windows s0 ! i;
              s = isAccountCurrent s0;
              closed = s\<lparr>sd_windows := take i (sd_windows s) @ drop (i + 1) (sd_windows s)\<rparr>
          in case tw_trigger w of
               Connect \<Rightarrow> if tw_generation w = sd_recoveryGeneration s then runCatchUp closed else closed
             | Pull \<Rightarrow> if sd_isDestroyed s \<or> tw_generation w \<noteq> sd_recoveryGeneration s then closed else runCatchUp closed
             | Resume \<Rightarrow>
                 if sd_isDestroyed s then closed
                 else if tw_generation w = sd_recoveryGeneration s then runCatchUp closed
                 else if socketConnected \<or> \<not> onLine \<or> sd_connectionGeneration s \<le> tw_connectionGeneration w \<or>
                         sd_recoveryGeneration s - tw_generation w \<noteq> sd_connectionGeneration s - tw_connectionGeneration w then closed
                 else s\<lparr>sd_windows := (sd_windows s)[i := w\<lparr>tw_generation := sd_recoveryGeneration s, tw_connectionGeneration := sd_connectionGeneration s\<rparr>]\<rparr>)"

section \<open>Somebody always reopens the gate\<close>

inductive sched_step :: "SyncSchedule \<Rightarrow> SyncSchedule \<Rightarrow> bool" where
  "sched_step s (onConnect s)"
| "sched_step s (onDisconnect s)"
| "sched_step s (refreshAfterConnectivityResume s)"
| "sched_step s (refreshAfterPull s)"
| "sched_step s (window_end i socketConnected onLine s)"
| "sched_step s (handleHeartbeat head s)"
| "sched_step s (on_grace_timer s)"
| "sched_step s (onRecoveryRequired s)"
| "sched_step s (on_recovery_timer s)"
| "sched_step s (heal_begin s)"
| "sched_step s (heal_end landed s)"
| "sched_step s (await_cold_snapshot s)"
| "sched_step s (run_finally threw s)"
| "sched_step s (splice_end s)"
| "sched_step s (run_settle s)"
| "sched_step s (run_queued s)"
| "sched_step s (position_moves cursor head s)"
| "sched_step s (s\<lparr>sd_accountCurrent := False\<rparr>)"
| "sched_step s (engine_destroy s)"

text \<open>
  Who will reopen a paused gate: the next connect, the window of the newest generation, a queued run, the run of
  the current cycle, or the recovery timer of the current cycle.
\<close>

definition gate_owned :: "SyncSchedule \<Rightarrow> bool" where
  "gate_owned s \<longleftrightarrow> sd_awaitingConnect s \<or> sd_recoveryGeneration s \<in> tw_generation ` set (sd_windows s) \<or> sd_queuedCatchUp s \<noteq> None \<or>
    sd_catchUpCycle s \<in> fst ` set_option (sd_activeCatchUp s) \<or>
    sd_snapshotRecoveryRequired s \<and> sd_catchUpCycle s \<in> fst ` set_option (sd_snapshotRecoveryTimer s)"

definition run_ok :: "SyncSchedule \<Rightarrow> bool" where
  "run_ok s \<longleftrightarrow>
    (case sd_activeCatchUp s of
       None \<Rightarrow> sd_queuedCatchUp s \<noteq> Some False
     | Some (c, ph) \<Rightarrow> c \<le> sd_catchUpCycle s \<and>
         (case ph of
            Replaying \<Rightarrow> True
          | Splicing epoch threw \<Rightarrow> c = sd_catchUpCycle s \<longrightarrow> epoch = sd_pauseEpoch s
          | Settling threw \<Rightarrow> c = sd_catchUpCycle s \<and> sd_paused s \<longrightarrow> sd_snapshotRecoveryRequired s))"

definition timer_ok :: "SyncSchedule \<Rightarrow> bool" where
  "timer_ok s \<longleftrightarrow> (case sd_snapshotRecoveryTimer s of None \<Rightarrow> True | Some (c, d) \<Rightarrow> 0 \<le> d \<and> d \<le> 5000)"

definition sched_inv :: "SyncSchedule \<Rightarrow> bool" where
  "sched_inv s \<longleftrightarrow> sd_isDestroyed s \<or> (sd_paused s \<longrightarrow> gate_owned s) \<and> run_ok s \<and> timer_ok s"

lemmas sched_simps = sched_inv_def gate_owned_def run_ok_def timer_ok_def
lemmas sched_splits = option.splits prod.splits run_phase.splits if_splits

lemma run_ok_upd [simp]:
  "run_ok (s\<lparr>sd_snapshotRecoveryTimer := tm\<rparr>) = run_ok s" "run_ok (s\<lparr>sd_snapshotRecoveryBackoffRequired := b\<rparr>) = run_ok s"
  "run_ok (s\<lparr>sd_windows := ws\<rparr>) = run_ok s" "run_ok s \<Longrightarrow> run_ok (s\<lparr>sd_snapshotRecoveryRequired := True\<rparr>)"
  by (auto simp: run_ok_def split: sched_splits)

lemma timer_ok_upd [simp]:
  "timer_ok (s\<lparr>sd_snapshotRecoveryTimer := None\<rparr>)" "timer_ok (s\<lparr>sd_snapshotRecoveryBackoffRequired := b\<rparr>) = timer_ok s"
  "timer_ok (s\<lparr>sd_windows := ws\<rparr>) = timer_ok s" "timer_ok (s\<lparr>sd_snapshotRecoveryRequired := b\<rparr>) = timer_ok s"
  by (simp_all add: timer_ok_def)

lemma destroyed_inv [simp]: "sd_isDestroyed s \<Longrightarrow> sched_inv s"
  by (simp add: sched_inv_def)

lemma account_cases:
  obtains (current) "isAccountCurrent s = s" "\<not> sd_isDestroyed s" | (gone) "sd_isDestroyed (isAccountCurrent s)"
proof (cases "sd_isDestroyed s \<or> \<not> sd_accountCurrent s")
  case True
  then show ?thesis by (intro gone) (auto simp: isAccountCurrent_def engine_destroy_def)
next
  case False
  then show ?thesis by (intro current) (simp_all add: isAccountCurrent_def)
qed

lemma recovery_delay_bounds [simp]: "0 \<le> recovery_delay n" "recovery_delay n \<le> 5000"
  by (simp_all add: recovery_delay_def)

text \<open>Starting a run gives a paused gate an owner, whatever else holds; so does arming the timer of the current cycle.\<close>

lemma run_inv: "run_ok s \<Longrightarrow> timer_ok s \<Longrightarrow> sched_inv (runCatchUp s)"
  by (auto simp: runCatchUp_def sched_simps split: sched_splits)

lemma schedule_inv:
  assumes "run_ok s" and "timer_ok s" and "sd_snapshotRecoveryRequired s" and "0 \<le> d" and "d \<le> 5000"
  shows "sched_inv (scheduleSnapshotRecovery (sd_catchUpCycle s) None s)" "sched_inv (scheduleSnapshotRecovery (sd_catchUpCycle s) (Some d) s)"
  using assms by (cases rule: account_cases [of s]; auto simp: scheduleSnapshotRecovery_def Let_def sched_simps split: sched_splits)+

lemma begin_run_ok: "run_ok s \<Longrightarrow> run_ok (beginCatchUpCycle s)"
  by (auto simp: beginCatchUpCycle_def run_ok_def split: sched_splits)

lemma begin_timer_ok: "timer_ok (beginCatchUpCycle s) = timer_ok s"
  by (simp add: beginCatchUpCycle_def timer_ok_def)

lemma inv_parts: "sched_inv s \<Longrightarrow> \<not> sd_isDestroyed s \<Longrightarrow> run_ok s \<and> timer_ok s"
  by (simp add: sched_inv_def)

lemma inv_window: "sched_inv s \<Longrightarrow> sched_inv (if sd_isDestroyed s then s else open_window tr s)"
  by (auto simp: open_window_def Let_def beginCatchUpCycle_def sched_simps split: sched_splits)

lemma inv_connect: "sched_inv s \<Longrightarrow> sched_inv (onConnect s)"
  by (auto simp: onConnect_def cleanupHeartbeatTracking_def open_window_def Let_def beginCatchUpCycle_def sched_simps split: sched_splits)

lemma inv_disconnect: "sched_inv s \<Longrightarrow> sched_inv (onDisconnect s)"
  by (auto simp: onDisconnect_def sched_simps split: sched_splits)

lemma inv_heartbeat: "sched_inv s \<Longrightarrow> sched_inv (handleHeartbeat head s)"
  by (auto simp: handleHeartbeat_def sched_simps split: sched_splits)

lemma inv_grace: "sched_inv s \<Longrightarrow> sched_inv (on_grace_timer s)"
proof -
  assume inv: "sched_inv s"
  let ?s = "s\<lparr>sd_heartbeatGraceTimer := False, sd_pendingHeartbeatHead := None\<rparr>"
  have keep: "sched_inv ?s" using inv by (auto simp: sched_simps split: sched_splits)
  have "sched_inv (runCatchUp (beginCatchUpCycle ?s))" if "\<not> sd_isDestroyed s"
    using inv_parts [OF keep] that by (intro run_inv) (simp_all add: begin_run_ok begin_timer_ok)
  then show ?thesis using inv keep by (auto simp: on_grace_timer_def Let_def split: option.splits)
qed

lemma inv_recovery: "sched_inv s \<Longrightarrow> sched_inv (onRecoveryRequired s)"
proof (cases rule: account_cases [of s])
  case current
  assume "sched_inv s"
  let ?s = "beginCatchUpCycle (s\<lparr>sd_snapshotRecoveryRequired := True, sd_snapshotRecoveryBackoffRequired := False\<rparr>)"
  have "run_ok ?s" "timer_ok ?s"
    using inv_parts [OF \<open>sched_inv s\<close> current(2)] by (simp_all add: begin_run_ok begin_timer_ok)
  moreover have "sd_snapshotRecoveryRequired ?s" by (simp add: beginCatchUpCycle_def)
  ultimately show ?thesis using schedule_inv(2) [of ?s 0] current by (simp add: onRecoveryRequired_def Let_def)
qed (simp add: onRecoveryRequired_def Let_def)

lemma inv_timer: "sched_inv s \<Longrightarrow> sched_inv (on_recovery_timer s)"
proof (cases "sd_snapshotRecoveryTimer s")
  case (Some cd)
  assume inv: "sched_inv s"
  obtain c d where cd: "cd = (c, d)" by (cases cd)
  let ?s = "s\<lparr>sd_snapshotRecoveryTimer := None\<rparr>"
  show ?thesis
  proof (cases rule: account_cases [of ?s])
    case current
    then have ok: "run_ok ?s" "timer_ok ?s" using inv_parts [OF inv] by simp_all
    show ?thesis
    proof (cases "c = sd_catchUpCycle s \<and> sd_snapshotRecoveryRequired s")
      case True
      have "sched_inv (runCatchUp (?s\<lparr>sd_snapshotRecoveryBackoffRequired := False\<rparr>))"
        using ok by (intro run_inv) simp_all
      then show ?thesis using current True by (simp add: on_recovery_timer_def Some cd Let_def)
    next
      case False
      then have "sched_inv ?s" using inv current ok by (auto simp: sched_inv_def gate_owned_def Some cd)
      then show ?thesis using current False by (auto simp: on_recovery_timer_def Some cd Let_def)
    qed
  qed (simp add: on_recovery_timer_def Some cd Let_def)
qed (simp add: on_recovery_timer_def)

lemma inv_heal: "sched_inv s \<Longrightarrow> sched_inv (heal_begin s)" "sched_inv s \<Longrightarrow> sched_inv (await_cold_snapshot s)"
  by (auto simp: heal_begin_def await_cold_snapshot_def sched_simps split: sched_splits)

lemma inv_heal_end: "sched_inv s \<Longrightarrow> sched_inv (heal_end landed s)"
  by (cases rule: account_cases [of s]) (auto simp: heal_end_def Let_def sched_simps split: sched_splits)

lemma inv_finally: "sched_inv s \<Longrightarrow> sched_inv (run_finally threw s)"
  by (cases rule: account_cases [of s]) (auto simp: run_finally_def Let_def sched_simps split: sched_splits)

lemma inv_splice: "sched_inv s \<Longrightarrow> sched_inv (splice_end s)"
  by (auto simp: splice_end_def sched_simps split: sched_splits)


lemma inv_settle: "sched_inv s \<Longrightarrow> sched_inv (run_settle s)"
proof -
  assume inv: "sched_inv s"
  show ?thesis
  proof (cases "\<exists>c threw. sd_activeCatchUp s = Some (c, Settling threw)")
    case True
    then obtain c threw where a: "sd_activeCatchUp s = Some (c, Settling threw)" by blast
    let ?s1 = "if threw \<and> \<not> sd_isDestroyed s \<and> sd_snapshotRecoveryRequired s \<and> c = sd_catchUpCycle s then s\<lparr>sd_snapshotRecoveryBackoffRequired := True\<rparr> else s"
    define s2 where "s2 = ?s1\<lparr>sd_activeCatchUp := None, sd_queuedCatchUp := map_option (\<lambda>_. True) (sd_queuedCatchUp ?s1)\<rparr>"
    have eq: "run_settle s = (if \<not> sd_snapshotRecoveryRequired s2 then s2
        else let s3 = isAccountCurrent s2 in if sd_isDestroyed s3 \<or> c \<noteq> sd_catchUpCycle s3 then s3
             else scheduleSnapshotRecovery c (if sd_snapshotRecoveryBackoffRequired s3 then None else Some 0) s3)"
      by (simp only: run_settle_def a option.case prod.case run_phase.case Let_def s2_def)
    have same: "sd_isDestroyed s2 = sd_isDestroyed s" "sd_catchUpCycle s2 = sd_catchUpCycle s" "sd_snapshotRecoveryRequired s2 = sd_snapshotRecoveryRequired s"
      by (simp_all add: s2_def)
    have ok: "run_ok s2" "timer_ok s2" if "\<not> sd_isDestroyed s" using inv_parts [OF inv that] by (auto simp: s2_def run_ok_def timer_ok_def)
    have other: "sched_inv s2" if "c \<noteq> sd_catchUpCycle s \<or> \<not> sd_snapshotRecoveryRequired s"
      using inv that a by (auto simp: s2_def sched_simps)
    show ?thesis
    proof (cases rule: account_cases [of s2])
      case current
      have d: "\<not> sd_isDestroyed s" using current(2) same by simp
      show ?thesis
      proof (cases "sd_snapshotRecoveryRequired s \<and> c = sd_catchUpCycle s")
        case True
        then have "sched_inv (scheduleSnapshotRecovery (sd_catchUpCycle s2) (if sd_snapshotRecoveryBackoffRequired s2 then None else Some 0) s2)"
          using schedule_inv [OF ok [OF d], of 0] same by simp
        then show ?thesis using True current same by (simp add: eq)
      next
        case False
        then show ?thesis using other current same by (auto simp: eq)
      qed
    next
      case gone
      then show ?thesis using other same by (auto simp: eq Let_def)
    qed
  next
    case False
    then show ?thesis using inv by (auto simp: run_settle_def split: option.splits run_phase.splits)
  qed
qed

lemma inv_queued: "sched_inv s \<Longrightarrow> sched_inv (run_queued s)"
proof (cases "sd_queuedCatchUp s = Some True \<and> \<not> sd_isDestroyed s")
  case True
  assume inv: "sched_inv s"
  have "run_ok (s\<lparr>sd_queuedCatchUp := None\<rparr>)" "timer_ok (s\<lparr>sd_queuedCatchUp := None\<rparr>)"
    using inv_parts [OF inv] True by (auto simp: run_ok_def timer_ok_def split: sched_splits)
  then show ?thesis using True by (simp add: run_queued_def run_inv)
qed (auto simp: run_queued_def runCatchUp_def)

text \<open>Closing a window: a window of the newest generation starts a run, and no other window owns the gate.\<close>

lemma set_without: "i < length xs \<Longrightarrow> y \<in> set xs \<Longrightarrow> y \<noteq> xs ! i \<Longrightarrow> y \<in> set (take i xs @ drop (i + 1) xs)"
  using arg_cong [OF id_take_nth_drop [of i xs], of set] by auto

lemma inv_closed:
  assumes inv: "sched_inv s" and i: "i < length (sd_windows s)" and old: "tw_generation (sd_windows s ! i) \<noteq> sd_recoveryGeneration s"
  shows "sched_inv (s\<lparr>sd_windows := take i (sd_windows s) @ drop (i + 1) (sd_windows s)\<rparr>)"
proof -
  have "sd_recoveryGeneration s \<in> tw_generation ` set (take i (sd_windows s) @ drop (i + 1) (sd_windows s))"
    if newest: "sd_recoveryGeneration s \<in> tw_generation ` set (sd_windows s)"
  proof -
    obtain w where w: "w \<in> set (sd_windows s)" "tw_generation w = sd_recoveryGeneration s" using newest by auto
    then have "w \<in> set (take i (sd_windows s) @ drop (i + 1) (sd_windows s))" using old by (intro set_without [OF i]) auto
    then show ?thesis using w(2) by force
  qed
  then show ?thesis using inv by (auto simp: sched_inv_def gate_owned_def)
qed

lemma inv_window_end: "sched_inv s \<Longrightarrow> sched_inv (window_end i socketConnected onLine s)"
proof -
  assume inv: "sched_inv s"
  show ?thesis
  proof (cases "length (sd_windows s) \<le> i")
    case True
    then show ?thesis using inv by (simp add: window_end_def)
  next
    case False
    let ?closed = "\<lambda>s. s\<lparr>sd_windows := take i (sd_windows s) @ drop (i + 1) (sd_windows s)\<rparr>"
    show ?thesis
    proof (cases rule: account_cases [of s])
      case current
      let ?w = "sd_windows s ! i"
      have started: "sched_inv (runCatchUp (?closed s))" using inv_parts [OF inv current(2)] by (intro run_inv) simp_all
      have closed: "sched_inv (?closed s)" if "tw_generation ?w \<noteq> sd_recoveryGeneration s" using inv_closed [OF inv] False that by simp
      have again: "sched_inv (s\<lparr>sd_windows := (sd_windows s)[i := ?w\<lparr>tw_generation := sd_recoveryGeneration s, tw_connectionGeneration := n\<rparr>]\<rparr>)" for n
      proof -
        have "?w\<lparr>tw_generation := sd_recoveryGeneration s, tw_connectionGeneration := n\<rparr> \<in>
            set ((sd_windows s)[i := ?w\<lparr>tw_generation := sd_recoveryGeneration s, tw_connectionGeneration := n\<rparr>])"
          using False by (simp add: set_update_memI)
        from imageI [OF this, of tw_generation] show ?thesis using inv_parts [OF inv current(2)] by (simp add: sched_inv_def gate_owned_def)
      qed
      show ?thesis using False current started closed again by (auto simp: window_end_def Let_def split: sync_trigger.splits)
    next
      case gone
      then have "sd_isDestroyed (window_end i socketConnected onLine s)"
        using False by (auto simp: window_end_def Let_def runCatchUp_def split: sync_trigger.splits)
      then show ?thesis by simp
    qed
  qed
qed

lemma inv_rest:
  "sched_inv s \<Longrightarrow> sched_inv (position_moves cursor head s)" "sched_inv s \<Longrightarrow> sched_inv (s\<lparr>sd_accountCurrent := False\<rparr>)"
  "sched_inv (engine_destroy s)"
  by (auto simp: position_moves_def engine_destroy_def sched_simps split: sched_splits)

lemmas inv_steps = inv_connect inv_disconnect inv_window inv_window_end inv_heartbeat inv_grace inv_recovery inv_timer inv_heal inv_heal_end
  inv_finally inv_splice inv_settle inv_queued inv_rest

lemma sched_step_inv: "sched_step s s' \<Longrightarrow> sched_inv s \<Longrightarrow> sched_inv s'"
  by (induction rule: sched_step.induct)
    (simp_all only: inv_steps refreshAfterConnectivityResume_def refreshAfterPull_def)

lemma sched_reachable_inv: "sched_step\<^sup>*\<^sup>* mkSchedule s \<Longrightarrow> sched_inv s"
proof (induction rule: rtranclp_induct)
  case base
  show ?case by (simp add: mkSchedule_def sched_simps)
qed (rule sched_step_inv)


text \<open>The steps that are already owed: nothing new is triggered, except that a lost socket connects again.\<close>

inductive owed_step :: "SyncSchedule \<Rightarrow> SyncSchedule \<Rightarrow> bool" where
  "sd_awaitingConnect s \<Longrightarrow> owed_step s (onConnect s)"
| "owed_step s (window_end i socketConnected onLine s)"
| "owed_step s (on_recovery_timer s)"
| "owed_step s (heal_end True s)"
| "owed_step s (run_finally threw s)"
| "owed_step s (splice_end s)"
| "owed_step s (run_settle s)"
| "owed_step s (run_queued s)"

lemma owed_is_step: "owed_step s s' \<Longrightarrow> sched_step s s'"
  by (induction rule: owed_step.induct) (rule sched_step.intros)+

definition serving :: "SyncSchedule \<Rightarrow> bool" where
  "serving s \<longleftrightarrow> sched_inv s \<and> \<not> sd_isDestroyed s \<and> sd_accountCurrent s"

lemma account_id: "sd_accountCurrent s \<Longrightarrow> isAccountCurrent s = s"
  by (simp add: isAccountCurrent_def)

lemma owed_account: "owed_step s s' \<Longrightarrow> \<not> sd_isDestroyed s \<and> sd_accountCurrent s \<Longrightarrow> \<not> sd_isDestroyed s' \<and> sd_accountCurrent s'"
  by (induction rule: owed_step.induct)
    (auto simp: onConnect_def open_window_def beginCatchUpCycle_def cleanupHeartbeatTracking_def window_end_def on_recovery_timer_def heal_end_def
      run_finally_def splice_end_def run_settle_def run_queued_def runCatchUp_def scheduleSnapshotRecovery_def Let_def account_id
      split: option.split run_phase.split sync_trigger.split prod.split)

lemma owed_serving: "owed_step s s' \<Longrightarrow> serving s \<Longrightarrow> serving s'"
  using owed_account sched_step_inv owed_is_step unfolding serving_def by blast

lemma current_run_reopens:
  assumes "serving s" and "sd_activeCatchUp s = Some (sd_catchUpCycle s, Replaying)"
  shows "\<exists>s'. owed_step\<^sup>*\<^sup>* s s' \<and> serving s' \<and> \<not> sd_paused s'"
proof -
  let ?s1 = "heal_end True s" and ?s2 = "run_finally False (heal_end True s)" and ?s3 = "splice_end (run_finally False (heal_end True s))"
  have "owed_step s ?s1" "owed_step ?s1 ?s2" "owed_step ?s2 ?s3" by (rule owed_step.intros)+
  moreover from this have "serving ?s3" using owed_serving assms(1) by blast
  moreover have "\<not> sd_paused ?s3"
    using assms by (simp add: serving_def account_id heal_end_def run_finally_def splice_end_def Let_def)
  ultimately show ?thesis by (meson converse_rtranclp_into_rtranclp rtranclp.rtrancl_refl)
qed

lemma idle_starts:
  assumes s: "serving s" and p: "sd_paused s" and a: "sd_activeCatchUp s = None"
  shows "\<exists>s'. owed_step\<^sup>*\<^sup>* s s' \<and> serving s' \<and> sd_activeCatchUp s' = Some (sd_catchUpCycle s', Replaying)"
proof -
  have live: "\<not> sd_isDestroyed s" "isAccountCurrent s = s" "sd_accountCurrent s" using s by (simp_all add: serving_def account_id)
  have single: ?thesis if "owed_step s s'" "sd_activeCatchUp s' = Some (sd_catchUpCycle s', Replaying)" for s'
    using that owed_serving s by blast
  have newest: "\<exists>s'. owed_step\<^sup>*\<^sup>* s s' \<and> serving s' \<and> sd_activeCatchUp s' = Some (sd_catchUpCycle s', Replaying)"
    if w: "serving s" "sd_activeCatchUp s = None" "sd_recoveryGeneration s \<in> tw_generation ` set (sd_windows s)" for s
  proof -
    obtain i where i: "i < length (sd_windows s)" "tw_generation (sd_windows s ! i) = sd_recoveryGeneration s"
      using w(3) by (auto simp: in_set_conv_nth)
    have "owed_step s (window_end i True True s)" by (rule owed_step.intros)
    moreover have "sd_activeCatchUp (window_end i True True s) = Some (sd_catchUpCycle (window_end i True True s), Replaying)"
      using w(1,2) i by (simp add: window_end_def Let_def runCatchUp_def serving_def account_id split: sync_trigger.split)
    ultimately show ?thesis using owed_serving w(1) by blast
  qed
  have "gate_owned s" "sd_queuedCatchUp s \<noteq> Some False" using s p a by (auto simp: serving_def sched_inv_def run_ok_def)
  then consider (connect) "sd_awaitingConnect s" | (window) "sd_recoveryGeneration s \<in> tw_generation ` set (sd_windows s)"
    | (queued) "sd_queuedCatchUp s = Some True" | (timer) d where "sd_snapshotRecoveryRequired s" "sd_snapshotRecoveryTimer s = Some (sd_catchUpCycle s, d)"
    using a by (auto simp: gate_owned_def)
  then show ?thesis
  proof cases
    case connect
    have step: "owed_step s (onConnect s)" by (rule owed_step.intros(1) [OF connect])
    have "sd_activeCatchUp (onConnect s) = None" "sd_recoveryGeneration (onConnect s) \<in> tw_generation ` set (sd_windows (onConnect s))"
      using live a by (simp_all add: onConnect_def open_window_def Let_def beginCatchUpCycle_def cleanupHeartbeatTracking_def)
    from newest [OF owed_serving [OF step s] this] step show ?thesis by (meson converse_rtranclp_into_rtranclp)
  next
    case window
    then show ?thesis by (rule newest [OF s a])
  next
    case queued
    then show ?thesis using live a by (intro single [OF owed_step.intros(8)]) (simp add: run_queued_def runCatchUp_def)
  next
    case (timer d)
    then show ?thesis using live a
      by (intro single [OF owed_step.intros(3)]) (simp add: on_recovery_timer_def Let_def runCatchUp_def account_id)
  qed
qed

lemma run_ends:
  assumes "serving s" and "sd_activeCatchUp s = Some (c, ph)"
  shows "\<exists>s'. owed_step\<^sup>*\<^sup>* s s' \<and> serving s' \<and> sd_activeCatchUp s' = None"
proof -
  have settle: "\<exists>s'. owed_step\<^sup>*\<^sup>* s s' \<and> serving s' \<and> sd_activeCatchUp s' = None"
    if "serving s" "sd_activeCatchUp s = Some (c, Settling threw)" for s threw
  proof -
    have "owed_step s (run_settle s)" by (rule owed_step.intros)
    moreover have "sd_activeCatchUp (run_settle s) = None"
      using that by (simp add: run_settle_def Let_def scheduleSnapshotRecovery_def serving_def account_id split: option.split prod.split)
    ultimately show ?thesis using owed_serving that(1) by blast
  qed
  have splice: "\<exists>s'. owed_step\<^sup>*\<^sup>* s s' \<and> serving s' \<and> sd_activeCatchUp s' = None"
    if "serving s" "sd_activeCatchUp s = Some (c, Splicing e threw)" for s e threw
  proof -
    have step: "owed_step s (splice_end s)" by (rule owed_step.intros)
    have "sd_activeCatchUp (splice_end s) = Some (c, Settling threw)" using that(2) by (simp add: splice_end_def)
    from settle [OF owed_serving [OF step that(1)] this] step show ?thesis by (meson converse_rtranclp_into_rtranclp)
  qed
  show ?thesis
  proof (cases ph)
    case Replaying
    have step: "owed_step s (run_finally False s)" by (rule owed_step.intros)
    note srv = owed_serving [OF step assms(1)]
    have "(\<exists>e. sd_activeCatchUp (run_finally False s) = Some (c, Splicing e False)) \<or> sd_activeCatchUp (run_finally False s) = Some (c, Settling False)"
      using assms(2) by (simp add: run_finally_def Let_def Replaying)
    then show ?thesis using splice [OF srv] settle [OF srv] step by (meson converse_rtranclp_into_rtranclp)
  qed (use assms splice settle in auto)
qed


text \<open>A heartbeat reveals a gap, the run's snapshot fails, and the timer is armed while the gate stays paused.\<close>

definition ex_stuck :: SyncSchedule where
  "ex_stuck = run_settle (run_finally True (heal_end False (heal_begin (on_grace_timer (handleHeartbeat 9 (position_moves (Some 3) None mkSchedule))))))"


end
