(* ===== verification/Spec2Isabelle.thy ===== *)
theory Spec2Isabelle
  imports
    Outbox_Handler Outbox_Retention Outbox_Dispatcher Debounce Ticker
    Queue_Manager Queue_Retention Queue_Glue Operation_Leases
    Delivery_Groups People Slots Sync_Service Broadcast
    Unread_Counts Operation_Queue Drafts
    Unread_Counters Client_Catch_Up Catch_Up_Schedule
begin

text \<open>
  Threa is a messaging product.  This development verifies the machinery that carries its events: the
  transactional outbox and its listeners, the job queue and its cron, the routing of events to the people who may
  read them, the sync log that lets a client catch up on what it missed, the part of the client that does so, and the
  log of each stream with the read positions of its readers.
  Paths below are relative to \<^verbatim>\<open>src/\<close>.

  \<^bold>\<open>How the parts interact.\<close>  A request writes domain rows and an outbox event in one transaction.  The dispatcher of
  each process wakes the listeners; each listener holds a cursor lock, reads events past its cursor, and compacts
  a sliding window of processed ids so that ids committed out of order are not lost.  The broadcast listener
  computes the audience of an event, appends it to the sync log of the workspace under a dense sync id, emits it to
  Socket.IO rooms, and evicts sockets from rooms their user may no longer read; a sweep logs what it missed.
  Clients hold a position in that log: live events advance it, and after a gap the client pages the log through
  the catch-up endpoint, which admits entries by the same access rules and re-reads stored content.  Background
  work goes through a queue table: tokens spread workers over tenants, messages are claimed for a time and
  completed, retried or dead-lettered, and cron ticks enqueue jobs.  Every stream has a log of events, numbered twice: over all events, and
  densely over those that every member sees; a client finds the rows it misses by the gaps in the second number.  A
  reader has a watermark in the log and an overlay of messages read one by one above it; moving messages to a thread
  rewrites both.  What a client does offline it keeps as operations that it replays in order.

  \<^bold>\<open>Theories and sources.\<close>
  \<^item> \<open>Threa_Prelude\<close>, \<open>Json\<close>: tables as lists of rows with the statement forms of the repositories, clocks,
    JavaScript numbers, arrays, strings and JSON values.
  \<^item> \<open>Timed_Lease\<close>, \<open>Batched_Drain\<close>: two contracts as locales, interpreted on every lock and on every retention
    statement of the model.
  \<^item> \<open>Backoff\<close>, \<open>Debounce\<close>, \<open>Ticker\<close>, \<open>Outbox_Repository\<close>, \<open>Outbox_Compact\<close>, \<open>Cursor_Lock\<close>, \<open>Outbox_Dispatcher\<close>,
    \<open>Outbox_Retention\<close>: \<^verbatim>\<open>packages/backend-common/src\<close>.  \<open>Outbox_Handler\<close>:
    \<^verbatim>\<open>apps/backend/src/lib/outbox/debounced-handler.ts\<close>.
  \<^item> \<open>Queue_Repository\<close>, \<open>Token_Pool\<close>, \<open>Cron\<close>, \<open>Queue_Manager\<close>, \<open>Queue_Retention\<close>, \<open>Queue_Glue\<close>:
    \<^verbatim>\<open>apps/backend/src/lib/queue\<close>.  \<open>Operation_Leases\<close>: \<^verbatim>\<open>apps/backend/src/lib/operation-leases\<close>.
  \<^item> \<open>Permissions\<close>, \<open>Workspace_Authz\<close>, \<open>Stream_Access\<close>, \<open>People\<close>: roles and scopes of \<^verbatim>\<open>packages/types\<close>, the mirror of
    the identity provider's memberships, who reads which stream and who sees whom
    (\<^verbatim>\<open>apps/backend/src/features/workspace-authz\<close>, \<^verbatim>\<open>streams/access.ts\<close>, \<^verbatim>\<open>workspaces/people.ts\<close>).
  \<^item> \<open>Delivery_Groups\<close>, \<open>Delivery_Rooms\<close>, \<open>Room_Eviction\<close>, \<open>Broadcast\<close>: \<^verbatim>\<open>apps/backend/src/lib/outbox\<close>
    (\<^verbatim>\<open>delivery-groups.ts\<close>, \<^verbatim>\<open>audiences.ts\<close>, \<^verbatim>\<open>room-eviction.ts\<close>, \<^verbatim>\<open>broadcast-handler.ts\<close>).
  \<^item> \<open>Sync_Log\<close>, \<open>Sync_Sanitize\<close>, \<open>Sync_Service\<close>, \<open>Sync_Reconciliation\<close>, \<open>Slots\<close>: \<^verbatim>\<open>apps/backend/src/features/sync\<close> and
    the slot keys of \<^verbatim>\<open>packages/types/src/slots.ts\<close>.
  \<^item> \<open>Client_Cursor\<close>, \<open>Event_Gate\<close>, \<open>Client_Catch_Up\<close>, \<open>Catch_Up_Schedule\<close>, \<open>Unread_Counters\<close>: \<^verbatim>\<open>apps/frontend/src/sync\<close>
    (\<^verbatim>\<open>sync-log-cursor.ts\<close>, \<^verbatim>\<open>socket-event-gate.ts\<close>, \<^verbatim>\<open>sync-engine.ts\<close>, \<^verbatim>\<open>unread-counters.ts\<close>).
  \<^item> \<open>Stream_Events\<close>, \<open>Message_Move\<close>, \<open>Contiguity\<close>, \<open>Timeline_Chain\<close>: the event log of a stream
    (\<^verbatim>\<open>features/streams/event-repository.ts\<close>), what a move of messages writes to it (\<^verbatim>\<open>features/messaging/event-service.ts\<close>), the client's
    hole scan (\<^verbatim>\<open>sync/contiguity.ts\<close>), and the invariant that connects them.
  \<^item> \<open>Read_State\<close>, \<open>Sparse_Read\<close>, \<open>Read_Marks\<close>, \<open>Unread_Counts\<close>: watermark and overlay of a reader
    (\<^verbatim>\<open>read-state-repository.ts\<close>, \<^verbatim>\<open>sparse-read-repository.ts\<close>, \<^verbatim>\<open>sparse-read.ts\<close>, \<^verbatim>\<open>effective-read-state.ts\<close>, parts of \<^verbatim>\<open>service.ts\<close>, all in
    \<^verbatim>\<open>features/streams\<close>); the two theories of proofs are about single operations and about all their sequences.
  \<^item> \<open>Operation_Queue\<close>: \<^verbatim>\<open>apps/frontend/src/sync/operation-queue.ts\<close> and \<^verbatim>\<open>operation-stamp.ts\<close>.
  \<^item> \<open>Drafts\<close>: the drafts that roam over a user's devices, \<^verbatim>\<open>apps/backend/src/features/drafts\<close>.

  \<^bold>\<open>State and operations.\<close>  A table is a list of records, one field per column that the code reads; a statement is a
  function on the table with its \<open>WHERE\<close>, \<open>ORDER BY\<close>, \<open>LIMIT\<close> and \<open>ON CONFLICT\<close> written out, and rows skipped by
  \<open>SKIP LOCKED\<close> are an argument.  A class is a record of its fields and one function per method, split where it
  awaits, so that other steps may come between; callbacks of timers, promises and sockets are steps of their own.
  What several processes or tabs do is an inductive step relation over all of them.  Raised errors are the left
  side of a sum or \<open>None\<close>.  Integers are unbounded where the code uses \<open>bigint\<close> or small counts; \<open>Slots\<close> rounds at
  \<open>2\<^sup>53\<close> as \<open>Number\<close> does, and the gap ceiling, which the code sets to \<open>Infinity\<close>, is a number or infinite.

  \<^bold>\<open>What is shown.\<close>
  \<^item> Outbox: locks exclude each other; a run keeps its progress, and releases its lock on every path; the handler
    sees the events of a run in order and none twice; a skipped id is proven dead or logged; a failing event backs
    off and is finally dead-lettered; retention keeps what a listener still needs; the dispatcher keeps polling; a
    trigger of the debouncer is answered within the maximum wait.
  \<^item> Queue: claims exclude each other, every statement keeps the table well formed, a claimed message ends
    completed, retried, dead-lettered or untouched exactly as its handler says, the budget of a tier is never
    exceeded, tokens respect fairness and limit, concurrent schedule managers create one tick, and a
    lease for a batch operation is used once.
  \<^item> Access and delivery: the three resolutions of roles agree, the mirror of memberships converges, everybody in
    the room of a stream may read it, guests hear open events only, eviction leaves only readable rooms.
  \<^item> Sync log: appending is dense and idempotent, what is emitted is what is logged, the sweep is exhaustive,
    catch-up hides no pruning, serves only what the user may read, and serves stored content fresh.
  \<^item> Client: the position never regresses across tabs, every event that passes the gate is spliced or kept for
    recovery, a catch-up run leaves no gap between its start and the position it reopens the gate at (composed with
    the server's model, whatever commits meanwhile), a paused gate always has an owner that reopens it, and unread
    counters converge, match the rows they count and merge with a bootstrap stream by stream.
  \<^item> Streams: after any sequence of inserts and moves every broadcast slot below the next one is taken by one row or declared
    vacated, so the hole scan of a client that misses some rows reports these and no others; reading or unreading single
    messages changes what is read exactly as asked, up to deleted messages, and the unread count served is the
    number of messages not read.  The step relation of the last leaves out a send while the reader's overlay has rows
    below the new event: for that case \<open>own_send_hides_an_unread_message\<close> shows that the count is wrong.
  \<^item> Offline operations: a drain ends, tries an operation once and in order, and drops only what the server took or refused for
    good; \<open>retried_edit_overwrites_later_edit\<close> shows what happens to the order across two drains.
  \<^item> Drafts: a push that is accepted stays in a live row until an operation shows that its author has seen the row, unless a
    tombstone proves that it was sent or discarded; writes covered by a resolve or a discard never come back; a push may be
    repeated.  The lemmas at the end of the theory are the cases where the comments promise more.

  \<^bold>\<open>Bounds and fuel.\<close>  The run of the cursor lock loops until its batch is empty; \<open>run\<close> takes fuel, and the
  theorem on the runs of a handler says that fuel above the number of unhandled events is enough.  The subtree query of \<open>Room_Eviction\<close> needs at
  most as many levels as there are streams.  A drain of the operation queue takes one round for each operation that was there or
  arrived, and one more to find that it is done.  The catch-up run has the code's own bound of 20 pages, retention and
  sweeps their own number of batches.

  \<^bold>\<open>Parameters.\<close>  Clocks, \<open>Math.random\<close>, drawn ids, the event handlers of subclasses, the job handlers,
  \<open>invalidatePointersForEvent\<close>, \<open>hydrateSharedMessageRefs\<close>, \<open>resolveMemoSummariesByStream\<close> and the outcome of every
  network call are arguments.

  \<^bold>\<open>Not modelled.\<close>  The HTTP and socket layers, the feature repositories and services built on the outbox and the
  queue (messaging, calls, agents, memos), AI providers, storage, migrations, the control plane and the routers, the
  React interface and the client's socket handlers that write to its query caches.  They are mostly SQL, calls to
  third-party services or user interface.  The messages of one token run one after the other in \<open>Queue_Manager\<close>
  although the code runs them concurrently; metrics (but for the depth gauges of \<open>Queue_Glue\<close>), traces and log lines
  are left out unless a theorem speaks of them.
\<close>

end
